(* ===== verification/MptBase.thy ===== *)
theory MptBase
  imports Main "HOL-Library.Word" "HOL-Library.Monad_Syntax"
begin

text \<open>
  Shared vocabulary of the development.

  \<^item> A byte is an \<open>8 word\<close>; a memory block (the object a pointer of the library points
    into) is a list of bytes, and a pointer into it is an index.
  \<^item> A computation of type \<open>'a option\<close> is a call of a C function: \<open>None\<close> means that the call has
    undefined behaviour (a read or write outside of the block, an overlapping \<open>memcpy\<close>, a
    dereferenced null pointer, a division by zero) or aborts the process, \<open>Some\<close> that it returns.
  \<^item> Results of the functions are \<open>int\<close> (as \<open>int\<close> or \<open>ssize_t\<close> of the source), negative values
    are the error codes of \<open>enum MPT_ENUM(Errors)\<close> in \<open>mptcore/core.h\<close>.
  \<^item> A \<open>size_t\<close> is a \<open>nat\<close>.  Sums of sizes of live objects do not wrap, a difference whose order
    the source does not check is \<open>usub\<close>, the 64 bit wrap-around difference.
\<close>

type_synonym byte = "8 word"
type_synonym block = "byte list"

section \<open>Error codes\<close>

abbreviation BadArgument :: int where "BadArgument \<equiv> - 1"
abbreviation BadValue :: int where "BadValue \<equiv> - 2"
abbreviation BadType :: int where "BadType \<equiv> - 3"
abbreviation BadOperation :: int where "BadOperation \<equiv> - 4"
abbreviation BadEncoding :: int where "BadEncoding \<equiv> - 8"
abbreviation MissingData :: int where "MissingData \<equiv> - 16"
abbreviation MissingBuffer :: int where "MissingBuffer \<equiv> - 17"

section \<open>Unsigned differences\<close>

definition usub :: "nat \<Rightarrow> nat \<Rightarrow> nat" where
  "usub a b = (if b \<le> a then a - b else a + 2 ^ 64 - b)"

text \<open>Sums and products of sizes that may wrap around.\<close>

definition wrap :: "nat \<Rightarrow> nat" where
  "wrap n = n mod 2 ^ 64"

lemma wrap_id [simp]: "n < 2 ^ 64 \<Longrightarrow> wrap n = n"
  by (simp add: wrap_def)

lemma wrap_less: "wrap n < 2 ^ 64"
  by (simp add: wrap_def)

lemma usub_le [simp]: "b \<le> a \<Longrightarrow> usub a b = a - b"
  by (simp add: usub_def)

section \<open>Character classes of the C library in the default locale\<close>

definition isspace :: "int \<Rightarrow> bool" where
  "isspace c \<longleftrightarrow> (9 \<le> c \<and> c \<le> 13) \<or> c = 32"

definition isdigit :: "int \<Rightarrow> bool" where
  "isdigit c \<longleftrightarrow> 48 \<le> c \<and> c \<le> 57"

definition isupper :: "int \<Rightarrow> bool" where
  "isupper c \<longleftrightarrow> 65 \<le> c \<and> c \<le> 90"

definition islower :: "int \<Rightarrow> bool" where
  "islower c \<longleftrightarrow> 97 \<le> c \<and> c \<le> 122"

definition isalnum :: "int \<Rightarrow> bool" where
  "isalnum c \<longleftrightarrow> isdigit c \<or> isupper c \<or> islower c"

definition isprint :: "int \<Rightarrow> bool" where
  "isprint c \<longleftrightarrow> 32 \<le> c \<and> c \<le> 126"

definition tolower :: "int \<Rightarrow> int" where
  "tolower c = (if isupper c then c + 32 else c)"

section \<open>Access to a memory block\<close>

text \<open>\<open>rd m p n\<close> are the \<open>n\<close> bytes at \<open>p\<close>, \<open>wr m p xs\<close> replaces the bytes at \<open>p\<close>.\<close>

definition rd :: "block \<Rightarrow> nat \<Rightarrow> nat \<Rightarrow> block option" where
  "rd m p n = (if p + n \<le> length m then Some (take n (drop p m)) else None)"

definition wr :: "block \<Rightarrow> nat \<Rightarrow> block \<Rightarrow> block option" where
  "wr m p xs = (if p + length xs \<le> length m
     then Some (take p m @ xs @ drop (p + length xs) m) else None)"

text \<open>The C library's \<open>memmove\<close>, \<open>memcpy\<close> inside one block, and \<open>memset\<close>.\<close>

definition memmove_b :: "block \<Rightarrow> nat \<Rightarrow> nat \<Rightarrow> nat \<Rightarrow> block option" where
  "memmove_b m dst src n = do { xs \<leftarrow> rd m src n; wr m dst xs }"

definition memcpy_b :: "block \<Rightarrow> nat \<Rightarrow> nat \<Rightarrow> nat \<Rightarrow> block option" where
  "memcpy_b m dst src n =
     (if n \<noteq> 0 \<and> dst < src + n \<and> src < dst + n then None else memmove_b m dst src n)"

definition memset_b :: "block \<Rightarrow> nat \<Rightarrow> byte \<Rightarrow> nat \<Rightarrow> block option" where
  "memset_b m dst v n = wr m dst (replicate n v)"

named_theorems mem_defs
declare rd_def [mem_defs] wr_def [mem_defs] memmove_b_def [mem_defs] memcpy_b_def [mem_defs]
  memset_b_def [mem_defs]

lemma rd_zero [simp]: "p \<le> length m \<Longrightarrow> rd m p 0 = Some []"
  by (simp add: rd_def)

lemma wr_Nil [simp]: "p \<le> length m \<Longrightarrow> wr m p [] = Some m"
  by (simp add: wr_def)

lemma wr_length: "wr m p xs = Some m' \<Longrightarrow> length m' = length m"
  by (auto simp: wr_def split: if_splits)

lemma memmove_length: "memmove_b m d s n = Some m' \<Longrightarrow> length m' = length m"
  by (auto simp: memmove_b_def wr_length split: bind_splits)

lemma memcpy_length: "memcpy_b m d s n = Some m' \<Longrightarrow> length m' = length m"
  by (auto simp: memcpy_b_def memmove_length split: if_splits)

text \<open>Reads and writes of a block written as an append of its parts.\<close>

lemma rd_parts:
  "p = length a \<Longrightarrow> n = length x \<Longrightarrow> rd (a @ x @ c) p n = Some x"
  by (simp add: rd_def)

lemma wr_parts:
  "p = length a \<Longrightarrow> length y = length x \<Longrightarrow> wr (a @ x @ c) p y = Some (a @ y @ c)"
  by (simp add: wr_def)

lemma wr_nth:
  assumes "wr m p xs = Some m'" and "i < length m"
  shows "m' ! i = (if p \<le> i \<and> i < p + length xs then xs ! (i - p) else m ! i)"
  using assms by (auto simp: wr_def nth_append min_def split: if_splits)

lemma rd_nth:
  assumes "rd m p n = Some xs"
  shows "length xs = n" and "i < n \<Longrightarrow> xs ! i = m ! (p + i)"
  using assms by (auto simp: rd_def split: if_splits)

lemma rd_wr_same: "wr m p xs = Some m' \<Longrightarrow> rd m' p (length xs) = Some xs"
  by (auto simp: rd_def wr_def min_def split: if_splits)

text \<open>Three ways to cut a list at a length.\<close>

lemma split_at: "n \<le> length xs \<Longrightarrow> \<exists>a b. xs = a @ b \<and> length a = n"
  by (rule exI [of _ "take n xs"], rule exI [of _ "drop n xs"]) simp

lemma split_at_end: "n \<le> length xs \<Longrightarrow> \<exists>a b. xs = a @ b \<and> length b = n"
  by (rule exI [of _ "take (length xs - n) xs"], rule exI [of _ "drop (length xs - n) xs"]) simp

lemma split_at_two:
  assumes "p + n \<le> length xs"
  shows "\<exists>a b c. xs = a @ b @ c \<and> length a = p \<and> length b = n"
proof -
  from split_at [of p xs] assms obtain a r where "xs = a @ r" "length a = p" by auto
  moreover with split_at [of n r] assms obtain b c where "r = b @ c" "length b = n" by auto
  ultimately show ?thesis by blast
qed

text \<open>What a write leaves alone, and an append in place.\<close>

lemma wr_frame:
  assumes "wr m p xs = Some m'"
  shows "q \<le> p \<Longrightarrow> take q m' = take q m" and "p + length xs \<le> q \<Longrightarrow> drop q m' = drop q m"
  using assms by (auto simp: wr_def min_def split: if_splits)

lemma wr_extend:
  assumes "wr m (k + n) xs = Some m'"
  shows "take (n + length xs) (drop k m') = take n (drop k m) @ xs"
proof -
  have "k + n + length xs \<le> length m" using assms by (simp add: wr_def split: if_splits)
  with split_at_two [of "k + n" "length xs" m] obtain a b c where
    m: "m = a @ b @ c" "length a = k + n" "length b = length xs" by auto
  moreover from split_at [of k a] m obtain u v where "a = u @ v" "length u = k" by auto
  moreover have "m' = a @ xs @ c" using assms wr_parts [of "k + n" a xs b c] m by simp
  ultimately show ?thesis by simp
qed

end
