(* ===== verification/Identifier.thy ===== *)
theory Identifier
  imports MptBase
begin

text \<open>
  Identifiers: \<open>mptcore/misc/identifier.c\<close> and \<open>struct mpt_identifier\<close> of \<open>mptcore/core.h\<close>.

  An identifier has a header of four bytes (length, character set, size of the inline data) and the
  inline data, whose bytes 4 to 11 are also the pointer \<open>_base\<close> to an allocated block for data that
  does not fit.  The model keeps this overlay: \<open>ival\<close> are the bytes behind the header and the pointer
  is read from and written to them.  The heap is a map from addresses to blocks; the address which
  \<open>malloc\<close> delivers is an argument, absent when it fails.  A call is \<open>None\<close> when it frees an address
  that is not allocated or accesses memory out of bounds.
\<close>

section \<open>State\<close>

type_synonym store = "nat \<Rightarrow> block option"

datatype idptr = Null | Val | Base

record mpt_identifier =
  ilen :: nat
  icharset :: nat
  imax :: nat
  ival :: block

abbreviation (input) CharsetUTF8 :: nat where "CharsetUTF8 \<equiv> 1"

text \<open>Little-endian representation of the pointer.\<close>

fun le_bytes :: "nat \<Rightarrow> nat \<Rightarrow> block" where
  "le_bytes 0 a = []"
| "le_bytes (Suc n) a = word_of_nat (a mod 256) # le_bytes n (a div 256)"

fun le_val :: "block \<Rightarrow> nat" where
  "le_val [] = 0"
| "le_val (b # bs) = unat b + 256 * le_val bs"

definition get_base :: "mpt_identifier \<Rightarrow> nat option" where
  "get_base idt = map_option le_val (rd (ival idt) 4 8)"

definition set_base :: "block \<Rightarrow> nat \<Rightarrow> block option" where
  "set_base v a = wr v 4 (le_bytes 8 a)"

definition mfree :: "store \<Rightarrow> nat \<Rightarrow> store option" where
  "mfree m a = (if a = 0 then Some m else if m a = None then None else Some (m(a := None)))"

definition c_strlen :: "block \<Rightarrow> nat option" where
  "c_strlen s = (if 0 \<in> set s then Some (length (takeWhile (\<lambda>c. c \<noteq> 0) s)) else None)"

text \<open>The comparison of memory; only its sign is defined by the language.\<close>

fun memcmp :: "block \<Rightarrow> block \<Rightarrow> int" where
  "memcmp (a # as) (b # bs) = (if a = b then memcmp as bs else uint a - uint b)"
| "memcmp _ _ = 0"

section \<open>Operations\<close>

definition mpt_identifier_init :: "mpt_identifier \<Rightarrow> nat \<Rightarrow> mpt_identifier option" where
  "mpt_identifier_init idt len =
     (if len < 4 then Some idt
      else let n = min (len - 4) (0x100 - 4) in do {
        v \<leftarrow> memset_b (ival idt) 0 0 n;
        Some (idt\<lparr>ilen := 0, icharset := 0, imax := n, ival := v\<rparr>) })"

function double_size :: "nat \<Rightarrow> nat \<Rightarrow> nat" where
  "double_size n len = (if 0 < n \<and> n < len then double_size (n * 2) len else n)"
  by auto
termination by (relation "measure (\<lambda>(n, len). len - n)") auto

declare double_size.simps [simp del]

text \<open>\<open>raw n\<close> is the memory that \<open>malloc\<close> of \<open>n\<close> bytes delivers.\<close>

definition mpt_identifier_new :: "(nat \<Rightarrow> block option) \<Rightarrow> nat \<Rightarrow> mpt_identifier option option" where
  "mpt_identifier_new raw len =
     (if len > 65535 then Some None
      else let n = (if len + 4 > 32 \<and> len + 4 \<le> 0x100 then double_size 32 (len + 4) else 32) in
        case raw n of None \<Rightarrow> Some None
        | Some mem \<Rightarrow> map_option Some
            (mpt_identifier_init \<lparr>ilen = 0, icharset = 0, imax = 0, ival = drop 4 mem\<rparr> n))"

text \<open>The block with the data of an identifier, and its place.\<close>

definition mpt_identifier_data :: "mpt_identifier \<Rightarrow> idptr" where
  "mpt_identifier_data idt = (if ilen idt > imax idt then Base else Val)"

definition ident_block :: "store \<Rightarrow> mpt_identifier \<Rightarrow> block option" where
  "ident_block m idt = (case mpt_identifier_data idt of Base \<Rightarrow> do { a \<leftarrow> get_base idt; m a }
     | _ \<Rightarrow> Some (ival idt))"

text \<open>Release of the block of an identifier whose data is not inline.\<close>

definition free_base :: "store \<Rightarrow> mpt_identifier \<Rightarrow> store option" where
  "free_base m idt = (if ilen idt > imax idt then do { a \<leftarrow> get_base idt; mfree m a } else Some m)"

definition set_alloc ::
  "mpt_identifier \<Rightarrow> store \<Rightarrow> block option \<Rightarrow> nat \<Rightarrow> nat \<Rightarrow> nat \<Rightarrow> nat \<Rightarrow> (idptr \<times> mpt_identifier \<times> store) option" where
  "set_alloc idt m name len nlen charset a = do {
     blk \<leftarrow> (case name of Some s \<Rightarrow> do { d \<leftarrow> rd s 0 len; Some (d @ [0]) }
                         | None \<Rightarrow> Some (replicate nlen 0));
     m1 \<leftarrow> free_base m idt;
     v \<leftarrow> memset_b (ival idt) 0 0 (imax idt);
     v \<leftarrow> set_base v a;
     Some (Base, idt\<lparr>ilen := nlen, icharset := charset, ival := v\<rparr>, m1(a \<mapsto> blk)) }"

definition set_inline ::
  "mpt_identifier \<Rightarrow> store \<Rightarrow> block option \<Rightarrow> nat \<Rightarrow> nat \<Rightarrow> nat \<Rightarrow> (idptr \<times> mpt_identifier \<times> store) option" where
  "set_inline idt m name len nlen charset = do {
     v \<leftarrow> (if len \<noteq> 0
          then do { s \<leftarrow> name; d \<leftarrow> rd s 0 len; v \<leftarrow> wr (ival idt) 0 d;
                    memset_b v len 0 (imax idt - len) }
          else memset_b (ival idt) 0 0 (imax idt));
     m1 \<leftarrow> free_base m idt;
     Some (Val, idt\<lparr>ilen := nlen, icharset := charset, ival := v\<rparr>, m1) }"

definition mpt_identifier_set ::
  "mpt_identifier \<Rightarrow> store \<Rightarrow> block option \<Rightarrow> int \<Rightarrow> nat option \<Rightarrow> (idptr \<times> mpt_identifier \<times> store) option" where
  "mpt_identifier_set idt m name len new = do {
     (len, nlen, charset) \<leftarrow>
       (case name of None \<Rightarrow> Some (len, len, 0)
        | Some s \<Rightarrow> do { l \<leftarrow> (if len < 0 then map_option int (c_strlen s) else Some len);
                        Some (l, l + 1, CharsetUTF8) });
     if len < 0 \<or> nlen > 65535 then Some (Null, idt, m)
     else if nlen > int (imax idt)
       then (case new of None \<Rightarrow> Some (Null, idt, m)
             | Some a \<Rightarrow> set_alloc idt m name (nat len) (nat nlen) charset a)
     else set_inline idt m name (nat len) (nat nlen) charset }"

text \<open>\<open>same\<close> tells that source and target are one object.\<close>

definition mpt_identifier_copy ::
  "mpt_identifier \<Rightarrow> store \<Rightarrow> bool \<Rightarrow> mpt_identifier option \<Rightarrow> nat option \<Rightarrow> (idptr \<times> mpt_identifier \<times> store) option" where
  "mpt_identifier_copy idt m same src new =
     (case src of None \<Rightarrow> mpt_identifier_set idt m None 0 new
      | Some f \<Rightarrow>
        if same then Some (mpt_identifier_data idt, idt, m)
        else do {
          base \<leftarrow> ident_block m f;
          if ilen f \<le> imax idt then do {
            d \<leftarrow> rd base 0 (ilen f);
            v \<leftarrow> wr (ival idt) 0 d;
            if ilen idt > imax idt then do {
              m1 \<leftarrow> free_base m (idt\<lparr>ival := v\<rparr>);
              v \<leftarrow> set_base v 0;
              Some (Val, idt\<lparr>ilen := ilen f, icharset := icharset f, ival := v\<rparr>, m1) }
            else Some (Val, idt\<lparr>ilen := ilen f, icharset := icharset f, ival := v\<rparr>, m) }
          else (case new of None \<Rightarrow> Some (Null, idt, m)
            | Some a \<Rightarrow> do {
                d \<leftarrow> rd base 0 (ilen f);
                m1 \<leftarrow> free_base m idt;
                v \<leftarrow> memset_b (ival idt) 0 0 4;
                v \<leftarrow> set_base v a;
                Some (Base, idt\<lparr>ilen := ilen f, icharset := icharset f, ival := v\<rparr>, m1(a \<mapsto> d)) }) })"

text \<open>Traits of an array of identifiers: the finalisation, and the initialisation of an element of
  16 bytes from an optional source.\<close>

definition identifier_fini :: "mpt_identifier \<Rightarrow> store \<Rightarrow> (mpt_identifier \<times> store) option" where
  "identifier_fini idt m =
     (if ilen idt > imax idt then do {
        a \<leftarrow> get_base idt; m1 \<leftarrow> mfree m a;
        v \<leftarrow> memset_b (ival idt) 0 0 (imax idt);
        Some (idt\<lparr>ival := v\<rparr>, m1) }
      else Some (idt, m))"

definition identifier_init ::
  "mpt_identifier \<Rightarrow> store \<Rightarrow> mpt_identifier option \<Rightarrow> nat option \<Rightarrow> (int \<times> mpt_identifier \<times> store) option" where
  "identifier_init c m src new = do {
     c \<leftarrow> mpt_identifier_init c 16;
     case src of None \<Rightarrow> Some (1, c, m)
     | Some f \<Rightarrow> do {
         (r, c', m') \<leftarrow> mpt_identifier_copy c m False (Some f) new;
         Some (if r \<noteq> Null then BadOperation else 1, c', m') } }"

text \<open>Comparison with a name and of two identifiers.\<close>

function cmp_zero :: "block \<Rightarrow> nat \<Rightarrow> nat \<Rightarrow> int option" where
  "cmp_zero base i n =
     (if i \<le> n then if i < length base
        then if base ! i \<noteq> 0 then Some (int i + 1) else cmp_zero base (Suc i) n
        else None
      else Some 0)"
  by auto
termination by (relation "measure (\<lambda>(base, i, n). Suc n - i)") auto

function cmp_name :: "block \<Rightarrow> block \<Rightarrow> nat \<Rightarrow> nat \<Rightarrow> int option" where
  "cmp_name base name i n =
     (if i < n then if i < length base \<and> i < length name
        then if base ! i \<noteq> name ! i then Some (int i + 1) else cmp_name base name (Suc i) n
        else None
      else if n < length base then Some (if base ! n \<noteq> 0 then int n else 0) else None)"
  by auto
termination by (relation "measure (\<lambda>(base, name, i, n). n - i)") auto

declare cmp_zero.simps [simp del] cmp_name.simps [simp del]

definition mpt_identifier_compare ::
  "store \<Rightarrow> mpt_identifier \<Rightarrow> block option \<Rightarrow> int \<Rightarrow> int option" where
  "mpt_identifier_compare m idt name nlen =
     (if name \<noteq> None \<and> icharset idt \<noteq> CharsetUTF8 then Some BadType
      else if nlen < 0 \<and> name = None then Some BadArgument
      else do {
        n \<leftarrow> (if nlen < 0 then (case name of None \<Rightarrow> None | Some s \<Rightarrow> c_strlen s) else Some (nat nlen));
        if n = 0 \<and> ilen idt = 0 then Some 0
        else if n + 1 \<noteq> ilen idt then Some MissingData
        else do {
          base \<leftarrow> ident_block m idt;
          case name of None \<Rightarrow> cmp_zero base 0 n | Some s \<Rightarrow> cmp_name base s 0 n } })"

definition mpt_identifier_inequal :: "store \<Rightarrow> mpt_identifier \<Rightarrow> mpt_identifier \<Rightarrow> int option" where
  "mpt_identifier_inequal m idt cmp =
     (if icharset idt \<noteq> icharset cmp then Some (int (icharset idt) - int (icharset cmp))
      else if ilen idt \<noteq> ilen cmp then Some (int (ilen idt) - int (ilen cmp))
      else do {
        a \<leftarrow> ident_block m idt; b \<leftarrow> ident_block m cmp;
        a \<leftarrow> rd a 0 (ilen idt); b \<leftarrow> rd b 0 (ilen idt);
        Some (memcmp a b) })"

section \<open>Pointers in the inline data\<close>

lemma le_bytes_length [simp]: "length (le_bytes n a) = n"
  by (induction n arbitrary: a) auto

lemma le_val_bytes: "a < 256 ^ n \<Longrightarrow> le_val (le_bytes n a) = a"
proof (induction n arbitrary: a)
  case (Suc n)
  then have "a div 256 < 256 ^ n" by (simp add: less_mult_imp_div_less mult.commute)
  with Suc.IH show ?case by (simp add: unsigned_of_nat take_bit_eq_mod)
qed simp

lemma set_base_ok:
  assumes "12 \<le> length v" and "a < 2 ^ 64"
  shows "\<exists>v'. set_base v a = Some v' \<and> length v' = length v \<and>
    (\<forall>idt. ival idt = v' \<longrightarrow> get_base idt = Some a)"
proof -
  obtain v' where w: "set_base v a = Some v'" using assms by (simp add: set_base_def wr_def)
  then have "rd v' 4 8 = Some (le_bytes 8 a)"
    using rd_wr_same [of v 4 "le_bytes 8 a" v'] by (simp add: set_base_def)
  with assms le_val_bytes [of a 8] w show ?thesis
    by (auto simp: get_base_def set_base_def wr_length)
qed

section \<open>Well-formed identifiers\<close>

text \<open>At least the twelve bytes of the structure are available, and data that is not inline has a
  block of its length.\<close>

definition wf_ident :: "store \<Rightarrow> mpt_identifier \<Rightarrow> bool" where
  "wf_ident m idt \<longleftrightarrow> 12 \<le> imax idt \<and> imax idt \<le> 252 \<and> imax idt \<le> length (ival idt) \<and> ilen idt \<le> 65535 \<and>
     (if ilen idt > imax idt
      then (case get_base idt of None \<Rightarrow> False
            | Some a \<Rightarrow> a \<noteq> 0 \<and> (case m a of None \<Rightarrow> False | Some b \<Rightarrow> length b = ilen idt))
      else True)"

text \<open>The block an identifier owns, and its data.\<close>

definition owned :: "mpt_identifier \<Rightarrow> nat set" where
  "owned idt = (if ilen idt > imax idt then set_option (get_base idt) else {})"

definition ident_bytes :: "store \<Rightarrow> mpt_identifier \<Rightarrow> block option" where
  "ident_bytes m idt = do { b \<leftarrow> ident_block m idt; rd b 0 (ilen idt) }"

lemma free_base_ok:
  assumes "wf_ident m idt"
  shows "free_base m idt = Some (m |` (- owned idt))"
proof (cases "ilen idt > imax idt")
  case True
  with assms obtain a b where "get_base idt = Some a" "a \<noteq> 0" "m a = Some b"
    by (auto simp: wf_ident_def split: option.splits)
  with True show ?thesis
    by (auto simp: free_base_def mfree_def owned_def restrict_map_def fun_eq_iff)
qed (simp add: free_base_def owned_def restrict_map_def)

lemma rd_first: "len \<le> length s \<Longrightarrow> rd s 0 len = Some (take len s)"
  by (simp add: rd_def)

text \<open>Both places of the data.\<close>

lemma set_alloc_ok:
  assumes wf: "wf_ident m idt" and s: "len \<le> length s" "len < 65535" and big: "imax idt < len + 1"
    and a: "m a = None" "0 < a" "a < 2 ^ 64"
  shows "\<exists>idt' m'. set_alloc idt m (Some s) len (len + 1) c a = Some (Base, idt', m') \<and>
    wf_ident m' idt' \<and> ident_bytes m' idt' = Some (take len s @ [0]) \<and>
    ilen idt' = len + 1 \<and> icharset idt' = c \<and> imax idt' = imax idt \<and>
    m' = (m |` (- owned idt)) (a \<mapsto> take len s @ [0]) \<and> owned idt' = {a}"
proof -
  have l: "12 \<le> imax idt" "imax idt \<le> length (ival idt)" "imax idt \<le> 252"
    using wf by (auto simp: wf_ident_def)
  obtain v where v: "memset_b (ival idt) 0 0 (imax idt) = Some v" "length v = length (ival idt)"
    using l by (auto simp: memset_b_def wr_def)
  with set_base_ok [of v a] a l obtain v' where
    v': "set_base v a = Some v'" "length v' = length (ival idt)"
      "\<And>idt. ival idt = v' \<Longrightarrow> get_base idt = Some a" by auto
  let ?m = "(m |` (- owned idt)) (a \<mapsto> take len s @ [0])"
  let ?i = "idt\<lparr>ilen := len + 1, icharset := c, ival := v'\<rparr>"
  have g: "get_base ?i = Some a" by (rule v'(3)) simp
  have "set_alloc idt m (Some s) len (len + 1) c a = Some (Base, ?i, ?m)"
    using s v v' free_base_ok [OF wf] by (simp add: set_alloc_def rd_first)
  moreover have "wf_ident ?m ?i" using l s big a g v' by (simp add: wf_ident_def)
  moreover have "ident_bytes ?m ?i = Some (take len s @ [0])"
    using big g s by (simp add: ident_bytes_def ident_block_def mpt_identifier_data_def rd_def)
  moreover have "owned ?i = {a}" using big g by (simp add: owned_def)
  ultimately show ?thesis by auto
qed

lemma inline_fill:
  assumes "len \<le> length s" "len \<le> n" "n \<le> length v"
  shows "\<exists>v1 v2. wr v 0 (take len s) = Some v1 \<and> memset_b v1 len 0 (n - len) = Some v2 \<and>
    length v2 = length v \<and> take n v2 = take len s @ replicate (n - len) 0"
  using assms by (simp add: wr_def memset_b_def)

lemma set_inline_ok:
  assumes wf: "wf_ident m idt" and s: "len \<le> length s" and fit: "len + 1 \<le> imax idt"
  shows "\<exists>idt' m'. set_inline idt m (Some s) len (len + 1) c = Some (Val, idt', m') \<and>
    wf_ident m' idt' \<and> ident_bytes m' idt' = Some (take len s @ [0]) \<and>
    ilen idt' = len + 1 \<and> icharset idt' = c \<and> imax idt' = imax idt \<and>
    m' = m |` (- owned idt) \<and> owned idt' = {}"
proof -
  have l: "12 \<le> imax idt" "imax idt \<le> length (ival idt)" "imax idt \<le> 252"
    using wf by (auto simp: wf_ident_def)
  from inline_fill [OF s, of "imax idt" "ival idt"] l fit obtain v1 v2 where
    v: "wr (ival idt) 0 (take len s) = Some v1" "memset_b v1 len 0 (imax idt - len) = Some v2"
      "length v2 = length (ival idt)" "take (imax idt) v2 = take len s @ replicate (imax idt - len) 0"
    by auto
  have z: "len = 0 \<Longrightarrow> v1 = ival idt" using v(1) by (simp add: wr_def split: if_splits)
  let ?i = "idt\<lparr>ilen := len + 1, icharset := c, ival := v2\<rparr>"
  have "set_inline idt m (Some s) len (len + 1) c = Some (Val, ?i, m |` (- owned idt))"
    using s v z free_base_ok [OF wf] by (cases "len = 0") (auto simp: set_inline_def rd_first)
  moreover have "take (len + 1) v2 = take (len + 1) (take (imax idt) v2)" using fit by simp
  with v(4) s fit have "take (len + 1) v2 = take len s @ [0]" by (simp add: take_Suc_conv_app_nth)
  ultimately show ?thesis using l fit v
    by (simp add: wf_ident_def owned_def ident_bytes_def ident_block_def mpt_identifier_data_def rd_def)
qed

section \<open>Comparison\<close>

lemma cmp_name_zero:
  assumes "n \<le> length name" "n < length base" "base ! n = 0"
  shows "cmp_name base name i n = Some 0 \<longleftrightarrow> (\<forall>j. i \<le> j \<and> j < n \<longrightarrow> base ! j = name ! j)"
  using assms
proof (induction "n - i" arbitrary: i)
  case 0
  then show ?case by (subst cmp_name.simps) auto
next
  case (Suc k)
  then have i: "i < n" "k = n - Suc i" by auto
  show ?case
  proof (cases "base ! i = name ! i")
    case True
    then have "cmp_name base name i n = cmp_name base name (Suc i) n"
      using i Suc.prems by (subst cmp_name.simps) simp
    moreover have "(\<forall>j. Suc i \<le> j \<and> j < n \<longrightarrow> base ! j = name ! j) \<longleftrightarrow>
      (\<forall>j. i \<le> j \<and> j < n \<longrightarrow> base ! j = name ! j)"
      using True by (metis Suc_leI le_eq_less_or_eq Suc_leD)
    ultimately show ?thesis using Suc.hyps(1) [OF i(2)] Suc.prems by simp
  next
    case False
    then have "cmp_name base name i n = Some (int i + 1)"
      using i Suc.prems by (subst cmp_name.simps) simp
    with False i show ?thesis by auto
  qed
qed

lemma memcmp_zero: "length a = length b \<Longrightarrow> memcmp a b = 0 \<longleftrightarrow> a = b"
  by (induction a b rule: list_induct2) (auto simp: word_uint_eq_iff)

lemma take_nth_eq: "take n b = y \<Longrightarrow> j < n \<Longrightarrow> b ! j = y ! j"
  by auto

lemma compare_name:
  assumes id: "ident_bytes m idt = Some (x @ [0])" "ilen idt = length x + 1" "icharset idt = CharsetUTF8"
    and t: "n \<le> length t"
  shows "mpt_identifier_compare m idt (Some t) (int n) = Some 0 \<longleftrightarrow> take n t = x"
proof (cases "n = length x")
  case True
  from id obtain b where b: "ident_block m idt = Some b" "take (length x + 1) b = x @ [0]"
      "length x < length b"
    by (auto simp: ident_bytes_def rd_def split: bind_splits if_splits)
  then have e: "\<And>j. j < length x \<Longrightarrow> b ! j = x ! j" "b ! length x = 0"
    using take_nth_eq [OF b(2)] by (auto simp: nth_append)
  have "mpt_identifier_compare m idt (Some t) (int n) = cmp_name b t 0 n"
    using id b True by (simp add: mpt_identifier_compare_def)
  also have "\<dots> = Some 0 \<longleftrightarrow> (\<forall>j<n. b ! j = t ! j)"
    using cmp_name_zero [of n t b 0] t b e True by simp
  also have "\<dots> \<longleftrightarrow> take n t = x"
    using t True e by (auto simp: list_eq_iff_nth_eq)
  finally show ?thesis .
next
  case False
  then have "mpt_identifier_compare m idt (Some t) (int n) = Some MissingData"
    using id by (simp add: mpt_identifier_compare_def)
  with False t show ?thesis by auto
qed

lemma inequal_bytes:
  assumes "ident_bytes m i1 = Some x" and "ident_bytes m i2 = Some y"
  shows "mpt_identifier_inequal m i1 i2 = Some 0 \<longleftrightarrow> icharset i1 = icharset i2 \<and> x = y"
proof -
  from assms obtain a b where ab: "ident_block m i1 = Some a" "rd a 0 (ilen i1) = Some x"
      "ident_block m i2 = Some b" "rd b 0 (ilen i2) = Some y"
    by (auto simp: ident_bytes_def split: bind_splits)
  then have l: "length x = ilen i1" "length y = ilen i2" by (auto dest: rd_nth(1))
  show ?thesis
  proof (cases "ilen i1 = ilen i2")
    case True
    with ab l memcmp_zero [of x y] show ?thesis by (auto simp: mpt_identifier_inequal_def)
  next
    case False
    with l show ?thesis by (auto simp: mpt_identifier_inequal_def)
  qed
qed

text \<open>Setting a name inline or in a block.\<close>

lemma ident_set_ok:
  assumes "wf_ident m idt" and "len \<le> length s" "len < 65535"
    and "m a = None" "0 < a" "a < 2 ^ 64" and "n \<le> length t"
  shows "\<exists>r idt' m'. mpt_identifier_set idt m (Some s) (int len) (Some a) = Some (r, idt', m') \<and>
    r = mpt_identifier_data idt' \<and> wf_ident m' idt' \<and>
    ident_bytes m' idt' = Some (take len s @ [0]) \<and>
    (mpt_identifier_compare m' idt' (Some t) (int n) = Some 0) = (take n t = take len s) \<and>
    dom m' = dom m - owned idt \<union> owned idt' \<and>
    owned idt' = (if len + 1 \<le> imax idt then {} else {a}) \<and> icharset idt' = CharsetUTF8 \<and> imax idt' = imax idt \<and>
    m' = (if len + 1 \<le> imax idt then m |` (- owned idt) else (m |` (- owned idt))(a \<mapsto> take len s @ [0]))"
proof (cases "len + 1 \<le> imax idt")
  case True
  from set_inline_ok [OF assms(1,2) True, of CharsetUTF8] obtain idt' m' where
    r: "set_inline idt m (Some s) len (len + 1) CharsetUTF8 = Some (Val, idt', m')" "wf_ident m' idt'"
      "ident_bytes m' idt' = Some (take len s @ [0])" "ilen idt' = len + 1" "icharset idt' = CharsetUTF8"
      "imax idt' = imax idt" "m' = m |` (- owned idt)" "owned idt' = {}" by blast
  moreover have "mpt_identifier_set idt m (Some s) (int len) (Some a) = Some (Val, idt', m')"
    using r(1) True assms by (simp add: mpt_identifier_set_def nat_add_distrib)
  moreover have "(mpt_identifier_compare m' idt' (Some t) (int n) = Some 0) = (take n t = take len s)"
    by (rule compare_name) (use r assms in auto)
  ultimately show ?thesis using True
    by (auto simp: mpt_identifier_data_def)
next
  case False
  then have big: "imax idt < len + 1" by simp
  from set_alloc_ok [OF assms(1-3) big assms(4-6), of CharsetUTF8] obtain idt' m' where
    r: "set_alloc idt m (Some s) len (len + 1) CharsetUTF8 a = Some (Base, idt', m')" "wf_ident m' idt'"
      "ident_bytes m' idt' = Some (take len s @ [0])" "ilen idt' = len + 1" "icharset idt' = CharsetUTF8"
      "imax idt' = imax idt" "m' = (m |` (- owned idt)) (a \<mapsto> take len s @ [0])" "owned idt' = {a}"
    by blast
  moreover have "mpt_identifier_set idt m (Some s) (int len) (Some a) = Some (Base, idt', m')"
    using r(1) big assms by (simp add: mpt_identifier_set_def nat_add_distrib)
  moreover have "(mpt_identifier_compare m' idt' (Some t) (int n) = Some 0) = (take n t = take len s)"
    by (rule compare_name) (use r assms in auto)
  ultimately show ?thesis using big
    by (auto simp: mpt_identifier_data_def)
qed

section \<open>Properties\<close>

text \<open>Property C29: setting a name keeps an identifier well-formed whether the name fits inline or needs
  a block: the data is the terminated name, the comparison with any name is zero exactly for this
  name, the former block is released and the identifier owns the new one only.\<close>

theorem ident_set_name:
  assumes "wf_ident m idt" and "len \<le> length s" "len < 65535"
    and "m a = None" "0 < a" "a < 2 ^ 64" and "n \<le> length t"
  shows "\<exists>r idt' m'. mpt_identifier_set idt m (Some s) (int len) (Some a) = Some (r, idt', m') \<and>
    r = mpt_identifier_data idt' \<and> wf_ident m' idt' \<and>
    ident_bytes m' idt' = Some (take len s @ [0]) \<and>
    (mpt_identifier_compare m' idt' (Some t) (int n) = Some 0) = (take n t = take len s) \<and>
    dom m' = dom m - owned idt \<union> owned idt' \<and>
    owned idt' = (if len + 1 \<le> imax idt then {} else {a})"
  using ident_set_ok [OF assms] by blast

definition ident0 :: mpt_identifier where
  "ident0 = \<lparr>ilen = 0, icharset = 0, imax = 12, ival = replicate 12 0\<rparr>"

theorem ident_set_name_witness:
  "\<exists>r idt' m'. mpt_identifier_set ident0 Map.empty (Some (replicate 14 120)) (int 14) (Some 64) = Some (r, idt', m') \<and>
    r = mpt_identifier_data idt' \<and> wf_ident m' idt' \<and>
    ident_bytes m' idt' = Some (replicate 14 120 @ [0]) \<and>
    (mpt_identifier_compare m' idt' (Some [120, 0]) (int 1) = Some 0) =
      (take 1 [120, 0 :: byte] = replicate 14 120) \<and>
    dom m' = {64} \<and> owned idt' = {64}"
proof -
  have "wf_ident Map.empty ident0" "owned ident0 = {}" "imax ident0 = 12"
    by (simp_all add: ident0_def wf_ident_def owned_def)
  with ident_set_name [of Map.empty ident0 14 "replicate 14 120" 64 1 "[120, 0]"] show ?thesis
    by fastforce
qed

text \<open>A copy to an identifier whose data is in a block overwrites the pointer to this block before it is
  released: a name of more than eleven bytes that fits is freed as an address.\<close>

lemma ident_copy_overwrites_pointer:
  assumes "wf_ident m idt" "imax idt < ilen idt" and "wf_ident m f" "12 \<le> ilen f" "ilen f \<le> imax idt"
    and "ident_bytes m f = Some x" "m (le_val (take 8 (drop 4 x))) = None" "0 < le_val (take 8 (drop 4 x))"
  shows "mpt_identifier_copy idt m False (Some f) new = None"
proof -
  from assms obtain b where b: "ident_block m f = Some b" "rd b 0 (ilen f) = Some x"
    by (auto simp: ident_bytes_def split: bind_splits)
  then have x: "length x = ilen f" by (auto dest: rd_nth(1))
  have "imax idt \<le> length (ival idt)" using assms by (simp add: wf_ident_def)
  with x assms obtain v where v: "wr (ival idt) 0 x = Some v" "v = x @ drop (ilen f) (ival idt)"
    by (simp add: wr_def)
  then have "get_base (idt\<lparr>ival := v\<rparr>) = Some (le_val (take 8 (drop 4 x)))"
    using x assms(4) by (simp add: get_base_def rd_def)
  with assms have "free_base m (idt\<lparr>ival := v\<rparr>) = None"
    by (simp add: free_base_def mfree_def)
  with b v assms show ?thesis by (simp add: mpt_identifier_copy_def)
qed

text \<open>The initialisation of an array element reports an error exactly when the copy succeeds.\<close>

lemma identifier_init_inverted:
  assumes "mpt_identifier_init c 16 = Some c1"
    and "mpt_identifier_copy c1 m False (Some f) new = Some (r, c', m')"
  shows "identifier_init c m (Some f) new = Some (if r = Null then 1 else BadOperation, c', m')"
  using assms by (simp add: identifier_init_def)

end
