(* ===== verification/Path.thy ===== *)
theory Path
  imports Identifier
begin

text \<open>
  Element paths: \<open>mptcore/config/\<close> (\<open>path_set.c\<close>, \<open>path_next.c\<close>, \<open>path_last.c\<close>, \<open>path_data.c\<close>,
  \<open>path_valid.c\<close>, \<open>path_fini.c\<close>, \<open>path_fputs.c\<close>) and \<open>struct mpt_path\<close> of \<open>mptcore/config.h\<close>.

  A path refers to bytes of the caller or, with the flag \<open>HasArray\<close>, to the data of a buffer of which
  \<open>pused\<close> bytes are in use.  The elements of a text path end at the separator, the last one at the
  assign character; in the binary format each element has its size behind it and the size of the next
  one.  Output of \<open>mpt_path_fputs\<close> is the list of written bytes, with the success of \<open>fwrite\<close> as a
  parameter.
\<close>

unbundle bit_operations_syntax

section \<open>Model\<close>

record path =
  pbase :: "block option"
  pused :: nat
  poff :: nat
  plen :: nat
  pfirst :: nat
  pflags :: byte
  psep :: byte
  passign :: byte

abbreviation (input) KeepPost :: byte where "KeepPost \<equiv> 0x01"
abbreviation (input) HasArray :: byte where "HasArray \<equiv> 0x40"
abbreviation (input) SepBinary :: byte where "SepBinary \<equiv> 0x80"

definition MPT_PATH_INIT :: path where
  "MPT_PATH_INIT = \<lparr>pbase = None, pused = 0, poff = 0, plen = 0, pfirst = 0, pflags = 0, psep = 46, passign = 0\<rparr>"

text \<open>The buffer of a path loses the reference of the path; the buffer itself is not part of the state.\<close>

definition mpt_path_fini :: "path \<Rightarrow> path" where
  "mpt_path_fini p =
     (if pflags p AND HasArray = 0 then p
      else p\<lparr>pflags := pflags p AND NOT HasArray, poff := 0, plen := 0, pbase := None, pused := 0\<rparr>)"

text \<open>The loop of \<open>mpt_path_set\<close>: position, size of the first element, additional size, elements.\<close>

function set_loop :: "byte \<Rightarrow> byte \<Rightarrow> block \<Rightarrow> nat \<Rightarrow> nat \<Rightarrow> nat \<Rightarrow> int \<Rightarrow> (nat \<times> nat \<times> nat \<times> int) option" where
  "set_loop sep assign val vlen pos frst elem =
     (if pos < vlen then
        if pos < length val then
          (if val ! pos = assign then Some (pos + 1, frst, 0, elem + 1)
           else if val ! pos = sep
             then set_loop sep assign val vlen (pos + 1) (if elem = 0 then pos else frst) (elem + 1)
           else set_loop sep assign val vlen (pos + 1) frst elem)
        else None
      else Some (pos, frst, 1, elem))"
  by auto
termination by (relation "measure (\<lambda>(sep, assign, val, vlen, pos, frst, elem). vlen - pos)") auto

declare set_loop.simps [simp del]

definition mpt_path_set :: "path \<Rightarrow> block option \<Rightarrow> int \<Rightarrow> (int \<times> path) option" where
  "mpt_path_set p val len = do {
     (pos, frst, add, elem) \<leftarrow>
       (case val of None \<Rightarrow> Some (0, 0, 0, 0)
        | Some v \<Rightarrow> do {
            vlen \<leftarrow> (if len < 0 then map_option (\<lambda>n. n + 1) (c_strlen v) else Some (nat len));
            set_loop (psep p) (passign p) v vlen 0 0 0 });
     Some (elem, (mpt_path_fini p)\<lparr>pbase := val, poff := 0, plen := pos + add,
       pfirst := (if frst > 255 then 0 else frst), pflags := 0\<rparr>) }"

text \<open>The first position of a byte in a part of the block.\<close>

definition memchr_at :: "block \<Rightarrow> nat \<Rightarrow> byte \<Rightarrow> nat \<Rightarrow> nat option option" where
  "memchr_at b pos c n = (if pos + n \<le> length b
     then Some (let k = length (takeWhile (\<lambda>x. x \<noteq> c) (take n (drop pos b))) in if k < n then Some k else None)
     else None)"

definition mpt_path_next :: "path \<Rightarrow> (int \<times> path) option" where
  "mpt_path_next p =
     (if plen p = 0 then Some (MissingData, p)
      else case pbase p of None \<Rightarrow> Some (BadArgument, p)
      | Some b \<Rightarrow>
        if pflags p AND SepBinary \<noteq> 0 then
          (if poff p + pfirst p + 1 < length b
           then Some (int (pfirst p), p\<lparr>pfirst := unat (b ! (poff p + pfirst p + 1)),
             poff := poff p + (pfirst p + 2), plen := usub (plen p) (pfirst p + 2)\<rparr>)
           else None)
        else if pfirst p \<noteq> 0 then
          Some (int (pfirst p), p\<lparr>pfirst := 0, poff := poff p + (pfirst p + 1), plen := usub (plen p) (pfirst p + 1)\<rparr>)
        else do {
          e \<leftarrow> memchr_at b (poff p) (psep p) (plen p - 1);
          let skip = (case e of Some k \<Rightarrow> k + 1 | None \<Rightarrow> plen p);
          Some (int skip - 1, p\<lparr>poff := poff p + skip, plen := plen p - skip\<rparr>) })"

text \<open>The backward search of \<open>mpt_path_last\<close> for a separator.\<close>

fun last_loop :: "block \<Rightarrow> byte \<Rightarrow> nat \<Rightarrow> nat \<Rightarrow> (nat \<times> nat) option" where
  "last_loop b sep 0 len = Some (0, len)"
| "last_loop b sep (Suc pos) len =
     (if pos < length b then (if b ! pos \<noteq> sep then last_loop b sep pos (len + 1) else Some (Suc pos, len)) else None)"

text \<open>The size byte of the binary format is a signed \<open>char\<close> here.\<close>

definition char_size :: "byte \<Rightarrow> nat" where
  "char_size c = (if sint c < 0 then nat (sint c + 2 ^ 64) else nat (sint c))"

definition mpt_path_last :: "path \<Rightarrow> (int \<times> path) option" where
  "mpt_path_last p =
     (case pbase p of None \<Rightarrow> Some (- 2, p)
      | Some b \<Rightarrow>
        if plen p = 0 then Some (- 2, p)
        else if pflags p AND SepBinary \<noteq> 0 then
          (if plen p < 2 then Some (- 2, p)
           else if \<not> plen p - 2 < length b then None
           else let len = char_size (b ! (plen p - 2)) in
             if plen p < len then Some (- 2, p)
             else Some (int len, p\<lparr>poff := poff p + (plen p - len), pfirst := len mod 256, plen := len mod 256 + 2\<rparr>))
        else do {
          (pos, len) \<leftarrow> last_loop b (psep p) (plen p - 1) 0;
          Some (int len, p\<lparr>poff := poff p + pos, pfirst := len mod 256, plen := len mod 256 + 1\<rparr>) })"

text \<open>The data behind the path as an index in the block.\<close>

definition mpt_path_data :: "path \<Rightarrow> (nat option \<times> path) option" where
  "mpt_path_data p =
     (case pbase p of None \<Rightarrow> Some (None, p)
      | Some b \<Rightarrow>
        if pflags p AND HasArray = 0 then Some (Some (poff p + plen p), p)
        else if poff p + plen p > pused p then Some (None, p)
        else Some (Some (poff p + plen p), p\<lparr>pbase := Some (if pused p < length b then b[pused p := 0] else b)\<rparr>))"

definition mpt_path_valid :: "path \<Rightarrow> int \<times> path" where
  "mpt_path_valid p =
     (if pbase p = None \<or> pflags p AND HasArray = 0 then (0, p)
      else let post = int (pused p) - int (poff p) - int (plen p) in
        if post < 0 then (BadValue, p)
        else (post, if post \<noteq> 0 then p\<lparr>pflags := pflags p OR KeepPost\<rparr> else p))"

text \<open>The loop of \<open>mpt_path_fputs\<close>; a binary path can run over the end of its length, so that the loop is
  a partial function.\<close>

partial_function (option) fputs_loop :: "(block \<Rightarrow> bool) \<Rightarrow> block \<Rightarrow> path \<Rightarrow> nat \<Rightarrow> int \<Rightarrow> block \<Rightarrow> (int \<times> block) option" where
  "fputs_loop fwrite sep tmp cur elem out = do {
     (clen, t) \<leftarrow> mpt_path_next tmp;
     if clen < 0 then Some (elem, out)
     else do {
       b \<leftarrow> pbase tmp;
       d \<leftarrow> rd b cur (nat clen);
       if clen \<noteq> 0 \<and> \<not> fwrite d then Some (- 1, out @ sep)
       else fputs_loop fwrite sep t (poff t) (elem + 1) (out @ sep @ d) } }"

definition mpt_path_fputs :: "(block \<Rightarrow> bool) \<Rightarrow> path \<Rightarrow> block option \<Rightarrow> (int \<times> block) option" where
  "mpt_path_fputs fwrite p sep =
     (if plen p = 0 then Some (0, [])
      else fputs_loop fwrite (case sep of None \<Rightarrow> [47] | Some s \<Rightarrow> s) p (poff p) 0 [])"

section \<open>Elements of a text path\<close>

fun split_on :: "byte \<Rightarrow> block \<Rightarrow> block list" where
  "split_on c [] = [[]]"
| "split_on c (x # xs) = (if x = c then [] # split_on c xs
     else case split_on c xs of [] \<Rightarrow> [[x]] | e # es \<Rightarrow> (x # e) # es)"

lemma split_on_none: "c \<notin> set y \<Longrightarrow> split_on c y = [y]"
  by (induction y) auto

lemma split_on_first: "c \<notin> set e \<Longrightarrow> split_on c (e @ c # y) = e # split_on c y"
  by (induction e) auto

lemma split_on_nonempty [simp]: "split_on c y \<noteq> []"
  by (cases y) (auto split: list.split)

lemma split_cases:
  obtains "c \<notin> set y" "split_on c y = [y]"
  | e r where "y = e @ c # r" "c \<notin> set e" "split_on c y = e # split_on c r"
  using split_list_first [of c y] split_on_none split_on_first by metis

lemma split_on_length: "length (split_on c y) = Suc (length (filter (\<lambda>x. x = c) y))"
  by (induction y) (auto split: list.split)

section \<open>Setting a path\<close>

lemma set_loop_ok:
  assumes "x \<noteq> [] \<Longrightarrow> assign \<notin> set x" and "vlen \<le> length val"
    and "take (length x) (drop pos val) = x" "pos + length x \<le> vlen"
    and e: "vlen = pos + length x \<or> val ! (pos + length x) = assign"
    and el: "0 \<le> elem"
  shows "set_loop sep assign val vlen pos frst elem = Some
    (if vlen = pos + length x
     then (pos + length x, if elem = 0 \<and> sep \<in> set x then pos + length (hd (split_on sep x)) else frst, 1,
       elem + int (length (filter (\<lambda>c. c = sep) x)))
     else (pos + length x + 1, if elem = 0 \<and> sep \<in> set x then pos + length (hd (split_on sep x)) else frst, 0,
       elem + int (length (filter (\<lambda>c. c = sep) x)) + 1))"
  using assms
proof (induction x arbitrary: pos frst elem)
  case Nil
  then show ?case by (subst set_loop.simps) auto
next
  case (Cons c x)
  then have p: "pos < vlen" "pos < length val" by auto
  then have d: "drop pos val = val ! pos # drop (Suc pos) val" by (simp add: Cons_nth_drop_Suc)
  with Cons.prems(3) have v: "val ! pos = c" "take (length x) (drop (Suc pos) val) = x" by auto
  note IH = Cons.IH [of "Suc pos"]
  show ?case
  proof (cases "c = sep")
    case True
    have "set_loop sep assign val vlen pos frst elem =
        set_loop sep assign val vlen (Suc pos) (if elem = 0 then pos else frst) (elem + 1)"
      using p v True Cons.prems(1) by (subst set_loop.simps) auto
    with IH [of "elem + 1" "if elem = 0 then pos else frst"] Cons.prems v True show ?thesis by auto
  next
    case False
    have "set_loop sep assign val vlen pos frst elem = set_loop sep assign val vlen (Suc pos) frst elem"
      using p v False Cons.prems(1) by (subst set_loop.simps) auto
    with IH [of elem frst] Cons.prems v False show ?thesis
      by (auto split: list.split)
  qed
qed

lemma hd_split: "hd (split_on c y) = takeWhile (\<lambda>x. x \<noteq> c) y"
  by (induction y) (auto split: list.split simp: hd_conv_nth)

lemma takeWhile_short: "length (takeWhile (\<lambda>x. x \<noteq> c) y) < length y \<longleftrightarrow> c \<in> set y"
  by (induction y) auto

text \<open>A text path whose remaining bytes, up to the terminating one, are \<open>y\<close>.\<close>

definition path_text :: "path \<Rightarrow> block \<Rightarrow> block \<Rightarrow> bool" where
  "path_text p b y \<longleftrightarrow> pflags p AND SepBinary = 0 \<and> pbase p = Some b \<and> poff p + length y \<le> length b \<and>
     take (length y) (drop (poff p) b) = y \<and> plen p = length y + 1 \<and>
     (pfirst p = 0 \<or> psep p \<in> set y \<and> pfirst p = length (hd (split_on (psep p) y)))"

lemma next_ok:
  assumes "path_text p b y"
  defines "n \<equiv> length (hd (split_on (psep p) y))"
  shows "mpt_path_next p = Some (int n, p\<lparr>pfirst := 0, poff := poff p + (n + 1), plen := length y - n\<rparr>)"
proof -
  have t: "pflags p AND SepBinary = 0" "pbase p = Some b" "poff p + length y \<le> length b"
    "take (length y) (drop (poff p) b) = y" "plen p = length y + 1" using assms(1) by (auto simp: path_text_def)
  show ?thesis
  proof (cases "pfirst p = 0")
    case False
    then have "pfirst p = n" "psep p \<in> set y" using assms by (auto simp: path_text_def)
    moreover from this(2) have "n \<le> length y" using takeWhile_short [of "psep p" y] by (simp add: n_def hd_split)
    ultimately show ?thesis using t False by (simp add: mpt_path_next_def)
  next
    case True
    have m: "memchr_at b (poff p) (psep p) (plen p - 1) = Some (if psep p \<in> set y then Some n else None)"
      using t takeWhile_short [of "psep p" y] by (simp add: memchr_at_def n_def hd_split Let_def)
    have "psep p \<notin> set y \<Longrightarrow> n = length y" by (simp add: n_def split_on_none)
    with m t True show ?thesis by (auto simp: mpt_path_next_def)
  qed
qed

lemma path_text_next:
  assumes "path_text p b y" "y = e @ psep p # r" "psep p \<notin> set e"
  shows "path_text (p\<lparr>pfirst := 0, poff := poff p + (length e + 1), plen := length y - length e\<rparr>) b r"
proof -
  have "take (length y) (drop (poff p) b) = y" using assms(1) by (simp add: path_text_def)
  then have "drop (length e + 1) (take (length y) (drop (poff p) b)) = r" using assms(2) by simp
  then have "take (length r) (drop (poff p + (length e + 1)) b) = r"
    using assms(2) by (simp add: drop_take add.commute add.left_commute)
  with assms show ?thesis by (auto simp: path_text_def)
qed

lemma rd_element:
  assumes "path_text p b y" "hd (split_on (psep p) y) = e"
  shows "rd b (poff p) (length e) = Some e"
proof -
  have y: "take (length y) (drop (poff p) b) = y" "poff p + length y \<le> length b" using assms(1) by (auto simp: path_text_def)
  have e: "takeWhile (\<lambda>x. x \<noteq> psep p) y = e" using assms(2) by (simp add: hd_split)
  have l: "length e \<le> length y" unfolding e [symmetric] by (rule length_takeWhile_le)
  have "take (length e) (drop (poff p) b) = take (length e) (take (length y) (drop (poff p) b))" using l by (simp add: min_def)
  also have "\<dots> = e" unfolding y(1) e [symmetric] by (rule takeWhile_eq_take [symmetric])
  finally show ?thesis using y(2) l by (simp add: rd_def)
qed

lemma fputs_loop_ok:
  assumes "path_text p b y"
  shows "fputs_loop (\<lambda>_. True) sep p (poff p) k out =
    Some (k + int (length (split_on (psep p) y)), out @ concat (map (\<lambda>e. sep @ e) (split_on (psep p) y)))"
  using assms
proof (induction "length y" arbitrary: p y k out rule: less_induct)
  case less
  let ?e = "hd (split_on (psep p) y)"
  note N = next_ok [OF less.prems] and R = rd_element [OF less.prems refl]
  have b: "pbase p = Some b" using less.prems by (simp add: path_text_def)
  let ?p = "p\<lparr>pfirst := 0, poff := poff p + (length ?e + 1), plen := length y - length ?e\<rparr>"
  have step: "fputs_loop (\<lambda>_. True) sep p (poff p) k out = fputs_loop (\<lambda>_. True) sep ?p (poff ?p) (k + 1) (out @ sep @ ?e)"
    using N R b by (subst fputs_loop.simps) simp
  show ?case
  proof (cases rule: split_cases [of "psep p" y])
    case 1
    then have "mpt_path_next ?p = Some (MissingData, ?p)" by (simp add: mpt_path_next_def)
    with 1 step show ?thesis by (subst (asm) (2) fputs_loop.simps) simp
  next
    case (2 e r)
    have "path_text ?p b r" using path_text_next [OF less.prems 2(1,2)] 2 by simp
    with less.hyps [of r ?p "k + 1" "out @ sep @ e"] 2 step show ?thesis by simp
  qed
qed

section \<open>Properties\<close>

text \<open>Property C33: a text path set from bytes that end at the assign character, at the end of a string or at
  the given length is split at the separators: consuming it to its end, as printing does, delivers
  each element once in order.  The result of the assignment is the number of elements where the bytes
  end at an assign character, and one less where they end at the length.\<close>

theorem path_elements:
  assumes "passign p \<notin> set x" and "psep p \<noteq> passign p"
    and "(if len < 0 then passign p = 0 \<and> val = x @ 0 # r
          else if int (length x) < len then val = x @ passign p # r \<and> len \<le> int (length val)
          else len = int (length x) \<and> val = x @ r)"
  shows "\<exists>n q. mpt_path_set p (Some val) len = Some (n, q) \<and>
    n = int (length (split_on (psep p) x)) - (if len = int (length x) then 1 else 0) \<and>
    mpt_path_fputs (\<lambda>_. True) q (Some sep) =
      Some (int (length (split_on (psep p) x)), concat (map (\<lambda>e. sep @ e) (split_on (psep p) x)))"
proof -
  let ?s = "split_on (psep p) x"
  define vlen where "vlen = (if len < 0 then length x + 1 else nat len)"
  have v: "length x \<le> vlen" "vlen \<le> length val" "take (length x) val = x"
      "vlen = length x \<or> val ! length x = passign p" "vlen = length x \<longleftrightarrow> len = int (length x)"
    using assms(3) by (auto simp: vlen_def split: if_splits)
  have "0 \<notin> set x \<Longrightarrow> takeWhile (\<lambda>c. c \<noteq> 0) (x @ 0 # r) = x" by (induction x) auto
  then have "0 \<notin> set x \<Longrightarrow> c_strlen (x @ 0 # r) = Some (length x)" by (simp add: c_strlen_def)
  then have vl: "(if len < 0 then map_option (\<lambda>n. n + 1) (c_strlen val) else Some (nat len)) = Some vlen"
    using assms(1,3) by (auto simp: vlen_def)
  note S = set_loop_ok [of x "passign p" vlen val 0 0 "psep p" 0]
  let ?f = "if psep p \<in> set x then length (hd ?s) else 0"
  let ?q = "(mpt_path_fini p)\<lparr>pbase := Some val, poff := 0, plen := length x + 1, pfirst := (if ?f > 255 then 0 else ?f), pflags := 0\<rparr>"
  have set: "mpt_path_set p (Some val) len =
      Some (int (length ?s) - (if len = int (length x) then 1 else 0), ?q)"
    using S [OF assms(1) v(2)] v vl by (auto simp: mpt_path_set_def split_on_length)
  have sep: "psep ?q = psep p" by (simp add: mpt_path_fini_def)
  have "path_text ?q val x" using v sep by (auto simp: path_text_def)
  from fputs_loop_ok [OF this, of sep 0 "[]"] sep
  have "mpt_path_fputs (\<lambda>_. True) ?q (Some sep) = Some (int (length ?s), concat (map (\<lambda>e. sep @ e) ?s))"
    by (simp add: mpt_path_fputs_def)
  with set show ?thesis by auto
qed

theorem path_elements_witness:
  "\<exists>n q. mpt_path_set MPT_PATH_INIT (Some [97, 46, 98, 99, 0]) (- 1) = Some (n, q) \<and> n = 2 \<and>
    mpt_path_fputs (\<lambda>_. True) q (Some [47]) = Some (2, [47, 97, 47, 98, 99])"
  using path_elements [of MPT_PATH_INIT "[97, 46, 98, 99]" "- 1" "[97, 46, 98, 99, 0]" "[]" "[47]"]
  by (simp add: MPT_PATH_INIT_def)

end
