(* ===== verification/Buffer.thy ===== *)
theory Buffer
  imports MptBase
begin

text \<open>
  Reference counted buffers: \<open>mptcore/misc/refcount.c\<close> and \<open>mptcore/array/\<close> (\<open>buffer_alloc.c\<close>,
  \<open>buffer_set.c\<close>, \<open>buffer_insert.c\<close>, \<open>buffer_cut.c\<close>, \<open>buffer_data.c\<close>).

  The state holds the buffers by address, the static granularity of allocations and the elements that
  were finalised.  Traits describe typed content: an optional function that initialises an element
  from another or by default (\<open>None\<close> when it fails) and the identity of the finaliser (0 for none).
  Traits are compared by identity, as pointers are.  The address and the contents that \<open>malloc\<close>
  delivers are a parameter.  Data of a buffer is a block of its size, of which the first \<open>bused\<close>
  bytes are in use.
\<close>

unbundle bit_operations_syntax

section \<open>Reference counters\<close>

text \<open>The result and the new value of the counter.\<close>

definition mpt_refcount_raise :: "nat \<Rightarrow> nat \<times> nat" where
  "mpt_refcount_raise v = (if v = 0 then (0, 0)
     else if (v + 1) mod 2 ^ 64 \<noteq> 0 then (v + 1, v + 1) else (0, v))"

definition mpt_refcount_lower :: "nat \<Rightarrow> nat \<times> nat" where
  "mpt_refcount_lower v = (if v = 0 then (2 ^ 64 - 1, 0) else (v - 1, v - 1))"

section \<open>State\<close>

record traits =
  tid :: nat
  tsize :: nat
  tinit :: "(block option \<Rightarrow> block option) option"
  tfini :: nat

record bufdata =
  bref :: nat
  bflags :: "32 word"
  btraits :: "traits option"
  bused :: nat
  bdata :: block

record bmem =
  bufs :: "nat \<Rightarrow> bufdata option"
  psz :: nat
  fins :: "(nat \<times> block) list"

type_synonym malloc = "bmem \<Rightarrow> nat \<Rightarrow> (nat \<times> block) option"

abbreviation (input) BufferImmutable :: "32 word" where "BufferImmutable \<equiv> 0x01"
abbreviation (input) BufferNoCopy :: "32 word" where "BufferNoCopy \<equiv> 0x02"
abbreviation (input) BufferFlagsUser :: "32 word" where "BufferFlagsUser \<equiv> 0xff"
abbreviation (input) BufferShared :: "32 word" where "BufferShared \<equiv> 0x0100"

definition bsize :: "bufdata \<Rightarrow> nat" where
  "bsize b = length (bdata b)"

definition getb :: "bmem \<Rightarrow> nat \<Rightarrow> bufdata option" where
  "getb m a = (if a = 0 then None else bufs m a)"

definition putb :: "bmem \<Rightarrow> nat \<Rightarrow> bufdata \<Rightarrow> bmem" where
  "putb m a b = m\<lparr>bufs := (bufs m)(a \<mapsto> b)\<rparr>"

definition same_traits :: "traits option \<Rightarrow> traits option \<Rightarrow> bool" where
  "same_traits s t \<longleftrightarrow> map_option tid s = map_option tid t"

text \<open>The elements of \<open>n\<close> bytes from an offset to an end, as the finaliser gets them.\<close>

function elems :: "block \<Rightarrow> nat \<Rightarrow> nat \<Rightarrow> nat \<Rightarrow> block list option" where
  "elems d off en n =
     (if 0 < n \<and> off < en then do { x \<leftarrow> rd d off n; xs \<leftarrow> elems d (off + n) en n; Some (x # xs) } else Some [])"
  by auto
termination by (relation "measure (\<lambda>(d, off, en, n). en - off)") auto

declare elems.simps [simp del]

definition finalise :: "nat \<Rightarrow> block \<Rightarrow> nat \<Rightarrow> nat \<Rightarrow> nat \<Rightarrow> (nat \<times> block) list option" where
  "finalise fini d off en n = (if fini = 0 then Some [] else map_option (map (Pair fini)) (elems d off en n))"

section \<open>Heap buffers\<close>

definition buffer_alloc_align :: "nat \<Rightarrow> nat \<Rightarrow> int \<times> nat" where
  "buffer_alloc_align ps n = (if n = 0 then (128, 128)
     else if n < 8 \<or> n > 4 * 1024 * 1024 then (BadValue, ps)
     else let k = n + 7 - (n - 1) mod 8 in (int k, k))"

text \<open>The header takes 64 bytes; a length that wraps around to less memory leaves no room for it.\<close>

definition mpt_buffer_alloc :: "malloc \<Rightarrow> bmem \<Rightarrow> nat \<Rightarrow> 32 word \<Rightarrow> (nat \<times> bmem) option" where
  "mpt_buffer_alloc mal m len flags =
     (let m = (if psz m = 0 then m\<lparr>psz := snd (buffer_alloc_align (psz m) 0)\<rparr> else m);
          n = wrap ((usub (wrap (len + 64)) 1 div psz m + 1) * psz m) in
      case mal m n of None \<Rightarrow> Some (0, m)
      | Some (a, raw) \<Rightarrow>
        if n < 64 then None
        else Some (a, putb m a \<lparr>bref = 1, bflags = flags AND BufferFlagsUser, btraits = None, bused = 0,
          bdata = drop 64 raw\<rparr>))"

definition buffer_alloc_flags :: "bufdata \<Rightarrow> 32 word" where
  "buffer_alloc_flags b = (if bref b > 1 then BufferShared else 0) OR bflags b"

definition buffer_alloc_ref :: "bmem \<Rightarrow> nat \<Rightarrow> (nat \<times> bmem) option" where
  "buffer_alloc_ref m a = do {
     b \<leftarrow> getb m a;
     let (r, v) = mpt_refcount_raise (bref b);
     Some (r, putb m a (b\<lparr>bref := v\<rparr>)) }"

definition buffer_alloc_unref :: "bmem \<Rightarrow> nat \<Rightarrow> bmem option" where
  "buffer_alloc_unref m a = do {
     b \<leftarrow> getb m a;
     let (r, v) = mpt_refcount_lower (bref b);
     if r \<noteq> 0 then Some (putb m a (b\<lparr>bref := v\<rparr>))
     else do {
       fs \<leftarrow> (case btraits b of None \<Rightarrow> Some []
            | Some t \<Rightarrow> if tsize t = 0 then Some []
                else finalise (tfini t) (bdata b) 0 (bused b - bused b mod tsize t) (tsize t));
       Some (m\<lparr>bufs := (bufs m)(a := None), fins := fins m @ fs\<rparr>) } }"

text \<open>The loops of \<open>mpt_buffer_set\<close> that initialise elements: in front of the data by default, and from
  the source data; the results are the data, the position reached and the number of copies.\<close>

function init_loop :: "(block option \<Rightarrow> block option) \<Rightarrow> block \<Rightarrow> nat \<Rightarrow> nat \<Rightarrow> nat \<Rightarrow> (block \<times> nat) option" where
  "init_loop ini d off en n =
     (if 0 < n \<and> off < en then
        (case ini None of None \<Rightarrow> Some (d, off)
         | Some x \<Rightarrow> do { d \<leftarrow> wr d off x; init_loop ini d (off + n) en n })
      else Some (d, off))"
  by auto
termination by (relation "measure (\<lambda>(ini, d, off, en, n). en - off)") auto

function copy_loop ::
  "(block option \<Rightarrow> block option) \<Rightarrow> block \<Rightarrow> nat \<Rightarrow> nat \<Rightarrow> nat \<Rightarrow> block option \<Rightarrow> nat \<Rightarrow> int \<Rightarrow> (block \<times> nat \<times> int) option" where
  "copy_loop ini d pos en n src from count =
     (if 0 < n \<and> pos < en then do {
        c \<leftarrow> (case src of None \<Rightarrow> Some None | Some s \<Rightarrow> do { x \<leftarrow> rd s from n; Some (ini (Some x)) });
        (case c of
           Some x \<Rightarrow> do { d \<leftarrow> wr d pos x; copy_loop ini d (pos + n) en n src (from + n) (count + 1) }
         | None \<Rightarrow>
             (case ini None of None \<Rightarrow> Some (d, pos, count)
              | Some x \<Rightarrow> do { d \<leftarrow> wr d pos x; copy_loop ini d (pos + n) en n src (from + n) count })) }
      else Some (d, pos, count))"
  by auto
termination by (relation "measure (\<lambda>(ini, d, pos, en, n, src, from, count). en - pos)") auto

declare init_loop.simps [simp del] copy_loop.simps [simp del]

text \<open>Source data that is absent stands for zero bytes.\<close>

definition raw_data :: "block option \<Rightarrow> nat \<Rightarrow> block option" where
  "raw_data src len = (case src of None \<Rightarrow> Some (replicate len 0) | Some s \<Rightarrow> rd s 0 len)"

definition set_typed ::
  "bmem \<Rightarrow> nat \<Rightarrow> bufdata \<Rightarrow> traits \<Rightarrow> traits option \<Rightarrow> nat \<Rightarrow> block option \<Rightarrow> nat \<Rightarrow> (int \<times> bmem) option" where
  "set_typed m a b t st pos src len =
     (let en = pos + len;
          esz = (case st of None \<Rightarrow> 1 | Some s \<Rightarrow> tsize s);
          used = (case st of None \<Rightarrow> bused b | Some s \<Rightarrow> bused b - bused b mod esz);
          ini = (case st of None \<Rightarrow> None | Some s \<Rightarrow> tinit s);
          fini = tfini t in
      if esz = 0 \<or> (st \<noteq> None \<and> (pos mod esz \<noteq> 0 \<or> len mod esz \<noteq> 0)) then Some (BadArgument, m)
      else if \<not> same_traits (Some t) st \<and>
          (fini = 0 \<or> (case st of None \<Rightarrow> True | Some s \<Rightarrow> fini \<noteq> tfini s) \<or> tsize t \<noteq> esz)
        then Some (BadType, m)
      else do {
        fs \<leftarrow> finalise fini (bdata b) pos used esz;
        m \<leftarrow> Some (m\<lparr>fins := fins m @ fs\<rparr>);
        case ini of
          None \<Rightarrow> do {
            d \<leftarrow> (if used < pos then memset_b (bdata b) used 0 (pos - used) else Some (bdata b));
            x \<leftarrow> raw_data src len;
            d \<leftarrow> wr d pos x;
            Some (int (len div esz), putb m a (b\<lparr>bdata := d, bused := max used en\<rparr>)) }
        | Some ini \<Rightarrow> do {
            (d, off) \<leftarrow> (if used < pos then init_loop ini (bdata b) used pos esz else Some (bdata b, pos));
            if off < pos then Some (BadOperation, putb m a (b\<lparr>bdata := d, bused := off\<rparr>))
            else do {
              (d, p, count) \<leftarrow> copy_loop ini d pos en esz src 0 0;
              if p < en then do {
                fs \<leftarrow> finalise fini d p used esz;
                Some (count, putb (m\<lparr>fins := fins m @ fs\<rparr>) a (b\<lparr>bdata := d, bused := p\<rparr>)) }
              else Some (count, putb m a (b\<lparr>bdata := d, bused := max used en\<rparr>)) } } })"

definition mpt_buffer_set ::
  "bmem \<Rightarrow> nat \<Rightarrow> traits option \<Rightarrow> nat \<Rightarrow> block option \<Rightarrow> nat \<Rightarrow> (int \<times> bmem) option" where
  "mpt_buffer_set m a st pos src len = do {
     b \<leftarrow> getb m a;
     if pos + len \<ge> 2 ^ 64 then Some (BadArgument, m)
     else if pos + len > bsize b then Some (MissingBuffer, m)
     else case btraits b of
       None \<Rightarrow> if st \<noteq> None then Some (BadArgument, m)
         else do {
           x \<leftarrow> raw_data src len;
           d \<leftarrow> wr (bdata b) pos x;
           Some (0, putb m a (b\<lparr>bdata := d, bused := max (bused b) (pos + len)\<rparr>)) }
     | Some t \<Rightarrow> set_typed m a b t st pos src len }"

text \<open>The end of \<open>detach\<close> without further references: elements that do not fit are finalised, the others
  are moved.\<close>

definition detach_move :: "bmem \<Rightarrow> nat \<Rightarrow> bufdata \<Rightarrow> nat \<Rightarrow> nat \<Rightarrow> bmem option" where
  "detach_move m a b next len = do {
     (add, fs) \<leftarrow>
       (if bused b > len then
          (case btraits b of None \<Rightarrow> Some (len, [])
           | Some t \<Rightarrow> if tfini t \<noteq> 0
               then do { fs \<leftarrow> finalise (tfini t) (bdata b) len (bused b - bused b mod tsize t) (tsize t); Some (len, fs) }
               else Some (bused b, []))
        else Some (bused b, []));
     n \<leftarrow> getb m next;
     x \<leftarrow> rd (bdata b) 0 add;
     d \<leftarrow> wr (bdata n) 0 x;
     Some (putb (m\<lparr>bufs := (bufs m)(a := None), fins := fins m @ fs\<rparr>) next (n\<lparr>bdata := d, bused := add\<rparr>)) }"

definition buffer_alloc_detach :: "malloc \<Rightarrow> bmem \<Rightarrow> nat \<Rightarrow> nat \<Rightarrow> (nat \<times> bmem) option" where
  "buffer_alloc_detach mal m a len = do {
     b \<leftarrow> getb m a;
     if (case btraits b of None \<Rightarrow> False | Some t \<Rightarrow> tsize t = 0) then Some (0, m)
     else let len = (case btraits b of None \<Rightarrow> len
                     | Some t \<Rightarrow> if len mod tsize t \<noteq> 0 then wrap (len + (tsize t - len mod tsize t)) else len) in
       if bref b < 2 \<and> len \<le> bsize b \<and> bflags b AND BufferImmutable = 0 then Some (a, m)
       else if \<not> bref b < 2 \<and> bflags b AND BufferNoCopy \<noteq> 0 \<and> bused b \<noteq> 0 then Some (0, m)
       else do {
         (next, m) \<leftarrow> mpt_buffer_alloc mal m len (bflags b AND NOT BufferImmutable);
         if next = 0 then Some (0, m)
         else do {
           n \<leftarrow> getb m next;
           m \<leftarrow> Some (putb m next (n\<lparr>btraits := btraits b\<rparr>));
           let (r, v) = mpt_refcount_lower (bref b);
           if r \<noteq> 0 then do {
             m \<leftarrow> Some (putb m a (b\<lparr>bref := v\<rparr>));
             (s, m) \<leftarrow> mpt_buffer_set m next (btraits b) 0 (Some (bdata b)) (bused b);
             if s < 0 then do { m \<leftarrow> buffer_alloc_unref m next; Some (0, m) } else Some (next, m) }
           else do { m \<leftarrow> detach_move m a b next len; Some (next, m) } } } }"

section \<open>Content operations\<close>

text \<open>The position of the inserted data, or none.\<close>

definition mpt_buffer_insert :: "bmem \<Rightarrow> nat \<Rightarrow> nat \<Rightarrow> nat \<Rightarrow> (nat option \<times> bmem) option" where
  "mpt_buffer_insert m a pos len = do {
     b \<leftarrow> getb m a;
     let used = bused b;
     let (total, keep) = (if pos < used then (wrap (used + len), used - pos) else (wrap (pos + len), 0));
     if total = 0 then Some (Some 0, m)
     else if total > bsize b then Some (None, m)
     else if buffer_alloc_flags b AND BufferImmutable \<noteq> 0 then Some (None, m)
     else if (case btraits b of None \<Rightarrow> False
         | Some t \<Rightarrow> tsize t = 0 \<or> used mod tsize t \<noteq> 0 \<or> pos mod tsize t \<noteq> 0 \<or> len mod tsize t \<noteq> 0)
       then Some (None, m)
     else do {
       d \<leftarrow> (if keep \<noteq> 0 then memmove_b (bdata b) (usub total keep) pos keep else Some (bdata b));
       (d, used) \<leftarrow> (case btraits b of None \<Rightarrow> Some (d, used)
          | Some t \<Rightarrow> (case tinit t of None \<Rightarrow> Some (d, used) | Some ini \<Rightarrow> init_loop ini d used pos (tsize t)));
       d \<leftarrow> (if pos > used then memset_b d used 0 (pos - used) else Some d);
       Some (Some pos, putb m a (b\<lparr>bdata := d, bused := total\<rparr>)) } }"

definition mpt_buffer_cut :: "bmem \<Rightarrow> nat \<Rightarrow> nat \<Rightarrow> nat \<Rightarrow> (int \<times> bmem) option" where
  "mpt_buffer_cut m a off len = do {
     b \<leftarrow> getb m a;
     if len > bused b then Some (BadArgument, m)
     else let keep = (if len = 0 then off else bused b - len) in
       if len \<noteq> 0 \<and> keep < off then Some (MissingData, m)
       else if (case btraits b of None \<Rightarrow> False | Some t \<Rightarrow> tsize t = 0 \<or> off mod tsize t \<noteq> 0 \<or> len mod tsize t \<noteq> 0)
         then Some (BadArgument, m)
       else do {
         fs \<leftarrow> (case btraits b of None \<Rightarrow> Some []
              | Some t \<Rightarrow> finalise (tfini t) (bdata b) off (off + len) (tsize t));
         d \<leftarrow> (if keep - off \<noteq> 0 then memmove_b (bdata b) off (off + len) (keep - off) else Some (bdata b));
         Some (int (off + (keep - off)),
           putb (m\<lparr>fins := fins m @ fs\<rparr>) a (b\<lparr>bdata := d, bused := off + (keep - off)\<rparr>)) } }"

definition mpt_buffer_data :: "bufdata \<Rightarrow> nat \<Rightarrow> nat \<Rightarrow> nat option" where
  "mpt_buffer_data b pos len = (if len \<noteq> 0 \<and> pos \<ge> bused b div len then None else Some (pos * len))"

section \<open>Raw contents\<close>

text \<open>The used bytes of a buffer; well-formed buffers have at least one reference and static flags, and raw
  ones no content type.\<close>

definition content :: "bufdata \<Rightarrow> block" where
  "content b = take (bused b) (bdata b)"

definition raw_ok :: "bufdata \<Rightarrow> bool" where
  "raw_ok b \<longleftrightarrow> btraits b = None \<and> bused b \<le> bsize b \<and> bsize b < 2 ^ 64 \<and> 0 < bref b \<and>
     bflags b AND BufferShared = 0"

text \<open>The contents that holders of a reference see.\<close>

definition bcont :: "bmem \<Rightarrow> nat \<Rightarrow> block option" where
  "bcont m a = map_option content (getb m a)"

text \<open>The next allocation succeeds at a new address with all requested bytes; the granularity is an \<open>int\<close>.\<close>

definition set_psz :: "bmem \<Rightarrow> bmem" where
  "set_psz m = (if psz m = 0 then m\<lparr>psz := 128\<rparr> else m)"

definition alloc_ok :: "malloc \<Rightarrow> bmem \<Rightarrow> bool" where
  "alloc_ok mal m \<longleftrightarrow> psz m < 2 ^ 31 \<and> (\<forall>n. case mal (set_psz m) n of None \<Rightarrow> False
     | Some (a, raw) \<Rightarrow> a \<noteq> 0 \<and> bufs m a = None \<and> length raw = n)"

lemma getb_putb: "getb (putb m a b) c = (if c = a \<and> a \<noteq> 0 then Some b else getb m c)"
  by (auto simp: getb_def putb_def)

lemma putb_twice [simp]: "putb (putb m a b) a c = putb m a c"
  by (simp add: putb_def)

lemma getb_nonzero: "getb m a = Some b \<Longrightarrow> a \<noteq> 0"
  by (auto simp: getb_def split: if_splits)

lemma content_length: "raw_ok b \<Longrightarrow> length (content b) = bused b"
  by (simp add: raw_ok_def content_def bsize_def)

text \<open>The rounded size of an allocation that does not wrap around.\<close>

lemma round_up:
  assumes "0 < ps" "ps < 2 ^ 32" "len < 2 ^ 63"
  defines "n \<equiv> wrap ((usub (wrap (len + 64)) 1 div ps + 1) * ps)"
  shows "len + 64 \<le> n" "n < 2 ^ 64"
proof -
  let ?x = "len + 64 - 1"
  have x: "usub (wrap (len + 64)) 1 = ?x" using assms(3) by simp
  have "(?x div ps + 1) * ps = ?x div ps * ps + ps" by simp
  moreover have "?x div ps * ps \<le> ?x" by simp
  moreover have "(2 :: nat) ^ 63 + 64 + 2 ^ 32 \<le> 2 ^ 64" by simp
  ultimately have "(?x div ps + 1) * ps < 2 ^ 64" using assms(2,3) by linarith
  then have e: "n = (?x div ps + 1) * ps" unfolding n_def x by (rule wrap_id)
  have "?x < (?x div ps + 1) * ps" using dividend_less_div_times [OF assms(1)] by (simp add: add.commute)
  then show "len + 64 \<le> n" unfolding e by linarith
  show "n < 2 ^ 64" unfolding n_def by (rule wrap_less)
qed

lemma alloc_raw:
  assumes "alloc_ok mal m" "len < 2 ^ 63"
  shows "\<exists>a n. mpt_buffer_alloc mal m len fl = Some (a, putb (set_psz m) a n) \<and> a \<noteq> 0 \<and> bufs m a = None \<and>
    raw_ok n \<and> bref n = 1 \<and> bused n = 0 \<and> len \<le> bsize n \<and> bflags n = fl AND BufferFlagsUser"
proof -
  let ?ps = "psz (set_psz m)"
  let ?n = "wrap ((usub (wrap (len + 64)) 1 div ?ps + 1) * ?ps)"
  have ps: "0 < ?ps" "?ps < 2 ^ 32" using assms(1) by (auto simp: set_psz_def alloc_ok_def)
  note ru = round_up [OF ps assms(2)]
  have e: "(if psz m = 0 then m\<lparr>psz := snd (buffer_alloc_align (psz m) 0)\<rparr> else m) = set_psz m"
    by (simp add: set_psz_def buffer_alloc_align_def)
  have "case mal (set_psz m) ?n of None \<Rightarrow> False | Some (a, raw) \<Rightarrow> a \<noteq> 0 \<and> bufs m a = None \<and> length raw = ?n"
    using assms(1) unfolding alloc_ok_def by blast
  then obtain a raw where r: "mal (set_psz m) ?n = Some (a, raw)" "a \<noteq> 0" "bufs m a = None" "length raw = ?n"
    by (auto split: option.splits)
  have "\<not> ?n < 64" using ru(1) by linarith
  then have "mpt_buffer_alloc mal m len fl = Some (a, putb (set_psz m) a \<lparr>bref = 1, bflags = fl AND BufferFlagsUser,
      btraits = None, bused = 0, bdata = drop 64 raw\<rparr>)"
    unfolding mpt_buffer_alloc_def Let_def e using r(1) by simp
  moreover have "len \<le> length (drop 64 raw)" "length (drop 64 raw) < 2 ^ 64"
    unfolding length_drop r(4) using ru by linarith+
  moreover have "(fl AND BufferFlagsUser) AND BufferShared = 0" by (simp add: and.assoc)
  ultimately show ?thesis using r(2,3) by (auto simp: raw_ok_def bsize_def)
qed

lemma getb_set_psz [simp]: "getb (set_psz m) c = getb m c" "fins (set_psz m) = fins m"
  by (auto simp: getb_def set_psz_def)

lemma buffer_set_raw:
  assumes "getb m a = Some b" "raw_ok b" "pos + length x \<le> bsize b" "pos + length x < 2 ^ 64" "pos \<le> bused b"
    and "raw_data src (length x) = Some x"
  shows "\<exists>b'. mpt_buffer_set m a None pos src (length x) = Some (0, putb m a b') \<and> raw_ok b' \<and>
    content b' = take pos (content b) @ x @ drop (pos + length x) (content b) \<and>
    bsize b' = bsize b \<and> bref b' = bref b \<and> bflags b' = bflags b"
proof -
  let ?d = "take pos (bdata b) @ x @ drop (pos + length x) (bdata b)"
  let ?b = "b\<lparr>bdata := ?d, bused := max (bused b) (pos + length x)\<rparr>"
  have "wr (bdata b) pos x = Some ?d" using assms(3) by (simp add: wr_def bsize_def)
  then have "mpt_buffer_set m a None pos src (length x) = Some (0, putb m a ?b)"
    using assms by (simp add: mpt_buffer_set_def raw_ok_def)
  moreover have "content ?b = take pos (content b) @ x @ drop (pos + length x) (content b)"
  proof -
    from split_at_two [of pos "length x" "bdata b"] assms(3) obtain u v w where
      u: "bdata b = u @ v @ w" "length u = pos" "length v = length x" by (auto simp: bsize_def)
    then have "content ?b = take (max (bused b) (pos + length x)) (u @ x @ w)" by (simp add: content_def)
    also have "\<dots> = u @ x @ take (bused b - (pos + length x)) w" using u(2) by (auto simp: max_def)
    finally show ?thesis using u assms(5) by (auto simp: content_def min_def)
  qed
  ultimately show ?thesis using assms(2,3) by (auto simp: raw_ok_def bsize_def)
qed

text \<open>A private buffer of a size: the holders of other references keep what they see.\<close>

definition private_copy :: "bmem \<Rightarrow> nat \<Rightarrow> bufdata \<Rightarrow> nat \<Rightarrow> bmem \<Rightarrow> bool" where
  "private_copy m a b a' m' \<longleftrightarrow>
     (\<forall>c. c \<noteq> a \<and> c \<noteq> a' \<longrightarrow> getb m' c = getb m c) \<and>
     (if 1 < bref b then a' \<noteq> a \<and> getb m' a = Some (b\<lparr>bref := bref b - 1\<rparr>) else a' = a \<or> getb m' a = None) \<and>
     (a' = a \<or> getb m a' = None) \<and> fins m' = fins m \<and> (psz m' = psz m \<or> psz m' = 128)"

text \<open>Memory with room for new addresses, on which an allocator always succeeds.\<close>

definition mem_ok :: "bmem \<Rightarrow> bool" where
  "mem_ok m \<longleftrightarrow> finite {a. getb m a \<noteq> None} \<and> psz m < 2 ^ 31"

definition always_ok :: "malloc \<Rightarrow> bool" where
  "always_ok mal \<longleftrightarrow> (\<forall>m. mem_ok m \<longrightarrow> alloc_ok mal m)"

lemma mem_ok_putb: "mem_ok m \<Longrightarrow> mem_ok (putb m a b)"
proof -
  assume "mem_ok m"
  moreover have "{c. getb (putb m a b) c \<noteq> None} \<subseteq> insert a {c. getb m c \<noteq> None}" by (auto simp: getb_putb)
  ultimately show ?thesis by (auto simp: mem_ok_def putb_def intro: finite_subset)
qed

lemma mem_ok_psz: "mem_ok m \<Longrightarrow> mem_ok (set_psz m)"
  by (simp add: mem_ok_def) (simp add: set_psz_def)

lemma mem_ok_private:
  assumes "mem_ok m" "private_copy m a b a' m'"
  shows "mem_ok m'"
proof -
  have "getb m' c = getb m c" if "c \<noteq> a" "c \<noteq> a'" for c using assms(2) that by (simp add: private_copy_def)
  then have "{c. getb m' c \<noteq> None} \<subseteq> {a, a'} \<union> {c. getb m c \<noteq> None}" by auto
  then show ?thesis using assms by (auto simp: mem_ok_def private_copy_def intro: finite_subset)
qed

lemma detach_raw:
  assumes b: "getb m a = Some b" "raw_ok b" "bused b \<le> len" "len < 2 ^ 63" and al: "alloc_ok mal m"
    and nc: "1 < bref b \<Longrightarrow> bflags b AND BufferNoCopy = 0"
  shows "\<exists>a' b' m'. buffer_alloc_detach mal m a len = Some (a', m') \<and> getb m' a' = Some b' \<and> raw_ok b' \<and>
    content b' = content b \<and> len \<le> bsize b' \<and> bref b' = 1 \<and> bflags b' AND BufferImmutable = 0 \<and>
    private_copy m a b a' m'"
proof -
  have t: "btraits b = None" "bused b \<le> bsize b" "0 < bref b" "a \<noteq> 0"
    using b getb_nonzero by (auto simp: raw_ok_def)
  show ?thesis
  proof (cases "bref b < 2 \<and> len \<le> bsize b \<and> bflags b AND BufferImmutable = 0")
    case True
    then have "buffer_alloc_detach mal m a len = Some (a, m)" using b t by (simp add: buffer_alloc_detach_def)
    with True b t show ?thesis by (auto simp: private_copy_def)
  next
    case False
    from alloc_raw [OF al b(4), of "bflags b AND NOT BufferImmutable"] obtain x n where
      n: "mpt_buffer_alloc mal m len (bflags b AND NOT BufferImmutable) = Some (x, putb (set_psz m) x n)" "x \<noteq> 0" "bufs m x = None"
        "raw_ok n" "bref n = 1" "bused n = 0" "len \<le> bsize n" "bflags n = (bflags b AND NOT BufferImmutable) AND BufferFlagsUser" by blast
    have im: "bflags n AND BufferImmutable = 0" unfolding n(8) by (rule bit_word_eqI) (auto simp: bit_simps)
    have xa: "x \<noteq> a" using b n by (auto simp: getb_def)
    have nt: "n\<lparr>btraits := None\<rparr> = n" using n(4) by (simp add: raw_ok_def)
    let ?m = "putb (set_psz m) x n"
    have step: "buffer_alloc_detach mal m a len = (let (r, v) = mpt_refcount_lower (bref b) in
        if r \<noteq> 0 then do {
          (s, m) \<leftarrow> mpt_buffer_set (putb ?m a (b\<lparr>bref := v\<rparr>)) x None 0 (Some (bdata b)) (bused b);
          if s < 0 then do { m \<leftarrow> buffer_alloc_unref m x; Some (0, m) } else Some (x, m) }
        else do { m \<leftarrow> detach_move ?m a b x len; Some (x, m) })"
      using False b t n nc nt by (auto simp: buffer_alloc_detach_def Let_def getb_putb split: prod.splits)
    show ?thesis
    proof (cases "1 < bref b")
      case True
      let ?m1 = "putb ?m a (b\<lparr>bref := bref b - 1\<rparr>)"
      have g: "getb ?m1 x = Some n" using xa n by (simp add: getb_putb)
      have cb: "length (content b) = bused b" using content_length [OF b(2)] .
      have "raw_data (Some (bdata b)) (bused b) = Some (content b)" using t by (simp add: raw_data_def rd_def content_def bsize_def)
      then obtain n' where n': "mpt_buffer_set ?m1 x None 0 (Some (bdata b)) (bused b) = Some (0, putb ?m1 x n')" "raw_ok n'"
          "content n' = content b" "bsize n' = bsize n" "bref n' = bref n" "bflags n' = bflags n"
        using buffer_set_raw [OF g n(4), of 0 "content b" "Some (bdata b)"] cb n b content_length [OF n(4)] by auto
      have "buffer_alloc_detach mal m a len = Some (x, putb ?m1 x n')"
        unfolding step mpt_refcount_lower_def using True n'(1) by simp
      moreover have "private_copy m a b x (putb ?m1 x n')"
        using True xa t n by (auto simp: private_copy_def getb_putb) (auto simp: putb_def getb_def set_psz_def split: if_splits)
      ultimately show ?thesis using n' n im xa by (auto simp: getb_putb)
    next
      case False
      then have r: "bref b = 1" using t by simp
      let ?d = "take (bused b) (bdata b) @ drop (bused b) (bdata n)"
      let ?n = "n\<lparr>bdata := ?d, bused := bused b\<rparr>"
      let ?m2 = "putb (?m\<lparr>bufs := (bufs ?m)(a := None), fins := fins ?m\<rparr>) x ?n"
      have "detach_move ?m a b x len = Some ?m2"
        using b t n xa by (simp add: detach_move_def getb_putb rd_def wr_def bsize_def)
      then have "buffer_alloc_detach mal m a len = Some (x, ?m2)"
        unfolding step mpt_refcount_lower_def using r by simp
      moreover have "private_copy m a b x ?m2"
        using False xa n t by (auto simp: private_copy_def getb_putb) (auto simp: putb_def getb_def set_psz_def split: if_splits)
      moreover have "raw_ok ?n" "content ?n = content b" "bsize ?n = bsize n"
        using b t n by (auto simp: raw_ok_def content_def bsize_def)
      ultimately show ?thesis using n im by (intro exI [of _ x] exI [of _ ?n]) (auto simp: getb_putb)
    qed
  qed
qed

lemma putb_same: "getb m a = Some b \<Longrightarrow> putb m a b = m"
  by (cases m) (auto simp: getb_def putb_def fun_upd_idem split: if_splits)

text \<open>Insertion and removal on raw contents; bytes between the end of the data and the position become
  zero, the inserted ones are not defined.\<close>

lemma insert_raw:
  assumes b: "getb m a = Some b" "raw_ok b" "bflags b AND BufferImmutable = 0" "max (bused b) pos + len \<le> bsize b"
  defines "c \<equiv> content b @ replicate (pos - bused b) 0"
  shows "\<exists>b' g. mpt_buffer_insert m a pos len = Some (Some pos, putb m a b') \<and> raw_ok b' \<and>
    content b' = take pos c @ g @ drop pos c \<and> length g = len \<and>
    bsize b' = bsize b \<and> bref b' = bref b \<and> bflags b' = bflags b"
proof -
  have t: "btraits b = None" "bused b \<le> bsize b" "bsize b < 2 ^ 64" using b by (auto simp: raw_ok_def)
  have fl: "buffer_alloc_flags b AND BufferImmutable = 0"
  proof -
    have "(0x100 :: 32 word) AND 1 = 0" by simp
    with b(3) show ?thesis by (auto simp: buffer_alloc_flags_def bit.conj_disj_distrib2)
  qed
  show ?thesis
  proof (cases "pos < bused b")
    case True
    let ?t = "bused b + len" and ?k = "bused b - pos"
    obtain u v w where d: "bdata b = u @ v @ w" "length u = pos" "length v = ?k"
      using split_at_two [of pos ?k "bdata b"] t True by (auto simp: bsize_def)
    have cb: "content b = u @ v" using d True by (simp add: content_def)
    have le: "pos + len + ?k \<le> length (bdata b)" using b(4) True by (simp add: bsize_def)
    let ?d = "take (pos + len) (bdata b) @ v @ drop (pos + len + ?k) (bdata b)"
    have "memmove_b (bdata b) (?t - ?k) pos ?k = Some ?d"
      using True le d rd_parts [of pos u ?k v w] by (simp add: memmove_b_def wr_def)
    then have "mpt_buffer_insert m a pos len = Some (Some pos, putb m a (b\<lparr>bdata := ?d, bused := ?t\<rparr>))"
      using True b t fl by (simp add: mpt_buffer_insert_def Let_def)
    moreover have "content (b\<lparr>bdata := ?d, bused := ?t\<rparr>) = u @ take len (drop pos (bdata b)) @ v"
    proof -
      have "take ?t ?d = take (pos + len) (bdata b) @ v" using le d(3) True by simp
      then show ?thesis using d(1,2) by (simp add: content_def take_add)
    qed
    moreover have "length (take len (drop pos (bdata b))) = len" using le by simp
    moreover have "raw_ok (b\<lparr>bdata := ?d, bused := ?t\<rparr>)" using b(2) le d(3) True by (simp add: raw_ok_def bsize_def)
    moreover have "take pos c = u" "drop pos c = v" using cb d True by (simp_all add: c_def)
    ultimately show ?thesis using le d(3)
      by (intro exI [of _ "b\<lparr>bdata := ?d, bused := ?t\<rparr>"] exI [of _ "take len (drop pos (bdata b))"]) (simp add: bsize_def)
  next
    case False
    let ?z = "replicate (pos - bused b) (0 :: byte)"
    have c: "length c = pos" "take pos c = c" "drop pos c = []"
      using content_length [OF b(2)] False by (simp_all add: c_def)
    show ?thesis
    proof (cases "pos + len = 0")
      case True
      then have "mpt_buffer_insert m a pos len = Some (Some pos, putb m a b)"
        using b False putb_same [OF b(1)] by (simp add: mpt_buffer_insert_def)
      with True False b c show ?thesis
        by (intro exI [of _ b] exI [of _ "[]"]) (simp add: c_def content_def)
    next
      case nz: False
      let ?d = "take (bused b) (bdata b) @ ?z @ drop pos (bdata b)"
      let ?b = "b\<lparr>bdata := ?d, bused := pos + len\<rparr>"
      have le: "pos + len \<le> length (bdata b)" using b(4) False by (simp add: bsize_def)
      have "(if pos > bused b then memset_b (bdata b) (bused b) 0 (pos - bused b) else Some (bdata b)) = Some ?d"
        using False le t by (auto simp: memset_b_def wr_def not_less bsize_def)
      then have "mpt_buffer_insert m a pos len = Some (Some pos, putb m a ?b)"
        using False nz b t fl by (auto simp: mpt_buffer_insert_def Let_def)
      moreover have "content ?b = c @ take len (drop pos (bdata b))"
        using False le by (simp add: content_def c_def)
      ultimately show ?thesis using b(2) le c False
        by (intro exI [of _ ?b] exI [of _ "take len (drop pos (bdata b))"]) (auto simp: raw_ok_def bsize_def)
    qed
  qed
qed

lemma cut_raw:
  assumes b: "getb m a = Some b" "raw_ok b" "off + len \<le> bused b" "0 < len"
  shows "\<exists>b'. mpt_buffer_cut m a off len = Some (int (bused b - len), putb m a b') \<and> raw_ok b' \<and>
    content b' = take off (content b) @ drop (off + len) (content b) \<and>
    bsize b' = bsize b \<and> bref b' = bref b \<and> bflags b' = bflags b"
proof -
  have t: "btraits b = None" "bused b \<le> bsize b" using b by (auto simp: raw_ok_def)
  let ?k = "bused b - len - off"
  obtain u v r where d: "bdata b = u @ v @ r" "length u = off" "length v = len"
    using split_at_two [of off len "bdata b"] t b(3) by (auto simp: bsize_def)
  have cb: "content b = u @ v @ take ?k r" using d b(3) by (simp add: content_def add.commute)
  have le: "?k \<le> length r" using d t b(3) by (simp add: bsize_def)
  let ?d = "u @ take ?k r @ drop (off + ?k) (bdata b)"
  let ?b = "b\<lparr>bdata := ?d, bused := off + ?k\<rparr>"
  have "memmove_b (bdata b) off (off + len) ?k = Some ?d"
    using d le by (simp add: memmove_b_def rd_def wr_def)
  moreover have "?k = 0 \<Longrightarrow> ?d = bdata b" using d by simp
  ultimately have "(if ?k \<noteq> 0 then memmove_b (bdata b) off (off + len) ?k else Some (bdata b)) = Some ?d" by auto
  then have "mpt_buffer_cut m a off len = Some (int (off + ?k), putb (m\<lparr>fins := fins m\<rparr>) a ?b)"
    using b t by (cases "?k = 0") (simp_all add: mpt_buffer_cut_def Let_def)
  moreover have "content ?b = u @ take ?k r" using d le by (simp add: content_def)
  moreover have "raw_ok ?b" "bsize ?b = bsize b" using b d le by (auto simp: raw_ok_def bsize_def)
  ultimately show ?thesis using b(3) cb d by (intro exI [of _ ?b]) simp
qed

lemma cut_middle:
  "length x = pos \<Longrightarrow> length g = len \<Longrightarrow> take pos (x @ g @ y) @ drop (pos + len) (x @ g @ y) = x @ y"
  by simp

text \<open>An allocator that takes the first free address.\<close>

definition first_fit :: malloc where
  "first_fit m n = Some (LEAST a. a \<noteq> 0 \<and> getb m a = None, replicate n 0)"

lemma first_fit_ok: "always_ok first_fit"
proof -
  have "alloc_ok first_fit m" if "mem_ok m" for m
  proof -
    let ?P = "\<lambda>a. a \<noteq> 0 \<and> getb m a = None"
    have "finite ({a. getb m a \<noteq> None} \<union> {0})" using that by (simp add: mem_ok_def)
    then obtain x where "x \<notin> {a. getb m a \<noteq> None} \<union> {0}" using ex_new_if_finite infinite_UNIV_nat by blast
    then have "?P x" by simp
    then have p: "?P (LEAST a. ?P a)" by (rule LeastI)
    have "c \<noteq> 0 \<Longrightarrow> getb m c = None \<Longrightarrow> bufs m c = None" for c by (simp add: getb_def)
    with p have "bufs m (LEAST a. ?P a) = None" by blast
    with p that show ?thesis by (simp add: alloc_ok_def first_fit_def mem_ok_def)
  qed
  then show ?thesis by (simp add: always_ok_def)
qed

definition bmem_init :: bmem where
  "bmem_init = \<lparr>bufs = Map.empty, psz = 0, fins = []\<rparr>"

lemma bmem_init_ok: "mem_ok bmem_init"
  by (simp add: bmem_init_def mem_ok_def getb_def)

section \<open>Properties\<close>

text \<open>Property C34: an insertion in raw data moves the data behind the position and fills a gap in front of
  it with zero bytes, and cutting the inserted bytes out again restores the contents; the size of the
  buffer and its references do not change.\<close>

theorem buffer_insert_cut:
  assumes "getb m a = Some b" and "raw_ok b" and "bflags b AND BufferImmutable = 0"
    and "max (bused b) pos + len \<le> bsize b" and "0 < len"
  shows "\<exists>b1 b2 g. mpt_buffer_insert m a pos len = Some (Some pos, putb m a b1) \<and>
    content b1 = take pos (content b @ replicate (pos - bused b) 0) @ g @ drop pos (content b) \<and> length g = len \<and>
    mpt_buffer_cut (putb m a b1) a pos len = Some (int (max (bused b) pos), putb m a b2) \<and>
    content b2 = content b @ replicate (pos - bused b) 0 \<and>
    raw_ok b1 \<and> raw_ok b2 \<and> bsize b2 = bsize b \<and> bref b2 = bref b"
proof -
  let ?c = "content b @ replicate (pos - bused b) 0"
  have cl: "length (content b) = bused b" by (rule content_length [OF assms(2)])
  have dc: "drop pos ?c = drop pos (content b)" by (cases "pos \<le> bused b") (simp_all add: cl)
  from insert_raw [OF assms(1-4)] obtain b1 g where
    i: "mpt_buffer_insert m a pos len = Some (Some pos, putb m a b1)" "raw_ok b1" "content b1 = take pos ?c @ g @ drop pos ?c"
      "length g = len" "bsize b1 = bsize b" "bref b1 = bref b" by blast
  have lp: "length (take pos ?c) = pos" using cl by simp
  have u: "bused b1 = max (bused b) pos + len"
    using content_length [OF i(2)] unfolding i(3) using cl i(4) by auto
  have g1: "getb (putb m a b1) a = Some b1" using getb_nonzero [OF assms(1)] by (simp add: getb_putb)
  have "pos + len \<le> bused b1" using u by simp
  from cut_raw [OF g1 i(2) this assms(5)] obtain b2 where
    k: "mpt_buffer_cut (putb m a b1) a pos len = Some (int (bused b1 - len), putb m a b2)" "raw_ok b2"
      "content b2 = take pos (content b1) @ drop (pos + len) (content b1)" "bsize b2 = bsize b1" "bref b2 = bref b1" by auto
  have "content b2 = take pos ?c @ drop pos ?c"
    unfolding k(3) i(3) by (rule cut_middle [OF lp i(4)])
  then have c2: "content b2 = ?c" by (simp only: append_take_drop_id)
  have c1: "content b1 = take pos ?c @ g @ drop pos (content b)" unfolding i(3) dc ..
  have k1: "mpt_buffer_cut (putb m a b1) a pos len = Some (int (max (bused b) pos), putb m a b2)" using k(1) u by simp
  have s2: "bsize b2 = bsize b" "bref b2 = bref b" using k(4,5) i(5,6) by simp_all
  show ?thesis using i(1,2,4) c1 k1 c2 k(2) s2 by blast
qed

definition buf0 :: bufdata where
  "buf0 = \<lparr>bref = 1, bflags = 0, btraits = None, bused = 2, bdata = [1, 2, 3, 4, 5, 6]\<rparr>"

definition bmem0 :: bmem where
  "bmem0 = \<lparr>bufs = [8 \<mapsto> buf0], psz = 128, fins = []\<rparr>"

lemma bmem0_ok: "getb bmem0 8 = Some buf0" "raw_ok buf0" "bflags buf0 AND BufferImmutable = 0" "content buf0 = [1, 2]"
  "bused buf0 = 2" "bsize buf0 = 6" "bref buf0 = 1"
  by (simp_all add: bmem0_def buf0_def getb_def raw_ok_def bsize_def content_def)

theorem buffer_insert_cut_witness:
  "\<exists>b1 b2 g. mpt_buffer_insert bmem0 8 1 3 = Some (Some 1, putb bmem0 8 b1) \<and>
    content b1 = [1] @ g @ [2] \<and> length g = 3 \<and>
    mpt_buffer_cut (putb bmem0 8 b1) 8 1 3 = Some (2, putb bmem0 8 b2) \<and>
    content b2 = [1, 2] \<and> raw_ok b1 \<and> raw_ok b2 \<and> bsize b2 = 6 \<and> bref b2 = 1"
  using buffer_insert_cut [OF bmem0_ok(1-3), of 1 3] by (simp add: bmem0_ok)

end
