(* ===== verification/Array.thy ===== *)
theory Array
  imports Buffer
begin

text \<open>
  Arrays, slices and bit maps on buffers: \<open>mptcore/array/\<close> (\<open>array_append.c\<close>, \<open>array_slice.c\<close>,
  \<open>array_insert.c\<close>, \<open>array_set.c\<close>, \<open>array_reserve.c\<close>, \<open>array_clone.c\<close>, \<open>array_reduce.c\<close>, \<open>array_compact.c\<close>,
  \<open>slice_write.c\<close>, \<open>bitmap.c\<close>).

  An array is the address of its buffer (0 without one).  The operations return the position of the
  data they provide (none for the null pointer), the array and the state.
\<close>

section \<open>Arrays\<close>

type_synonym aresult = "(nat option \<times> nat \<times> bmem) option"

definition mpt_array_append :: "malloc \<Rightarrow> bmem \<Rightarrow> nat \<Rightarrow> nat \<Rightarrow> block option \<Rightarrow> aresult" where
  "mpt_array_append mal m arr len base = do {
     r \<leftarrow> (if arr = 0 then do {
            (b, m) \<leftarrow> mpt_buffer_alloc mal m len 0;
            Some (if b = 0 then Inl m else Inr (b, 0, m)) }
          else do {
            b \<leftarrow> getb m arr;
            if btraits b \<noteq> None then Some (Inl m)
            else if len > bsize b - bused b then
              (if len > 2 ^ 64 - 1 - bused b then Some (Inl m)
               else do {
                 (a, m) \<leftarrow> buffer_alloc_detach mal m arr (bused b + len);
                 Some (if a = 0 then Inl m else Inr (a, bused b, m)) })
            else Some (Inr (arr, bused b, m)) });
     case r of Inl m \<Rightarrow> Some (None, arr, m)
     | Inr (a, used, m) \<Rightarrow>
       if len = 0 then Some (Some used, a, m)
       else do {
         b \<leftarrow> getb m a;
         x \<leftarrow> raw_data base len;
         d \<leftarrow> wr (bdata b) used x;
         Some (Some used, a, putb m a (b\<lparr>bdata := d, bused := used + len\<rparr>)) } }"

text \<open>The initialisation of new elements at the end of \<open>mpt_array_slice\<close>: a failure leaves the element.\<close>

function slice_init :: "(block option \<Rightarrow> block option) \<Rightarrow> block \<Rightarrow> nat \<Rightarrow> nat \<Rightarrow> nat \<Rightarrow> block option" where
  "slice_init ini d off en n =
     (if 0 < n \<and> off < en then
        (case ini None of None \<Rightarrow> slice_init ini d (off + n) en n
         | Some x \<Rightarrow> do { d \<leftarrow> wr d off x; slice_init ini d (off + n) en n })
      else Some d)"
  by auto
termination by (relation "measure (\<lambda>(ini, d, off, en, n). en - off)") auto

declare slice_init.simps [simp del]

definition slice_fill :: "bmem \<Rightarrow> nat \<Rightarrow> nat \<Rightarrow> nat \<Rightarrow> (bool \<times> bmem) option" where
  "slice_fill m a used ttl = do {
     (p, m) \<leftarrow> mpt_buffer_insert m a used (ttl - used);
     case p of None \<Rightarrow> Some (False, m)
     | Some p \<Rightarrow> do {
         b \<leftarrow> getb m a;
         d \<leftarrow> (case (case btraits b of None \<Rightarrow> None | Some t \<Rightarrow> tinit t) of
                 Some ini \<Rightarrow> slice_init ini (bdata b) p ttl (case btraits b of None \<Rightarrow> 1 | Some t \<Rightarrow> tsize t)
               | None \<Rightarrow> memset_b (bdata b) p 0 (ttl - used));
         Some (True, putb m a (b\<lparr>bdata := d\<rparr>)) } }"

definition mpt_array_slice :: "malloc \<Rightarrow> bmem \<Rightarrow> nat \<Rightarrow> nat \<Rightarrow> nat \<Rightarrow> aresult" where
  "mpt_array_slice mal m arr off len =
     (if len > 2 ^ 64 - 1 - off then Some (None, arr, m)
      else let ttl = off + len in
        if arr = 0 then
          do {
           (a, m) \<leftarrow> mpt_buffer_alloc mal m ttl 0;
           if a = 0 then Some (None, arr, m)
           else do {
             b \<leftarrow> getb m a;
             d \<leftarrow> memset_b (bdata b) 0 0 ttl;
             Some (Some off, a, putb m a (b\<lparr>bdata := d, bused := ttl\<rparr>)) } }
        else do {
          b \<leftarrow> getb m arr;
          let used = bused b;
          if (case btraits b of None \<Rightarrow> False
              | Some t \<Rightarrow> tsize t = 0 \<or> off mod tsize t \<noteq> 0 \<or> len mod tsize t \<noteq> 0 \<or> used mod tsize t \<noteq> 0)
          then Some (None, arr, m)
          else do {
            (a, m) \<leftarrow> (if ttl > bsize b \<or> buffer_alloc_flags b AND BufferImmutable \<noteq> 0 \<or>
                  buffer_alloc_flags b AND BufferShared \<noteq> 0
                then buffer_alloc_detach mal m arr (max ttl used) else Some (arr, m));
            if a = 0 then Some (None, arr, m)
            else if ttl > used then do {
              (ok, m) \<leftarrow> slice_fill m a used ttl;
              Some (if ok then Some off else None, a, m) }
            else Some (Some off, a, m) } })"

definition mpt_array_insert :: "malloc \<Rightarrow> bmem \<Rightarrow> nat \<Rightarrow> nat \<Rightarrow> nat \<Rightarrow> aresult" where
  "mpt_array_insert mal m arr pos len =
     (if len > usub (2 ^ 63 - 1) pos then Some (None, arr, m)
      else if arr = 0 then
        do {
         (a, m) \<leftarrow> mpt_buffer_alloc mal m (wrap (len + pos)) 0;
         if a = 0 then Some (None, arr, m)
         else do {
           b \<leftarrow> getb m a;
           d \<leftarrow> memset_b (bdata b) 0 0 pos;
           Some (Some pos, a, putb m a (b\<lparr>bdata := d, bused := wrap (len + pos)\<rparr>)) } }
      else do {
        b \<leftarrow> getb m arr;
        let used = max (bused b) pos;
        if wrap (used + len) \<le> bsize b \<and> buffer_alloc_flags b AND BufferShared = 0
        then do { (p, m) \<leftarrow> mpt_buffer_insert m arr pos len; Some (p, arr, m) }
        else do {
          (a, m) \<leftarrow> buffer_alloc_detach mal m arr (wrap (used + len));
          if a = 0 then Some (None, arr, m)
          else do { (p, m) \<leftarrow> mpt_buffer_insert m a pos len; Some (p, a, m) } } })"

text \<open>An unsigned product or sum as a signed size.\<close>

definition ssize :: "int \<Rightarrow> int" where
  "ssize x = (x + 2 ^ 63) mod 2 ^ 64 - 2 ^ 63"

definition mpt_array_set :: "malloc \<Rightarrow> bmem \<Rightarrow> nat \<Rightarrow> traits option \<Rightarrow> nat \<Rightarrow> block option \<Rightarrow> int \<Rightarrow> aresult" where
  "mpt_array_set mal m arr tr len data off =
     (case tr of None \<Rightarrow> Some (None, arr, m)
      | Some t \<Rightarrow>
        if tsize t = 0 \<or> len mod tsize t \<noteq> 0 then Some (None, arr, m)
        else do {
          pos \<leftarrow> (if arr = 0 then Some (Some (ssize (off * int (tsize t))))
                 else do {
                   b \<leftarrow> getb m arr;
                   Some (if \<not> same_traits tr (btraits b) then None
                     else Some (ssize (off * int (tsize t) + (if off < 0 then int (bused b) else 0)))) });
          case pos of None \<Rightarrow> Some (None, arr, m)
          | Some pos \<Rightarrow>
            if pos < 0 \<or> nat pos + len \<ge> 2 ^ 64 then Some (None, arr, m)
            else let ttl = nat pos + len in do {
              (a, m) \<leftarrow> (if arr = 0 then
                   do {
                     (a, m) \<leftarrow> mpt_buffer_alloc mal m ttl 0;
                     b \<leftarrow> getb m a; Some (a, putb m a (b\<lparr>btraits := tr\<rparr>)) }
                 else do {
                   b \<leftarrow> getb m arr;
                   if bsize b < ttl \<or> buffer_alloc_flags b AND BufferImmutable \<noteq> 0 \<or>
                     buffer_alloc_flags b AND BufferShared \<noteq> 0
                   then buffer_alloc_detach mal m arr ttl else Some (arr, m) });
              if a = 0 then Some (None, arr, m)
              else do {
                (r, m) \<leftarrow> mpt_buffer_set m a tr (nat pos) data len;
                Some (if r < 0 then None else Some (nat pos), a, m) } } })"

text \<open>The remainder of a division that traps for zero.\<close>

definition umod :: "nat \<Rightarrow> nat \<Rightarrow> nat option" where
  "umod a n = (if n = 0 then None else Some (a mod n))"

text \<open>A missing buffer counts as shared and immutable (all flags are set).\<close>

definition reserve_new :: "malloc \<Rightarrow> bmem \<Rightarrow> nat \<Rightarrow> bufdata option \<Rightarrow> 32 word \<Rightarrow> nat \<Rightarrow> traits option \<Rightarrow> (nat \<times> nat \<times> bmem) option" where
  "reserve_new mal m arr old flags len tr =
     do {
      (a, m) \<leftarrow> mpt_buffer_alloc mal m len 0;
      if a = 0 then Some (0, arr, m)
      else do {
        n \<leftarrow> getb m a;
        m \<leftarrow> Some (putb m a (n\<lparr>btraits := tr\<rparr>));
        case old of None \<Rightarrow> Some (a, a, m)
        | Some b \<Rightarrow> do {
            rest \<leftarrow> (case btraits b of None \<Rightarrow> Some 0 | Some t \<Rightarrow> umod (bused b) (tsize t));
            let used = bused b - rest;
            let used = min used len;
            (r, m) \<leftarrow> (if same_traits (btraits b) tr \<and> flags AND BufferNoCopy = 0 \<and> used \<noteq> 0
                 then mpt_buffer_set m a tr used (Some (bdata b)) 0 else Some (1, m));
            if r = 0 then do { m \<leftarrow> buffer_alloc_unref m a; Some (0, arr, m) }
            else do { m \<leftarrow> buffer_alloc_unref m arr; Some (a, a, m) } } } }"

definition mpt_array_reserve :: "malloc \<Rightarrow> bmem \<Rightarrow> nat \<Rightarrow> nat \<Rightarrow> traits option \<Rightarrow> (nat \<times> nat \<times> bmem) option" where
  "mpt_array_reserve mal m arr len tr =
     (if (case tr of None \<Rightarrow> False | Some t \<Rightarrow> tsize t = 0) then Some (0, arr, m)
      else let len = (case tr of None \<Rightarrow> len
                      | Some t \<Rightarrow> if len mod tsize t \<noteq> 0 then wrap (len + (tsize t - len mod tsize t)) else len) in
        if arr = 0 then reserve_new mal m arr None (- 1) len tr
        else do {
          b \<leftarrow> getb m arr;
          let flags = buffer_alloc_flags b;
          if flags AND BufferShared \<noteq> 0 \<or> flags AND BufferImmutable \<noteq> 0
          then reserve_new mal m arr (Some b) flags len tr
          else do {
            let fini = (case btraits b of None \<Rightarrow> 0 | Some t \<Rightarrow> tfini t);
            m \<leftarrow> (if \<not> same_traits (btraits b) tr \<and>
                  (fini = 0 \<or> (case tr of None \<Rightarrow> True | Some t \<Rightarrow> fini \<noteq> tfini t))
                then do {
                  fs \<leftarrow> (case btraits b of None \<Rightarrow> Some []
                       | Some t \<Rightarrow> if tfini t = 0 then Some []
                           else do {
                             rest \<leftarrow> umod (bused b) (tsize t);
                             finalise (tfini t) (bdata b) 0 (bused b - rest) (tsize t) });
                  Some (putb (m\<lparr>fins := fins m @ fs\<rparr>) arr (b\<lparr>bused := 0\<rparr>)) }
                else Some m);
            (a, m) \<leftarrow> buffer_alloc_detach mal m arr len;
            if a = 0 then Some (0, arr, m)
            else do { n \<leftarrow> getb m a; Some (a, a, putb m a (n\<lparr>btraits := tr\<rparr>)) } } })"

text \<open>The source array is absent or given by its buffer.\<close>

definition mpt_array_clone :: "bmem \<Rightarrow> nat \<Rightarrow> nat option \<Rightarrow> (int \<times> nat \<times> bmem) option" where
  "mpt_array_clone m arr from = do {
     r \<leftarrow> (case from of None \<Rightarrow> Some (Inr (0, m))
        | Some s \<Rightarrow>
          if s = arr then Some (Inl 0)
          else do {
            b \<leftarrow> getb m s;
            t \<leftarrow> (if arr = 0 then Some True else map_option (\<lambda>x. same_traits (btraits b) (btraits x)) (getb m arr));
            if \<not> t then Some (Inl BadType)
            else do {
              (v, m) \<leftarrow> buffer_alloc_ref m s;
              Some (if v = 0 then Inl BadOperation else Inr (s, m)) } });
     case r of Inl e \<Rightarrow> Some (e, arr, m)
     | Inr (s, m) \<Rightarrow>
       if arr \<noteq> 0 then do { m \<leftarrow> buffer_alloc_unref m arr; Some (if s \<noteq> 0 then 3 else 2, s, m) }
       else Some (if s \<noteq> 0 then 1 else 0, s, m) }"

definition mpt_array_reduce :: "malloc \<Rightarrow> bmem \<Rightarrow> nat \<Rightarrow> (nat \<times> nat \<times> bmem) option" where
  "mpt_array_reduce mal m arr =
     (if arr = 0 then Some (0, arr, m)
      else do {
        b \<leftarrow> getb m arr;
        (a, m) \<leftarrow> buffer_alloc_detach mal m arr (bused b);
        if a = 0 then Some (bsize b, arr, m)
        else do { n \<leftarrow> getb m a; Some (bsize n, a, m) } })"

text \<open>Compaction of an array of pointers; \<open>free\<close> is the first free position, and the inner loop looks for
  the next one before the current element.\<close>

function next_free :: "nat list \<Rightarrow> nat \<Rightarrow> nat \<Rightarrow> nat" where
  "next_free xs to i = (if Suc to < i \<and> xs ! Suc to \<noteq> 0 then next_free xs (Suc to) i else Suc to)"
  by auto
termination by (relation "measure (\<lambda>(xs, to, i). i - to)") auto

function compact_loop :: "nat list \<Rightarrow> nat \<Rightarrow> nat option \<Rightarrow> nat \<Rightarrow> nat \<times> nat list" where
  "compact_loop xs i free rem =
     (if i < length xs then
        (if xs ! i = 0 then compact_loop xs (Suc i) (case free of None \<Rightarrow> Some i | Some t \<Rightarrow> Some t) rem
         else (case free of None \<Rightarrow> compact_loop xs (Suc i) None (rem + 1)
           | Some t \<Rightarrow> (let ys = xs[t := xs ! i, i := 0] in
               compact_loop ys (Suc i) (Some (next_free ys t i)) (rem + 1))))
      else (rem, xs))"
  by auto
termination by (relation "measure (\<lambda>(xs, i, free, rem). length xs - i)") auto

declare next_free.simps [simp del] compact_loop.simps [simp del]

definition mpt_array_compact :: "nat list \<Rightarrow> nat \<times> nat list" where
  "mpt_array_compact xs = compact_loop xs 0 None 0"

section \<open>Slices\<close>

record slice =
  sarr :: nat
  soff :: nat
  slen :: nat

text \<open>\<open>add\<close> stays the size of one element while blocks are counted: the loop ends with the blocks only.\<close>

definition fast_append :: "bmem \<Rightarrow> slice \<Rightarrow> nat \<Rightarrow> block option \<Rightarrow> nat \<Rightarrow> (int \<times> slice \<times> bmem) option" where
  "fast_append m sl nblk from esze = do {
     b \<leftarrow> getb m (sarr sl);
     let pos = wrap (soff sl + slen sl);
     let avail = usub (bsize b) pos;
     let tk = (if esze < avail then wrap (nblk * esze) else 0);
     x \<leftarrow> raw_data from tk;
     d \<leftarrow> wr (bdata b) pos x;
     Some (int tk, sl\<lparr>slen := slen sl + tk\<rparr>, putb m (sarr sl) (b\<lparr>bdata := d\<rparr>)) }"

text \<open>The slice area is cut to the data of the buffer.\<close>

definition slice_fix :: "slice \<Rightarrow> nat \<Rightarrow> slice" where
  "slice_fix sl used = (if wrap (soff sl + slen sl) > used
     then if soff sl \<ge> used then sl\<lparr>soff := used, slen := 0\<rparr> else sl\<lparr>slen := used - soff sl\<rparr> else sl)"

text \<open>Space for further data, with fewer blocks where the memory does not suffice.\<close>

function alloc_retry :: "malloc \<Rightarrow> bmem \<Rightarrow> nat \<Rightarrow> nat \<Rightarrow> nat \<Rightarrow> (nat \<times> nat \<times> bmem) option" where
  "alloc_retry mal m len nblk n = do {
     (a, m) \<leftarrow> mpt_buffer_alloc mal m (wrap (len + nblk * n)) 0;
     if a \<noteq> 0 then Some (a, nblk, m)
     else if nblk div 2 = 0 then Some (0, 0, m)
     else alloc_retry mal m len (nblk div 2) n }"
  by auto
termination by (relation "measure (\<lambda>(mal, m, len, nblk, n). nblk)") auto

declare alloc_retry.simps [simp del]

text \<open>A new buffer with the data of the slice and the further data.\<close>

definition slice_extend ::
  "malloc \<Rightarrow> bmem \<Rightarrow> slice \<Rightarrow> bufdata option \<Rightarrow> nat \<Rightarrow> block option \<Rightarrow> nat \<Rightarrow> (int \<times> slice \<times> bmem) option" where
  "slice_extend mal m sl ob nblk from n =
     do {
      (a, nblk, m) \<leftarrow> alloc_retry mal m (slen sl) nblk n;
      if a = 0 then Some (BadOperation, sl, m)
      else do {
        b \<leftarrow> getb m a;
        d \<leftarrow> (case ob of None \<Rightarrow> Some (bdata b)
             | Some ol \<Rightarrow> do { x \<leftarrow> rd (bdata ol) (soff sl) (slen sl); wr (bdata b) 0 x });
        d \<leftarrow> (if nblk \<noteq> 0 then do { x \<leftarrow> raw_data from (wrap (nblk * n)); wr d (slen sl) x } else Some d);
        let p = wrap (slen sl + nblk * n);
        m \<leftarrow> Some (putb m a (b\<lparr>bdata := d, bused := p\<rparr>));
        m \<leftarrow> (if ob = None then Some m else buffer_alloc_unref m (sarr sl));
        Some (int nblk, \<lparr>sarr = a, soff = 0, slen = p\<rparr>, m) } }"

definition mpt_slice_write :: "malloc \<Rightarrow> bmem \<Rightarrow> slice \<Rightarrow> nat \<Rightarrow> block option \<Rightarrow> nat \<Rightarrow> (int \<times> slice \<times> bmem) option" where
  "mpt_slice_write mal m sl nblk from n = do {
     ob \<leftarrow> (if sarr sl = 0 then Some None else map_option Some (getb m (sarr sl)));
     if (case ob of None \<Rightarrow> False | Some b \<Rightarrow> btraits b \<noteq> None) then Some (BadType, sl, m)
     else do {
       let used = (case ob of None \<Rightarrow> 0 | Some b \<Rightarrow> bused b);
       let sl = slice_fix sl used;
       let pos = wrap (soff sl + slen sl);
       let avail = (case ob of None \<Rightarrow> 0 | Some b \<Rightarrow> bsize b) - pos;
       if n = 0 then
         (if nblk = 0 then Some (0, sl, m)
          else if from \<noteq> None then Some (BadArgument, sl, m)
          else if nblk \<le> avail then Some (int (avail div nblk), sl, m)
          else do {
            (p, a, m) \<leftarrow> mpt_array_slice mal m (sarr sl) pos nblk;
            if p = None then Some (- 1, sl\<lparr>sarr := a\<rparr>, m)
            else do { (_, m) \<leftarrow> mpt_buffer_cut m a pos nblk; Some (int ((avail + nblk) div nblk), sl\<lparr>sarr := a\<rparr>, m) } })
       else case ob of
         Some b \<Rightarrow>
           if buffer_alloc_flags b AND (BufferImmutable OR BufferShared) = 0 \<and> nblk = 0 then Some (0, sl, m)
           else if buffer_alloc_flags b AND (BufferImmutable OR BufferShared) = 0 \<and> avail \<ge> n
             then fast_append m sl nblk from n
           else if buffer_alloc_flags b AND (BufferImmutable OR BufferShared) = 0 \<and> soff sl \<noteq> 0 \<and> avail + soff sl \<ge> n
             then do {
               d \<leftarrow> memmove_b (bdata b) 0 (soff sl) (slen sl);
               fast_append (putb m (sarr sl) (b\<lparr>bdata := d, bused := slen sl\<rparr>)) (sl\<lparr>soff := 0\<rparr>) nblk from n }
           else slice_extend mal m sl (Some b) nblk from n
       | None \<Rightarrow> slice_extend mal m sl None nblk from n } }"

section \<open>Bit maps\<close>

unbundle bit_operations_syntax

definition mpt_bitmap_set :: "block \<Rightarrow> int \<Rightarrow> int \<times> block" where
  "mpt_bitmap_set base pos =
     (if pos < 0 \<or> nat (pos div 8) \<ge> length base then (MissingBuffer, base)
      else let off = nat (pos div 8); p = nat (pos mod 8) in
        if base ! off AND push_bit p 1 \<noteq> 0 then (0, base)
        else (1, base[off := base ! off OR push_bit p 1]))"

definition mpt_bitmap_unset :: "block \<Rightarrow> int \<Rightarrow> int \<times> block" where
  "mpt_bitmap_unset base pos =
     (if pos < 0 \<or> nat (pos div 8) \<ge> length base then (MissingBuffer, base)
      else let off = nat (pos div 8); p = nat (pos mod 8) in
        if base ! off AND push_bit p 1 = 0 then (0, base)
        else (1, base[off := base ! off AND NOT (push_bit p 1)]))"

definition mpt_bitmap_get :: "block \<Rightarrow> int \<Rightarrow> int" where
  "mpt_bitmap_get base pos =
     (if pos < 0 \<or> nat (pos div 8) \<ge> length base then MissingBuffer
      else if base ! nat (pos div 8) AND push_bit (nat (pos mod 8)) 1 \<noteq> 0 then 1 else 0)"

section \<open>Growth of raw arrays\<close>

lemma private_put:
  "private_copy m arr b a m' \<Longrightarrow> a \<noteq> 0 \<Longrightarrow> private_copy m arr b a (putb m' a x)"
proof -
  assume p: "private_copy m arr b a m'" "a \<noteq> 0"
  have g: "\<And>c. c \<noteq> a \<Longrightarrow> getb (putb m' a x) c = getb m' c" by (simp add: getb_putb)
  have f: "fins (putb m' a x) = fins m'" "psz (putb m' a x) = psz m'" by (simp_all add: putb_def)
  show ?thesis using p g f unfolding private_copy_def by (cases "a = arr") auto
qed

lemma wr_end:
  assumes "raw_ok b" "bused b + length x \<le> bsize b"
  shows "\<exists>d. wr (bdata b) (bused b) x = Some d \<and> raw_ok (b\<lparr>bdata := d, bused := bused b + length x\<rparr>) \<and>
    content (b\<lparr>bdata := d, bused := bused b + length x\<rparr>) = content b @ x"
proof -
  let ?d = "take (bused b) (bdata b) @ x @ drop (bused b + length x) (bdata b)"
  have "wr (bdata b) (bused b) x = Some ?d" using assms(2) by (simp add: wr_def bsize_def)
  then show ?thesis using assms by (simp add: raw_ok_def bsize_def content_def)
qed

lemma private_self: "getb m arr = Some b \<Longrightarrow> bref b = 1 \<Longrightarrow> private_copy m arr b arr m"
  by (simp add: private_copy_def)

text \<open>Growth of a raw array; flags are kept or cleared.\<close>

lemma array_append_raw:
  assumes "getb m arr = Some b" and "raw_ok b" and "alloc_ok mal m"
    and "bused b + length x < 2 ^ 63" and "bref b = 1 \<or> bflags b AND BufferNoCopy = 0"
  shows "\<exists>a b' m'. mpt_array_append mal m arr (length x) (Some x) = Some (Some (bused b), a, m') \<and>
    getb m' a = Some b' \<and> raw_ok b' \<and> content b' = content b @ x \<and>
    (if bsize b - bused b < length x then bref b' = 1 \<and> private_copy m arr b a m'
     else a = arr \<and> bref b' = bref b \<and> m' = putb m arr b') \<and>
    (bflags b AND BufferImmutable = 0 \<longrightarrow> bflags b' AND BufferImmutable = 0)"
proof -
  have t: "btraits b = None" "bused b \<le> bsize b" "0 < bref b" "arr \<noteq> 0"
    using assms(1,2) getb_nonzero by (auto simp: raw_ok_def)
  have rx: "raw_data (Some x) (length x) = Some x" by (simp add: raw_data_def rd_def)
  show ?thesis
  proof (cases "bsize b - bused b < length x")
    case False
    then have "bused b + length x \<le> bsize b" using t by simp
    from wr_end [OF assms(2) this] obtain d where d: "wr (bdata b) (bused b) x = Some d"
      "raw_ok (b\<lparr>bdata := d, bused := bused b + length x\<rparr>)" (is "raw_ok ?b")
      "content (b\<lparr>bdata := d, bused := bused b + length x\<rparr>) = content b @ x" by blast
    show ?thesis
    proof (cases "x = []")
      case True
      then have "mpt_array_append mal m arr (length x) (Some x) = Some (Some (bused b), arr, m)"
        using assms(1) t by (simp add: mpt_array_append_def)
      moreover have "putb m arr b = m" using putb_same [OF assms(1)] .
      ultimately show ?thesis using True assms(1,2) by (intro exI [of _ arr] exI [of _ b] exI [of _ m]) simp
    next
      case ne: False
      have "mpt_array_append mal m arr (length x) (Some x) = Some (Some (bused b), arr, putb m arr ?b)"
        using assms(1) t False d rx ne by (simp add: mpt_array_append_def)
      with False d t show ?thesis by (intro exI [of _ arr] exI [of _ ?b]) (simp add: getb_putb)
    qed
  next
    case True
    have nc: "1 < bref b \<Longrightarrow> bflags b AND BufferNoCopy = 0" using assms(5) by auto
    from detach_raw [OF assms(1,2) _ assms(4) assms(3) nc] obtain a n m1 where
      n: "buffer_alloc_detach mal m arr (bused b + length x) = Some (a, m1)" "getb m1 a = Some n" "raw_ok n"
        "content n = content b" "bused b + length x \<le> bsize n" "bref n = 1" "private_copy m arr b a m1" "bflags n AND BufferImmutable = 0" by auto
    have a: "a \<noteq> 0" using getb_nonzero [OF n(2)] .
    have u: "bused n = bused b" using content_length [OF n(3)] content_length [OF assms(2)] n(4) by simp
    from wr_end [OF n(3), of x] n(5) u obtain d where d: "wr (bdata n) (bused b) x = Some d"
      "raw_ok (n\<lparr>bdata := d, bused := bused b + length x\<rparr>)" (is "raw_ok ?b")
      "content (n\<lparr>bdata := d, bused := bused b + length x\<rparr>) = content b @ x" using n(4) by auto
    have "length x \<noteq> 0" using True by linarith
    moreover have "\<not> length x > 2 ^ 64 - 1 - bused b" using assms(4) by simp
    ultimately have "mpt_array_append mal m arr (length x) (Some x) = Some (Some (bused b), a, putb m1 a ?b)"
      using assms(1) t True d rx n(1,2) a by (simp add: mpt_array_append_def)
    moreover have "private_copy m arr b a (putb m1 a ?b)" using private_put [OF n(7) a] .
    ultimately show ?thesis using True d n(6,8) a by (intro exI [of _ a] exI [of _ ?b]) (simp add: getb_putb)
  qed
qed

text \<open>Property C35: appending to a raw array adds exactly the data behind the contents.  Where the buffer has
  to grow, the array gets a private buffer and all other holders keep what they see; where the data
  fits it is written in place, also in a buffer with further references.\<close>

theorem array_append_data:
  assumes "getb m arr = Some b" and "raw_ok b" and "alloc_ok mal m"
    and "bused b + length x < 2 ^ 63" and "bref b = 1 \<or> bflags b AND BufferNoCopy = 0"
  shows "\<exists>a b' m'. mpt_array_append mal m arr (length x) (Some x) = Some (Some (bused b), a, m') \<and>
    getb m' a = Some b' \<and> raw_ok b' \<and> content b' = content b @ x \<and>
    (if bsize b - bused b < length x then bref b' = 1 \<and> private_copy m arr b a m'
     else a = arr \<and> bref b' = bref b \<and> m' = putb m arr b')"
  using array_append_raw [OF assms] by blast

text \<open>Filling the end of a private buffer with zero bytes.\<close>

lemma slice_fill_raw:
  assumes "getb m a = Some n" "raw_ok n" "bflags n AND BufferImmutable = 0" "bused n < ttl" "ttl \<le> bsize n"
  shows "\<exists>b'. slice_fill m a (bused n) ttl = Some (True, putb m a b') \<and> raw_ok b' \<and> bref b' = bref n \<and>
    content b' = content n @ replicate (ttl - bused n) 0 \<and> bflags b' = bflags n \<and> bsize b' = bsize n"
proof -
  have s: "max (bused n) (bused n) + (ttl - bused n) \<le> bsize n" using assms by simp
  have cl: "length (content n) = bused n" by (rule content_length [OF assms(2)])
  from insert_raw [OF assms(1-3) s] obtain b1 g where
    i: "mpt_buffer_insert m a (bused n) (ttl - bused n) = Some (Some (bused n), putb m a b1)" "raw_ok b1"
      "content b1 = content n @ g" "length g = ttl - bused n" "bsize b1 = bsize n" "bref b1 = bref n" "bflags b1 = bflags n"
    using cl by auto
  have u: "bused b1 = ttl" using content_length [OF i(2)] unfolding i(3) using cl i(4) assms(4) by simp
  let ?z = "replicate (ttl - bused n) (0 :: byte)"
  let ?d = "take (bused n) (bdata b1) @ ?z @ drop ttl (bdata b1)"
  have w: "memset_b (bdata b1) (bused n) 0 (ttl - bused n) = Some ?d"
    using assms(4,5) i(5) by (simp add: memset_b_def wr_def bsize_def)
  have g1: "getb (putb m a b1) a = Some b1" using getb_nonzero [OF assms(1)] by (simp add: getb_putb)
  have tb: "btraits b1 = None" using i(2) by (simp add: raw_ok_def)
  have "slice_fill m a (bused n) ttl = Some (True, putb m a (b1\<lparr>bdata := ?d\<rparr>))"
    using i(1) w g1 tb by (simp add: slice_fill_def)
  moreover have tk: "take (bused n) (bdata b1) = content n"
  proof -
    have "take (bused n) (content b1) = content n" unfolding i(3) using cl by simp
    then show ?thesis using u assms(4) by (simp add: content_def min_def)
  qed
  moreover have "raw_ok (b1\<lparr>bdata := ?d\<rparr>)" using i(2,5) u assms(4,5) by (simp add: raw_ok_def bsize_def)
  moreover from tk have "content (b1\<lparr>bdata := ?d\<rparr>) = content n @ ?z"
    using u cl assms(4) by (simp add: content_def)
  moreover have "bsize (b1\<lparr>bdata := ?d\<rparr>) = bsize n" using i(5) assms(4,5) by (simp add: bsize_def)
  ultimately show ?thesis using i(6,7) by (intro exI [of _ "b1\<lparr>bdata := ?d\<rparr>"]) simp
qed

text \<open>A slice of a raw array is in a private buffer with its contents and zero bytes.\<close>

lemma array_slice_raw:
  assumes "getb m arr = Some b" and "raw_ok b" and "alloc_ok mal m"
    and "off + len < 2 ^ 63" and "bused b < 2 ^ 63" and "bref b = 1 \<or> bflags b AND BufferNoCopy = 0"
  shows "\<exists>a b' m'. mpt_array_slice mal m arr off len = Some (Some off, a, m') \<and> getb m' a = Some b' \<and> raw_ok b' \<and>
    content b' = content b @ replicate (off + len - bused b) 0 \<and> bref b' = 1 \<and> private_copy m arr b a m' \<and>
    bflags b' AND BufferImmutable = 0 \<and> off + len \<le> bsize b'"
proof -
  let ?t = "off + len"
  have t: "btraits b = None" "bused b \<le> bsize b" "0 < bref b" "arr \<noteq> 0"
    using assms(1,2) getb_nonzero by (auto simp: raw_ok_def)
  have nl: "\<not> len > 2 ^ 64 - 1 - off" using assms(4) by simp
  let ?c = "?t > bsize b \<or> buffer_alloc_flags b AND BufferImmutable \<noteq> 0 \<or> buffer_alloc_flags b AND BufferShared \<noteq> 0"
  let ?p = "if ?c then buffer_alloc_detach mal m arr (max ?t (bused b)) else Some (arr, m)"
  have "\<exists>a n m1. ?p = Some (a, m1) \<and> getb m1 a = Some n \<and> raw_ok n \<and> content n = content b \<and> ?t \<le> bsize n \<and>
    bref n = 1 \<and> bflags n AND BufferImmutable = 0 \<and> private_copy m arr b a m1"
  proof (cases ?c)
    case True
    have nc: "1 < bref b \<Longrightarrow> bflags b AND BufferNoCopy = 0" using assms(6) by auto
    have "max ?t (bused b) < 2 ^ 63" using assms(4,5) by simp
    from detach_raw [OF assms(1,2) _ this assms(3) nc] True show ?thesis by auto
  next
    case False
    then have f: "\<not> 1 < bref b" "bflags b AND BufferImmutable = 0"
      by (auto simp: buffer_alloc_flags_def bit.conj_disj_distrib2 split: if_splits)
    with t have "bref b = 1" by simp
    with private_self [OF assms(1) this] False f assms(1,2) show ?thesis by auto
  qed
  then obtain a n m1 where n: "?p = Some (a, m1)" "getb m1 a = Some n" "raw_ok n" "content n = content b" "?t \<le> bsize n"
    "bref n = 1" "bflags n AND BufferImmutable = 0" "private_copy m arr b a m1" by blast
  have a: "a \<noteq> 0" using getb_nonzero [OF n(2)] .
  have u: "bused n = bused b" using content_length [OF n(3)] content_length [OF assms(2)] n(4) by simp
  have step: "mpt_array_slice mal m arr off len = (if ?t > bused b then do {
      (ok, m) \<leftarrow> slice_fill m1 a (bused b) ?t; Some (if ok then Some off else None, a, m) } else Some (Some off, a, m1))"
    unfolding mpt_array_slice_def Let_def using nl assms(1) t n(1) a by simp
  show ?thesis
  proof (cases "?t > bused b")
    case False
    then show ?thesis using step n u by (intro exI [of _ a] exI [of _ n] exI [of _ m1]) simp
  next
    case True
    with slice_fill_raw [OF n(2,3,7) _ n(5)] u obtain b' where
      f: "slice_fill m1 a (bused b) ?t = Some (True, putb m1 a b')" "raw_ok b'" "bref b' = bref n"
        "content b' = content n @ replicate (?t - bused b) 0"
        "bflags b' = bflags n" "bsize b' = bsize n" by auto
    show ?thesis using step True f n(4,5,6,7) private_put [OF n(8) a, of b'] a
      by (intro exI [of _ a] exI [of _ b'] exI [of _ "putb m1 a b'"]) (simp add: getb_putb)
  qed
qed

text \<open>Property C36: a slice of a raw array provides the requested area in a buffer without other references:
  the contents are extended with zero bytes where they do not reach, and every other holder of the
  former buffer keeps what it sees.\<close>

theorem array_slice_private:
  assumes "getb m arr = Some b" and "raw_ok b" and "alloc_ok mal m"
    and "off + len < 2 ^ 63" and "bused b < 2 ^ 63" and "bref b = 1 \<or> bflags b AND BufferNoCopy = 0"
  shows "\<exists>a b' m'. mpt_array_slice mal m arr off len = Some (Some off, a, m') \<and> getb m' a = Some b' \<and> raw_ok b' \<and>
    content b' = content b @ replicate (off + len - bused b) 0 \<and> bref b' = 1 \<and> private_copy m arr b a m'"
  using array_slice_raw [OF assms] by blast

text \<open>A buffer with two references.\<close>

definition bmem2 :: bmem where
  "bmem2 = \<lparr>bufs = [8 \<mapsto> buf0\<lparr>bref := 2\<rparr>], psz = 128, fins = []\<rparr>"

definition mal0 :: malloc where
  "mal0 m n = Some (16, replicate n 7)"

lemma bmem2_ok: "getb bmem2 8 = Some (buf0\<lparr>bref := 2\<rparr>)" "raw_ok (buf0\<lparr>bref := 2\<rparr>)" "alloc_ok mal0 bmem2"
  by (simp_all add: bmem2_def buf0_def getb_def raw_ok_def bsize_def alloc_ok_def mal0_def)

theorem array_append_data_witness:
  "\<exists>a b' m'. mpt_array_append mal0 bmem2 8 3 (Some [5, 6, 7]) = Some (Some 2, a, m') \<and>
    getb m' a = Some b' \<and> raw_ok b' \<and> content b' = [1, 2, 5, 6, 7] \<and> a = 8 \<and> bref b' = 2 \<and> m' = putb bmem2 8 b'"
  using array_append_data [OF bmem2_ok, of "[5, 6, 7]"] by (simp add: buf0_def bsize_def content_def numeral_3_eq_3)

theorem array_slice_private_witness:
  "\<exists>a b' m'. mpt_array_slice mal0 bmem2 8 1 3 = Some (Some 1, a, m') \<and> getb m' a = Some b' \<and> raw_ok b' \<and>
    content b' = [1, 2, 0, 0] \<and> bref b' = 1 \<and> private_copy bmem2 8 (buf0\<lparr>bref := 2\<rparr>) a m'"
proof -
  let ?b = "buf0\<lparr>bref := 2\<rparr>"
  have h: "1 + 3 < (2 :: nat) ^ 63" "bused ?b < 2 ^ 63" "bref ?b = 1 \<or> bflags ?b AND BufferNoCopy = 0"
    by (simp_all add: buf0_def)
  have c: "content ?b @ replicate (1 + 3 - bused ?b) 0 = [1, 2, 0, 0]"
    by (simp add: content_def buf0_def numeral_2_eq_2)
  show ?thesis using array_slice_private [OF bmem2_ok h] unfolding c .
qed

section \<open>Sizes that are not changed and contents that are not kept\<close>

text \<open>The reduction of a private buffer requests the used size from it, which the buffer already has.\<close>

lemma array_reduce_same:
  assumes "getb m arr = Some b" "raw_ok b" "bref b = 1" "bflags b AND BufferImmutable = 0"
  shows "mpt_array_reduce mal m arr = Some (bsize b, arr, m)"
  using assms getb_nonzero [OF assms(1)]
  by (simp add: mpt_array_reduce_def buffer_alloc_detach_def raw_ok_def)

text \<open>A reservation on a shared raw buffer with data takes the success of the copy for a failure.\<close>

lemma reserve_shared_fails:
  assumes "getb m arr = Some b" "raw_ok b" "1 < bref b" "bflags b AND BufferNoCopy = 0" "0 < bused b"
    and "alloc_ok mal m" "len < 2 ^ 63" "0 < len"
  shows "\<exists>m'. mpt_array_reserve mal m arr len None = Some (0, arr, m') \<and> getb m' arr = Some b"
proof -
  from alloc_raw [OF assms(6,7), of 0] obtain a n where
    n: "mpt_buffer_alloc mal m len 0 = Some (a, putb (set_psz m) a n)" "a \<noteq> 0" "bufs m a = None" "raw_ok n" "bref n = 1"
      "bused n = 0" "len \<le> bsize n" by blast
  have t: "btraits b = None" "btraits n = None" "bsize n < 2 ^ 64" using assms(2) n(4) by (simp_all add: raw_ok_def)
  have z: "arr \<noteq> 0" using getb_nonzero [OF assms(1)] .
  have ne: "a \<noteq> arr" using assms(1) n(3) z by (auto simp: getb_def)
  have e: "buffer_alloc_flags b = BufferShared OR bflags b" using assms(3) by (simp add: buffer_alloc_flags_def)
  have "BufferShared AND BufferNoCopy = 0" by simp
  then have fl2: "buffer_alloc_flags b AND BufferNoCopy = 0"
    unfolding e bit.conj_disj_distrib2 assms(4) by simp
  have "bit (buffer_alloc_flags b AND BufferShared) 8" unfolding e by (simp add: bit_simps)
  then have fl1: "buffer_alloc_flags b AND BufferShared \<noteq> 0" by auto
  note fl = fl1 fl2
  let ?n = "n\<lparr>btraits := None\<rparr>"
  let ?m = "putb (putb (set_psz m) a n) a ?n"
  define u where "u = min (bused b) len"
  have g: "getb ?m a = Some ?n" using n(2) by (simp add: getb_putb)
  have le: "u \<le> bsize n" "u < 2 ^ 64" using n(7) t(3) by (simp_all add: u_def)
  then have "mpt_buffer_set ?m a None u (Some (bdata b)) 0 = Some (0, putb ?m a (?n\<lparr>bused := u\<rparr>))"
    using g n(6) by (simp add: mpt_buffer_set_def raw_data_def rd_def wr_def bsize_def)
  moreover have "buffer_alloc_unref (putb ?m a (?n\<lparr>bused := u\<rparr>)) a = Some ((putb ?m a (?n\<lparr>bused := u\<rparr>))\<lparr>bufs :=
      (bufs (putb ?m a (?n\<lparr>bused := u\<rparr>)))(a := None), fins := fins m\<rparr>)" (is "_ = Some ?z")
    using n(2,5) by (simp add: buffer_alloc_unref_def getb_putb mpt_refcount_lower_def) (simp add: putb_def set_psz_def)
  ultimately have "reserve_new mal m arr (Some b) (buffer_alloc_flags b) len None = Some (0, arr, ?z)"
    using n(1,2) t(1) fl(2) assms(5,8) by (simp add: reserve_new_def getb_putb same_traits_def flip: u_def)
  then have "mpt_array_reserve mal m arr len None = Some (0, arr, ?z)"
    using assms(1) z fl(1) by (simp add: mpt_array_reserve_def)
  moreover have "getb ?z arr = Some b" using assms(1) z ne by (simp add: getb_def putb_def set_psz_def)
  ultimately show ?thesis by blast
qed

section \<open>Compaction\<close>

lemma next_free_zero: "xs ! Suc t = 0 \<Longrightarrow> next_free xs t i = Suc t"
  by (subst next_free.simps) simp

lemma next_free_end: "i \<le> Suc t \<Longrightarrow> next_free xs t i = Suc t"
  by (subst next_free.simps) simp

lemma compact_step:
  assumes "length p = t"
  shows "(p @ replicate (Suc z) 0 @ x # r)[t := x, t + Suc z := 0] = (p @ [x]) @ replicate (Suc z) (0 :: nat) @ r"
  using assms by (simp add: list_update_append nth_append replicate_app_Cons_same)

lemma compact_loop_ok:
  "0 \<notin> set p \<Longrightarrow> compact_loop (p @ replicate z 0 @ r) (length p + z) (if z = 0 then None else Some (length p)) (length p) =
    (length p + length (filter (\<lambda>x. x \<noteq> 0) r),
     p @ filter (\<lambda>x. x \<noteq> 0) r @ replicate (z + length (filter (\<lambda>x. x = 0) r)) 0)"
proof (induction r arbitrary: p z)
  case Nil
  then show ?case by (subst compact_loop.simps) simp
next
  case (Cons x r)
  let ?xs = "p @ replicate z 0 @ x # r"
  have nth: "?xs ! (length p + z) = x" by (simp add: nth_append)
  show ?case
  proof (cases "x = 0")
    case True
    have e: "?xs = p @ replicate (Suc z) 0 @ r" using True by (simp add: replicate_app_Cons_same)
    have "compact_loop ?xs (length p + z) (if z = 0 then None else Some (length p)) (length p) =
      compact_loop ?xs (length p + Suc z) (Some (length p)) (length p)"
      using True nth by (subst compact_loop.simps) simp
    with Cons.IH [OF Cons.prems, of "Suc z"] True show ?thesis unfolding e by simp
  next
    case nz: False
    show ?thesis
    proof (cases z)
      case 0
      have "compact_loop ?xs (length p + z) (if z = 0 then None else Some (length p)) (length p) =
        compact_loop ?xs (Suc (length p)) None (Suc (length p))"
        using nz nth 0 by (subst compact_loop.simps) simp
      with Cons.IH [of "p @ [x]" 0] Cons.prems nz 0 show ?thesis by simp
    next
      case (Suc y)
      let ?ys = "(p @ [x]) @ replicate z 0 @ r"
      have u: "?xs[length p := x, length p + z := 0] = ?ys"
        using compact_step [of p "length p" y x r] Suc by simp
      have nf: "next_free ?ys (length p) (length p + z) = Suc (length p)"
        by (rule next_free_zero) (simp add: nth_append Suc)
      have "compact_loop ?xs (length p + z) (if z = 0 then None else Some (length p)) (length p) =
        compact_loop ?ys (Suc (length p + z)) (Some (Suc (length p))) (Suc (length p))"
        using nz nth Suc u nf by (subst compact_loop.simps) (simp add: Let_def)
      with Cons.IH [of "p @ [x]" z] Cons.prems nz Suc show ?thesis by simp
    qed
  qed
qed

text \<open>Compaction moves the pointers that are not null to the front in their order, leaves null
  pointers behind them and returns their number.\<close>

theorem array_compact_filters:
  "mpt_array_compact xs = (length (filter (\<lambda>x. x \<noteq> 0) xs),
     filter (\<lambda>x. x \<noteq> 0) xs @ replicate (length (filter (\<lambda>x. x = 0) xs)) 0)"
  using compact_loop_ok [of "[]" 0 xs] by (simp add: mpt_array_compact_def)

section \<open>Bits\<close>

definition in_map :: "block \<Rightarrow> int \<Rightarrow> bool" where
  "in_map base pos \<longleftrightarrow> 0 \<le> pos \<and> nat (pos div 8) < length base"

lemma and_push_bit: "(x :: byte) AND push_bit n 1 \<noteq> 0 \<longleftrightarrow> n < 8 \<and> bit x n"
proof -
  have "x AND push_bit n 1 = (if bit x n then push_bit n 1 else 0)"
    by (rule bit_word_eqI) (auto simp: bit_simps)
  moreover have "n < 8 \<Longrightarrow> push_bit n (1 :: byte) \<noteq> 0"
    using bit_push_bit_iff [of n "1 :: byte" n] by (auto simp: bit_simps)
  moreover have "bit x n \<Longrightarrow> n < 8" using bit_imp_le_length [of x n] by simp
  ultimately show ?thesis by auto
qed

lemma and_pow: "(x :: byte) AND 2 ^ n = 0 \<longleftrightarrow> \<not> (n < 8 \<and> bit x n)"
  using and_push_bit [of x n] by auto

lemma bitmap_get_bit:
  "in_map base pos \<Longrightarrow> mpt_bitmap_get base pos = (if bit (base ! nat (pos div 8)) (nat (pos mod 8)) then 1 else 0)"
  by (simp add: mpt_bitmap_get_def in_map_def and_pow nat_less_iff)

lemma bitmap_get_out: "\<not> in_map base pos \<Longrightarrow> mpt_bitmap_get base pos = MissingBuffer"
  by (auto simp: mpt_bitmap_get_def in_map_def)

text \<open>Both writers store a byte that differs in one bit.\<close>

definition upd_bit :: "bool \<Rightarrow> byte \<Rightarrow> nat \<Rightarrow> byte" where
  "upd_bit v x n = (if v then x OR push_bit n 1 else x AND NOT (push_bit n 1))"

lemma bit_upd_bit: "n < 8 \<Longrightarrow> bit (upd_bit v x n) k = (if k = n then v else bit x k)"
  by (auto simp: upd_bit_def bit_simps dest: bit_imp_le_length)

lemma upd_bit_same: "n < 8 \<Longrightarrow> bit x n = v \<Longrightarrow> upd_bit v x n = x"
  by (rule bit_word_eqI) (simp add: bit_upd_bit)

definition bitmap_upd :: "bool \<Rightarrow> block \<Rightarrow> int \<Rightarrow> block" where
  "bitmap_upd v base p = base[nat (p div 8) := upd_bit v (base ! nat (p div 8)) (nat (p mod 8))]"

lemma nat_mod_8: "nat (p mod 8) < 8"
  by (simp add: nat_less_iff)

lemma bitmap_set_list: "snd (mpt_bitmap_set base p) = (if in_map base p then bitmap_upd True base p else base)"
  using upd_bit_same [OF nat_mod_8, of "base ! nat (p div 8)" p True] nat_mod_8 [of p]
  by (simp add: mpt_bitmap_set_def in_map_def and_pow bitmap_upd_def Let_def not_le not_less)
    (auto simp: upd_bit_def)

lemma bitmap_unset_list: "snd (mpt_bitmap_unset base p) = (if in_map base p then bitmap_upd False base p else base)"
  using upd_bit_same [OF nat_mod_8, of "base ! nat (p div 8)" p False] nat_mod_8 [of p]
  by (simp add: mpt_bitmap_unset_def in_map_def and_pow bitmap_upd_def Let_def not_le not_less)
    (auto simp: upd_bit_def)

lemma bitmap_read_upd:
  assumes "in_map base p" "in_map base q"
  shows "mpt_bitmap_get (bitmap_upd v base p) q = (if q = p then of_bool v else mpt_bitmap_get base q)"
proof -
  have n: "0 \<le> p" "0 \<le> q" using assms by (simp_all add: in_map_def)
  have m: "in_map (bitmap_upd v base p) q" using assms(2) by (simp add: in_map_def bitmap_upd_def)
  show ?thesis
  proof (cases "nat (q div 8) = nat (p div 8)")
    case False
    then have "q \<noteq> p" by auto
    with False assms m show ?thesis by (simp add: bitmap_get_bit) (simp add: bitmap_upd_def)
  next
    case True
    have "0 \<le> q div 8" "0 \<le> p div 8" using n by (simp_all add: pos_imp_zdiv_nonneg_iff)
    then have d: "q div 8 = p div 8" using True by linarith
    have "0 \<le> q mod 8" "0 \<le> p mod 8" by simp_all
    then have "nat (q mod 8) = nat (p mod 8) \<longleftrightarrow> q mod 8 = p mod 8" by linarith
    moreover have "q = p \<longleftrightarrow> q mod 8 = p mod 8" using d by (metis div_mult_mod_eq)
    ultimately have "q = p \<longleftrightarrow> nat (q mod 8) = nat (p mod 8)" by simp
    moreover have "bitmap_upd v base p ! nat (q div 8) = upd_bit v (base ! nat (p div 8)) (nat (p mod 8))"
      unfolding True using assms(1) by (simp add: bitmap_upd_def in_map_def)
    ultimately show ?thesis unfolding bitmap_get_bit [OF m] bitmap_get_bit [OF assms(2)] True
      by (simp only: bit_upd_bit [OF nat_mod_8]) (cases v; simp)
  qed
qed

lemma bitmap_fst:
  assumes "in_map base p"
  shows "fst (mpt_bitmap_set base p) = 1 - mpt_bitmap_get base p" "fst (mpt_bitmap_unset base p) = mpt_bitmap_get base p"
  using assms by (simp_all add: mpt_bitmap_set_def mpt_bitmap_unset_def mpt_bitmap_get_def in_map_def Let_def)

text \<open>Setting or clearing a bit of the map gives this value on reading and changes no other bit;
  the result tells whether the bit was changed, and positions outside of the map are refused.\<close>

theorem bitmap_bits:
  "mpt_bitmap_get (snd (mpt_bitmap_set base p)) q =
     (if in_map base q then if q = p then 1 else mpt_bitmap_get base q else MissingBuffer) \<and>
   mpt_bitmap_get (snd (mpt_bitmap_unset base p)) q =
     (if in_map base q then if q = p then 0 else mpt_bitmap_get base q else MissingBuffer) \<and>
   fst (mpt_bitmap_set base p) = (if in_map base p then 1 - mpt_bitmap_get base p else MissingBuffer) \<and>
   fst (mpt_bitmap_unset base p) = (if in_map base p then mpt_bitmap_get base p else MissingBuffer)"
proof (cases "in_map base p")
  case True
  have i: "in_map (bitmap_upd v base p) q = in_map base q" for v
    by (simp add: in_map_def bitmap_upd_def)
  have r: "mpt_bitmap_get (bitmap_upd v base p) q =
      (if in_map base q then if q = p then of_bool v else mpt_bitmap_get base q else MissingBuffer)" for v
    using bitmap_read_upd [OF True, of q v] bitmap_get_out [of "bitmap_upd v base p" q] i by simp
  show ?thesis using True r [of True] r [of False] bitmap_fst [OF True]
    by (simp add: bitmap_set_list bitmap_unset_list)
next
  case False
  then have f: "fst (mpt_bitmap_set base p) = MissingBuffer" "fst (mpt_bitmap_unset base p) = MissingBuffer"
    by (auto simp: mpt_bitmap_set_def mpt_bitmap_unset_def in_map_def)
  have "in_map base q \<Longrightarrow> q \<noteq> p" using False by auto
  with False f bitmap_get_out [of base q] show ?thesis by (simp add: bitmap_set_list bitmap_unset_list)
qed

end
