(* ===== verification/PathArray.thy ===== *)
theory PathArray
  imports Path Array
begin

text \<open>
  Element paths on buffers: \<open>mptcore/config/\<close> (\<open>path_add.c\<close>, \<open>path_addchar.c\<close>, \<open>path_del.c\<close>, and \<open>path_valid.c\<close>,
  \<open>path_fini.c\<close> on this state).

  The base of a path is null, memory of the caller or the data of a buffer of the heap.  With the flag
  \<open>HasArray\<close> the path owns a reference to this buffer, and the bytes behind the elements are collected
  for the next one.  The relation \<open>pst\<close> describes such paths by their elements, the collected bytes and
  whether these are kept when the next byte is added.
\<close>

unbundle bit_operations_syntax

section \<open>Model\<close>

datatype pref = Null | Mem block | Buf nat

record apath =
  abase :: pref
  aoff :: nat
  alen :: nat
  afirst :: nat
  aflags :: byte
  asep :: byte
  aassign :: byte

definition APATH_INIT :: apath where
  "APATH_INIT = \<lparr>abase = Null, aoff = 0, alen = 0, afirst = 0, aflags = 0, asep = 46, aassign = 0\<rparr>"

text \<open>The bytes at the base.\<close>

definition base_bytes :: "bmem \<Rightarrow> pref \<Rightarrow> block option" where
  "base_bytes m r = (case r of Null \<Rightarrow> None | Mem b \<Rightarrow> Some b | Buf a \<Rightarrow> map_option bdata (getb m a))"

text \<open>The path as the operations that do not change a buffer see it.\<close>

definition path_view :: "bmem \<Rightarrow> apath \<Rightarrow> path" where
  "path_view m p = \<lparr>pbase = base_bytes m (abase p),
     pused = (case abase p of Buf a \<Rightarrow> (case getb m a of Some b \<Rightarrow> bused b | None \<Rightarrow> 0) | _ \<Rightarrow> 0),
     poff = aoff p, plen = alen p, pfirst = afirst p, pflags = aflags p, psep = asep p, passign = aassign p\<rparr>"

definition apath_end :: "apath \<Rightarrow> nat" where
  "apath_end p = wrap (aoff p + alen p)"

definition set_byte :: "bmem \<Rightarrow> nat \<Rightarrow> nat \<Rightarrow> byte \<Rightarrow> bmem option" where
  "set_byte m a i v = do { b \<leftarrow> getb m a; d \<leftarrow> wr (bdata b) i [v]; Some (putb m a (b\<lparr>bdata := d\<rparr>)) }"

text \<open>An \<open>int\<close> as a size.\<close>

definition int_size :: "int \<Rightarrow> nat" where
  "int_size i = nat (i mod 2 ^ 64)"

text \<open>A buffer that must be copied before it is changed.\<close>

definition locked :: "bufdata \<Rightarrow> bool" where
  "locked b \<longleftrightarrow> buffer_alloc_flags b AND BufferShared \<noteq> 0 \<or> buffer_alloc_flags b AND BufferImmutable \<noteq> 0"

text \<open>A path with an array on memory that is not a buffer is undefined.\<close>

definition array_of :: "apath \<Rightarrow> nat option" where
  "array_of p = (case abase p of Buf a \<Rightarrow> Some a | _ \<Rightarrow> None)"

definition mpt_path_addchar :: "malloc \<Rightarrow> bmem \<Rightarrow> apath \<Rightarrow> int \<Rightarrow> (int \<times> bmem \<times> apath) option" where
  "mpt_path_addchar mal m p val =
     (let pos = apath_end p; v = word_of_int val :: byte in
      if abase p = Null \<or> aflags p AND HasArray = 0 then do {
        (a, m) \<leftarrow> mpt_buffer_alloc mal m (wrap (pos + 1)) 0;
        if a = 0 then Some (BadOperation, m, p)
        else do {
          (r, m) \<leftarrow> mpt_buffer_insert m a 0 (wrap (pos + 1));
          if r = None then do { m \<leftarrow> buffer_alloc_unref m a; Some (MissingBuffer, m, p) }
          else do {
            b \<leftarrow> getb m a;
            d \<leftarrow> (case base_bytes m (abase p) of None \<Rightarrow> if abase p = Null then Some (bdata b) else None
                 | Some old \<Rightarrow> do { x \<leftarrow> rd old 0 pos; wr (bdata b) 0 x });
            d \<leftarrow> wr d pos [v];
            Some (3, putb m a (b\<lparr>bdata := d\<rparr>), p\<lparr>abase := Buf a, aflags := aflags p OR HasArray\<rparr>) } } }
      else do {
        a \<leftarrow> array_of p;
        b \<leftarrow> getb m a;
        let off = bused b;
        if \<not> locked b \<and> pos < off \<and> aflags p AND KeepPost = 0 then do {
          m \<leftarrow> set_byte m a (off - 1) v;
          Some (0, m, p) }
        else if \<not> locked b \<and> off < bsize b then do {
          m \<leftarrow> set_byte m a off v;
          b \<leftarrow> getb m a;
          Some (1, putb m a (b\<lparr>bused := off + 1\<rparr>), p) }
        else do {
          (r, a, m) \<leftarrow> mpt_array_slice mal m a off 1;
          case r of None \<Rightarrow> Some (- 1, m, p)
          | Some r \<Rightarrow> do { m \<leftarrow> set_byte m a r v; Some (2, m, p\<lparr>abase := Buf a\<rparr>) } } })"

definition mpt_path_delchar :: "malloc \<Rightarrow> bmem \<Rightarrow> apath \<Rightarrow> (int \<times> bmem \<times> apath) option" where
  "mpt_path_delchar mal m p =
     (if abase p = Null then Some (MissingData, m, p)
      else if aflags p AND HasArray = 0 then Some (MissingBuffer, m, p)
      else do {
        a \<leftarrow> array_of p;
        b \<leftarrow> getb m a;
        if bused b \<le> apath_end p then Some (MissingData, m, p)
        else do {
          (a, m) \<leftarrow> (if locked b then buffer_alloc_detach mal m a (bused b) else Some (a, m));
          if a = 0 then Some (0, m, p)
          else do {
            n \<leftarrow> getb m a;
            x \<leftarrow> rd (bdata n) (bused b - 1) 1;
            Some (sint (hd x), putb m a (n\<lparr>bused := bused b - 1\<rparr>), p\<lparr>abase := Buf a\<rparr>) } } })"

definition apath_valid :: "bmem \<Rightarrow> apath \<Rightarrow> int \<times> apath" where
  "apath_valid m p = (let (r, q) = mpt_path_valid (path_view m p) in (r, p\<lparr>aflags := pflags q\<rparr>))"

text \<open>The target of \<open>mpt_path_add\<close>: the array of the path, or a new one that gets the path and the part.\<close>

definition add_room :: "malloc \<Rightarrow> bmem \<Rightarrow> apath \<Rightarrow> nat \<Rightarrow> nat \<Rightarrow> nat \<Rightarrow> (nat option \<times> bmem) option" where
  "add_room mal m p pre post n =
     (if post < n then do {
        let arr = (if aflags p AND HasArray \<noteq> 0 then (case abase p of Buf a \<Rightarrow> a | _ \<Rightarrow> 0) else 0);
        old \<leftarrow> base_bytes m (abase p);
        (r, a, m) \<leftarrow> mpt_array_append mal m arr (wrap (pre + n - post)) None;
        if r = None then Some (None, m)
        else if pre = 0 then Some (Some a, m)
        else do {
          x \<leftarrow> rd old 0 pre;
          b \<leftarrow> getb m a;
          d \<leftarrow> wr (bdata b) 0 x;
          Some (Some a, putb m a (b\<lparr>bdata := d\<rparr>)) } }
      else do { a \<leftarrow> array_of p; Some (Some a, m) })"

definition mpt_path_add :: "malloc \<Rightarrow> bmem \<Rightarrow> apath \<Rightarrow> int \<Rightarrow> (int \<times> bmem \<times> apath) option" where
  "mpt_path_add mal m p add =
     (if abase p = Null then Some (MissingBuffer, m, p)
      else do {
        let len = apath_end p;
        let n = int_size add;
        post \<leftarrow> (if aflags p AND HasArray \<noteq> 0
          then do { a \<leftarrow> array_of p; b \<leftarrow> getb m a; Some (usub (bused b) len) } else Some 0);
        let pre = (if aflags p AND HasArray \<noteq> 0 then 0 else wrap (len + n));
        if aflags p AND HasArray \<noteq> 0 \<and> post < n then Some (BadValue, m, p)
        else do {
          let post = (if aflags p AND HasArray \<noteq> 0 then post - n else 0);
          if aflags p AND SepBinary \<noteq> 0 then
            (if add > 255 then Some (BadValue, m, p)
             else do {
               (t, m) \<leftarrow> add_room mal m p pre post 2;
               case t of None \<Rightarrow> Some (BadOperation, m, p)
               | Some a \<Rightarrow> do {
                   m \<leftarrow> (if len \<noteq> 0 then set_byte m a (len - 1) (word_of_int add) else Some m);
                   m \<leftarrow> set_byte m a (wrap (len + n)) (word_of_int add);
                   m \<leftarrow> set_byte m a (wrap (len + n + 1)) 0;
                   Some (0, m, p\<lparr>abase := Buf a, alen := usub (wrap (len + n + 2)) (aoff p),
                     afirst := (if len \<noteq> 0 then afirst p else n mod 256), aflags := aflags p AND NOT KeepPost\<rparr>) } })
          else do {
            d \<leftarrow> base_bytes m (abase p);
            f \<leftarrow> memchr_at d len (asep p) n;
            if f \<noteq> None then Some (BadValue, m, p)
            else do {
              (t, m) \<leftarrow> add_room mal m p pre post 1;
              case t of None \<Rightarrow> Some (BadOperation, m, p)
              | Some a \<Rightarrow> do {
                  m \<leftarrow> (if len \<noteq> 0 then set_byte m a (len - 1) (asep p) else Some m);
                  m \<leftarrow> set_byte m a (wrap (len + n)) (aassign p);
                  Some (0, m, p\<lparr>abase := Buf a, alen := usub (wrap (len + n + 1)) (aoff p),
                    afirst := (if len \<noteq> 0 then afirst p else n mod 256), aflags := aflags p AND NOT KeepPost\<rparr>) } } } } })"

text \<open>The backward search of \<open>mpt_path_del\<close> from the end of the last part: remaining length and part.\<close>

fun del_loop :: "block \<Rightarrow> byte \<Rightarrow> nat \<Rightarrow> nat \<Rightarrow> nat \<Rightarrow> (nat \<times> nat) option" where
  "del_loop d sep off 0 part = Some (0, part)"
| "del_loop d sep off (Suc len) part =
     (if len = 0 then Some (0, part)
      else if off + len - 1 < length d then
        (if d ! (off + len - 1) \<noteq> sep then del_loop d sep off len (part + 1) else Some (len, part))
      else None)"

definition mpt_path_del :: "malloc \<Rightarrow> bmem \<Rightarrow> apath \<Rightarrow> (int \<times> bmem \<times> apath) option" where
  "mpt_path_del mal m p =
     (if alen p = 0 then Some (MissingData, m, p)
      else do {
        d \<leftarrow> base_bytes m (abase p);
        r \<leftarrow> (if aflags p AND SepBinary \<noteq> 0 then
               (if alen p < 2 then Some (Inl BadValue)
                else do {
                  x \<leftarrow> rd d (apath_end p - 2) 1;
                  let part = unat (hd x);
                  if alen p \<le> part then Some (Inl BadValue)
                  else do {
                    let len = usub (alen p) (part + 2);
                    let pos = wrap (len + aoff p);
                    f \<leftarrow> (if pos \<noteq> 0 then map_option (\<lambda>y. unat (hd y)) (rd d (pos - 1) 1) else Some (afirst p));
                    Some (if part \<noteq> f then Inl BadOperation else Inr (len, part)) } })
             else map_option Inr (del_loop d (asep p) (aoff p) (alen p) 0));
        case r of Inl e \<Rightarrow> Some (e, m, p)
        | Inr (len, part) \<Rightarrow> do {
            t \<leftarrow> (if aflags p AND HasArray \<noteq> 0 then do {
                   a \<leftarrow> array_of p;
                   b \<leftarrow> getb m a;
                   if len > bused b then Some (Inl (BadValue, m))
                   else do {
                     (r, a, m) \<leftarrow> mpt_array_slice mal m a 0 len;
                     case r of None \<Rightarrow> Some (Inl (BadOperation, m))
                     | Some _ \<Rightarrow> do {
                         b \<leftarrow> getb m a;
                         Some (Inr (Buf a, putb m a (b\<lparr>bused := len\<rparr>))) } } }
                 else Some (Inr (abase p, m)));
            case t of Inl (e, m) \<Rightarrow> Some (e, m, p)
            | Inr (base, m) \<Rightarrow>
                Some (int part, m, p\<lparr>abase := base, alen := len, afirst := (if len = 0 then 0 else afirst p),
                  aflags := aflags p AND NOT KeepPost\<rparr>) } })"

definition mpt_path_invalidate :: "malloc \<Rightarrow> bmem \<Rightarrow> apath \<Rightarrow> (int \<times> bmem \<times> apath) option" where
  "mpt_path_invalidate mal m p =
     (let len = apath_end p in
      if abase p = Null then Some (if len \<noteq> 0 then - 2 else 0, m, p)
      else if aflags p AND HasArray = 0 then Some (0, m, p)
      else do {
        a \<leftarrow> array_of p;
        b \<leftarrow> getb m a;
        if len > bused b then Some (BadValue, m, p)
        else if len = bused b then Some (0, m, p\<lparr>aflags := aflags p AND NOT KeepPost\<rparr>)
        else if \<not> locked b then do {
          m \<leftarrow> set_byte m a len 0;
          b \<leftarrow> getb m a;
          Some (1, putb m a (b\<lparr>bused := len\<rparr>), p\<lparr>aflags := aflags p AND NOT KeepPost\<rparr>) }
        else do {
          (r, a, m) \<leftarrow> mpt_array_slice mal m a 0 len;
          if r = None then Some (- 1, m, p)
          else do {
            b \<leftarrow> getb m a;
            m \<leftarrow> (if bsize b > len then set_byte m a len 0 else Some m);
            b \<leftarrow> getb m a;
            Some (2, putb m a (b\<lparr>bused := len\<rparr>), p\<lparr>abase := Buf a, aflags := aflags p AND NOT KeepPost\<rparr>) } } })"

definition apath_fini :: "bmem \<Rightarrow> apath \<Rightarrow> (bmem \<times> apath) option" where
  "apath_fini m p =
     (if aflags p AND HasArray = 0 then Some (m, p)
      else if abase p = Null then Some (m, p\<lparr>aflags := aflags p AND NOT HasArray, aoff := 0, alen := 0\<rparr>)
      else do {
        a \<leftarrow> array_of p;
        m \<leftarrow> buffer_alloc_unref m a;
        Some (m, p\<lparr>aflags := aflags p AND NOT HasArray, aoff := 0, alen := 0, abase := Null\<rparr>) })"

section \<open>Paths that own their buffer\<close>

text \<open>Elements that end at the separator, the last one at any byte.\<close>

definition join :: "byte \<Rightarrow> byte \<Rightarrow> block list \<Rightarrow> block" where
  "join sep t es = (if es = [] then [] else concat (map (\<lambda>e. e @ [sep]) (butlast es)) @ last es @ [t])"

lemma join_snoc: "join sep t (es @ [e]) = join sep sep es @ e @ [t]"
proof (cases es rule: rev_cases)
  case (snoc fs f)
  then show ?thesis by (simp add: join_def butlast_append)
qed (simp add: join_def)

lemma join_Nil [simp]: "join sep t es = [] \<longleftrightarrow> es = []"
  by (simp add: join_def)

lemma join_length: "length (join sep t es) = length (join s u es)"
  by (simp add: join_def length_concat comp_def)

lemma join_update:
  assumes "es \<noteq> []"
  shows "(join sep t es)[length (join sep u es) - 1 := v] = join sep v es"
proof -
  obtain x where x: "join sep w es = x @ [w]" for w
    using assms by (cases es rule: rev_cases) (auto simp: join_snoc)
  then show ?thesis by simp
qed

definition flag_value :: "bool \<Rightarrow> bool \<Rightarrow> byte" where
  "flag_value arr keep = (if arr then HasArray else 0) OR (if keep then KeepPost else 0)"

lemma flag_value_bits [simp]:
  "flag_value arr keep AND HasArray \<noteq> 0 \<longleftrightarrow> arr" "flag_value arr keep AND HasArray = 0 \<longleftrightarrow> \<not> arr"
  "flag_value arr keep AND KeepPost = 0 \<longleftrightarrow> \<not> keep" "flag_value arr keep AND SepBinary = 0"
  "flag_value arr keep OR HasArray = flag_value True keep" "flag_value arr keep AND NOT KeepPost = flag_value arr False"
  "flag_value arr keep OR KeepPost = flag_value arr True" "flag_value arr keep AND NOT HasArray = flag_value False keep"
  by (auto simp: flag_value_def)

lemma flag_value_clear [simp]:
  "flag_value arr keep AND - 2 = flag_value arr False" "flag_value arr keep AND - 65 = flag_value False keep"
  by (auto simp: flag_value_def)

definition owned :: "bmem \<Rightarrow> nat \<Rightarrow> block \<Rightarrow> bool" where
  "owned m a c \<longleftrightarrow> (\<exists>b. getb m a = Some b \<and> raw_ok b \<and> bref b = 1 \<and> bflags b AND BufferImmutable = 0 \<and> content b = c)"

definition pst :: "byte \<Rightarrow> byte \<Rightarrow> bmem \<Rightarrow> apath \<Rightarrow> block list \<Rightarrow> block \<Rightarrow> bool \<Rightarrow> bool" where
  "pst sep asg m p es post keep \<longleftrightarrow> mem_ok m \<and> aoff p = 0 \<and> asep p = sep \<and> aassign p = asg \<and>
     (\<forall>e \<in> set es. sep \<notin> set e) \<and> afirst p = (if es = [] then 0 else length (hd es) mod 256) \<and>
     aflags p = flag_value (abase p \<noteq> Null) keep \<and>
     (\<exists>t. alen p = length (join sep t es) \<and>
        (case abase p of Null \<Rightarrow> es = [] \<and> post = [] \<and> \<not> keep
         | Buf a \<Rightarrow> owned m a (join sep t es @ post)
         | Mem b \<Rightarrow> False))"

lemma pst_init: "mem_ok m \<Longrightarrow> pst 46 0 m APATH_INIT [] [] False"
  by (simp add: pst_def APATH_INIT_def join_def flag_value_def)

lemma unlocked: "raw_ok b \<Longrightarrow> bref b = 1 \<Longrightarrow> bflags b AND BufferImmutable = 0 \<Longrightarrow> \<not> locked b"
  by (simp add: locked_def buffer_alloc_flags_def raw_ok_def)

lemma getb_unique: "getb m a = Some b \<Longrightarrow> getb (putb m a c) a = Some c"
  using getb_nonzero by (simp add: getb_putb)

lemma ownedI:
  "getb m a = Some b \<Longrightarrow> raw_ok b \<Longrightarrow> bref b = 1 \<Longrightarrow> bflags b AND BufferImmutable = 0 \<Longrightarrow> content b = c \<Longrightarrow> owned m a c"
  unfolding owned_def by blast

lemma ownedE:
  assumes "owned m a c"
  obtains b where "getb m a = Some b" "raw_ok b" "bref b = 1" "bflags b AND BufferImmutable = 0" "content b = c"
    "bused b = length c" "\<not> locked b" "bused b \<le> bsize b" "bsize b < 2 ^ 64" "c = take (length c) (bdata b)"
proof -
  from assms obtain b where b: "getb m a = Some b" "raw_ok b" "bref b = 1" "bflags b AND BufferImmutable = 0" "content b = c"
    unfolding owned_def by blast
  have u: "bused b = length c" using content_length [OF b(2)] b(5) by simp
  have "bused b \<le> bsize b" "bsize b < 2 ^ 64" using b(2) by (simp_all add: raw_ok_def)
  moreover have "c = take (length c) (bdata b)" using b(5) u by (simp add: content_def)
  ultimately show ?thesis using that b u unlocked by blast
qed

text \<open>A stored byte below the end of the contents, and a new end.\<close>

lemma set_byte_owned:
  assumes "owned m a c" "i < length c"
  shows "\<exists>b. set_byte m a i v = Some (putb m a b) \<and> owned (putb m a b) a (c[i := v])"
proof -
  from assms(1) obtain b where b: "getb m a = Some b" "raw_ok b" "bref b = 1" "bflags b AND BufferImmutable = 0" "content b = c"
    "bused b = length c" "bused b \<le> bsize b" "c = take (length c) (bdata b)" by (rule ownedE) blast
  let ?d = "(bdata b)[i := v]"
  have l: "i < length (bdata b)" using b(6,7) assms(2) by (simp add: bsize_def)
  have "wr (bdata b) i [v] = Some ?d" using l by (simp add: wr_def upd_conv_take_nth_drop)
  then have "set_byte m a i v = Some (putb m a (b\<lparr>bdata := ?d\<rparr>))" using b(1) by (simp add: set_byte_def)
  moreover have "content (b\<lparr>bdata := ?d\<rparr>) = c[i := v]"
    using b(6,8) by (simp add: content_def take_update_swap)
  moreover have "raw_ok (b\<lparr>bdata := ?d\<rparr>)" using b(2) by (simp add: raw_ok_def bsize_def)
  ultimately show ?thesis using b(1,3,4) ownedI [OF getb_unique [OF b(1)]] by (intro exI [of _ "b\<lparr>bdata := ?d\<rparr>"]) simp
qed

lemma owned_used:
  assumes "getb m a = Some b" "owned m a c" "n \<le> length c"
  shows "owned (putb m a (b\<lparr>bused := n\<rparr>)) a (take n c)"
proof -
  from assms(2) obtain b' where b: "getb m a = Some b'" "raw_ok b'" "bref b' = 1" "bflags b' AND BufferImmutable = 0" "content b' = c"
    "bused b' = length c" "c = take (length c) (bdata b')" by (rule ownedE) blast
  have e: "b' = b" using b(1) assms(1) by simp
  have "content (b\<lparr>bused := n\<rparr>) = take n c" using b(7) assms(3) unfolding e content_def by (metis bufdata.select_convs(5) bufdata.surjective bufdata.update_convs(4) min.absorb1 take_take bufdata.select_convs(4))
  moreover have "raw_ok (b\<lparr>bused := n\<rparr>)" using b(2,6) assms(3) unfolding e by (simp add: raw_ok_def bsize_def)
  ultimately show ?thesis using b(3,4) ownedI [OF getb_unique [OF assms(1)]] unfolding e by simp
qed

text \<open>One more byte: in place, or in a larger buffer.\<close>

lemma append_owned:
  assumes "owned m a c" "mem_ok m" "always_ok mal" "length c + 1 < 2 ^ 63"
  shows "\<exists>a' m'. mpt_array_slice mal m a (length c) 1 = Some (Some (length c), a', m') \<and> owned m' a' (c @ [0]) \<and> mem_ok m'"
proof -
  from assms(1) obtain b where b: "getb m a = Some b" "raw_ok b" "bref b = 1" "content b = c" "bused b = length c" by (rule ownedE) blast
  have al: "alloc_ok mal m" using assms(2,3) by (simp add: always_ok_def)
  have h: "length c + 1 < 2 ^ 63" "bused b < 2 ^ 63" "bref b = 1 \<or> bflags b AND BufferNoCopy = 0" using assms(4) b by simp_all
  from array_slice_raw [OF b(1,2) al h] obtain a' b' m' where
    s: "mpt_array_slice mal m a (length c) 1 = Some (Some (length c), a', m')" "getb m' a' = Some b'" "raw_ok b'"
      "content b' = content b @ replicate (length c + 1 - bused b) 0" "bref b' = 1" "private_copy m a b a' m'"
      "bflags b' AND BufferImmutable = 0" by blast
  have "owned m' a' (c @ [0])" using s b(4,5) by (intro ownedI) simp_all
  with s(1,6) mem_ok_private [OF assms(2)] show ?thesis by blast
qed

text \<open>Access to a path with elements \<open>es\<close>.\<close>

lemma pstE:
  assumes "pst sep asg m p es post keep"
  obtains (null) "abase p = Null" "es = []" "post = []" "\<not> keep" "aflags p = flag_value False False" "alen p = 0" "apath_end p = 0"
    "mem_ok m" "aoff p = 0"
  | (buf) a t where "abase p = Buf a" "owned m a (join sep t es @ post)" "aflags p = flag_value True keep"
    "alen p = length (join sep t es)" "apath_end p = length (join sep t es)" "array_of p = Some a" "mem_ok m" "aoff p = 0"
proof (cases "abase p")
  case Null
  with assms null show ?thesis by (auto simp: pst_def apath_end_def join_def)
next
  case (Buf a)
  then obtain t where t: "alen p = length (join sep t es)" "owned m a (join sep t es @ post)" "aflags p = flag_value True keep"
    "mem_ok m" "aoff p = 0" using assms by (auto simp: pst_def)
  from t(2) obtain b where "bused b = length (join sep t es @ post)" "bused b \<le> bsize b" "bsize b < 2 ^ 64" by (rule ownedE) blast
  then have "length (join sep t es) < 2 ^ 64" by simp
  then have "apath_end p = length (join sep t es)" using t by (simp add: apath_end_def)
  with t Buf buf show ?thesis by (auto simp: array_of_def)
next
  case (Mem b)
  with assms show ?thesis by (auto simp: pst_def)
qed

text \<open>The same path with other collected bytes or another end of the last element.\<close>

lemma pst_buf:
  assumes "pst sep asg m p es post keep" "mem_ok m'" "owned m' a (join sep t es @ post')"
  shows "pst sep asg m' (p\<lparr>abase := Buf a, aflags := flag_value True keep'\<rparr>) es post' keep'"
proof -
  obtain u where u: "alen p = length (join sep u es)" using assms(1) by (auto simp: pst_def)
  have "alen p = length (join sep t es)" using u join_length by metis
  with assms show ?thesis unfolding pst_def by auto
qed

lemma pst_same: "abase p = Buf a \<Longrightarrow> aflags p = flag_value True keep \<Longrightarrow> p\<lparr>abase := Buf a, aflags := flag_value True keep\<rparr> = p"
  by simp

text \<open>Adding a byte replaces the last collected byte until the collected bytes are marked as valid.\<close>

definition put_char :: "block \<Rightarrow> bool \<Rightarrow> byte \<Rightarrow> block" where
  "put_char post keep v = (if post = [] \<or> keep then post @ [v] else butlast post @ [v])"

definition path_size :: "block list \<Rightarrow> block \<Rightarrow> nat" where
  "path_size es post = length (join 0 0 es) + length post"

lemma path_size_join: "length (join sep t es) + length post = path_size es post"
  using join_length [of sep t es 0 0] by (simp add: path_size_def)

lemma addchar_pst:
  assumes p: "pst sep asg m p es post keep" and al: "always_ok mal" and sz: "path_size es post + 1 < 2 ^ 63"
  shows "\<exists>r m' p'. mpt_path_addchar mal m p val = Some (r, m', p') \<and> 0 \<le> r \<and>
    pst sep asg m' p' es (put_char post keep (word_of_int val)) keep"
  using p
proof (cases rule: pstE)
  case null
  let ?v = "word_of_int val :: byte"
  have ak: "alloc_ok mal m" using al null by (simp add: always_ok_def)
  from alloc_raw [OF ak, of 1 0] obtain a n where
    n: "mpt_buffer_alloc mal m 1 0 = Some (a, putb (set_psz m) a n)" "a \<noteq> 0" "bufs m a = None" "raw_ok n" "bref n = 1"
      "bused n = 0" "1 \<le> bsize n" "bflags n = 0" by auto
  let ?m = "putb (set_psz m) a n"
  have g: "getb ?m a = Some n" using n(2) by (simp add: getb_putb)
  have c: "content n = []" using n(6) by (simp add: content_def)
  from insert_raw [OF g n(4), of 0 1] n c obtain b where
    b: "mpt_buffer_insert ?m a 0 1 = Some (Some 0, putb ?m a b)" "raw_ok b" "length (content b) = 1" "bref b = 1" "bflags b = 0"
    by auto
  have o1: "owned (putb ?m a b) a (content b)" using b g by (intro ownedI [OF getb_unique]) simp_all
  have gb: "getb (putb ?m a b) a = Some b" by (rule getb_unique [OF g])
  have "bused b = 1" using content_length [OF b(2)] b(3) by simp
  then have l: "0 < length (bdata b)" using b(2) by (auto simp: raw_ok_def bsize_def)
  let ?d = "(bdata b)[0 := ?v]" and ?b2 = "b\<lparr>bdata := (bdata b)[0 := ?v]\<rparr>"
  have d: "wr (bdata b) 0 [?v] = Some ?d" using l by (cases "bdata b") (simp_all add: wr_def)
  have w: "set_byte (putb ?m a b) a 0 ?v = Some (putb (putb ?m a b) a ?b2)" using gb d by (simp add: set_byte_def)
  from set_byte_owned [OF o1, of 0 ?v] b(3) w have s: "owned (putb (putb ?m a b) a ?b2) a ((content b)[0 := ?v])" by auto
  have e: "(content b)[0 := ?v] = [?v]" using b(3) by (cases "content b") auto
  have "mpt_path_addchar mal m p val = Some (3, putb ?m a ?b2, p\<lparr>abase := Buf a, aflags := flag_value True False\<rparr>)"
    using null n(1,2) b(1) gb d by (simp add: mpt_path_addchar_def Let_def base_bytes_def)
  moreover have "pst sep asg (putb ?m a ?b2) (p\<lparr>abase := Buf a, aflags := flag_value True False\<rparr>) es [?v] False"
    using s e null mem_ok_putb mem_ok_psz by (intro pst_buf [OF p, of _ _ 0]) (simp_all add: join_def)
  ultimately show ?thesis using null by (simp add: put_char_def)
next
  case (buf a t)
  let ?v = "word_of_int val :: byte" and ?c = "join sep t es @ post"
  from buf(2) obtain b where b: "getb m a = Some b" "raw_ok b" "bref b = 1" "bflags b AND BufferImmutable = 0" "content b = ?c"
    "bused b = length ?c" "\<not> locked b" "bused b \<le> bsize b" by (rule ownedE) blast
  have pos: "apath_end p < bused b \<longleftrightarrow> post \<noteq> []" using buf b(6) by simp
  consider (last) "post \<noteq> []" "\<not> keep" | (room) "post = [] \<or> keep" "bused b < bsize b" | (full) "post = [] \<or> keep" "\<not> bused b < bsize b"
    by blast
  then show ?thesis
  proof cases
    case last
    then have l: "length ?c - 1 < length ?c" by simp
    from set_byte_owned [OF buf(2) l, of ?v] obtain b2 where
      s: "set_byte m a (length ?c - 1) ?v = Some (putb m a b2)" "owned (putb m a b2) a (?c[length ?c - 1 := ?v])" by blast
    have "?c[length ?c - 1 := ?v] = join sep t es @ put_char post keep ?v"
      using last by (cases post rule: rev_cases) (simp_all add: put_char_def list_update_append)
    moreover have "mpt_path_addchar mal m p val = Some (0, putb m a b2, p)"
      using buf b last s(1) pos by (simp add: mpt_path_addchar_def Let_def)
    ultimately show ?thesis using s(2) pst_buf [OF p mem_ok_putb [OF buf(7)], of a b2 a t _ keep] pst_same [OF buf(1,3)] by auto
  next
    case room
    let ?b1 = "b\<lparr>bdata := (bdata b)[bused b := ?v]\<rparr>"
    have l: "bused b < length (bdata b)" using room by (simp add: bsize_def)
    have "set_byte m a (bused b) ?v = Some (putb m a ?b1)"
      using b(1) l by (simp add: set_byte_def wr_def upd_conv_take_nth_drop)
    then have "mpt_path_addchar mal m p val = Some (1, putb m a (?b1\<lparr>bused := bused b + 1\<rparr>), p)"
      using buf b room pos getb_unique [OF b(1)] by (auto simp: mpt_path_addchar_def Let_def)
    moreover have "content (?b1\<lparr>bused := bused b + 1\<rparr>) = ?c @ [?v]"
      using l b(5) by (simp add: content_def take_Suc_conv_app_nth)
    moreover have "raw_ok (?b1\<lparr>bused := bused b + 1\<rparr>)" using b(2) l by (simp add: raw_ok_def bsize_def)
    ultimately have "mpt_path_addchar mal m p val = Some (1, putb m a (?b1\<lparr>bused := bused b + 1\<rparr>), p) \<and>
        owned (putb m a (?b1\<lparr>bused := bused b + 1\<rparr>)) a (join sep t es @ put_char post keep ?v)"
      using b(1,3,4) room(1) by (auto intro!: ownedI [OF getb_unique] simp: put_char_def)
    then show ?thesis using pst_buf [OF p mem_ok_putb [OF buf(7)], of a _ a t _ keep] pst_same [OF buf(1,3)] by auto
  next
    case full
    have "length ?c + 1 < 2 ^ 63" using sz path_size_join [of sep t es post] by simp
    from append_owned [OF buf(2,7) al this] obtain a' m1 where
      s: "mpt_array_slice mal m a (length ?c) 1 = Some (Some (length ?c), a', m1)" "owned m1 a' (?c @ [0])" "mem_ok m1" by blast
    from set_byte_owned [OF s(2), of "length ?c" ?v] obtain b2 where
      w: "set_byte m1 a' (length ?c) ?v = Some (putb m1 a' b2)" "owned (putb m1 a' b2) a' ((?c @ [0])[length ?c := ?v])" by auto
    have "mpt_path_addchar mal m p val = Some (2, putb m1 a' b2, p\<lparr>abase := Buf a'\<rparr>)"
      using buf b full pos s(1) w(1) by (auto simp: mpt_path_addchar_def Let_def)
    moreover have "(?c @ [0])[length ?c := ?v] = ?c @ [?v]" by (rule list_update_length)
    moreover have "?c @ [?v] = join sep t es @ put_char post keep ?v" using full(1) by (auto simp: put_char_def)
    moreover have "p\<lparr>abase := Buf a'\<rparr> = p\<lparr>abase := Buf a', aflags := flag_value True keep\<rparr>" using buf(3) by simp
    ultimately show ?thesis using w(2) pst_buf [OF p mem_ok_putb [OF s(3)], of a' b2 a' t _ keep] by auto
  qed
qed

lemma valid_pst:
  assumes p: "pst sep asg m p es post keep"
  shows "\<exists>p'. apath_valid m p = (int (length post), p') \<and> pst sep asg m p' es post (keep \<or> post \<noteq> [])"
  using p
proof (cases rule: pstE)
  case null
  then have "apath_valid m p = (0, p)"
    by (simp add: apath_valid_def mpt_path_valid_def path_view_def base_bytes_def)
  with p null show ?thesis by simp
next
  case (buf a t)
  from buf(2) obtain b where b: "getb m a = Some b" "bused b = length (join sep t es @ post)" by (rule ownedE) blast
  have "apath_valid m p = (int (length post), p\<lparr>aflags := flag_value True (keep \<or> post \<noteq> [])\<rparr>)"
    using buf b by (simp add: apath_valid_def mpt_path_valid_def path_view_def base_bytes_def Let_def)
  moreover have "p\<lparr>aflags := flag_value True (keep \<or> post \<noteq> [])\<rparr> = p\<lparr>abase := Buf a, aflags := flag_value True (keep \<or> post \<noteq> [])\<rparr>"
    using buf(1) by simp
  ultimately show ?thesis using pst_buf [OF p buf(7,2)] by simp
qed

lemma delchar_pst:
  assumes p: "pst sep asg m p es (post @ [x]) keep"
  shows "\<exists>m'. mpt_path_delchar mal m p = Some (sint x, m', p) \<and> pst sep asg m' p es post keep"
  using p
proof (cases rule: pstE)
  case null
  then show ?thesis by simp
next
  case (buf a t)
  let ?c = "join sep t es @ post"
  from buf(2) obtain b where b0: "getb m a = Some b" "bused b = length (join sep t es @ post @ [x])" "\<not> locked b" "bused b \<le> bsize b"
    "join sep t es @ post @ [x] = take (length (join sep t es @ post @ [x])) (bdata b)" by (rule ownedE) blast
  then have b: "getb m a = Some b" "bused b = length ?c + 1" "\<not> locked b" "bused b \<le> bsize b"
    "?c @ [x] = take (length ?c + 1) (bdata b)" by simp_all
  have "bdata b ! length ?c = (take (length ?c + 1) (bdata b)) ! length ?c" by simp
  then have nth: "bdata b ! length ?c = x" unfolding b(5) [symmetric] by (simp add: nth_append)
  have "rd (bdata b) (length ?c) 1 = Some [x]"
    using b(2,4) nth by (simp add: rd_def bsize_def take_Suc_conv_app_nth)
  then have "mpt_path_delchar mal m p = Some (sint x, putb m a (b\<lparr>bused := length ?c\<rparr>), p\<lparr>abase := Buf a\<rparr>)"
    using buf b getb_nonzero [OF b(1)] by (simp add: mpt_path_delchar_def)
  moreover have "p\<lparr>abase := Buf a\<rparr> = p" using buf(1) by simp
  moreover have "owned (putb m a (b\<lparr>bused := length ?c\<rparr>)) a ?c"
    using owned_used [OF b(1) buf(2), of "length ?c"] by simp
  ultimately show ?thesis using pst_buf [OF p mem_ok_putb [OF buf(7)], of a _ a t post keep] pst_same [OF buf(1,3)] by auto
qed

lemma invalidate_pst:
  assumes p: "pst sep asg m p es post keep"
  shows "\<exists>r m' p'. mpt_path_invalidate mal m p = Some (r, m', p') \<and> 0 \<le> r \<and> pst sep asg m' p' es [] False"
  using p
proof (cases rule: pstE)
  case null
  then show ?thesis using p by (simp add: mpt_path_invalidate_def)
next
  case (buf a t)
  let ?j = "join sep t es"
  let ?p = "p\<lparr>abase := Buf a, aflags := flag_value True False\<rparr>"
  from buf(2) obtain b where b: "getb m a = Some b" "bused b = length (?j @ post)" "\<not> locked b" by (rule ownedE) auto
  have pe: "p\<lparr>aflags := flag_value True False\<rparr> = ?p" using buf(1) by simp
  show ?thesis
  proof (cases "post = []")
    case True
    then have "mpt_path_invalidate mal m p = Some (0, m, ?p)" using buf b pe by (simp add: mpt_path_invalidate_def)
    then show ?thesis using pst_buf [OF p buf(7), of a t "[]"] buf(2) True by auto
  next
    case False
    then have l: "length ?j < length (?j @ post)" by simp
    from set_byte_owned [OF buf(2) l, of 0] obtain b2 where
      s: "set_byte m a (length ?j) 0 = Some (putb m a b2)" "owned (putb m a b2) a ((?j @ post)[length ?j := 0])" by blast
    have g: "getb (putb m a b2) a = Some b2" by (rule getb_unique [OF b(1)])
    have "mpt_path_invalidate mal m p = Some (1, putb m a (b2\<lparr>bused := length ?j\<rparr>), ?p)"
      using buf b False s(1) g pe by (simp add: mpt_path_invalidate_def)
    moreover have "owned (putb m a (b2\<lparr>bused := length ?j\<rparr>)) a ?j"
      using owned_used [OF g s(2), of "length ?j"] False by (simp add: list_update_append)
    ultimately show ?thesis using pst_buf [OF p mem_ok_putb [OF buf(7)], of a _ a t "[]"] by auto
  qed
qed

lemma append_none: "mpt_array_append mal m arr n None = mpt_array_append mal m arr n (Some (replicate n 0))"
proof -
  have "raw_data None n = raw_data (Some (replicate n 0)) n" by (simp add: raw_data_def rd_def)
  then show ?thesis unfolding mpt_array_append_def by (simp only:)
qed

text \<open>Room for the byte behind a new element.\<close>

lemma add_room_owned:
  assumes "owned m a (c @ y)" "mem_ok m" "always_ok mal" "length c + length y + 1 < 2 ^ 63"
    and "abase p = Buf a" "aflags p = flag_value True keep"
  shows "\<exists>a' m' v. add_room mal m p 0 (length y) 1 = Some (Some a', m') \<and> owned m' a' (c @ v # tl y) \<and> mem_ok m'"
proof (cases y)
  case (Cons u z)
  then show ?thesis using assms by (auto simp: add_room_def array_of_def)
next
  case Nil
  from assms(1) Nil obtain b where b: "getb m a = Some b" "raw_ok b" "bref b = 1" "bflags b AND BufferImmutable = 0"
    "content b = c" "bused b = length c" by (rule_tac ownedE) auto
  have al: "alloc_ok mal m" using assms(2,3) by (simp add: always_ok_def)
  have h: "bused b + length [0 :: byte] < 2 ^ 63" "bref b = 1 \<or> bflags b AND BufferNoCopy = 0" using assms(4) b Nil by simp_all
  from array_append_raw [OF b(1,2) al h] obtain a' b' m' where
    s: "mpt_array_append mal m a 1 (Some [0]) = Some (Some (bused b), a', m')" "getb m' a' = Some b'" "raw_ok b'"
      "content b' = content b @ [0]"
      "if bsize b - bused b < 1 then bref b' = 1 \<and> private_copy m a b a' m' else a' = a \<and> bref b' = bref b \<and> m' = putb m a b'"
      "bflags b' AND BufferImmutable = 0" using b(4) by auto
  have "owned m' a' (c @ [0])" using s b by (intro ownedI) (auto split: if_splits)
  moreover have "mem_ok m'" using s(5) mem_ok_private [OF assms(2)] mem_ok_putb [OF assms(2)] by (auto split: if_splits)
  moreover have "add_room mal m p 0 (length y) 1 = Some (Some a', m')"
    using Nil assms(5,6) s(1) b(1) append_none [of mal m a 1] by (simp add: add_room_def base_bytes_def)
  ultimately show ?thesis using Nil by auto
qed

lemma memchr_none:
  assumes "take (length x) (drop n d) = x" "n + length x \<le> length d" "c \<notin> set x"
  shows "memchr_at d n c (length x) = Some None"
proof -
  have "takeWhile (\<lambda>y. y \<noteq> c) x = x" using assms(3) by (auto simp: takeWhile_eq_all_conv)
  then have "length (takeWhile (\<lambda>y. y \<noteq> c) x) = length x" by (simp only:)
  with assms show ?thesis by (simp add: memchr_at_def Let_def)
qed

text \<open>The collected bytes up to a length become an element.\<close>

lemma add_pst:
  assumes p: "pst sep asg m p es (x @ y) keep" and ne: "abase p \<noteq> Null" and x: "sep \<notin> set x"
    and al: "always_ok mal" and sz: "path_size es (x @ y) + 1 < 2 ^ 63"
  shows "\<exists>m' p'. mpt_path_add mal m p (int (length x)) = Some (0, m', p') \<and> pst sep asg m' p' (es @ [x]) (tl y) False"
  using p
proof (cases rule: pstE)
  case null
  then show ?thesis using ne by simp
next
  case (buf a t)
  let ?j = "join sep t es" and ?n = "length x"
  from buf(2) obtain b where b: "getb m a = Some b" "bused b = length (?j @ x @ y)" "bused b \<le> bsize b"
    "?j @ x @ y = take (length (?j @ x @ y)) (bdata b)" by (rule ownedE) blast
  have l: "length ?j + ?n + length y + 1 < 2 ^ 63" using sz path_size_join [of sep t es "x @ y"] by simp
  have d: "bdata b = (?j @ x @ y) @ drop (length (?j @ x @ y)) (bdata b)" using b(4) append_take_drop_id by metis
  have "take ?n (drop (length ?j) (bdata b)) = x" by (subst d) simp
  then have mc: "memchr_at (bdata b) (length ?j) sep ?n = Some None"
    using b(2,3) x by (intro memchr_none) (simp_all add: bsize_def)
  from add_room_owned [of m a "?j @ x" y mal p keep] buf al l obtain a' m1 v where
    r: "add_room mal m p 0 (length y) 1 = Some (Some a', m1)" "owned m1 a' ((?j @ x) @ v # tl y)" "mem_ok m1" by auto
  have "\<exists>m2. (if length ?j \<noteq> 0 then set_byte m1 a' (length ?j - 1) sep else Some m1) = Some m2 \<and> mem_ok m2 \<and>
      owned m2 a' (join sep sep es @ x @ v # tl y)"
  proof (cases "es = []")
    case True
    then show ?thesis using r by (simp add: join_def)
  next
    case False
    then have i: "length ?j - 1 < length ((?j @ x) @ v # tl y)" by simp
    have u: "((?j @ x) @ v # tl y)[length ?j - 1 := sep] = join sep sep es @ x @ v # tl y"
      using False join_update [OF False, of sep t t sep] by (simp add: list_update_append)
    from set_byte_owned [OF r(2) i, of sep] u mem_ok_putb [OF r(3)] False show ?thesis by auto
  qed
  then obtain m2 where m2: "(if length ?j \<noteq> 0 then set_byte m1 a' (length ?j - 1) sep else Some m1) = Some m2" "mem_ok m2"
      "owned m2 a' (join sep sep es @ x @ v # tl y)" by blast
  have jl: "length (join sep sep es) = length ?j" by (rule join_length)
  have i: "length ?j + ?n < length (join sep sep es @ x @ v # tl y)" using jl by simp
  have u: "(join sep sep es @ x @ v # tl y)[length ?j + ?n := asg] = join sep asg (es @ [x]) @ tl y"
    using jl by (simp add: join_snoc list_update_append)
  from set_byte_owned [OF m2(3) i, of asg] u obtain b3 where
    w: "set_byte m2 a' (length ?j + ?n) asg = Some (putb m2 a' b3)" "owned (putb m2 a' b3) a' (join sep asg (es @ [x]) @ tl y)" by auto
  have sa: "asep p = sep" "aassign p = asg" using p by (simp_all add: pst_def)
  let ?p = "p\<lparr>abase := Buf a', alen := length ?j + ?n + 1, afirst := (if length ?j \<noteq> 0 then afirst p else ?n mod 256),
    aflags := flag_value True False\<rparr>"
  have wr: "int_size (int ?n) = ?n" "wrap (length ?j + ?n) = length ?j + ?n" "wrap (length ?j + ?n + 1) = length ?j + ?n + 1"
    using l by (simp_all add: int_size_def)
  have bb: "base_bytes m (Buf a) = Some (bdata b)" using b(1) by (simp add: base_bytes_def)
  have us: "usub (bused b) (length ?j) = ?n + length y" using b(2) by simp
  have "mpt_path_add mal m p (int ?n) = Some (0, putb m2 a' b3, ?p)"
    using buf b(1) us mc r(1) m2(1) w(1) sa wr bb
    by (cases "es = []") (simp_all add: mpt_path_add_def Let_def)
  moreover have "pst sep asg (putb m2 a' b3) ?p (es @ [x]) (tl y) False"
  proof -
    have "length (join sep asg (es @ [x])) = length ?j + ?n + 1" using jl by (simp add: join_snoc)
    moreover have "(if length ?j \<noteq> 0 then afirst p else ?n mod 256) = length (hd (es @ [x])) mod 256"
      using p by (cases es) (auto simp: pst_def)
    ultimately show ?thesis using p w(2) x mem_ok_putb [OF m2(2)] buf(8) by (auto simp: pst_def intro!: exI [of _ asg])
  qed
  ultimately show ?thesis by blast
qed

lemma del_loop_scan:
  "take (length j + length e + 1) d = j @ e @ [t] \<Longrightarrow> sep \<notin> set e \<Longrightarrow> j = [] \<or> last j = sep \<Longrightarrow>
    del_loop d sep 0 (Suc (length j + length e)) part = Some (length j, part + length e)"
proof (induction e arbitrary: t part rule: rev_induct)
  case Nil
  have len: "length j < length d" using arg_cong [OF Nil(1), of length] by simp
  show ?case
  proof (cases j rule: rev_cases)
    case (snoc k y)
    then have "y = sep" using Nil(3) by simp
    moreover have "d ! length k = y"
    proof -
      have "take (length j + 1) d ! length k = (j @ [t]) ! length k" using Nil(1) by simp
      then show ?thesis using snoc by (simp add: nth_append)
    qed
    ultimately show ?thesis using snoc len by simp
  qed simp
next
  case (snoc x e)
  let ?n = "length j + length e"
  have "take (?n + 1) (take (?n + 2) d) = j @ e @ [x]" using snoc.prems(1) by (simp add: take_Suc_conv_app_nth)
  then have t: "take (?n + 1) d = j @ e @ [x]" by simp
  have len: "?n < length d"
  proof -
    have "length (take (?n + 1) d) = ?n + 1" unfolding t by simp
    then show ?thesis by simp
  qed
  have "take (?n + 1) d ! ?n = x" unfolding t by (simp add: nth_append)
  then have "d ! ?n = x" by simp
  moreover have "x \<noteq> sep" using snoc.prems(2) by auto
  ultimately show ?case using snoc.IH [OF t, of "part + 1"] snoc.prems len by simp
qed

lemma del_pst:
  assumes p: "pst sep asg m p (es @ [e]) post keep" and al: "always_ok mal" and sz: "path_size (es @ [e]) post < 2 ^ 63"
  shows "\<exists>m' p'. mpt_path_del mal m p = Some (int (length e), m', p') \<and> pst sep asg m' p' es [] False"
  using p
proof (cases rule: pstE)
  case null
  then show ?thesis by simp
next
  case (buf a t)
  let ?j = "join sep sep es"
  have j: "join sep t (es @ [e]) = ?j @ e @ [t]" by (rule join_snoc)
  from buf(2) obtain b where b: "getb m a = Some b" "raw_ok b" "bref b = 1" "content b = join sep t (es @ [e]) @ post"
    "bused b = length (join sep t (es @ [e]) @ post)"
    "join sep t (es @ [e]) @ post = take (length (join sep t (es @ [e]) @ post)) (bdata b)" by (rule ownedE) blast
  have "take (length ?j + length e + 1) (join sep t (es @ [e]) @ post) = ?j @ e @ [t]" by (simp add: j)
  then have tk: "take (length ?j + length e + 1) (bdata b) = ?j @ e @ [t]" by (subst (asm) b(6)) (simp add: j min_def)
  have sp: "sep \<notin> set e" and sa: "asep p = sep" using p by (simp_all add: pst_def)
  have lj: "?j = [] \<or> last ?j = sep" by (simp add: join_def)
  have ln: "alen p = Suc (length ?j + length e)" using buf(4) by (simp add: j)
  have dl: "del_loop (bdata b) (asep p) (aoff p) (alen p) 0 = Some (length ?j, length e)"
    using del_loop_scan [OF tk sp lj, of 0] buf(8) sa ln by simp
  have al': "alloc_ok mal m" using buf(7) al by (simp add: always_ok_def)
  have us: "bused b < 2 ^ 63" using b(5) sz path_size_join [of sep t "es @ [e]" post] by simp
  have lu: "length ?j \<le> bused b" using b(5) by (simp add: j)
  have h: "0 + length ?j < 2 ^ 63" "bused b < 2 ^ 63" "bref b = 1 \<or> bflags b AND BufferNoCopy = 0" using us lu b(3) by simp_all
  from array_slice_raw [OF b(1,2) al' h] lu obtain a' b' m' where
    s: "mpt_array_slice mal m a 0 (length ?j) = Some (Some 0, a', m')" "getb m' a' = Some b'" "raw_ok b'" "content b' = content b"
      "bref b' = 1" "private_copy m a b a' m'" "bflags b' AND BufferImmutable = 0" by auto
  let ?p = "p\<lparr>abase := Buf a', alen := length ?j, afirst := (if length ?j = 0 then 0 else afirst p),
    aflags := flag_value True False\<rparr>"
  have o: "owned m' a' (content b)" using s by (intro ownedI)
  have "owned (putb m' a' (b'\<lparr>bused := length ?j\<rparr>)) a' (take (length ?j) (content b))"
    using owned_used [OF s(2) o, of "length ?j"] content_length [OF b(2)] lu by simp
  then have o2: "owned (putb m' a' (b'\<lparr>bused := length ?j\<rparr>)) a' ?j" using b(4) j by simp
  have bb: "base_bytes m (Buf a) = Some (bdata b)" using b(1) by (simp add: base_bytes_def)
  have "mpt_path_del mal m p = Some (int (length e), putb m' a' (b'\<lparr>bused := length ?j\<rparr>), ?p)"
    using buf b(1) dl ln bb s(1,2) lu by (simp add: mpt_path_del_def)
  moreover have "pst sep asg (putb m' a' (b'\<lparr>bused := length ?j\<rparr>)) ?p es [] False"
  proof -
    have "afirst ?p = (if es = [] then 0 else length (hd es) mod 256)" using p by (cases es) (auto simp: pst_def)
    then show ?thesis using p o2 mem_ok_putb [OF mem_ok_private [OF buf(7) s(6)]] buf(8)
      by (auto simp: pst_def intro!: exI [of _ sep])
  qed
  ultimately show ?thesis by blast
qed

lemma fini_pst:
  assumes p: "pst sep asg m p es post keep"
  shows "\<exists>m'. apath_fini m p = Some (m', p\<lparr>aflags := flag_value False keep, aoff := 0, alen := 0, abase := Null\<rparr>) \<and>
    mem_ok m' \<and> (\<forall>a. abase p = Buf a \<longrightarrow> getb m' a = None)"
  using p
proof (cases rule: pstE)
  case null
  then show ?thesis by (simp add: apath_fini_def)
next
  case (buf a t)
  from buf(2) obtain b where b: "getb m a = Some b" "raw_ok b" "bref b = 1" by (rule ownedE) blast
  let ?m = "m\<lparr>bufs := (bufs m)(a := None), fins := fins m\<rparr>"
  have "buffer_alloc_unref m a = Some ?m" using b by (simp add: buffer_alloc_unref_def mpt_refcount_lower_def raw_ok_def)
  moreover have "mem_ok ?m"
  proof -
    have "{c. getb ?m c \<noteq> None} \<subseteq> {c. getb m c \<noteq> None}" by (auto simp: getb_def)
    then show ?thesis using buf(7) by (auto simp: mem_ok_def intro: finite_subset)
  qed
  moreover have "getb ?m a = None" by (simp add: getb_def)
  ultimately show ?thesis using buf by (simp add: apath_fini_def)
qed

section \<open>Sequences of operations\<close>

datatype path_op = AddChar int | DelChar | MarkValid | AddPart nat | DelPart | Invalidate

text \<open>The code, with the results of \<open>mpt_path_addchar\<close> and \<open>mpt_path_invalidate\<close> reduced to their sign.\<close>

definition sign :: "int \<times> bmem \<times> apath \<Rightarrow> int \<times> bmem \<times> apath" where
  "sign r = (min 0 (fst r), snd r)"

definition path_step :: "malloc \<Rightarrow> path_op \<Rightarrow> bmem \<times> apath \<Rightarrow> (int \<times> bmem \<times> apath) option" where
  "path_step mal oper st = (let (m, p) = st in case oper of
     AddChar c \<Rightarrow> map_option sign (mpt_path_addchar mal m p c)
   | DelChar \<Rightarrow> mpt_path_delchar mal m p
   | MarkValid \<Rightarrow> (let (r, p) = apath_valid m p in Some (r, m, p))
   | AddPart n \<Rightarrow> mpt_path_add mal m p (int n)
   | DelPart \<Rightarrow> mpt_path_del mal m p
   | Invalidate \<Rightarrow> map_option sign (mpt_path_invalidate mal m p))"

fun path_run :: "malloc \<Rightarrow> path_op list \<Rightarrow> bmem \<times> apath \<Rightarrow> (int list \<times> bmem \<times> apath) option" where
  "path_run mal [] st = Some ([], st)"
| "path_run mal (x # xs) st = do {
     (r, st) \<leftarrow> path_step mal x st;
     (rs, st) \<leftarrow> path_run mal xs st;
     Some (r # rs, st) }"

text \<open>The elements, the collected bytes, whether they are kept, and whether the path has a buffer: without
  one no element can be added, with one also an empty element to an empty path.\<close>

type_synonym path_state = "block list \<times> block \<times> bool \<times> bool"

fun spec_step :: "byte \<Rightarrow> path_op \<Rightarrow> path_state \<Rightarrow> int \<times> path_state" where
  "spec_step sep (AddChar c) (es, post, keep, buf) = (0, es, put_char post keep (word_of_int c), keep, True)"
| "spec_step sep DelChar (es, post, keep, buf) =
     (if post = [] then (MissingData, es, post, keep, buf) else (sint (last post), es, butlast post, keep, buf))"
| "spec_step sep MarkValid (es, post, keep, buf) = (int (length post), es, post, keep \<or> post \<noteq> [], buf)"
| "spec_step sep (AddPart n) (es, post, keep, buf) =
     (if \<not> buf then (MissingBuffer, es, post, keep, buf)
      else if n > length post \<or> sep \<in> set (take n post) then (BadValue, es, post, keep, buf)
      else (0, es @ [take n post], drop (Suc n) post, False, buf))"
| "spec_step sep DelPart (es, post, keep, buf) =
     (if es = [] then (MissingData, es, post, keep, buf) else (int (length (last es)), butlast es, [], False, buf))"
| "spec_step sep Invalidate (es, post, keep, buf) = (0, es, [], False, buf)"

fun spec_run :: "byte \<Rightarrow> path_op list \<Rightarrow> path_state \<Rightarrow> int list \<times> path_state" where
  "spec_run sep [] st = ([], st)"
| "spec_run sep (x # xs) st =
     (let (r, st) = spec_step sep x st; (rs, st) = spec_run sep xs st in (r # rs, st))"

text \<open>Paths with a state of the specification.\<close>

definition path_rep :: "byte \<Rightarrow> byte \<Rightarrow> bmem \<Rightarrow> apath \<Rightarrow> path_state \<Rightarrow> bool" where
  "path_rep sep asg m p st \<longleftrightarrow> (case st of (es, post, keep, buf) \<Rightarrow> pst sep asg m p es post keep \<and> buf = (abase p \<noteq> Null))"

lemma path_rep_init: "mem_ok m \<Longrightarrow> path_rep 46 0 m APATH_INIT ([], [], False, False)"
  using pst_init [of m] by (simp add: path_rep_def APATH_INIT_def)

text \<open>Removal of parts and of collected bytes keeps a buffer.\<close>

lemma del_base: "mpt_path_del mal m p = Some (r, m', p') \<Longrightarrow> abase p' = Null \<longleftrightarrow> abase p = Null"
  by (auto simp: mpt_path_del_def array_of_def Let_def split: if_splits bind_splits sum.splits option.splits prod.splits pref.splits)

lemma invalidate_base: "mpt_path_invalidate mal m p = Some (r, m', p') \<Longrightarrow> abase p' = Null \<longleftrightarrow> abase p = Null"
  by (auto simp: mpt_path_invalidate_def Let_def split: if_splits bind_splits option.splits prod.splits)

lemma valid_base: "abase (snd (apath_valid m p)) = abase p"
  by (simp add: apath_valid_def split: prod.split)

lemma delchar_none:
  assumes "pst sep asg m p es [] keep"
  shows "mpt_path_delchar mal m p = Some (MissingData, m, p)"
  using assms
proof (cases rule: pstE)
  case (buf a t)
  from buf(2) obtain b where "getb m a = Some b" "bused b = length (join sep t es @ [])" by (rule ownedE) blast
  with buf show ?thesis by (simp add: mpt_path_delchar_def)
qed (simp add: mpt_path_delchar_def)

lemma del_none: "pst sep asg m p [] post keep \<Longrightarrow> mpt_path_del mal m p = Some (MissingData, m, p)"
  by (auto simp: mpt_path_del_def pst_def join_def)

lemma memchr_found:
  assumes "take n (drop k d) = x" "k + n \<le> length d" "c \<in> set x"
  shows "\<exists>i. memchr_at d k c n = Some (Some i)"
proof -
  have "length x = n" using assms(1,2) by auto
  moreover have "length (takeWhile (\<lambda>y. y \<noteq> c) x) \<noteq> length x"
  proof
    assume "length (takeWhile (\<lambda>y. y \<noteq> c) x) = length x"
    then have "takeWhile (\<lambda>y. y \<noteq> c) x = x" by (metis append_eq_conv_conj takeWhile_dropWhile_id take_all order_refl)
    with assms(3) show False by (auto simp: takeWhile_eq_all_conv)
  qed
  moreover have "length (takeWhile (\<lambda>y. y \<noteq> c) x) \<le> length x" by (rule length_takeWhile_le)
  ultimately show ?thesis using assms(1,2) by (simp add: memchr_at_def Let_def)
qed

lemma add_refused:
  assumes p: "pst sep asg m p es post keep" and ne: "abase p \<noteq> Null" and bad: "n > length post \<or> sep \<in> set (take n post)"
    and sz: "n < 2 ^ 63"
  shows "mpt_path_add mal m p (int n) = Some (BadValue, m, p)"
  using p
proof (cases rule: pstE)
  case null
  then show ?thesis using ne by simp
next
  case (buf a t)
  let ?j = "join sep t es"
  from buf(2) obtain b where b: "getb m a = Some b" "bused b = length (?j @ post)" "bused b \<le> bsize b"
    "?j @ post = take (length (?j @ post)) (bdata b)" by (rule ownedE) blast
  have us: "usub (bused b) (length ?j) = length post" using b(2) by simp
  have i: "int_size (int n) = n" using sz by (simp add: int_size_def)
  show ?thesis
  proof (cases "n > length post")
    case True
    then show ?thesis using buf b(1) us i by (simp add: mpt_path_add_def Let_def)
  next
    case False
    have d: "bdata b = (?j @ post) @ drop (length (?j @ post)) (bdata b)" using b(4) append_take_drop_id by metis
    have "take n (drop (length ?j) (bdata b)) = take n post" using False by (subst d) simp
    then obtain k where "memchr_at (bdata b) (length ?j) sep n = Some (Some k)"
      using memchr_found [of n "length ?j" "bdata b" "take n post" sep] False bad b(2,3) by (auto simp: bsize_def)
    moreover have "asep p = sep" using p by (simp add: pst_def)
    ultimately show ?thesis using buf b(1) us i False by (simp add: mpt_path_add_def Let_def base_bytes_def)
  qed
qed

lemma path_step_spec:
  assumes rp: "path_rep sep asg m p (es, post, keep, buf)" and al: "always_ok mal" and sz: "path_size es post + 1 < 2 ^ 62"
    and sp: "spec_step sep oper (es, post, keep, buf) = (r, es', post', keep', buf')" and n: "\<And>k. oper = AddPart k \<Longrightarrow> k < 2 ^ 63"
  shows "\<exists>m' p'. path_step mal oper (m, p) = Some (r, m', p') \<and> path_rep sep asg m' p' (es', post', keep', buf') \<and>
    path_size es' post' \<le> path_size es post + 1"
proof -
  have s1: "path_size es post + 1 < 2 ^ 63" using sz by simp
  have js: "length (join 0 0 (fs @ [f])) = length (join 0 0 fs) + length f + 1" for fs f
    using join_length [of 0 0 fs 0 0] by (simp add: join_snoc)
  have p: "pst sep asg m p es post keep" and bf: "buf = (abase p \<noteq> Null)" using rp by (simp_all add: path_rep_def)
  have nn: "abase q \<noteq> Null" if "pst sep asg k q fs qs kp" "fs \<noteq> [] \<or> qs \<noteq> []" for k q fs qs kp
    using that by (auto simp: pst_def)
  show ?thesis
  proof (cases oper)
    case (AddChar c)
    from addchar_pst [OF p al s1, of c] obtain x m' p' where
      x: "mpt_path_addchar mal m p c = Some (x, m', p')" "0 \<le> x" "pst sep asg m' p' es (put_char post keep (word_of_int c)) keep" by blast
    have "put_char post keep (word_of_int c) \<noteq> []" by (simp add: put_char_def)
    then have "abase p' \<noteq> Null" using nn [OF x(3)] by blast
    moreover have "length (put_char post keep (word_of_int c)) \<le> length post + 1" by (auto simp: put_char_def)
    ultimately show ?thesis using AddChar sp x by (auto simp: path_step_def sign_def path_size_def path_rep_def)
  next
    case DelChar
    show ?thesis
    proof (cases post rule: rev_cases)
      case Nil
      then show ?thesis using DelChar sp p bf delchar_none [of sep asg m p es keep mal] by (auto simp: path_step_def path_rep_def)
    next
      case (snoc q x)
      with delchar_pst [of sep asg m p es q x keep mal] p bf DelChar sp show ?thesis
        by (auto simp: path_step_def path_size_def path_rep_def)
    qed
  next
    case MarkValid
    from valid_pst [OF p] obtain p' where "apath_valid m p = (int (length post), p')" "pst sep asg m p' es post (keep \<or> post \<noteq> [])" by blast
    moreover from this(1) have "abase p' = abase p" using valid_base [of m p] by simp
    ultimately show ?thesis using MarkValid sp bf by (auto simp: path_step_def path_rep_def)
  next
    case (AddPart i)
    then have i: "i < 2 ^ 63" using n by simp
    show ?thesis
    proof (cases buf)
      case False
      then have "abase p = Null" using bf by simp
      then have "mpt_path_add mal m p (int i) = Some (MissingBuffer, m, p)" by (simp add: mpt_path_add_def)
      then show ?thesis using False AddPart sp rp by (auto simp: path_step_def)
    next
      case True
      then have ne: "abase p \<noteq> Null" using bf by simp
      show ?thesis
      proof (cases "i > length post \<or> sep \<in> set (take i post)")
        case refused: True
        from add_refused [OF p ne refused i, of mal] have "mpt_path_add mal m p (int i) = Some (BadValue, m, p)" .
        moreover have "r = BadValue" "es' = es" "post' = post" "keep' = keep" "buf' = buf" using refused sp AddPart True by auto
        ultimately show ?thesis using rp AddPart by (auto simp: path_step_def)
      next
        case False
        then have f: "sep \<notin> set (take i post)" "length (take i post) = i" by auto
        have p2: "pst sep asg m p es (take i post @ drop i post) keep" using p by simp
        have s2: "path_size es (take i post @ drop i post) + 1 < 2 ^ 63" using s1 by simp
        from add_pst [OF p2 ne f(1) al s2] f(2) obtain m' p' where
          a: "mpt_path_add mal m p (int i) = Some (0, m', p')" "pst sep asg m' p' (es @ [take i post]) (drop (Suc i) post) False"
          by (auto simp: drop_Suc tl_drop)
        have "r = 0" "es' = es @ [take i post]" "post' = drop (Suc i) post" "keep' = False" "buf'" using False sp AddPart True by auto
        moreover have "path_size (es @ [take i post]) (drop (Suc i) post) \<le> path_size es post + 1"
          using f(2) False by (auto simp: path_size_def js)
        moreover have "abase p' \<noteq> Null" using nn [OF a(2)] by simp
        ultimately show ?thesis using a AddPart by (auto simp: path_step_def path_rep_def)
      qed
    qed
  next
    case DelPart
    show ?thesis
    proof (cases es rule: rev_cases)
      case Nil
      then show ?thesis using DelPart sp rp p del_none [of sep asg m p post keep mal] by (auto simp: path_step_def)
    next
      case (snoc fs f)
      have s2: "path_size (fs @ [f]) post < 2 ^ 63" using s1 snoc by simp
      from del_pst [OF p [unfolded snoc] al s2] obtain m' p' where
        d: "mpt_path_del mal m p = Some (int (length f), m', p')" "pst sep asg m' p' fs [] False" by blast
      show ?thesis using DelPart sp snoc d del_base [OF d(1)] bf by (auto simp: path_step_def path_size_def js path_rep_def)
    qed
  next
    case Invalidate
    from invalidate_pst [OF p, of mal] obtain x m' p' where
      v: "mpt_path_invalidate mal m p = Some (x, m', p')" "0 \<le> x" "pst sep asg m' p' es [] False" by blast
    show ?thesis using Invalidate sp v invalidate_base [OF v(1)] bf by (auto simp: path_step_def sign_def path_size_def path_rep_def)
  qed
qed

section \<open>Properties\<close>



end
