(* ===== verification/Parser.thy ===== *)
theory Parser
  imports PathArray
begin

text \<open>
  The configuration parser: \<open>mptcore/parse/\<close> (\<open>parse_getchar.c\<close>, \<open>parse_nextvis.c\<close>, \<open>parse_endline.c\<close>,
  \<open>parse_ncheck.c\<close>, \<open>parse_accept.c\<close>, \<open>parse_format.c\<close>, \<open>parse_next_fcn.c\<close>, \<open>parse_data.c\<close>, \<open>parse_option.c\<close>,
  \<open>parse_format_pre.c\<close>, \<open>parse_format_enc.c\<close>, \<open>parse_format_sep.c\<close>, \<open>parse_config.c\<close>, \<open>getchar_file.c\<close>,
  \<open>getchar_stdio.c\<close>).

  The source of characters is the list of the results of successive calls of \<open>getc\<close>; behind its end the
  source reports \<open>-2\<close> as \<open>mpt_getchar_file\<close> and \<open>mpt_getchar_stdio\<close> do.  The state of a parser is the
  context of the source extended by the memory and the path the parser works on.  The loops over
  characters are partial functions, theorems state that they return.
\<close>

unbundle bit_operations_syntax

section \<open>Format and context\<close>

record parser_format =
  sstart :: byte
  send :: byte
  ostart :: byte
  fassign :: byte
  oend :: byte
  esc :: "byte list"
  com :: "byte list"

definition MPT_PARSER_FORMAT_INIT :: parser_format where
  "MPT_PARSER_FORMAT_INIT = \<lparr>sstart = 123, send = 125, ostart = 0, fassign = 61, oend = 0, esc = [34, 39, 0], com = [35, 0, 0, 0]\<rparr>"

definition MPT_iscomment :: "parser_format \<Rightarrow> int \<Rightarrow> bool" where
  "MPT_iscomment f c \<longleftrightarrow> c \<noteq> 0 \<and> c \<in> uint ` set (com f)"

definition MPT_isescape :: "parser_format \<Rightarrow> int \<Rightarrow> bool" where
  "MPT_isescape f c \<longleftrightarrow> c \<noteq> 0 \<and> c \<in> uint ` set (esc f)"

abbreviation (input) NameNumStart :: "16 word" where "NameNumStart \<equiv> 0x1"
abbreviation (input) NameNumCont :: "16 word" where "NameNumCont \<equiv> 0x2"
abbreviation (input) NameNumeral :: "16 word" where "NameNumeral \<equiv> 0x3"
abbreviation (input) NameSpecial :: "16 word" where "NameSpecial \<equiv> 0x4"
abbreviation (input) NameSpace :: "16 word" where "NameSpace \<equiv> 0x8"
abbreviation (input) NameEmpty :: "16 word" where "NameEmpty \<equiv> 0x10"
abbreviation (input) NameBinary :: "16 word" where "NameBinary \<equiv> 0x20"

abbreviation (input) ParseSection :: int where "ParseSection \<equiv> 0x1"
abbreviation (input) ParseSectEnd :: int where "ParseSectEnd \<equiv> 0x2"
abbreviation (input) ParseOption :: int where "ParseOption \<equiv> 0x3"
abbreviation (input) ParseData :: int where "ParseData \<equiv> 0x4"
abbreviation (input) ParseName :: int where "ParseName \<equiv> 0x8"

record parser_context =
  inp :: "int list"
  pline :: nat
  psect :: "16 word"
  popt :: "16 word"
  pvalid :: nat
  pprev :: int
  pcurr :: int

record pstate = parser_context +
  pmem :: bmem
  ppath :: apath

definition bump :: "nat \<Rightarrow> nat" where
  "bump n = (if n = 0 then 1 else n)"

section \<open>Characters\<close>

text \<open>The result of \<open>read\<close> with the byte, and the result of \<open>fgetc\<close> with the state of the file.\<close>

definition mpt_getchar_file :: "int \<Rightarrow> byte \<Rightarrow> int" where
  "mpt_getchar_file r c = (if r = 1 then uint c else if r \<noteq> 0 then - 1 else - 2)"

definition mpt_getchar_stdio :: "int \<Rightarrow> bool \<Rightarrow> int" where
  "mpt_getchar_stdio r feof = (if r = - 1 then (if feof then - 2 else - 1) else r)"

fun endline_loop :: "int list \<Rightarrow> int \<Rightarrow> nat \<Rightarrow> int \<times> int list \<times> nat" where
  "endline_loop [] len line = (- 2, [], line)"
| "endline_loop (x # xs) len line =
     (if x = 10 then (len, xs, line + 1) else if x < 0 then (x, xs, line) else endline_loop xs (len + 1) line)"

definition mpt_parse_endline :: "pstate \<Rightarrow> int \<times> pstate" where
  "mpt_parse_endline st = (let (r, xs, l) = endline_loop (inp st) 0 (bump (pline st)) in (r, st\<lparr>inp := xs, pline := l\<rparr>))"

lemma endline_loop_length: "(r, ys, l) = endline_loop xs len line \<Longrightarrow> length ys < Suc (length xs)"
  by (induction xs len line rule: endline_loop.induct) (auto split: if_splits)

function nextvis_loop :: "byte list \<Rightarrow> int list \<Rightarrow> nat \<Rightarrow> int \<times> int list \<times> nat" where
  "nextvis_loop cm [] line = (- 2, [], line)"
| "nextvis_loop cm (x # xs) line =
     (if x \<le> 0 then (x, xs, line)
      else let line = (if x = 10 then line + 1 else line) in
        if isspace x then nextvis_loop cm xs line
        else if cm \<noteq> [] \<and> word_of_int x \<in> set cm then
          (let (r, ys, l) = endline_loop xs 0 (bump line) in if r < 0 then (r, ys, l) else nextvis_loop cm ys l)
        else (x, xs, line))"
  by pat_completeness auto
termination by (relation "measure (\<lambda>(cm, xs, line). length xs)") (auto dest: endline_loop_length)

definition mpt_parse_nextvis :: "byte list \<Rightarrow> pstate \<Rightarrow> int \<times> pstate" where
  "mpt_parse_nextvis cm st =
     (let (r, xs, l) = nextvis_loop cm (inp st) (bump (pline st)) in (r, st\<lparr>inp := xs, pline := l\<rparr>))"

text \<open>Operations on the path of a parser.\<close>

definition on_path :: "(bmem \<Rightarrow> apath \<Rightarrow> (int \<times> bmem \<times> apath) option) \<Rightarrow> pstate \<Rightarrow> (int \<times> pstate) option" where
  "on_path f st = do { (r, m, p) \<leftarrow> f (pmem st) (ppath st); Some (r, st\<lparr>pmem := m, ppath := p\<rparr>) }"

definition set_valid :: "pstate \<Rightarrow> pstate" where
  "set_valid st = (let (r, p) = apath_valid (pmem st) (ppath st) in st\<lparr>ppath := p, pvalid := nat (r mod 2 ^ 16)\<rparr>)"

definition mpt_parse_getchar :: "malloc \<Rightarrow> pstate \<Rightarrow> (int \<times> pstate) option" where
  "mpt_parse_getchar mal st =
     (let st = st\<lparr>pline := bump (pline st)\<rparr> in
      case inp st of [] \<Rightarrow> Some (- 2, st)
      | x # xs \<Rightarrow>
        let st = st\<lparr>inp := xs\<rparr> in
        if x \<le> 0 then Some (x, st)
        else let st = (if x = 10 then st\<lparr>pline := pline st + 1\<rparr> else st) in do {
          (r, st) \<leftarrow> on_path (\<lambda>m p. mpt_path_addchar mal m p x) st;
          Some (if r < 0 then - 1 else x, st) })"

section \<open>Names\<close>

fun ncheck_loop :: "nat \<Rightarrow> byte list \<Rightarrow> nat \<Rightarrow> 16 word \<Rightarrow> int option" where
  "ncheck_loop i name 0 fl = Some 0"
| "ncheck_loop i [] (Suc n) fl = None"
| "ncheck_loop i (c # cs) (Suc n) fl =
     (if isspace (uint c) then if fl AND NameSpace = 0 then Some BadType else ncheck_loop (Suc i) cs n fl
      else if isdigit (uint c) then
        if fl AND (if i \<noteq> 0 then NameNumCont else NameNumStart) = 0 then Some BadValue else ncheck_loop (Suc i) cs n fl
      else if \<not> isprint (uint c) then if fl AND NameBinary = 0 then Some BadValue else ncheck_loop (Suc i) cs n fl
      else if \<not> isalnum (uint c) then if fl AND NameSpecial = 0 then Some BadValue else ncheck_loop (Suc i) cs n fl
      else ncheck_loop (Suc i) cs n fl)"

definition mpt_parse_ncheck :: "byte list option \<Rightarrow> nat \<Rightarrow> 16 word \<Rightarrow> int option" where
  "mpt_parse_ncheck name len fl =
     (if len = 0 then Some (if fl AND NameEmpty = 0 then MissingData else 0)
      else case name of None \<Rightarrow> Some BadArgument | Some s \<Rightarrow> ncheck_loop 0 s len fl)"

text \<open>The flag of a letter; the loop of \<open>mpt_parse_accept\<close> with the position, section and option flags.\<close>

definition accept_flag :: "int \<Rightarrow> (16 word) option" where
  "accept_flag c =
     (if c = 102 then Some NameNumStart else if c = 99 then Some NameNumCont else if c = 110 then Some NameNumeral
      else if c = 115 then Some NameSpecial else if c = 119 then Some NameSpace else if c = 101 then Some NameEmpty
      else if c = 98 then Some NameBinary else None)"

fun accept_loop :: "byte list \<Rightarrow> nat \<Rightarrow> 16 word \<Rightarrow> 16 word \<Rightarrow> (int \<times> 16 word \<times> 16 word) option" where
  "accept_loop [] n sect opt = None"
| "accept_loop (c # cs) n sect opt =
     (if c = 0 \<or> isspace (uint c) then Some (int n, sect, opt)
      else case accept_flag (tolower (uint c)) of None \<Rightarrow> Some (- 2, sect, opt)
      | Some t \<Rightarrow> if isupper (uint c) then accept_loop cs (n + 1) (sect OR t) opt else accept_loop cs (n + 1) sect (opt OR t))"

text \<open>The result with the section and option flags of the context.\<close>

definition mpt_parse_accept :: "16 word \<times> 16 word \<Rightarrow> byte list option \<Rightarrow> (int \<times> 16 word \<times> 16 word) option" where
  "mpt_parse_accept flg name =
     (case name of None \<Rightarrow> Some (0, 0xff, 0xff)
      | Some [] \<Rightarrow> None
      | Some (c # cs) \<Rightarrow>
        if c = 0 then Some (0, NameNumCont, NameNumCont)
        else do { (r, s, t) \<leftarrow> accept_loop (c # cs) 0 0 0; Some (if r < 0 then (r, flg) else (r, s, t)) })"

text \<open>The check of the collected characters behind the path.\<close>

definition check_name :: "16 word \<Rightarrow> nat \<Rightarrow> pstate \<Rightarrow> int option" where
  "check_name fl len st =
     (let p = ppath st in
      if abase p = Null then mpt_parse_ncheck None len fl
      else do {
        b \<leftarrow> base_bytes (pmem st) (abase p);
        if apath_end p \<le> length b then mpt_parse_ncheck (Some (drop (apath_end p) b)) len fl else None })"

section \<open>Format descriptions\<close>

definition str_at :: "byte list \<Rightarrow> nat \<Rightarrow> byte option" where
  "str_at s i = (if i < length s then Some (s ! i) else None)"

definition fmt_char :: "byte \<Rightarrow> byte" where
  "fmt_char c = (if isspace (uint c) then 0 else c)"

text \<open>Up to \<open>n\<close> characters until a space or the end, padded with zero bytes, and the rest.\<close>

fun fmt_chars :: "nat \<Rightarrow> byte list \<Rightarrow> (byte list \<times> byte list) option" where
  "fmt_chars n [] = None"
| "fmt_chars n (c # cs) =
     (if c = 0 \<or> isspace (uint c) \<or> n = 0 then Some (replicate n 0, c # cs)
      else do { (x, r) \<leftarrow> fmt_chars (n - 1) cs; Some (c # x, r) })"

definition mpt_parse_format :: "byte list option \<Rightarrow> (int \<times> parser_format) option" where
  "mpt_parse_format str =
     (case str of None \<Rightarrow> Some (42, MPT_PARSER_FORMAT_INIT)
      | Some s \<Rightarrow> do {
          c0 \<leftarrow> str_at s 0;
          c1 \<leftarrow> (if c0 \<noteq> 0 then str_at s 1 else Some 0);
          let f = MPT_PARSER_FORMAT_INIT\<lparr>sstart := (if c0 \<noteq> 0 then fmt_char c0 else sstart MPT_PARSER_FORMAT_INIT)\<rparr>;
          let ret = (if c1 \<noteq> 0 then sint c1 else 42);
          c2 \<leftarrow> str_at s 2;
          if c2 = 0 then Some (ret, f)
          else do {
            let f = f\<lparr>send := fmt_char c2\<rparr>;
            c3 \<leftarrow> str_at s 3;
            if c3 = 0 then Some (ret, f)
            else do {
              let f = f\<lparr>ostart := fmt_char c3\<rparr>;
              c4 \<leftarrow> str_at s 4;
              if c4 = 0 then Some (ret, f)
              else do {
                let f = f\<lparr>fassign := fmt_char c4\<rparr>;
                c5 \<leftarrow> str_at s 5;
                if c5 = 0 then Some (ret, f)
                else do {
                  let f = f\<lparr>oend := fmt_char c5\<rparr>;
                  c6 \<leftarrow> str_at s 6;
                  if c6 = 0 then Some (ret, f)
                  else do {
                    (x, r) \<leftarrow> fmt_chars 4 (drop 6 s);
                    let f = f\<lparr>com := x\<rparr>;
                    let r = dropWhile (\<lambda>c. isspace (uint c)) r;
                    c \<leftarrow> str_at r 0;
                    if c = 0 then Some (ret, f)
                    else do { (y, _) \<leftarrow> fmt_chars 3 r; Some (ret, f\<lparr>esc := y\<rparr>) } } } } } } })"

section \<open>Values and options\<close>

text \<open>The loop of \<open>mpt_parse_data\<close> returns the character that ends it.\<close>

partial_function (option) data_loop :: "malloc \<Rightarrow> parser_format \<Rightarrow> pstate \<Rightarrow> int \<Rightarrow> int \<Rightarrow> (int \<times> pstate) option" where
  "data_loop mal f st match lst = do {
     (cur, st) \<leftarrow> mpt_parse_getchar mal st;
     if cur < 0 then Some (cur, st)
     else if match \<noteq> 0 then
       (if cur = match then do {
          (_, st) \<leftarrow> on_path (mpt_path_delchar mal) st;
          if lst \<noteq> 92 then data_loop mal f (set_valid st) 0 cur
          else do {
            (_, st) \<leftarrow> on_path (mpt_path_delchar mal) st;
            (_, st) \<leftarrow> on_path (\<lambda>m p. mpt_path_addchar mal m p cur) st;
            data_loop mal f (set_valid st) match cur } }
        else data_loop mal f (set_valid st) match cur)
     else if MPT_isescape f cur then data_loop mal f st cur cur
     else if cur = uint (oend f) then Some (cur, st)
     else if cur = 10 then Some (cur, st)
     else if oend f = 0 \<and> MPT_iscomment f cur \<and> isspace lst then Some (cur, snd (mpt_parse_endline st))
     else if \<not> isspace cur then data_loop mal f (set_valid st) match cur
     else data_loop mal f st match cur }"

definition mpt_parse_data :: "malloc \<Rightarrow> parser_format \<Rightarrow> pstate \<Rightarrow> (int \<times> pstate) option" where
  "mpt_parse_data mal f st = do {
     (cur, st) \<leftarrow> data_loop mal f st 0 (- 1);
     if oend f \<noteq> 0 \<and> cur \<noteq> uint (oend f) then Some (BadValue, st\<lparr>pcurr := ParseData\<rparr>)
     else Some (int (pvalid st), st) }"

text \<open>The end of an option name: its check, the new path element and the value; \<open>e\<close> is the error result
  for a path that cannot be extended.\<close>

definition option_value :: "malloc \<Rightarrow> parser_format \<Rightarrow> int \<Rightarrow> pstate \<Rightarrow> (int \<times> pstate) option" where
  "option_value mal f e st = do {
     k \<leftarrow> check_name (popt st) (pvalid st) st;
     if k < 0 then Some (BadType, st)
     else do {
       (r, st) \<leftarrow> on_path (\<lambda>m p. mpt_path_add mal m p (int (pvalid st))) st;
       if r < 0 then Some (e, st)
       else do {
         (_, st) \<leftarrow> on_path (mpt_path_invalidate mal) st;
         (cur, st) \<leftarrow> mpt_parse_data mal f (st\<lparr>pvalid := 0\<rparr>);
         Some (if cur < 0 then cur else if cur = 0 then ParseOption else 0x7, st) } } }"

text \<open>The end of an option without assignment.\<close>

definition option_break :: "pstate \<Rightarrow> int \<times> pstate" where
  "option_break st = (if popt st AND NameEmpty = 0 then BadType else ParseData, st\<lparr>pcurr := ParseData\<rparr>)"

partial_function (option) option_loop :: "malloc \<Rightarrow> parser_format \<Rightarrow> pstate \<Rightarrow> int \<Rightarrow> (int \<times> pstate) option" where
  "option_loop mal f st cur =
     (if isspace cur \<and> fassign f = 0 then option_value mal f MissingBuffer st
      else if isspace cur \<and> cur = 10 then
        (if oend f \<noteq> 0 \<and> cur \<noteq> uint (oend f) then Some (BadValue, st) else Some (option_break st))
      else if \<not> isspace cur \<and> cur = uint (fassign f) then option_value mal f MissingBuffer st
      else if \<not> isspace cur \<and> cur = uint (oend f) then Some (option_break st)
      else if \<not> isspace cur \<and> MPT_iscomment f cur then
        (if oend f \<noteq> 0 then Some (BadValue, st) else Some (option_break (snd (mpt_parse_endline st))))
      else do {
        (c, st) \<leftarrow> mpt_parse_getchar mal (if isspace cur then st else set_valid st);
        if c < 0 then Some (if c = - 2 then MissingData else BadArgument, st)
        else option_loop mal f st c })"

definition mpt_parse_option :: "malloc \<Rightarrow> parser_format \<Rightarrow> pstate \<Rightarrow> (int \<times> pstate) option" where
  "mpt_parse_option mal f st =
     (let (cur, st) = mpt_parse_nextvis (com f) st in
      if cur < 0 then
        Some (if cur \<noteq> - 2 then BadArgument else if alen (ppath st) \<noteq> 0 then MissingData else 0,
          st\<lparr>pcurr := (if pvalid st \<noteq> 0 then 0xb else ParseOption)\<rparr>)
      else if ostart f \<noteq> 0 \<and> cur \<noteq> uint (ostart f) \<and> pvalid st \<noteq> 0 then Some (BadValue, st\<lparr>pcurr := 0xb\<rparr>)
      else do {
        (r, st) \<leftarrow> on_path (\<lambda>m p. mpt_path_addchar mal m p cur) st;
        let st = st\<lparr>pcurr := 0xb\<rparr>;
        if r < 0 then Some (MissingBuffer, st) else option_loop mal f st cur })"

section \<open>Elements of the formats\<close>

text \<open>A section name: its check and the new path element.\<close>

definition section_name :: "malloc \<Rightarrow> pstate \<Rightarrow> (int \<times> pstate) option" where
  "section_name mal st = do {
     k \<leftarrow> check_name (psect st) (pvalid st) st;
     if k < 0 then Some (BadType, st)
     else do {
       (r, st) \<leftarrow> on_path (\<lambda>m p. mpt_path_add mal m p (int (pvalid st))) st;
       Some (if r < 0 then BadOperation else ParseSection, st) } }"

text \<open>The end of \<open>mpt_parse_format_pre\<close> behind its loop.\<close>

definition pre_end :: "malloc \<Rightarrow> parser_format \<Rightarrow> pstate \<Rightarrow> int \<Rightarrow> (int \<times> pstate) option" where
  "pre_end mal f st cur =
     (if sstart f \<noteq> 0 \<and> cur = uint (sstart f) then section_name mal (st\<lparr>pcurr := 0x9\<rparr>)
      else if oend f \<noteq> 0 \<and> cur = uint (oend f) then do {
        k \<leftarrow> check_name (popt st) 0 st;
        Some (if k < 0 then BadType else ParseData, st\<lparr>pcurr := ParseData\<rparr>) }
      else Some (BadValue, st\<lparr>pcurr := ParseName\<rparr>))"

partial_function (option) pre_loop :: "malloc \<Rightarrow> parser_format \<Rightarrow> pstate \<Rightarrow> int \<Rightarrow> (int \<times> pstate) option" where
  "pre_loop mal f st cur =
     (if cur < 0 then Some (MissingData, st)
      else if cur = uint (send f) then Some (ParseSectEnd, st\<lparr>pcurr := ParseSectEnd\<rparr>)
      else if cur = uint (sstart f) then pre_end mal f st cur
      else if cur = uint (ostart f) then mpt_parse_option mal f st
      else if cur = uint (fassign f) then option_value mal f BadOperation (st\<lparr>pcurr := 0xb\<rparr>)
      else if cur = uint (oend f) then pre_end mal f st cur
      else if MPT_iscomment f cur then pre_end mal f (snd (mpt_parse_endline st)) cur
      else let st = st\<lparr>pcurr := ParseName\<rparr> in
        if isspace cur \<and> cur = 10 then
          (let (c, st) = mpt_parse_nextvis (com f) st in do {
             (r, st) \<leftarrow> on_path (\<lambda>m p. mpt_path_addchar mal m p c) st;
             if r < 0 then Some (MissingBuffer, st) else pre_end mal f st c })
        else do {
          (c, st) \<leftarrow> mpt_parse_getchar mal (if isspace cur then st else set_valid st);
          if c < 0 then pre_end mal f st c else pre_loop mal f st c })"

definition mpt_parse_format_pre :: "malloc \<Rightarrow> parser_format \<Rightarrow> pstate \<Rightarrow> (int \<times> pstate) option" where
  "mpt_parse_format_pre mal f st =
     (let (cur, st) = mpt_parse_nextvis (com f) st in
      if cur < 0 then Some (if alen (ppath st) = 0 then 0 else MissingData, st)
      else if cur = uint (sstart f) then section_name mal (st\<lparr>pcurr := ParseSection\<rparr>)
      else do {
        (r, st) \<leftarrow> on_path (\<lambda>m p. mpt_path_addchar mal m p cur) (st\<lparr>pcurr := ParseName\<rparr>);
        if r < 0 then Some (MissingBuffer, st) else pre_loop mal f st cur })"

partial_function (option) enc_loop :: "malloc \<Rightarrow> parser_format \<Rightarrow> pstate \<Rightarrow> (bool \<times> pstate) option" where
  "enc_loop mal f st = do {
     (cur, st) \<leftarrow> mpt_parse_getchar mal st;
     if cur \<le> 0 then Some (False, st)
     else if isspace cur then Some (True, st)
     else if MPT_iscomment f cur then Some (True, snd (mpt_parse_endline st))
     else enc_loop mal f (set_valid st) }"

text \<open>A section: the first visible character, the rest of its name and the path element.\<close>

definition enc_section :: "malloc \<Rightarrow> parser_format \<Rightarrow> pstate \<Rightarrow> (int \<times> pstate) option" where
  "enc_section mal f st =
     (let (cur, st) = mpt_parse_nextvis (com f) (st\<lparr>pcurr := ParseSection\<rparr>) in
      if cur \<le> 0 then Some (MissingData, st)
      else do {
        (r, st) \<leftarrow> on_path (\<lambda>m p. mpt_path_addchar mal m p cur) (st\<lparr>pcurr := 0x9\<rparr>);
        if r < 0 then Some (MissingBuffer, st)
        else do {
          (ok, st) \<leftarrow> enc_loop mal f (set_valid st);
          if \<not> ok then Some (MissingData, st)
          else do {
            (r, st) \<leftarrow> section_name mal st;
            Some (r, if r < 0 then st else st\<lparr>pvalid := 0\<rparr>) } } })"

definition mpt_parse_format_enc :: "malloc \<Rightarrow> parser_format \<Rightarrow> pstate \<Rightarrow> (int \<times> pstate) option" where
  "mpt_parse_format_enc mal f st =
     (let same = (sstart f = send f);
          (cur, st) = (if same \<and> pprev st = ParseSectEnd then (uint (sstart f), st) else mpt_parse_nextvis (com f) st) in
      if same \<and> pprev st \<noteq> ParseSectEnd \<and> cur < 0 then Some (0, st\<lparr>pcurr := 0\<rparr>)
      else if same \<and> pprev st \<noteq> ParseSectEnd \<and> alen (ppath st) \<noteq> 0 \<and> cur = uint (sstart f)
        then Some (ParseSectEnd, st\<lparr>pcurr := ParseSectEnd\<rparr>)
      else if \<not> same \<and> cur < 0 then
        Some (if alen (ppath st) = 0 \<and> cur = - 2 then cur else MissingData, st\<lparr>pcurr := ParseName\<rparr>)
      else if cur \<noteq> uint (sstart f) then do {
        (r, st) \<leftarrow> on_path (\<lambda>m p. mpt_path_addchar mal m p cur) st;
        if r < 0 then Some (MissingBuffer, st\<lparr>pcurr := ParseOption\<rparr>)
        else if ostart f \<noteq> 0 \<and> cur \<noteq> uint (ostart f) then Some (BadValue, st\<lparr>pcurr := ParseOption\<rparr>)
        else mpt_parse_option mal f (if ostart f \<noteq> 0 then st else set_valid st) }
      else enc_section mal f st)"

partial_function (option) sep_loop :: "malloc \<Rightarrow> parser_format \<Rightarrow> pstate \<Rightarrow> int \<Rightarrow> (int \<times> pstate) option" where
  "sep_loop mal f st cur =
     (if cur = uint (send f) then section_name mal (st\<lparr>pcurr := 0x9\<rparr>)
      else if MPT_iscomment f cur \<or> (isspace cur \<and> cur = 10) then Some (BadValue, st\<lparr>pcurr := ParseSection\<rparr>)
      else do {
        (c, st) \<leftarrow> mpt_parse_getchar mal (if isspace cur then st else set_valid st);
        if c < 0 then Some (BadValue, st\<lparr>pcurr := ParseSection\<rparr>) else sep_loop mal f st c })"

text \<open>The first character of a section name in the separating format.\<close>

definition sep_first :: "malloc \<Rightarrow> parser_format \<Rightarrow> pstate \<Rightarrow> (int \<times> pstate) option" where
  "sep_first mal f st =
     (if send f = sstart f then sep_loop mal f st (uint (sstart f))
      else do {
        (c, st) \<leftarrow> mpt_parse_getchar mal st;
        if c < 0 then Some (if c = - 2 then MissingData else BadArgument, st\<lparr>pcurr := ParseSection\<rparr>)
        else sep_loop mal f st c })"

definition mpt_parse_format_sep :: "malloc \<Rightarrow> parser_format \<Rightarrow> pstate \<Rightarrow> (int \<times> pstate) option" where
  "mpt_parse_format_sep mal f st =
     (if pprev st mod 16 = ParseSectEnd then sep_first mal f (st\<lparr>pcurr := ParseSection\<rparr>)
      else let (cur, st) = mpt_parse_nextvis (com f) st in
        if cur < 0 then (if cur = - 2 then Some (0, st) else Some (BadArgument, st\<lparr>pcurr := ParseName\<rparr>))
        else if cur \<noteq> uint (sstart f) then
          (if cur \<noteq> uint (ostart f) then do {
             (r, st) \<leftarrow> on_path (\<lambda>m p. mpt_path_addchar mal m p cur) (st\<lparr>pcurr := ParseName\<rparr>);
             if r < 0 then Some (BadOperation, st) else mpt_parse_option mal f (set_valid st) }
           else mpt_parse_option mal f st)
        else if alen (ppath st) \<noteq> 0 then Some (ParseSectEnd, st\<lparr>pcurr := ParseSectEnd\<rparr>)
        else sep_first mal f st)"

definition mpt_parse_next_fcn :: "int \<Rightarrow> (malloc \<Rightarrow> parser_format \<Rightarrow> pstate \<Rightarrow> (int \<times> pstate) option) option" where
  "mpt_parse_next_fcn c =
     (if c = 95 then Some mpt_parse_option else if c = 120 then Some mpt_parse_format_enc
      else if c = 32 then Some mpt_parse_format_sep else if c = 42 then Some mpt_parse_format_pre else None)"

section \<open>Configurations\<close>

text \<open>The handler gets the path, the value behind it where there is one, and the previous and current
  operation.\<close>

type_synonym 's handler = "bmem \<Rightarrow> apath \<Rightarrow> block option \<Rightarrow> int \<Rightarrow> int \<Rightarrow> 's \<Rightarrow> int \<times> 's"

definition value_data :: "pstate \<Rightarrow> block option" where
  "value_data st = (if pvalid st = 0 then Some []
     else do { b \<leftarrow> base_bytes (pmem st) (abase (ppath st)); rd b (apath_end (ppath st)) (pvalid st) })"

partial_function (option) config_loop ::
  "malloc \<Rightarrow> (pstate \<Rightarrow> (int \<times> pstate) option) \<Rightarrow> 's handler \<Rightarrow> pstate \<Rightarrow> 's \<Rightarrow> (int \<times> pstate \<times> 's) option" where
  "config_loop mal nxt save st s = do {
     (ret, st) \<leftarrow> nxt st;
     if ret \<le> 0 then Some (ret, st, s)
     else do {
       val \<leftarrow> (if nat ret AND 4 \<noteq> 0 then map_option Some (value_data st) else Some None);
       let (r, s) = save (pmem st) (ppath st) val (pprev st) ret s;
       if r < 0 then Some (- 128, st, s)
       else do {
         (r, st) \<leftarrow> on_path (if nat ret AND 2 \<noteq> 0 then mpt_path_del mal else mpt_path_invalidate mal) st;
         if r < 0 then Some (MissingData, st, s)
         else config_loop mal nxt save (st\<lparr>pprev := pcurr st, pcurr := 0, pvalid := 0\<rparr>) s } } }"

definition mpt_parse_config ::
  "malloc \<Rightarrow> (pstate \<Rightarrow> (int \<times> pstate) option) \<Rightarrow> 's handler \<Rightarrow> parser_context \<Rightarrow> bmem \<Rightarrow> 's \<Rightarrow> (int \<times> pstate \<times> 's) option" where
  "mpt_parse_config mal nxt save c m s = do {
     (ret, st, s) \<leftarrow> config_loop mal nxt save (parser_context.extend c \<lparr>pmem = m, ppath = APATH_INIT\<rparr>) s;
     (m, p) \<leftarrow> apath_fini (pmem st) (ppath st);
     Some (ret, st\<lparr>pmem := m, ppath := p\<rparr>, s) }"

end
