(* ===== verification/ParserProof.thy ===== *)
theory ParserProof
  imports Parser
begin

text \<open>
  The configuration parser on the text of configurations.

  The predicate \<open>PS\<close> describes the state of a parser by the elements of its path, the bytes collected for
  the next one and the source; each step of the prepending format is stated on it.  A handler that
  follows the events of a configuration tree is called for exactly these events when the text of the
  tree is parsed.
\<close>

unbundle bit_operations_syntax

section \<open>States of a parser\<close>

text \<open>Elements, collected bytes and their mark, the valid size, the source and the previous and current
  operation; the length of all text fits the 16 bit counter of the context.\<close>

definition PS :: "16 word \<Rightarrow> 16 word \<Rightarrow> pstate \<Rightarrow> block list \<Rightarrow> block \<Rightarrow> bool \<Rightarrow> nat \<Rightarrow> block \<Rightarrow> int \<Rightarrow> int \<Rightarrow> bool" where
  "PS fs fo st es post keep v xs pr cu \<longleftrightarrow> pst 46 0 (pmem st) (ppath st) es post keep \<and> pvalid st = v \<and> inp st = map uint xs \<and>
     pprev st = pr \<and> pcurr st = cu \<and> psect st = fs \<and> popt st = fo \<and> path_size es post + length xs < 2 ^ 16"

lemma word_uint [simp]: "word_of_int (uint (c :: byte)) = c"
  by simp

lemma uint_pos: "c \<noteq> (0 :: byte) \<Longrightarrow> 0 < uint c"
  using uint_0_iff [of c] uint_ge_0 [of c] by linarith

lemma put_char_size: "path_size es (put_char post keep c) \<le> path_size es post + 1"
  by (auto simp: path_size_def put_char_def)

lemma put_char_True [simp]: "put_char post True c = post @ [c]"
  by (simp add: put_char_def)

lemma addchar_PS:
  assumes "PS fs fo st es post keep v xs pr cu" "always_ok mal" "path_size es post + length xs + 1 < 2 ^ 16"
  shows "\<exists>r st'. on_path (\<lambda>m p. mpt_path_addchar mal m p (uint c)) st = Some (r, st') \<and> 0 \<le> r \<and>
    PS fs fo st' es (put_char post keep c) keep v xs pr cu"
proof -
  have p: "pst 46 0 (pmem st) (ppath st) es post keep" using assms(1) by (simp add: PS_def)
  have "path_size es post + 1 < 2 ^ 63" using assms(3) by simp
  from addchar_pst [OF p assms(2) this, of "uint c"] obtain r m' p' where
    "mpt_path_addchar mal (pmem st) (ppath st) (uint c) = Some (r, m', p')" "0 \<le> r" "pst 46 0 m' p' es (put_char post keep c) keep"
    by auto
  then show ?thesis using assms(1,3) put_char_size [of es post keep c] by (auto simp: on_path_def PS_def)
qed

lemma getchar_PS:
  assumes "PS fs fo st es post keep v (c # xs) pr cu" "always_ok mal" "c \<noteq> 0"
  shows "\<exists>st'. mpt_parse_getchar mal st = Some (uint c, st') \<and> PS fs fo st' es (put_char post keep c) keep v xs pr cu"
proof -
  let ?st = "st\<lparr>pline := bump (pline st)\<rparr>\<lparr>inp := map uint xs\<rparr>"
  let ?st2 = "if uint c = 10 then ?st\<lparr>pline := pline ?st + 1\<rparr> else ?st"
  have s: "PS fs fo ?st2 es post keep v xs pr cu" using assms(1) by (simp add: PS_def)
  have b: "path_size es post + length xs + 1 < 2 ^ 16" using assms(1) by (simp add: PS_def)
  from addchar_PS [OF s assms(2) b, of c] obtain r st' where
    a: "on_path (\<lambda>m p. mpt_path_addchar mal m p (uint c)) ?st2 = Some (r, st')" "0 \<le> r"
      "PS fs fo st' es (put_char post keep c) keep v xs pr cu" by blast
  have i: "inp st = uint c # map uint xs" using assms(1) by (simp add: PS_def)
  have "mpt_parse_getchar mal st = Some (uint c, st')"
    unfolding mpt_parse_getchar_def Let_def using i a uint_pos [OF assms(3)] by simp
  with a(3) show ?thesis by blast
qed

lemma set_valid_PS:
  assumes "PS fs fo st es post keep v xs pr cu"
  shows "PS fs fo (set_valid st) es post (keep \<or> post \<noteq> []) (length post) xs pr cu"
proof -
  have p: "pst 46 0 (pmem st) (ppath st) es post keep" using assms by (simp add: PS_def)
  from valid_pst [OF p] obtain p' where "apath_valid (pmem st) (ppath st) = (int (length post), p')"
    "pst 46 0 (pmem st) p' es post (keep \<or> post \<noteq> [])" by blast
  moreover have "length post < 2 ^ 16" using assms by (simp add: PS_def path_size_def)
  ultimately show ?thesis using assms by (simp add: set_valid_def PS_def)
qed

lemma invalidate_PS:
  assumes "PS fs fo st es post keep v xs pr cu"
  shows "\<exists>r st'. on_path (mpt_path_invalidate mal) st = Some (r, st') \<and> 0 \<le> r \<and> PS fs fo st' es [] False v xs pr cu"
proof -
  have p: "pst 46 0 (pmem st) (ppath st) es post keep" using assms by (simp add: PS_def)
  from invalidate_pst [OF p, of mal] obtain r m' p' where
    "mpt_path_invalidate mal (pmem st) (ppath st) = Some (r, m', p')" "0 \<le> r" "pst 46 0 m' p' es [] False" by blast
  then show ?thesis using assms by (auto simp: on_path_def PS_def path_size_def)
qed

lemma del_PS:
  assumes "PS fs fo st (es @ [e]) post keep v xs pr cu" "always_ok mal"
  shows "\<exists>st'. on_path (mpt_path_del mal) st = Some (int (length e), st') \<and> PS fs fo st' es [] False v xs pr cu"
proof -
  have p: "pst 46 0 (pmem st) (ppath st) (es @ [e]) post keep" using assms by (simp add: PS_def)
  have "path_size (es @ [e]) post < 2 ^ 63" using assms by (simp add: PS_def)
  from del_pst [OF p assms(2) this] obtain m' p' where
    d: "mpt_path_del mal (pmem st) (ppath st) = Some (int (length e), m', p')" "pst 46 0 m' p' es [] False" by blast
  have "path_size es [] \<le> path_size (es @ [e]) post" using join_length [of 0 0 es 46 46] by (simp add: path_size_def join_snoc)
  then show ?thesis using assms(1) d by (auto simp: on_path_def PS_def)
qed

text \<open>The bytes behind the elements.\<close>

lemma post_bytes:
  assumes "pst 46 0 m p es post keep" "post \<noteq> []"
  shows "\<exists>b. base_bytes m (abase p) = Some b \<and> abase p \<noteq> Null \<and> (\<exists>r. drop (apath_end p) b = post @ r) \<and> apath_end p \<le> length b"
  using assms(1)
proof (cases rule: pstE)
  case null
  then show ?thesis using assms(2) by simp
next
  case (buf a t)
  let ?c = "join 46 t es @ post"
  from buf(2) obtain b where b: "getb m a = Some b" "bused b = length ?c" "bused b \<le> bsize b" "?c = take (length ?c) (bdata b)"
    by (rule ownedE) blast
  have d: "bdata b = ?c @ drop (length ?c) (bdata b)" using b(4) append_take_drop_id by metis
  have "drop (apath_end p) (bdata b) = post @ drop (length ?c) (bdata b)" using buf(5) by (subst d) simp
  then show ?thesis using buf b by (auto simp: base_bytes_def bsize_def)
qed

section \<open>Names\<close>

definition accepted :: "16 word \<Rightarrow> block \<Rightarrow> bool" where
  "accepted fl n \<longleftrightarrow> n \<noteq> [] \<and> ncheck_loop 0 n (length n) fl = Some 0"

lemma ncheck_prefix: "ncheck_loop i n (length n) fl = Some 0 \<Longrightarrow> ncheck_loop i (n @ r) (length n) fl = Some 0"
proof (induction n arbitrary: i)
  case (Cons c n)
  then show ?case by (auto split: if_splits)
qed simp

lemma check_name_PS:
  assumes "PS fs fo st es (n @ y) keep v xs pr cu" "accepted fl n"
  shows "check_name fl (length n) st = Some 0"
proof -
  have p: "pst 46 0 (pmem st) (ppath st) es (n @ y) keep" using assms by (simp add: PS_def)
  have "n @ y \<noteq> []" using assms(2) by (simp add: accepted_def)
  from post_bytes [OF p this] obtain b r where "base_bytes (pmem st) (abase (ppath st)) = Some b" "abase (ppath st) \<noteq> Null"
    "drop (apath_end (ppath st)) b = (n @ y) @ r" "apath_end (ppath st) \<le> length b" by blast
  then show ?thesis using assms(2) ncheck_prefix [of 0 n fl "y @ r"] by (simp add: check_name_def mpt_parse_ncheck_def accepted_def)
qed

lemma add_PS:
  assumes "PS fs fo st es (n @ d # y) keep v xs pr cu" "always_ok mal" "46 \<notin> set n" "v = length n"
  shows "\<exists>st'. on_path (\<lambda>m p. mpt_path_add mal m p (int (pvalid st))) st = Some (0, st') \<and> PS fs fo st' (es @ [n]) y False v xs pr cu"
proof -
  have p: "pst 46 0 (pmem st) (ppath st) es (n @ d # y) keep" using assms by (simp add: PS_def)
  have nn: "abase (ppath st) \<noteq> Null" using p by (auto simp: pst_def)
  have "path_size es (n @ d # y) + 1 < 2 ^ 63" using assms(1) by (simp add: PS_def)
  from add_pst [OF p nn assms(3,2) this] obtain m' p' where
    a: "mpt_path_add mal (pmem st) (ppath st) (int (length n)) = Some (0, m', p')" "pst 46 0 m' p' (es @ [n]) y False" by auto
  have "path_size (es @ [n]) y = path_size es (n @ d # y)" using join_length [of 0 0 es 46 46]
    by (simp add: path_size_def join_snoc)
  then show ?thesis using assms(1,4) a by (auto simp: on_path_def PS_def)
qed


section \<open>Regular formats\<close>

text \<open>Formats of the prepending kind with distinct delimiters, without delimiters of options.\<close>

definition regular :: "parser_format \<Rightarrow> bool" where
  "regular f \<longleftrightarrow> sstart f \<noteq> 0 \<and> send f \<noteq> 0 \<and> fassign f \<noteq> 0 \<and> ostart f = 0 \<and> oend f = 0 \<and> distinct [sstart f, send f, fassign f] \<and>
     (\<forall>c \<in> {sstart f, send f, fassign f}. \<not> isspace (uint c) \<and> c \<notin> set (com f)) \<and> (\<forall>c \<in> set (com f). \<not> isspace (uint c)) \<and> 10 \<notin> set (esc f) \<and> 32 \<notin> set (esc f)"

text \<open>Characters of names and of values.\<close>

definition plain :: "parser_format \<Rightarrow> byte \<Rightarrow> bool" where
  "plain f c \<longleftrightarrow> c \<noteq> 0 \<and> c \<noteq> 46 \<and> c \<noteq> sstart f \<and> c \<noteq> send f \<and> c \<noteq> fassign f \<and> c \<notin> set (com f) \<and> \<not> isspace (uint c)"

definition vchar :: "parser_format \<Rightarrow> byte \<Rightarrow> bool" where
  "vchar f c \<longleftrightarrow> c \<noteq> 0 \<and> c \<noteq> 10 \<and> c \<notin> set (com f) \<and> c \<notin> set (esc f)"

lemma uint_eq: "uint (c :: byte) = uint d \<longleftrightarrow> c = d"
  by (rule word_uint_eq_iff [symmetric])

lemma uint_mem: "uint c \<in> uint ` set xs \<longleftrightarrow> (c :: byte) \<in> set xs"
  by (auto simp: image_iff uint_eq)

lemma uint_nl: "uint (c :: byte) = 10 \<longleftrightarrow> c = 10"
  using uint_eq [of c 10] by simp

lemma uint_zero: "uint (c :: byte) = 0 \<longleftrightarrow> c = 0"
  by (rule uint_0_iff)

text \<open>Blank characters are skipped.\<close>

lemma nextvis_blank:
  "\<forall>c \<in> set (ws :: block). c \<noteq> 0 \<and> isspace (uint c) \<Longrightarrow> \<exists>l'. nextvis_loop cm (map uint ws @ xs) l = nextvis_loop cm xs l'"
proof (induction ws arbitrary: l)
  case (Cons w ws)
  then have "0 < uint w" using uint_pos [of w] by simp
  then show ?case using Cons by (auto simp: Let_def)
qed auto

lemma nextvis_PS:
  assumes "PS fs fo st es post keep v (ws @ c # xs) pr cu" "\<forall>w \<in> set ws. w \<noteq> 0 \<and> isspace (uint w)"
    "c \<noteq> 0" "\<not> isspace (uint c)" "c \<notin> set cm"
  shows "\<exists>st'. mpt_parse_nextvis cm st = (uint c, st') \<and> PS fs fo st' es post keep v xs pr cu \<and>
    path_size es post + length xs + 1 < 2 ^ 16"
proof -
  have i: "inp st = map uint ws @ uint c # map uint xs" using assms(1) by (simp add: PS_def)
  from nextvis_blank [OF assms(2), of cm "uint c # map uint xs" "bump (pline st)"] obtain l' where
    n: "nextvis_loop cm (inp st) (bump (pline st)) = nextvis_loop cm (uint c # map uint xs) l'" unfolding i by blast
  have "\<exists>l. nextvis_loop cm (uint c # map uint xs) l' = (uint c, map uint xs, l)"
    using assms(4,5) uint_pos [OF assms(3)] by (simp add: Let_def)
  then show ?thesis using assms(1) n by (auto simp: mpt_parse_nextvis_def PS_def)
qed

lemma nextvis_end_PS:
  assumes "PS fs fo st es post keep v ws pr cu" "\<forall>w \<in> set ws. w \<noteq> 0 \<and> isspace (uint w)"
  shows "\<exists>st'. mpt_parse_nextvis cm st = (- 2, st') \<and> PS fs fo st' es post keep v [] pr cu"
proof -
  have i: "inp st = map uint ws @ []" using assms(1) by (simp add: PS_def)
  from nextvis_blank [OF assms(2), of cm "[]" "bump (pline st)"] obtain l' where
    "nextvis_loop cm (inp st) (bump (pline st)) = nextvis_loop cm [] l'" unfolding i by blast
  then show ?thesis using assms(1) by (auto simp: mpt_parse_nextvis_def PS_def)
qed

section \<open>Values\<close>

lemma data_step:
  assumes "PS fs fo st es post keep v (c # xs) pr cu" "always_ok mal" "vchar f c" "oend f = 0"
  shows "\<exists>st'. data_loop mal f st 0 l = data_loop mal f st' 0 (uint c) \<and>
    (if isspace (uint c) then PS fs fo st' es (put_char post keep c) keep v xs pr cu
     else PS fs fo st' es (put_char post keep c) True (length (put_char post keep c)) xs pr cu)"
proof -
  have c: "c \<noteq> 0" "c \<noteq> 10" "c \<notin> set (com f)" "c \<notin> set (esc f)" using assms(3) by (auto simp: vchar_def)
  from getchar_PS [OF assms(1,2) c(1)] obtain s1 where
    g: "mpt_parse_getchar mal st = Some (uint c, s1)" "PS fs fo s1 es (put_char post keep c) keep v xs pr cu" by blast
  have "\<not> MPT_isescape f (uint c)" using c(4) by (auto simp: MPT_isescape_def uint_mem)
  moreover have "\<not> MPT_iscomment f (uint c)" using c(3) by (auto simp: MPT_iscomment_def uint_mem)
  ultimately have "data_loop mal f st 0 l = data_loop mal f (if isspace (uint c) then s1 else set_valid s1) 0 (uint c)"
    using g(1) uint_pos [OF c(1)] c(1,2) assms(4) by (subst data_loop.simps) (simp add: uint_nl uint_zero)
  moreover have "put_char post keep c \<noteq> []" by (simp add: put_char_def)
  ultimately show ?thesis using g(2) set_valid_PS [OF g(2)] by (auto intro!: exI [of _ "if isspace (uint c) then s1 else set_valid s1"])
qed

text \<open>From the first visible character on all characters are kept.\<close>

definition value_ok :: "parser_format \<Rightarrow> block \<Rightarrow> bool" where
  "value_ok f w \<longleftrightarrow> (\<forall>c \<in> set w. vchar f c) \<and> (w \<noteq> [] \<longrightarrow> \<not> isspace (uint (hd w)) \<and> \<not> isspace (uint (last w)))"

lemma data_newline:
  assumes "PS fs fo st es post keep v (10 # xs) pr cu" "always_ok mal" "regular f"
  shows "\<exists>st'. data_loop mal f st 0 l = Some (10, st') \<and> PS fs fo st' es (put_char post keep 10) keep v xs pr cu"
proof -
  from getchar_PS [OF assms(1,2)] obtain s1 where
    g: "mpt_parse_getchar mal st = Some (10, s1)" "PS fs fo s1 es (put_char post keep 10) keep v xs pr cu" by auto
  have "\<not> MPT_isescape f 10" using assms(3) uint_mem [of 10 "esc f"] by (simp add: MPT_isescape_def regular_def)
  then have "data_loop mal f st 0 l = Some (10, s1)" using g(1) assms(3) by (subst data_loop.simps) (simp add: regular_def)
  with g(2) show ?thesis by blast
qed

lemma data_scan:
  assumes "PS fs fo st es post True v (w @ 10 # xs) pr cu" "always_ok mal" "regular f" "\<forall>c \<in> set w. vchar f c"
    "if w = [] then v = length post else \<not> isspace (uint (last w))"
  shows "\<exists>st'. data_loop mal f st 0 l = Some (10, st') \<and> PS fs fo st' es (post @ w @ [10]) True (length (post @ w)) xs pr cu"
  using assms(1,4,5)
proof (induction w arbitrary: st post v l)
  case Nil
  then show ?case using data_newline [OF _ assms(2,3), of fs fo st es post True v xs pr cu l] by auto
next
  case (Cons c w)
  have o: "oend f = 0" using assms(3) by (simp add: regular_def)
  have c: "vchar f c" "\<forall>c \<in> set w. vchar f c" using Cons.prems(2) by simp_all
  from data_step [of fs fo st es post True v c "w @ 10 # xs", OF _ assms(2) c(1) o, of pr cu l] Cons.prems(1) obtain s1 where
    s: "data_loop mal f st 0 l = data_loop mal f s1 0 (uint c)"
      "PS fs fo s1 es (post @ [c]) True (if isspace (uint c) then v else length (post @ [c])) (w @ 10 # xs) pr cu"
    by (auto split: if_splits)
  have "if w = [] then (if isspace (uint c) then v else length (post @ [c])) = length (post @ [c]) else \<not> isspace (uint (last w))"
    using Cons.prems(3) by auto
  from Cons.IH [OF s(2) c(2) this, of "uint c"] s(1) show ?case by simp
qed

definition vtext :: "block \<Rightarrow> block" where
  "vtext w = (if w = [] then [] else 32 # w)"

lemma data_PS:
  assumes "PS fs fo st es [] False 0 (vtext w @ 10 # xs) pr cu" "always_ok mal" "regular f" "value_ok f w"
  shows "\<exists>st' k. mpt_parse_data mal f st = Some (int (length w), st') \<and> PS fs fo st' es (w @ [10]) k (length w) xs pr cu"
proof -
  have o: "oend f = 0" using assms(3) by (simp add: regular_def)
  have "\<exists>st' k. data_loop mal f st 0 (- 1) = Some (10, st') \<and> PS fs fo st' es (w @ [10]) k (length w) xs pr cu"
  proof (cases w)
    case Nil
    then show ?thesis using data_newline [OF _ assms(2,3), of fs fo st es "[]" False 0 xs pr cu "- 1"] assms(1)
      by (auto simp: vtext_def put_char_def)
  next
    case (Cons c w')
    have c: "vchar f c" "\<not> isspace (uint c)" "\<forall>c \<in> set w'. vchar f c" "if w' = [] then 1 = length [c] else \<not> isspace (uint (last w'))"
      using assms(4) Cons by (auto simp: value_ok_def)
    have vs: "vchar f 32" using assms(3) by (auto simp: vchar_def regular_def isspace_def)
    have p: "PS fs fo st es [] False 0 (32 # c # w' @ 10 # xs) pr cu" using assms(1) Cons by (simp add: vtext_def)
    have sp: "isspace (uint (32 :: byte))" by (simp add: isspace_def)
    from data_step [OF p assms(2) vs o, of "- 1"] sp obtain s1 where
      s1: "data_loop mal f st 0 (- 1) = data_loop mal f s1 0 (uint (32 :: byte))" "PS fs fo s1 es [32] False 0 (c # w' @ 10 # xs) pr cu"
      by (auto simp: put_char_def)
    from data_step [OF s1(2) assms(2) c(1) o, of "uint (32 :: byte)"] c(2) obtain s2 where
      s2: "data_loop mal f s1 0 (uint (32 :: byte)) = data_loop mal f s2 0 (uint c)" "PS fs fo s2 es [c] True 1 (w' @ 10 # xs) pr cu"
      by (auto simp: put_char_def)
    from data_scan [OF s2(2) assms(2,3) c(3,4), of "uint c"] s1(1) s2(1) Cons show ?thesis by auto
  qed
  then show ?thesis using o by (auto simp: mpt_parse_data_def PS_def)
qed

lemma PS_curr: "PS fs fo st es post keep v xs pr cu \<Longrightarrow> PS fs fo (st\<lparr>pcurr := d\<rparr>) es post keep v xs pr d"
  by (simp add: PS_def)

lemma PS_valid: "PS fs fo st es post keep v xs pr cu \<Longrightarrow> PS fs fo (st\<lparr>pvalid := u\<rparr>) es post keep u xs pr cu"
  by (simp add: PS_def)

lemma option_value_PS:
  assumes "PS fs fo st es (n @ [d, e]) True (length n) (vtext w @ 10 # xs) pr cu" "always_ok mal" "regular f"
    "accepted fo n" "46 \<notin> set n" "value_ok f w"
  shows "\<exists>st' k. option_value mal f r st = Some (if w = [] then 3 else 7, st') \<and>
    PS fs fo st' (es @ [n]) (w @ [10]) k (length w) xs pr cu"
proof -
  have v: "popt st = fo" "pvalid st = length n" using assms(1) by (simp_all add: PS_def)
  have k: "check_name fo (length n) st = Some 0" by (rule check_name_PS [OF assms(1,4)])
  from add_PS [OF assms(1,2,5) refl] obtain s1 where
    a: "on_path (\<lambda>m p. mpt_path_add mal m p (int (pvalid st))) st = Some (0, s1)"
      "PS fs fo s1 (es @ [n]) [e] False (length n) (vtext w @ 10 # xs) pr cu" by blast
  from invalidate_PS [OF a(2), of mal] obtain x s2 where
    i: "on_path (mpt_path_invalidate mal) s1 = Some (x, s2)" "PS fs fo s2 (es @ [n]) [] False (length n) (vtext w @ 10 # xs) pr cu" by blast
  from data_PS [OF PS_valid [OF i(2)] assms(2,3,6)] obtain s3 kk where
    "mpt_parse_data mal f (s2\<lparr>pvalid := 0\<rparr>) = Some (int (length w), s3)"
    "PS fs fo s3 (es @ [n]) (w @ [10]) kk (length w) xs pr cu" by blast
  then show ?thesis using k v a(1) i(1) by (auto simp: option_value_def)
qed

section \<open>Elements of the prepending format\<close>

lemma pre_step:
  assumes "PS fs fo st es p keep v (d # xs) pr cu" "p \<noteq> []" "always_ok mal" "regular f" "plain f c" "d \<noteq> 0"
  shows "\<exists>st'. pre_loop mal f st (uint c) = pre_loop mal f st' (uint d) \<and> PS fs fo st' es (p @ [d]) True (length p) xs pr 8"
proof -
  have c: "uint c \<noteq> uint (send f)" "uint c \<noteq> uint (sstart f)" "uint c \<noteq> uint (fassign f)" "uint c \<noteq> uint (0 :: byte)" "\<not> isspace (uint c)"
    "\<not> MPT_iscomment f (uint c)" using assms(5) by (auto simp: plain_def uint_eq uint_zero MPT_iscomment_def uint_mem)
  have z: "ostart f = 0" "oend f = 0" "\<not> uint c < 0" using assms(4) uint_ge_0 [of c] by (auto simp: regular_def)
  have s: "PS fs fo (set_valid (st\<lparr>pcurr := 8\<rparr>)) es p True (length p) (d # xs) pr 8"
    using set_valid_PS [OF PS_curr [OF assms(1)]] assms(2) by auto
  from getchar_PS [OF s assms(3,6)] obtain st' where
    g: "mpt_parse_getchar mal (set_valid (st\<lparr>pcurr := 8\<rparr>)) = Some (uint d, st')" "PS fs fo st' es (p @ [d]) True (length p) xs pr 8"
    by auto
  have "\<not> uint d < 0" using uint_ge_0 [of d] by linarith
  then have "pre_loop mal f st (uint c) = pre_loop mal f st' (uint d)"
    using c z g(1) by (subst pre_loop.simps) (simp add: Let_def)
  with g(2) show ?thesis by blast
qed

lemma pre_scan:
  assumes "PS fs fo st es (q @ [c]) keep v (n @ d # xs) pr cu" "always_ok mal" "regular f" "plain f c" "\<forall>x \<in> set n. plain f x" "d \<noteq> 0"
  shows "\<exists>st'. pre_loop mal f st (uint c) = pre_loop mal f st' (uint d) \<and>
    PS fs fo st' es (q @ c # n @ [d]) True (length (q @ c # n)) xs pr 8"
  using assms(1,4,5)
proof (induction n arbitrary: st q c keep v cu)
  case Nil
  then show ?case using pre_step [of fs fo st es "q @ [c]" keep v d xs pr cu mal f c] assms(2,3,6) by simp
next
  case (Cons x n)
  have x: "plain f x" "x \<noteq> 0" using Cons.prems(3) by (simp_all add: plain_def)
  have p: "PS fs fo st es (q @ [c]) keep v (x # n @ d # xs) pr cu" using Cons.prems(1) by simp
  from pre_step [OF p _ assms(2,3) Cons.prems(2) x(2)] obtain s1 where
    s: "pre_loop mal f st (uint c) = pre_loop mal f s1 (uint x)"
      "PS fs fo s1 es ((q @ [c]) @ [x]) True (length (q @ [c])) (n @ d # xs) pr 8" by auto
  from Cons.IH [OF s(2) x(1)] Cons.prems(3) s(1) show ?case by auto
qed

lemma pre_space:
  assumes "PS fs fo st es p True v (d # xs) pr cu" "always_ok mal" "regular f" "d \<noteq> 0"
  shows "\<exists>st'. pre_loop mal f st 32 = pre_loop mal f st' (uint d) \<and> PS fs fo st' es (p @ [d]) True v xs pr 8"
proof -
  have sp: "isspace 32" by (simp add: isspace_def)
  have u: "uint x \<noteq> 32" if "\<not> isspace (uint x)" for x :: byte using that sp by metis
  have c: "uint (send f) \<noteq> 32" "uint (sstart f) \<noteq> 32" "uint (fassign f) \<noteq> 32" "\<not> MPT_iscomment f 32"
    using assms(3) u by (auto simp: regular_def MPT_iscomment_def)
  have z: "ostart f = 0" "oend f = 0" using assms(3) by (auto simp: regular_def)
  from getchar_PS [OF PS_curr [OF assms(1), of 8] assms(2,4)] obtain st' where
    g: "mpt_parse_getchar mal (st\<lparr>pcurr := 8\<rparr>) = Some (uint d, st')" "PS fs fo st' es (p @ [d]) True v xs pr 8" by auto
  have "\<not> uint d < 0" using uint_ge_0 [of d] by linarith
  then have "pre_loop mal f st 32 = pre_loop mal f st' (uint d)"
    using c(1-3) [symmetric] z g(1) sp c(4) by (subst pre_loop.simps) (simp add: Let_def)
  with g(2) show ?thesis by blast
qed

text \<open>Names that are accepted.\<close>

definition name_ok :: "parser_format \<Rightarrow> 16 word \<Rightarrow> block \<Rightarrow> bool" where
  "name_ok f fl n \<longleftrightarrow> accepted fl n \<and> (\<forall>c \<in> set n. plain f c)"

definition blanks :: "block \<Rightarrow> bool" where
  "blanks ws \<longleftrightarrow> (\<forall>w \<in> set ws. w \<noteq> 0 \<and> isspace (uint w))"

text \<open>A name, a space and a delimiter at the start of an element.\<close>

lemma pre_name:
  assumes "PS fs fo st es [] False v (ws @ n @ 32 # d # xs) pr cu" "always_ok mal" "regular f" "name_ok f fl n" "blanks ws" "d \<noteq> 0"
  shows "\<exists>st'. mpt_parse_format_pre mal f st = pre_loop mal f st' (uint d) \<and>
    PS fs fo st' es (n @ [32, d]) True (length n) xs pr 8"
proof -
  from assms(4) obtain c n' where n: "n = c # n'" "plain f c" "\<forall>x \<in> set n'. plain f x"
    by (cases n) (auto simp: name_ok_def accepted_def)
  have c: "c \<noteq> 0" "\<not> isspace (uint c)" "c \<notin> set (com f)" "c \<noteq> sstart f" using n(2) by (auto simp: plain_def)
  have p: "PS fs fo st es [] False v (ws @ c # n' @ 32 # d # xs) pr cu" using assms(1) n by simp
  from nextvis_PS [OF p _ c(1-3)] assms(5) obtain s1 where
    s1: "mpt_parse_nextvis (com f) st = (uint c, s1)" "PS fs fo s1 es [] False v (n' @ 32 # d # xs) pr cu"
      "path_size es [] + length (n' @ 32 # d # xs) + 1 < 2 ^ 16" by (auto simp: blanks_def)
  from addchar_PS [OF PS_curr [OF s1(2), of 8] assms(2) s1(3), of c] obtain r s2 where
    s2: "on_path (\<lambda>m p. mpt_path_addchar mal m p (uint c)) (s1\<lparr>pcurr := 8\<rparr>) = Some (r, s2)" "0 \<le> r"
      "PS fs fo s2 es ([] @ [c]) False v (n' @ 32 # d # xs) pr 8" by (auto simp: put_char_def)
  have e: "mpt_parse_format_pre mal f st = pre_loop mal f s2 (uint c)"
    using s1(1) s2(1,2) c(4) uint_ge_0 [of c] by (simp add: mpt_parse_format_pre_def uint_eq)
  from pre_scan [OF s2(3) assms(2,3) n(2,3)] obtain s3 where
    s3: "pre_loop mal f s2 (uint c) = pre_loop mal f s3 32" "PS fs fo s3 es (n @ [32]) True (length n) (d # xs) pr 8"
    using n(1) by auto
  from pre_space [OF s3(2) assms(2,3,6)] e s3(1) show ?thesis by auto
qed

lemma pre_option:
  assumes "PS fs fo st es [] False v (ws @ n @ 32 # fassign f # vtext w @ 10 # xs) pr cu" "always_ok mal" "regular f"
    "name_ok f fo n" "value_ok f w" "blanks ws"
  shows "\<exists>st' k. mpt_parse_format_pre mal f st = Some (if w = [] then 3 else 7, st') \<and>
    PS fs fo st' (es @ [n]) (w @ [10]) k (length w) xs pr 0xb"
proof -
  have d: "fassign f \<noteq> 0" "uint (fassign f) \<noteq> uint (send f)" "uint (fassign f) \<noteq> uint (sstart f)" "ostart f = 0"
    using assms(3) by (auto simp: regular_def uint_eq)
  from pre_name [OF assms(1-4,6) d(1)] obtain s1 where
    s1: "mpt_parse_format_pre mal f st = pre_loop mal f s1 (uint (fassign f))"
      "PS fs fo s1 es (n @ [32, fassign f]) True (length n) (vtext w @ 10 # xs) pr 8" by blast
  have "\<not> uint (fassign f) < 0" "uint (fassign f) \<noteq> 0" using d(1) uint_ge_0 [of "fassign f"] by (auto simp: uint_zero simp del: uint_ge_0)
  then have "pre_loop mal f s1 (uint (fassign f)) = option_value mal f BadOperation (s1\<lparr>pcurr := 0xb\<rparr>)"
    using d by (subst pre_loop.simps) simp
  moreover have "46 \<notin> set n" "accepted fo n" using assms(4) by (auto simp: name_ok_def plain_def)
  ultimately show ?thesis using option_value_PS [OF PS_curr [OF s1(2)] assms(2,3)] assms(5) s1(1) by metis
qed

lemma pre_section:
  assumes "PS fs fo st es [] False v (ws @ n @ 32 # sstart f # xs) pr cu" "always_ok mal" "regular f" "name_ok f fs n" "blanks ws"
  shows "\<exists>st'. mpt_parse_format_pre mal f st = Some (1, st') \<and> PS fs fo st' (es @ [n]) [sstart f] False (length n) xs pr 9"
proof -
  have d: "sstart f \<noteq> 0" "uint (sstart f) \<noteq> uint (send f)" using assms(3) by (auto simp: regular_def uint_eq)
  from pre_name [OF assms d(1)] obtain s1 where
    s1: "mpt_parse_format_pre mal f st = pre_loop mal f s1 (uint (sstart f))"
      "PS fs fo s1 es (n @ [32, sstart f]) True (length n) xs pr 8" by blast
  have "\<not> uint (sstart f) < 0" using uint_ge_0 [of "sstart f"] by linarith
  then have "pre_loop mal f s1 (uint (sstart f)) = section_name mal (s1\<lparr>pcurr := 9\<rparr>)"
    using d by (subst pre_loop.simps) (simp add: pre_end_def)
  moreover have "\<exists>st'. section_name mal (s1\<lparr>pcurr := 9\<rparr>) = Some (1, st') \<and> PS fs fo st' (es @ [n]) [sstart f] False (length n) xs pr 9"
  proof -
    let ?s = "s1\<lparr>pcurr := 9\<rparr>"
    have p: "PS fs fo ?s es (n @ [32, sstart f]) True (length n) xs pr 9" by (rule PS_curr [OF s1(2)])
    have v: "psect ?s = fs" "pvalid ?s = length n" using p by (simp_all add: PS_def)
    have n: "46 \<notin> set n" "accepted fs n" using assms(4) by (auto simp: name_ok_def plain_def)
    have k: "check_name fs (length n) ?s = Some 0" by (rule check_name_PS [OF p n(2)])
    from add_PS [OF p assms(2) n(1) refl] obtain s2 where
      "on_path (\<lambda>m p. mpt_path_add mal m p (int (pvalid ?s))) ?s = Some (0, s2)" "PS fs fo s2 (es @ [n]) [sstart f] False (length n) xs pr 9"
      by blast
    with k v show ?thesis by (auto simp: section_name_def)
  qed
  ultimately show ?thesis using s1(1) by auto
qed

lemma pre_close:
  assumes "PS fs fo st es [] False v (ws @ send f # xs) pr cu" "always_ok mal" "regular f" "blanks ws"
  shows "\<exists>st'. mpt_parse_format_pre mal f st = Some (2, st') \<and> PS fs fo st' es [send f] False v xs pr 2"
proof -
  have c: "send f \<noteq> 0" "\<not> isspace (uint (send f))" "send f \<notin> set (com f)" "send f \<noteq> sstart f" using assms(3) by (auto simp: regular_def)
  from nextvis_PS [OF assms(1) _ c(1-3)] assms(4) obtain s1 where
    s1: "mpt_parse_nextvis (com f) st = (uint (send f), s1)" "PS fs fo s1 es [] False v xs pr cu"
      "path_size es [] + length xs + 1 < 2 ^ 16" by (auto simp: blanks_def)
  from addchar_PS [OF PS_curr [OF s1(2), of 8] assms(2) s1(3), of "send f"] obtain r s2 where
    s2: "on_path (\<lambda>m p. mpt_path_addchar mal m p (uint (send f))) (s1\<lparr>pcurr := 8\<rparr>) = Some (r, s2)" "0 \<le> r"
      "PS fs fo s2 es [send f] False v xs pr 8" by (auto simp: put_char_def)
  have ge: "\<not> uint (send f) < 0" using uint_ge_0 [of "send f"] by linarith
  have "pre_loop mal f s2 (uint (send f)) = Some (2, s2\<lparr>pcurr := 2\<rparr>)" using ge by (subst pre_loop.simps) simp
  then have "mpt_parse_format_pre mal f st = Some (2, s2\<lparr>pcurr := 2\<rparr>)"
    using s1(1) s2(1,2) c(4) ge by (simp add: mpt_parse_format_pre_def uint_eq)
  with PS_curr [OF s2(3)] show ?thesis by blast
qed

lemma pre_eof:
  assumes "PS fs fo st [] [] False v ws pr cu" "blanks ws"
  shows "\<exists>st'. mpt_parse_format_pre mal f st = Some (0, st') \<and> PS fs fo st' [] [] False v [] pr cu"
proof -
  from nextvis_end_PS [OF assms(1), of "com f"] assms(2) obtain s1 where
    "mpt_parse_nextvis (com f) st = (- 2, s1)" "PS fs fo s1 [] [] False v [] pr cu" by (auto simp: blanks_def)
  moreover from this(2) have "alen (ppath s1) = 0" by (auto simp: PS_def pst_def join_def)
  ultimately show ?thesis by (auto simp: mpt_parse_format_pre_def)
qed

section \<open>Events\<close>

text \<open>An event has the elements of the path, the value, and the previous and the current operation.  A handler
  takes a list of events from one state to another.\<close>

type_synonym event = "block list \<times> block option \<times> int \<times> int"

fun handles :: "'s handler \<Rightarrow> event list \<Rightarrow> 's \<Rightarrow> 's \<Rightarrow> bool" where
  "handles save [] s s' \<longleftrightarrow> s = s'"
| "handles save ((es, val, pr, ret) # evs) s s' \<longleftrightarrow>
     (\<exists>s1. (\<forall>m p post keep. pst 46 0 m p es post keep \<longrightarrow> save m p val pr ret s = (0, s1)) \<and> handles save evs s1 s')"

lemma handles_append: "handles save (xs @ ys) s s' \<longleftrightarrow> (\<exists>s1. handles save xs s s1 \<and> handles save ys s1 s')"
proof (induction xs arbitrary: s)
  case (Cons e xs)
  then show ?case by (cases e) auto
qed simp

lemma value_data_PS:
  assumes "PS fs fo st es post keep v xs pr cu" "v \<le> length post" "post \<noteq> []"
  shows "value_data st = Some (take v post)"
proof -
  have p: "pst 46 0 (pmem st) (ppath st) es post keep" using assms(1) by (simp add: PS_def)
  from post_bytes [OF p assms(3)] obtain b r where b: "base_bytes (pmem st) (abase (ppath st)) = Some b"
    "drop (apath_end (ppath st)) b = post @ r" "apath_end (ppath st) \<le> length b" by blast
  have "length b - apath_end (ppath st) = length (post @ r)" using arg_cong [OF b(2), of length] by simp
  then have "apath_end (ppath st) + v \<le> length b" using b(3) assms(2) by simp
  moreover have "pvalid st = v" using assms(1) by (simp add: PS_def)
  ultimately show ?thesis using b assms(2) by (cases "v = 0") (simp_all add: value_data_def rd_def)
qed

lemma PS_next: "PS fs fo st es post keep v xs pr cu \<Longrightarrow>
    PS fs fo (st\<lparr>pprev := pcurr st, pcurr := 0, pvalid := 0\<rparr>) es post keep 0 xs cu 0"
  by (simp add: PS_def)

text \<open>One element of the configuration: an option or a section end is removed from the path, the name of a
  section stays.\<close>

lemma config_remove:
  assumes "nxt st = Some (ret, st1)" "ret \<in> {2, 3, 7}" "PS fs fo st1 (es @ [n]) post keep v xs pr cu" "always_ok mal"
    "handles save [(es @ [n], val, pr, ret)] s s1" "val = (if ret = 7 then Some (take v post) else None)" "ret = 7 \<Longrightarrow> v \<le> length post \<and> post \<noteq> []"
  shows "\<exists>st2. config_loop mal nxt save st s = config_loop mal nxt save st2 s1 \<and> PS fs fo st2 es [] False 0 xs cu 0"
proof -
  have p: "pst 46 0 (pmem st1) (ppath st1) (es @ [n]) post keep" "pprev st1 = pr" using assms(3) by (simp_all add: PS_def)
  have sv: "save (pmem st1) (ppath st1) val pr ret s = (0, s1)" using assms(5) p(1) by auto
  from del_PS [OF assms(3,4)] obtain st2 where
    d: "on_path (mpt_path_del mal) st1 = Some (int (length n), st2)" "PS fs fo st2 es [] False v xs pr cu" by blast
  have b: "nat ret AND 2 \<noteq> 0" "nat ret AND 4 \<noteq> 0 \<longleftrightarrow> ret = 7" "0 < ret" using assms(2) by auto
  have "(if nat ret AND 4 \<noteq> 0 then map_option Some (value_data st1) else Some None) = Some val"
    using assms(6,7) value_data_PS [OF assms(3)] b(2) by auto
  then have "config_loop mal nxt save st s = config_loop mal nxt save (st2\<lparr>pprev := pcurr st2, pcurr := 0, pvalid := 0\<rparr>) s1"
    using assms(1) sv d(1) b p(2) by (subst config_loop.simps) simp
  with PS_next [OF d(2)] show ?thesis by blast
qed

lemma config_keep:
  assumes "nxt st = Some (1, st1)" "PS fs fo st1 es post keep v xs pr cu" "handles save [(es, None, pr, 1)] s s1"
  shows "\<exists>st2. config_loop mal nxt save st s = config_loop mal nxt save st2 s1 \<and> PS fs fo st2 es [] False 0 xs cu 0"
proof -
  have p: "pst 46 0 (pmem st1) (ppath st1) es post keep" "pprev st1 = pr" using assms(2) by (simp_all add: PS_def)
  have sv: "save (pmem st1) (ppath st1) None pr 1 s = (0, s1)" using assms(3) p(1) by auto
  from invalidate_PS [OF assms(2), of mal] obtain r st2 where
    d: "on_path (mpt_path_invalidate mal) st1 = Some (r, st2)" "0 \<le> r" "PS fs fo st2 es [] False v xs pr cu" by blast
  have "config_loop mal nxt save st s = config_loop mal nxt save (st2\<lparr>pprev := pcurr st2, pcurr := 0, pvalid := 0\<rparr>) s1"
    using assms(1) sv d(1,2) p(2) by (subst config_loop.simps) simp
  with PS_next [OF d(3)] show ?thesis by blast
qed

section \<open>Configuration trees\<close>

datatype ctree = Sect block "ctree list" | Opt block block

fun tree_ok :: "parser_format \<Rightarrow> 16 word \<Rightarrow> 16 word \<Rightarrow> ctree \<Rightarrow> bool" where
  "tree_ok f fs fo (Sect n ts) \<longleftrightarrow> name_ok f fs n \<and> (\<forall>t \<in> set ts. tree_ok f fs fo t)"
| "tree_ok f fs fo (Opt n w) \<longleftrightarrow> name_ok f fo n \<and> value_ok f w"

text \<open>The text of a tree, indented by tabulators.\<close>

fun tree_text :: "parser_format \<Rightarrow> nat \<Rightarrow> ctree \<Rightarrow> block" where
  "tree_text f d (Sect n ts) = replicate d 9 @ n @ [32, sstart f, 10] @ concat (map (tree_text f (d + 1)) ts) @
     replicate d 9 @ [send f, 10]"
| "tree_text f d (Opt n w) = replicate d 9 @ n @ [32, fassign f] @ vtext w @ [10]"

abbreviation forest_text :: "parser_format \<Rightarrow> nat \<Rightarrow> ctree list \<Rightarrow> block" where
  "forest_text f d ts \<equiv> concat (map (tree_text f d) ts)"

text \<open>The operation that an element leaves as the previous one, and its events.\<close>

fun last_op :: "ctree \<Rightarrow> int" where
  "last_op (Sect n ts) = 2"
| "last_op (Opt n w) = 0xb"

fun tree_events :: "block list \<Rightarrow> int \<Rightarrow> ctree \<Rightarrow> event list" and forest_events :: "block list \<Rightarrow> int \<Rightarrow> ctree list \<Rightarrow> event list" where
  "tree_events es pr (Sect n ts) = (es @ [n], None, pr, 1) # forest_events (es @ [n]) 9 ts @
     [(es @ [n], None, if ts = [] then 9 else last_op (last ts), 2)]"
| "tree_events es pr (Opt n w) = [(es @ [n], if w = [] then None else Some w, pr, if w = [] then 3 else 7)]"
| "forest_events es pr [] = []"
| "forest_events es pr (t # ts) = tree_events es pr t @ forest_events es (last_op t) ts"

lemma blanks_tabs: "blanks ws \<Longrightarrow> blanks (ws @ replicate d 9)"
  by (auto simp: blanks_def isspace_def)

lemma blanks_line: "blanks [10]" "blanks []"
  by (simp_all add: blanks_def isspace_def)

lemma tree_config:
  assumes "always_ok mal" "regular f"
  defines "nxt \<equiv> mpt_parse_format_pre mal f"
  shows "PS fs fo st es [] False 0 (ws @ tree_text f d t @ xs) pr 0 \<Longrightarrow> blanks ws \<Longrightarrow> tree_ok f fs fo t \<Longrightarrow>
      handles save (tree_events es pr t) s s' \<Longrightarrow>
      \<exists>st' ws'. config_loop mal nxt save st s = config_loop mal nxt save st' s' \<and>
        PS fs fo st' es [] False 0 (ws' @ xs) (last_op t) 0 \<and> blanks ws'"
    and "PS fs fo st es [] False 0 (ws @ forest_text f d ts @ xs) pr 0 \<Longrightarrow> blanks ws \<Longrightarrow> \<forall>t \<in> set ts. tree_ok f fs fo t \<Longrightarrow>
      handles save (forest_events es pr ts) s s' \<Longrightarrow>
      \<exists>st' ws'. config_loop mal nxt save st s = config_loop mal nxt save st' s' \<and>
        PS fs fo st' es [] False 0 (ws' @ xs) (if ts = [] then pr else last_op (last ts)) 0 \<and> blanks ws'"
proof (induction es pr t and es pr ts arbitrary: st ws d xs s s' and st ws d xs s s' rule: tree_events_forest_events.induct)
  case (1 es pr n ts)
  have n: "name_ok f fs n" "\<forall>t \<in> set ts. tree_ok f fs fo t" using 1(4) by simp_all
  from 1(5) obtain s1 s2 where h: "handles save [(es @ [n], None, pr, 1)] s s1" "handles save (forest_events (es @ [n]) 9 ts) s1 s2"
    "handles save [(es @ [n], None, if ts = [] then 9 else last_op (last ts), 2)] s2 s'"
    by (auto simp: handles_append)
  let ?r = "replicate d 9 @ [send f, 10] @ xs"
  have p: "PS fs fo st es [] False 0 ((ws @ replicate d 9) @ n @ 32 # sstart f # (10 # forest_text f (d + 1) ts @ ?r)) pr 0"
    using 1(2) by simp
  from pre_section [OF p assms(1,2) n(1) blanks_tabs [OF 1(3)]] obtain st1 where
    st1: "nxt st = Some (1, st1)" "PS fs fo st1 (es @ [n]) [sstart f] False (length n) (10 # forest_text f (d + 1) ts @ ?r) pr 9"
    unfolding nxt_def by blast
  from config_keep [where nxt = nxt and st = st and mal = mal, OF st1 h(1)] obtain st2 where
    st2: "config_loop mal nxt save st s = config_loop mal nxt save st2 s1"
      "PS fs fo st2 (es @ [n]) [] False 0 ([10] @ forest_text f (d + 1) ts @ ?r) 9 0" by auto
  from 1(1) [OF st2(2) blanks_line(1) n(2) h(2)] obtain st3 ws' where
    st3: "config_loop mal nxt save st2 s1 = config_loop mal nxt save st3 s2" "blanks ws'"
      "PS fs fo st3 (es @ [n]) [] False 0 (ws' @ ?r) (if ts = [] then 9 else last_op (last ts)) 0" by blast
  have p3: "PS fs fo st3 (es @ [n]) [] False 0 ((ws' @ replicate d 9) @ send f # 10 # xs) (if ts = [] then 9 else last_op (last ts)) 0"
    using st3(3) by simp
  from pre_close [OF p3 assms(1,2) blanks_tabs [OF st3(2)]] obtain st4 where
    st4: "nxt st3 = Some (2, st4)" "PS fs fo st4 (es @ [n]) [send f] False 0 (10 # xs) (if ts = [] then 9 else last_op (last ts)) 2"
    unfolding nxt_def by blast
  from config_remove [where nxt = nxt and st = st3, OF st4(1) _ st4(2) assms(1) h(3)] obtain st5 where
    st5: "config_loop mal nxt save st3 s2 = config_loop mal nxt save st5 s'" "PS fs fo st5 es [] False 0 ([10] @ xs) 2 0" by auto
  show ?case using st2(1) st3(1) st5 blanks_line(1) by (intro exI [of _ st5] exI [of _ "[10]"]) simp
next
  case (2 es pr n w)
  have n: "name_ok f fo n" "value_ok f w" using 2(3) by simp_all
  have p: "PS fs fo st es [] False 0 ((ws @ replicate d 9) @ n @ 32 # fassign f # vtext w @ 10 # xs) pr 0" using 2(1) by simp
  let ?ret = "if w = [] then 3 else 7 :: int"
  from pre_option [OF p assms(1,2) n blanks_tabs [OF 2(2)]] obtain st1 k where
    st1: "nxt st = Some (?ret, st1)" "PS fs fo st1 (es @ [n]) (w @ [10]) k (length w) xs pr 0xb"
    unfolding nxt_def by blast
  have h: "handles save [(es @ [n], if w = [] then None else Some w, pr, ?ret)] s s'" using 2(4) by simp
  have r: "?ret \<in> {2, 3, 7}" "(if w = [] then None else Some w) = (if ?ret = 7 then Some (take (length w) (w @ [10])) else None)"
    "?ret = 7 \<Longrightarrow> length w \<le> length (w @ [10]) \<and> w @ [10] \<noteq> []" by auto
  from config_remove [where nxt = nxt and st = st, OF st1(1) r(1) st1(2) assms(1) h r(2,3)] obtain st2 where
    "config_loop mal nxt save st s = config_loop mal nxt save st2 s'" "PS fs fo st2 es [] False 0 ([] @ xs) 0xb 0" by auto
  with blanks_line(2) show ?case by (intro exI [of _ st2] exI [of _ "[]"]) simp
next
  case (3 es pr)
  then show ?case by auto
next
  case (4 es pr t ts)
  from 4(6) obtain s1 where h: "handles save (tree_events es pr t) s s1" "handles save (forest_events es (last_op t) ts) s1 s'"
    by (auto simp: handles_append)
  have t: "tree_ok f fs fo t" "\<forall>t \<in> set ts. tree_ok f fs fo t" using 4(5) by simp_all
  have p: "PS fs fo st es [] False 0 (ws @ tree_text f d t @ (forest_text f d ts @ xs)) pr 0" using 4(3) by simp
  from 4(1) [OF p 4(4) t(1) h(1)] obtain st1 ws1 where
    st1: "config_loop mal nxt save st s = config_loop mal nxt save st1 s1" "blanks ws1"
      "PS fs fo st1 es [] False 0 (ws1 @ forest_text f d ts @ xs) (last_op t) 0" by blast
  from 4(2) [OF st1(3,2) t(2) h(2)] obtain st2 ws2 where
    "config_loop mal nxt save st1 s1 = config_loop mal nxt save st2 s'" "blanks ws2"
    "PS fs fo st2 es [] False 0 (ws2 @ xs) (if ts = [] then last_op t else last_op (last ts)) 0" by blast
  with st1(1) show ?case by (intro exI [of _ st2] exI [of _ ws2]) (auto split: if_splits)
qed

text \<open>A whole text with a handler that follows its events.\<close>

definition context_ok :: "16 word \<Rightarrow> 16 word \<Rightarrow> int \<Rightarrow> block \<Rightarrow> parser_context \<Rightarrow> bool" where
  "context_ok fs fo pr xs c \<longleftrightarrow> inp c = map uint xs \<and> pvalid c = 0 \<and> pprev c = pr \<and> pcurr c = 0 \<and> psect c = fs \<and> popt c = fo"

lemma config_handles:
  assumes "always_ok mal" "mem_ok m" "regular f" "\<forall>t \<in> set ts. tree_ok f fs fo t" "length (forest_text f 0 ts) < 2 ^ 16"
    "context_ok fs fo pr (forest_text f 0 ts) c" "handles save (forest_events [] pr ts) s s'"
  shows "\<exists>st'. mpt_parse_config mal (mpt_parse_format_pre mal f) save c m s = Some (0, st', s')"
proof -
  let ?st = "parser_context.extend c \<lparr>pmem = m, ppath = APATH_INIT\<rparr>" and ?nxt = "mpt_parse_format_pre mal f"
  have "PS fs fo ?st [] [] False 0 ([] @ forest_text f 0 ts @ []) pr 0"
    using assms(2,5,6) pst_init [OF assms(2)]
    by (simp add: PS_def context_ok_def parser_context.defs path_size_def join_def)
  from tree_config(2) [OF assms(1,3) this blanks_line(2) assms(4,7)] obtain st1 ws where
    st1: "config_loop mal ?nxt save ?st s = config_loop mal ?nxt save st1 s'" "blanks ws"
      "PS fs fo st1 [] [] False 0 (ws @ []) (if ts = [] then pr else last_op (last ts)) 0" by blast
  have p1: "PS fs fo st1 [] [] False 0 ws (if ts = [] then pr else last_op (last ts)) 0" using st1(3) by simp
  from pre_eof [OF p1 st1(2), of mal f] obtain st2 where
    st2: "?nxt st1 = Some (0, st2)" "PS fs fo st2 [] [] False 0 [] (if ts = [] then pr else last_op (last ts)) 0" by blast
  have "config_loop mal ?nxt save st1 s' = Some (0, st2, s')" using st2(1) by (subst config_loop.simps) simp
  moreover have "pst 46 0 (pmem st2) (ppath st2) [] [] False" using st2(2) by (simp add: PS_def)
  ultimately show ?thesis using st1(1) fini_pst [of 46 0 "pmem st2" "ppath st2" "[]" "[]" False]
    by (auto simp: mpt_parse_config_def)
qed

section \<open>Properties\<close>

text \<open>The elements of a path, and a handler that records its calls.\<close>

fun splits :: "byte \<Rightarrow> block \<Rightarrow> block list" where
  "splits sep [] = [[]]"
| "splits sep (c # cs) = (if c = sep then [] # splits sep cs
     else case splits sep cs of [] \<Rightarrow> [[c]] | x # xs \<Rightarrow> (c # x) # xs)"

definition path_elems :: "bmem \<Rightarrow> apath \<Rightarrow> block list" where
  "path_elems m p = (if alen p = 0 then []
     else case base_bytes m (abase p) of None \<Rightarrow> [] | Some b \<Rightarrow> splits (asep p) (take (alen p - 1) (drop (aoff p) b)))"

definition record_event :: "event list handler" where
  "record_event m p val pr ret s = (0, s @ [(path_elems m p, val, pr, ret)])"

lemma splits_word: "sep \<notin> set e \<Longrightarrow> splits sep e = [e]"
  by (induction e) auto

lemma splits_cons: "sep \<notin> set e \<Longrightarrow> splits sep (e @ sep # r) = e # splits sep r"
  by (induction e) auto

lemma splits_join: "\<forall>e \<in> set (es @ [x]). sep \<notin> set e \<Longrightarrow> splits sep (concat (map (\<lambda>e. e @ [sep]) es) @ x) = es @ [x]"
  by (induction es) (auto simp: splits_word splits_cons)

lemma path_elems_pst:
  assumes "pst sep asg m p es post keep"
  shows "path_elems m p = es"
  using assms
proof (cases rule: pstE)
  case (buf a t)
  from buf(2) obtain b where b: "getb m a = Some b" "join sep t es @ post = take (length (join sep t es @ post)) (bdata b)" by (rule ownedE) blast
  show ?thesis
  proof (cases es rule: rev_cases)
    case (snoc fs x)
    have d: "bdata b = join sep t es @ post @ drop (length (join sep t es @ post)) (bdata b)" using b(2) append_take_drop_id by (metis append.assoc)
    have j: "join sep t es = (concat (map (\<lambda>e. e @ [sep]) fs) @ x) @ [t]" unfolding snoc by (simp add: join_def)
    have "take (alen p - 1) (bdata b) = concat (map (\<lambda>e. e @ [sep]) fs) @ x" using buf(4) by (subst d) (simp add: j)
    moreover have "asep p = sep" "\<forall>e \<in> set (fs @ [x]). sep \<notin> set e" using assms snoc by (auto simp: pst_def)
    ultimately show ?thesis using buf b(1) snoc splits_join [of fs x sep] by (simp add: path_elems_def base_bytes_def)
  qed (use buf in \<open>simp add: path_elems_def join_def\<close>)
qed (simp add: path_elems_def)

lemma record_handles: "handles record_event evs s (s @ evs)"
proof (induction evs arbitrary: s)
  case (Cons e evs)
  obtain es val pr ret where e: "e = (es, val, pr, ret)" by (cases e) auto
  have "record_event m p val pr ret s = (0, s @ [e])" if "pst 46 0 m p es post keep" for m p post keep
    using path_elems_pst [OF that] by (simp add: record_event_def e)
  then show ?case using Cons.IH [of "s @ [e]"] by (auto simp: e)
qed simp

text \<open>Property C9: the parser of the prepending format reads back the text of every configuration: for a tree
  of sections and options with names the context accepts, the handler is called for exactly the starts
  and ends of the sections and the options, in the order of the text, with their full paths and values,
  and the parser returns without an error and with everything read.\<close>

theorem parse_print:
  assumes "always_ok mal" and "mem_ok m" and "regular f" and "\<forall>t \<in> set ts. tree_ok f fs fo t"
    and "length (forest_text f 0 ts) < 2 ^ 16" and "context_ok fs fo pr (forest_text f 0 ts) c"
  shows "\<exists>st'. mpt_parse_config mal (mpt_parse_format_pre mal f) record_event c m [] =
    Some (0, st', forest_events [] pr ts)"
  using config_handles [OF assms record_handles [of _ "[]"]] by simp

definition forest0 :: "ctree list" where
  "forest0 = [Opt [97] [49, 32, 50], Sect [98] [Opt [99] [], Sect [100] []], Opt [101] [120]]"

theorem parse_print_witness:
  "\<exists>st'. mpt_parse_config first_fit (mpt_parse_format_pre first_fit MPT_PARSER_FORMAT_INIT) record_event
      \<lparr>inp = map uint (forest_text MPT_PARSER_FORMAT_INIT 0 forest0), pline = 1, psect = 0xff, popt = 0xff,
        pvalid = 0, pprev = 1, pcurr = 0\<rparr> bmem_init [] =
    Some (0, st', [([[97]], Some [49, 32, 50], 1, 7), ([[98]], None, 0xb, 1), ([[98], [99]], None, 9, 3),
      ([[98], [100]], None, 0xb, 1), ([[98], [100]], None, 9, 2), ([[98]], None, 2, 2), ([[101]], Some [120], 2, 7)])"
proof -
  let ?f = MPT_PARSER_FORMAT_INIT
  have r: "regular ?f" by (simp add: regular_def MPT_PARSER_FORMAT_INIT_def isspace_def)
  have t: "\<forall>t \<in> set forest0. tree_ok ?f 0xff 0xff t"
    by (simp add: forest0_def name_ok_def accepted_def plain_def value_ok_def vchar_def MPT_PARSER_FORMAT_INIT_def isspace_def
      isdigit_def isprint_def isalnum_def isupper_def islower_def)
  have l: "length (forest_text ?f 0 forest0) < 2 ^ 16" by (simp add: forest0_def vtext_def)
  have c: "context_ok 0xff 0xff 1 (forest_text ?f 0 forest0) \<lparr>inp = map uint (forest_text ?f 0 forest0), pline = 1,
      psect = 0xff, popt = 0xff, pvalid = 0, pprev = 1, pcurr = 0\<rparr>" by (simp add: context_ok_def)
  have e: "forest_events [] 1 forest0 = [([[97]], Some [49, 32, 50], 1, 7), ([[98]], None, 0xb, 1), ([[98], [99]], None, 9, 3),
      ([[98], [100]], None, 0xb, 1), ([[98], [100]], None, 9, 2), ([[98]], None, 2, 2), ([[101]], Some [120], 2, 7)]"
    by (simp add: forest0_def)
  show ?thesis using parse_print [OF first_fit_ok bmem_init_ok r t l c] unfolding e .
qed

end
