(* ===== verification/Node.thy ===== *)
theory Node
  imports Identifier "HOL-Library.Multiset"
begin

text \<open>
  Nodes of lists and trees: the link operations of \<open>mptcore/node/\<close> (\<open>gnode_after.c\<close>,
  \<open>gnode_before.c\<close>, \<open>gnode_pos.c\<close>, \<open>node_unlink.c\<close>, \<open>gnode_swap.c\<close>, \<open>gnode_relink.c\<close>,
  \<open>gnode_level.c\<close>, \<open>node_insert.c\<close>).

  A node is an object of a heap, a pointer its address and the null pointer the address 0.  The
  operations read and write single links in the order of the source, so that aliasing of their
  arguments shows in the result.  A call is \<open>None\<close> when it dereferences a null or dangling pointer or
  does not return.  The predicate \<open>sibs\<close> relates a heap to the list of trees below one parent.
\<close>

section \<open>Heap of nodes\<close>

type_synonym ptr = nat

record node =
  nmeta :: ptr
  nnext :: ptr
  nprev :: ptr
  nparent :: ptr
  nchildren :: ptr
  nident :: mpt_identifier

type_synonym heap = "ptr \<Rightarrow> node option"

definition load :: "heap \<Rightarrow> ptr \<Rightarrow> node option" where
  "load h p = (if p = 0 then None else h p)"

definition upd :: "heap \<Rightarrow> ptr \<Rightarrow> (node \<Rightarrow> node) \<Rightarrow> heap option" where
  "upd h p f = do { n \<leftarrow> load h p; Some (h(p \<mapsto> f n)) }"

abbreviation set_next :: "heap \<Rightarrow> ptr \<Rightarrow> ptr \<Rightarrow> heap option" where
  "set_next h p q \<equiv> upd h p (\<lambda>n. n\<lparr>nnext := q\<rparr>)"
abbreviation set_prev :: "heap \<Rightarrow> ptr \<Rightarrow> ptr \<Rightarrow> heap option" where
  "set_prev h p q \<equiv> upd h p (\<lambda>n. n\<lparr>nprev := q\<rparr>)"
abbreviation set_parent :: "heap \<Rightarrow> ptr \<Rightarrow> ptr \<Rightarrow> heap option" where
  "set_parent h p q \<equiv> upd h p (\<lambda>n. n\<lparr>nparent := q\<rparr>)"
abbreviation set_children :: "heap \<Rightarrow> ptr \<Rightarrow> ptr \<Rightarrow> heap option" where
  "set_children h p q \<equiv> upd h p (\<lambda>n. n\<lparr>nchildren := q\<rparr>)"

section \<open>Operations\<close>

definition mpt_gnode_after :: "heap \<Rightarrow> ptr \<Rightarrow> ptr \<Rightarrow> (ptr \<times> heap) option" where
  "mpt_gnode_after h position ins =
     (if ins = 0 then Some (0, h)
      else if position = 0 \<or> ins = position then Some (ins, h)
      else do {
        h \<leftarrow> set_prev h ins position;
        p \<leftarrow> load h position;
        h \<leftarrow> set_next h ins (nnext p);
        h \<leftarrow> set_next h position ins;
        p \<leftarrow> load h position;
        h \<leftarrow> set_parent h ins (nparent p);
        i \<leftarrow> load h ins;
        h \<leftarrow> (if nnext i \<noteq> 0 then set_prev h (nnext i) ins else Some h);
        Some (ins, h) })"

definition mpt_gnode_before :: "heap \<Rightarrow> ptr \<Rightarrow> ptr \<Rightarrow> (ptr \<times> heap) option" where
  "mpt_gnode_before h position ins =
     (if ins = 0 then Some (0, h)
      else if position = 0 \<or> ins = position then Some (ins, h)
      else do {
        p \<leftarrow> load h position;
        h \<leftarrow> set_prev h ins (nprev p);
        h \<leftarrow> set_next h ins position;
        h \<leftarrow> set_prev h position ins;
        p \<leftarrow> load h position;
        h \<leftarrow> set_parent h ins (nparent p);
        i \<leftarrow> load h ins;
        h \<leftarrow> (if nprev i \<noteq> 0 then set_next h (nprev i) ins
             else if nparent i \<noteq> 0 then set_children h (nparent i) ins else Some h);
        Some (ins, h) })"

text \<open>Positions relative to a node: predecessors, successors, the end of the list.\<close>

primrec back_steps :: "heap \<Rightarrow> nat \<Rightarrow> ptr \<Rightarrow> ptr option" where
  "back_steps h 0 p = Some p"
| "back_steps h (Suc k) p = (if p = 0 then Some 0 else do { n \<leftarrow> load h p; back_steps h k (nprev n) })"

primrec next_steps :: "heap \<Rightarrow> nat \<Rightarrow> ptr \<Rightarrow> ptr option" where
  "next_steps h 0 p = Some p"
| "next_steps h (Suc k) p = (if p = 0 then Some 0 else do { n \<leftarrow> load h p; next_steps h k (nnext n) })"

partial_function (option) last_node :: "heap \<Rightarrow> ptr \<Rightarrow> ptr option" where
  "last_node h p = do { n \<leftarrow> load h p; if nnext n \<noteq> 0 then last_node h (nnext n) else Some p }"

definition mpt_gnode_pos :: "heap \<Rightarrow> ptr \<Rightarrow> int \<Rightarrow> ptr option" where
  "mpt_gnode_pos h node pos =
     (if node = 0 then Some 0
      else if pos < 0 then back_steps h (nat (- pos)) node
      else if pos \<noteq> 0 then next_steps h (nat (pos - 1)) node
      else last_node h node)"

definition mpt_node_unlink :: "heap \<Rightarrow> ptr \<Rightarrow> (ptr \<times> heap) option" where
  "mpt_node_unlink h cur =
     (if cur = 0 then Some (0, h)
      else do {
        c \<leftarrow> load h cur;
        let next = nnext c;
        h \<leftarrow> (if next \<noteq> 0 then set_prev h next (nprev c) else Some h);
        c \<leftarrow> load h cur;
        h \<leftarrow> (if nprev c \<noteq> 0 then set_next h (nprev c) next
             else if nparent c \<noteq> 0 then set_children h (nparent c) next else Some h);
        h \<leftarrow> upd h cur (\<lambda>n. n\<lparr>nnext := 0, nprev := 0, nparent := 0\<rparr>);
        Some (next, h) })"

text \<open>Exchange of the children of two nodes.\<close>

partial_function (option) parent_loop :: "heap \<Rightarrow> ptr \<Rightarrow> ptr \<Rightarrow> heap option" where
  "parent_loop h par p =
     (if p = 0 then Some h
      else do { h \<leftarrow> set_parent h p par; n \<leftarrow> load h p; parent_loop h par (nnext n) })"

definition mpt_gnode_swap :: "heap \<Rightarrow> ptr \<Rightarrow> ptr \<Rightarrow> heap option" where
  "mpt_gnode_swap h pri sec = do {
     p \<leftarrow> load h pri; s \<leftarrow> load h sec;
     let pc = nchildren p; let sc = nchildren s;
     h \<leftarrow> set_children h sec pc;
     h \<leftarrow> set_children h pri sc;
     h \<leftarrow> parent_loop h sec pc;
     parent_loop h pri sc }"

text \<open>Exchange of two nodes with their subtrees: the links of \<open>p\<close> are replaced.\<close>

definition switch_half :: "heap \<Rightarrow> ptr \<Rightarrow> ptr \<Rightarrow> ptr \<Rightarrow> ptr \<Rightarrow> heap option" where
  "switch_half h p old next parent = do {
     h \<leftarrow> set_next h p next;
     (if next \<noteq> 0 then set_prev h next p
          else do {
            h \<leftarrow> set_parent h p parent;
            if parent = 0 then Some h
            else do { t \<leftarrow> load h parent;
                      if nchildren t = old then set_children h parent p else Some h } }) }"

definition mpt_gnode_switch :: "heap \<Rightarrow> ptr \<Rightarrow> ptr \<Rightarrow> heap option" where
  "mpt_gnode_switch h pri sec = do {
     p \<leftarrow> load h pri;
     let parent = nparent p; let next = nnext p; let prev = nprev p;
     s \<leftarrow> load h sec;
     h \<leftarrow> switch_half h pri sec (nnext s) (nparent s);
     s \<leftarrow> load h sec;
     let tmp = nprev s;
     h \<leftarrow> set_prev h pri tmp;
     h \<leftarrow> (if tmp \<noteq> 0 then set_next h tmp pri else Some h);
     h \<leftarrow> switch_half h sec pri next parent;
     h \<leftarrow> set_prev h sec prev;
     (if prev \<noteq> 0 then set_next h prev sec else Some h) }"

text \<open>Restoring the links of a tree from the links to first child and next sibling.\<close>

definition relink_next :: "heap \<Rightarrow> ptr \<Rightarrow> heap option" where
  "relink_next h p = do {
     n \<leftarrow> load h p;
     if nnext n \<noteq> 0 then do {
       h \<leftarrow> set_parent h (nnext n) (nparent n); set_prev h (nnext n) p }
     else Some h }"

partial_function (option) relink_loop :: "heap \<Rightarrow> ptr \<Rightarrow> ptr \<Rightarrow> heap option" where
  "relink_loop h start p =
     (if p = 0 \<or> p = start then Some h
      else do {
        n \<leftarrow> load h p;
        (h, p) \<leftarrow> (if nchildren n \<noteq> 0 then do {
            h \<leftarrow> set_parent h (nchildren n) p;
            h \<leftarrow> relink_next h p;
            Some (h, nchildren n) } else Some (h, p));
        n \<leftarrow> load h p;
        if nnext n \<noteq> 0 then do { h \<leftarrow> relink_next h p; relink_loop h start (nnext n) }
        else do { u \<leftarrow> load h (nparent n); relink_loop h start (nnext u) } })"

definition mpt_gnode_relink :: "heap \<Rightarrow> ptr \<Rightarrow> heap option" where
  "mpt_gnode_relink h p =
     (if p = 0 then Some h
      else do {
        n \<leftarrow> load h p;
        h \<leftarrow> (if nchildren n \<noteq> 0 then set_parent h (nchildren n) p else Some h);
        relink_loop h p (nchildren n) })"

text \<open>The next node of a level, and the first node of the level below.\<close>

partial_function (option) level_loop :: "(ptr \<Rightarrow> ptr option) \<Rightarrow> heap \<Rightarrow> ptr \<Rightarrow> ptr option" where
  "level_loop step h p = do {
     q \<leftarrow> step p;
     if q = 0 then Some 0
     else do { n \<leftarrow> load h q; if nchildren n \<noteq> 0 then Some (nchildren n) else level_loop step h q } }"

primrec mpt_gnode_samelevel :: "heap \<Rightarrow> nat \<Rightarrow> ptr \<Rightarrow> ptr option" where
  "mpt_gnode_samelevel h 0 start =
     (if start = 0 then Some 0 else map_option nnext (load h start))"
| "mpt_gnode_samelevel h (Suc up) start =
     (if start = 0 then Some 0
      else do {
        n \<leftarrow> load h start;
        if nnext n \<noteq> 0 then Some (nnext n)
        else level_loop (mpt_gnode_samelevel h up) h (nparent n) })"

partial_function (option) mpt_gnode_sublevel :: "heap \<Rightarrow> nat \<Rightarrow> ptr \<Rightarrow> ptr option" where
  "mpt_gnode_sublevel h up start =
     (if start = 0 then Some 0
      else do {
        n \<leftarrow> load h start;
        if nchildren n \<noteq> 0 then Some (nchildren n)
        else do { q \<leftarrow> mpt_gnode_samelevel h up start; mpt_gnode_sublevel h up q } })"

text \<open>Insertion at a position; \<open>getnode\<close> finds the node at a position relative to another.\<close>

definition node_insert ::
  "(heap \<Rightarrow> ptr \<Rightarrow> int \<Rightarrow> ptr option) \<Rightarrow> heap \<Rightarrow> ptr \<Rightarrow> int \<Rightarrow> ptr \<Rightarrow> heap option" where
  "node_insert getnode h first pos node = do {
     start \<leftarrow> getnode h first (if 0 < pos then 1 else 0);
     tmp \<leftarrow> (if start = 0 \<or> pos = 0 \<or> pos = 1 then Some start else getnode h start pos);
     (tmp, pos) \<leftarrow> (if tmp \<noteq> 0 then Some (tmp, pos)
       else if start \<noteq> 0 then do { t \<leftarrow> getnode h first (if pos < 0 then 1 else 0); Some (t, - pos) }
       else do { t \<leftarrow> mpt_gnode_pos h first 0; Some (t, 0) });
     map_option snd (if pos < 1 then mpt_gnode_after h tmp node else mpt_gnode_before h tmp node) }"

definition mpt_gnode_add :: "heap \<Rightarrow> ptr \<Rightarrow> int \<Rightarrow> ptr \<Rightarrow> (ptr \<times> heap) option" where
  "mpt_gnode_add h first pos node =
     (if first = 0 \<or> node = 0 then Some (node, h)
      else do { h \<leftarrow> node_insert mpt_gnode_pos h first pos node; Some (node, h) })"

definition gnode_insert_with ::
  "(heap \<Rightarrow> ptr \<Rightarrow> int \<Rightarrow> ptr option) \<Rightarrow> heap \<Rightarrow> ptr \<Rightarrow> int \<Rightarrow> ptr \<Rightarrow> (int \<times> heap) option" where
  "gnode_insert_with getnode h parent pos node =
     (if node = 0 then Some (- 1, h)
      else do {
        n \<leftarrow> load h parent;
        if nchildren n = 0 then do {
          h \<leftarrow> set_children h parent node; h \<leftarrow> set_parent h node parent; Some (0, h) }
        else do { h \<leftarrow> node_insert getnode h (nchildren n) pos node; Some (0, h) } })"

definition mpt_gnode_insert :: "heap \<Rightarrow> ptr \<Rightarrow> int \<Rightarrow> ptr \<Rightarrow> (int \<times> heap) option" where
  "mpt_gnode_insert = gnode_insert_with mpt_gnode_pos"

section \<open>Trees in the heap\<close>

text \<open>A tree is the address of a node with the trees of its children; \<open>repr h par pv ts nx\<close> holds when
  the heap has the sibling trees \<open>ts\<close> below the parent \<open>par\<close> between the nodes \<open>pv\<close> and \<open>nx\<close>.\<close>

datatype ntree = NT (root: ptr) (kids: "ntree list")

definition first :: "ntree list \<Rightarrow> ptr \<Rightarrow> ptr" where
  "first ts nx = (case ts of [] \<Rightarrow> nx | t # _ \<Rightarrow> root t)"

definition final :: "ptr \<Rightarrow> ntree list \<Rightarrow> ptr" where
  "final pv ts = (if ts = [] then pv else root (last ts))"

fun addrs :: "ntree list \<Rightarrow> ptr list" where
  "addrs [] = []"
| "addrs (NT p cs # ts) = p # addrs cs @ addrs ts"

fun repr :: "heap \<Rightarrow> ptr \<Rightarrow> ptr \<Rightarrow> ntree list \<Rightarrow> ptr \<Rightarrow> bool" where
  "repr h par pv [] nx = True"
| "repr h par pv (NT p cs # ts) nx =
     (p \<noteq> 0 \<and>
      (case h p of None \<Rightarrow> False
       | Some n \<Rightarrow> nparent n = par \<and> nprev n = pv \<and> nnext n = first ts nx \<and> nchildren n = first cs 0) \<and>
      repr h p 0 cs 0 \<and> repr h par p ts nx)"

definition sibs :: "heap \<Rightarrow> ptr \<Rightarrow> ntree list \<Rightarrow> bool" where
  "sibs h par ts \<longleftrightarrow> repr h par 0 ts 0 \<and> distinct (addrs ts) \<and>
     (if par = 0 then True
      else par \<notin> set (addrs ts) \<and> (case h par of None \<Rightarrow> False | Some n \<Rightarrow> nchildren n = first ts 0))"

lemma first_simps [simp]: "first [] nx = nx" "first (NT p cs # ts) nx = p"
  by (simp_all add: first_def)

lemma first_append [simp]: "first (xs @ ys) nx = first xs (first ys nx)"
  by (simp add: first_def split: list.split)

lemma final_simps [simp]: "final pv [] = pv" "final pv (xs @ [NT p cs]) = p"
  "final pv (NT p cs # ts) = final p ts"
  by (simp_all add: final_def)

lemma final_append [simp]: "final pv (xs @ ys) = final (final pv xs) ys"
  by (simp add: final_def)

lemma addrs_append [simp]: "addrs (xs @ ys) = addrs xs @ addrs ys"
  by (induction xs rule: addrs.induct) auto

lemma repr_append [simp]:
  "repr h par pv (xs @ ys) nx \<longleftrightarrow> repr h par pv xs (first ys nx) \<and> repr h par (final pv xs) ys nx"
proof (induction xs arbitrary: pv)
  case (Cons t xs)
  obtain p cs where "t = NT p cs" by (cases t)
  with Cons show ?case by (auto split: option.splits)
qed simp

lemma repr_other [simp]:
  "a \<notin> set (addrs ts) \<Longrightarrow> repr (h(a := v)) par pv ts nx \<longleftrightarrow> repr h par pv ts nx"
  by (induction h par pv ts nx rule: repr.induct) auto

lemma repr_frame:
  "(\<And>a. a \<in> set (addrs ts) \<Longrightarrow> h' a = h a) \<Longrightarrow> repr h' par pv ts nx \<longleftrightarrow> repr h par pv ts nx"
  by (induction h par pv ts nx rule: repr.induct) auto

lemma repr_nonnull: "repr h par pv ts nx \<Longrightarrow> a \<in> set (addrs ts) \<Longrightarrow> a \<noteq> 0 \<and> h a \<noteq> None"
  by (induction h par pv ts nx rule: repr.induct) (auto split: option.splits)

lemma tree_list_end: "xs = [] \<or> (\<exists>ys p cs. xs = ys @ [NT p cs])"
  by (metis ntree.exhaust rev_exhaust)

lemma tree_list_start: "xs = [] \<or> (\<exists>ys p cs. xs = NT p cs # ys)"
  by (metis ntree.exhaust list.exhaust)

lemmas node_access = load_def upd_def

text \<open>A new link of the first node of a list backwards, and of its last node forwards.\<close>

definition put_prev :: "heap \<Rightarrow> ntree list \<Rightarrow> ptr \<Rightarrow> heap" where
  "put_prev h ts q = (case ts of [] \<Rightarrow> h | t # _ \<Rightarrow> h(root t := map_option (\<lambda>n. n\<lparr>nprev := q\<rparr>) (h (root t))))"

definition put_next :: "heap \<Rightarrow> ntree list \<Rightarrow> ptr \<Rightarrow> heap" where
  "put_next h ts q = (if ts = [] then h
     else h(root (last ts) := map_option (\<lambda>n. n\<lparr>nnext := q\<rparr>) (h (root (last ts)))))"

lemma root_in_addrs [simp]: "t \<in> set ts \<Longrightarrow> root t \<in> set (addrs ts)"
  by (induction ts rule: addrs.induct) auto

lemma put_prev_other [simp]: "a \<notin> set (addrs ts) \<Longrightarrow> put_prev h ts q a = h a"
  by (cases ts rule: addrs.cases) (auto simp: put_prev_def)

lemma put_next_other [simp]: "a \<notin> set (addrs ts) \<Longrightarrow> put_next h ts q a = h a"
  by (auto simp: put_next_def)

lemma repr_put_prev:
  "repr h par pv ts nx \<Longrightarrow> distinct (addrs ts) \<Longrightarrow> repr (put_prev h ts q) par q ts nx"
  by (cases ts rule: addrs.cases) (auto simp: put_prev_def split: option.splits)

lemma repr_put_next:
  assumes "repr h par pv ts nx" "distinct (addrs ts)"
  shows "repr (put_next h ts q) par pv ts q"
  using tree_list_end [of ts]
proof (elim disjE exE)
  fix ys p cs assume "ts = ys @ [NT p cs]"
  with assms show ?thesis by (auto simp: put_next_def split: option.splits)
qed simp

lemma put_prev_frame [simp]:
  "set (addrs us) \<inter> set (addrs ts) = {} \<Longrightarrow> repr (put_prev h ts q) par pv us nx \<longleftrightarrow> repr h par pv us nx"
  by (rule repr_frame, rule put_prev_other) auto

lemma put_next_frame [simp]:
  "set (addrs us) \<inter> set (addrs ts) = {} \<Longrightarrow> repr (put_next h ts q) par pv us nx \<longleftrightarrow> repr h par pv us nx"
  by (rule repr_frame, rule put_next_other) auto

lemma set_prev_first:
  "repr h par pv ts 0 \<Longrightarrow> (if first ts 0 \<noteq> 0 then set_prev h (first ts 0) q else Some h) = Some (put_prev h ts q)"
  by (cases ts rule: addrs.cases) (auto simp: put_prev_def node_access split: option.splits)

lemma set_next_final:
  "repr h par 0 ts nx \<Longrightarrow> ts \<noteq> [] \<Longrightarrow> final 0 ts \<noteq> 0 \<and> set_next h (final 0 ts) q = Some (put_next h ts q)"
  using tree_list_end [of ts] by (auto simp: put_next_def node_access split: option.splits)

section \<open>Insertion and removal\<close>

lemma sibs_parts:
  assumes "sibs h par (xs @ NT p cs # ys)"
  shows "repr h par 0 xs p" "p \<noteq> 0" "repr h p 0 cs 0" "repr h par p ys 0"
    "\<exists>n. h p = Some n \<and> nparent n = par \<and> nprev n = final 0 xs \<and> nnext n = first ys 0 \<and> nchildren n = first cs 0"
    "distinct (addrs xs)" "distinct (addrs cs)" "distinct (addrs ys)"
    "p \<notin> set (addrs xs)" "p \<notin> set (addrs cs)" "p \<notin> set (addrs ys)"
    "set (addrs xs) \<inter> set (addrs cs) = {}" "set (addrs xs) \<inter> set (addrs ys) = {}"
    "set (addrs cs) \<inter> set (addrs ys) = {}"
    "par \<noteq> 0 \<Longrightarrow> par \<notin> set (addrs (xs @ NT p cs # ys)) \<and> (\<exists>n. h par = Some n \<and> nchildren n = first xs p)"
    "set (addrs cs) \<inter> set (addrs xs) = {}" "set (addrs ys) \<inter> set (addrs xs) = {}"
    "set (addrs ys) \<inter> set (addrs cs) = {}"
  using assms by (auto simp: sibs_def split: option.splits)

lemma single_parts:
  assumes "sibs h 0 [NT q ds]"
  shows "q \<noteq> 0" "repr h q 0 ds 0" "distinct (addrs ds)" "q \<notin> set (addrs ds)"
    "\<exists>m. h q = Some m \<and> nparent m = 0 \<and> nprev m = 0 \<and> nnext m = 0 \<and> nchildren m = first ds 0"
  using assms by (auto simp: sibs_def split: option.splits)

lemma apart_parts:
  assumes "set (par # addrs (xs @ NT p cs # ys)) \<inter> set (addrs [NT q ds]) = {}"
  shows "par \<noteq> q" "q \<noteq> p" "q \<notin> set (addrs xs)" "q \<notin> set (addrs cs)" "q \<notin> set (addrs ys)"
    "par \<notin> set (addrs ds)" "p \<notin> set (addrs ds)"
    "set (addrs ds) \<inter> set (addrs xs) = {}" "set (addrs ds) \<inter> set (addrs cs) = {}"
    "set (addrs ds) \<inter> set (addrs ys) = {}" "set (addrs xs) \<inter> set (addrs ds) = {}"
    "set (addrs cs) \<inter> set (addrs ds) = {}" "set (addrs ys) \<inter> set (addrs ds) = {}"
  using assms by auto

lemma after_ok:
  assumes s: "sibs h par (xs @ NT p cs # ys)" and t: "sibs h 0 [NT q ds]"
    and d: "set (par # addrs (xs @ NT p cs # ys)) \<inter> set (addrs [NT q ds]) = {}"
  shows "\<exists>h'. mpt_gnode_after h p q = Some (q, h') \<and> sibs h' par (xs @ NT p cs # NT q ds # ys) \<and>
    (\<forall>a. a \<notin> set (addrs [NT q ds] @ addrs (xs @ NT p cs # ys)) \<longrightarrow> h' a = h a)"
proof -
  note P = sibs_parts [OF s]
  note Q = single_parts [OF t]
  note D = apart_parts [OF d]
  from P(5) obtain n where n: "h p = Some n" "nparent n = par" "nprev n = final 0 xs"
    "nnext n = first ys 0" "nchildren n = first cs 0" by blast
  from Q obtain m where m: "h q = Some m" "nchildren m = first ds 0" by auto
  let ?h = "h(q \<mapsto> m\<lparr>nprev := p, nnext := first ys 0, nparent := par\<rparr>, p \<mapsto> n\<lparr>nnext := q\<rparr>)"
  have ne: "p \<noteq> q" "p \<noteq> 0" "q \<noteq> 0" using d P(2) Q by auto
  have ys: "repr ?h par p ys 0" using P d by simp
  have "mpt_gnode_after h p q = do {
      h \<leftarrow> (if first ys 0 \<noteq> 0 then set_prev ?h (first ys 0) q else Some ?h); Some (q, h) }"
    using n m ne by (simp add: mpt_gnode_after_def load_def upd_def [of _ p] upd_def [of _ q]
        fun_upd_twist cong: if_cong)
  then have "mpt_gnode_after h p q = Some (q, put_prev ?h ys q)"
    unfolding set_prev_first [OF ys] by simp
  moreover have "repr (put_prev ?h ys q) par q ys 0" using repr_put_prev [OF ys] P by simp
  then have "sibs (put_prev ?h ys q) par (xs @ NT p cs # NT q ds # ys)"
    using P Q n m D ne by (auto simp: sibs_def)
  ultimately show ?thesis by auto
qed


lemma before_ok:
  assumes s: "sibs h par (xs @ NT p cs # ys)" and t: "sibs h 0 [NT q ds]"
    and d: "set (par # addrs (xs @ NT p cs # ys)) \<inter> set (addrs [NT q ds]) = {}"
  shows "\<exists>h'. mpt_gnode_before h p q = Some (q, h') \<and> sibs h' par (xs @ NT q ds # NT p cs # ys) \<and>
    (\<forall>a. a \<notin> set (par # addrs [NT q ds] @ addrs (xs @ NT p cs # ys)) \<longrightarrow> h' a = h a)"
proof -
  note P = sibs_parts [OF s]
  note Q = single_parts [OF t]
  note D = apart_parts [OF d]
  from P(5) obtain n where n: "h p = Some n" "nparent n = par" "nprev n = final 0 xs"
    "nnext n = first ys 0" "nchildren n = first cs 0" by blast
  from Q obtain m where m: "h q = Some m" "nchildren m = first ds 0" by auto
  let ?h = "h(q \<mapsto> m\<lparr>nprev := final 0 xs, nnext := p, nparent := par\<rparr>, p \<mapsto> n\<lparr>nprev := q\<rparr>)"
  have ne: "p \<noteq> q" "p \<noteq> 0" "q \<noteq> 0" using d P(2) Q by auto
  have xs: "repr ?h par 0 xs p" using P d by simp
  show ?thesis
  proof (cases "xs = []")
    case False
    have "mpt_gnode_before h p q = Some (q, put_next ?h xs q)"
      using n m ne set_next_final [OF xs False, of q]
      by (simp add: mpt_gnode_before_def load_def upd_def [of _ p] upd_def [of _ q] fun_upd_twist)
    moreover have "repr (put_next ?h xs q) par 0 xs q" using repr_put_next [OF xs] P by simp
    moreover have "repr (put_next ?h xs q) q 0 ds 0" "repr (put_next ?h xs q) p 0 cs 0"
      "repr (put_next ?h xs q) par p ys 0" using P Q D by simp_all
    moreover have "put_next ?h xs q p = Some (n\<lparr>nprev := q\<rparr>)"
      "put_next ?h xs q q = Some (m\<lparr>nprev := final 0 xs, nnext := p, nparent := par\<rparr>)"
      using P d ne by auto
    moreover have "distinct (addrs (xs @ NT q ds # NT p cs # ys))" using P Q d by auto
    moreover have "par \<noteq> 0 \<Longrightarrow> put_next ?h xs q par = h par \<and> par \<notin> set (addrs (xs @ NT q ds # NT p cs # ys))"
      using P(15) d by auto
    moreover have "first xs q = first xs p" using False by (simp add: first_def split: list.split)
    ultimately show ?thesis using P(15) n m ne d by (intro exI [of _ "put_next ?h xs q"]) (auto simp: sibs_def)
  next
    case True
    let ?g = "if par = 0 then ?h else ?h(par := map_option (\<lambda>n. n\<lparr>nchildren := q\<rparr>) (h par))"
    have "mpt_gnode_before h p q = Some (q, ?g)"
      using n m ne True P(15) d by (auto simp: mpt_gnode_before_def node_access fun_upd_twist)
    moreover have "sibs ?g par (NT q ds # NT p cs # ys)"
      using P Q n m d ne True by (auto simp: sibs_def)
    ultimately show ?thesis using True by auto
  qed
qed

lemma unlink_ok:
  assumes s: "sibs h par (xs @ NT p cs # ys)"
  shows "\<exists>h'. mpt_node_unlink h p = Some (first ys 0, h') \<and> sibs h' par (xs @ ys) \<and> sibs h' 0 [NT p cs] \<and>
    (\<forall>a. a \<notin> set (par # addrs (xs @ NT p cs # ys)) \<longrightarrow> h' a = h a)"
proof -
  note P = sibs_parts [OF s]
  from P(5) obtain n where n: "h p = Some n" "nparent n = par" "nprev n = final 0 xs"
    "nnext n = first ys 0" "nchildren n = first cs 0" by blast
  let ?h = "put_prev h ys (final 0 xs)"
  let ?z = "\<lambda>h. h(p \<mapsto> n\<lparr>nnext := 0, nprev := 0, nparent := 0\<rparr>)"
  have ys: "repr ?h par (final 0 xs) ys 0" using repr_put_prev [OF P(4)] P by simp
  have hp: "?h p = Some n" using P n by simp
  have xs: "repr ?h par 0 xs p" using P by simp
  have s1: "(if first ys 0 \<noteq> 0 then set_prev h (first ys 0) (final 0 xs) else Some h) = Some ?h"
    using set_prev_first [OF P(4)] .
  have u: "mpt_node_unlink h p = do {
      h \<leftarrow> (if first ys 0 \<noteq> 0 then set_prev h (first ys 0) (final 0 xs) else Some h);
      c \<leftarrow> load h p;
      h \<leftarrow> (if nprev c \<noteq> 0 then set_next h (nprev c) (first ys 0)
           else if nparent c \<noteq> 0 then set_children h (nparent c) (first ys 0) else Some h);
      h \<leftarrow> upd h p (\<lambda>n. n\<lparr>nnext := 0, nprev := 0, nparent := 0\<rparr>);
      Some (first ys 0, h) }"
    using n P(2) by (simp add: mpt_node_unlink_def load_def Let_def cong: if_cong)
  show ?thesis
  proof (cases "xs = []")
    case False
    from set_next_final [OF xs False] have f: "final 0 xs \<noteq> 0"
      "set_next ?h (final 0 xs) (first ys 0) = Some (put_next ?h xs (first ys 0))" by auto
    have c: "mpt_node_unlink h p = Some (first ys 0, ?z (put_next ?h xs (first ys 0)))"
      unfolding u s1 using n hp P f by (simp add: load_def upd_def [of _ p])
    have "repr (put_next ?h xs (first ys 0)) par 0 xs (first ys 0)"
      using repr_put_next [OF xs] P by simp
    moreover have "repr (put_next ?h xs (first ys 0)) par (final 0 xs) ys 0" using P(13) ys by (simp add: Int_commute)
    moreover have "first xs p = first xs (first ys 0)" using False by (simp add: first_def split: list.split)
    ultimately have "sibs (?z (put_next ?h xs (first ys 0))) par (xs @ ys)"
      using P by (auto simp: sibs_def)
    moreover have "sibs (?z (put_next ?h xs (first ys 0))) 0 [NT p cs]"
      using P n by (simp add: sibs_def)
    ultimately show ?thesis using c by auto
  next
    case True
    let ?g = "if par = 0 then ?h else ?h(par := map_option (\<lambda>n. n\<lparr>nchildren := first ys 0\<rparr>) (h par))"
    have "mpt_node_unlink h p = Some (first ys 0, ?z ?g)"
      unfolding u s1 using n hp P(2,15) True by (auto simp: load_def upd_def)
    moreover have "sibs (?z ?g) par (xs @ ys)" "sibs (?z ?g) 0 [NT p cs]"
      using P n ys True by (auto simp: sibs_def)
    ultimately show ?thesis using True by auto
  qed
qed

section \<open>Positions in a list\<close>

definition at :: "ntree list \<Rightarrow> nat \<Rightarrow> ptr" where
  "at ts i = (if i < length ts then root (ts ! i) else 0)"

lemma sibs_split:
  assumes "i < length ts"
  obtains cs where "ts = take i ts @ NT (at ts i) cs # drop (Suc i) ts"
proof
  show "ts = take i ts @ NT (at ts i) (kids (ts ! i)) # drop (Suc i) ts"
    using assms by (simp add: at_def id_take_nth_drop [symmetric])
qed

lemma sibs_at:
  assumes "sibs h par ts" "i < length ts"
  shows "at ts i \<noteq> 0" "\<exists>n. load h (at ts i) = Some n \<and> nnext n = at ts (Suc i) \<and>
    nprev n = (if i = 0 then 0 else at ts (i - 1))"
proof -
  obtain cs where "ts = take i ts @ NT (at ts i) cs # drop (Suc i) ts"
    using sibs_split [OF assms(2)] .
  with assms(1) have "sibs h par (take i ts @ NT (at ts i) cs # drop (Suc i) ts)" by simp
  note P = sibs_parts [OF this]
  show "at ts i \<noteq> 0" by (rule P(2))
  moreover have "first (drop (Suc i) ts) 0 = at ts (Suc i)"
    by (auto simp: first_def at_def hd_drop_conv_nth [symmetric] split: list.split)
  moreover have "final 0 (take i ts) = (if i = 0 then 0 else at ts (i - 1))"
    using assms(2) by (auto simp: final_def at_def last_conv_nth)
  ultimately show "\<exists>n. load h (at ts i) = Some n \<and> nnext n = at ts (Suc i) \<and>
    nprev n = (if i = 0 then 0 else at ts (i - 1))" using P(5) by (auto simp: load_def)
qed

lemma next_steps_at:
  assumes "sibs h par ts"
  shows "next_steps h k (at ts i) = Some (at ts (i + k))"
proof (induction k arbitrary: i)
  case (Suc k)
  show ?case
  proof (cases "i < length ts")
    case True
    from sibs_at [OF assms True] Suc [of "Suc i"] show ?thesis by auto
  qed (simp add: at_def)
qed simp

lemma back_steps_at:
  assumes "sibs h par ts"
  shows "i < length ts \<Longrightarrow> back_steps h k (at ts i) = Some (if k \<le> i then at ts (i - k) else 0)"
proof (induction k arbitrary: i)
  case (Suc k)
  from sibs_at [OF assms Suc.prems] obtain n where
    n: "at ts i \<noteq> 0" "load h (at ts i) = Some n" "nprev n = (if i = 0 then 0 else at ts (i - 1))" by auto
  show ?case
  proof (cases i)
    case 0
    have "back_steps h k 0 = Some 0" by (cases k) auto
    with n 0 show ?thesis by simp
  next
    case (Suc j)
    with n Suc.IH [of j] Suc.prems show ?thesis by auto
  qed
qed simp

lemma last_node_at:
  assumes "sibs h par ts"
  shows "i < length ts \<Longrightarrow> last_node h (at ts i) = Some (at ts (length ts - 1))"
proof (induction "length ts - i" arbitrary: i)
  case (Suc k)
  from sibs_at [OF assms Suc.prems] obtain n where
    n: "load h (at ts i) = Some n" "nnext n = at ts (Suc i)" by auto
  show ?case
  proof (cases "Suc i < length ts")
    case True
    with Suc.hyps(1) [of "Suc i"] Suc.hyps(2) sibs_at(1) [OF assms True] n show ?thesis
      by (subst last_node.simps) simp
  next
    case False
    with Suc.prems have "i = length ts - 1" "at ts (Suc i) = 0" by (auto simp: at_def)
    with n show ?thesis by (subst last_node.simps) simp
  qed
qed simp

lemma gnode_pos_at:
  assumes "sibs h par ts" "i < length ts"
  shows "mpt_gnode_pos h (at ts i) pos = Some (if pos > 0 then at ts (i + nat (pos - 1))
     else if pos = 0 then at ts (length ts - 1)
     else if nat (- pos) \<le> i then at ts (i - nat (- pos)) else 0)"
  using assms sibs_at(1) [OF assms] next_steps_at [OF assms(1)] back_steps_at [OF assms] last_node_at [OF assms]
  by (auto simp: mpt_gnode_pos_def)

text \<open>The position at which a list of \<open>n\<close> trees is extended.\<close>

definition add_index :: "int \<Rightarrow> nat \<Rightarrow> nat" where
  "add_index pos n = (if 0 < pos then min (nat pos - 1) n else n - nat (- pos))"

definition insert_at :: "nat \<Rightarrow> ntree \<Rightarrow> ntree list \<Rightarrow> ntree list" where
  "insert_at i t ts = take i ts @ t # drop i ts"

definition apart :: "ptr \<Rightarrow> ntree list \<Rightarrow> ntree \<Rightarrow> bool" where
  "apart par ts t \<longleftrightarrow> set (par # addrs ts) \<inter> set (addrs [t]) = {}"

definition same_outside :: "ptr set \<Rightarrow> heap \<Rightarrow> heap \<Rightarrow> bool" where
  "same_outside A h h' \<longleftrightarrow> (\<forall>a. a \<notin> A \<longrightarrow> h' a = h a)"

lemma after_at:
  assumes "sibs h par ts" "i < length ts" "sibs h 0 [t]" "apart par ts t"
  shows "\<exists>h'. mpt_gnode_after h (at ts i) (root t) = Some (root t, h') \<and> sibs h' par (insert_at (Suc i) t ts) \<and>
    same_outside (set (par # addrs (t # ts))) h h'"
proof -
  obtain q ds where t: "t = NT q ds" by (cases t)
  obtain cs where e: "ts = take i ts @ NT (at ts i) cs # drop (Suc i) ts" using sibs_split [OF assms(2)] .
  have "sibs h par (take i ts @ NT (at ts i) cs # drop (Suc i) ts)" using assms(1) e by simp
  moreover have "take (Suc i) ts = take i ts @ [NT (at ts i) cs]"
    using e assms(2) by (metis append_eq_conv_conj length_take min.absorb4 nth_append_length take_Suc_conv_app_nth)
  ultimately show ?thesis
    using after_ok [of h par "take i ts" "at ts i" cs "drop (Suc i) ts" q ds] assms(3,4) t e
    by (auto simp: insert_at_def apart_def same_outside_def)
qed

lemma before_at:
  assumes "sibs h par ts" "i < length ts" "sibs h 0 [t]" "apart par ts t"
  shows "\<exists>h'. mpt_gnode_before h (at ts i) (root t) = Some (root t, h') \<and> sibs h' par (insert_at i t ts) \<and>
    same_outside (set (par # addrs (t # ts))) h h'"
proof -
  obtain q ds where t: "t = NT q ds" by (cases t)
  obtain cs where e: "ts = take i ts @ NT (at ts i) cs # drop (Suc i) ts" using sibs_split [OF assms(2)] .
  have "sibs h par (take i ts @ NT (at ts i) cs # drop (Suc i) ts)" using assms(1) e by simp
  moreover have "drop i ts = NT (at ts i) cs # drop (Suc i) ts"
    using e assms(2) by (metis append_eq_conv_conj length_take min.absorb4)
  ultimately show ?thesis
    using before_ok [of h par "take i ts" "at ts i" cs "drop (Suc i) ts" q ds] assms(3,4) t e
    by (auto simp: insert_at_def apart_def same_outside_def)
qed

lemma insert_pos_ok:
  assumes s: "sibs h par ts" and ne: "ts \<noteq> []" and t: "sibs h 0 [t]" "apart par ts t"
  shows "\<exists>h'. node_insert mpt_gnode_pos h (first ts 0) pos (root t) = Some h' \<and>
    sibs h' par (insert_at (add_index pos (length ts)) t ts) \<and>
    same_outside (set (par # addrs (t # ts))) h h'"
proof -
  let ?n = "length ts"
  have f: "first ts 0 = at ts 0" "0 < ?n" using ne by (auto simp: first_def at_def split: list.split)
  note G = gnode_pos_at [OF s]
  have nz: "\<And>i. i < ?n \<Longrightarrow> at ts i \<noteq> 0" using sibs_at(1) [OF s] .
  have z: "\<And>i. \<not> i < ?n \<Longrightarrow> at ts i = 0" by (simp add: at_def)
  note ins = after_at [OF s _ t] before_at [OF s _ t]
  consider "pos = 0" | "pos < 0" "nat (- pos) < ?n" | "pos < 0" "?n \<le> nat (- pos)" | "pos = 1"
    | "1 < pos" "nat pos \<le> ?n" | "1 < pos" "?n < nat pos" by linarith
  then show ?thesis
  proof cases
    case 1
    have "node_insert mpt_gnode_pos h (first ts 0) pos (root t) = map_option snd (mpt_gnode_after h (at ts (?n - 1)) (root t))"
      using 1 f G [of 0] nz [of "?n - 1"] by (simp add: node_insert_def)
    moreover have "add_index pos ?n = Suc (?n - 1)" using 1 f by (simp add: add_index_def)
    ultimately show ?thesis using ins(1) [of "?n - 1"] f by fastforce
  next
    case 2
    let ?i = "?n - 1 - nat (- pos)"
    have "nat (- pos) \<le> ?n - 1" using 2 by linarith
    then have "node_insert mpt_gnode_pos h (first ts 0) pos (root t) = map_option snd (mpt_gnode_after h (at ts ?i) (root t))"
      using 2 f G [of 0] G [of "?n - 1"] nz [of "?n - 1"] nz [of ?i] by (simp add: node_insert_def)
    moreover have "add_index pos ?n = Suc ?i" "?i < ?n" using 2 f by (auto simp: add_index_def)
    ultimately show ?thesis using ins(1) [of ?i] by fastforce
  next
    case 3
    have "\<not> nat (- pos) \<le> ?n - 1" using 3 f by linarith
    then have "node_insert mpt_gnode_pos h (first ts 0) pos (root t) = map_option snd (mpt_gnode_before h (at ts 0) (root t))"
      using 3 f G [of 0] G [of "?n - 1"] nz [of "?n - 1"] by (simp add: node_insert_def)
    moreover have "add_index pos ?n = 0" using 3 by (auto simp: add_index_def)
    ultimately show ?thesis using ins(2) [of 0] f by fastforce
  next
    case 4
    have "node_insert mpt_gnode_pos h (first ts 0) pos (root t) = map_option snd (mpt_gnode_before h (at ts 0) (root t))"
      using 4 f G [of 0] nz [of 0] by (simp add: node_insert_def)
    moreover have "add_index pos ?n = 0" using 4 by (auto simp: add_index_def)
    ultimately show ?thesis using ins(2) [of 0] f by fastforce
  next
    case 5
    let ?i = "nat (pos - 1)"
    have i: "?i < ?n" using 5 by linarith
    have "node_insert mpt_gnode_pos h (first ts 0) pos (root t) = map_option snd (mpt_gnode_before h (at ts ?i) (root t))"
      using 5 f i G [of 0] nz [of 0] nz [of ?i] by (simp add: node_insert_def)
    moreover have "add_index pos ?n = ?i" using 5 by (auto simp: add_index_def)
    ultimately show ?thesis using ins(2) [of ?i] i by fastforce
  next
    case 6
    have "\<not> nat (pos - 1) < ?n" using 6 by linarith
    then have "node_insert mpt_gnode_pos h (first ts 0) pos (root t) = map_option snd (mpt_gnode_after h (at ts (?n - 1)) (root t))"
      using 6 f G [of 0] nz [of 0] nz [of "?n - 1"] z [of "nat (pos - 1)"] by (simp add: node_insert_def)
    moreover have "add_index pos ?n = Suc (?n - 1)" using 6 f by (auto simp: add_index_def)
    ultimately show ?thesis using ins(1) [of "?n - 1"] f by fastforce
  qed
qed

lemma insert_child_ok:
  assumes s: "sibs h par ts" "par \<noteq> 0" and t: "sibs h 0 [t]" "apart par ts t"
  shows "\<exists>h'. mpt_gnode_insert h par pos (root t) = Some (0, h') \<and>
    sibs h' par (insert_at (add_index pos (length ts)) t ts) \<and>
    same_outside (set (par # addrs (t # ts))) h h'"
proof -
  obtain q ds where q: "t = NT q ds" by (cases t)
  from s obtain n where n: "h par = Some n" "nchildren n = first ts 0"
    by (auto simp: sibs_def split: option.splits)
  note Q = single_parts [OF t(1) [unfolded q]]
  from Q(5) obtain m where m: "h q = Some m" "nprev m = 0" "nnext m = 0" "nchildren m = first ds 0" by blast
  show ?thesis
  proof (cases "ts = []")
    case True
    let ?h = "h(par \<mapsto> n\<lparr>nchildren := q\<rparr>, q \<mapsto> m\<lparr>nparent := par\<rparr>)"
    have d: "par \<noteq> q" "par \<notin> set (addrs ds)" using t(2) q by (auto simp: apart_def)
    have "mpt_gnode_insert h par pos q = Some (0, ?h)"
      using n m Q(1) s(2) True d by (simp add: mpt_gnode_insert_def gnode_insert_with_def node_access)
    moreover have "sibs ?h par [NT q ds]" using Q m d s(2) by (simp add: sibs_def)
    moreover have "same_outside (set (par # addrs [t])) h ?h" using q by (simp add: same_outside_def)
    ultimately show ?thesis using q True by (simp add: insert_at_def)
  next
    case False
    with s have "first ts 0 \<noteq> 0" using sibs_at(1) [of h par ts 0] by (auto simp: at_def first_def split: list.split)
    moreover from insert_pos_ok [OF s(1) False t, of pos] obtain h' where
      "node_insert mpt_gnode_pos h (first ts 0) pos (root t) = Some h'"
      "sibs h' par (insert_at (add_index pos (length ts)) t ts)" "same_outside (set (par # addrs (t # ts))) h h'" by blast
    ultimately show ?thesis using n s(2) q Q(1)
      by (simp add: mpt_gnode_insert_def gnode_insert_with_def load_def)
  qed
qed

section \<open>Interface of an ordered list of children\<close>

text \<open>What clients of the link operations rely on: an element can be taken out of the list below a
  parent and is then free, a free element can be put at a position.\<close>

locale child_list =
  fixes lst :: "'h \<Rightarrow> 'p \<Rightarrow> 't list \<Rightarrow> bool"
    and free :: "'h \<Rightarrow> 't \<Rightarrow> bool"
    and new :: "'p \<Rightarrow> 't list \<Rightarrow> 't \<Rightarrow> bool"
    and key :: "'t \<Rightarrow> 'p"
    and unlink :: "'h \<Rightarrow> 'p \<Rightarrow> ('p \<times> 'h) option"
    and ins :: "'h \<Rightarrow> 'p \<Rightarrow> int \<Rightarrow> 'p \<Rightarrow> (int \<times> 'h) option"
    and place :: "int \<Rightarrow> 't \<Rightarrow> 't list \<Rightarrow> 't list"
  assumes unlink_frees: "lst h par (xs @ t # ys) \<Longrightarrow>
      \<exists>n h'. unlink h (key t) = Some (n, h') \<and> lst h' par (xs @ ys) \<and> free h' t"
    and unlink_new: "lst h par (xs @ t # ys) \<Longrightarrow> new par (xs @ ys) t"
    and ins_places: "lst h par ts \<Longrightarrow> free h t \<Longrightarrow> new par ts t \<Longrightarrow>
      \<exists>h'. ins h par pos (key t) = Some (0, h') \<and> lst h' par (place pos t ts)"
    and place_same: "mset (place pos t ts) = add_mset t (mset ts)"
    and keys_differ: "lst h par (xs @ t # ys) \<Longrightarrow> u \<in> set (xs @ ys) \<Longrightarrow> key u \<noteq> key t"
begin

text \<open>A sequence of moves: each takes an element out and puts it at a position.\<close>

fun moves :: "'h \<Rightarrow> 'p \<Rightarrow> ('p \<times> int) list \<Rightarrow> 'h option" where
  "moves h par [] = Some h"
| "moves h par ((p, pos) # ms) = do {
     (_, h) \<leftarrow> unlink h p; (_, h) \<leftarrow> ins h par pos p; moves h par ms }"

fun arrange :: "'t list \<Rightarrow> ('p \<times> int) list \<Rightarrow> 't list" where
  "arrange ts [] = ts"
| "arrange ts ((p, pos) # ms) =
     (case dropWhile (\<lambda>t. key t \<noteq> p) ts of [] \<Rightarrow> ts
      | t # _ \<Rightarrow> arrange (place pos t (filter (\<lambda>u. key u \<noteq> p) ts)) ms)"

lemma move_one:
  assumes "lst h par ts" "t \<in> set ts"
  shows "\<exists>n h1 h2. unlink h (key t) = Some (n, h1) \<and> ins h1 par pos (key t) = Some (0, h2) \<and>
    lst h2 par (place pos t (filter (\<lambda>u. key u \<noteq> key t) ts))"
proof -
  from assms(2) obtain xs ys where ts: "ts = xs @ t # ys" by (meson split_list)
  with assms have l: "lst h par (xs @ t # ys)" by simp
  from keys_differ [OF l] have "filter (\<lambda>u. key u \<noteq> key t) ts = xs @ ys"
    by (simp add: ts)
  moreover from unlink_frees [OF l] obtain n h1 where
    "unlink h (key t) = Some (n, h1)" "lst h1 par (xs @ ys)" "free h1 t" by blast
  ultimately show ?thesis using ins_places [of h1 par "xs @ ys" t pos] unlink_new [OF l] by auto
qed

lemma moves_arrange:
  assumes "lst h par ts" and "fst ` set ms \<subseteq> key ` set ts"
  shows "\<exists>h'. moves h par ms = Some h' \<and> lst h' par (arrange ts ms) \<and> mset (arrange ts ms) = mset ts"
  using assms
proof (induction ms arbitrary: h ts)
  case (Cons m ms)
  obtain p pos where m: "m = (p, pos)" by (cases m)
  with Cons.prems obtain t where t: "t \<in> set ts" "key t = p" by auto
  from t(1) obtain xs ys where ts: "ts = xs @ t # ys" by (meson split_list)
  have k: "\<And>u. u \<in> set (xs @ ys) \<Longrightarrow> key u \<noteq> p" using keys_differ [of h par xs t ys] Cons.prems ts t by auto
  have d: "dropWhile (\<lambda>t. key t \<noteq> p) ts = t # ys" using ts t k by (auto simp: dropWhile_append2)
  have f: "filter (\<lambda>u. key u \<noteq> p) ts = xs @ ys" using ts t k by simp
  let ?ts = "place pos t (xs @ ys)"
  have e: "mset ?ts = mset ts" using place_same ts by simp
  then have "set ?ts = set ts" by (metis set_mset_mset)
  with Cons.prems m have s: "fst ` set ms \<subseteq> key ` set ?ts" by auto
  from move_one [OF Cons.prems(1) t(1), of pos] t(2) f obtain n h1 h2 where
    "unlink h p = Some (n, h1)" "ins h1 par pos p = Some (0, h2)" "lst h2 par ?ts" by auto
  with Cons.IH [OF _ s] m d f e show ?case by auto
qed simp

end

lemma insert_at_mset: "mset (insert_at i t ts) = add_mset t (mset ts)"
  using mset_append [of "take i ts" "drop i ts"] by (simp add: insert_at_def)

text \<open>The children of a node.\<close>

definition child_trees :: "heap \<Rightarrow> ptr \<Rightarrow> ntree list \<Rightarrow> bool" where
  "child_trees h par ts \<longleftrightarrow> par \<noteq> 0 \<and> sibs h par ts"

definition place_tree :: "int \<Rightarrow> ntree \<Rightarrow> ntree list \<Rightarrow> ntree list" where
  "place_tree pos t ts = insert_at (add_index pos (length ts)) t ts"

interpretation node: child_list child_trees "\<lambda>h t. sibs h 0 [t]" apart root mpt_node_unlink mpt_gnode_insert place_tree
proof unfold_locales
  fix h par xs t ys assume l: "child_trees h par (xs @ t # ys)"
  obtain p cs where t: "t = NT p cs" by (cases t)
  from l t have s: "par \<noteq> 0" "sibs h par (xs @ NT p cs # ys)" by (auto simp: child_trees_def)
  note P = sibs_parts [OF s(2)]
  from unlink_ok [OF s(2)] s(1) t show "\<exists>n h'. mpt_node_unlink h (root t) = Some (n, h') \<and> child_trees h' par (xs @ ys) \<and> sibs h' 0 [t]"
    by (auto simp: child_trees_def)
  show "apart par (xs @ ys) t" using P s(1) t by (auto simp: apart_def)
  fix u assume "u \<in> set (xs @ ys)"
  then have "root u \<in> set (addrs xs) \<union> set (addrs ys)" by auto
  then show "root u \<noteq> root t" using P t by auto
next
  fix h par ts t pos assume "child_trees h par ts" "sibs h 0 [t]" "apart par ts t"
  then show "\<exists>h'. mpt_gnode_insert h par pos (root t) = Some (0, h') \<and> child_trees h' par (place_tree pos t ts)"
    using insert_child_ok [of h par ts t pos] by (auto simp: child_trees_def place_tree_def)
next
  fix pos t ts show "mset (place_tree pos t ts) = add_mset t (mset ts)"
    by (simp add: place_tree_def insert_at_mset)
qed

section \<open>Exchange of children\<close>

lemma parent_loop_ok:
  "repr h par pv ts 0 \<Longrightarrow> distinct (addrs ts) \<Longrightarrow> q \<notin> set (addrs ts) \<Longrightarrow>
    \<exists>h'. parent_loop h q (first ts 0) = Some h' \<and> repr h' q pv ts 0 \<and> same_outside (set (addrs ts)) h h'"
proof (induction ts arbitrary: h pv)
  case Nil
  then show ?case by (subst parent_loop.simps) (simp add: same_outside_def)
next
  case (Cons t ts)
  obtain p cs where t: "t = NT p cs" by (cases t)
  with Cons.prems obtain n where n: "h p = Some n" "nnext n = first ts 0" "p \<noteq> 0" "nchildren n = first cs 0"
    "nprev n = pv" by (auto split: option.splits)
  let ?h = "h(p \<mapsto> n\<lparr>nparent := q\<rparr>)"
  have "repr ?h par p ts 0" "distinct (addrs ts)" "q \<notin> set (addrs ts)" using Cons.prems t by simp_all
  from Cons.IH [OF this] obtain h' where
    h: "parent_loop ?h q (first ts 0) = Some h'" "repr h' q p ts 0" "same_outside (set (addrs ts)) ?h h'" by blast
  have "h' p = Some (n\<lparr>nparent := q\<rparr>)" using h(3) Cons.prems t by (simp add: same_outside_def)
  moreover have "repr h' p 0 cs 0 \<longleftrightarrow> repr ?h p 0 cs 0"
    by (rule repr_frame) (use h(3) Cons.prems t in \<open>auto simp: same_outside_def\<close>)
  ultimately have "repr h' q pv (t # ts) 0" using h n t Cons.prems by simp
  moreover have "parent_loop h q (first (t # ts) 0) = Some h'"
    using t n h(1) by (subst parent_loop.simps) (simp add: node_access)
  ultimately show ?case using h(3) t by (auto simp: same_outside_def)
qed

lemma swap_ok:
  assumes a: "sibs h p xs" "p \<noteq> 0" and b: "sibs h s ys" "s \<noteq> 0"
    and d: "p \<noteq> s" "s \<notin> set (addrs xs)" "p \<notin> set (addrs ys)" "set (addrs xs) \<inter> set (addrs ys) = {}"
  shows "\<exists>h'. mpt_gnode_swap h p s = Some h' \<and> sibs h' p ys \<and> sibs h' s xs \<and>
    same_outside (set (p # s # addrs (xs @ ys))) h h'"
proof -
  from a obtain n where n: "h p = Some n" "nchildren n = first xs 0" "p \<notin> set (addrs xs)" "repr h p 0 xs 0" "distinct (addrs xs)"
    by (auto simp: sibs_def split: option.splits)
  from b obtain m where m: "h s = Some m" "nchildren m = first ys 0" "s \<notin> set (addrs ys)" "repr h s 0 ys 0" "distinct (addrs ys)"
    by (auto simp: sibs_def split: option.splits)
  let ?h = "h(s \<mapsto> m\<lparr>nchildren := first xs 0\<rparr>, p \<mapsto> n\<lparr>nchildren := first ys 0\<rparr>)"
  have "repr ?h p 0 xs 0" using n d by simp
  from parent_loop_ok [OF this n(5) d(2)] obtain h1 where
    h1: "parent_loop ?h s (first xs 0) = Some h1" "repr h1 s 0 xs 0" "same_outside (set (addrs xs)) ?h h1" by blast
  have "repr h1 s 0 ys 0 \<longleftrightarrow> repr ?h s 0 ys 0"
    by (rule repr_frame) (use h1(3) d in \<open>auto simp: same_outside_def\<close>)
  with m d have "repr h1 s 0 ys 0" by simp
  from parent_loop_ok [OF this m(5) d(3)] obtain h2 where
    h2: "parent_loop h1 p (first ys 0) = Some h2" "repr h2 p 0 ys 0" "same_outside (set (addrs ys)) h1 h2" by blast
  have "repr h2 s 0 xs 0 \<longleftrightarrow> repr h1 s 0 xs 0"
    by (rule repr_frame) (use h2(3) d in \<open>auto simp: same_outside_def\<close>)
  moreover have "h2 p = ?h p" "h2 s = ?h s"
    using h1(3) h2(3) n(3) m(3) d by (auto simp: same_outside_def)
  moreover have "mpt_gnode_swap h p s = Some h2"
    using n m a b d h1(1) h2(1) by (simp add: mpt_gnode_swap_def node_access Let_def)
  moreover have "same_outside (set (p # s # addrs (xs @ ys))) h h2"
    using h1(3) h2(3) by (auto simp: same_outside_def)
  ultimately show ?thesis using n m d h1 h2 by (auto simp: sibs_def)
qed

section \<open>Properties\<close>

text \<open>Property C30: the link operations keep the structure of lists and trees: behind and before a node
  in the list below a parent (or of a list without one) another tree is inserted, the parent's link to
  its first child included, unlinking removes a node and leaves it alone with its children, and
  nothing outside of the involved trees changes.\<close>

theorem node_link_operations:
  assumes "sibs h par (xs @ NT p cs # ys)" and "sibs h 0 [NT q ds]"
    and "apart par (xs @ NT p cs # ys) (NT q ds)"
  shows "(\<exists>h'. mpt_gnode_after h p q = Some (q, h') \<and> sibs h' par (xs @ NT p cs # NT q ds # ys) \<and>
      same_outside (set (addrs (NT q ds # xs @ NT p cs # ys))) h h') \<and>
    (\<exists>h'. mpt_gnode_before h p q = Some (q, h') \<and> sibs h' par (xs @ NT q ds # NT p cs # ys) \<and>
      same_outside (set (par # addrs (NT q ds # xs @ NT p cs # ys))) h h') \<and>
    (\<exists>h'. mpt_node_unlink h p = Some (first ys 0, h') \<and> sibs h' par (xs @ ys) \<and> sibs h' 0 [NT p cs] \<and>
      same_outside (set (par # addrs (xs @ NT p cs # ys))) h h')"
proof -
  have d: "set (par # addrs (xs @ NT p cs # ys)) \<inter> set (addrs [NT q ds]) = {}" using assms(3) by (simp add: apart_def)
  show ?thesis
    using after_ok [OF assms(1,2) d] before_ok [OF assms(1,2) d] unlink_ok [OF assms(1)]
    by (auto simp: same_outside_def)
qed

text \<open>A parent 1 with the children 2 and 3, and a free node 4.\<close>

definition mk_node :: "ptr \<Rightarrow> ptr \<Rightarrow> ptr \<Rightarrow> ptr \<Rightarrow> node" where
  "mk_node nx pv par ch = \<lparr>nmeta = 0, nnext = nx, nprev = pv, nparent = par, nchildren = ch, nident = ident0\<rparr>"

definition heap0 :: heap where
  "heap0 = [1 \<mapsto> mk_node 0 0 0 2, 2 \<mapsto> mk_node 3 0 1 0, 3 \<mapsto> mk_node 0 2 1 0, 4 \<mapsto> mk_node 0 0 0 0]"

lemma heap0_ok: "sibs heap0 1 [NT 2 [], NT 3 []]" "sibs heap0 0 [NT 4 []]" "apart 1 [NT 2 [], NT 3 []] (NT 4 [])"
  by (simp_all add: sibs_def heap0_def mk_node_def apart_def)

theorem node_link_operations_witness:
  "(\<exists>h'. mpt_gnode_after heap0 2 4 = Some (4, h') \<and> sibs h' 1 [NT 2 [], NT 4 [], NT 3 []] \<and>
      same_outside {2, 3, 4} heap0 h') \<and>
    (\<exists>h'. mpt_gnode_before heap0 2 4 = Some (4, h') \<and> sibs h' 1 [NT 4 [], NT 2 [], NT 3 []] \<and>
      same_outside {1, 2, 3, 4} heap0 h') \<and>
    (\<exists>h'. mpt_node_unlink heap0 2 = Some (3, h') \<and> sibs h' 1 [NT 3 []] \<and> sibs h' 0 [NT 2 []] \<and>
      same_outside {1, 2, 3} heap0 h')"
  using node_link_operations [of heap0 1 "[]" 2 "[]" "[NT 3 []]" 4 "[]"] heap0_ok
  by (simp add: insert_commute)

text \<open>A positive position puts a new child at this place from the front (1 is the first),
  a negative one or zero counts from the end (0 is the last), positions outside of the list put it at
  the respective end; \<open>mpt_gnode_add\<close> does the same in a list given by its first node.\<close>

theorem gnode_insert_position:
  assumes "child_trees h par ts" and "sibs h 0 [t]" and "apart par ts t"
  shows "(\<exists>h'. mpt_gnode_insert h par pos (root t) = Some (0, h') \<and>
      child_trees h' par (insert_at (add_index pos (length ts)) t ts) \<and>
      same_outside (set (par # addrs (t # ts))) h h') \<and>
    (ts = [] \<or> (\<exists>h'. mpt_gnode_add h (first ts 0) pos (root t) = Some (root t, h') \<and>
      child_trees h' par (insert_at (add_index pos (length ts)) t ts) \<and>
      same_outside (set (par # addrs (t # ts))) h h'))"
proof (cases "ts = []")
  case True
  with insert_child_ok [of h par ts t pos] assms show ?thesis by (auto simp: child_trees_def)
next
  case False
  from assms have s: "par \<noteq> 0" "sibs h par ts" by (auto simp: child_trees_def)
  from insert_pos_ok [OF s(2) False assms(2,3), of pos] obtain h' where
    h': "node_insert mpt_gnode_pos h (first ts 0) pos (root t) = Some h'"
      "sibs h' par (insert_at (add_index pos (length ts)) t ts)"
      "same_outside (set (par # addrs (t # ts))) h h'" by blast
  have "first ts 0 \<noteq> 0" using sibs_at(1) [of h par ts 0] s(2) False by (auto simp: at_def first_def split: list.split)
  moreover have "root t \<noteq> 0" using assms(2) single_parts(1) [of h "root t" "kids t"] by simp
  ultimately have "mpt_gnode_add h (first ts 0) pos (root t) = Some (root t, h')"
    using h'(1) by (simp add: mpt_gnode_add_def)
  with h' s insert_child_ok [OF s(2,1) assms(2,3), of pos] show ?thesis by (auto simp: child_trees_def)
qed

theorem gnode_insert_position_witness:
  "(\<exists>h'. mpt_gnode_insert heap0 1 2 4 = Some (0, h') \<and> child_trees h' 1 [NT 2 [], NT 4 [], NT 3 []] \<and>
      same_outside (set [1, 4, 2, 3]) heap0 h') \<and>
    (\<exists>h'. mpt_gnode_add heap0 2 2 4 = Some (4, h') \<and> child_trees h' 1 [NT 2 [], NT 4 [], NT 3 []] \<and>
      same_outside (set [1, 4, 2, 3]) heap0 h')"
  using gnode_insert_position [of heap0 1 "[NT 2 [], NT 3 []]" "NT 4 []" 2] heap0_ok
  by (simp add: child_trees_def insert_at_def add_index_def)

text \<open>Moving children: each step takes a child out of the list and puts it at a position.\<close>

fun reorder :: "heap \<Rightarrow> ptr \<Rightarrow> (ptr \<times> int) list \<Rightarrow> heap option" where
  "reorder h par [] = Some h"
| "reorder h par ((p, pos) # ms) = do {
     (_, h) \<leftarrow> mpt_node_unlink h p; (_, h) \<leftarrow> mpt_gnode_insert h par pos p; reorder h par ms }"

fun reorder_list :: "ntree list \<Rightarrow> (ptr \<times> int) list \<Rightarrow> ntree list" where
  "reorder_list ts [] = ts"
| "reorder_list ts ((p, pos) # ms) =
     (case dropWhile (\<lambda>t. root t \<noteq> p) ts of [] \<Rightarrow> ts
      | t # _ \<Rightarrow> (let us = filter (\<lambda>u. root u \<noteq> p) ts in
          reorder_list (insert_at (add_index pos (length us)) t us) ms))"

lemma reorder_moves: "reorder h par ms = node.moves h par ms"
  by (induction h par ms rule: reorder.induct) (auto intro!: Option.bind_cong)

lemma reorder_list_arrange: "reorder_list ts ms = node.arrange ts ms"
proof (induction ts ms rule: reorder_list.induct)
  case (2 ts p pos ms)
  then show ?case
    by (cases "dropWhile (\<lambda>t. root t \<noteq> p) ts") (simp_all add: Let_def del: dropWhile_eq_Nil_conv flip: place_tree_def)
qed simp

text \<open>Property C7: every sequence of moves of children of a node, by unlinking and inserting, acts on the
  heap as the moves of the trees in a list: all links stay consistent, and no child is lost or
  duplicated.\<close>

theorem node_reorder_refines:
  assumes "child_trees h par ts" and "fst ` set ms \<subseteq> root ` set ts"
  shows "\<exists>h'. reorder h par ms = Some h' \<and> child_trees h' par (reorder_list ts ms) \<and>
    mset (reorder_list ts ms) = mset ts"
  using node.moves_arrange [OF assms] by (simp add: reorder_moves reorder_list_arrange)

theorem node_reorder_refines_witness:
  "\<exists>h'. reorder heap0 1 [(2, 0), (3, 1)] = Some h' \<and> child_trees h' 1 (reorder_list [NT 2 [], NT 3 []] [(2, 0), (3, 1)]) \<and>
    mset (reorder_list [NT 2 [], NT 3 []] [(2, 0), (3, 1)]) = mset [NT 2 [], NT 3 []]"
  by (rule node_reorder_refines) (use heap0_ok in \<open>simp_all add: child_trees_def\<close>)

text \<open>\<open>mpt_gnode_switch\<close> of a first child that has a next sibling with the only child of another parent:
  the first parent still refers to the node that moved away, and the node that took its place still
  refers to its former parent.\<close>

lemma gnode_switch_parent_kept:
  "(case mpt_gnode_switch [1 \<mapsto> mk_node 0 0 0 2, 2 \<mapsto> mk_node 3 0 1 0, 3 \<mapsto> mk_node 0 2 1 0,
       5 \<mapsto> mk_node 0 0 0 6, 6 \<mapsto> mk_node 0 0 5 0] 2 6 of None \<Rightarrow> False
     | Some h \<Rightarrow> map_option nchildren (h 1) = Some 2 \<and> map_option nparent (h 2) = Some 5 \<and>
         map_option nparent (h 6) = Some 5)"
  by (simp add: mpt_gnode_switch_def switch_half_def node_access mk_node_def Let_def)

text \<open>\<open>mpt_gnode_relink\<close> goes on with the sibling of a first child without a look at the children of that
  child: the parent link of node 4, two levels below, is not restored.\<close>

lemma gnode_relink_skips:
  "(case mpt_gnode_relink [1 \<mapsto> mk_node 0 0 0 2, 2 \<mapsto> mk_node 0 0 1 3, 3 \<mapsto> mk_node 0 0 2 4, 4 \<mapsto> mk_node 0 0 9 0] 1
     of None \<Rightarrow> False | Some h \<Rightarrow> map_option nparent (h 4) = Some 9)"
  by (simp add: mpt_gnode_relink_def relink_loop.simps relink_next_def node_access mk_node_def)

end
