(* ===== verification/NodeData.thy ===== *)
theory NodeData
  imports Node
begin

text \<open>
  Nodes with identifiers and data: \<open>node_locate.c\<close>, \<open>node_next.c\<close>, \<open>node_find.c\<close>, \<open>node_ident.c\<close>,
  \<open>node_new.c\<close>, \<open>node_clear.c\<close>, \<open>node_destroy.c\<close>, \<open>node_clone.c\<close>, \<open>tree_clone.c\<close>, \<open>node_move.c\<close> and the
  insertion by identifier of \<open>node_insert.c\<close> (all in \<open>mptcore/node/\<close>).

  The state of the operations that create or release objects is the heap of nodes, the heap of
  identifier blocks and the sequence of metatype references that were given up.  The allocators and
  the virtual \<open>clone\<close> of a metatype are parameters.
\<close>

section \<open>Search by identifier\<close>

text \<open>Does a node match the identifier at the address \<open>ident\<close> with the bytes \<open>mem\<close>?  The flag \<open>zl\<close> is the
  additional condition of the backward search on address identifiers.\<close>

definition node_match ::
  "store \<Rightarrow> bool \<Rightarrow> nat \<Rightarrow> block \<Rightarrow> nat \<Rightarrow> nat \<Rightarrow> int \<Rightarrow> node \<Rightarrow> bool option" where
  "node_match m zl ident mem len idlen charset n =
     (let d = nident n in
      if charset \<noteq> int (icharset d) then Some False
      else if charset \<noteq> 0 \<and> idlen = 0
        then (if zl \<and> ilen d \<noteq> 0 then Some False else map_option (\<lambda>a. a = ident) (get_base d))
      else if idlen \<noteq> ilen d then Some False
      else do {
        cid \<leftarrow> ident_block m d;
        z \<leftarrow> (if idlen = len then Some True else if len < length cid then Some (cid ! len = 0) else None);
        if \<not> z then Some False
        else if len = 0 then Some True
        else do { a \<leftarrow> rd mem 0 len; b \<leftarrow> rd cid 0 len; Some (memcmp a b = 0) } })"

partial_function (option) locate_back :: "(node \<Rightarrow> bool option) \<Rightarrow> heap \<Rightarrow> ptr \<Rightarrow> nat \<Rightarrow> ptr option" where
  "locate_back mt h p k = do {
     n \<leftarrow> load h p;
     if nprev n = 0 then Some 0
     else do {
       c \<leftarrow> load h (nprev n);
       b \<leftarrow> mt c;
       if b \<and> k = 1 then Some (nprev n)
       else locate_back mt h (nprev n) (if b then k - 1 else k) } }"

partial_function (option) locate_fwd :: "(node \<Rightarrow> bool option) \<Rightarrow> heap \<Rightarrow> ptr \<Rightarrow> nat \<Rightarrow> ptr option" where
  "locate_fwd mt h p k = do {
     n \<leftarrow> load h p;
     b \<leftarrow> mt n;
     if b \<and> k = 1 then Some p
     else if nnext n = 0 then Some 0
     else locate_fwd mt h (nnext n) (if b then k - 1 else k) }"

definition mpt_node_locate ::
  "store \<Rightarrow> heap \<Rightarrow> ptr \<Rightarrow> int \<Rightarrow> nat \<Rightarrow> block \<Rightarrow> nat \<Rightarrow> int \<Rightarrow> ptr option" where
  "mpt_node_locate m h cur pos ident mem len charset =
     (if cur = 0 \<or> (len \<noteq> 0 \<and> ident = 0) then Some 0
      else let (cs, idlen) = (if charset \<ge> 0 then (charset, len) else (int CharsetUTF8, len + 1));
               mt = (\<lambda>zl. node_match m zl ident mem len idlen cs) in
        if pos = 0 then do {
          e \<leftarrow> last_node h cur;
          n \<leftarrow> load h e;
          b \<leftarrow> mt False n;
          if b then Some e else locate_back (mt True) h e 1 }
        else if pos < 0 then locate_back (mt True) h cur (nat (- pos))
        else locate_fwd (mt False) h cur (nat pos))"

text \<open>A name is the address of a string with its bytes, absent for the null pointer.\<close>

definition mpt_node_find ::
  "store \<Rightarrow> heap \<Rightarrow> ptr \<Rightarrow> (nat \<times> block) option \<Rightarrow> int \<Rightarrow> ptr option" where
  "mpt_node_find m h parent name pos =
     (if parent = 0 then Some 0
      else do {
        n \<leftarrow> load h parent;
        if nchildren n = 0 then Some 0
        else do {
          (ident, mem, idlen) \<leftarrow> (case name of None \<Rightarrow> Some (0, [], 0)
             | Some (a, s) \<Rightarrow> do { l \<leftarrow> c_strlen s; Some (a, s, l) });
          if pos \<ge> 0 then mpt_node_locate m h (nchildren n) pos ident mem idlen (- 1)
          else do {
            t \<leftarrow> mpt_node_locate m h (nchildren n) 0 ident mem idlen (- 1);
            if t = 0 then Some 0 else mpt_node_locate m h t pos ident mem idlen (- 1) } } })"

partial_function (option) next_loop :: "store \<Rightarrow> heap \<Rightarrow> ptr \<Rightarrow> block \<Rightarrow> nat \<Rightarrow> ptr option" where
  "next_loop m h p mem idlen =
     (if p = 0 then Some 0
      else do {
        n \<leftarrow> load h p;
        b \<leftarrow> (if idlen = ilen (nident n) \<and> icharset (nident n) = CharsetUTF8
             then if idlen = 0 then Some True
               else do { cid \<leftarrow> ident_block m (nident n); a \<leftarrow> rd mem 0 (idlen - 1); b \<leftarrow> rd cid 0 (idlen - 1);
                         Some (memcmp a b = 0) }
             else Some False);
        if b then Some p else next_loop m h (nnext n) mem idlen })"

definition mpt_node_next :: "store \<Rightarrow> heap \<Rightarrow> ptr \<Rightarrow> block option \<Rightarrow> ptr option" where
  "mpt_node_next m h p name = (case name of None \<Rightarrow> next_loop m h p [] 0
     | Some s \<Rightarrow> do { l \<leftarrow> c_strlen s; next_loop m h p s (l + 1) })"

definition mpt_node_ident :: "heap \<Rightarrow> ptr \<Rightarrow> idptr option" where
  "mpt_node_ident h p = do {
     n \<leftarrow> load h p;
     Some (if ilen (nident n) = 0 \<or> icharset (nident n) \<noteq> CharsetUTF8 then Null
           else mpt_identifier_data (nident n)) }"

text \<open>The identifier of a node as a search argument.  Inline data has an address inside of the node,
  which is no address of a block.\<close>

definition node_locate :: "store \<Rightarrow> ptr \<Rightarrow> heap \<Rightarrow> ptr \<Rightarrow> int \<Rightarrow> ptr option" where
  "node_locate m p h start pos = do {
     n \<leftarrow> load h p;
     let d = nident n;
     mem \<leftarrow> ident_block m d;
     a \<leftarrow> (case mpt_identifier_data d of Base \<Rightarrow> get_base d | _ \<Rightarrow> Some (2 ^ 64 + p));
     mpt_node_locate m h start pos a mem (ilen d) (int (icharset d)) }"

definition mpt_node_add :: "store \<Rightarrow> heap \<Rightarrow> ptr \<Rightarrow> int \<Rightarrow> ptr \<Rightarrow> (ptr \<times> heap) option" where
  "mpt_node_add m h frst pos node =
     (if frst = 0 \<or> node = 0 then Some (node, h)
      else do { h \<leftarrow> node_insert (node_locate m node) h frst pos node; Some (node, h) })"

definition mpt_node_insert :: "store \<Rightarrow> heap \<Rightarrow> ptr \<Rightarrow> int \<Rightarrow> ptr \<Rightarrow> (int \<times> heap) option" where
  "mpt_node_insert m h parent pos node = gnode_insert_with (node_locate m node) h parent pos node"

section \<open>Merging lists\<close>

text \<open>The variable \<open>*from\<close> is the \<open>children\<close> field of a node or a variable of the caller.\<close>

definition store_from :: "heap \<Rightarrow> ptr option \<Rightarrow> ptr \<Rightarrow> ptr \<Rightarrow> (ptr \<times> heap) option" where
  "store_from h slot var v = (case slot of None \<Rightarrow> Some (v, h)
     | Some p \<Rightarrow> do { h \<leftarrow> set_children h p v; Some (var, h) })"

partial_function (option) reparent_loop :: "heap \<Rightarrow> ptr \<Rightarrow> ptr \<Rightarrow> nat \<Rightarrow> (nat \<times> heap) option" where
  "reparent_loop h par p k =
     (if p = 0 then Some (k, h)
      else do { h \<leftarrow> set_parent h p par; n \<leftarrow> load h p; reparent_loop h par (nnext n) (k + 1) })"

partial_function (option) move_loop ::
  "store \<Rightarrow> ptr option \<Rightarrow> ptr \<Rightarrow> heap \<Rightarrow> ptr \<Rightarrow> ptr \<Rightarrow> ptr \<Rightarrow> nat \<Rightarrow> (nat \<times> ptr \<times> heap) option" where
  "move_loop m slot dst h var src lst k =
     (if src = 0 then Some (k, var, h)
      else do {
        cur \<leftarrow> node_locate m src h dst 1;
        s \<leftarrow> load h src;
        if cur = 0 then do {
          (_, h) \<leftarrow> mpt_node_unlink h src;
          (_, h) \<leftarrow> mpt_gnode_add h lst 0 src;
          (var, h) \<leftarrow> store_from h slot var (nnext s);
          move_loop m slot dst h var (nnext s) src (k + 1) }
        else do {
          (k, h) \<leftarrow> (if nchildren s = 0 then Some (k, h)
            else do {
              c \<leftarrow> load h cur;
              if nchildren c \<noteq> 0 then do {
                (j, _, h) \<leftarrow> move_loop m (Some src) (nchildren c) h 0 (nchildren s) (nchildren c) 0;
                Some (k + j, h) }
              else do { h \<leftarrow> set_children h cur (nchildren s); reparent_loop h cur (nchildren s) k } });
          s \<leftarrow> load h src;
          move_loop m slot dst h var (nnext s) lst k } })"

text \<open>The number of moved nodes, the new value of \<open>*from\<close> and the heap.\<close>

definition mpt_node_move :: "store \<Rightarrow> heap \<Rightarrow> ptr \<Rightarrow> ptr \<Rightarrow> (nat \<times> ptr \<times> heap) option" where
  "mpt_node_move m h from dst =
     (if dst = 0 then Some (0, from, h) else move_loop m None dst h from from dst 0)"

section \<open>Creation and release\<close>

record nstate =
  nodes :: heap
  blocks :: store
  unrefs :: "ptr list"

text \<open>Address of a new node, of a new block, the contents of new memory, the copy of a metatype.\<close>

record env =
  enew :: "heap \<Rightarrow> ptr"
  eblk :: "store \<Rightarrow> nat option"
  eraw :: "nat \<Rightarrow> block"
  eclone :: "ptr \<Rightarrow> ptr"

definition unref :: "nstate \<Rightarrow> ptr \<Rightarrow> nstate" where
  "unref st mt = (if mt = 0 then st else st\<lparr>unrefs := unrefs st @ [mt]\<rparr>)"

definition mpt_node_new :: "env \<Rightarrow> nstate \<Rightarrow> nat \<Rightarrow> (ptr \<times> nstate) option" where
  "mpt_node_new e st len =
     (let n = (if len + 40 > 64 \<and> len + 40 \<le> 0x100 then double_size 64 (len + 40) else 64);
          p = enew e (nodes st) in
      if p = 0 then Some (0, st)
      else do {
        d \<leftarrow> mpt_identifier_init \<lparr>ilen = 0, icharset = 0, imax = 0, ival = eraw e (n - 44)\<rparr> (n - 40);
        Some (p, st\<lparr>nodes := (nodes st)(p \<mapsto> \<lparr>nmeta = 0, nnext = 0, nprev = 0, nparent = 0, nchildren = 0, nident = d\<rparr>)\<rparr>) })"

text \<open>The end of \<open>mpt_node_destroy\<close>: release of data, identifier and node.\<close>

definition node_free :: "nstate \<Rightarrow> ptr \<Rightarrow> nstate option" where
  "node_free st p = do {
     n \<leftarrow> load (nodes st) p;
     (_, _, m) \<leftarrow> mpt_identifier_set (nident n) (blocks st) None 0 None;
     Some ((unref st (nmeta n))\<lparr>nodes := (nodes st)(p := None), blocks := m\<rparr>) }"

text \<open>The loop of \<open>mpt_node_clear\<close> with the call of \<open>mpt_node_destroy\<close> for each isolated child.\<close>

partial_function (option) clear_loop :: "nstate \<Rightarrow> ptr \<Rightarrow> nstate option" where
  "clear_loop st p =
     (if p = 0 then Some st
      else do {
        n \<leftarrow> load (nodes st) p;
        h \<leftarrow> upd (nodes st) p (\<lambda>n. n\<lparr>nnext := 0, nprev := 0, nparent := 0\<rparr>);
        st \<leftarrow> clear_loop (st\<lparr>nodes := h\<rparr>) (nchildren n);
        h \<leftarrow> set_children (nodes st) p 0;
        st \<leftarrow> node_free (st\<lparr>nodes := h\<rparr>) p;
        clear_loop st (nnext n) })"

definition mpt_node_clear :: "nstate \<Rightarrow> ptr \<Rightarrow> nstate option" where
  "mpt_node_clear st p = do {
     n \<leftarrow> load (nodes st) p;
     st \<leftarrow> clear_loop st (nchildren n);
     h \<leftarrow> set_children (nodes st) p 0;
     Some (st\<lparr>nodes := h\<rparr>) }"

definition mpt_node_destroy :: "nstate \<Rightarrow> ptr \<Rightarrow> (ptr \<times> nstate) option" where
  "mpt_node_destroy st p =
     (if p = 0 then Some (0, st)
      else do {
        n \<leftarrow> load (nodes st) p;
        if nparent n \<noteq> 0 \<or> nnext n \<noteq> 0 \<or> nprev n \<noteq> 0 then Some (p, st)
        else do { st \<leftarrow> mpt_node_clear st p; st \<leftarrow> node_free st p; Some (0, st) } })"

definition mpt_node_clone :: "env \<Rightarrow> nstate \<Rightarrow> ptr \<Rightarrow> (ptr \<times> nstate) option" where
  "mpt_node_clone e st p =
     (if p = 0 then Some (0, st)
      else do {
        n \<leftarrow> load (nodes st) p;
        let mt = (if nmeta n = 0 then 0 else eclone e (nmeta n));
        if nmeta n \<noteq> 0 \<and> mt = 0 then Some (0, st)
        else do {
          (copy, st) \<leftarrow> mpt_node_new e st (ilen (nident n));
          if copy = 0 then Some (0, unref st mt)
          else do {
            c \<leftarrow> load (nodes st) copy;
            (r, d, m) \<leftarrow> mpt_identifier_copy (nident c) (blocks st) False (Some (nident n)) (eblk e (blocks st));
            st \<leftarrow> Some (st\<lparr>nodes := (nodes st)(copy \<mapsto> c\<lparr>nident := d\<rparr>), blocks := m\<rparr>);
            st \<leftarrow> (if r = Null then do { (_, st) \<leftarrow> mpt_node_destroy st copy; Some (unref st mt) } else Some st);
            c \<leftarrow> load (nodes st) copy;
            st \<leftarrow> Some (unref st (nmeta c));
            h \<leftarrow> upd (nodes st) copy (\<lambda>c. c\<lparr>nmeta := mt\<rparr>);
            Some (copy, st\<lparr>nodes := h\<rparr>) } } })"

partial_function (option) drop_loop :: "nstate \<Rightarrow> ptr \<Rightarrow> nstate option" where
  "drop_loop st p =
     (if p = 0 then Some st
      else do {
        n \<leftarrow> load (nodes st) p;
        (_, h) \<leftarrow> mpt_node_unlink (nodes st) p;
        (_, st) \<leftarrow> mpt_node_destroy (st\<lparr>nodes := h\<rparr>) p;
        drop_loop st (nnext n) })"

partial_function (option) list_clone :: "env \<Rightarrow> nstate \<Rightarrow> ptr \<Rightarrow> ptr \<Rightarrow> ptr \<Rightarrow> (ptr \<times> nstate) option" where
  "list_clone e st src frst lst =
     (if src = 0 then Some (frst, st)
      else do {
        (cpy, st) \<leftarrow> mpt_node_clone e st src;
        if cpy = 0 then do { st \<leftarrow> drop_loop st frst; Some (0, st) }
        else do {
          (frst, lst, st) \<leftarrow> (if lst = 0 then Some (cpy, cpy, st)
            else do { (l, h) \<leftarrow> mpt_gnode_after (nodes st) lst cpy; Some (frst, l, st\<lparr>nodes := h\<rparr>) });
          s \<leftarrow> load (nodes st) src;
          if nchildren s = 0 then list_clone e st (nnext s) frst lst
          else do {
            (k, st) \<leftarrow> list_clone e st (nchildren s) 0 0;
            h \<leftarrow> set_children (nodes st) cpy k;
            st \<leftarrow> Some (st\<lparr>nodes := h\<rparr>);
            if k = 0 then list_clone e st (nnext s) frst lst
            else do { st \<leftarrow> drop_loop st frst; Some (0, st) } } } })"

definition mpt_list_clone :: "env \<Rightarrow> nstate \<Rightarrow> ptr \<Rightarrow> (ptr \<times> nstate) option" where
  "mpt_list_clone e st src = list_clone e st src 0 0"

definition mpt_tree_clone :: "env \<Rightarrow> nstate \<Rightarrow> ptr \<Rightarrow> (ptr \<times> nstate) option" where
  "mpt_tree_clone e st src = do {
     (cpy, st) \<leftarrow> mpt_node_clone e st src;
     if cpy = 0 then Some (0, st)
     else do {
       s \<leftarrow> load (nodes st) src;
       if nchildren s = 0 then Some (cpy, st)
       else do {
         (k, st) \<leftarrow> mpt_list_clone e st (nchildren s);
         h \<leftarrow> set_children (nodes st) cpy k;
         st \<leftarrow> Some (st\<lparr>nodes := h\<rparr>);
         if k = 0 then do { (_, st) \<leftarrow> mpt_node_destroy st cpy; Some (0, st) }
         else Some (cpy, st) } } }"

section \<open>Search results\<close>

text \<open>A node has a name when its identifier is the terminated string.\<close>

definition named :: "store \<Rightarrow> block \<Rightarrow> node \<Rightarrow> bool" where
  "named m x n \<longleftrightarrow> icharset (nident n) = CharsetUTF8 \<and> ident_bytes m (nident n) = Some (x @ [0])"

lemma ident_block_wf:
  assumes "wf_ident m d"
  obtains b where "ident_block m d = Some b" "ilen d \<le> length b" "ident_bytes m d = Some (take (ilen d) b)"
proof (cases "ilen d > imax d")
  case True
  with assms obtain a b where "get_base d = Some a" "m a = Some b" "length b = ilen d"
    by (auto simp: wf_ident_def split: option.splits)
  with True that [of b] show thesis
    by (simp add: ident_block_def ident_bytes_def mpt_identifier_data_def rd_def)
next
  case False
  with assms that [of "ival d"] show thesis
    by (simp add: wf_ident_def ident_block_def ident_bytes_def mpt_identifier_data_def rd_def)
qed

lemma terminated_eq:
  assumes "l < length b" "l \<le> length s"
  shows "take (Suc l) b = take l s @ [0] \<longleftrightarrow> b ! l = 0 \<and> take l b = take l (s :: block)"
  using assms by (auto simp: take_Suc_conv_app_nth)

lemma node_match_named:
  assumes wf: "wf_ident m (nident n)" and ls: "l \<le> length s"
  shows "node_match m zl a s l (l + 1) 1 n = Some (named m (take l s) n)"
proof -
  obtain b where b: "ident_block m (nident n) = Some b" "ilen (nident n) \<le> length b"
    "ident_bytes m (nident n) = Some (take (ilen (nident n)) b)" using ident_block_wf [OF wf] .
  show ?thesis
  proof (cases "icharset (nident n) = 1 \<and> ilen (nident n) = l + 1")
    case False
    have "\<not> named m (take l s) n"
    proof
      assume "named m (take l s) n"
      then have e: "icharset (nident n) = 1" "take (ilen (nident n)) b = take l s @ [0]"
        using b by (auto simp: named_def)
      have "length (take (ilen (nident n)) b) = length (take l s @ [0])" using e(2) by (rule arg_cong)
      then have "ilen (nident n) = l + 1" using b(2) ls by simp
      with e False show False by simp
    qed
    with False show ?thesis by (auto simp: node_match_def Let_def)
  next
    case True
    with b have lb: "l < length b" by simp
    have "rd s 0 l = Some (take l s)" "rd b 0 l = Some (take l b)" using ls lb by (auto simp: rd_def)
    with True b lb memcmp_zero [of "take l s" "take l b"] ls show ?thesis
      by (auto simp: node_match_def Let_def named_def terminated_eq [OF lb ls])
  qed
qed

lemma locate_fwd_at:
  assumes s: "sibs h par ts" and k: "\<And>i. i < length ts \<Longrightarrow> \<exists>n. load h (at ts i) = Some n \<and> mt n = Some (hit i)"
  shows "i < length ts \<Longrightarrow> 0 < k \<Longrightarrow> locate_fwd mt h (at ts i) k =
    Some (let js = filter hit [i..<length ts] in if k \<le> length js then at ts (js ! (k - 1)) else 0)"
proof (induction "length ts - i" arbitrary: i k)
  case (Suc d)
  from sibs_at [OF s Suc.prems(1)] k [OF Suc.prems(1)] obtain n where
    n: "load h (at ts i) = Some n" "nnext n = at ts (Suc i)" "mt n = Some (hit i)" by auto
  have u: "[i..<length ts] = i # [Suc i..<length ts]" using Suc.prems by (simp add: upt_conv_Cons)
  show ?case
  proof (cases "Suc i < length ts")
    case True
    have nz: "at ts (Suc i) \<noteq> 0" using sibs_at(1) [OF s True] .
    note IH = Suc.hyps(1) [of "Suc i"]
    show ?thesis
    proof (cases "hit i \<and> k = 1")
      case True
      with n u show ?thesis by (subst locate_fwd.simps) simp
    next
      case False
      then have "locate_fwd mt h (at ts i) k = locate_fwd mt h (at ts (Suc i)) (if hit i then k - 1 else k)"
        using n nz by (subst locate_fwd.simps) auto
      with IH [of "if hit i then k - 1 else k"] Suc.hyps(2) Suc.prems True False u show ?thesis
        by (auto simp: Let_def nth_Cons')
    qed
  next
    case False
    with Suc.prems have "at ts (Suc i) = 0" "[Suc i..<length ts] = []" by (auto simp: at_def)
    with n u Suc.prems show ?thesis by (subst locate_fwd.simps) (auto simp: Let_def)
  qed
qed simp

lemma locate_back_at:
  assumes s: "sibs h par ts" and k: "\<And>i. i < length ts \<Longrightarrow> \<exists>n. load h (at ts i) = Some n \<and> mt n = Some (hit i)"
  shows "i < length ts \<Longrightarrow> 0 < k \<Longrightarrow> locate_back mt h (at ts i) k =
    Some (let js = filter hit [0..<i] in if k \<le> length js then at ts (js ! (length js - k)) else 0)"
proof (induction i arbitrary: k)
  case 0
  from sibs_at [OF s 0(1)] 0(2) show ?case by (subst locate_back.simps) auto
next
  case (Suc i)
  then have i: "i < length ts" by simp
  from sibs_at [OF s Suc.prems(1)] k [OF i] obtain n c where
    n: "load h (at ts (Suc i)) = Some n" "nprev n = at ts i" "load h (at ts i) = Some c" "mt c = Some (hit i)" by auto
  have nz: "at ts i \<noteq> 0" using sibs_at(1) [OF s i] .
  show ?case
  proof (cases "hit i \<and> k = 1")
    case True
    with n nz show ?thesis by (subst locate_back.simps) (simp add: Let_def)
  next
    case False
    then have "locate_back mt h (at ts (Suc i)) k = locate_back mt h (at ts i) (if hit i then k - 1 else k)"
      using n nz by (subst locate_back.simps) auto
    with Suc.IH [OF i, of "if hit i then k - 1 else k"] Suc.prems False show ?thesis
      by (auto simp: Let_def nth_append)
  qed
qed

text \<open>The child of a position among those with the name: from the front, the last one, or backwards
  from the last one.\<close>

definition find_pos :: "ntree list \<Rightarrow> (nat \<Rightarrow> bool) \<Rightarrow> int \<Rightarrow> ptr" where
  "find_pos ts hit pos = (let js = filter hit [0..<length ts]; n = length js in
     if 0 < pos then (if nat pos \<le> n then at ts (js ! (nat pos - 1)) else 0)
     else if nat (- pos) < n then at ts (js ! (n - 1 - nat (- pos))) else 0)"

lemma filter_last:
  "filter hit [0..<n] \<noteq> [] \<Longrightarrow> \<exists>i<n. filter hit [0..<n] = filter hit [0..<i] @ [i]"
  by (induction n) (auto simp: less_Suc_eq)

lemma locate_named:
  assumes s: "sibs h par ts" and ne: "ts \<noteq> []"
    and wf: "\<And>i. i < length ts \<Longrightarrow> wf_ident m (nident (the (h (at ts i))))"
    and l: "l \<le> length x" and a: "a \<noteq> 0" and i: "i < length ts" and p: "0 \<le> pos"
  defines "hit \<equiv> \<lambda>i. named m (take l x) (the (h (at ts i)))"
  shows "mpt_node_locate m h (first ts 0) pos a x l (- 1) = Some (find_pos ts hit pos)"
    and "0 < k \<Longrightarrow> mpt_node_locate m h (at ts i) (- int k) a x l (- 1) =
      Some (let js = filter hit [0..<i] in if k \<le> length js then at ts (js ! (length js - k)) else 0)"
proof -
  let ?n = "length ts"
  have f: "first ts 0 = at ts 0" "0 < ?n" using ne by (auto simp: first_def at_def split: list.split)
  have mt: "\<exists>n. load h (at ts j) = Some n \<and> node_match m zl a x l (l + 1) 1 n = Some (hit j)" if "j < ?n" for j zl
  proof -
    from sibs_at [OF s that] obtain n where "load h (at ts j) = Some n" "h (at ts j) = Some n"
      by (auto simp: load_def split: if_splits)
    with node_match_named [OF wf [OF that] l] show ?thesis by (auto simp: hit_def)
  qed
  have fwd: "locate_fwd (node_match m zl a x l (l + 1) 1) h (at ts j) k =
      Some (let js = filter hit [j..<?n] in if k \<le> length js then at ts (js ! (k - 1)) else 0)"
    if "j < ?n" "0 < k" for j k zl by (rule locate_fwd_at [OF s mt that])
  have bck: "locate_back (node_match m zl a x l (l + 1) 1) h (at ts j) k =
      Some (let js = filter hit [0..<j] in if k \<le> length js then at ts (js ! (length js - k)) else 0)"
    if "j < ?n" "0 < k" for j k zl by (rule locate_back_at [OF s mt that])
  show "0 < k \<Longrightarrow> mpt_node_locate m h (at ts i) (- int k) a x l (- 1) =
      Some (let js = filter hit [0..<i] in if k \<le> length js then at ts (js ! (length js - k)) else 0)"
    using bck [OF i, of k] sibs_at(1) [OF s i] a by (simp add: mpt_node_locate_def)
  show "mpt_node_locate m h (first ts 0) pos a x l (- 1) = Some (find_pos ts hit pos)"
  proof (cases "pos = 0")
    case False
    with p fwd [OF f(2), of "nat pos"] sibs_at(1) [OF s f(2)] a f show ?thesis
      by (simp add: mpt_node_locate_def find_pos_def)
  next
    case True
    let ?e = "?n - 1"
    have e: "?e < ?n" using f by simp
    from mt [OF e] obtain n where n: "load h (at ts ?e) = Some n" "node_match m False a x l (l + 1) 1 n = Some (hit ?e)" by blast
    have u: "[0..<?n] = [0..<?e] @ [?e]" using f by (metis Suc_pred' upt_Suc_append le0)
    have "mpt_node_locate m h (first ts 0) pos a x l (- 1) =
      (if hit ?e then Some (at ts ?e) else locate_back (node_match m True a x l (l + 1) 1) h (at ts ?e) 1)"
      using True n last_node_at [OF s f(2)] sibs_at(1) [OF s f(2)] a f by (simp add: mpt_node_locate_def)
    with bck [OF e, of 1] True u show ?thesis by (auto simp: find_pos_def Let_def nth_append Suc_le_eq)
  qed
qed

text \<open>Property C31: \<open>mpt_node_find\<close> selects among the children with the requested name: a positive position
  counts them from the front, zero is the last one, a negative position counts backwards from the
  last; the result is the null pointer when there are not as many.\<close>

theorem node_find_position:
  assumes "child_trees h par ts"
    and "list_all (\<lambda>t. wf_ident m (nident (the (h (root t))))) ts"
    and "c_strlen x = Some l" and "a \<noteq> 0"
  shows "mpt_node_find m h par (Some (a, x)) pos =
    Some (find_pos ts (\<lambda>i. named m (take l x) (the (h (at ts i)))) pos)"
proof -
  let ?hit = "\<lambda>i. named m (take l x) (the (h (at ts i)))"
  from assms have s: "par \<noteq> 0" "sibs h par ts" by (auto simp: child_trees_def)
  from s obtain n where n: "h par = Some n" "nchildren n = first ts 0"
    by (auto simp: sibs_def split: option.splits)
  have wf: "\<And>i. i < length ts \<Longrightarrow> wf_ident m (nident (the (h (at ts i))))"
    using assms(2) by (simp add: list_all_length at_def)
  show ?thesis
  proof (cases "ts = []")
    case True
    with n s show ?thesis by (simp add: mpt_node_find_def load_def find_pos_def)
  next
    case False
    then have f: "0 < length ts" "first ts 0 \<noteq> 0" using sibs_at(1) [OF s(2), of 0]
      by (auto simp: first_def at_def split: list.split)
    have "l \<le> length x" using assms(3) by (auto simp: c_strlen_def length_takeWhile_le split: if_splits)
    note L = locate_named [OF s(2) False wf this assms(4)]
    have z: "mpt_node_locate m h (first ts 0) 0 a x l (- 1) = Some (find_pos ts ?hit 0)"
      using L(1) [OF _ f(1), of 0] by simp
    show ?thesis
    proof (cases "0 \<le> pos")
      case True
      with L(1) [OF _ f(1), of pos] n s f assms(3) show ?thesis by (simp add: mpt_node_find_def load_def)
    next
      case neg: False
      let ?js = "filter ?hit [0..<length ts]"
      let ?n = "length ?js"
      have u: "mpt_node_find m h par (Some (a, x)) pos = (if find_pos ts ?hit 0 = 0 then Some 0
        else mpt_node_locate m h (find_pos ts ?hit 0) pos a x l (- 1))"
        using neg z n s f assms(3) by (simp add: mpt_node_find_def load_def)
      show ?thesis
      proof (cases "?js = []")
        case True
        then show ?thesis using u by (simp add: find_pos_def Let_def)
      next
        case False
        with filter_last [of ?hit "length ts"] obtain i where
          i: "i < length ts" and j: "?js = filter ?hit [0..<i] @ [i]" by auto
        have f0: "find_pos ts ?hit 0 = at ts i" unfolding find_pos_def j by (simp add: nth_append)
        define k where "k = nat (- pos)"
        have k: "pos = - int k" "0 < k" using neg by (auto simp: k_def)
        have "mpt_node_find m h par (Some (a, x)) pos =
          Some (let js = filter ?hit [0..<i] in if k \<le> length js then at ts (js ! (length js - k)) else 0)"
          using u f0 sibs_at(1) [OF s(2) i] L(2) [OF _ i, of 0 k] k by simp
        with j k show ?thesis by (auto simp: find_pos_def Let_def nth_append)
      qed
    qed
  qed
qed

text \<open>Two children with the name \<open>a\<close>.\<close>

definition ident_a :: mpt_identifier where
  "ident_a = \<lparr>ilen = 2, icharset = 1, imax = 12, ival = 97 # replicate 11 0\<rparr>"

definition heap_a :: heap where
  "heap_a = [1 \<mapsto> mk_node 0 0 0 2, 2 \<mapsto> (mk_node 3 0 1 0)\<lparr>nident := ident_a\<rparr>,
     3 \<mapsto> (mk_node 0 2 1 0)\<lparr>nident := ident_a\<rparr>]"

lemma heap_a_ok: "child_trees heap_a 1 [NT 2 [], NT 3 []]"
  by (simp add: child_trees_def sibs_def heap_a_def mk_node_def)

theorem node_find_position_witness:
  "mpt_node_find Map.empty heap_a 1 (Some (64, [97, 0])) 2 =
    Some (find_pos [NT 2 [], NT 3 []] (\<lambda>i. named Map.empty (take 1 [97, 0]) (the (heap_a (at [NT 2 [], NT 3 []] i)))) 2)"
proof (rule node_find_position [OF heap_a_ok])
  show "list_all (\<lambda>t. wf_ident Map.empty (nident (the (heap_a (root t))))) [NT 2 [], NT 3 []]"
    by (simp add: heap_a_def ident_a_def wf_ident_def)
qed (simp_all add: c_strlen_def)

section \<open>Release of trees\<close>

text \<open>The blocks the identifiers of trees own, and the metatype references of the nodes, children first.\<close>

definition tree_blocks :: "heap \<Rightarrow> ntree list \<Rightarrow> nat set" where
  "tree_blocks h ts = (\<Union>a\<in>set (addrs ts). owned (nident (the (h a))))"

fun tree_metas :: "heap \<Rightarrow> ntree list \<Rightarrow> ptr list" where
  "tree_metas h [] = []"
| "tree_metas h (NT p cs # ts) =
     tree_metas h cs @ (let mt = nmeta (the (h p)) in if mt = 0 then [] else [mt]) @ tree_metas h ts"

text \<open>Identifiers are well-formed and do not share blocks.\<close>

definition idents_ok :: "heap \<Rightarrow> store \<Rightarrow> ptr set \<Rightarrow> bool" where
  "idents_ok h m A \<longleftrightarrow> (\<forall>a\<in>A. wf_ident m (nident (the (h a)))) \<and>
     (\<forall>a\<in>A. \<forall>b\<in>A. a = b \<or> owned (nident (the (h a))) \<inter> owned (nident (the (h b))) = {})"

lemma wf_ident_restrict: "wf_ident m d \<Longrightarrow> owned d \<inter> B = {} \<Longrightarrow> wf_ident (m |` (- B)) d"
  by (auto simp: wf_ident_def owned_def restrict_map_def split: option.splits)

lemma node_free_ok:
  assumes "p \<noteq> 0" "nodes st p = Some n" "wf_ident (blocks st) (nident n)"
  shows "node_free st p = Some (st\<lparr>nodes := (nodes st)(p := None), blocks := blocks st |` (- owned (nident n)),
    unrefs := unrefs st @ (if nmeta n = 0 then [] else [nmeta n])\<rparr>)"
proof -
  have "imax (nident n) \<le> length (ival (nident n))" using assms(3) by (simp add: wf_ident_def)
  then obtain v where "memset_b (ival (nident n)) 0 0 (imax (nident n)) = Some v"
    by (simp add: memset_b_def wr_def)
  then have "\<exists>r d. mpt_identifier_set (nident n) (blocks st) None 0 None = Some (r, d, blocks st |` (- owned (nident n)))"
    using free_base_ok [OF assms(3)] by (simp add: mpt_identifier_set_def set_inline_def)
  then show ?thesis using assms(1,2) by (auto simp: node_free_def load_def unref_def)
qed

lemma tree_blocks_cong:
  "(\<And>a. a \<in> set (addrs ts) \<Longrightarrow> h' a = h a) \<Longrightarrow> tree_blocks h' ts = tree_blocks h ts"
  by (auto simp: tree_blocks_def)

lemma tree_metas_cong:
  "(\<And>a. a \<in> set (addrs ts) \<Longrightarrow> h' a = h a) \<Longrightarrow> tree_metas h' ts = tree_metas h ts"
  by (induction ts rule: addrs.induct) (auto simp: Let_def)

text \<open>A part of the nodes whose blocks are not among those released.\<close>

lemma idents_ok_sub:
  assumes "idents_ok h m A" "C \<subseteq> A" "\<And>a. a \<in> C \<Longrightarrow> h' a = h a"
    and "\<And>a. a \<in> C \<Longrightarrow> owned (nident (the (h a))) \<inter> B = {}"
  shows "idents_ok h' (m |` (- B)) C"
proof -
  have "wf_ident (m |` (- B)) (nident (the (h' a)))" if "a \<in> C" for a
    using assms that wf_ident_restrict [of m "nident (the (h a))" B] by (auto simp: idents_ok_def)
  moreover have "a = b \<or> owned (nident (the (h' a))) \<inter> owned (nident (the (h' b))) = {}" if "a \<in> C" "b \<in> C" for a b
  proof -
    have "h' a = h a" "h' b = h b" "a \<in> A" "b \<in> A" using assms(2,3) that by auto
    moreover from this(3,4) assms(1) have "a = b \<or> owned (nident (the (h a))) \<inter> owned (nident (the (h b))) = {}"
      unfolding idents_ok_def by blast
    ultimately show ?thesis by simp
  qed
  ultimately show ?thesis unfolding idents_ok_def by blast
qed

lemma idents_ok_disjoint:
  "idents_ok h m A \<Longrightarrow> a \<in> A \<Longrightarrow> set (addrs ts) \<subseteq> A \<Longrightarrow> a \<notin> set (addrs ts) \<Longrightarrow>
    owned (nident (the (h a))) \<inter> tree_blocks h ts = {}"
proof -
  assume I: "idents_ok h m A" "a \<in> A" "set (addrs ts) \<subseteq> A" "a \<notin> set (addrs ts)"
  have "owned (nident (the (h a))) \<inter> owned (nident (the (h b))) = {}" if "b \<in> set (addrs ts)" for b
  proof -
    have "b \<in> A" "a \<noteq> b" using I that by auto
    with I(1,2) show ?thesis unfolding idents_ok_def by blast
  qed
  then show ?thesis by (simp add: tree_blocks_def Int_UN_distrib)
qed

lemma clear_loop_ok:
  assumes "repr (nodes st) par pv ts 0" "distinct (addrs ts)" "idents_ok (nodes st) (blocks st) (set (addrs ts))"
  shows "clear_loop st (first ts 0) = Some (st\<lparr>nodes := nodes st |` (- set (addrs ts)),
    blocks := blocks st |` (- tree_blocks (nodes st) ts), unrefs := unrefs st @ tree_metas (nodes st) ts\<rparr>)"
  using assms
proof (induction ts arbitrary: st par pv rule: addrs.induct)
  case 1
  then show ?case by (subst clear_loop.simps) (simp add: tree_blocks_def restrict_map_def)
next
  case (2 p cs ts)
  let ?h = "nodes st" and ?m = "blocks st" and ?u = "unrefs st"
  let ?C = "set (addrs cs)" and ?T = "set (addrs ts)"
  from "2.prems"(1) obtain n where n: "?h p = Some n" "p \<noteq> 0" "nnext n = first ts 0" "nchildren n = first cs 0"
    by (auto split: option.splits)
  have D: "p \<notin> ?C" "p \<notin> ?T" "?C \<inter> ?T = {}" "distinct (addrs cs)" "distinct (addrs ts)" using "2.prems"(2) by auto
  note I = "2.prems"(3)
  note own = idents_ok_disjoint [OF I]
  define n0 where "n0 = n\<lparr>nnext := 0, nprev := 0, nparent := 0\<rparr>"
  define s1 where "s1 = st\<lparr>nodes := ?h(p \<mapsto> n0)\<rparr>"
  have same: "\<And>a. a \<in> ?C \<Longrightarrow> nodes s1 a = ?h a" using D by (auto simp: s1_def)
  define s2 where "s2 = s1\<lparr>nodes := nodes s1 |` (- ?C), blocks := ?m |` (- tree_blocks ?h cs), unrefs := ?u @ tree_metas ?h cs\<rparr>"
  have "clear_loop s1 (first cs 0) = Some s2"
  proof -
    have "repr (nodes s1) p 0 cs 0" using "2.prems"(1) D by (simp add: s1_def)
    moreover have "idents_ok (nodes s1) (?m |` (- {})) ?C" by (rule idents_ok_sub [OF I]) (use same in auto)
    moreover have "tree_blocks (nodes s1) cs = tree_blocks ?h cs" "tree_metas (nodes s1) cs = tree_metas ?h cs"
      by (rule tree_blocks_cong, erule same) (rule tree_metas_cong, erule same)
    moreover have "blocks s1 = ?m" "unrefs s1 = ?u" by (simp_all add: s1_def)
    ultimately show ?thesis using "2.IH"(1) [of s1 p 0] D(4) by (simp add: s2_def restrict_map_def)
  qed
  moreover define s3 where "s3 = s2\<lparr>nodes := (nodes s2)(p := None), blocks := blocks s2 |` (- owned (nident n)),
      unrefs := unrefs s2 @ (if nmeta n = 0 then [] else [nmeta n])\<rparr>"
  have p2: "nodes s2 p = Some n0" using D by (simp add: s2_def s1_def)
  have "node_free (s2\<lparr>nodes := (nodes s2)(p \<mapsto> n0\<lparr>nchildren := 0\<rparr>)\<rparr>) p = Some s3"
  proof -
    have "wf_ident (blocks s2) (nident n)" using I n(1) own [of p cs] D
      by (auto simp: s2_def idents_ok_def intro!: wf_ident_restrict)
    then show ?thesis using n(2) p2 by (subst node_free_ok [of _ _ "n0\<lparr>nchildren := 0\<rparr>"]) (simp_all add: n0_def s3_def)
  qed
  ultimately have step: "clear_loop st (first (NT p cs # ts) 0) = clear_loop s3 (first ts 0)"
    using n p2 by (subst clear_loop.simps) (simp add: node_access s1_def n0_def)
  have same3: "\<And>a. a \<in> ?T \<Longrightarrow> nodes s3 a = ?h a" using D by (auto simp: s3_def s2_def s1_def restrict_map_def)
  have "repr (nodes s3) par p ts 0" using "2.prems"(1) repr_frame [of ts "nodes s3" ?h, OF same3] by simp
  moreover have "idents_ok (nodes s3) (?m |` (- (tree_blocks ?h cs \<union> owned (nident n)))) ?T"
  proof (rule idents_ok_sub [OF I])
    fix a assume "a \<in> ?T"
    then show "owned (nident (the (?h a))) \<inter> (tree_blocks ?h cs \<union> owned (nident n)) = {}"
      using own [of a cs] I n(1) D unfolding idents_ok_def by fastforce
  qed (use same3 in auto)
  moreover have "blocks s3 = ?m |` (- (tree_blocks ?h cs \<union> owned (nident n)))"
    by (simp add: s3_def s2_def Int_commute)
  moreover have "tree_blocks (nodes s3) ts = tree_blocks ?h ts" "tree_metas (nodes s3) ts = tree_metas ?h ts"
    by (rule tree_blocks_cong, erule same3) (rule tree_metas_cong, erule same3)
  ultimately have "clear_loop s3 (first ts 0) = Some (s3\<lparr>nodes := nodes s3 |` (- ?T),
      blocks := blocks s3 |` (- tree_blocks ?h ts), unrefs := unrefs s3 @ tree_metas ?h ts\<rparr>)"
    using "2.IH"(2) [of s3 par p] D(5) by simp
  moreover have "tree_blocks ?h (NT p cs # ts) = tree_blocks ?h cs \<union> owned (nident n) \<union> tree_blocks ?h ts"
    using n(1) by (auto simp: tree_blocks_def)
  moreover have "nodes s3 |` (- ?T) = ?h |` (- set (addrs (NT p cs # ts)))"
    by (auto simp: s3_def s2_def s1_def restrict_map_def fun_eq_iff)
  ultimately show ?case using step n(1) by (simp add: s3_def s2_def s1_def Let_def Int_assoc)
qed

text \<open>Property C32: \<open>mpt_node_destroy\<close> of a node that is not linked any more returns, releases exactly the
  nodes of its tree and the blocks of their identifiers, each of them once, and gives up the metatype
  references of the nodes, those of the children before that of their parent.\<close>

theorem node_destroy_releases:
  assumes "sibs (nodes st) 0 [t]" and "idents_ok (nodes st) (blocks st) (set (addrs [t]))"
  shows "mpt_node_destroy st (root t) = Some (0, st\<lparr>nodes := nodes st |` (- set (addrs [t])),
    blocks := blocks st |` (- tree_blocks (nodes st) [t]), unrefs := unrefs st @ tree_metas (nodes st) [t]\<rparr>)"
proof -
  obtain p cs where t: "t = NT p cs" by (cases t)
  let ?h = "nodes st" and ?m = "blocks st"
  note Q = single_parts [OF assms(1) [unfolded t]]
  from Q(5) obtain n where n: "?h p = Some n" "nparent n = 0" "nprev n = 0" "nnext n = 0" "nchildren n = first cs 0" by blast
  note I = assms(2) [unfolded t]
  have "idents_ok ?h (?m |` (- {})) (set (addrs cs))" by (rule idents_ok_sub [OF I]) auto
  then have c: "clear_loop st (nchildren n) = Some (st\<lparr>nodes := ?h |` (- set (addrs cs)),
      blocks := ?m |` (- tree_blocks ?h cs), unrefs := unrefs st @ tree_metas ?h cs\<rparr>)" (is "_ = Some ?s")
    using clear_loop_ok [OF Q(2,3)] n(5) by (simp add: restrict_map_def)
  have p: "nodes ?s p = Some n" using n(1) Q(4) by simp
  have "wf_ident (blocks ?s) (nident n)"
    using I n(1) idents_ok_disjoint [OF I, of p cs] Q(4) by (auto simp: idents_ok_def intro!: wf_ident_restrict)
  then have f: "node_free (?s\<lparr>nodes := (nodes ?s)(p \<mapsto> n\<lparr>nchildren := 0\<rparr>)\<rparr>) p = Some (?s\<lparr>nodes := (nodes ?s)(p := None),
      blocks := blocks ?s |` (- owned (nident n)), unrefs := unrefs ?s @ (if nmeta n = 0 then [] else [nmeta n])\<rparr>)"
    using Q(1) by (subst node_free_ok [of _ _ "n\<lparr>nchildren := 0\<rparr>"]) simp_all
  have "mpt_node_clear st p = Some (?s\<lparr>nodes := (nodes ?s)(p \<mapsto> n\<lparr>nchildren := 0\<rparr>)\<rparr>)"
    using n(1) Q(1) c p by (simp add: mpt_node_clear_def load_def upd_def)
  with f n Q(1) have "mpt_node_destroy st p = Some (0, ?s\<lparr>nodes := (nodes ?s)(p := None),
      blocks := blocks ?s |` (- owned (nident n)), unrefs := unrefs ?s @ (if nmeta n = 0 then [] else [nmeta n])\<rparr>)"
    by (simp add: mpt_node_destroy_def load_def)
  moreover have "tree_blocks ?h [t] = tree_blocks ?h cs \<union> owned (nident n)"
    using n(1) t by (auto simp: tree_blocks_def)
  moreover have "(nodes ?s)(p := None) = ?h |` (- set (addrs [t]))"
    using t by (auto simp: restrict_map_def fun_eq_iff)
  ultimately show ?thesis using n(1) t by (simp add: Let_def)
qed

definition state0 :: nstate where
  "state0 = \<lparr>nodes = [1 \<mapsto> (mk_node 0 0 0 2)\<lparr>nmeta := 7\<rparr>, 2 \<mapsto> (mk_node 0 0 1 0)\<lparr>nmeta := 8\<rparr>], blocks = Map.empty, unrefs = []\<rparr>"

theorem node_destroy_releases_witness:
  "mpt_node_destroy state0 1 = Some (0, state0\<lparr>nodes := nodes state0 |` (- {1, 2}),
    blocks := blocks state0 |` (- tree_blocks (nodes state0) [NT 1 [NT 2 []]]), unrefs := [8, 7]\<rparr>)"
proof -
  have "sibs (nodes state0) 0 [NT 1 [NT 2 []]]" by (simp add: state0_def sibs_def mk_node_def)
  moreover have "idents_ok (nodes state0) (blocks state0) (set (addrs [NT 1 [NT 2 []]]))"
    by (simp add: state0_def idents_ok_def mk_node_def ident0_def wf_ident_def owned_def)
  ultimately have "mpt_node_destroy state0 (root (NT 1 [NT 2 []])) = Some (0, state0\<lparr>nodes := nodes state0 |` (- set (addrs [NT 1 [NT 2 []]])),
    blocks := blocks state0 |` (- tree_blocks (nodes state0) [NT 1 [NT 2 []]]),
    unrefs := unrefs state0 @ tree_metas (nodes state0) [NT 1 [NT 2 []]]\<rparr>)"
    by (rule node_destroy_releases)
  moreover have "unrefs state0 @ tree_metas (nodes state0) [NT 1 [NT 2 []]] = [8, 7]"
    by (simp add: state0_def)
  ultimately show ?thesis by simp
qed

section \<open>Copies and moves that deviate\<close>

definition env0 :: env where
  "env0 = \<lparr>enew = (\<lambda>h. if h 10 = None then 10 else 11), eblk = (\<lambda>_. Some 64), eraw = (\<lambda>n. replicate n 0), eclone = (\<lambda>x. x)\<rparr>"

lemmas clone_eval = mpt_list_clone_def list_clone.simps mpt_node_clone_def mpt_node_new_def mpt_identifier_init_def
  mpt_identifier_copy_def ident_block_def mpt_identifier_data_def memset_b_def wr_def rd_def drop_loop.simps
  mpt_node_unlink_def mpt_node_destroy_def mpt_node_clear_def clear_loop.simps node_free_def unref_def
  mpt_identifier_set_def set_inline_def free_base_def env0_def state0_def mk_node_def ident0_def node_access Let_def

text \<open>A list in which a node has children is not copied: the successful copy of the children leads to the
  error exit.\<close>

lemma list_clone_children_fails: "map_option fst (mpt_list_clone env0 state0 1) = Some 0"
  by (simp add: clone_eval)

text \<open>A failed copy of the identifier is followed by an access to the node just released.\<close>

lemma node_clone_use_after_free:
  "mpt_node_clone (env0\<lparr>eblk := (\<lambda>_. None)\<rparr>)
     (state0\<lparr>nodes := [1 \<mapsto> (mk_node 0 0 0 0)\<lparr>nident := \<lparr>ilen = 300, icharset = 1, imax = 12, ival = replicate 4 0 @ 64 # replicate 7 0\<rparr>\<rparr>],
       blocks := [64 \<mapsto> replicate 300 65]\<rparr>) 1 = None"
  by (simp add: clone_eval get_base_def)

lemmas move_eval = mpt_node_move_def move_loop.simps node_locate_def mpt_node_locate_def locate_fwd.simps node_match_def
  ident_block_def mpt_identifier_data_def rd_def reparent_loop.simps mpt_node_unlink_def mpt_gnode_add_def
  node_insert_def mpt_gnode_pos_def last_node.simps mpt_gnode_after_def store_from_def ident_a_def ident0_def
  mk_node_def node_access Let_def

text \<open>Children handed over to a node without children stay linked at their former parent as well.\<close>

lemma node_move_shares_children:
  "(case mpt_node_move Map.empty [1 \<mapsto> (mk_node 0 0 0 3)\<lparr>nident := ident_a\<rparr>, 2 \<mapsto> (mk_node 0 0 0 0)\<lparr>nident := ident_a\<rparr>,
       3 \<mapsto> mk_node 0 0 1 0] 1 2 of None \<Rightarrow> False
     | Some (k, from, h) \<Rightarrow> k = 1 \<and> map_option nchildren (h 1) = Some 3 \<and> map_option nchildren (h 2) = Some 3)"
  by (simp add: move_eval)

text \<open>The list of remaining nodes starts behind the last moved node: a node in front of it that was not
  moved is lost.\<close>

lemma node_move_loses_remaining:
  "(case mpt_node_move Map.empty [1 \<mapsto> (mk_node 3 0 0 0)\<lparr>nident := ident_a\<rparr>, 2 \<mapsto> (mk_node 0 0 0 0)\<lparr>nident := ident_a\<rparr>,
       3 \<mapsto> mk_node 0 1 0 0] 1 2 of None \<Rightarrow> False
     | Some (k, from, h) \<Rightarrow> k = 1 \<and> from = 0 \<and> map_option nprev (h 1) = Some 0)"
  by (simp add: move_eval)

end
