(* ===== verification/Metatype.thy ===== *)
theory Metatype
  imports Array Identifier
begin

text \<open>
  Metatypes with text: \<open>mptcore/misc/geninfo.c\<close>, \<open>geninfo_clone.c\<close>, \<open>mptcore/meta/meta_geninfo.c\<close>,
  \<open>meta_new.c\<close> and \<open>mptcore/convert/data_tostring.c\<close>.

  A basic metatype is a pointer to its functions with the text behind it: size and used size in a
  header of four bytes, then the text with a terminating byte.  The state has these texts by address,
  and the buffers of larger text.  The allocators, the registered traits of characters and the
  metatype on a buffer (\<open>mpt_meta_buffer\<close>) are parameters.
\<close>

unbundle bit_operations_syntax

section \<open>Text data\<close>

record metaInfo =
  gsize :: nat
  gused :: nat
  gdata :: block

abbreviation (input) TypeString :: nat where "TypeString \<equiv> 0x73"
abbreviation (input) TypeCharVector :: nat where "TypeCharVector \<equiv> 0x43"
abbreviation (input) TypeMetaPtr :: nat where "TypeMetaPtr \<equiv> 0x100"
abbreviation (input) TypeBufferPtr :: nat where "TypeBufferPtr \<equiv> 0xb"
abbreviation (input) TypeArray :: nat where "TypeArray \<equiv> 0x802"

definition align8 :: "nat \<Rightarrow> nat" where
  "align8 x = x + 7 - (x - 1) mod 8"

definition geninfo_size :: "nat \<Rightarrow> int" where
  "geninfo_size post =
     (if post > 0x7fffffff then BadValue
      else let post = post + 5 in
        if post > 255 then MissingBuffer
        else if align8 post < 255 then int (align8 post) else int post)"

definition geninfo_init :: "block \<Rightarrow> nat \<Rightarrow> (int \<times> metaInfo option)" where
  "geninfo_init raw dlen =
     (if dlen < 4 then (- 2, None)
      else let n = min (dlen - 4) 0xffff in (int n, Some \<lparr>gsize = n, gused = 0, gdata = drop 4 raw\<rparr>))"

text \<open>A negative length is that of the string; without a string its length is undefined.\<close>

definition geninfo_set :: "metaInfo \<Rightarrow> block option \<Rightarrow> int \<Rightarrow> (int \<times> metaInfo) option" where
  "geninfo_set info src len = do {
     n \<leftarrow> (if len < 0 then (case src of None \<Rightarrow> None | Some s \<Rightarrow> c_strlen s) else Some (nat len));
     if n \<ge> gsize info then Some (MissingBuffer, info)
     else do {
       x \<leftarrow> (case src of None \<Rightarrow> Some (replicate n 0) | Some s \<Rightarrow> rd s 0 n);
       d \<leftarrow> wr (gdata info) 0 x;
       d \<leftarrow> wr d n [0];
       Some (0, info\<lparr>gdata := d, gused := n + 1\<rparr>) } }"

text \<open>What a conversion stores: a list of types, a string, a slice of characters, the metatype itself.\<close>

datatype target = Types block | Text "block option" | Slice block | Self

definition geninfo_conv :: "metaInfo \<Rightarrow> nat \<Rightarrow> (int \<times> target option) option" where
  "geninfo_conv info type =
     (if type = 0 then Some (0, Some (Types (if gused info \<noteq> 0 then [0x73, 0] else [0])))
      else if type = TypeString then Some (int type, Some (Text (if gused info \<noteq> 0 then Some (gdata info) else None)))
      else if type = TypeCharVector then map_option (\<lambda>x. (int type, Some (Slice x))) (rd (gdata info) 0 (gused info))
      else Some (BadType, None))"

definition metaConv :: "metaInfo \<Rightarrow> nat \<Rightarrow> (int \<times> target option) option" where
  "metaConv info type =
     (if type = 0 then Some (0, Some (Types [0x73, 0]))
      else if type = TypeMetaPtr then Some (0, Some Self)
      else geninfo_conv info type)"

section \<open>Source data\<close>

text \<open>The value at the address of a source: a pointer to a string, a vector of characters, the buffer of an
  array (zero for none).\<close>

datatype source = SrcNull | SrcString "block option" | SrcVector "block option" nat | SrcArray nat

record mstate =
  minfos :: "nat \<Rightarrow> metaInfo option"
  mbufs :: bmem

record menv =
  mnew :: "mstate \<Rightarrow> nat \<Rightarrow> (nat \<times> block) option"
  mmal :: malloc
  mchar :: "traits option"
  mbuffer :: "bmem \<Rightarrow> nat \<Rightarrow> nat \<times> bmem"

text \<open>The text, its length and whether the source pointer was advanced; the flag \<open>wl\<close> tells that the caller
  gets the length.\<close>

definition mpt_data_tostring ::
  "menv \<Rightarrow> bmem \<Rightarrow> bool \<Rightarrow> source \<Rightarrow> nat \<Rightarrow> (block \<times> nat \<times> bool) option option" where
  "mpt_data_tostring E m wl src type =
     (if type = TypeString then
        (case src of SrcNull \<Rightarrow> Some (Some ([0, 0], 0, False))
         | SrcString None \<Rightarrow> Some (Some ([0, 0], 0, True))
         | SrcString (Some s) \<Rightarrow> map_option (\<lambda>l. Some (s, l, True)) (if wl then c_strlen s else Some 0)
         | _ \<Rightarrow> None)
      else if type = TypeArray \<or> type = TypeBufferPtr then
        (case src of SrcNull \<Rightarrow> Some None
         | SrcArray a \<Rightarrow>
            if a = 0 then Some None
            else do {
              b \<leftarrow> getb m a;
              if mchar E = None \<or> \<not> (btraits b \<noteq> None \<and> same_traits (btraits b) (mchar E)) then Some None
              else if wl then Some (Some (bdata b, bused b, True))
              else if bused b = 0 then Some (Some ([0, 0], 0, True))
              else if 0 \<notin> set (take (bused b) (bdata b)) then Some None
              else Some (Some (bdata b, 0, True)) }
         | _ \<Rightarrow> None)
      else if type = TypeCharVector then
        (case src of SrcNull \<Rightarrow> Some None
         | SrcVector None l \<Rightarrow>
             if l \<noteq> 0 then Some None else if wl then Some (Some ([0, 0], 0, True)) else Some None
         | SrcVector (Some s) l \<Rightarrow>
             if wl then Some (Some (s, l, True))
             else if l = 0 then Some None
             else do { x \<leftarrow> rd s (l - 1) 1; Some (if hd x \<noteq> 0 then None else Some (s, 0, True)) }
         | _ \<Rightarrow> None)
      else Some None)"

section \<open>New metatypes\<close>

text \<open>A negative size is a large one.\<close>

definition mpt_meta_geninfo :: "menv \<Rightarrow> mstate \<Rightarrow> nat \<Rightarrow> nat \<times> mstate" where
  "mpt_meta_geninfo E st post =
     (let n = geninfo_size (wrap (post + 1)) in
      if n < 0 \<or> n > 255 then (0, st)
      else case mnew E st (8 + nat n) of None \<Rightarrow> (0, st)
      | Some (a, raw) \<Rightarrow>
          (case geninfo_init (drop 8 raw) (nat n) of (_, None) \<Rightarrow> (0, st)
           | (_, Some info) \<Rightarrow> (a, st\<lparr>minfos := (minfos st)(a \<mapsto> info)\<rparr>)))"

definition metaUnref :: "mstate \<Rightarrow> nat \<Rightarrow> mstate" where
  "metaUnref st a = st\<lparr>minfos := (minfos st)(a := None)\<rparr>"

text \<open>Text for a buffer with the reserved size: \<open>mpt_buffer_set\<close> gets position and length in exchanged order.\<close>

definition meta_store :: "menv \<Rightarrow> mstate \<Rightarrow> traits \<Rightarrow> block \<Rightarrow> nat \<Rightarrow> nat \<Rightarrow> (nat \<times> mstate) option" where
  "meta_store E st tr text len reserve = do {
     (b, a, m) \<leftarrow> mpt_array_reserve (mmal E) (mbufs st) 0 reserve (Some tr);
     if b = 0 then Some (0, st\<lparr>mbufs := m\<rparr>)
     else do {
       (r, m) \<leftarrow> mpt_buffer_set m b (Some tr) len (Some text) 0;
       (fail, m) \<leftarrow> (if r = 0 then Some (True, m)
         else if reserve > len then do {
           (r, m) \<leftarrow> mpt_buffer_set m b (Some tr) 1 (Some [0]) len; Some (r = 0, m) }
         else Some (False, m));
       if fail then do { (_, _, m) \<leftarrow> mpt_array_clone m a None; Some (0, st\<lparr>mbufs := m\<rparr>) }
       else do {
         let (mt, m) = mbuffer E m a;
         (_, _, m) \<leftarrow> mpt_array_clone m a None;
         Some (mt, st\<lparr>mbufs := m\<rparr>) } } }"

definition meta_new_buffer :: "menv \<Rightarrow> mstate \<Rightarrow> block \<Rightarrow> nat \<Rightarrow> (nat \<times> mstate) option" where
  "meta_new_buffer E st text len =
     (case mchar E of None \<Rightarrow> Some (0, st)
      | Some tr \<Rightarrow> do {
          x \<leftarrow> (if len \<noteq> 0 then rd text (len - 1) 1 else Some [0]);
          meta_store E st tr text len (if hd x \<noteq> 0 then wrap (len + 1) else len) })"

definition mpt_meta_new :: "menv \<Rightarrow> mstate \<Rightarrow> nat \<Rightarrow> source \<Rightarrow> (nat \<times> mstate) option" where
  "mpt_meta_new E st type src = do {
     t \<leftarrow> mpt_data_tostring E (mbufs st) True src type;
     case t of None \<Rightarrow> Some (0, st)
     | Some (text, len, nn) \<Rightarrow>
         if len \<ge> 255 then meta_new_buffer E st text len
         else let (mt, st) = mpt_meta_geninfo E st len in
           if mt = 0 \<or> \<not> nn then Some (mt, st)
           else do {
             info \<leftarrow> minfos st mt;
             (r, info) \<leftarrow> geninfo_set info (Some text) (int len);
             Some (if r \<ge> 0 then (mt, st\<lparr>minfos := (minfos st)(mt \<mapsto> info)\<rparr>) else (0, metaUnref st mt)) } }"

definition geninfo_clone :: "menv \<Rightarrow> mstate \<Rightarrow> metaInfo \<Rightarrow> (nat \<times> mstate) option" where
  "geninfo_clone E st info = do {
     (r, t) \<leftarrow> geninfo_conv info TypeCharVector;
     if r < 0 then Some (0, st)
     else case t of Some (Slice x) \<Rightarrow> mpt_meta_new E st TypeCharVector (SrcVector (Some (gdata info)) (gused info))
       | _ \<Rightarrow> None }"

definition metaClone :: "menv \<Rightarrow> mstate \<Rightarrow> nat \<Rightarrow> (nat \<times> mstate) option" where
  "metaClone E st a = do { info \<leftarrow> minfos st a; geninfo_clone E st info }"

section \<open>Text is kept\<close>

text \<open>An allocator that delivers memory of the requested size at a new address, as long as only finitely many
  are in use.\<close>

definition menv_ok :: "menv \<Rightarrow> bool" where
  "menv_ok E \<longleftrightarrow> (\<forall>st n. finite (dom (minfos st)) \<longrightarrow> (\<exists>a raw. mnew E st n = Some (a, raw) \<and> a \<noteq> 0 \<and> minfos st a = None \<and> length raw = n))"

definition holds_text :: "metaInfo \<Rightarrow> block \<Rightarrow> bool" where
  "holds_text info t \<longleftrightarrow> gused info = length t + 1 \<and> (\<exists>r. gdata info = t @ 0 # r)"

lemma align8_bounds: "0 < x \<Longrightarrow> x \<le> align8 x"
  by (simp add: align8_def)

lemma geninfo_size_ok: "n \<le> 249 \<Longrightarrow> \<exists>k. geninfo_size (n + 1) = int k \<and> n + 6 \<le> k \<and> k \<le> 255"
proof -
  assume n: "n \<le> 249"
  show ?thesis
  proof (cases "align8 (n + 6) < 255")
    case True
    then show ?thesis using n align8_bounds [of "n + 6"]
      by (intro exI [of _ "align8 (n + 6)"]) (simp add: geninfo_size_def Let_def add.commute)
  next
    case False
    then show ?thesis using n by (intro exI [of _ "n + 6"]) (simp add: geninfo_size_def Let_def add.commute)
  qed
qed

lemma geninfo_size_fail: "249 < n \<Longrightarrow> n < 2 ^ 64 - 1 \<Longrightarrow> geninfo_size (n + 1) < 0"
  by (simp add: geninfo_size_def Let_def)

lemma meta_geninfo_ok:
  assumes "menv_ok E" "finite (dom (minfos st))" "n \<le> 249"
  shows "\<exists>a info. mpt_meta_geninfo E st n = (a, st\<lparr>minfos := (minfos st)(a \<mapsto> info)\<rparr>) \<and> a \<noteq> 0 \<and> minfos st a = None \<and>
    n + 2 \<le> gsize info \<and> gsize info = length (gdata info) \<and> gused info = 0"
proof -
  from geninfo_size_ok [OF assms(3)] obtain k where k: "geninfo_size (n + 1) = int k" "n + 6 \<le> k" "k \<le> 255" by blast
  from assms(1,2) obtain a raw where a: "mnew E st (8 + k) = Some (a, raw)" "a \<noteq> 0" "minfos st a = None" "length raw = 8 + k"
    unfolding menv_ok_def by metis
  show ?thesis using assms(3) k a
    by (intro exI [of _ a] exI [of _ "\<lparr>gsize = k - 4, gused = 0, gdata = drop 12 raw\<rparr>"])
      (simp add: mpt_meta_geninfo_def geninfo_init_def Let_def)
qed

lemma geninfo_set_ok:
  assumes "n < gsize info" "gsize info = length (gdata info)" "n \<le> length s"
  shows "\<exists>i. geninfo_set info (Some s) (int n) = Some (0, i) \<and> holds_text i (take n s)"
proof -
  have r: "rd s 0 n = Some (take n s)" using assms(3) by (simp add: rd_def)
  obtain d where d: "wr (gdata info) 0 (take n s) = Some d" "d = take n s @ drop n (gdata info)"
    using assms by (simp add: wr_def)
  have "drop n (gdata info) = gdata info ! n # drop (n + 1) (gdata info)" using assms by (simp add: Cons_nth_drop_Suc)
  then have "wr d n [0] = Some (take n s @ 0 # drop (n + 1) (gdata info))" using d(2) assms(3) by (simp add: wr_def)
  then show ?thesis using assms r d(1) by (simp add: geninfo_set_def holds_text_def)
qed

lemma meta_new_text:
  assumes "menv_ok E" "finite (dom (minfos st))" "l \<le> 249" "mpt_data_tostring E (mbufs st) True src type = Some (Some (s, l, True))" "l \<le> length s"
  shows "\<exists>mt info. mpt_meta_new E st type src = Some (mt, st\<lparr>minfos := (minfos st)(mt \<mapsto> info)\<rparr>) \<and> mt \<noteq> 0 \<and>
    minfos st mt = None \<and> holds_text info (take l s)"
proof -
  from meta_geninfo_ok [OF assms(1-3)] obtain a info where
    a: "mpt_meta_geninfo E st l = (a, st\<lparr>minfos := (minfos st)(a \<mapsto> info)\<rparr>)" "a \<noteq> 0" "minfos st a = None"
      "l + 2 \<le> gsize info" "gsize info = length (gdata info)" by blast
  from geninfo_set_ok [of l info s] a(4,5) assms(5) obtain i where
    i: "geninfo_set info (Some s) (int l) = Some (0, i)" "holds_text i (take l s)" by auto
  show ?thesis using assms(3,4) a(1-3) i by (intro exI [of _ a] exI [of _ i]) (simp add: mpt_meta_new_def)
qed

lemma conv_text:
  assumes "holds_text info t"
  shows "metaConv info TypeCharVector = Some (0x43, Some (Slice (t @ [0])))"
    and "\<exists>r. metaConv info TypeString = Some (0x73, Some (Text (Some (t @ 0 # r))))"
  using assms by (auto simp: holds_text_def metaConv_def geninfo_conv_def rd_def)

text \<open>Text of 255 bytes and more: the length passed as a position stores nothing, and the number of stored
  elements is taken for a failure.  The array is released again.\<close>

lemma meta_new_long:
  assumes "always_ok (mmal E)" "mem_ok (mbufs st)" "mchar E = Some tr" "tsize tr = 1" "tinit tr = None" "tfini tr = 0"
    and "l \<le> length s" "255 \<le> l" "l < 2 ^ 62" "mpt_data_tostring E (mbufs st) True src type = Some (Some (s, l, True))"
  shows "\<exists>m. mpt_meta_new E st type src = Some (0, st\<lparr>mbufs := m\<rparr>)"
proof -
  have l: "\<not> l \<le> 0" "rd s (l - 1) 1 = Some (take 1 (drop (l - 1) s))" using assms(7,8) by (simp_all add: rd_def)
  define v where "v = (if hd (take 1 (drop (l - 1) s)) \<noteq> 0 then wrap (l + 1) else l)"
  have v: "l \<le> v" "v < 2 ^ 63" using assms(9) by (auto simp: v_def)
  have al: "alloc_ok (mmal E) (mbufs st)" using assms(1,2) by (simp add: always_ok_def)
  from alloc_raw [OF al v(2), of 0] obtain a n where
    n: "mpt_buffer_alloc (mmal E) (mbufs st) v 0 = Some (a, putb (set_psz (mbufs st)) a n)" "a \<noteq> 0" "raw_ok n" "bref n = 1"
      "bused n = 0" "v \<le> bsize n" by blast
  let ?m = "putb (set_psz (mbufs st)) a (n\<lparr>btraits := Some tr\<rparr>)"
  have r: "mpt_array_reserve (mmal E) (mbufs st) 0 v (Some tr) = Some (a, a, ?m)"
    using n(1,2) assms(4) by (simp add: mpt_array_reserve_def reserve_new_def getb_putb)
  let ?d = "replicate l 0 @ drop l (bdata n)"
  have w: "memset_b (bdata n) 0 0 l = Some ?d" using v(1) n(6) by (simp add: memset_b_def wr_def bsize_def)
  have "mpt_buffer_set ?m a (Some tr) l (Some s) 0 = Some (0, putb ?m a (n\<lparr>btraits := Some tr, bdata := ?d, bused := l\<rparr>))"
    using n(2,5,6) v assms(4-9) w
    by (simp add: mpt_buffer_set_def set_typed_def getb_putb same_traits_def finalise_def raw_data_def bsize_def wr_def max_def)
  moreover have "\<exists>m. mpt_array_clone (putb ?m a (n\<lparr>btraits := Some tr, bdata := ?d, bused := l\<rparr>)) a None = Some (2, 0, m)"
    using n(2,4) assms(4,6)
    by (simp add: mpt_array_clone_def buffer_alloc_unref_def getb_putb mpt_refcount_lower_def finalise_def)
  ultimately have "\<exists>m. meta_store E st tr s l v = Some (0, st\<lparr>mbufs := m\<rparr>)"
    using r n(2) by (auto simp: meta_store_def)
  then have "\<exists>m. meta_new_buffer E st s l = Some (0, st\<lparr>mbufs := m\<rparr>)"
    using l assms(3) unfolding v_def meta_new_buffer_def by simp
  then show ?thesis using assms(8,10) by (simp add: mpt_meta_new_def)
qed

lemma meta_new_gap:
  assumes "249 < l" "l < 255" "mpt_data_tostring E (mbufs st) True src type = Some (Some (s, l, nn))"
  shows "mpt_meta_new E st type src = Some (0, st)"
  using assms geninfo_size_fail [of l] by (simp add: mpt_meta_new_def mpt_meta_geninfo_def)

section \<open>Properties\<close>

text \<open>Property C39: a new metatype for a vector of characters exists for up to 249 characters and keeps them: the
  conversion to a string delivers the terminated text, the conversion to a vector the text with the
  terminating byte.  Longer text is refused without a change of the stored metatypes.\<close>

theorem meta_text_kept:
  assumes "menv_ok E" and "always_ok (mmal E)" and "finite (dom (minfos st))" and "mem_ok (mbufs st)"
    and "mchar E = Some tr" and "tsize tr = 1" and "tinit tr = None" and "tfini tr = 0" and "length t < 2 ^ 62"
  shows "\<exists>mt st'. mpt_meta_new E st TypeCharVector (SrcVector (Some t) (length t)) = Some (mt, st') \<and>
    (if length t \<le> 249
     then mt \<noteq> 0 \<and> minfos st mt = None \<and> (\<exists>info r. minfos st' = (minfos st)(mt \<mapsto> info) \<and>
       metaConv info TypeCharVector = Some (0x43, Some (Slice (t @ [0]))) \<and>
       metaConv info TypeString = Some (0x73, Some (Text (Some (t @ 0 # r)))))
     else mt = 0 \<and> minfos st' = minfos st)"
proof -
  have d: "mpt_data_tostring E (mbufs st) True (SrcVector (Some t) (length t)) TypeCharVector = Some (Some (t, length t, True))"
    by (simp add: mpt_data_tostring_def)
  consider "length t \<le> 249" | "249 < length t" "length t < 255" | "255 \<le> length t" by linarith
  then show ?thesis
  proof cases
    case 1
    from meta_new_text [where src = "SrcVector (Some t) (length t)", OF assms(1,3) 1 d] obtain mt info where
      m: "mpt_meta_new E st TypeCharVector (SrcVector (Some t) (length t)) = Some (mt, st\<lparr>minfos := (minfos st)(mt \<mapsto> info)\<rparr>)"
        "mt \<noteq> 0" "minfos st mt = None" "holds_text info t" by auto
    from conv_text(2) [OF m(4)] obtain r where "metaConv info TypeString = Some (0x73, Some (Text (Some (t @ 0 # r))))" by blast
    with m conv_text(1) [OF m(4)] 1 show ?thesis by auto
  next
    case 2
    with meta_new_gap [OF 2 d] show ?thesis by auto
  next
    case 3
    from meta_new_long [OF assms(2,4-8) order_refl 3 assms(9) d] 3 show ?thesis by auto
  qed
qed

definition menv0 :: menv where
  "menv0 = \<lparr>mnew = (\<lambda>st n. Some (LEAST a. a \<noteq> 0 \<and> minfos st a = None, replicate n 0)), mmal = first_fit,
     mchar = Some \<lparr>tid = 1, tsize = 1, tinit = None, tfini = 0\<rparr>, mbuffer = (\<lambda>m a. (0, m))\<rparr>"

lemma menv0_ok: "menv_ok menv0"
proof -
  have "(LEAST a. a \<noteq> 0 \<and> minfos st a = None) \<noteq> 0 \<and> minfos st (LEAST a. a \<noteq> 0 \<and> minfos st a = None) = None"
    if "finite (dom (minfos st))" for st
  proof (rule LeastI_ex)
    have "finite (dom (minfos st) \<union> {0})" using that by simp
    then obtain x where "x \<notin> dom (minfos st) \<union> {0}" using ex_new_if_finite infinite_UNIV_nat by blast
    then show "\<exists>a. a \<noteq> 0 \<and> minfos st a = None" by auto
  qed
  then show ?thesis by (auto simp: menv_ok_def menv0_def)
qed

theorem meta_text_kept_witness:
  "\<exists>mt st'. mpt_meta_new menv0 \<lparr>minfos = Map.empty, mbufs = bmem_init\<rparr> TypeCharVector (SrcVector (Some (replicate 250 120)) 250) = Some (mt, st') \<and>
    mt = 0 \<and> minfos st' = Map.empty"
  using meta_text_kept [OF menv0_ok, of "\<lparr>minfos = Map.empty, mbufs = bmem_init\<rparr>" _ "replicate 250 120"] first_fit_ok bmem_init_ok
  by (simp add: menv0_def)

section \<open>Copies that deviate\<close>

text \<open>The vector of a copied text includes the terminating byte: each copy adds one, and the copy of 249
  characters fails.\<close>

lemma clone_adds_byte:
  assumes "menv_ok E" "finite (dom (minfos st))" "minfos st a = Some info" "holds_text info t" "length t < 249"
  shows "\<exists>mt st'. metaClone E st a = Some (mt, st') \<and> mt \<noteq> 0 \<and> (\<exists>info'. minfos st' mt = Some info' \<and> holds_text info' (t @ [0]))"
proof -
  obtain r where r: "gdata info = t @ 0 # r" "gused info = length t + 1" using assms(4) by (auto simp: holds_text_def)
  let ?s = "SrcVector (Some (t @ 0 # r)) (length t + 1)"
  have "mpt_data_tostring E (mbufs st) True ?s TypeCharVector = Some (Some (t @ 0 # r, length t + 1, True))"
    by (simp add: mpt_data_tostring_def)
  from meta_new_text [where src = ?s, OF assms(1,2) _ this] assms(5) obtain mt i where
    "mpt_meta_new E st TypeCharVector ?s = Some (mt, st\<lparr>minfos := (minfos st)(mt \<mapsto> i)\<rparr>)" "mt \<noteq> 0" "holds_text i (t @ [0])" by auto
  then show ?thesis using assms(3) r by (simp add: metaClone_def geninfo_clone_def geninfo_conv_def rd_def)
qed

lemma clone_limit:
  assumes "minfos st a = Some info" "holds_text info t" "length t = 249"
  shows "metaClone E st a = Some (0, st)"
proof -
  obtain r where r: "gdata info = t @ 0 # r" "gused info = 250" using assms(2,3) by (auto simp: holds_text_def)
  have "mpt_data_tostring E (mbufs st) True (SrcVector (Some (t @ 0 # r)) 250) TypeCharVector = Some (Some (t @ 0 # r, 250, True))"
    by (simp add: mpt_data_tostring_def)
  from meta_new_gap [OF _ _ this] show ?thesis using assms(1,3) r by (simp add: metaClone_def geninfo_clone_def geninfo_conv_def rd_def)
qed

text \<open>Setting no text with a negative length asks for the length of a null pointer.\<close>

lemma geninfo_set_null: "geninfo_set info None (- 1) = None"
  by (simp add: geninfo_set_def)

end
