(* ===== verification/ConfigTree.thy ===== *)
theory ConfigTree
  imports ParserProof NodeData Metatype
begin

text \<open>
  Trees of configuration nodes: \<open>mptcore/parse/\<close> (\<open>node_append.c\<close>, \<open>parse_node.c\<close>, \<open>node_parse.c\<close>),
  \<open>mptcore/config/\<close> (\<open>node_query.c\<close>, \<open>node_assign.c\<close>) and \<open>mptcore/meta/meta_set.c\<close>.

  The parser delivers elements to a handler that adds them to a tree of nodes, with the data of an
  option as a metatype; a path selects or creates an element of the tree.  The state has the nodes with
  their identifiers and the metatypes.  The local node of \<open>mpt_parse_node\<close> is an object at the address
  \<open>loc\<close> that exists during the call.
\<close>

unbundle bit_operations_syntax

section \<open>Adding an element\<close>

record cstate =
  nst :: nstate
  mst :: mstate

type_synonym srcval = "(nat \<times> source) option"

definition set_name :: "env \<Rightarrow> nstate \<Rightarrow> ptr \<Rightarrow> block option \<Rightarrow> int \<Rightarrow> (bool \<times> nstate) option" where
  "set_name e st p data len = do {
     n \<leftarrow> load (nodes st) p;
     (r, d, b) \<leftarrow> mpt_identifier_set (nident n) (blocks st) data len (eblk e (blocks st));
     Some (r \<noteq> idptr.Null, st\<lparr>nodes := (nodes st)(p \<mapsto> n\<lparr>nident := d\<rparr>), blocks := b\<rparr>) }"

text \<open>Name and its length of a new node: the last element of the path for sections and options.\<close>

definition append_name :: "bmem \<Rightarrow> apath \<Rightarrow> int \<Rightarrow> (block option \<times> nat) option option" where
  "append_name m p currop =
     (if nat currop AND 1 \<noteq> 0 then do {
        (r, q) \<leftarrow> mpt_path_last (path_view m p);
        if r < 0 then Some None
        else do { b \<leftarrow> pbase q; Some (Some (Some (drop (poff q) b), pfirst q)) } }
      else Some (Some (None, 0)))"

text \<open>The metatype for a value: absent without a value, none (0) on failure.\<close>

definition value_meta :: "menv \<Rightarrow> mstate \<Rightarrow> srcval \<Rightarrow> (nat option \<times> mstate) option" where
  "value_meta E ms val = (case val of None \<Rightarrow> Some (None, ms)
     | Some (ty, src) \<Rightarrow> do { (mt, ms) \<leftarrow> mpt_meta_new E ms ty src; Some (Some mt, ms) })"

definition link_node :: "heap \<Rightarrow> ptr \<Rightarrow> int \<Rightarrow> ptr \<Rightarrow> heap option" where
  "link_node h old prevop conf =
     (if prevop \<noteq> 0 \<and> nat prevop AND 2 = 0 then map_option snd (mpt_gnode_insert h old 0 conf)
      else map_option snd (mpt_gnode_add h old 0 conf))"

definition append_new ::
  "env \<Rightarrow> nstate \<Rightarrow> block option \<Rightarrow> nat \<Rightarrow> ptr \<Rightarrow> ptr \<Rightarrow> int \<Rightarrow> (ptr \<times> nstate) option" where
  "append_new e st data frst mt old prevop = do {
     (conf, st) \<leftarrow> mpt_node_new e st (frst + 1);
     if conf = 0 then Some (0, unref st mt)
     else do {
       h \<leftarrow> upd (nodes st) conf (\<lambda>n. n\<lparr>nmeta := mt\<rparr>);
       (ok, st) \<leftarrow> (if frst \<noteq> 0 then set_name e (st\<lparr>nodes := h\<rparr>) conf data (int frst) else Some (True, st\<lparr>nodes := h\<rparr>));
       if \<not> ok then do { (_, st) \<leftarrow> mpt_node_destroy st conf; Some (0, st) }
       else do { h \<leftarrow> link_node (nodes st) old prevop conf; Some (conf, st\<lparr>nodes := h\<rparr>) } } }"

definition mpt_node_append ::
  "env \<Rightarrow> menv \<Rightarrow> cstate \<Rightarrow> bmem \<Rightarrow> apath \<Rightarrow> ptr \<Rightarrow> srcval \<Rightarrow> int \<Rightarrow> int \<Rightarrow> (ptr \<times> cstate) option" where
  "mpt_node_append e E c m p old val prevop currop =
     (if nat currop AND 0xf = 0 then Some (old, c)
      else if currop = ParseSectEnd then
        (if old \<noteq> 0 \<and> nat prevop AND 2 \<noteq> 0 then do { n \<leftarrow> load (nodes (nst c)) old; Some (nparent n, c) }
         else Some (old, c))
      else do {
        nm \<leftarrow> append_name m p currop;
        case nm of None \<Rightarrow> Some (0, c)
        | Some (data, frst) \<Rightarrow> do {
            (mt, ms) \<leftarrow> value_meta E (mst c) val;
            let c = c\<lparr>mst := ms\<rparr>;
            if mt = Some 0 then Some (0, c)
            else do {
              (r, st) \<leftarrow> append_new e (nst c) data frst (case mt of None \<Rightarrow> 0 | Some x \<Rightarrow> x) old prevop;
              Some (r, c\<lparr>nst := st\<rparr>) } } })"

section \<open>Reading a tree\<close>

text \<open>The handler keeps the current node; undefined behaviour is kept as an absent state.\<close>

definition text_value :: "block option \<Rightarrow> srcval" where
  "text_value val = map_option (\<lambda>b. (TypeCharVector, SrcVector (Some b) (length b))) val"

definition saveAppend :: "env \<Rightarrow> menv \<Rightarrow> (ptr \<times> cstate) option handler" where
  "saveAppend e E m p val lst cur s =
     (case s of None \<Rightarrow> (BadOperation, None)
      | Some (pos, c) \<Rightarrow>
         (case mpt_node_append e E c m p pos (text_value val) lst cur of None \<Rightarrow> (BadOperation, None)
          | Some (nxt, c) \<Rightarrow> if nxt \<noteq> 0 then (0, Some (nxt, c)) else (BadOperation, Some (pos, c))))"

definition MPT_NODE_INIT :: node where
  "MPT_NODE_INIT = \<lparr>nmeta = 0, nnext = 0, nprev = 0, nparent = 0, nchildren = 0,
     nident = \<lparr>ilen = 0, icharset = 0, imax = 12, ival = replicate 12 0\<rparr>\<rparr>"

text \<open>New children replace missing ones; with existing children they take over those that are not present.\<close>

definition merge_nodes :: "nstate \<Rightarrow> ptr \<Rightarrow> ptr \<Rightarrow> nstate option" where
  "merge_nodes st loc rt = do {
     f \<leftarrow> load (nodes st) loc;
     r \<leftarrow> load (nodes st) rt;
     if nchildren r = 0 then do { h \<leftarrow> set_children (nodes st) rt (nchildren f); Some (st\<lparr>nodes := h\<rparr>) }
     else if nchildren f \<noteq> 0 then do {
       (_, _, h) \<leftarrow> move_loop (blocks st) (Some rt) (nchildren f) (nodes st) 0 (nchildren r) (nchildren f) 0;
       st \<leftarrow> mpt_node_clear (st\<lparr>nodes := h\<rparr>) rt;
       f \<leftarrow> load (nodes st) loc;
       h \<leftarrow> set_children (nodes st) rt (nchildren f);
       (_, h) \<leftarrow> reparent_loop h rt (nchildren f) 0;
       Some (st\<lparr>nodes := h\<rparr>) }
     else Some st }"

definition drop_local :: "nstate \<Rightarrow> ptr \<Rightarrow> nstate" where
  "drop_local st loc = st\<lparr>nodes := (nodes st)(loc := None)\<rparr>"

definition mpt_parse_node ::
  "malloc \<Rightarrow> env \<Rightarrow> menv \<Rightarrow> ptr \<Rightarrow> ptr \<Rightarrow> parser_context option \<Rightarrow> block option \<Rightarrow> bmem \<Rightarrow> cstate \<Rightarrow> (int \<times> cstate) option" where
  "mpt_parse_node mal e E loc rt ctx fmt m c =
     (case ctx of None \<Rightarrow> Some (BadArgument, c)
      | Some x \<Rightarrow>
        if rt = 0 then Some (BadArgument, c)
        else do {
          (err, pf) \<leftarrow> mpt_parse_format fmt;
          case mpt_parse_next_fcn err of None \<Rightarrow> Some (BadType, c)
          | Some nxt \<Rightarrow> do {
              (err, _, s) \<leftarrow> mpt_parse_config mal (nxt mal pf) (saveAppend e E) (x\<lparr>pprev := ParseSection\<rparr>) m
                (Some (loc, c\<lparr>nst := (nst c)\<lparr>nodes := (nodes (nst c))(loc \<mapsto> MPT_NODE_INIT)\<rparr>\<rparr>));
              (_, c) \<leftarrow> s;
              st \<leftarrow> (if err < 0 then mpt_node_clear (nst c) loc else merge_nodes (nst c) loc rt);
              Some (err, c\<lparr>nst := drop_local st loc\<rparr>) } })"

text \<open>Input from a file: the tree of the node is replaced unless there is an error.  The second local node
  is at \<open>loc\<close> as well, after the first is gone.\<close>

definition mpt_node_parse ::
  "malloc \<Rightarrow> env \<Rightarrow> menv \<Rightarrow> ptr \<Rightarrow> ptr \<Rightarrow> int list option \<Rightarrow> block option \<Rightarrow> block option \<Rightarrow> bmem \<Rightarrow> cstate \<Rightarrow> (int \<times> cstate) option" where
  "mpt_node_parse mal e E loc conf file fmt limits m c =
     (case file of None \<Rightarrow> Some (BadArgument, c)
      | Some chars \<Rightarrow> do {
          (r, s, t) \<leftarrow> mpt_parse_accept (0xff, 0xff) (case limits of None \<Rightarrow> Some [110, 115, 0] | Some l \<Rightarrow> Some l);
          if r < 0 then Some (BadArgument, c)
          else do {
            n \<leftarrow> load (nodes (nst c)) conf;
            h \<leftarrow> set_children (nodes (nst c)) conf 0;
            (res, c) \<leftarrow> mpt_parse_node mal e E loc conf
              (Some \<lparr>inp = chars, pline = 1, psect = s, popt = t, pvalid = 0, pprev = 0, pcurr = 0\<rparr>) fmt m
              (c\<lparr>nst := (nst c)\<lparr>nodes := h\<rparr>\<rparr>);
            if res \<ge> 0 then do {
              st \<leftarrow> mpt_node_clear ((nst c)\<lparr>nodes := (nodes (nst c))(loc \<mapsto> MPT_NODE_INIT\<lparr>nchildren := nchildren n\<rparr>)\<rparr>) loc;
              Some (res, c\<lparr>nst := drop_local st loc\<rparr>) }
            else do {
              h \<leftarrow> set_children (nodes (nst c)) conf (nchildren n);
              Some (res, c\<lparr>nst := (nst c)\<lparr>nodes := h\<rparr>\<rparr>) } } })"

section \<open>Query\<close>

text \<open>\<open>a\<close> is the address of the bytes of the path, \<open>pre\<close> the last node found, \<open>off\<close> and \<open>len\<close> the path
  behind it.\<close>

partial_function (option) query_loop ::
  "store \<Rightarrow> heap \<Rightarrow> nat \<Rightarrow> ptr \<Rightarrow> ptr \<Rightarrow> nat \<Rightarrow> nat \<Rightarrow> path \<Rightarrow> (ptr \<times> path) option" where
  "query_loop m h a conf pre off len p = do {
     (clen, q) \<leftarrow> mpt_path_next p;
     if clen < 0 then Some (pre, q)
     else do {
       b \<leftarrow> pbase q;
       c \<leftarrow> mpt_node_locate m h conf 1 (a + off) (drop off b) (nat clen) (- 1);
       if c = 0 then Some (pre, q\<lparr>poff := off, plen := len\<rparr>)
       else do {
         n \<leftarrow> load h c;
         if nchildren n = 0 then Some (c, q)
         else query_loop m h a (nchildren n) c (poff q) (plen q) q } } }"

definition mpt_node_query :: "store \<Rightarrow> heap \<Rightarrow> nat \<Rightarrow> ptr \<Rightarrow> path \<Rightarrow> (ptr \<times> path) option" where
  "mpt_node_query m h a conf p =
     (if conf = 0 \<or> plen p = 0 then Some (0, p) else query_loop m h a conf 0 (poff p) (plen p) p)"

section \<open>Assignment\<close>

text \<open>The value of the reference, with \<open>takes\<close> the result of an object or configuration that accepts the value
  and \<open>deflt\<close> the shared default metatype; \<open>keeps\<close> is the result of an iterator that is reset.\<close>

definition mpt_meta_set ::
  "menv \<Rightarrow> (ptr \<Rightarrow> srcval \<Rightarrow> int option) \<Rightarrow> (ptr \<Rightarrow> int option) \<Rightarrow> ptr \<Rightarrow> cstate \<Rightarrow> ptr \<Rightarrow> srcval \<Rightarrow> (int \<times> ptr \<times> cstate) option" where
  "mpt_meta_set E takes keeps deflt c old val =
     (case (if old \<noteq> 0 then takes old val else None) of Some r \<Rightarrow> Some (r, old, c)
      | None \<Rightarrow>
        (case (if val = None \<and> old \<noteq> 0 then keeps old else None) of Some r \<Rightarrow> Some (r, old, c)
         | None \<Rightarrow> do {
             (mt, ms) \<leftarrow> value_meta E (mst c) val;
             let c = c\<lparr>mst := ms\<rparr>;
             if mt = Some 0 then Some (BadOperation, old, c)
             else Some (0, case mt of None \<Rightarrow> deflt | Some x \<Rightarrow> x, c\<lparr>nst := unref (nst c) old\<rparr>) }))"

text \<open>The list \<open>*base\<close> is the \<open>children\<close> field of a node or a variable of the caller.\<close>

definition slot_value :: "heap \<Rightarrow> ptr option \<Rightarrow> ptr \<Rightarrow> ptr option" where
  "slot_value h slot var = (case slot of None \<Rightarrow> Some var | Some p \<Rightarrow> map_option nchildren (load h p))"

partial_function (option) assign_loop ::
  "env \<Rightarrow> nstate \<Rightarrow> ptr option \<Rightarrow> ptr \<Rightarrow> ptr \<Rightarrow> nat \<Rightarrow> path \<Rightarrow> ptr \<Rightarrow> (ptr \<times> ptr \<times> nstate) option" where
  "assign_loop e st slot var conf off p mt = do {
     (clen, q) \<leftarrow> mpt_path_next p;
     if clen < 0 then Some (0, var, unref st mt)
     else do {
       (nxt, st) \<leftarrow> mpt_node_new e st (nat clen);
       if nxt = 0 then Some (0, var, unref st mt)
       else do {
         b \<leftarrow> pbase q;
         (ok, st) \<leftarrow> set_name e st nxt (Some (drop off b)) clen;
         if \<not> ok then do { (_, st) \<leftarrow> mpt_node_destroy st nxt; Some (0, var, unref st mt) }
         else do {
           frst \<leftarrow> slot_value (nodes st) slot var;
           (var, h) \<leftarrow> (if frst = 0
              then do { h \<leftarrow> set_parent (nodes st) nxt conf; store_from h slot var nxt }
              else map_option (\<lambda>(_, h). (var, h)) (mpt_gnode_add (nodes st) frst 0 nxt));
           if plen q = 0 then do { h \<leftarrow> upd h nxt (\<lambda>n. n\<lparr>nmeta := mt\<rparr>); Some (nxt, var, st\<lparr>nodes := h\<rparr>) }
           else assign_loop e (st\<lparr>nodes := h\<rparr>) (Some nxt) var nxt (poff q) q mt } } } }"

text \<open>The result, the new value of \<open>*base\<close> where it is a variable, and the state.\<close>

definition mpt_node_assign ::
  "env \<Rightarrow> menv \<Rightarrow> (ptr \<Rightarrow> srcval \<Rightarrow> int option) \<Rightarrow> (ptr \<Rightarrow> int option) \<Rightarrow> ptr \<Rightarrow> cstate \<Rightarrow> nat \<Rightarrow> ptr option \<Rightarrow> ptr \<Rightarrow> path \<Rightarrow>
    srcval \<Rightarrow> (ptr \<times> ptr \<times> cstate) option" where
  "mpt_node_assign e E takes keeps deflt c a slot var dest val = do {
     base \<leftarrow> slot_value (nodes (nst c)) slot var;
     (conf, p) \<leftarrow> mpt_node_query (blocks (nst c)) (nodes (nst c)) a base dest;
     if conf \<noteq> 0 \<and> plen p = 0 then do {
       n \<leftarrow> load (nodes (nst c)) conf;
       (r, mt, c) \<leftarrow> mpt_meta_set E takes keeps deflt c (nmeta n) val;
       h \<leftarrow> upd (nodes (nst c)) conf (\<lambda>n. n\<lparr>nmeta := mt\<rparr>);
       Some (if r < 0 then 0 else conf, var, c\<lparr>nst := (nst c)\<lparr>nodes := h\<rparr>\<rparr>) }
     else do {
       (mt, ms) \<leftarrow> value_meta E (mst c) val;
       let c = c\<lparr>mst := ms\<rparr>;
       if mt = Some 0 then Some (0, var, c)
       else do {
         (r, var, st) \<leftarrow> assign_loop e (nst c) (if conf \<noteq> 0 then Some conf else slot) var conf (poff p) p
           (case mt of None \<Rightarrow> 0 | Some x \<Rightarrow> x);
         Some (r, var, c\<lparr>nst := st\<rparr>) } } }"

section \<open>New nodes\<close>

text \<open>Allocators that deliver new addresses while finitely many are in use, and space for \<open>k\<close> more nodes.\<close>

definition env_ok :: "env \<Rightarrow> bool" where
  "env_ok e \<longleftrightarrow> (\<forall>h. finite (dom h) \<longrightarrow> enew e h \<noteq> 0 \<and> h (enew e h) = None) \<and> (\<forall>n. length (eraw e n) = n) \<and>
     (\<forall>m. finite (dom m) \<and> card (dom m) < 2 ^ 32 \<longrightarrow> (\<exists>a. eblk e m = Some a \<and> m a = None \<and> 0 < a \<and> a < 2 ^ 64))"

definition space :: "cstate \<Rightarrow> nat \<Rightarrow> bool" where
  "space c k \<longleftrightarrow> finite (dom (nodes (nst c))) \<and> finite (dom (minfos (mst c))) \<and>
     finite (dom (blocks (nst c))) \<and> card (dom (blocks (nst c))) + k < 2 ^ 32"

text \<open>The node has the name and the value.\<close>

definition node_is :: "cstate \<Rightarrow> ptr \<Rightarrow> block \<Rightarrow> block option \<Rightarrow> bool" where
  "node_is c p x val \<longleftrightarrow> (case nodes (nst c) p of None \<Rightarrow> False
     | Some n \<Rightarrow> wf_ident (blocks (nst c)) (nident n) \<and> named (blocks (nst c)) x n \<and>
         (case val of None \<Rightarrow> nmeta n = 0
          | Some w \<Rightarrow> nmeta n \<noteq> 0 \<and> (case minfos (mst c) (nmeta n) of None \<Rightarrow> False | Some i \<Rightarrow> holds_text i w)))"

lemma new_ident:
  assumes "64 \<le> k" "length v = k - 44"
  shows "\<exists>d. mpt_identifier_init \<lparr>ilen = 0, icharset = 0, imax = 0, ival = v\<rparr> (k - 40) = Some d \<and> wf_ident m d \<and> Identifier.owned d = {}"
proof -
  have "\<not> k - 40 < 4" "12 \<le> k - 44" using assms(1) by linarith+
  then show ?thesis using assms(2)
    by (simp add: mpt_identifier_init_def Let_def memset_b_def wr_def wf_ident_def Identifier.owned_def)
qed

lemma node_new_ok:
  assumes "env_ok e" "finite (dom (nodes st))"
  shows "\<exists>p d. mpt_node_new e st len = Some (p, st\<lparr>nodes := (nodes st)(p \<mapsto> \<lparr>nmeta = 0, nnext = 0, nprev = 0, nparent = 0,
      nchildren = 0, nident = d\<rparr>)\<rparr>) \<and> p \<noteq> 0 \<and> nodes st p = None \<and> wf_ident m d \<and> Identifier.owned d = {}"
proof -
  let ?n = "if len + 40 > 64 \<and> len + 40 \<le> 0x100 then double_size 64 (len + 40) else 64"
  have "64 \<le> k \<Longrightarrow> k \<le> double_size k l" for k l
    by (induction k l rule: double_size.induct) (subst double_size.simps, auto)
  then have n: "64 \<le> ?n" by simp
  from new_ident [OF n, of "eraw e (?n - 44)" m] assms(1) obtain d where
    d: "mpt_identifier_init \<lparr>ilen = 0, icharset = 0, imax = 0, ival = eraw e (?n - 44)\<rparr> (?n - 40) = Some d"
      "wf_ident m d" "Identifier.owned d = {}" unfolding env_ok_def by blast
  moreover have "enew e (nodes st) \<noteq> 0" "nodes st (enew e (nodes st)) = None" using assms by (simp_all add: env_ok_def)
  ultimately show ?thesis using d by (intro exI [of _ "enew e (nodes st)"] exI [of _ d]) (simp add: mpt_node_new_def Let_def)
qed

lemma identifier_set_take:
  assumes "take l d = x" "length x = l"
  shows "mpt_identifier_set idt m (Some d) (int l) a = mpt_identifier_set idt m (Some x) (int l) a"
proof -
  have "rd d 0 l = Some x" "rd x 0 l = Some x" using assms by (auto simp: rd_def)
  then show ?thesis by (simp add: mpt_identifier_set_def set_alloc_def set_inline_def split: option.split)
qed

lemma set_name_take:
  assumes "take l d = x" "length x = l"
  shows "set_name e st p (Some d) (int l) = set_name e st p (Some x) (int l)"
  by (simp add: set_name_def identifier_set_take [OF assms])

text \<open>The name of a new node is set inline or in a new block.\<close>

lemma set_name_ok:
  assumes "env_ok e" "nodes st p = Some n" "p \<noteq> 0" "wf_ident (blocks st) (nident n)" "Identifier.owned (nident n) = {}"
    and "finite (dom (blocks st))" "card (dom (blocks st)) < 2 ^ 32" "length x < 65535"
  shows "\<exists>d b. set_name e st p (Some x) (int (length x)) = Some (True, st\<lparr>nodes := (nodes st)(p \<mapsto> n\<lparr>nident := d\<rparr>), blocks := b\<rparr>) \<and>
    wf_ident b d \<and> named b x (n\<lparr>nident := d\<rparr>) \<and> blocks st \<subseteq>\<^sub>m b \<and> finite (dom b) \<and> card (dom b) \<le> card (dom (blocks st)) + 1"
proof -
  obtain a where a: "eblk e (blocks st) = Some a" "blocks st a = None" "0 < a" "a < 2 ^ 64"
    using assms(1,6,7) unfolding env_ok_def by blast
  from ident_set_ok [OF assms(4) order_refl assms(8) a(2-4), of 0 "[]"] obtain r d b where
    r: "mpt_identifier_set (nident n) (blocks st) (Some x) (int (length x)) (Some a) = Some (r, d, b)"
      "r = mpt_identifier_data d" "wf_ident b d" "ident_bytes b d = Some (x @ [0])" "icharset d = CharsetUTF8"
      "b = (if length x + 1 \<le> imax (nident n) then blocks st |` (- Identifier.owned (nident n))
         else (blocks st |` (- Identifier.owned (nident n)))(a \<mapsto> take (length x) x @ [0]))" by auto
  have b: "b = blocks st \<or> b = (blocks st)(a \<mapsto> x @ [0])" using r(6) assms(5) by (simp add: restrict_map_def split: if_splits)
  have "r \<noteq> idptr.Null" using r(2) by (simp add: mpt_identifier_data_def)
  then have "set_name e st p (Some x) (int (length x)) = Some (True, st\<lparr>nodes := (nodes st)(p \<mapsto> n\<lparr>nident := d\<rparr>), blocks := b\<rparr>)"
    using assms(2,3) r(1) a(1) by (simp add: set_name_def load_def)
  moreover have "blocks st \<subseteq>\<^sub>m b" "finite (dom b)" "card (dom b) \<le> card (dom (blocks st)) + 1"
    using b a(2) assms(6) by (auto simp: map_le_def card_insert_if)
  ultimately show ?thesis using r(3-5) by (auto simp: named_def)
qed

lemma last_loop_ok:
  "sep \<notin> set x \<Longrightarrow> u = [] \<or> last u = sep \<Longrightarrow> last_loop (u @ x @ r) sep (length u + length x) k = Some (length u, length x + k)"
proof (induction x arbitrary: r k rule: rev_induct)
  case Nil
  then show ?case by (cases u rule: rev_cases) (auto simp: nth_append)
next
  case (snoc c x)
  then have "last_loop (u @ x @ [c] @ r) sep (length u + length x) (Suc k) = Some (length u, length x + Suc k)" by simp
  moreover have "c \<noteq> sep" using snoc.prems(1) by auto
  ultimately show ?case by (simp add: nth_append)
qed

text \<open>The size of the last element is kept in eight bits.\<close>

lemma append_name_mod:
  assumes "pst 46 0 m p (es @ [x]) post keep" "nat currop AND 1 \<noteq> 0"
  shows "\<exists>d. append_name m p currop = Some (Some (Some d, length x mod 256)) \<and> take (length x) d = x"
  using assms(1)
proof (cases rule: pstE)
  case null
  then show ?thesis by simp
next
  case (buf a t)
  let ?u = "join 46 46 es"
  have j: "join 46 t (es @ [x]) = ?u @ x @ [t]" by (rule join_snoc)
  from buf(2) obtain b where b: "getb m a = Some b" "join 46 t (es @ [x]) @ post = take (length (join 46 t (es @ [x]) @ post)) (bdata b)"
    by (rule ownedE) blast
  then obtain r where r: "bdata b = ?u @ x @ r" unfolding j by (metis append.assoc append_take_drop_id)
  have "46 \<notin> set x" "asep p = 46" "aoff p = 0" "aflags p = flag_value True keep" using assms(1) buf by (auto simp: pst_def)
  moreover have "?u = [] \<or> last ?u = 46" by (cases es rule: rev_cases) (auto simp: join_snoc)
  moreover have "alen p = length ?u + length x + 1" using buf(4) unfolding j by simp
  ultimately have "mpt_path_last (path_view m p) = Some (int (length x), (path_view m p)\<lparr>poff := length ?u, pfirst := length x mod 256, plen := length x mod 256 + 1\<rparr>)"
    using buf(1) b(1) last_loop_ok [of 46 x ?u r 0] r by (simp add: mpt_path_last_def path_view_def base_bytes_def)
  moreover have "pbase (path_view m p) = Some (bdata b)" using buf(1) b(1) by (simp add: path_view_def base_bytes_def)
  ultimately show ?thesis using assms(2) r by (simp add: append_name_def)
qed

lemma append_name_ok:
  assumes "pst 46 0 m p (es @ [x]) post keep" "length x \<le> 255" "nat currop AND 1 \<noteq> 0"
  shows "\<exists>d. append_name m p currop = Some (Some (Some d, length x)) \<and> take (length x) d = x"
  using append_name_mod [OF assms(1,3)] assms(2) by simp

section \<open>Links of a new node\<close>

text \<open>The position of the handler below the parent \<open>par\<close> with the children \<open>us\<close>: the parent itself behind the
  start of a section, the last child otherwise.\<close>

definition at_pos :: "heap \<Rightarrow> ptr \<Rightarrow> ntree list \<Rightarrow> ptr \<Rightarrow> int \<Rightarrow> bool" where
  "at_pos h par us pos pr \<longleftrightarrow> par \<noteq> 0 \<and> sibs h par us \<and>
     (if us = [] then pos = par \<and> pr \<in> {1, 9} else pos = root (last us) \<and> pr \<in> {2, 0xb})"

definition chg :: "bool \<Rightarrow> node \<Rightarrow> node \<Rightarrow> bool" where
  "chg b n n' \<longleftrightarrow> (\<exists>y. n' = (if b then n\<lparr>nchildren := y\<rparr> else n\<lparr>nnext := y\<rparr>))"

lemma chg_data: "chg b n n' \<Longrightarrow> nident n' = nident n \<and> nmeta n' = nmeta n"
  by (auto simp: chg_def)

lemma chg_refl: "chg b n n"
  unfolding chg_def by (rule exI [of _ "if b then nchildren n else nnext n"]) simp

lemma chg_trans: "chg b n n' \<Longrightarrow> chg b n' n'' \<Longrightarrow> chg b n n''"
  by (auto simp: chg_def split: if_splits)

definition keeps :: "bool \<Rightarrow> ptr \<Rightarrow> heap \<Rightarrow> heap \<Rightarrow> bool" where
  "keeps b k h h' \<longleftrightarrow> (\<forall>a n. h a = Some n \<longrightarrow> (\<exists>n'. h' a = Some n' \<and> (if a = k then chg b n n' else n' = n)))"

definition grows :: "bool \<Rightarrow> ptr \<Rightarrow> cstate \<Rightarrow> cstate \<Rightarrow> bool" where
  "grows b k c c' \<longleftrightarrow> keeps b k (nodes (nst c)) (nodes (nst c')) \<and> blocks (nst c) \<subseteq>\<^sub>m blocks (nst c') \<and>
     minfos (mst c) \<subseteq>\<^sub>m minfos (mst c') \<and> mbufs (mst c') = mbufs (mst c) \<and> unrefs (nst c') = unrefs (nst c)"

lemma grows_refl: "grows b k c c"
  by (auto simp: grows_def keeps_def chg_refl)

text \<open>A later step that changes a new node or the same one.\<close>

lemma keeps_trans:
  assumes "keeps b k h h'" "keeps b' k' h' h''" "h k' = None \<or> k' = k \<and> b' = b"
  shows "keeps b k h h''"
  unfolding keeps_def
proof (intro allI impI)
  fix a n assume n: "h a = Some n"
  from assms(1) n obtain n1 where n1: "h' a = Some n1" "if a = k then chg b n n1 else n1 = n" unfolding keeps_def by blast
  from assms(2) n1(1) obtain n2 where n2: "h'' a = Some n2" "if a = k' then chg b' n1 n2 else n2 = n1" unfolding keeps_def by blast
  show "\<exists>n'. h'' a = Some n' \<and> (if a = k then chg b n n' else n' = n)"
    using n n1 n2 assms(3) chg_trans by (cases "a = k'") (auto split: if_splits)
qed

lemma grows_trans:
  "grows b k c c' \<Longrightarrow> grows b' k' c' c'' \<Longrightarrow> nodes (nst c) k' = None \<or> k' = k \<and> b' = b \<Longrightarrow> grows b k c c''"
  unfolding grows_def using keeps_trans map_le_trans by metis

lemma link_ok:
  assumes "at_pos h par us pos pr" "h q = Some m" "nnext m = 0" "nprev m = 0" "nparent m = 0" "nchildren m = 0" "q \<noteq> 0"
    and "q \<noteq> par" "q \<notin> set (addrs us)"
  shows "\<exists>h'. link_node h pos pr q = Some h' \<and> sibs h' par (us @ [NT q []]) \<and> keeps (us = []) pos (h(q := None)) h' \<and>
    (\<exists>m'. h' q = Some m' \<and> nident m' = nident m \<and> nmeta m' = nmeta m) \<and> dom h' = dom h"
proof -
  have s: "par \<noteq> 0" "sibs h par us" using assms(1) by (simp_all add: at_pos_def)
  have t: "sibs h 0 [NT q []]" using assms by (simp add: sibs_def)
  show ?thesis
  proof (cases "us = []")
    case True
    from s True obtain n where n: "h par = Some n" "nchildren n = 0" by (auto simp: sibs_def split: option.splits)
    have p: "pos = par" "pr \<in> {1, 9}" using assms(1) True by (simp_all add: at_pos_def)
    let ?h = "h(par \<mapsto> n\<lparr>nchildren := q\<rparr>, q \<mapsto> m\<lparr>nparent := par\<rparr>)"
    have "link_node h pos pr q = Some ?h"
      using n p s(1) assms(2,7,8) by (auto simp: link_node_def mpt_gnode_insert_def gnode_insert_with_def node_access)
    moreover have "sibs ?h par [NT q []]" using assms s(1) by (simp add: sibs_def)
    moreover have "keeps True pos (h(q := None)) ?h" using n p by (auto simp: keeps_def chg_def)
    ultimately show ?thesis using True n assms(2) by auto
  next
    case False
    then obtain xs p cs where us: "us = xs @ [NT p cs]" using tree_list_end [of us] by auto
    have pos: "pos = p" "pr \<in> {2, 0xb}" using assms(1) us by (simp_all add: at_pos_def)
    have s2: "sibs h par (xs @ NT p cs # [])" using s(2) us by simp
    note P = sibs_parts [OF s2]
    from P(5) obtain n where n: "h p = Some n" "nparent n = par" "nnext n = 0" by auto
    have pq: "p \<noteq> q" using assms(9) us by auto
    let ?h = "h(q \<mapsto> m\<lparr>nprev := p, nnext := 0, nparent := par\<rparr>, p \<mapsto> n\<lparr>nnext := q\<rparr>)"
    have "last_node h p = Some p" using n P(2) by (subst last_node.simps) (simp add: load_def)
    moreover have a: "mpt_gnode_after h p q = Some (q, ?h)"
      using n P(2) pq assms(2,7) by (simp add: mpt_gnode_after_def node_access fun_upd_twist)
    ultimately have "mpt_gnode_add h p 0 q = Some (q, ?h)"
      using P(2) assms(7) by (simp add: mpt_gnode_add_def node_insert_def mpt_gnode_pos_def)
    then have "link_node h pos pr q = Some ?h" using pos by (auto simp: link_node_def)
    moreover have "sibs ?h par (us @ [NT q []])"
    proof -
      have "set (par # addrs (xs @ NT p cs # [])) \<inter> set (addrs [NT q []]) = {}" using assms(8,9) us by auto
      from after_ok [OF s2 t this] a us show ?thesis by auto
    qed
    moreover have "keeps False pos (h(q := None)) ?h" using n pos pq by (auto simp: keeps_def chg_def)
    ultimately show ?thesis using False n assms(2) pq by auto
  qed
qed

section \<open>One more element\<close>

text \<open>Names and values that are stored whole.\<close>

definition short :: "block \<Rightarrow> block option \<Rightarrow> bool" where
  "short x val \<longleftrightarrow> x \<noteq> [] \<and> length x \<le> 255 \<and> (case val of None \<Rightarrow> True | Some w \<Rightarrow> length w \<le> 249)"

lemma value_meta_ok:
  assumes "menv_ok E" "finite (dom (minfos ms))" "case val of None \<Rightarrow> True | Some w \<Rightarrow> length w \<le> 249"
  shows "\<exists>mt ms'. value_meta E ms (text_value val) = Some (mt, ms') \<and> mt \<noteq> Some 0 \<and> minfos ms \<subseteq>\<^sub>m minfos ms' \<and>
    mbufs ms' = mbufs ms \<and> finite (dom (minfos ms')) \<and>
    (case val of None \<Rightarrow> mt = None | Some w \<Rightarrow> (\<exists>a i. mt = Some a \<and> minfos ms' a = Some i \<and> holds_text i w))"
proof (cases val)
  case None
  then show ?thesis using assms(2) by (simp add: value_meta_def text_value_def)
next
  case (Some w)
  have "mpt_data_tostring E (mbufs ms) True (SrcVector (Some w) (length w)) TypeCharVector = Some (Some (w, length w, True))"
    by (simp add: mpt_data_tostring_def)
  from meta_new_text [where src = "SrcVector (Some w) (length w)", OF assms(1,2) _ this] assms(3) Some obtain mt i where
    m: "mpt_meta_new E ms TypeCharVector (SrcVector (Some w) (length w)) = Some (mt, ms\<lparr>minfos := (minfos ms)(mt \<mapsto> i)\<rparr>)"
      "mt \<noteq> 0" "minfos ms mt = None" "holds_text i w" by auto
  then show ?thesis using Some assms(2) by (auto simp: value_meta_def text_value_def map_le_def)
qed

lemma append_new_ok:
  assumes "env_ok e" "finite (dom (nodes st))" "finite (dom (blocks st))" "card (dom (blocks st)) < 2 ^ 32"
    and "at_pos (nodes st) par us pos pr" "x \<noteq> []" "length x \<le> 255"
  shows "\<exists>q h n b. (\<forall>d. take (length x) d = x \<longrightarrow> append_new e st (Some d) (length x) mt pos pr = Some (q, st\<lparr>nodes := h, blocks := b\<rparr>)) \<and>
    q \<noteq> 0 \<and> nodes st q = None \<and> sibs h par (us @ [NT q []]) \<and> keeps (us = []) pos (nodes st) h \<and> dom h = insert q (dom (nodes st)) \<and>
    h q = Some n \<and> nmeta n = mt \<and> wf_ident b (nident n) \<and> named b x n \<and> blocks st \<subseteq>\<^sub>m b \<and> finite (dom b) \<and>
    card (dom b) \<le> card (dom (blocks st)) + 1"
proof -
  from node_new_ok [OF assms(1,2), of "length x + 1" "blocks st"] obtain q d0 where
    q: "mpt_node_new e st (length x + 1) = Some (q, st\<lparr>nodes := (nodes st)(q \<mapsto> \<lparr>nmeta = 0, nnext = 0, nprev = 0, nparent = 0,
      nchildren = 0, nident = d0\<rparr>)\<rparr>)" "q \<noteq> 0" "nodes st q = None" "wf_ident (blocks st) d0" "Identifier.owned d0 = {}" by blast
  define n0 where "n0 = \<lparr>nmeta = mt, nnext = 0, nprev = 0, nparent = 0, nchildren = 0, nident = d0\<rparr>"
  let ?s1 = "st\<lparr>nodes := (nodes st)(q \<mapsto> n0)\<rparr>"
  have u: "upd ((nodes st)(q \<mapsto> \<lparr>nmeta = 0, nnext = 0, nprev = 0, nparent = 0, nchildren = 0, nident = d0\<rparr>)) q (\<lambda>n. n\<lparr>nmeta := mt\<rparr>) =
      Some ((nodes st)(q \<mapsto> n0))" using q(2) by (simp add: node_access n0_def)
  have n1: "nodes ?s1 q = Some n0" "wf_ident (blocks ?s1) (nident n0)" "Identifier.owned (nident n0) = {}" "finite (dom (blocks ?s1))"
    "card (dom (blocks ?s1)) < 2 ^ 32" "length x < 65535" using q assms by (simp_all add: n0_def)
  from set_name_ok [OF assms(1) n1(1) q(2) n1(2-6)] obtain d b where
    b: "set_name e ?s1 q (Some x) (int (length x)) = Some (True, ?s1\<lparr>nodes := (nodes ?s1)(q \<mapsto> n0\<lparr>nident := d\<rparr>), blocks := b\<rparr>)"
      "wf_ident b d" "named b x (n0\<lparr>nident := d\<rparr>)" "blocks st \<subseteq>\<^sub>m b" "finite (dom b)" "card (dom b) \<le> card (dom (blocks st)) + 1" by auto
  let ?h = "(nodes st)(q \<mapsto> n0\<lparr>nident := d\<rparr>)"
  have pa: "par \<noteq> 0" "sibs (nodes st) par us" using assms(5) by (simp_all add: at_pos_def)
  then have "nodes st par \<noteq> None" by (auto simp: sibs_def split: option.splits)
  then have qp: "q \<noteq> par" using q(3) by metis
  have qu: "q \<notin> set (addrs us)" using pa(2) repr_nonnull q(3) unfolding sibs_def by metis
  have "sibs ?h par us" using pa qp qu by (simp add: sibs_def)
  then have "at_pos ?h par us pos pr" using assms(5) unfolding at_pos_def by argo
  from link_ok [OF this, of q "n0\<lparr>nident := d\<rparr>"] q(2) qp qu obtain h' m' where
    h: "link_node ?h pos pr q = Some h'" "sibs h' par (us @ [NT q []])" "keeps (us = []) pos (?h(q := None)) h'"
      "h' q = Some m'" "nident m' = d" "nmeta m' = mt" "dom h' = dom ?h" by (auto simp: n0_def)
  have k: "?h(q := None) = nodes st" using q(3) by auto
  have "append_new e st (Some dd) (length x) mt pos pr = Some (q, st\<lparr>nodes := h', blocks := b\<rparr>)" if t: "take (length x) dd = x" for dd
    using q(1,2) u set_name_take [OF t refl] b(1) h(1) assms(6) by (simp add: append_new_def)
  moreover have "named b x m'" using b(3) h(5) by (simp add: named_def)
  ultimately show ?thesis using q(2,3) h(2-) k b(2,4-) by (intro exI [of _ q] exI [of _ h'] exI [of _ m'] exI [of _ b]) simp
qed

lemma node_is_mono:
  assumes "node_is c p x val" "nodes (nst c) p = Some n" "nodes (nst c') p = Some n'" "nident n' = nident n" "nmeta n' = nmeta n"
    and g: "blocks (nst c) \<subseteq>\<^sub>m blocks (nst c')" "minfos (mst c) \<subseteq>\<^sub>m minfos (mst c')"
  shows "node_is c' p x val"
proof -
  from assms(1,2) have n: "wf_ident (blocks (nst c)) (nident n)" "named (blocks (nst c)) x n"
    "case val of None \<Rightarrow> nmeta n = 0 | Some w \<Rightarrow> nmeta n \<noteq> 0 \<and> (\<exists>i. minfos (mst c) (nmeta n) = Some i \<and> holds_text i w)"
    by (auto simp: node_is_def split: option.splits)
  have bl: "a \<in> dom (blocks (nst c)) \<Longrightarrow> blocks (nst c') a = blocks (nst c) a" for a using g(1) unfolding map_le_def by metis
  from n(1) have w: "wf_ident (blocks (nst c')) (nident n)" using bl by (auto simp: wf_ident_def domIff split: option.splits)
  from ident_block_wf [OF n(1)] obtain y where y: "ident_block (blocks (nst c)) (nident n) = Some y" by blast
  then have "ident_block (blocks (nst c')) (nident n) = Some y" using bl
    by (auto simp: ident_block_def domIff split: idptr.splits bind_splits)
  with n(2) y have "named (blocks (nst c')) x n'"
    using assms(4) by (simp add: named_def ident_bytes_def)
  moreover have "minfos (mst c') a = Some i" if "minfos (mst c) a = Some i" for a i
    using g(2) that unfolding map_le_def by (metis domI)
  ultimately show ?thesis using n(3) assms(3-5) w by (auto simp: node_is_def split: option.splits)
qed

lemma node_is_grows:
  assumes "node_is c p x val" "grows b k c c'"
  shows "node_is c' p x val"
proof -
  from assms(1) obtain n where n: "nodes (nst c) p = Some n" by (auto simp: node_is_def split: option.splits)
  from assms(2) have g: "blocks (nst c) \<subseteq>\<^sub>m blocks (nst c')" "minfos (mst c) \<subseteq>\<^sub>m minfos (mst c')" by (simp_all add: grows_def)
  have "\<exists>n'. nodes (nst c') p = Some n' \<and> (if p = k then chg b n n' else n' = n)"
    using assms(2) n unfolding grows_def keeps_def by blast
  then obtain n' where n': "nodes (nst c') p = Some n'" "nident n' = nident n" "nmeta n' = nmeta n" using chg_data by (auto split: if_splits)
  from node_is_mono [OF assms(1) n n' g] show ?thesis .
qed

text \<open>Events of named elements.\<close>

lemma append_ok:
  assumes "env_ok e" "menv_ok E" "space c (Suc k)" "at_pos (nodes (nst c)) par us pos pr" "short x val" "cur \<in> {1, 3, 7}"
  shows "\<exists>q c'. handles (saveAppend e E) [(es @ [x], val, pr, cur)] (Some (pos, c)) (Some (q, c')) \<and> q \<noteq> 0 \<and>
    nodes (nst c) q = None \<and> sibs (nodes (nst c')) par (us @ [NT q []]) \<and> grows (us = []) pos c c' \<and>
    node_is c' q x val \<and> space c' k"
proof -
  have sp: "finite (dom (nodes (nst c)))" "finite (dom (minfos (mst c)))" "finite (dom (blocks (nst c)))"
    "card (dom (blocks (nst c))) < 2 ^ 32" "card (dom (blocks (nst c))) + Suc k < 2 ^ 32" using assms(3) by (auto simp: space_def)
  have sh: "x \<noteq> []" "length x \<le> 255" "case val of None \<Rightarrow> True | Some w \<Rightarrow> length w \<le> 249" using assms(5) by (simp_all add: short_def)
  from value_meta_ok [OF assms(2) sp(2) sh(3)] obtain mt ms where
    mt: "value_meta E (mst c) (text_value val) = Some (mt, ms)" "mt \<noteq> Some 0" "minfos (mst c) \<subseteq>\<^sub>m minfos ms" "mbufs ms = mbufs (mst c)"
      "finite (dom (minfos ms))" "case val of None \<Rightarrow> mt = None | Some w \<Rightarrow> (\<exists>a i. mt = Some a \<and> minfos ms a = Some i \<and> holds_text i w)" by blast
  let ?a = "case mt of None \<Rightarrow> 0 | Some x \<Rightarrow> x"
  from append_new_ok [OF assms(1) sp(1,3,4) assms(4) sh(1,2), of ?a] obtain q h n b where
    q: "\<And>d. take (length x) d = x \<Longrightarrow> append_new e (nst c) (Some d) (length x) ?a pos pr = Some (q, (nst c)\<lparr>nodes := h, blocks := b\<rparr>)"
      "q \<noteq> 0" "nodes (nst c) q = None" "sibs h par (us @ [NT q []])" "keeps (us = []) pos (nodes (nst c)) h"
      "dom h = insert q (dom (nodes (nst c)))" "h q = Some n" "nmeta n = ?a" "wf_ident b (nident n)" "named b x n"
      "blocks (nst c) \<subseteq>\<^sub>m b" "finite (dom b)" "card (dom b) \<le> card (dom (blocks (nst c))) + 1" by blast
  define c' where "c' = c\<lparr>mst := ms, nst := (nst c)\<lparr>nodes := h, blocks := b\<rparr>\<rparr>"
  have bits: "nat cur AND 0xf \<noteq> 0" "cur \<noteq> 2" "nat cur AND 1 \<noteq> 0" using assms(6) by auto
  have "mpt_node_append e E c m p pos (text_value val) pr cur = Some (q, c')" if "pst 46 0 m p (es @ [x]) post keep" for m p post keep
  proof -
    from append_name_ok [OF that sh(2) bits(3)] obtain d where d: "append_name m p cur = Some (Some (Some d, length x))" "take (length x) d = x" by blast
    show ?thesis using bits(1,2) d(1) mt(1,2) q(1) [OF d(2)] by (simp add: mpt_node_append_def c'_def)
  qed
  then have "saveAppend e E m p val pr cur (Some (pos, c)) = (0, Some (q, c'))" if "pst 46 0 m p (es @ [x]) post keep" for m p post keep
    using that q(2) by (simp add: saveAppend_def)
  then have "handles (saveAppend e E) [(es @ [x], val, pr, cur)] (Some (pos, c)) (Some (q, c'))" by auto
  moreover have "node_is c' q x val" using q(7-10) mt(2,6) by (auto simp: node_is_def c'_def split: option.splits)
  moreover have "space c' k" using q(6,12,13) sp mt(5) by (simp add: space_def c'_def)
  moreover have "grows (us = []) pos c c'" using q(5,11) mt(3,4) by (simp add: grows_def c'_def)
  ultimately show ?thesis using q(2-4) by (intro exI [of _ q] exI [of _ c']) (simp add: c'_def)
qed

section \<open>Trees\<close>

fun tree_rep :: "cstate \<Rightarrow> ntree list \<Rightarrow> ctree list \<Rightarrow> bool" where
  "tree_rep c [] [] = True"
| "tree_rep c (NT p us # vs) (Sect n cs # ts) \<longleftrightarrow> node_is c p n None \<and> tree_rep c us cs \<and> tree_rep c vs ts"
| "tree_rep c (NT p us # vs) (Opt n w # ts) \<longleftrightarrow>
     node_is c p n (if w = [] then None else Some w) \<and> us = [] \<and> tree_rep c vs ts"
| "tree_rep c _ _ = False"

lemma tree_rep_grows: "tree_rep c us ts \<Longrightarrow> grows b k c c' \<Longrightarrow> tree_rep c' us ts"
  by (induction c us ts rule: tree_rep.induct) (auto intro: node_is_grows)

lemma tree_rep_append: "tree_rep c us ts \<Longrightarrow> tree_rep c vs rs \<Longrightarrow> tree_rep c (us @ vs) (ts @ rs)"
  by (induction c us ts rule: tree_rep.induct) auto

lemma tree_rep_Nil: "tree_rep c us [] \<longleftrightarrow> us = []"
  by (cases us) (auto elim: ntree.exhaust)

fun tree_size :: "ctree \<Rightarrow> nat" and forest_size :: "ctree list \<Rightarrow> nat" where
  "tree_size (Sect n ts) = Suc (forest_size ts)"
| "tree_size (Opt n w) = 1"
| "forest_size [] = 0"
| "forest_size (t # ts) = tree_size t + forest_size ts"

fun short_tree :: "ctree \<Rightarrow> bool" where
  "short_tree (Sect n ts) \<longleftrightarrow> n \<noteq> [] \<and> length n \<le> 255 \<and> (\<forall>t \<in> set ts. short_tree t)"
| "short_tree (Opt n w) \<longleftrightarrow> n \<noteq> [] \<and> length n \<le> 255 \<and> length w \<le> 249"

lemma repr_dom: "repr h par pv ts nx \<Longrightarrow> set (addrs ts) \<subseteq> dom h"
  using repr_nonnull by (meson domIff subsetI)

text \<open>A list of children that is built below a node of a list.\<close>

lemma nest:
  assumes "sibs h1 par (us @ [NT q []])" "sibs h2 q vs" "keeps True q h1 h2" "set (addrs vs) \<inter> dom h1 = {}"
  shows "sibs h2 par (us @ [NT q vs])"
proof -
  have s: "sibs h1 par (us @ NT q [] # [])" using assms(1) by simp
  note P = sibs_parts [OF s]
  from P(5) obtain n where n: "h1 q = Some n" "nparent n = par" "nprev n = final 0 us" "nnext n = 0" by auto
  from assms(3) n(1) obtain y where y: "h2 q = Some (n\<lparr>nchildren := y\<rparr>)" unfolding keeps_def chg_def by fastforce
  have same: "h2 a = h1 a" if "a \<noteq> q" "a \<in> dom h1" for a
  proof -
    from that(2) obtain m where "h1 a = Some m" by auto
    with assms(3) that(1) show ?thesis unfolding keeps_def by (metis (full_types))
  qed
  have ud: "set (addrs us) \<subseteq> dom h1" "par \<noteq> 0 \<Longrightarrow> par \<in> dom h1" using repr_dom [OF P(1)] P(15) by auto
  have c: "repr h2 q 0 vs 0" "distinct (addrs vs)" "q \<notin> set (addrs vs)" "y = first vs 0" using assms(2) P(2) y by (auto simp: sibs_def)
  have "repr h2 par 0 us q \<longleftrightarrow> repr h1 par 0 us q"
  proof (rule repr_frame)
    fix a assume "a \<in> set (addrs us)"
    then show "h2 a = h1 a" using ud P(9) by (intro same) auto
  qed
  then have "repr h2 par 0 (us @ [NT q vs]) 0" using P(1,2) c n y by simp
  moreover have "distinct (addrs (us @ [NT q vs]))" using P c(2,3) ud(1) assms(4) by auto
  moreover have "par \<noteq> 0 \<Longrightarrow> par \<notin> set (addrs (us @ [NT q vs])) \<and> h2 par = h1 par"
    using P(15) ud(2) assms(4) same by auto
  ultimately show ?thesis using P(15) by (auto simp: sibs_def)
qed

lemma at_pos_next:
  assumes "par \<noteq> 0" "sibs h par (us @ [u])" "pr \<in> {2, 0xb}"
  shows "at_pos h par (us @ [u]) (root u) pr"
  using assms unfolding at_pos_def by simp

lemma keeps_dom: "keeps b k h h' \<Longrightarrow> dom h \<subseteq> dom h'"
  unfolding keeps_def by blast

text \<open>The end of a section leads back to its node.\<close>

lemma section_end:
  assumes "at_pos (nodes (nst c)) q vs pos (if ts = [] then 9 else last_op (last ts))" "vs = [] \<longleftrightarrow> ts = []"
  shows "handles (saveAppend e E) [(es, None, if ts = [] then 9 else last_op (last ts), 2)] (Some (pos, c)) (Some (q, c))"
proof -
  have q: "q \<noteq> 0" "sibs (nodes (nst c)) q vs" using assms(1) by (simp_all add: at_pos_def)
  have "mpt_node_append e E c m p pos None (if ts = [] then 9 else last_op (last ts)) 2 = Some (q, c)" for m p
  proof (cases "vs = []")
    case True
    then have "pos = q" using assms(1) unfolding at_pos_def by simp
    then show ?thesis using True assms(2) q(1) by (simp add: mpt_node_append_def)
  next
    case False
    then obtain xs x cs where v: "vs = xs @ [NT x cs]" using tree_list_end [of vs] by auto
    have pos: "pos = x" "last_op (last ts) \<in> {2, 0xb}" using assms False v unfolding at_pos_def by auto
    have "sibs (nodes (nst c)) q (xs @ NT x cs # [])" using q(2) v by simp
    from sibs_parts(2,5) [OF this] obtain n where "x \<noteq> 0" "nodes (nst c) x = Some n" "nparent n = q" by auto
    then show ?thesis using False assms(2) pos by (auto simp: mpt_node_append_def load_def)
  qed
  then show ?thesis using q(1) by (simp add: saveAppend_def text_value_def)
qed

lemma last_op_cases: "last_op t \<in> {2, 0xb}"
  by (cases t) simp_all

lemma tree_built:
  assumes "env_ok e" "menv_ok E"
  shows "at_pos (nodes (nst c)) par us pos pr \<Longrightarrow> short_tree t \<Longrightarrow> space c (tree_size t + k) \<Longrightarrow>
      \<exists>u c'. handles (saveAppend e E) (tree_events es pr t) (Some (pos, c)) (Some (root u, c')) \<and>
        at_pos (nodes (nst c')) par (us @ [u]) (root u) (last_op t) \<and> tree_rep c' [u] [t] \<and> grows (us = []) pos c c' \<and>
        space c' k \<and> set (addrs [u]) \<inter> dom (nodes (nst c)) = {}"
    and "at_pos (nodes (nst c)) par us pos pr \<Longrightarrow> \<forall>t \<in> set ts. short_tree t \<Longrightarrow> space c (forest_size ts + k) \<Longrightarrow>
      \<exists>vs pos' c'. handles (saveAppend e E) (forest_events es pr ts) (Some (pos, c)) (Some (pos', c')) \<and>
        at_pos (nodes (nst c')) par (us @ vs) pos' (if ts = [] then pr else last_op (last ts)) \<and> tree_rep c' vs ts \<and>
        grows (us = []) pos c c' \<and> space c' k \<and> set (addrs vs) \<inter> dom (nodes (nst c)) = {}"
proof (induction es pr t and es pr ts arbitrary: c par us pos k and c par us pos k rule: tree_events_forest_events.induct)
  case (1 es pr n ts)
  have par: "par \<noteq> 0" using "1.prems"(1) by (simp add: at_pos_def)
  have sh: "short n None" "\<forall>t \<in> set ts. short_tree t" using "1.prems"(2) by (simp_all add: short_def)
  have sp: "space c (Suc (forest_size ts + k))" using "1.prems"(3) by (simp add: add.commute)
  from append_ok [OF assms sp "1.prems"(1) sh(1), of 1 es] obtain q c1 where
    q: "handles (saveAppend e E) [(es @ [n], None, pr, 1)] (Some (pos, c)) (Some (q, c1))" "q \<noteq> 0" "nodes (nst c) q = None"
      "sibs (nodes (nst c1)) par (us @ [NT q []])" "grows (us = []) pos c c1" "node_is c1 q n None" "space c1 (forest_size ts + k)" by blast
  have "sibs (nodes (nst c1)) par (us @ NT q [] # [])" using q(4) by simp
  from sibs_parts(5) [OF this] have "sibs (nodes (nst c1)) q []" by (auto simp: sibs_def)
  then have "at_pos (nodes (nst c1)) q [] q 9" using q(2) by (simp add: at_pos_def)
  from "1.IH" [OF this sh(2) q(7)] obtain vs pos' c2 where
    v: "handles (saveAppend e E) (forest_events (es @ [n]) 9 ts) (Some (q, c1)) (Some (pos', c2))"
      "at_pos (nodes (nst c2)) q vs pos' (if ts = [] then 9 else last_op (last ts))" "tree_rep c2 vs ts" "grows True q c1 c2"
      "space c2 k" "set (addrs vs) \<inter> dom (nodes (nst c1)) = {}" by auto
  have "vs = [] \<longleftrightarrow> ts = []" using v(3) by (cases vs; cases ts) (auto simp: tree_rep_Nil elim: tree_rep.elims)
  from section_end [OF v(2) this, of e E "es @ [n]"] q(1) v(1)
  have "handles (saveAppend e E) ([(es @ [n], None, pr, 1)] @ forest_events (es @ [n]) 9 ts @
      [(es @ [n], None, if ts = [] then 9 else last_op (last ts), 2)]) (Some (pos, c)) (Some (q, c2))"
    unfolding handles_append by blast
  then have h: "handles (saveAppend e E) (tree_events es pr (Sect n ts)) (Some (pos, c)) (Some (root (NT q vs), c2))" by simp
  have k2: "keeps True q (nodes (nst c1)) (nodes (nst c2))" using v(4) by (simp add: grows_def)
  have "sibs (nodes (nst c2)) q vs" using v(2) by (simp add: at_pos_def)
  from nest [OF q(4) this k2 v(6)] have "at_pos (nodes (nst c2)) par (us @ [NT q vs]) q 2"
    using par at_pos_next [of par _ us "NT q vs" 2] by simp
  moreover have "tree_rep c2 [NT q vs] [Sect n ts]" using v(3) node_is_grows [OF q(6) v(4)] by simp
  moreover have "grows (us = []) pos c c2" using grows_trans [OF q(5) v(4)] q(3) by simp
  moreover have "dom (nodes (nst c)) \<subseteq> dom (nodes (nst c1))" using q(5) keeps_dom unfolding grows_def by blast
  then have "set (addrs [NT q vs]) \<inter> dom (nodes (nst c)) = {}" using q(3) v(6) by auto
  ultimately show ?case using h v(5) by (intro exI [of _ "NT q vs"] exI [of _ c2]) simp
next
  case (2 es pr n w)
  let ?v = "if w = [] then None else Some w" and ?o = "if w = [] then 3 else 7 :: int"
  have par: "par \<noteq> 0" using "2.prems"(1) by (simp add: at_pos_def)
  have sh: "short n ?v" using "2.prems"(2) by (simp add: short_def)
  have sp: "space c (Suc k)" using "2.prems"(3) by simp
  have o: "?o \<in> {1, 3, 7}" by simp
  from append_ok [OF assms sp "2.prems"(1) sh o, of es] obtain q c1 where
    q: "handles (saveAppend e E) [(es @ [n], ?v, pr, ?o)] (Some (pos, c)) (Some (q, c1))" "q \<noteq> 0" "nodes (nst c) q = None"
      "sibs (nodes (nst c1)) par (us @ [NT q []])" "grows (us = []) pos c c1" "node_is c1 q n ?v" "space c1 k" by blast
  have "at_pos (nodes (nst c1)) par (us @ [NT q []]) (root (NT q [])) (last_op (Opt n w))"
    by (rule at_pos_next [OF par q(4)]) simp
  then show ?case using q by (intro exI [of _ "NT q []"] exI [of _ c1]) auto
next
  case (3 es pr)
  then show ?case by (intro exI [of _ "[]"] exI [of _ pos] exI [of _ c]) (simp add: grows_refl)
next
  case (4 es pr t ts)
  have sh: "short_tree t" "\<forall>t \<in> set ts. short_tree t" using "4.prems"(2) by simp_all
  have sp: "space c (tree_size t + (forest_size ts + k))" using "4.prems"(3) by (simp add: add.assoc)
  from "4.IH"(1) [OF "4.prems"(1) sh(1) sp] obtain u c1 where
    u: "handles (saveAppend e E) (tree_events es pr t) (Some (pos, c)) (Some (root u, c1))"
      "at_pos (nodes (nst c1)) par (us @ [u]) (root u) (last_op t)" "tree_rep c1 [u] [t]" "grows (us = []) pos c c1"
      "space c1 (forest_size ts + k)" "set (addrs [u]) \<inter> dom (nodes (nst c)) = {}" by blast
  from "4.IH"(2) [OF u(2) sh(2) u(5)] obtain vs pos' c2 where
    v: "handles (saveAppend e E) (forest_events es (last_op t) ts) (Some (root u, c1)) (Some (pos', c2))"
      "at_pos (nodes (nst c2)) par ((us @ [u]) @ vs) pos' (if ts = [] then last_op t else last_op (last ts))" "tree_rep c2 vs ts"
      "grows False (root u) c1 c2" "space c2 k" "set (addrs vs) \<inter> dom (nodes (nst c1)) = {}" by auto
  have "nodes (nst c) (root u) = None" using u(6) by (cases u) auto
  then have g: "grows (us = []) pos c c2" using grows_trans [OF u(4) v(4)] by simp
  have "tree_rep c2 ([u] @ vs) ([t] @ ts)" by (rule tree_rep_append [OF tree_rep_grows [OF u(3) v(4)] v(3)])
  moreover have "dom (nodes (nst c)) \<subseteq> dom (nodes (nst c1))" using u(4) keeps_dom unfolding grows_def by blast
  then have "set (addrs (u # vs)) \<inter> dom (nodes (nst c)) = {}" using u(6) v(6) by (cases u) auto
  moreover have "handles (saveAppend e E) (forest_events es pr (t # ts)) (Some (pos, c)) (Some (pos', c2))"
    using u(1) v(1) unfolding forest_events.simps handles_append by blast
  moreover have "at_pos (nodes (nst c2)) par (us @ u # vs) pos' (if t # ts = [] then pr else last_op (last (t # ts)))"
    using v(2) by (cases ts) simp_all
  ultimately show ?case using g v(5) by (intro exI [of _ "u # vs"] exI [of _ pos'] exI [of _ c2]) simp
qed

section \<open>A parsed configuration\<close>

lemma node_is_same:
  assumes "nodes (nst c') p = nodes (nst c) p" "blocks (nst c') = blocks (nst c)" "minfos (mst c') = minfos (mst c)"
  shows "node_is c' p x val = node_is c p x val"
  unfolding node_is_def assms ..

lemma tree_rep_same:
  assumes "blocks (nst c') = blocks (nst c)" "minfos (mst c') = minfos (mst c)"
  shows "\<forall>a \<in> set (addrs us). nodes (nst c') a = nodes (nst c) a \<Longrightarrow> tree_rep c us ts \<Longrightarrow> tree_rep c' us ts"
  using assms
proof (induction c us ts rule: tree_rep.induct)
  case (2 c p us vs n cs ts)
  then show ?case using node_is_same [of c' p c n None] by simp
next
  case (3 c p us vs n w ts)
  then show ?case using node_is_same [of c' p c n "if w = [] then None else Some w"] by simp
qed simp_all

lemma parse_node_built:
  assumes "env_ok e" "menv_ok E" "always_ok mal" "mem_ok m" "mpt_parse_format fmt = Some (42, f)" "regular f"
    and "\<forall>t \<in> set ts. tree_ok f fs fo t \<and> short_tree t" "length (forest_text f 0 ts) < 2 ^ 16"
    and "context_ok fs fo pr (forest_text f 0 ts) x" "space c (forest_size ts)"
    and "nodes (nst c) rt = Some r" "rt \<noteq> 0" "nchildren r = 0" "loc \<noteq> 0" "nodes (nst c) loc = None"
  shows "\<exists>vs c'. mpt_parse_node mal e E loc rt (Some x) fmt m c = Some (0, c') \<and>
    nodes (nst c') rt = Some (r\<lparr>nchildren := first vs 0\<rparr>) \<and> repr (nodes (nst c')) loc 0 vs 0 \<and> distinct (addrs vs) \<and>
    tree_rep c' vs ts \<and> nodes (nst c') loc = None \<and> set (addrs vs) \<inter> dom (nodes (nst c)) = {} \<and>
    (\<forall>a. a \<noteq> rt \<longrightarrow> nodes (nst c) a \<noteq> None \<longrightarrow> nodes (nst c') a = nodes (nst c) a) \<and>
    blocks (nst c) \<subseteq>\<^sub>m blocks (nst c') \<and> minfos (mst c) \<subseteq>\<^sub>m minfos (mst c') \<and> unrefs (nst c') = unrefs (nst c)"
proof -
  define c0 where "c0 = c\<lparr>nst := (nst c)\<lparr>nodes := (nodes (nst c))(loc \<mapsto> MPT_NODE_INIT)\<rparr>\<rparr>"
  have c0: "nodes (nst c0) = (nodes (nst c))(loc \<mapsto> MPT_NODE_INIT)" "blocks (nst c0) = blocks (nst c)" "mst c0 = mst c"
    "unrefs (nst c0) = unrefs (nst c)" by (simp_all add: c0_def)
  have rl: "rt \<noteq> loc" using assms(11,15) by auto
  have "space c0 (forest_size ts + 0)" using assms(10) c0 by (simp add: space_def)
  moreover have "at_pos (nodes (nst c0)) loc [] loc 1" using assms(14) by (simp add: at_pos_def sibs_def c0 MPT_NODE_INIT_def)
  moreover have "\<forall>t \<in> set ts. short_tree t" using assms(7) by blast
  ultimately obtain vs pos c1 where v: "handles (saveAppend e E) (forest_events [] 1 ts) (Some (loc, c0)) (Some (pos, c1))"
      "at_pos (nodes (nst c1)) loc vs pos (if ts = [] then 1 else last_op (last ts))" "tree_rep c1 vs ts" "grows True loc c0 c1"
      "set (addrs vs) \<inter> dom (nodes (nst c0)) = {}"
    using tree_built(2) [OF assms(1,2), of c0 loc "[]" loc 1 ts 0 "[]"] by auto
  have ctx: "context_ok fs fo 1 (forest_text f 0 ts) (x\<lparr>pprev := 1\<rparr>)" using assms(9) by (simp add: context_ok_def)
  have ok: "\<forall>t \<in> set ts. tree_ok f fs fo t" using assms(7) by blast
  from config_handles [OF assms(3,4,6) ok assms(8) ctx v(1)] obtain st' where
    p: "mpt_parse_config mal (mpt_parse_format_pre mal f) (saveAppend e E) (x\<lparr>pprev := 1\<rparr>) m (Some (loc, c0)) = Some (0, st', Some (pos, c1))" by blast
  have s: "sibs (nodes (nst c1)) loc vs" using v(2) by (simp add: at_pos_def)
  then obtain l where l: "nodes (nst c1) loc = Some l" "nchildren l = first vs 0" "repr (nodes (nst c1)) loc 0 vs 0" "distinct (addrs vs)"
      "loc \<notin> set (addrs vs)" using assms(14) by (auto simp: sibs_def split: option.splits)
  have k: "keeps True loc (nodes (nst c0)) (nodes (nst c1))" using v(4) by (simp add: grows_def)
  have same: "nodes (nst c1) a = nodes (nst c) a" if "nodes (nst c) a \<noteq> None" for a
  proof -
    have "a \<noteq> loc" "\<exists>n. nodes (nst c0) a = Some n" using that assms(15) c0(1) by auto
    with k c0(1) show ?thesis unfolding keeps_def by (metis fun_upd_other)
  qed
  have r: "nodes (nst c1) rt = Some r" using same [of rt] assms(11) by simp
  define c' where "c' = c1\<lparr>nst := drop_local ((nst c1)\<lparr>nodes := (nodes (nst c1))(rt \<mapsto> r\<lparr>nchildren := first vs 0\<rparr>)\<rparr>) loc\<rparr>"
  have "merge_nodes (nst c1) loc rt = Some ((nst c1)\<lparr>nodes := (nodes (nst c1))(rt \<mapsto> r\<lparr>nchildren := first vs 0\<rparr>)\<rparr>)"
    using l(1,2) r assms(12-14) by (simp add: merge_nodes_def node_access)
  then have res: "mpt_parse_node mal e E loc rt (Some x) fmt m c = Some (0, c')"
    using assms(5,12) p by (simp add: mpt_parse_node_def mpt_parse_next_fcn_def c0_def c'_def)
  have rv: "rt \<notin> set (addrs vs)" using v(5) assms(11) c0(1) by auto
  have n': "nodes (nst c') a = nodes (nst c1) a" if "a \<noteq> rt" "a \<noteq> loc" for a using that by (simp add: c'_def drop_local_def)
  have eq: "a \<in> set (addrs vs) \<Longrightarrow> nodes (nst c') a = nodes (nst c1) a" for a using n' rv l(5) by metis
  have "repr (nodes (nst c')) loc 0 vs 0" using l(3) repr_frame [of vs "nodes (nst c')" "nodes (nst c1)" loc 0 0] eq by blast
  moreover have "tree_rep c' vs ts" using v(3) eq tree_rep_same [of c' c1 vs ts] by (simp add: c'_def drop_local_def)
  moreover have "nodes (nst c') a = nodes (nst c) a" if "a \<noteq> rt" "nodes (nst c) a \<noteq> None" for a
    using n' [OF that(1)] same [OF that(2)] that(2) assms(15) by metis
  moreover have "nodes (nst c') loc = None" "nodes (nst c') rt = Some (r\<lparr>nchildren := first vs 0\<rparr>)"
    using rl by (simp_all add: c'_def drop_local_def)
  moreover have "blocks (nst c) \<subseteq>\<^sub>m blocks (nst c')" "minfos (mst c) \<subseteq>\<^sub>m minfos (mst c')" "unrefs (nst c') = unrefs (nst c)"
    using v(4) c0 by (simp_all add: grows_def c'_def drop_local_def)
  moreover have "set (addrs vs) \<inter> dom (nodes (nst c)) = {}" using v(5) c0(1) by auto
  ultimately show ?thesis using res l(4) by blast
qed

section \<open>Query of a configuration\<close>

fun cname :: "ctree \<Rightarrow> block" where
  "cname (Sect n ts) = n"
| "cname (Opt n w) = n"

fun csub :: "ctree \<Rightarrow> ctree list" where
  "csub (Sect n ts) = ts"
| "csub (Opt n w) = []"

text \<open>The deepest element on a path and the rest of the path: the first child of each name is entered.\<close>

fun clookup :: "ctree option \<Rightarrow> ctree list \<Rightarrow> block list \<Rightarrow> ctree option \<times> block list" where
  "clookup best ts [] = (best, [])"
| "clookup best ts (x # xs) = (case List.find (\<lambda>t. cname t = x) ts of None \<Rightarrow> (best, x # xs)
     | Some t \<Rightarrow> if csub t = [] then (Some t, xs) else clookup (Some t) (csub t) xs)"

definition found :: "cstate \<Rightarrow> ctree option \<Rightarrow> ptr \<Rightarrow> bool" where
  "found c best q \<longleftrightarrow> (case best of None \<Rightarrow> q = 0 | Some t \<Rightarrow> q \<noteq> 0 \<and> (\<exists>us. tree_rep c [NT q us] [t]))"

text \<open>The rest of a path.\<close>

definition rest_ok :: "path \<Rightarrow> block \<Rightarrow> byte \<Rightarrow> block list \<Rightarrow> bool" where
  "rest_ok p b sep xs \<longleftrightarrow> (if xs = [] then plen p = 0 else psep p = sep \<and> (\<exists>y. path_text p b y \<and> split_on sep y = xs))"

lemma node_is_named:
  assumes "node_is c p n val"
  shows "\<exists>d. nodes (nst c) p = Some d \<and> wf_ident (blocks (nst c)) (nident d) \<and> (named (blocks (nst c)) x d \<longleftrightarrow> n = x)"
  using assms by (auto simp: node_is_def named_def split: option.splits)

lemma tree_rep_name: "tree_rep c [NT p us] [t] \<Longrightarrow> \<exists>val. node_is c p (cname t) val"
  by (cases t) auto

lemma tree_rep_single: "tree_rep c (NT p us # vs) (t # ts) \<longleftrightarrow> tree_rep c [NT p us] [t] \<and> tree_rep c vs ts"
  by (cases t) auto

lemma tree_rep_sub: "tree_rep c [NT p us] [t] \<Longrightarrow> tree_rep c us (csub t) \<and> (us = [] \<longleftrightarrow> csub t = [])"
  by (cases t) (auto simp: tree_rep_Nil elim: tree_rep.elims)

lemma locate_first:
  fixes a :: nat
  assumes "repr (nodes (nst c)) par pv us 0" "tree_rep c us ts" "us \<noteq> []" "l \<le> length s" "take l s = x"
  defines "mt \<equiv> node_match (blocks (nst c)) False a s l (l + 1) 1"
  shows "case List.find (\<lambda>t. cname t = x) ts of None \<Rightarrow> locate_fwd mt (nodes (nst c)) (first us 0) 1 = Some 0
    | Some t \<Rightarrow> \<exists>p us' n. locate_fwd mt (nodes (nst c)) (first us 0) 1 = Some p \<and> p \<noteq> 0 \<and> tree_rep c [NT p us'] [t] \<and>
        nodes (nst c) p = Some n \<and> nchildren n = first us' 0 \<and> repr (nodes (nst c)) p 0 us' 0"
  using assms(1-3)
proof (induction us arbitrary: ts pv)
  case (Cons u us)
  obtain p ks where u: "u = NT p ks" by (cases u)
  then obtain t ts' where ts: "ts = t # ts'" using Cons.prems(2) by (cases ts) auto
  have r: "tree_rep c [NT p ks] [t]" "tree_rep c us ts'" using Cons.prems(2) tree_rep_single [of c p ks us t ts'] u ts by simp_all
  from Cons.prems(1) u obtain n where n: "p \<noteq> 0" "nodes (nst c) p = Some n" "nnext n = first us 0" "nchildren n = first ks 0"
    "repr (nodes (nst c)) p 0 ks 0" "repr (nodes (nst c)) par p us 0" by (auto split: option.splits)
  from tree_rep_name [OF r(1)] node_is_named [of c p "cname t" _ x] n(2) have
    w: "wf_ident (blocks (nst c)) (nident n)" "named (blocks (nst c)) x n \<longleftrightarrow> cname t = x" by auto
  have m: "mt n = Some (cname t = x)" using node_match_named [OF w(1) assms(4), of False a] w(2) assms(5) by (simp add: mt_def)
  show ?case
  proof (cases "cname t = x")
    case True
    then have "locate_fwd mt (nodes (nst c)) p 1 = Some p" using n(1,2) m by (subst locate_fwd.simps) (simp add: load_def)
    then show ?thesis using True n r(1) u ts by auto
  next
    case False
    show ?thesis
    proof (cases "us = []")
      case True
      then have "ts' = []" using r(2) by (cases ts') auto
      moreover have "locate_fwd mt (nodes (nst c)) p 1 = Some 0" using n(1-3) m False True by (subst locate_fwd.simps) (simp add: load_def)
      ultimately show ?thesis using u ts False by simp
    next
      case ne: False
      have "first us 0 \<noteq> 0" using n(6) ne by (cases us rule: addrs.cases) auto
      then have "locate_fwd mt (nodes (nst c)) p 1 = locate_fwd mt (nodes (nst c)) (first us 0) 1"
        using n(1-3) m False by (subst locate_fwd.simps) (simp add: load_def)
      then have le: "locate_fwd mt (nodes (nst c)) (first (u # us) 0) 1 = locate_fwd mt (nodes (nst c)) (first us 0) 1"
        unfolding u first_simps .
      show ?thesis using Cons.IH [OF n(6) r(2) ne] False unfolding ts le by simp
    qed
  qed
qed simp

lemma query_loop_ok:
  assumes "path_text p b y" "repr (nodes (nst c)) par 0 us 0" "tree_rep c us ts" "us \<noteq> []" "a \<noteq> 0" "found c best pre"
  shows "\<exists>q p'. query_loop (blocks (nst c)) (nodes (nst c)) a (first us 0) pre (poff p) (plen p) p = Some (q, p') \<and>
    found c (fst (clookup best ts (split_on (psep p) y))) q \<and> rest_ok p' b (psep p) (snd (clookup best ts (split_on (psep p) y)))"
  using assms(1-4,6)
proof (induction "length y" arbitrary: p y par us ts pre best rule: less_induct)
  case less
  let ?e = "hd (split_on (psep p) y)" and ?h = "nodes (nst c)" and ?m = "blocks (nst c)"
  let ?q = "p\<lparr>pfirst := 0, poff := poff p + (length ?e + 1), plen := length y - length ?e\<rparr>"
  note nx = next_ok [OF less.prems(1)]
  have t: "pbase p = Some b" "poff p + length y \<le> length b" "plen p = length y + 1" using less.prems(1) by (simp_all add: path_text_def)
  have e: "length ?e \<le> length y" by (simp add: hd_split length_takeWhile_le)
  have l: "length ?e \<le> length (drop (poff p) b)" using t(2) e by simp
  have x: "take (length ?e) (drop (poff p) b) = ?e" using rd_element [OF less.prems(1) refl] by (auto simp: rd_def split: if_splits)
  have f0: "first us 0 \<noteq> 0" using less.prems(2,4) by (cases us rule: addrs.cases) auto
  let ?loc = "locate_fwd (node_match ?m False (a + poff p) (drop (poff p) b) (length ?e) (length ?e + 1) 1) ?h (first us 0) 1"
  have loc: "mpt_node_locate ?m ?h (first us 0) 1 (a + poff p) (drop (poff p) b) (length ?e) (- 1) = ?loc"
    using f0 assms(5) by (simp add: mpt_node_locate_def)
  note L = locate_first [OF less.prems(2-4) l x, of "a + poff p"]
  show ?case
  proof (cases "List.find (\<lambda>t. cname t = ?e) ts")
    case None
    then have "?loc = Some 0" using L by simp
    then have "query_loop ?m ?h a (first us 0) pre (poff p) (plen p) p = Some (pre, ?q\<lparr>poff := poff p, plen := plen p\<rparr>)"
      using nx loc t by (subst query_loop.simps) simp
    moreover have "path_text (?q\<lparr>poff := poff p, plen := plen p\<rparr>) b y" using less.prems(1) by (simp add: path_text_def)
    moreover have "clookup best ts (split_on (psep p) y) = (best, split_on (psep p) y)"
      using None by (cases "split_on (psep p) y") simp_all
    ultimately show ?thesis using less.prems(5) by (auto simp: rest_ok_def)
  next
    case (Some tr)
    from L Some obtain q us' n where q: "?loc = Some q" "q \<noteq> 0" "tree_rep c [NT q us'] [tr]" "?h q = Some n" "nchildren n = first us' 0"
      "repr ?h q 0 us' 0" by auto
    have fq: "found c (Some tr) q" using q(2,3) by (auto simp: found_def)
    from tree_rep_sub [OF q(3)] have sub: "tree_rep c us' (csub tr)" "us' = [] \<longleftrightarrow> csub tr = []" by simp_all
    have step: "query_loop ?m ?h a (first us 0) pre (poff p) (plen p) p =
        (if first us' 0 = 0 then Some (q, ?q) else query_loop ?m ?h a (first us' 0) q (poff ?q) (plen ?q) ?q)"
      using nx loc t q(1,2,4,5) by (subst query_loop.simps) (simp add: load_def)
    have cl: "clookup best ts (split_on (psep p) y) =
        (if csub tr = [] then (Some tr, tl (split_on (psep p) y)) else clookup (Some tr) (csub tr) (tl (split_on (psep p) y)))"
      using Some by (cases "split_on (psep p) y") simp_all
    have z: "first us' 0 = 0 \<longleftrightarrow> us' = []" using q(6) by (cases us' rule: addrs.cases) auto
    show ?thesis
    proof (cases rule: split_cases [of "psep p" y])
      case 1
      then have tl: "tl (split_on (psep p) y) = []" "length ?e = length y" by simp_all
      have "query_loop ?m ?h a (first us 0) pre (poff p) (plen p) p = Some (q, ?q)"
      proof (cases "us' = []")
        case False
        have "mpt_path_next ?q = Some (MissingData, ?q)" using tl(2) by (simp add: mpt_path_next_def)
        then show ?thesis using step z False by (subst (asm) (2) query_loop.simps) simp
      qed (use step z in simp)
      then show ?thesis using fq tl cl by (simp add: rest_ok_def)
    next
      case (2 f r)
      have pr: "path_text ?q b r" using path_text_next [OF less.prems(1) 2(1,2)] 2 by simp
      have tl: "tl (split_on (psep p) y) = split_on (psep ?q) r" using 2 by simp
      show ?thesis
      proof (cases "us' = []")
        case True
        then show ?thesis using step z sub(2) cl tl fq pr by (auto simp: rest_ok_def)
      next
        case False
        have "length r < length y" using 2(1) by simp
        from less.hyps [OF this pr q(6) sub(1) False fq] show ?thesis using step z False sub(2) cl tl by simp
      qed
    qed
  qed
qed

section \<open>Properties\<close>

text \<open>Property C15: reading the text of a configuration (of less than 64 KiB, in a regular format) whose names have at most 255 bytes
  and whose values have at most 249 bytes (\<open>short_tree\<close>: longer names are lost, \<open>append_name_lost\<close>, and
  longer values are refused, \<open>meta_text_kept\<close>) into a node without children returns without an error
  and creates exactly the tree of this configuration below the node: one new node for each section and
  option, in order, with its name and, for an option with a value, a metatype that holds the value.
  All other nodes, blocks and metatypes are kept.  The nodes of the first level have the address of a
  local node that is gone as their parent.\<close>

theorem config_tree_built:
  assumes "env_ok e" and "menv_ok E" and "always_ok mal" and "mem_ok m"
    and "mpt_parse_format fmt = Some (42, f)" and "regular f"
    and "\<forall>t \<in> set ts. tree_ok f fs fo t \<and> short_tree t" and "length (forest_text f 0 ts) < 2 ^ 16"
    and "context_ok fs fo pr (forest_text f 0 ts) x" and "space c (forest_size ts)"
    and "nodes (nst c) rt = Some r" and "rt \<noteq> 0" and "nchildren r = 0" and "loc \<noteq> 0" and "nodes (nst c) loc = None"
  shows "\<exists>vs c'. mpt_parse_node mal e E loc rt (Some x) fmt m c = Some (0, c') \<and>
    nodes (nst c') rt = Some (r\<lparr>nchildren := first vs 0\<rparr>) \<and> repr (nodes (nst c')) loc 0 vs 0 \<and> distinct (addrs vs) \<and>
    tree_rep c' vs ts \<and> nodes (nst c') loc = None \<and> set (addrs vs) \<inter> dom (nodes (nst c)) = {} \<and>
    (\<forall>a. a \<noteq> rt \<longrightarrow> nodes (nst c) a \<noteq> None \<longrightarrow> nodes (nst c') a = nodes (nst c) a) \<and>
    blocks (nst c) \<subseteq>\<^sub>m blocks (nst c') \<and> minfos (mst c) \<subseteq>\<^sub>m minfos (mst c') \<and> unrefs (nst c') = unrefs (nst c)"
  using parse_node_built [OF assms] .

text \<open>Allocators that deliver the first free address.\<close>

definition env1 :: env where
  "env1 = \<lparr>enew = (\<lambda>h. LEAST a. a \<noteq> 0 \<and> h a = None), eblk = (\<lambda>m. Some (LEAST a. a \<noteq> 0 \<and> m a = None)),
     eraw = (\<lambda>n. replicate n 0), eclone = (\<lambda>x. x)\<rparr>"

lemma least_free:
  assumes "finite (dom m)"
  shows "(LEAST a. a \<noteq> 0 \<and> m a = None) \<noteq> (0 :: nat) \<and> m (LEAST a. a \<noteq> 0 \<and> m a = None) = None \<and>
    (LEAST a. a \<noteq> 0 \<and> m a = None) \<le> card (dom m) + 1"
proof -
  have "\<not> {1..card (dom m) + 1} \<subseteq> dom m"
  proof
    assume "{1..card (dom m) + 1} \<subseteq> dom m"
    from card_mono [OF assms this] show False by simp
  qed
  then obtain a where "a \<in> {1..card (dom m) + 1}" "a \<notin> dom m" by blast
  then have a: "a \<noteq> 0" "a \<le> card (dom m) + 1" "m a = None" by (auto simp: domIff)
  let ?P = "\<lambda>a. a \<noteq> 0 \<and> m a = None"
  have "?P (LEAST a. ?P a)" by (rule LeastI [of ?P a]) (use a in simp)
  moreover have "(LEAST a. ?P a) \<le> a" by (rule Least_le) (use a in simp)
  ultimately show ?thesis using a(2) by auto
qed

lemma env1_ok: "env_ok env1"
proof -
  have h: "enew env1 h \<noteq> 0 \<and> h (enew env1 h) = None" if "finite (dom h)" for h
    using least_free [OF that] by (simp add: env1_def)
  have m: "\<exists>a. eblk env1 m = Some a \<and> m a = None \<and> 0 < a \<and> a < 2 ^ 64" if "finite (dom m)" "card (dom m) < 2 ^ 32" for m
    using least_free [OF that(1)] that(2) by (simp add: env1_def le_less_trans)
  show ?thesis unfolding env_ok_def using h m by (simp add: env1_def)
qed

definition config0 :: cstate where
  "config0 = \<lparr>nst = \<lparr>nodes = [1 \<mapsto> MPT_NODE_INIT], blocks = Map.empty, unrefs = []\<rparr>, mst = \<lparr>minfos = Map.empty, mbufs = bmem_init\<rparr>\<rparr>"

theorem config_tree_built_witness:
  "\<exists>vs c'. mpt_parse_node first_fit env1 menv0 2 1 (Some \<lparr>inp = map uint (forest_text MPT_PARSER_FORMAT_INIT 0 forest0), pline = 1,
      psect = 0xff, popt = 0xff, pvalid = 0, pprev = 0, pcurr = 0\<rparr>) None bmem_init config0 = Some (0, c') \<and>
    nodes (nst c') 1 = Some (MPT_NODE_INIT\<lparr>nchildren := first vs 0\<rparr>) \<and> repr (nodes (nst c')) 2 0 vs 0 \<and> tree_rep c' vs forest0"
proof -
  let ?f = MPT_PARSER_FORMAT_INIT
  have f: "mpt_parse_format None = Some (42, ?f)" by (simp add: mpt_parse_format_def)
  have r: "regular ?f" by (simp add: regular_def MPT_PARSER_FORMAT_INIT_def isspace_def)
  have t: "\<forall>t \<in> set forest0. tree_ok ?f 0xff 0xff t \<and> short_tree t"
    by (simp add: forest0_def name_ok_def accepted_def plain_def value_ok_def vchar_def MPT_PARSER_FORMAT_INIT_def isspace_def
      isdigit_def isprint_def isalnum_def isupper_def islower_def)
  have l: "length (forest_text ?f 0 forest0) < 2 ^ 16" by (simp add: forest0_def vtext_def)
  have c: "context_ok 0xff 0xff 0 (forest_text ?f 0 forest0) \<lparr>inp = map uint (forest_text ?f 0 forest0), pline = 1,
      psect = 0xff, popt = 0xff, pvalid = 0, pprev = 0, pcurr = 0\<rparr>" by (simp add: context_ok_def)
  have s: "space config0 (forest_size forest0)" by (simp add: space_def config0_def forest0_def)
  have n: "nodes (nst config0) 1 = Some MPT_NODE_INIT" "(1 :: nat) \<noteq> 0" "nchildren MPT_NODE_INIT = 0" "(2 :: nat) \<noteq> 0" "nodes (nst config0) 2 = None"
    by (simp_all add: config0_def MPT_NODE_INIT_def)
  from config_tree_built [OF env1_ok menv0_ok first_fit_ok bmem_init_ok f r t l c s n] show ?thesis by blast
qed


definition config1 :: cstate where
  "config1 = \<lparr>nst = \<lparr>nodes = [1 \<mapsto> MPT_NODE_INIT\<lparr>nident := ident_a, nchildren := 2\<rparr>,
       2 \<mapsto> MPT_NODE_INIT\<lparr>nident := ident_a, nparent := 1, nmeta := 9\<rparr>], blocks = Map.empty, unrefs = []\<rparr>,
     mst = \<lparr>minfos = [9 \<mapsto> \<lparr>gsize = 4, gused = 2, gdata = [120, 0, 0, 0]\<rparr>], mbufs = bmem_init\<rparr>\<rparr>"


section \<open>Deviations\<close>

text \<open>The name of an element of 256 characters is lost.\<close>

lemma append_name_lost:
  assumes "pst 46 0 m p (es @ [x]) post keep" "length x = 256"
  shows "\<exists>d. append_name m p 1 = Some (Some (d, 0))"
  using append_name_mod [OF assms(1), of 1] assms(2) by auto

text \<open>An element that is only data does not count as a member of its section: the end of the section leaves
  the position at the data, and the next element becomes its child.\<close>

lemma data_element_kept_open:
  "mpt_node_append e E c m p old None 4 2 = Some (old, c)"
  "link_node h old 4 q = map_option snd (mpt_gnode_insert h old 0 q)"
  by (simp_all add: mpt_node_append_def link_node_def)

text \<open>A query that fails on a binary path restores offset and length but not the size of the first element, so
  that the path read again has other elements.\<close>

lemma query_binary_first:
  defines "p \<equiv> MPT_PATH_INIT\<lparr>pbase := Some [120, 1, 2, 98, 99, 2, 0], plen := 7, pfirst := 1, pflags := 0x80\<rparr>"
  shows "map_option fst (mpt_path_next p) = Some 1"
    and "(case mpt_node_query Map.empty (nodes (nst config1)) 64 1 p of None \<Rightarrow> False
      | Some (q, p') \<Rightarrow> q = 0 \<and> poff p' = poff p \<and> plen p' = plen p \<and> map_option fst (mpt_path_next p') = Some 2)"
  by (simp_all add: p_def MPT_PATH_INIT_def mpt_path_next_def mpt_node_query_def query_loop.simps mpt_node_locate_def
    locate_fwd.simps load_def config1_def MPT_NODE_INIT_def node_match_def ident_a_def ident_block_def mpt_identifier_data_def rd_def Let_def)

end
