(* ===== verification/GlobalConfig.thy ===== *)
theory GlobalConfig
  imports ConfigTree
begin

text \<open>
  The global configuration: \<open>mptcore/config/config_global.c\<close>, the list of nodes at the static variable
  \<open>nodeGlobal\<close> and the objects that present it, or the part of it below a path, as a configuration.

  The lemmas follow a path through the forest of nodes: a query reaches the node of the longest prefix that
  exists, and an assignment changes the value of this node or appends a chain of new nodes below it.
\<close>

unbundle bit_operations_syntax

section \<open>Model\<close>

text \<open>A configuration has the path of its base, with the address of its bytes; the base of the static instance
  is empty.  The state has the configurations that were created.\<close>

record configRoot =
  cbase :: path
  caddr :: nat

record gstate =
  gcs :: cstate
  groot :: ptr
  gobjs :: "nat \<rightharpoonup> configRoot"

definition config_top :: configRoot where
  "config_top = \<lparr>cbase = MPT_PATH_INIT, caddr = 0\<rparr>"

abbreviation (input) TypeNodePtr :: int where "TypeNodePtr \<equiv> 0x9"
abbreviation (input) TypeConfigPtr :: int where "TypeConfigPtr \<equiv> 0x85"

definition gquery :: "gstate \<Rightarrow> nat \<Rightarrow> ptr \<Rightarrow> path \<Rightarrow> (ptr \<times> path) option" where
  "gquery g a n p = mpt_node_query (blocks (nst (gcs g))) (nodes (nst (gcs g))) a n p"

definition gload :: "gstate \<Rightarrow> ptr \<Rightarrow> node option" where
  "gload g p = load (nodes (nst (gcs g))) p"

definition set_heap :: "gstate \<Rightarrow> heap \<Rightarrow> gstate" where
  "set_heap g h = g\<lparr>gcs := (gcs g)\<lparr>nst := (nst (gcs g))\<lparr>nodes := h\<rparr>\<rparr>\<rparr>"

text \<open>The local node of \<open>clear_global\<close> is at \<open>loc\<close> during the call.\<close>

definition clear_global :: "ptr \<Rightarrow> gstate \<Rightarrow> gstate option" where
  "clear_global loc g =
     (if groot g = 0 then Some g
      else do {
        st \<leftarrow> mpt_node_clear ((nst (gcs g))\<lparr>nodes := (nodes (nst (gcs g)))(loc \<mapsto> MPT_NODE_INIT\<lparr>nchildren := groot g\<rparr>)\<rparr>) loc;
        Some (g\<lparr>gcs := (gcs g)\<lparr>nst := drop_local st loc\<rparr>, groot := 0\<rparr>) })"

text \<open>The memory, and the behaviour of the metatypes of other components (see \<open>mpt_meta_set\<close>); \<open>econv\<close> is the
  conversion of a metatype to its default type.\<close>

record cenv =
  eenv :: env
  emeta :: menv
  etakes :: "ptr \<Rightarrow> srcval \<Rightarrow> int option"
  ekeeps :: "ptr \<Rightarrow> int option"
  edeflt :: ptr
  econv :: "cstate \<Rightarrow> ptr \<Rightarrow> int"

definition gassign :: "cenv \<Rightarrow> gstate \<Rightarrow> nat \<Rightarrow> ptr option \<Rightarrow> path \<Rightarrow> srcval \<Rightarrow> (ptr \<times> gstate) option" where
  "gassign C g a slot p val = do {
     (r, var, c) \<leftarrow> mpt_node_assign (eenv C) (emeta C) (etakes C) (ekeeps C) (edeflt C) (gcs g) a slot (groot g) p val;
     Some (r, g\<lparr>gcs := c, groot := var\<rparr>) }"

text \<open>A node without children before becomes the parent of its first child.\<close>

definition link_first :: "gstate \<Rightarrow> ptr \<Rightarrow> gstate option" where
  "link_first g n = do {
     x \<leftarrow> gload g n;
     h \<leftarrow> set_parent (nodes (nst (gcs g))) (nchildren x) n;
     Some (set_heap g h) }"

definition make_global :: "cenv \<Rightarrow> gstate \<Rightarrow> nat \<Rightarrow> path \<Rightarrow> (ptr \<times> gstate) option" where
  "make_global C g a dest = do {
     (n, p) \<leftarrow> gquery g a (groot g) dest;
     if n = 0 then gassign C g a None dest None
     else if plen p = 0 then Some (n, g)
     else do {
       x \<leftarrow> gload g n;
       (r, g) \<leftarrow> gassign C g a (Some n) p None;
       if r = 0 then Some (0, g)
       else if nchildren x = 0 then do { g \<leftarrow> link_first g n; Some (r, g) }
       else Some (r, g) } }"

text \<open>The handler of a query gets the configuration itself or a metatype, and the first node of the
  collection of elements.\<close>

datatype qval = ConfigSelf | Meta ptr

definition sub_query :: "gstate \<Rightarrow> nat \<Rightarrow> path \<Rightarrow> ptr \<times> ptr \<Rightarrow> (ptr \<times> ptr) option option" where
  "sub_query g a p r =
     (if plen p = 0 then Some (Some r)
      else do {
        (n, q) \<leftarrow> gquery g a (snd r) p;
        if n = 0 \<or> plen q \<noteq> 0 then Some None
        else do { x \<leftarrow> gload g n; Some (Some (nmeta x, nchildren x)) } })"

definition configQuery :: "gstate \<Rightarrow> configRoot \<Rightarrow> (path \<times> nat) option \<Rightarrow> (qval \<Rightarrow> ptr \<Rightarrow> int) option \<Rightarrow> int option" where
  "configQuery g c path fcn = (case path of
     None \<Rightarrow> Some (case fcn of None \<Rightarrow> 0 | Some f \<Rightarrow> f ConfigSelf 0)
   | Some (p, a) \<Rightarrow> do {
       r \<leftarrow> sub_query g (caddr c) (cbase c) (0, groot g);
       case r of None \<Rightarrow> Some MissingData
       | Some r \<Rightarrow> do {
           r \<leftarrow> sub_query g a p r;
           Some (case r of None \<Rightarrow> MissingData
             | Some (mt, n) \<Rightarrow> (case fcn of None \<Rightarrow> 0 | Some f \<Rightarrow> f (Meta mt) n)) } })"

definition configAssign ::
  "cenv \<Rightarrow> gstate \<Rightarrow> configRoot \<Rightarrow> (path \<times> nat) option \<Rightarrow> srcval \<Rightarrow> (int \<times> gstate) option" where
  "configAssign C g c path val = (case path of
     None \<Rightarrow> Some (BadArgument, g)
   | Some (p, a) \<Rightarrow> do {
       (n, g) \<leftarrow> (if plen (cbase c) \<noteq> 0 then make_global C g (caddr c) (cbase c) else Some (groot g, g));
       if plen (cbase c) \<noteq> 0 \<and> n = 0 then Some (BadOperation, g)
       else do {
         t \<leftarrow> (if plen (cbase c) \<noteq> 0 then do { x \<leftarrow> gload g n; Some (nchildren x = 0) } else Some False);
         if plen p = 0 then
           (if plen (cbase c) = 0 then Some (BadValue, g)
            else do {
              x \<leftarrow> gload g n;
              (r, mt, s) \<leftarrow> mpt_meta_set (emeta C) (etakes C) (ekeeps C) (edeflt C) (gcs g) (nmeta x) val;
              h \<leftarrow> upd (nodes (nst s)) n (\<lambda>x. x\<lparr>nmeta := mt\<rparr>);
              Some (r, set_heap (g\<lparr>gcs := s\<rparr>) h) })
         else do {
           (r, g) \<leftarrow> gassign C g a (if plen (cbase c) \<noteq> 0 then Some n else None) p val;
           if r = 0 then Some (if val = None then 0 else BadOperation, g)
           else do {
             g \<leftarrow> (if t then link_first g n else Some g);
             x \<leftarrow> gload g r;
             Some (if nmeta x = 0 then 0 else econv C (gcs g) (nmeta x), g) } } } })"

text \<open>The first node of the global list is taken out by hand.\<close>

definition remove_node :: "gstate \<Rightarrow> ptr \<Rightarrow> gstate option" where
  "remove_node g b = do {
     g \<leftarrow> (if b = groot g
        then do { x \<leftarrow> gload g b; h \<leftarrow> set_next (nodes (nst (gcs g))) b 0; Some ((set_heap g h)\<lparr>groot := nnext x\<rparr>) }
        else map_option (\<lambda>(_, h). set_heap g h) (mpt_node_unlink (nodes (nst (gcs g))) b));
     (_, st) \<leftarrow> mpt_node_destroy (nst (gcs g)) b;
     Some (g\<lparr>gcs := (gcs g)\<lparr>nst := st\<rparr>\<rparr>) }"

definition remove_below :: "gstate \<Rightarrow> ptr \<Rightarrow> nat \<Rightarrow> path \<Rightarrow> (int \<times> gstate) option" where
  "remove_below g b a p = do {
     (n, q) \<leftarrow> gquery g a b p;
     if n = 0 \<or> plen q \<noteq> 0 then Some (0, g)
     else do { g \<leftarrow> remove_node g n; Some (1, g) } }"

definition configRemove :: "ptr \<Rightarrow> gstate \<Rightarrow> configRoot \<Rightarrow> (path \<times> nat) option \<Rightarrow> (int \<times> gstate) option" where
  "configRemove loc g c path =
     (if groot g = 0 then Some (BadOperation, g)
      else if plen (cbase c) \<noteq> 0 then do {
        (b, q) \<leftarrow> gquery g (caddr c) (groot g) (cbase c);
        if b = 0 \<or> plen q \<noteq> 0 then Some (0, g)
        else do {
          x \<leftarrow> gload g b;
          case path of
            None \<Rightarrow>
              (if nmeta x = 0 then Some (0, g)
               else do {
                 let st = unref (nst (gcs g)) (nmeta x);
                 h \<leftarrow> upd (nodes st) b (\<lambda>x. x\<lparr>nmeta := 0\<rparr>);
                 Some (0, set_heap (g\<lparr>gcs := (gcs g)\<lparr>nst := st\<rparr>\<rparr>) h) })
          | Some (p, a) \<Rightarrow>
              (if plen p = 0 then do { st \<leftarrow> mpt_node_clear (nst (gcs g)) b; Some (0, g\<lparr>gcs := (gcs g)\<lparr>nst := st\<rparr>\<rparr>) }
               else remove_below g (nchildren x) a p) } }
      else (case path of
          None \<Rightarrow> Some (BadOperation, g)
        | Some (p, a) \<Rightarrow>
            if plen p = 0 then do { g \<leftarrow> clear_global loc g; Some (0, g) } else remove_below g (groot g) a p))"

text \<open>The elements of a collection are handed to a handler with a state until it returns an error.\<close>

partial_function (option) collectionEach :: "('s \<Rightarrow> node \<Rightarrow> int \<times> 's) \<Rightarrow> heap \<Rightarrow> ptr \<Rightarrow> 's \<Rightarrow> (int \<times> 's) option" where
  "collectionEach handler h n s =
     (if n = 0 then Some (0, s)
      else do {
        x \<leftarrow> load h n;
        let (r, s) = handler s x;
        if r < 0 then Some (r, s) else collectionEach handler h (nnext x) s })"

datatype conv_result = Formats "int list" | ConfigItf | NodeRef ptr

definition configConv :: "cenv \<Rightarrow> gstate \<Rightarrow> configRoot \<Rightarrow> int \<Rightarrow> bool \<Rightarrow> (int \<times> conv_result option \<times> gstate) option" where
  "configConv C g c type ptr =
     (if type = 0 then Some (if ptr then (0, Some (Formats [TypeConfigPtr, TypeNodePtr, 0]), g) else (TypeConfigPtr, None, g))
      else if type = TypeConfigPtr then Some (TypeNodePtr, if ptr then Some ConfigItf else None, g)
      else if type = TypeNodePtr then
        (if plen (cbase c) = 0 then Some (BadValue, None, g)
         else if ptr then do { (n, g) \<leftarrow> make_global C g (caddr c) (cbase c); Some (TypeConfigPtr, Some (NodeRef n), g) }
         else Some (TypeConfigPtr, None, g))
      else Some (BadType, None, g))"

text \<open>A new configuration has a copy of the bytes of its base behind its structure; \<open>new\<close> is the address from
  the allocator.  The static instance is delivered without a path.\<close>

datatype created = Top | Null | New nat

definition mpt_config_global :: "nat \<Rightarrow> gstate \<Rightarrow> path option \<Rightarrow> (created \<times> gstate) option" where
  "mpt_config_global new g path = (case path of
     None \<Rightarrow> Some (Top, g)
   | Some p \<Rightarrow>
       if plen p = 0 \<or> new = 0 then Some (Null, g)
       else do {
         b \<leftarrow> pbase p;
         d \<leftarrow> rd b (poff p) (plen p);
         Some (New new, g\<lparr>gobjs := (gobjs g)(new \<mapsto>
           \<lparr>cbase = p\<lparr>pbase := Some d, pused := 0, poff := 0, pflags := pflags p AND NOT HasArray\<rparr>, caddr = new + 48\<rparr>)\<rparr>) })"

definition configClone :: "nat \<Rightarrow> gstate \<Rightarrow> configRoot \<Rightarrow> (created \<times> gstate) option" where
  "configClone new g c = mpt_config_global new g (Some (cbase c))"

definition configUnref :: "gstate \<Rightarrow> nat \<Rightarrow> gstate option" where
  "configUnref g c = (case gobjs g c of None \<Rightarrow> None | Some _ \<Rightarrow> Some (g\<lparr>gobjs := (gobjs g)(c := None)\<rparr>))"


section \<open>Forests of values\<close>

text \<open>The configuration as its clients see it: elements with a name, an optional value and elements below.
  Paths lead through the first element with each name.\<close>

datatype vtree = VT (vname: block) (vval: "block option") (vsub: "vtree list")

fun vlookup :: "block list \<Rightarrow> vtree list \<Rightarrow> vtree option" where
  "vlookup [] ts = None"
| "vlookup (e # es) ts = (case List.find (\<lambda>t. vname t = e) ts of None \<Rightarrow> None
     | Some t \<Rightarrow> if es = [] then Some t else vlookup es (vsub t))"

fun chain :: "block list \<Rightarrow> block \<Rightarrow> vtree list" where
  "chain [] w = []"
| "chain (e # es) w = [VT e (if es = [] then Some w else None) (chain es w)]"

fun vassign :: "block list \<Rightarrow> block \<Rightarrow> vtree list \<Rightarrow> vtree list" where
  "vassign [] w ts = ts"
| "vassign (e # es) w [] = chain (e # es) w"
| "vassign (e # es) w (t # ts) =
     (if vname t = e
      then VT e (if es = [] then Some w else vval t) (vassign es w (vsub t)) # ts
      else t # vassign (e # es) w ts)"

text \<open>The value at a path: absent where there is no element, an absent value where the element has none.\<close>

definition value_at :: "block list \<Rightarrow> vtree list \<Rightarrow> block option option" where
  "value_at es ts = map_option vval (vlookup es ts)"

text \<open>The proper prefixes of a path.\<close>

fun before :: "'a list \<Rightarrow> 'a list \<Rightarrow> bool" where
  "before es [] \<longleftrightarrow> False"
| "before [] (f # fs) \<longleftrightarrow> True"
| "before (e # es) (f # fs) \<longleftrightarrow> e = f \<and> before es fs"

lemma before_Nil [simp]: "before [] fs \<longleftrightarrow> fs \<noteq> []"
  by (cases fs) auto

lemma vlookup_chain:
  "es \<noteq> [] \<Longrightarrow> map_option vval (vlookup es (chain fs w)) =
     (if es = fs then Some (Some w) else if before es fs then Some None else None)"
proof (induction fs arbitrary: es)
  case (Cons f fs)
  obtain e es' where es: "es = e # es'" using Cons.prems by (cases es) auto
  show ?case
  proof (cases "es' = []")
    case True
    then show ?thesis using es by (cases fs) auto
  next
    case False
    then show ?thesis using Cons.IH [of es'] es by (cases fs) auto
  qed
next
  case Nil
  then show ?case by (cases es) simp_all
qed

text \<open>The law of lookup behind an assignment.\<close>

lemma value_at_assign:
  "es \<noteq> [] \<Longrightarrow> fs \<noteq> [] \<Longrightarrow> value_at es (vassign fs w ts) =
     (if es = fs then Some (Some w)
      else if value_at es ts = None \<and> before es fs then Some None else value_at es ts)"
proof (induction fs w ts arbitrary: es rule: vassign.induct)
  case (2 f fs w)
  then obtain e es' where es: "es = e # es'" by (cases es) auto
  have "value_at es [] = None" by (simp add: value_at_def es)
  moreover have "value_at es (vassign (f # fs) w []) = map_option vval (vlookup es (chain (f # fs) w))" by (simp add: value_at_def)
  ultimately show ?case using vlookup_chain [of es "f # fs" w] 2(1) by simp
next
  case (3 f fs w t ts)
  obtain e es' where es: "es = e # es'" using "3.prems" by (cases es) auto
  show ?case
  proof (cases "vname t = f")
    case True
    show ?thesis
    proof (cases "e = f")
      case ef: True
      show ?thesis
      proof (cases "es' = [] \<or> fs = []")
        case True
        then show ?thesis using ef \<open>vname t = f\<close> es by (cases fs; cases es') (auto simp: value_at_def)
      next
        case False
        then show ?thesis using "3.IH"(1) [OF \<open>vname t = f\<close>, of es'] ef \<open>vname t = f\<close> es by (auto simp: value_at_def)
      qed
    next
      case False
      then show ?thesis using True es by (auto simp: value_at_def)
    qed
  next
    case False
    show ?thesis
    proof (cases "vname t = e")
      case True
      then show ?thesis using False es by (auto simp: value_at_def)
    next
      case ne: False
      have IH: "value_at (e # es') (vassign (f # fs) w ts) = (if e # es' = f # fs then Some (Some w)
          else if value_at (e # es') ts = None \<and> before (e # es') (f # fs) then Some None else value_at (e # es') ts)"
        by (rule "3.IH"(2) [OF False]) simp_all
      have c: "value_at (e # es') (t # us) = value_at (e # es') us" for us using ne by (simp add: value_at_def)
      show ?thesis unfolding es vassign.simps if_not_P [OF False] c by (rule IH)
    qed
  qed
qed simp

section \<open>Nodes of a forest\<close>

fun vrep :: "cstate \<Rightarrow> ntree list \<Rightarrow> vtree list \<Rightarrow> bool" where
  "vrep c [] [] = True"
| "vrep c (NT p us # vs) (VT x v ss # ts) \<longleftrightarrow> node_is c p x v \<and> vrep c us ss \<and> vrep c vs ts"
| "vrep c _ _ = False"

lemma vrep_length: "vrep c us ts \<Longrightarrow> length us = length ts"
  by (induction c us ts rule: vrep.induct) auto

lemma vrep_Nil [simp]: "vrep c us [] \<longleftrightarrow> us = []" "vrep c [] ts \<longleftrightarrow> ts = []"
  by (cases us rule: addrs.cases; simp) (cases ts; simp)

lemma vrep_Cons: "vrep c (NT p us # vs) (t # ts) \<longleftrightarrow> node_is c p (vname t) (vval t) \<and> vrep c us (vsub t) \<and> vrep c vs ts"
  by (cases t) simp

lemma vrep_append: "length us = length ts \<Longrightarrow> vrep c (us @ vs) (ts @ rs) \<longleftrightarrow> vrep c us ts \<and> vrep c vs rs"
proof (induction us ts rule: list_induct2)
  case (Cons u us t ts)
  then show ?case by (cases u) (simp add: vrep_Cons)
qed simp

text \<open>A path ends at a node with children \<open>ks\<close>, which stands for \<open>t\<close>, with the elements \<open>r\<close> left; the functions
  put other children, or another tree, in this place.\<close>

inductive reach :: "ntree list \<Rightarrow> vtree list \<Rightarrow> block list \<Rightarrow> ptr \<Rightarrow> ntree list \<Rightarrow> vtree \<Rightarrow> block list \<Rightarrow>
    (ntree list \<Rightarrow> ntree list) \<Rightarrow> (vtree \<Rightarrow> vtree list) \<Rightarrow> bool" where
  here: "length xs = length vs \<Longrightarrow> \<forall>v \<in> set vs. vname v \<noteq> vname t \<Longrightarrow>
    reach (xs @ NT q ks # ys) (vs @ t # ws) (vname t # r) q ks t r (\<lambda>k. xs @ NT q k # ys) (\<lambda>u. vs @ u # ws)"
| below: "length xs = length vs \<Longrightarrow> \<forall>v \<in> set vs. vname v \<noteq> vname x \<Longrightarrow> reach us (vsub x) es q ks t r F G \<Longrightarrow>
    reach (xs @ NT p us # ys) (vs @ x # ws) (vname x # es) q ks t r (\<lambda>k. xs @ NT p (F k) # ys)
      (\<lambda>u. vs @ VT (vname x) (vval x) (G u) # ws)"

lemma find_skip: "\<forall>v \<in> set vs. vname v \<noteq> e \<Longrightarrow> List.find (\<lambda>t. vname t = e) (vs @ ts) = List.find (\<lambda>t. vname t = e) ts"
  by (induction vs) auto

lemma vassign_skip: "\<forall>v \<in> set vs. vname v \<noteq> e \<Longrightarrow> vassign (e # es) w (vs @ ts) = vs @ vassign (e # es) w ts"
  by (induction vs) auto

lemma vassign_chain: "r \<noteq> [] \<Longrightarrow> List.find (\<lambda>t. vname t = hd r) ts = None \<Longrightarrow> vassign r w ts = ts @ chain r w"
  by (induction r w ts rule: vassign.induct) (auto split: if_splits)

lemma reach_nonempty: "reach us ts es q ks t r F G \<Longrightarrow> es \<noteq> []"
  by (cases rule: reach.cases) auto

lemma reach_assign:
  "reach us ts es q ks t r F G \<Longrightarrow> vassign es w ts = G (VT (vname t) (if r = [] then Some w else vval t) (vassign r w (vsub t)))"
proof (induction rule: reach.induct)
  case (below xs vs x us es q ks t r F G p ys ws)
  then show ?case using reach_nonempty [OF below(3)] by (simp add: vassign_skip)
qed (simp add: vassign_skip)

lemma reach_rest: "reach us ts es q ks t r F G \<Longrightarrow> length r \<le> length es \<and> set r \<subseteq> set es"
  by (induction rule: reach.induct) auto

lemma reach_lookup:
  "reach us ts es q ks t r F G \<Longrightarrow> vlookup es ts = (if r = [] then Some t else vlookup r (vsub t))"
proof (induction rule: reach.induct)
  case (below xs vs x us es q ks t r F G p ys ws)
  then show ?case using reach_nonempty [OF below(3)] by (simp add: find_skip)
qed (simp add: find_skip)

lemma vlookup_none: "r \<noteq> [] \<Longrightarrow> List.find (\<lambda>t. vname t = hd r) ts = None \<Longrightarrow> vlookup r ts = None"
  by (cases r) auto


section \<open>Changes at one node\<close>

text \<open>The children of a node of a list are replaced.\<close>

lemma replace_ok:
  assumes "sibs h par (xs @ NT q ks # ys)"
    and old: "\<And>a. h a \<noteq> None \<Longrightarrow> a \<noteq> q \<Longrightarrow> a \<notin> set (addrs ks) \<Longrightarrow> h' a = h a"
    and q: "h q = Some n" "h' q = Some (n\<lparr>nchildren := first ks' 0, nmeta := m\<rparr>)"
    and ks: "sibs h' q ks'" "set (addrs ks') \<inter> (dom h - set (addrs ks)) = {}"
  shows "sibs h' par (xs @ NT q ks' # ys)"
proof -
  note P = sibs_parts [OF assms(1)]
  have n: "nparent n = par" "nprev n = final 0 xs" "nnext n = first ys 0" using P(5) q(1) by auto
  have out: "a \<noteq> q \<and> a \<notin> set (addrs ks) \<and> h a \<noteq> None" if "a \<in> set (addrs xs) \<or> a \<in> set (addrs ys)" for a
    using that P(9,11,12,14) repr_dom [OF P(1)] repr_dom [OF P(4)] by blast
  have same: "h' a = h a" if "a \<in> set (addrs xs) \<or> a \<in> set (addrs ys)" for a
    using old out [OF that] by blast
  have new: "a \<notin> set (addrs ks')" if "a \<in> set (addrs xs) \<or> a \<in> set (addrs ys)" for a
    using ks(2) out [OF that] by blast
  have k: "repr h' q 0 ks' 0" "distinct (addrs ks')" "q \<notin> set (addrs ks')" using ks(1) P(2) by (simp_all add: sibs_def)
  have "repr h' par 0 xs q \<longleftrightarrow> repr h par 0 xs q" by (rule repr_frame) (simp add: same)
  moreover have "repr h' par q ys 0 \<longleftrightarrow> repr h par q ys 0" by (rule repr_frame) (simp add: same)
  ultimately have "repr h' par 0 (xs @ NT q ks' # ys) 0" using P(1,2,4) k(1) q(2) n by simp
  moreover have "distinct (addrs (xs @ NT q ks' # ys))"
  proof -
    have "set (addrs xs) \<inter> set (q # addrs ks' @ addrs ys) = {}" using P(9,13) new by auto
    moreover have "set (addrs ks') \<inter> set (addrs ys) = {}" using new by blast
    ultimately show ?thesis using P(6,8,11) k(2,3) by simp
  qed
  moreover have "par \<noteq> 0 \<Longrightarrow> par \<notin> set (addrs (xs @ NT q ks' # ys)) \<and> (\<exists>x. h' par = Some x \<and> nchildren x = first xs q)"
  proof -
    assume "par \<noteq> 0"
    note p = P(15) [OF this]
    then obtain x where x: "h par = Some x" "nchildren x = first xs q" by blast
    have np: "par \<noteq> q" "par \<notin> set (addrs ks)" "par \<notin> set (addrs xs)" "par \<notin> set (addrs ys)" using p by simp_all
    then have "h' par = h par" using old [of par] x by simp
    moreover have "par \<notin> set (addrs ks')" using ks(2) x(1) np(2) by blast
    ultimately show ?thesis using np x by simp
  qed
  ultimately show ?thesis unfolding sibs_def by (cases "par = 0") auto
qed

lemma reach_parts:
  assumes "reach us ts es q ks t r F G"
  shows "sibs (nodes (nst c)) par us \<Longrightarrow> vrep c us ts \<Longrightarrow> q \<noteq> 0 \<and> sibs (nodes (nst c)) q ks \<and> node_is c q (vname t) (vval t) \<and>
    vrep c ks (vsub t) \<and> q \<in> set (addrs us) \<and> set (addrs ks) \<subseteq> set (addrs us) \<and>
    (\<forall>k. set (addrs (F k)) \<subseteq> set (addrs us) \<union> set (addrs k)) \<and> (\<forall>k. first (F k) 0 = first us 0)"
  using assms
proof (induction arbitrary: par rule: reach.induct)
  case (here xs vs t q ks ys ws r)
  note P = sibs_parts [OF here(3)]
  have "sibs (nodes (nst c)) q ks" using P(2,3,5,7,10) by (auto simp: sibs_def)
  moreover have "node_is c q (vname t) (vval t)" "vrep c ks (vsub t)" using here(1,4) by (simp_all add: vrep_append vrep_Cons)
  ultimately show ?case using P(2) by auto
next
  case (below xs vs x us es q ks t r F G p ys ws)
  note P = sibs_parts [OF below(5)]
  have s: "sibs (nodes (nst c)) p us" using P(2,3,5,7,10) by (auto simp: sibs_def)
  have v: "vrep c us (vsub x)" using below(1,6) by (simp add: vrep_append vrep_Cons)
  note I = below.IH [OF s v]
  have "set (addrs us) \<subseteq> set (addrs (xs @ NT p us # ys))" by auto
  moreover have "set (addrs (xs @ NT p (F k) # ys)) \<subseteq> set (addrs (xs @ NT p us # ys)) \<union> set (addrs k)" for k
  proof -
    have "set (addrs (F k)) \<subseteq> set (addrs us) \<union> set (addrs k)" using I by blast
    then show ?thesis by auto
  qed
  moreover have "first (xs @ NT p (F k) # ys) 0 = first (xs @ NT p us # ys) 0" for k by simp
  ultimately show ?case using I by blast
qed

lemma vrep_mono:
  assumes "vrep c us ts"
    and "\<And>p n. p \<in> set (addrs us) \<Longrightarrow> nodes (nst c) p = Some n \<Longrightarrow>
      \<exists>n'. nodes (nst c') p = Some n' \<and> nident n' = nident n \<and> nmeta n' = nmeta n"
    and "blocks (nst c) \<subseteq>\<^sub>m blocks (nst c')" "minfos (mst c) \<subseteq>\<^sub>m minfos (mst c')"
  shows "vrep c' us ts"
  using assms
proof (induction c us ts rule: vrep.induct)
  case (2 c p us vs x v ss ts)
  then have i: "node_is c p x v" by simp
  then obtain n where n: "nodes (nst c) p = Some n" by (auto simp: node_is_def split: option.splits)
  then obtain n' where "nodes (nst c') p = Some n'" "nident n' = nident n" "nmeta n' = nmeta n"
    using "2.prems"(2) [of p n] by auto
  then have "node_is c' p x v" using node_is_mono [OF i n _ _ _ "2.prems"(3,4)] by blast
  then show ?case using 2 by auto
qed auto

lemma reach_put:
  assumes "reach us ts es q ks t r F G"
    and old: "\<And>a. nodes (nst c) a \<noteq> None \<Longrightarrow> a \<noteq> q \<Longrightarrow> a \<notin> set (addrs ks) \<Longrightarrow> nodes (nst c') a = nodes (nst c) a"
    and q: "nodes (nst c) q = Some n" "nodes (nst c') q = Some (n\<lparr>nchildren := first ks' 0, nmeta := m\<rparr>)"
    and ks: "sibs (nodes (nst c')) q ks'" "set (addrs ks') \<inter> (dom (nodes (nst c)) - set (addrs ks)) = {}"
    and new: "vrep c' [NT q ks'] [t']"
    and mono: "blocks (nst c) \<subseteq>\<^sub>m blocks (nst c')" "minfos (mst c) \<subseteq>\<^sub>m minfos (mst c')"
  shows "sibs (nodes (nst c)) par us \<Longrightarrow> vrep c us ts \<Longrightarrow> sibs (nodes (nst c')) par (F ks') \<and> vrep c' (F ks') (G t')"
  using assms
proof (induction arbitrary: par rule: reach.induct)
  case (here xs vs t q ks ys ws r)
  note P = sibs_parts [OF here(3)]
  have same: "\<exists>n'. nodes (nst c') a = Some n' \<and> nident n' = nident x \<and> nmeta n' = nmeta x"
    if "a \<in> set (addrs xs) \<or> a \<in> set (addrs ys)" "nodes (nst c) a = Some x" for a x
  proof -
    have "a \<noteq> q" "a \<notin> set (addrs ks)" using that(1) P(9,11,12,14) by blast+
    then have "nodes (nst c') a = Some x" using here(5) [of a] that(2) by simp
    then show ?thesis by blast
  qed
  have v: "vrep c xs vs" "vrep c ys ws" using here(1,4) by (simp_all add: vrep_append vrep_Cons)
  have "vrep c' xs vs" "vrep c' ys ws"
    by (rule vrep_mono [OF v(1) _ mono], use same in blast) (rule vrep_mono [OF v(2) _ mono], use same in blast)
  moreover have "vrep c' (NT q ks' # ys) (t' # ws)" using here(10) calculation by (cases t') simp
  ultimately have "vrep c' (xs @ NT q ks' # ys) (vs @ t' # ws)" using here(1) by (simp add: vrep_append)
  moreover have "sibs (nodes (nst c')) par (xs @ NT q ks' # ys)"
    by (rule replace_ok [OF here(3) here(5) here(6,7) here(8,9)])
  ultimately show ?case by simp
next
  case (below xs vs x us es q ks t r F G p ys ws)
  note P = sibs_parts [OF below(5)]
  have s: "sibs (nodes (nst c)) p us" using P(2,3,5,7,10) by (auto simp: sibs_def)
  have v: "node_is c p (vname x) (vval x)" "vrep c us (vsub x)" "vrep c xs vs" "vrep c ys ws"
    using below(1,6) by (simp_all add: vrep_append vrep_Cons)
  note R = reach_parts [OF below(3) s v(2)]
  note I = below.IH [OF s v(2) below(7-12) mono]
  have keep: "nodes (nst c') a = nodes (nst c) a" if "nodes (nst c) a \<noteq> None" "a \<notin> set (addrs us)" for a
    using below(7) [OF that(1)] that(2) R by blast
  have same: "\<exists>n'. nodes (nst c') a = Some n' \<and> nident n' = nident x \<and> nmeta n' = nmeta x"
    if "a \<in> set (addrs xs) \<or> a \<in> set (addrs ys)" "nodes (nst c) a = Some x" for a x
  proof -
    have "a \<notin> set (addrs us)" using that(1) P(12,14) by blast
    then show ?thesis using keep [of a] that(2) by auto
  qed
  obtain y where y: "nodes (nst c) p = Some y" "nchildren y = first us 0" using P(5) by auto
  have yp: "nodes (nst c') p = Some y" using keep [of p] y(1) P(10) by simp
  have y': "nodes (nst c') p = Some (y\<lparr>nchildren := first (F ks') 0, nmeta := nmeta y\<rparr>)"
    using yp y(2) R by simp
  have d: "set (addrs (F ks')) \<inter> (dom (nodes (nst c)) - set (addrs us)) = {}"
  proof -
    have "set (addrs (F ks')) \<subseteq> set (addrs us) \<union> set (addrs ks')" "set (addrs ks) \<subseteq> set (addrs us)" using R by blast+
    then show ?thesis using below(11) by blast
  qed
  have "sibs (nodes (nst c')) par (xs @ NT p (F ks') # ys)"
    by (rule replace_ok [where h = "nodes (nst c)" and q = p and ks = us and n = y and m = "nmeta y"])
      (use below(5) keep I y(1) y' d in \<open>simp_all only: simp_thms\<close>)
  moreover have "vrep c' xs vs" "vrep c' ys ws"
    by (rule vrep_mono [OF v(3) _ mono], use same in blast) (rule vrep_mono [OF v(4) _ mono], use same in blast)
  moreover have "node_is c' p (vname x) (vval x)" using node_is_mono [OF v(1) y(1) yp refl refl mono] .
  ultimately show ?case using below(1) I by (simp add: vrep_append)
qed


section \<open>Following a path\<close>

lemma locate_v:
  fixes a :: nat
  assumes "repr (nodes (nst c)) par pv us 0" "vrep c us ts" "us \<noteq> []" "l \<le> length s" "take l s = x"
  defines "mt \<equiv> node_match (blocks (nst c)) False a s l (l + 1) 1"
  shows "case List.find (\<lambda>t. vname t = x) ts of None \<Rightarrow> locate_fwd mt (nodes (nst c)) (first us 0) 1 = Some 0
    | Some t \<Rightarrow> \<exists>xs p ks ys vs ws. us = xs @ NT p ks # ys \<and> ts = vs @ t # ws \<and> length xs = length vs \<and>
        (\<forall>v \<in> set vs. vname v \<noteq> x) \<and> vname t = x \<and> locate_fwd mt (nodes (nst c)) (first us 0) 1 = Some p"
  using assms(1-3)
proof (induction us arbitrary: ts pv)
  case (Cons u us)
  obtain p ks where u: "u = NT p ks" by (cases u)
  then obtain t ts' where ts: "ts = t # ts'" using Cons.prems(2) by (cases ts) auto
  have r: "node_is c p (vname t) (vval t)" "vrep c us ts'" using Cons.prems(2) u ts by (simp_all add: vrep_Cons)
  from Cons.prems(1) u obtain n where n: "p \<noteq> 0" "nodes (nst c) p = Some n" "nnext n = first us 0"
    "repr (nodes (nst c)) par p us 0" by (auto split: option.splits)
  from node_is_named [OF r(1), of x] n(2) have
    w: "wf_ident (blocks (nst c)) (nident n)" "named (blocks (nst c)) x n \<longleftrightarrow> vname t = x" by auto
  have m: "mt n = Some (vname t = x)" using node_match_named [OF w(1) assms(4), of False a] w(2) assms(5) by (simp add: mt_def)
  show ?case
  proof (cases "vname t = x")
    case True
    then have "locate_fwd mt (nodes (nst c)) p 1 = Some p" using n(1,2) m by (subst locate_fwd.simps) (simp add: load_def)
    then have "u # us = [] @ NT p ks # us \<and> ts = [] @ t # ts' \<and> locate_fwd mt (nodes (nst c)) (first (u # us) 0) 1 = Some p"
      using u ts by simp
    moreover have "List.find (\<lambda>t. vname t = x) ts = Some t" using True ts by simp
    ultimately show ?thesis using True by fastforce
  next
    case False
    show ?thesis
    proof (cases "us = []")
      case True
      then have "ts' = []" using r(2) by simp
      moreover have "locate_fwd mt (nodes (nst c)) p 1 = Some 0" using n(1-3) m False True by (subst locate_fwd.simps) (simp add: load_def)
      ultimately show ?thesis using u ts False by simp
    next
      case ne: False
      have "first us 0 \<noteq> 0" using n(4) ne by (cases us rule: addrs.cases) auto
      then have "locate_fwd mt (nodes (nst c)) p 1 = locate_fwd mt (nodes (nst c)) (first us 0) 1"
        using n(1-3) m False by (subst locate_fwd.simps) (simp add: load_def)
      then have le: "locate_fwd mt (nodes (nst c)) (first (u # us) 0) 1 = locate_fwd mt (nodes (nst c)) (first us 0) 1"
        unfolding u first_simps .
      have fi: "List.find (\<lambda>t. vname t = x) ts = List.find (\<lambda>t. vname t = x) ts'" using False ts by simp
      show ?thesis
      proof (cases "List.find (\<lambda>t. vname t = x) ts'")
        case None
        then show ?thesis using Cons.IH [OF n(4) r(2) ne] unfolding le fi by simp
      next
        case (Some t')
        then obtain xs q ks' ys vs ws where h: "us = xs @ NT q ks' # ys" "ts' = vs @ t' # ws" "length xs = length vs"
          "\<forall>v \<in> set vs. vname v \<noteq> x" "vname t' = x" "locate_fwd mt (nodes (nst c)) (first us 0) 1 = Some q"
          using Cons.IH [OF n(4) r(2) ne] by auto
        have "u # us = (u # xs) @ NT q ks' # ys" "ts = (t # vs) @ t' # ws" "length (u # xs) = length (t # vs)"
          "\<forall>v \<in> set (t # vs). vname v \<noteq> x" using h ts False by simp_all
        then show ?thesis unfolding le fi Some option.case using h(5,6) by blast
      qed
    qed
  qed
qed simp

lemma query_reach:
  assumes "path_text p b y" "sibs (nodes (nst c)) par us" "vrep c us ts" "us \<noteq> []" "a \<noteq> 0"
  shows "\<exists>q p'. query_loop (blocks (nst c)) (nodes (nst c)) a (first us 0) pre (poff p) (plen p) p = Some (q, p') \<and>
    (q = pre \<and> rest_ok p' b (psep p) (split_on (psep p) y) \<and> List.find (\<lambda>t. vname t = hd (split_on (psep p) y)) ts = None \<or>
     (\<exists>ks t r F G. reach us ts (split_on (psep p) y) q ks t r F G \<and> rest_ok p' b (psep p) r \<and>
       (r = [] \<or> List.find (\<lambda>t. vname t = hd r) (vsub t) = None)))"
  using assms(1-4)
proof (induction "length y" arbitrary: p y par us ts pre rule: less_induct)
  case less
  let ?es = "split_on (psep p) y"
  let ?e = "hd ?es" and ?h = "nodes (nst c)" and ?m = "blocks (nst c)"
  let ?q = "p\<lparr>pfirst := 0, poff := poff p + (length ?e + 1), plen := length y - length ?e\<rparr>"
  note nx = next_ok [OF less.prems(1)]
  have t: "pbase p = Some b" "poff p + length y \<le> length b" "plen p = length y + 1" using less.prems(1) by (simp_all add: path_text_def)
  have e: "length ?e \<le> length y" by (simp add: hd_split length_takeWhile_le)
  have l: "length ?e \<le> length (drop (poff p) b)" using t(2) e by simp
  have x: "take (length ?e) (drop (poff p) b) = ?e" using rd_element [OF less.prems(1) refl] by (auto simp: rd_def split: if_splits)
  have rp: "repr ?h par 0 us 0" using less.prems(2) by (simp add: sibs_def)
  have f0: "first us 0 \<noteq> 0" using rp less.prems(4) by (cases us rule: addrs.cases) auto
  let ?loc = "locate_fwd (node_match ?m False (a + poff p) (drop (poff p) b) (length ?e) (length ?e + 1) 1) ?h (first us 0) 1"
  have loc: "mpt_node_locate ?m ?h (first us 0) 1 (a + poff p) (drop (poff p) b) (length ?e) (- 1) = ?loc"
    using f0 assms(5) by (simp add: mpt_node_locate_def)
  note L = locate_v [OF rp less.prems(3,4) l x, of "a + poff p"]
  show ?case
  proof (cases "List.find (\<lambda>t. vname t = ?e) ts")
    case None
    then have "?loc = Some 0" using L by simp
    then have "query_loop ?m ?h a (first us 0) pre (poff p) (plen p) p = Some (pre, ?q\<lparr>poff := poff p, plen := plen p\<rparr>)"
      using nx loc t by (subst query_loop.simps) simp
    moreover have "path_text (?q\<lparr>poff := poff p, plen := plen p\<rparr>) b y" using less.prems(1) by (simp add: path_text_def)
    then have "rest_ok (?q\<lparr>poff := poff p, plen := plen p\<rparr>) b (psep p) ?es" by (auto simp: rest_ok_def)
    ultimately show ?thesis using None by blast
  next
    case (Some tr)
    from L Some obtain xs q ks ys vs ws where d: "us = xs @ NT q ks # ys" "ts = vs @ tr # ws" "length xs = length vs"
      "\<forall>v \<in> set vs. vname v \<noteq> ?e" "vname tr = ?e" "?loc = Some q" by auto
    have dv: "\<forall>v \<in> set vs. vname v \<noteq> vname tr" using d(4,5) by simp
    note P = sibs_parts [OF less.prems(2) [unfolded d(1)]]
    obtain n where n: "?h q = Some n" "nchildren n = first ks 0" using P(5) by auto
    have s: "sibs ?h q ks" using P(2,3,5,7,10) by (auto simp: sibs_def)
    have v: "vrep c ks (vsub tr)" using less.prems(3) d(1-3) by (simp add: vrep_append vrep_Cons)
    have z: "first ks 0 = 0 \<longleftrightarrow> ks = []" using P(3) by (cases ks rule: addrs.cases) auto
    have step: "query_loop ?m ?h a (first us 0) pre (poff p) (plen p) p =
        (if ks = [] then Some (q, ?q) else query_loop ?m ?h a (first ks 0) q (poff ?q) (plen ?q) ?q)"
      using nx loc t d(6) P(2) n z by (subst query_loop.simps) (simp add: load_def)
    have here: "reach us ts (?e # r) q ks tr r (\<lambda>k. xs @ NT q k # ys) (\<lambda>u. vs @ u # ws)" for r
      using reach.here [OF d(3) dv, of q ks ys ws r] unfolding d(1,2,5) .
    have fin: ?thesis if "query_loop ?m ?h a (first us 0) pre (poff p) (plen p) p = Some (q, p')" "reach us ts ?es q ks t r F G"
      "rest_ok p' b (psep p) r" "r = [] \<or> List.find (\<lambda>t. vname t = hd r) (vsub t) = None" for q p' ks t r F G
      using that by blast
    show ?thesis
    proof (cases rule: split_cases [of "psep p" y])
      case 1
      then have es: "?es = [?e]" "length ?e = length y" by simp_all
      have "query_loop ?m ?h a (first us 0) pre (poff p) (plen p) p = Some (q, ?q)"
      proof (cases "ks = []")
        case False
        have "mpt_path_next ?q = Some (MissingData, ?q)" using es(2) by (simp add: mpt_path_next_def)
        then show ?thesis using step False by (subst (asm) (2) query_loop.simps) simp
      qed (use step in simp)
      moreover have "rest_ok ?q b (psep p) []" using es(2) by (simp add: rest_ok_def)
      moreover have "reach us ts ?es q ks tr [] (\<lambda>k. xs @ NT q k # ys) (\<lambda>u. vs @ u # ws)" using here [of "[]"] unfolding es(1) [symmetric] .
      ultimately show ?thesis by (intro fin [where r = "[]"]) simp_all
    next
      case (2 f r)
      have pr: "path_text ?q b r" using path_text_next [OF less.prems(1) 2(1,2)] 2 by simp
      have es: "?es = ?e # split_on (psep p) r" using 2 by simp
      show ?thesis
      proof (cases "ks = []")
        case True
        have "reach us ts ?es q ks tr (split_on (psep p) r) (\<lambda>k. xs @ NT q k # ys) (\<lambda>u. vs @ u # ws)"
          using here [of "split_on (psep p) r"] unfolding es [symmetric] .
        moreover have "rest_ok ?q b (psep p) (split_on (psep p) r)" using pr by (auto simp: rest_ok_def)
        moreover have "vsub tr = []" using v True by simp
        ultimately show ?thesis using step True by (intro fin [where r = "split_on (psep p) r" and t = tr]) simp_all
      next
        case False
        have "length r < length y" using 2(1) by simp
        have sp: "psep ?q = psep p" by simp
        from less.hyps [OF \<open>length r < length y\<close> pr s v False, of q, unfolded sp] obtain q' p' where
          r: "query_loop ?m ?h a (first ks 0) q (poff ?q) (plen ?q) ?q = Some (q', p')"
            "q' = q \<and> rest_ok p' b (psep p) (split_on (psep p) r) \<and> List.find (\<lambda>t. vname t = hd (split_on (psep p) r)) (vsub tr) = None \<or>
             (\<exists>ks' t r' F G. reach ks (vsub tr) (split_on (psep p) r) q' ks' t r' F G \<and> rest_ok p' b (psep p) r' \<and>
               (r' = [] \<or> List.find (\<lambda>t. vname t = hd r') (vsub t) = None))" by blast
        have ev: "vname tr # split_on (psep p) r = ?es" using es d(5) by simp
        from r(2) consider (top) "q' = q" "rest_ok p' b (psep p) (split_on (psep p) r)"
            "List.find (\<lambda>t. vname t = hd (split_on (psep p) r)) (vsub tr) = None"
          | (deep) ks' t r' F G where "reach ks (vsub tr) (split_on (psep p) r) q' ks' t r' F G" "rest_ok p' b (psep p) r'"
            "r' = [] \<or> List.find (\<lambda>t. vname t = hd r') (vsub t) = None"
        proof (rule disjE)
          assume "q' = q \<and> rest_ok p' b (psep p) (split_on (psep p) r) \<and> List.find (\<lambda>t. vname t = hd (split_on (psep p) r)) (vsub tr) = None"
          then show thesis using top by simp
        next
          assume "\<exists>ks' t r' F G. reach ks (vsub tr) (split_on (psep p) r) q' ks' t r' F G \<and> rest_ok p' b (psep p) r' \<and>
               (r' = [] \<or> List.find (\<lambda>t. vname t = hd r') (vsub t) = None)"
          then show thesis using deep by (elim exE conjE) assumption
        qed
        then show ?thesis
        proof cases
          case top
          then show ?thesis using r(1) step False here [of "split_on (psep p) r"] unfolding es [symmetric]
            by (intro fin [where r = "split_on (psep p) r" and t = tr]) simp_all
        next
          case R: deep
          have "reach us ts ?es q' ks' t r' (\<lambda>k. xs @ NT q (F k) # ys) (\<lambda>u. vs @ VT (vname tr) (vval tr) (G u) # ws)"
            using reach.below [OF d(3) dv R(1), of q ys ws] unfolding d(1,2) [symmetric] ev .
          then show ?thesis using r(1) step False R(2,3) by (intro fin [where r = r' and t = t]) simp_all
        qed
      qed
    qed
  qed
qed


section \<open>Query of the global configuration\<close>

definition config_rep :: "gstate \<Rightarrow> vtree list \<Rightarrow> bool" where
  "config_rep g ts \<longleftrightarrow> (\<exists>us. sibs (nodes (nst (gcs g))) 0 us \<and> groot g = first us 0 \<and> vrep (gcs g) us ts)"

text \<open>The metatype of a value.\<close>

definition value_is :: "cstate \<Rightarrow> ptr \<Rightarrow> block option \<Rightarrow> bool" where
  "value_is c mt v \<longleftrightarrow> (case v of None \<Rightarrow> mt = 0
     | Some w \<Rightarrow> mt \<noteq> 0 \<and> (case minfos (mst c) mt of None \<Rightarrow> False | Some i \<Rightarrow> holds_text i w))"

lemma rest_ok_len: "rest_ok p b sep r \<Longrightarrow> plen p = 0 \<longleftrightarrow> r = []"
  by (auto simp: rest_ok_def path_text_def split: if_splits)

lemma config_top_len [simp]: "plen (cbase config_top) = 0"
  by (simp add: config_top_def MPT_PATH_INIT_def)

lemma gquery_ok:
  assumes "sibs (nodes (nst (gcs g))) 0 us" "groot g = first us 0" "vrep (gcs g) us ts" "path_text p b y" "a \<noteq> 0"
  shows "\<exists>q p'. gquery g a (groot g) p = Some (q, p') \<and>
    (q = 0 \<and> rest_ok p' b (psep p) (split_on (psep p) y) \<and> List.find (\<lambda>t. vname t = hd (split_on (psep p) y)) ts = None \<or>
     (\<exists>ks t r F G. reach us ts (split_on (psep p) y) q ks t r F G \<and> rest_ok p' b (psep p) r \<and>
       (r = [] \<or> List.find (\<lambda>t. vname t = hd r) (vsub t) = None)))"
proof (cases "us = []")
  case True
  then have "ts = []" using assms(3) by simp
  moreover have "rest_ok p b (psep p) (split_on (psep p) y)" using assms(4) by (auto simp: rest_ok_def)
  ultimately show ?thesis using True assms(2) by (auto simp: gquery_def mpt_node_query_def)
next
  case False
  then have f0: "first us 0 \<noteq> 0" using assms(1) by (cases us rule: addrs.cases) (auto simp: sibs_def)
  have "plen p \<noteq> 0" using assms(4) by (simp add: path_text_def)
  then have "gquery g a (groot g) p =
      query_loop (blocks (nst (gcs g))) (nodes (nst (gcs g))) a (first us 0) 0 (poff p) (plen p) p"
    using f0 assms(2) by (simp add: gquery_def mpt_node_query_def)
  with query_reach [OF assms(4,1,3) False assms(5), of 0] show ?thesis by simp
qed

lemma config_query_ok:
  assumes "config_rep g ts" "path_text p b y" "a \<noteq> 0"
  shows "\<exists>mt n. configQuery g config_top (Some (p, a)) (Some f) =
      Some (case vlookup (split_on (psep p) y) ts of None \<Rightarrow> MissingData | Some t \<Rightarrow> f (Meta mt) n) \<and>
    (\<forall>t. vlookup (split_on (psep p) y) ts = Some t \<longrightarrow> value_is (gcs g) mt (vval t))"
proof -
  let ?es = "split_on (psep p) y"
  obtain us where us: "sibs (nodes (nst (gcs g))) 0 us" "groot g = first us 0" "vrep (gcs g) us ts"
    using assms(1) by (auto simp: config_rep_def)
  have pl: "plen p \<noteq> 0" using assms(2) by (simp add: path_text_def)
  from gquery_ok [OF us assms(2,3)] obtain q p' where q: "gquery g a (groot g) p = Some (q, p')"
    "q = 0 \<and> rest_ok p' b (psep p) ?es \<and> List.find (\<lambda>t. vname t = hd ?es) ts = None \<or>
     (\<exists>ks t r F G. reach us ts ?es q ks t r F G \<and> rest_ok p' b (psep p) r \<and>
       (r = [] \<or> List.find (\<lambda>t. vname t = hd r) (vsub t) = None))" by blast
  have miss: ?thesis if "q = 0 \<or> plen p' \<noteq> 0" "vlookup ?es ts = None"
    using that q(1) pl by (simp add: configQuery_def sub_query_def)
  from q(2) show ?thesis
  proof (rule disjE)
    assume "q = 0 \<and> rest_ok p' b (psep p) ?es \<and> List.find (\<lambda>t. vname t = hd ?es) ts = None"
    then show ?thesis using vlookup_none [of ?es ts] by (intro miss) simp_all
  next
    assume "\<exists>ks t r F G. reach us ts ?es q ks t r F G \<and> rest_ok p' b (psep p) r \<and>
       (r = [] \<or> List.find (\<lambda>t. vname t = hd r) (vsub t) = None)"
    then obtain ks t r F G where R: "reach us ts ?es q ks t r F G" "rest_ok p' b (psep p) r"
      "r = [] \<or> List.find (\<lambda>t. vname t = hd r) (vsub t) = None" by (elim exE conjE)
    show ?thesis
    proof (cases "r = []")
      case False
      then show ?thesis using R(3) rest_ok_len [OF R(2)] reach_lookup [OF R(1)] vlookup_none [of r "vsub t"]
        by (intro miss) simp_all
    next
      case True
      note P = reach_parts [OF R(1) us(1,3)]
      then obtain n where n: "nodes (nst (gcs g)) q = Some n" "value_is (gcs g) (nmeta n) (vval t)"
        by (auto simp: node_is_def value_is_def split: option.splits)
      have "vlookup ?es ts = Some t" using reach_lookup [OF R(1)] True by simp
      moreover have "gload g q = Some n" using P n(1) by (simp add: gload_def load_def)
      ultimately show ?thesis using q(1) pl n(2) P rest_ok_len [OF R(2)] True
        by (intro exI [of _ "nmeta n"] exI [of _ "nchildren n"]) (simp add: configQuery_def sub_query_def)
    qed
  qed
qed


section \<open>A chain of new nodes\<close>

lemma repr_meta: "h x = Some m \<Longrightarrow> repr (h(x \<mapsto> m\<lparr>nmeta := v\<rparr>)) par pv us nx \<longleftrightarrow> repr h par pv us nx"
  by (induction h par pv us nx rule: repr.induct) auto

lemma sibs_meta: "h x = Some m \<Longrightarrow> sibs (h(x \<mapsto> m\<lparr>nmeta := v\<rparr>)) par us \<longleftrightarrow> sibs h par us"
  by (auto simp: sibs_def repr_meta)

text \<open>A list of children and the place of its first node: a node, or the variable of the global list.\<close>

definition level :: "ptr \<Rightarrow> ptr option \<Rightarrow> ptr \<Rightarrow> ntree list \<Rightarrow> bool" where
  "level q slot var us \<longleftrightarrow> (if q = 0 then slot = None \<and> var = first us 0 else slot = Some q)"

definition end_of :: "ptr \<Rightarrow> ntree list \<Rightarrow> ptr" where
  "end_of q us = (if us = [] then q else root (last us))"

lemma level_first:
  assumes "sibs h q us" "level q slot var us"
  shows "slot_value h slot var = Some (first us 0)" "first us 0 = 0 \<longleftrightarrow> us = []"
proof -
  show "slot_value h slot var = Some (first us 0)"
    using assms by (auto simp: slot_value_def level_def sibs_def load_def split: if_splits option.splits)
  show "first us 0 = 0 \<longleftrightarrow> us = []" using assms(1) by (cases us rule: addrs.cases) (auto simp: sibs_def)
qed

lemma add_link_ok:
  assumes "sibs h q us" "level q slot var us" "h x = Some m" "nnext m = 0" "nprev m = 0" "nparent m = 0" "nchildren m = 0" "x \<noteq> 0"
    and "x \<noteq> q" "x \<notin> set (addrs us)"
  shows "\<exists>h'. (if first us 0 = 0 then do { h \<leftarrow> set_parent h x q; store_from h slot var x }
        else map_option (\<lambda>(_, h). (var, h)) (mpt_gnode_add h (first us 0) 0 x)) = Some (if q = 0 \<and> us = [] then x else var, h') \<and>
    sibs h' q (us @ [NT x []]) \<and> keeps (us = []) (end_of q us) (h(x := None)) h' \<and>
    (\<exists>m'. h' x = Some m' \<and> nident m' = nident m \<and> nmeta m' = nmeta m \<and> nchildren m' = 0) \<and> dom h' = dom h"
proof (cases "us = []")
  case True
  show ?thesis
  proof (cases "q = 0")
    case q: True
    let ?h = "h(x \<mapsto> m\<lparr>nparent := 0\<rparr>)"
    have "keeps True 0 (h(x := None)) ?h" by (auto simp: keeps_def chg_refl)
    moreover have "sibs ?h 0 [NT x []]" using assms by (simp add: sibs_def)
    ultimately show ?thesis using True q assms by (auto simp: upd_def load_def store_from_def level_def end_of_def)
  next
    case q: False
    from assms(1) True q obtain n where n: "h q = Some n" "nchildren n = 0" by (auto simp: sibs_def split: option.splits)
    let ?h = "h(x \<mapsto> m\<lparr>nparent := q\<rparr>, q \<mapsto> n\<lparr>nchildren := x\<rparr>)"
    have "keeps True q (h(x := None)) ?h" using n by (auto simp: keeps_def chg_def)
    moreover have "sibs ?h q [NT x []]" using assms q by (simp add: sibs_def)
    moreover have "store_from (h(x \<mapsto> m\<lparr>nparent := q\<rparr>)) slot var x = Some (var, ?h)"
      using n q assms(2,9) by (simp add: level_def store_from_def upd_def load_def)
    moreover have "dom ?h = dom h" using n(1) assms(3) by auto
    ultimately show ?thesis using True q assms by (simp add: upd_def load_def end_of_def)
  qed
next
  case False
  then obtain xs p cs where us: "us = xs @ [NT p cs]" using tree_list_end [of us] by auto
  have s2: "sibs h q (xs @ NT p cs # [])" using assms(1) us by simp
  note P = sibs_parts [OF s2]
  from P(5) obtain n where n: "h p = Some n" "nparent n = q" "nnext n = 0" by auto
  have px: "p \<noteq> x" using assms(10) us by auto
  have fu: "first us 0 \<noteq> 0" using level_first(2) [OF assms(1,2)] False by simp
  have la: "last_node h (first us 0) = Some p"
  proof -
    have "at us 0 = first us 0" "at us (length us - 1) = p" using us by (cases xs rule: addrs.cases; simp add: at_def nth_append)+
    then show ?thesis using last_node_at [OF assms(1), of 0] False by simp
  qed
  let ?h = "h(x \<mapsto> m\<lparr>nprev := p, nnext := 0, nparent := q\<rparr>, p \<mapsto> n\<lparr>nnext := x\<rparr>)"
  have a: "mpt_gnode_after h p x = Some (x, ?h)"
    using n P(2) px assms(3,8) by (simp add: mpt_gnode_after_def node_access fun_upd_twist)
  have "mpt_gnode_add h (first us 0) 0 x = Some (x, ?h)"
    using la a P(2) fu assms(8) by (simp add: mpt_gnode_add_def node_insert_def mpt_gnode_pos_def)
  moreover have "sibs ?h q (us @ [NT x []])"
  proof -
    have t: "sibs h 0 [NT x []]" using assms by (simp add: sibs_def)
    have "set (q # addrs (xs @ NT p cs # [])) \<inter> set (addrs [NT x []]) = {}" using assms(9,10) us by auto
    from after_ok [OF s2 t this] a us show ?thesis by auto
  qed
  moreover have "keeps False p (h(x := None)) ?h" using n px by (auto simp: keeps_def chg_def)
  moreover have "dom ?h = dom h" using n(1) assms(3) by auto
  ultimately show ?thesis using False fu px us assms(7) by (simp add: end_of_def)
qed


text \<open>One node more, with the name of the next element.\<close>

lemma assign_node_ok:
  assumes "env_ok e" "sibs (nodes st) q us" "level q slot var us" "q \<noteq> 0 \<longrightarrow> nodes st q \<noteq> None"
    and "finite (dom (nodes st))" "finite (dom (blocks st))" "card (dom (blocks st)) < 2 ^ 32" "length x < 65535"
  obtains nxt st1 st2 h m where "mpt_node_new e st (length x) = Some (nxt, st1)" "nxt \<noteq> 0" "nodes st nxt = None"
    "\<forall>d. take (length x) d = x \<longrightarrow> set_name e st1 nxt (Some d) (int (length x)) = Some (True, st2)"
    "slot_value (nodes st2) slot var = Some (first us 0)"
    "(if first us 0 = 0 then do { h \<leftarrow> set_parent (nodes st2) nxt q; store_from h slot var nxt }
        else map_option (\<lambda>(_, h). (var, h)) (mpt_gnode_add (nodes st2) (first us 0) 0 nxt)) = Some (if q = 0 \<and> us = [] then nxt else var, h)"
    "sibs h q (us @ [NT nxt []])" "keeps (us = []) (end_of q us) (nodes st) h" "dom h = insert nxt (dom (nodes st))"
    "h nxt = Some m" "nchildren m = 0" "nmeta m = 0" "wf_ident (blocks st2) (nident m)" "named (blocks st2) x m"
    "blocks st \<subseteq>\<^sub>m blocks st2" "finite (dom (blocks st2))" "card (dom (blocks st2)) \<le> card (dom (blocks st)) + 1" "unrefs st2 = unrefs st"
proof -
  from node_new_ok [OF assms(1,5), of "length x" "blocks st"] obtain k d0 where
    k: "mpt_node_new e st (length x) = Some (k, st\<lparr>nodes := (nodes st)(k \<mapsto> \<lparr>nmeta = 0, nnext = 0, nprev = 0, nparent = 0,
      nchildren = 0, nident = d0\<rparr>)\<rparr>)" "k \<noteq> 0" "nodes st k = None" "wf_ident (blocks st) d0" "Identifier.owned d0 = {}" by blast
  define n0 where "n0 = \<lparr>nmeta = 0, nnext = 0, nprev = 0, nparent = 0, nchildren = 0, nident = d0\<rparr>"
  let ?s1 = "st\<lparr>nodes := (nodes st)(k \<mapsto> n0)\<rparr>"
  have n1: "nodes ?s1 k = Some n0" "wf_ident (blocks ?s1) (nident n0)" "Identifier.owned (nident n0) = {}" "finite (dom (blocks ?s1))"
    "card (dom (blocks ?s1)) < 2 ^ 32" using k assms by (simp_all add: n0_def)
  from set_name_ok [OF assms(1) n1(1) k(2) n1(2-5) assms(8)] obtain d b where
    b: "set_name e ?s1 k (Some x) (int (length x)) = Some (True, ?s1\<lparr>nodes := (nodes ?s1)(k \<mapsto> n0\<lparr>nident := d\<rparr>), blocks := b\<rparr>)"
      "wf_ident b d" "named b x (n0\<lparr>nident := d\<rparr>)" "blocks st \<subseteq>\<^sub>m b" "finite (dom b)" "card (dom b) \<le> card (dom (blocks st)) + 1" by auto
  let ?h = "(nodes st)(k \<mapsto> n0\<lparr>nident := d\<rparr>)"
  define st2 where "st2 = ?s1\<lparr>nodes := (nodes ?s1)(k \<mapsto> n0\<lparr>nident := d\<rparr>), blocks := b\<rparr>"
  have kq: "k \<noteq> q" using assms(4) k(2,3) by auto
  have ku: "k \<notin> set (addrs us)" using assms(2) repr_nonnull k(3) unfolding sibs_def by metis
  have s: "sibs ?h q us" using assms(2) kq ku by (simp add: sibs_def)
  have hk: "?h k = Some (n0\<lparr>nident := d\<rparr>)" by simp
  have z: "nnext (n0\<lparr>nident := d\<rparr>) = 0" "nprev (n0\<lparr>nident := d\<rparr>) = 0" "nparent (n0\<lparr>nident := d\<rparr>) = 0"
    "nchildren (n0\<lparr>nident := d\<rparr>) = 0" "nident (n0\<lparr>nident := d\<rparr>) = d" "nmeta (n0\<lparr>nident := d\<rparr>) = 0" by (simp_all add: n0_def)
  from add_link_ok [OF s assms(3) hk z(1-4) k(2) kq ku, unfolded z(5,6)] obtain h' m' where
    h: "(if first us 0 = 0 then do { h \<leftarrow> set_parent ?h k q; store_from h slot var k }
        else map_option (\<lambda>(_, h). (var, h)) (mpt_gnode_add ?h (first us 0) 0 k)) = Some (if q = 0 \<and> us = [] then k else var, h')"
      "sibs h' q (us @ [NT k []])" "keeps (us = []) (end_of q us) (?h(k := None)) h'" "h' k = Some m'" "nident m' = d" "nmeta m' = 0"
      "nchildren m' = 0" "dom h' = dom ?h" by blast
  have hn: "?h(k := None) = nodes st" using k(3) by auto
  have s2: "nodes st2 = ?h" "blocks st2 = b" "unrefs st2 = unrefs st" by (simp_all add: st2_def)
  have sn: "\<forall>d. take (length x) d = x \<longrightarrow> set_name e ?s1 k (Some d) (int (length x)) = Some (True, st2)"
  proof (intro allI impI)
    fix dd
    assume "take (length x) dd = x"
    from set_name_take [OF this refl] show "set_name e ?s1 k (Some dd) (int (length x)) = Some (True, st2)"
      using b(1) unfolding st2_def by (rule trans)
  qed
  have nw: "mpt_node_new e st (length x) = Some (k, ?s1)" using k(1) by (simp add: n0_def)
  have nm: "wf_ident (blocks st2) (nident m')" "named (blocks st2) x m'" using b(2,3) h(5) by (simp_all add: named_def s2)
  have sv: "slot_value (nodes st2) slot var = Some (first us 0)" using level_first(1) [OF s assms(3)] by (simp only: s2)
  have dm: "dom h' = insert k (dom (nodes st))" using h(8) by simp
  have bl: "blocks st \<subseteq>\<^sub>m blocks st2" "finite (dom (blocks st2))" "card (dom (blocks st2)) \<le> card (dom (blocks st)) + 1"
    using b(4-6) by (simp_all only: s2)
  show thesis
    by (rule that [of k ?s1 st2 h' m'])
      (fact nw k(2,3) sn sv h(1) [folded s2(1)] h(2) h(3) [unfolded hn] dm h(4,7,6) nm bl s2(3))+
qed

lemma sibs_new: "sibs h q (us @ [NT x []]) \<Longrightarrow> sibs h x []"
proof -
  assume "sibs h q (us @ [NT x []])"
  then have "sibs h q (us @ NT x [] # [])" by simp
  from sibs_parts(5) [OF this] show ?thesis by (auto simp: sibs_def)
qed

lemma sibs_node: "sibs h q us \<Longrightarrow> q \<noteq> 0 \<Longrightarrow> h q \<noteq> None"
  by (auto simp: sibs_def split: option.splits)

lemma assign_loop_ok:
  assumes "env_ok e" "mt \<noteq> 0" "minfos ms mt = Some i" "holds_text i w"
  shows "path_text p b y \<Longrightarrow> sibs (nodes st) q us \<Longrightarrow> level q slot var us \<Longrightarrow> finite (dom (nodes st)) \<Longrightarrow> finite (dom (blocks st)) \<Longrightarrow>
    card (dom (blocks st)) + length (split_on (psep p) y) < 2 ^ 32 \<Longrightarrow> \<forall>x \<in> set (split_on (psep p) y). length x < 65535 \<Longrightarrow>
    \<exists>leaf u st' n. assign_loop e st slot var q (poff p) p mt = Some (leaf, if q = 0 \<and> us = [] then root u else var, st') \<and>
      leaf \<noteq> 0 \<and> nodes st' leaf = Some n \<and> nmeta n = mt \<and> sibs (nodes st') q (us @ [u]) \<and>
      vrep \<lparr>nst = st', mst = ms\<rparr> [u] (chain (split_on (psep p) y) w) \<and>
      keeps (us = []) (end_of q us) (nodes st) (nodes st') \<and> blocks st \<subseteq>\<^sub>m blocks st' \<and>
      set (addrs [u]) \<inter> dom (nodes st) = {} \<and> finite (dom (nodes st'))"
proof (induction "length y" arbitrary: p y st q us slot var rule: less_induct)
  case less
  let ?es = "split_on (psep p) y"
  let ?e = "hd ?es"
  let ?q = "p\<lparr>pfirst := 0, poff := poff p + (length ?e + 1), plen := length y - length ?e\<rparr>"
  note nx = next_ok [OF less.prems(1)]
  have t: "pbase p = Some b" "poff p + length y \<le> length b" using less.prems(1) by (simp_all add: path_text_def)
  have x: "take (length ?e) (drop (poff p) b) = ?e" using rd_element [OF less.prems(1) refl] by (auto simp: rd_def split: if_splits)
  have le: "length ?e < 65535" using less.prems(7) by simp
  have cd: "card (dom (blocks st)) < 2 ^ 32" using less.prems(6) by simp
  have qn: "q \<noteq> 0 \<longrightarrow> nodes st q \<noteq> None" using sibs_node [OF less.prems(2)] by simp
  obtain nxt st1 st2 h m where
    k: "mpt_node_new e st (length ?e) = Some (nxt, st1)" "nxt \<noteq> 0" "nodes st nxt = None"
      "\<forall>d. take (length ?e) d = ?e \<longrightarrow> set_name e st1 nxt (Some d) (int (length ?e)) = Some (True, st2)"
      "slot_value (nodes st2) slot var = Some (first us 0)"
      "(if first us 0 = 0 then do { h \<leftarrow> set_parent (nodes st2) nxt q; store_from h slot var nxt }
        else map_option (\<lambda>(_, h). (var, h)) (mpt_gnode_add (nodes st2) (first us 0) 0 nxt)) = Some (if q = 0 \<and> us = [] then nxt else var, h)"
      "sibs h q (us @ [NT nxt []])" "keeps (us = []) (end_of q us) (nodes st) h" "dom h = insert nxt (dom (nodes st))"
      "h nxt = Some m" "nchildren m = 0" "nmeta m = 0" "wf_ident (blocks st2) (nident m)" "named (blocks st2) ?e m"
      "blocks st \<subseteq>\<^sub>m blocks st2" "finite (dom (blocks st2))" "card (dom (blocks st2)) \<le> card (dom (blocks st)) + 1" "unrefs st2 = unrefs st"
    by (rule assign_node_ok [OF assms(1) less.prems(2,3) qn less.prems(4,5) cd le]) (rule that)
  have sn: "set_name e st1 nxt (Some (drop (poff p) b)) (int (length ?e)) = Some (True, st2)" using k(4) x by blast
  let ?v = "if q = 0 \<and> us = [] then nxt else var"
  have step: "assign_loop e st slot var q (poff p) p mt =
      (if plen ?q = 0 then Some (nxt, ?v, st2\<lparr>nodes := h(nxt \<mapsto> m\<lparr>nmeta := mt\<rparr>)\<rparr>)
       else assign_loop e (st2\<lparr>nodes := h\<rparr>) (Some nxt) ?v nxt (poff ?q) ?q mt)"
    using nx k(1,2,5,6,10) sn t(1) by (subst assign_loop.simps) (simp add: upd_def load_def)
  have fh: "finite (dom h)" using k(9) less.prems(4) by simp
  show ?case
  proof (cases rule: split_cases [of "psep p" y])
    case 1
    then have es: "?es = [?e]" "length ?e = length y" by (metis list.sel(1), simp)
    let ?h = "h(nxt \<mapsto> m\<lparr>nmeta := mt\<rparr>)"
    let ?st = "st2\<lparr>nodes := ?h\<rparr>"
    have "assign_loop e st slot var q (poff p) p mt = Some (nxt, ?v, ?st)" using step es(2) by simp
    moreover have "sibs ?h q (us @ [NT nxt []])" using k(7) sibs_meta [where h = h, OF k(10)] by simp
    moreover have "vrep \<lparr>nst = ?st, mst = ms\<rparr> [NT nxt []] (chain [?e] w)"
      using k(13,14) assms(2-4) by (simp add: node_is_def named_def)
    then have "vrep \<lparr>nst = ?st, mst = ms\<rparr> [NT nxt []] (chain ?es w)" unfolding es(1) [symmetric] .
    moreover have "keeps (us = []) (end_of q us) (nodes st) ?h" using k(3,8) unfolding keeps_def by (metis fun_upd_other option.distinct(1))
    moreover have "finite (dom ?h)" using fh by simp
    ultimately show ?thesis using k(2,3,15) by (intro exI [of _ nxt] exI [of _ "NT nxt []"] exI [of _ ?st] exI [of _ "m\<lparr>nmeta := mt\<rparr>"]) (simp add: domIff)
  next
    case (2 f r)
    have pr: "path_text ?q b r" using path_text_next [OF less.prems(1) 2(1,2)] 2 by simp
    have es: "?es = ?e # split_on (psep ?q) r" using 2 by simp
    have el: "length ?es = Suc (length (split_on (psep ?q) r))" using 2(3) by simp
    have es': "set (split_on (psep ?q) r) \<subseteq> set ?es" using 2(3) by auto
    have lr: "length r < length y" using 2(1) by simp
    let ?st = "st2\<lparr>nodes := h\<rparr>"
    have s0: "sibs (nodes ?st) nxt []" using sibs_new [OF k(7)] by simp
    have l0: "level nxt (Some nxt) ?v []" using k(2) by (simp add: level_def)
    have c0: "card (dom (blocks ?st)) + length (split_on (psep ?q) r) < 2 ^ 32" using less.prems(6) k(17) el by simp
    have n0: "\<forall>x \<in> set (split_on (psep ?q) r). length x < 65535" using less.prems(7) es' by auto
    from less.hyps [OF lr pr s0 l0 _ _ c0 n0] fh k(16) obtain leaf u st' n where
      I: "assign_loop e ?st (Some nxt) ?v nxt (poff ?q) ?q mt = Some (leaf, ?v, st')" "leaf \<noteq> 0" "nodes st' leaf = Some n" "nmeta n = mt"
        "sibs (nodes st') nxt [u]" "vrep \<lparr>nst = st', mst = ms\<rparr> [u] (chain (split_on (psep ?q) r) w)" "keeps True nxt h (nodes st')"
        "blocks st2 \<subseteq>\<^sub>m blocks st'" "set (addrs [u]) \<inter> dom h = {}" "finite (dom (nodes st'))"
      using k(2) by (auto simp: end_of_def)
    have pl: "plen ?q \<noteq> 0" using pr by (simp add: path_text_def)
    have "assign_loop e st slot var q (poff p) p mt = Some (leaf, ?v, st')" using step pl I(1) by simp
    moreover have "sibs (nodes st') q (us @ [NT nxt [u]])" by (rule nest [OF k(7) I(5,7,9)])
    moreover have "vrep \<lparr>nst = st', mst = ms\<rparr> [NT nxt [u]] (chain (?e # split_on (psep ?q) r) w)"
    proof -
      obtain n' where n': "nodes st' nxt = Some n'" "chg True m n'" using I(7) k(10) unfolding keeps_def by fastforce
      have a: "node_is \<lparr>nst = ?st, mst = ms\<rparr> nxt ?e None" using k(10,12-14) by (simp add: node_is_def)
      have b: "nodes (nst \<lparr>nst = ?st, mst = ms\<rparr>) nxt = Some m" "nodes (nst \<lparr>nst = st', mst = ms\<rparr>) nxt = Some n'"
        "blocks (nst \<lparr>nst = ?st, mst = ms\<rparr>) \<subseteq>\<^sub>m blocks (nst \<lparr>nst = st', mst = ms\<rparr>)" using k(10) n'(1) I(8) by simp_all
      have c: "minfos (mst \<lparr>nst = ?st, mst = ms\<rparr>) \<subseteq>\<^sub>m minfos (mst \<lparr>nst = st', mst = ms\<rparr>)" by simp
      have d: "nident n' = nident m" "nmeta n' = nmeta m" using chg_data [OF n'(2)] by blast+
      have "node_is \<lparr>nst = st', mst = ms\<rparr> nxt ?e None" by (rule node_is_mono [OF a b(1,2) d b(3) c])
      then show ?thesis using I(6) by simp
    qed
    then have "vrep \<lparr>nst = st', mst = ms\<rparr> [NT nxt [u]] (chain ?es w)" unfolding es [symmetric] .
    moreover have "keeps (us = []) (end_of q us) (nodes st) (nodes st')" using keeps_trans [OF k(8) I(7)] k(3) by simp
    moreover have "blocks st \<subseteq>\<^sub>m blocks st'" using map_le_trans [OF k(15) I(8)] .
    moreover have "set (addrs [NT nxt [u]]) \<inter> dom (nodes st) = {}" using I(9) k(3,9) by auto
    ultimately show ?thesis using I(2-4,10) by (intro exI [of _ leaf] exI [of _ "NT nxt [u]"] exI [of _ st'] exI [of _ n]) simp
  qed
qed


section \<open>Assignment\<close>

lemma reach_value:
  assumes "reach us ts es q ks t [] F G" "sibs (nodes (nst c)) 0 us" "vrep c us ts" "nodes (nst c) q = Some n"
    and "minfos ms a = Some i" "holds_text i w" "a \<noteq> 0" "minfos (mst c) \<subseteq>\<^sub>m minfos ms"
  defines "c' \<equiv> c\<lparr>mst := ms, nst := (unref (nst c) (nmeta n))\<lparr>nodes := (nodes (nst c))(q \<mapsto> n\<lparr>nmeta := a\<rparr>)\<rparr>\<rparr>"
  shows "sibs (nodes (nst c')) 0 (F ks)" "vrep c' (F ks) (vassign es w ts)"
proof -
  note P = reach_parts [OF assms(1-3)]
  have q: "q \<noteq> 0" "sibs (nodes (nst c)) q ks" "node_is c q (vname t) (vval t)" "vrep c ks (vsub t)" using P by blast+
  have qk: "q \<notin> set (addrs ks)" "nchildren n = first ks 0" using q(1,2) assms(4) by (auto simp: sibs_def)
  have c': "nodes (nst c') = (nodes (nst c))(q \<mapsto> n\<lparr>nmeta := a\<rparr>)" "blocks (nst c') = blocks (nst c)" "mst c' = ms"
    by (simp_all add: c'_def unref_def)
  have mono: "blocks (nst c) \<subseteq>\<^sub>m blocks (nst c')" "minfos (mst c) \<subseteq>\<^sub>m minfos (mst c')" using assms(8) by (simp_all add: c')
  have "node_is c' q (vname t) (Some w)" using q(3) assms(4-7) by (simp add: node_is_def c' named_def)
  moreover have "vrep c' ks (vsub t)"
  proof (rule vrep_mono [OF q(4) _ mono])
    fix p x assume "p \<in> set (addrs ks)" "nodes (nst c) p = Some x"
    then show "\<exists>n'. nodes (nst c') p = Some n' \<and> nident n' = nident x \<and> nmeta n' = nmeta x" using qk(1) by (auto simp: c')
  qed
  ultimately have new: "vrep c' [NT q ks] [VT (vname t) (Some w) (vsub t)]" by simp
  have s: "sibs (nodes (nst c')) q ks" unfolding c'(1) sibs_meta [where h = "nodes (nst c)", OF assms(4)] by (rule q(2))
  have n': "nodes (nst c') q = Some (n\<lparr>nchildren := first ks 0, nmeta := a\<rparr>)" using qk(2) by (simp add: c')
  have old: "nodes (nst c') b = nodes (nst c) b" if "b \<noteq> q" for b using that by (simp add: c')
  have d: "set (addrs ks) \<inter> (dom (nodes (nst c)) - set (addrs ks)) = {}" by blast
  have "sibs (nodes (nst c')) 0 (F ks) \<and> vrep c' (F ks) (G (VT (vname t) (Some w) (vsub t)))"
    by (rule reach_put [OF assms(1) old assms(4) n' s d new mono assms(2,3)])
  then show "sibs (nodes (nst c')) 0 (F ks)" "vrep c' (F ks) (vassign es w ts)" using reach_assign [OF assms(1)] by simp_all
qed

text \<open>New elements below the node of a prefix.\<close>

lemma reach_chain:
  assumes "reach us ts es q ks t r F G" "sibs (nodes (nst c)) 0 us" "vrep c us ts" "r \<noteq> []"
    and "List.find (\<lambda>t. vname t = hd r) (vsub t) = None"
    and "sibs (nodes (nst c')) q (ks @ [u])" "vrep c' [u] (chain r w)" "keeps (ks = []) (end_of q ks) (nodes (nst c)) (nodes (nst c'))"
    and "set (addrs [u]) \<inter> dom (nodes (nst c)) = {}"
    and mono: "blocks (nst c) \<subseteq>\<^sub>m blocks (nst c')" "minfos (mst c) \<subseteq>\<^sub>m minfos (mst c')"
  shows "sibs (nodes (nst c')) 0 (F (ks @ [u]))" "vrep c' (F (ks @ [u])) (vassign es w ts)"
proof -
  note P = reach_parts [OF assms(1-3)]
  have q: "q \<noteq> 0" "sibs (nodes (nst c)) q ks" "node_is c q (vname t) (vval t)" "vrep c ks (vsub t)" using P by blast+
  then obtain n where n: "nodes (nst c) q = Some n" "nchildren n = first ks 0" by (auto simp: sibs_def split: option.splits)
  have qk: "q \<notin> set (addrs ks)" using q(1,2) by (auto simp: sibs_def)
  have le: "end_of q ks = q \<and> ks = [] \<or> end_of q ks \<in> set (addrs ks) \<and> ks \<noteq> []"
  proof (cases ks rule: rev_cases)
    case (snoc xs x)
    then show ?thesis by (cases x) (simp add: end_of_def)
  qed (simp add: end_of_def)
  have same: "\<exists>n'. nodes (nst c') p = Some n' \<and> nident n' = nident x \<and> nmeta n' = nmeta x" if "nodes (nst c) p = Some x" for p x
    using assms(8) that chg_data unfolding keeps_def by metis
  have old: "nodes (nst c') b = nodes (nst c) b" if b: "nodes (nst c) b \<noteq> None" "b \<noteq> q" "b \<notin> set (addrs ks)" for b
  proof -
    have "b \<noteq> end_of q ks" using le b(2,3) by auto
    moreover obtain x where "nodes (nst c) b = Some x" using b(1) by blast
    ultimately show ?thesis using assms(8) unfolding keeps_def by fastforce
  qed
  have n': "nodes (nst c') q = Some (n\<lparr>nchildren := first (ks @ [u]) 0, nmeta := nmeta n\<rparr>)"
  proof -
    obtain m where m: "nodes (nst c') q = Some m" "nchildren m = first (ks @ [u]) 0" using assms(6) q(1) by (auto simp: sibs_def split: option.splits)
    from assms(8) n(1) m(1) have "if q = end_of q ks then chg (ks = []) n m else m = n" unfolding keeps_def by fastforce
    then have "chg True n m" using le qk chg_refl by (metis (full_types))
    then have "\<exists>y. m = n\<lparr>nchildren := y\<rparr>" by (simp add: chg_def)
    then show ?thesis using m by auto
  qed
  have v: "vrep c' ks (vsub t)" by (rule vrep_mono [OF q(4) same mono])
  have "node_is c' q (vname t) (vval t)" using same [OF n(1)] node_is_mono [OF q(3) n(1) _ _ _ mono] by blast
  moreover have "vrep c' (ks @ [u]) (vsub t @ chain r w)" using v assms(7) vrep_length [OF q(4)] by (simp add: vrep_append)
  ultimately have new: "vrep c' [NT q (ks @ [u])] [VT (vname t) (vval t) (vsub t @ chain r w)]" by simp
  have ad: "set (addrs (ks @ [u])) = set (addrs ks) \<union> set (addrs [u])" by simp
  have d: "set (addrs (ks @ [u])) \<inter> (dom (nodes (nst c)) - set (addrs ks)) = {}" using assms(9) unfolding ad by blast
  have "sibs (nodes (nst c')) 0 (F (ks @ [u])) \<and> vrep c' (F (ks @ [u])) (G (VT (vname t) (vval t) (vsub t @ chain r w)))"
    by (rule reach_put [OF assms(1) old n(1) n' assms(6) d new mono assms(2,3)])
  moreover have "vassign es w ts = G (VT (vname t) (vval t) (vsub t @ chain r w))"
    using reach_assign [OF assms(1)] assms(4) vassign_chain [OF assms(4,5)] by simp
  ultimately show "sibs (nodes (nst c')) 0 (F (ks @ [u]))" "vrep c' (F (ks @ [u])) (vassign es w ts)" by simp_all
qed


text \<open>The places where new elements are added: below the node of a prefix, or at the top.\<close>

lemma top_chain:
  assumes "sibs (nodes (nst c')) 0 (us @ [u])" "vrep c us ts" "vrep c' [u] (chain r w)" "r \<noteq> []"
    and "List.find (\<lambda>t. vname t = hd r) ts = None" "keeps b k (nodes (nst c)) (nodes (nst c'))"
    and "blocks (nst c) \<subseteq>\<^sub>m blocks (nst c')" "minfos (mst c) \<subseteq>\<^sub>m minfos (mst c')"
  shows "vrep c' (us @ [u]) (vassign r w ts)"
proof -
  have same: "\<exists>n'. nodes (nst c') p = Some n' \<and> nident n' = nident x \<and> nmeta n' = nmeta x" if "nodes (nst c) p = Some x" for p x
    using assms(6) that chg_data unfolding keeps_def by metis
  have "vrep c' us ts" by (rule vrep_mono [OF assms(2) same assms(7,8)])
  then show ?thesis using vassign_chain [OF assms(4,5)] assms(3) vrep_length [OF assms(2)] by (simp add: vrep_append)
qed

lemma gassign_ok:
  assumes "env_ok (eenv C)" "menv_ok (emeta C)" "\<And>m v. etakes C m v = None" "space (gcs g) (length (split_on (psep p) y))"
    and "config_rep g ts" "path_text p b y" "a \<noteq> 0" "\<forall>x \<in> set (split_on (psep p) y). length x < 65535" "length w \<le> 249"
  shows "\<exists>r g' n us'. gassign C g a None p (text_value (Some w)) = Some (r, g') \<and> r \<noteq> 0 \<and> nodes (nst (gcs g')) r = Some n \<and>
    value_is (gcs g') (nmeta n) (Some w) \<and> sibs (nodes (nst (gcs g'))) 0 us' \<and> groot g' = first us' 0 \<and> vrep (gcs g') us' (vassign (split_on (psep p) y) w ts)"
proof -
  let ?es = "split_on (psep p) y" and ?c = "gcs g" and ?v = "text_value (Some w)"
  obtain us where us: "sibs (nodes (nst ?c)) 0 us" "groot g = first us 0" "vrep ?c us ts"
    using assms(5) by (auto simp: config_rep_def)
  have sp: "finite (dom (nodes (nst ?c)))" "finite (dom (minfos (mst ?c)))" "finite (dom (blocks (nst ?c)))"
    "card (dom (blocks (nst ?c))) + length ?es < 2 ^ 32" using assms(4) by (simp_all add: space_def)
  have lw: "case Some w of None \<Rightarrow> True | Some w \<Rightarrow> length w \<le> 249" using assms(9) by simp
  from value_meta_ok [OF assms(2) sp(2) lw] obtain mt ms i where
    M: "value_meta (emeta C) (mst ?c) ?v = Some (Some mt, ms)" "mt \<noteq> 0" "minfos (mst ?c) \<subseteq>\<^sub>m minfos ms" "minfos ms mt = Some i" "holds_text i w"
    by auto
  have sv: "slot_value (nodes (nst ?c)) None (groot g) = Some (groot g)" by (simp add: slot_value_def)
  have vn: "?v \<noteq> None" by (simp add: text_value_def)
  from gquery_ok [OF us assms(6,7)] obtain q p' where Q: "gquery g a (groot g) p = Some (q, p')"
    "q = 0 \<and> rest_ok p' b (psep p) ?es \<and> List.find (\<lambda>t. vname t = hd ?es) ts = None \<or>
     (\<exists>ks t r F G. reach us ts ?es q ks t r F G \<and> rest_ok p' b (psep p) r \<and>
       (r = [] \<or> List.find (\<lambda>t. vname t = hd r) (vsub t) = None))" by blast
  have q: "mpt_node_query (blocks (nst ?c)) (nodes (nst ?c)) a (groot g) p = Some (q, p')" using Q(1) by (simp add: gquery_def)
  have loop: "gassign C g a None p ?v = Some (r, g\<lparr>gcs := ?c\<lparr>mst := ms, nst := st\<rparr>, groot := var\<rparr>)"
    if "q = 0 \<or> plen p' \<noteq> 0" "assign_loop (eenv C) (nst ?c) (if q \<noteq> 0 then Some q else None) (groot g) q (poff p') p' mt = Some (r, var, st)" for r var st
    using that sv q M(1,2) by (auto simp: gassign_def mpt_node_assign_def)
  from Q(2) show ?thesis
  proof (rule disjE)
    assume "q = 0 \<and> rest_ok p' b (psep p) ?es \<and> List.find (\<lambda>t. vname t = hd ?es) ts = None"
    then obtain y' where q0: "q = 0" and y': "path_text p' b y'" "psep p' = psep p" "split_on (psep p') y' = ?es"
      and nf: "List.find (\<lambda>t. vname t = hd ?es) ts = None" by (auto simp: rest_ok_def)
    have l0: "level 0 None (groot g) us" using us(2) by (simp add: level_def)
    have cd: "card (dom (blocks (nst ?c))) + length (split_on (psep p') y') < 2 ^ 32" using sp(4) y'(3) by simp
    have le: "\<forall>x \<in> set (split_on (psep p') y'). length x < 65535" using assms(8) y'(3) by simp
    from assign_loop_ok [OF assms(1) M(2,4,5) y'(1) us(1) l0 sp(1,3) cd le] obtain leaf u st' n where
      L: "assign_loop (eenv C) (nst ?c) None (groot g) 0 (poff p') p' mt = Some (leaf, if us = [] then root u else groot g, st')"
        "leaf \<noteq> 0" "nodes st' leaf = Some n" "nmeta n = mt" "sibs (nodes st') 0 (us @ [u])"
        "vrep \<lparr>nst = st', mst = ms\<rparr> [u] (chain ?es w)" "keeps (us = []) (end_of 0 us) (nodes (nst ?c)) (nodes st')"
        "blocks (nst ?c) \<subseteq>\<^sub>m blocks st'" unfolding y'(3) by auto
    let ?c' = "?c\<lparr>mst := ms, nst := st'\<rparr>"
    let ?g = "g\<lparr>gcs := ?c', groot := if us = [] then root u else groot g\<rparr>"
    have c': "?c' = \<lparr>nst = st', mst = ms\<rparr>" by simp
    have "gassign C g a None p ?v = Some (leaf, ?g)" using loop [of leaf _ st'] L(1) q0 by simp
    moreover have "groot ?g = first (us @ [u]) 0" using us(2) by (cases u; cases us rule: addrs.cases) simp_all
    moreover have "vrep ?c' (us @ [u]) (vassign ?es w ts)"
      by (rule top_chain [where c = ?c, OF _ us(3) L(6) [folded c'] _ nf]) (use L(5,7,8) M(3) in simp_all)
    ultimately show ?thesis using L(2-5) M(2,4,5)
      by (intro exI [of _ leaf], intro exI [of _ ?g], intro exI [of _ n], intro exI [of _ "us @ [u]"]) (simp add: value_is_def)
  next
    assume "\<exists>ks t r F G. reach us ts ?es q ks t r F G \<and> rest_ok p' b (psep p) r \<and>
       (r = [] \<or> List.find (\<lambda>t. vname t = hd r) (vsub t) = None)"
    then obtain ks t r F G where R: "reach us ts ?es q ks t r F G" "rest_ok p' b (psep p) r"
      "r = [] \<or> List.find (\<lambda>t. vname t = hd r) (vsub t) = None" by (elim exE conjE)
    note P = reach_parts [OF R(1) us(1,3)]
    have q0: "q \<noteq> 0" "sibs (nodes (nst ?c)) q ks" "\<And>k. first (F k) 0 = first us 0" using P by blast+
    then obtain n where n: "nodes (nst ?c) q = Some n" by (auto simp: sibs_def split: option.splits)
    show ?thesis
    proof (cases "r = []")
      case True
      let ?c' = "?c\<lparr>mst := ms, nst := (unref (nst ?c) (nmeta n))\<lparr>nodes := (nodes (nst ?c))(q \<mapsto> n\<lparr>nmeta := mt\<rparr>)\<rparr>\<rparr>"
      have "mpt_meta_set (emeta C) (etakes C) (ekeeps C) (edeflt C) ?c (nmeta n) ?v = Some (0, mt, ?c\<lparr>mst := ms, nst := unref (nst ?c) (nmeta n)\<rparr>)"
        using vn M(1,2) assms(3) by (simp add: mpt_meta_set_def del: not_None_eq)
      then have "gassign C g a None p ?v = Some (q, g\<lparr>gcs := ?c'\<rparr>)"
        using sv q q0(1) n True rest_ok_len [OF R(2)] by (simp add: gassign_def mpt_node_assign_def load_def upd_def unref_def)
      moreover note reach_value [OF R(1) [unfolded True] us(1,3) n M(4,5,2,3)]
      ultimately show ?thesis using q0(1,3) us(2) M(2,4,5)
        by (intro exI [of _ q], intro exI [of _ "g\<lparr>gcs := ?c'\<rparr>"], intro exI [of _ "n\<lparr>nmeta := mt\<rparr>"], intro exI [of _ "F ks"]) (simp add: value_is_def)
    next
      case False
      then obtain y' where y': "path_text p' b y'" "psep p' = psep p" "split_on (psep p') y' = r"
        using R(2) by (auto simp: rest_ok_def)
      have rl: "length r \<le> length ?es" "set r \<subseteq> set ?es" using reach_rest [OF R(1)] by simp_all
      have l0: "level q (Some q) (groot g) ks" using q0(1) by (simp add: level_def)
      have cd: "card (dom (blocks (nst ?c))) + length (split_on (psep p') y') < 2 ^ 32" using sp(4) y'(3) rl(1) by simp
      have le: "\<forall>x \<in> set (split_on (psep p') y'). length x < 65535" using assms(8) y'(3) rl(2) by auto
      from assign_loop_ok [OF assms(1) M(2,4,5) y'(1) q0(2) l0 sp(1,3) cd le] obtain leaf u st' n where
        L: "assign_loop (eenv C) (nst ?c) (Some q) (groot g) q (poff p') p' mt = Some (leaf, groot g, st')"
          "leaf \<noteq> 0" "nodes st' leaf = Some n" "nmeta n = mt" "sibs (nodes st') q (ks @ [u])"
          "vrep \<lparr>nst = st', mst = ms\<rparr> [u] (chain r w)" "keeps (ks = []) (end_of q ks) (nodes (nst ?c)) (nodes st')"
          "blocks (nst ?c) \<subseteq>\<^sub>m blocks st'" "set (addrs [u]) \<inter> dom (nodes (nst ?c)) = {}" unfolding y'(3) using q0(1) by auto
      let ?c' = "?c\<lparr>mst := ms, nst := st'\<rparr>"
      let ?g = "g\<lparr>gcs := ?c', groot := groot g\<rparr>"
      have c': "?c' = \<lparr>nst = st', mst = ms\<rparr>" by simp
      have "plen p' \<noteq> 0" using y'(1) by (simp add: path_text_def)
      then have "gassign C g a None p ?v = Some (leaf, ?g)" using loop [of leaf _ st'] L(1) q0 by simp
      moreover have nf: "List.find (\<lambda>t. vname t = hd r) (vsub t) = None" using R(3) False by simp
      have "sibs (nodes (nst ?c')) 0 (F (ks @ [u]))" "vrep ?c' (F (ks @ [u])) (vassign ?es w ts)"
        by (rule reach_chain [OF R(1) us(1,3) False nf _ L(6) [folded c']]; use L(5,7-9) M(3) in simp)+
      ultimately show ?thesis using L(2-4) M(2,4,5) q0(3) us(2)
        by (intro exI [of _ leaf], intro exI [of _ ?g], intro exI [of _ n], intro exI [of _ "F (ks @ [u])"]) (simp add: value_is_def)
    qed
  qed
qed


definition value_after :: "block list \<Rightarrow> block list \<Rightarrow> block \<Rightarrow> vtree list \<Rightarrow> block option option" where
  "value_after xs es w ts =
     (if xs = es then Some (Some w)
      else if value_at xs ts = None \<and> before xs es then Some None else value_at xs ts)"

lemma query_after:
  assumes "config_rep g (vassign (split_on (psep p) y) w ts)" "path_text p' b' y'" "a' \<noteq> 0"
  shows "\<exists>mt n. configQuery g config_top (Some (p', a')) (Some f) =
      Some (case value_after (split_on (psep p') y') (split_on (psep p) y) w ts of None \<Rightarrow> MissingData | Some _ \<Rightarrow> f (Meta mt) n) \<and>
    (\<forall>v. value_after (split_on (psep p') y') (split_on (psep p) y) w ts = Some v \<longrightarrow> value_is (gcs g) mt v)"
proof -
  let ?xs = "split_on (psep p') y'" and ?es = "split_on (psep p) y"
  from config_query_ok [OF assms] obtain mt n where q: "configQuery g config_top (Some (p', a')) (Some f) =
      Some (case vlookup ?xs (vassign ?es w ts) of None \<Rightarrow> MissingData | Some t \<Rightarrow> f (Meta mt) n)"
    "\<And>t. vlookup ?xs (vassign ?es w ts) = Some t \<Longrightarrow> value_is (gcs g) mt (vval t)" by blast
  have "value_after ?xs ?es w ts = value_at ?xs (vassign ?es w ts)" using value_at_assign [of ?xs ?es w ts] by (simp add: value_after_def)
  then have v: "value_after ?xs ?es w ts = map_option vval (vlookup ?xs (vassign ?es w ts))" by (simp add: value_at_def)
  show ?thesis using q unfolding v by (cases "vlookup ?xs (vassign ?es w ts)") auto
qed

lemma config_assign_ok:
  assumes "env_ok (eenv C)" "menv_ok (emeta C)" "\<And>m v. etakes C m v = None" "space (gcs g) (length (split_on (psep p) y))"
    and "config_rep g ts" "path_text p b y" "a \<noteq> 0" "\<forall>x \<in> set (split_on (psep p) y). length x < 65535" "length w \<le> 249"
  shows "\<exists>mt g'. configAssign C g config_top (Some (p, a)) (text_value (Some w)) = Some (econv C (gcs g') mt, g') \<and>
    value_is (gcs g') mt (Some w) \<and> config_rep g' (vassign (split_on (psep p) y) w ts)"
proof -
  from gassign_ok [OF assms] obtain r g' n us' where
    G: "gassign C g a None p (text_value (Some w)) = Some (r, g')" "r \<noteq> 0" "nodes (nst (gcs g')) r = Some n"
      "value_is (gcs g') (nmeta n) (Some w)" "sibs (nodes (nst (gcs g'))) 0 us'" "groot g' = first us' 0"
      "vrep (gcs g') us' (vassign (split_on (psep p) y) w ts)"
    by (elim exE conjE)
  have "plen p \<noteq> 0" using assms(6) by (simp add: path_text_def)
  then have "configAssign C g config_top (Some (p, a)) (text_value (Some w)) = Some (econv C (gcs g') (nmeta n), g')"
    using G(1-4) by (simp add: configAssign_def gload_def load_def value_is_def)
  then show ?thesis using G(4-7) by (auto simp: config_rep_def)
qed

text \<open>Property C19: an assignment of a text of at most 249 bytes to the top instance of the global configuration
  succeeds for every text path whose elements have less than 65535 bytes, stores a new metatype with
  the text at its node, and a query behind it finds the new value at this path, elements without a value at the
  prefixes that were missing, and at every other text path what was there before.  The allocators succeed, and the metatypes
  that are replaced do not take values themselves.  Longer text is refused (\<open>meta_text_kept\<close>);
  binary paths are not covered, their elements are misread by \<open>mpt_node_assign\<close>.\<close>

theorem global_assign_query:
  assumes "env_ok (eenv C)" and "menv_ok (emeta C)" and "\<And>m v. etakes C m v = None"
    and "space (gcs g) (length (split_on (psep p) y))" and "config_rep g ts"
    and "path_text p b y" and "a \<noteq> 0" and "\<forall>x \<in> set (split_on (psep p) y). length x < 65535" and "length w \<le> 249"
  shows "\<exists>mt g'. configAssign C g config_top (Some (p, a)) (text_value (Some w)) = Some (econv C (gcs g') mt, g') \<and>
    value_is (gcs g') mt (Some w) \<and> config_rep g' (vassign (split_on (psep p) y) w ts) \<and>
    (\<forall>p' b' y' a' f. path_text p' b' y' \<and> a' \<noteq> 0 \<longrightarrow>
      (\<exists>mt n. configQuery g' config_top (Some (p', a')) (Some f) =
         Some (case value_after (split_on (psep p') y') (split_on (psep p) y) w ts of None \<Rightarrow> MissingData | Some _ \<Rightarrow> f (Meta mt) n) \<and>
         (\<forall>v. value_after (split_on (psep p') y') (split_on (psep p) y) w ts = Some v \<longrightarrow> value_is (gcs g') mt v)))"
proof -
  from config_assign_ok [OF assms] obtain mt g' where
    A: "configAssign C g config_top (Some (p, a)) (text_value (Some w)) = Some (econv C (gcs g') mt, g')"
      "value_is (gcs g') mt (Some w)" "config_rep g' (vassign (split_on (psep p) y) w ts)" by blast
  show ?thesis
    by (rule exI [of _ mt], rule exI [of _ g'], rule conjI [OF A(1)], rule conjI [OF A(2)], rule conjI [OF A(3)],
      intro allI impI, elim conjE, rule query_after [OF A(3)])
qed

definition cenv0 :: cenv where
  "cenv0 = \<lparr>eenv = env1, emeta = menv0, etakes = (\<lambda>_ _. None), ekeeps = (\<lambda>_. None), edeflt = 0, econv = (\<lambda>_ _. 0)\<rparr>"

definition ident_b :: mpt_identifier where
  "ident_b = \<lparr>ilen = 2, icharset = 1, imax = 12, ival = 98 # replicate 11 0\<rparr>"

definition global0 :: gstate where
  "global0 = \<lparr>gcs = \<lparr>nst = \<lparr>nodes = [1 \<mapsto> MPT_NODE_INIT\<lparr>nident := ident_a, nnext := 2\<rparr>,
       2 \<mapsto> MPT_NODE_INIT\<lparr>nident := ident_b, nprev := 1\<rparr>], blocks = Map.empty, unrefs = []\<rparr>,
     mst = \<lparr>minfos = Map.empty, mbufs = bmem_init\<rparr>\<rparr>, groot = 1, gobjs = Map.empty\<rparr>"

definition text_path :: "block \<Rightarrow> path" where
  "text_path b = MPT_PATH_INIT\<lparr>pbase := Some (b @ [0]), plen := length b + 1\<rparr>"

lemma text_path_ok: "path_text (text_path b) (b @ [0]) b" "psep (text_path b) = 46"
  by (simp_all add: text_path_def path_text_def MPT_PATH_INIT_def)

lemma global0_rep: "config_rep global0 [VT [97] None [], VT [98] None []]"
  unfolding config_rep_def
  by (rule exI [of _ "[NT 1 [], NT 2 []]"])
    (simp add: sibs_def global0_def MPT_NODE_INIT_def node_is_def ident_a_def ident_b_def named_def wf_ident_def ident_bytes_def
      ident_block_def mpt_identifier_data_def rd_def)

text \<open>\<open>b.a.b\<close> gets a value, and with it \<open>b.a\<close> exists; \<open>a\<close> has no value as before.\<close>

theorem global_assign_query_witness:
  "\<exists>g'. configAssign cenv0 global0 config_top (Some (text_path [98, 46, 97, 46, 98], 64)) (text_value (Some [120])) = Some (0, g') \<and>
    config_rep g' [VT [97] None [], VT [98] None [VT [97] None [VT [98] (Some [120]) []]]] \<and>
    (\<exists>mt n. configQuery g' config_top (Some (text_path [98, 46, 97], 64)) (Some (\<lambda>_ _. 1)) = Some 1) \<and>
    configQuery g' config_top (Some (text_path [97, 46, 97], 64)) (Some (\<lambda>_ _. 1)) = Some MissingData"
proof -
  let ?p = "text_path [98, 46, 97, 46, 98]"
  have c: "env_ok (eenv cenv0)" "menv_ok (emeta cenv0)" "\<And>m v. etakes cenv0 m v = None" "\<And>c m. econv cenv0 c m = 0"
    by (simp_all add: cenv0_def env1_ok menv0_ok)
  have s: "split_on 46 [98, 46, 97, 46, 98] = [[98], [97], [98]]" "split_on 46 [98, 46, 97] = [[98], [97]]"
    "split_on 46 [97, 46, 97] = [[97], [97]]" for z :: byte by simp_all
  have sp: "space (gcs global0) (length (split_on (psep ?p) [98, 46, 97, 46, 98]))" by (simp add: text_path_ok s space_def global0_def)
  have n: "\<forall>x \<in> set (split_on (psep ?p) [98, 46, 97, 46, 98]). length x < 65535" by (simp add: text_path_ok s)
  from global_assign_query [OF c(1-3) sp global0_rep text_path_ok(1) _ n, of 64 "[120]", unfolded c(4) text_path_ok(2) s]
  obtain g' where g: "configAssign cenv0 global0 config_top (Some (?p, 64)) (text_value (Some [120])) = Some (0, g')"
    "config_rep g' (vassign [[98], [97], [98]] [120] [VT [97] None [], VT [98] None []])"
    "\<And>p' b' y' a' f. path_text p' b' y' \<Longrightarrow> a' \<noteq> 0 \<Longrightarrow>
      \<exists>mt n. configQuery g' config_top (Some (p', a')) (Some f) =
         Some (case value_after (split_on (psep p') y') [[98], [97], [98]] [120] [VT [97] None [], VT [98] None []] of
           None \<Rightarrow> MissingData | Some _ \<Rightarrow> f (Meta mt) n)" by auto blast
  have "value_after [[98], [97]] [[98], [97], [98]] [120] [VT [97] None [], VT [98] None []] = Some None"
    "value_after [[97], [97]] [[98], [97], [98]] [120] [VT [97] None [], VT [98] None []] = None"
    by (simp_all add: value_after_def value_at_def)
  then have "configQuery g' config_top (Some (text_path [98, 46, 97], 64)) (Some (\<lambda>_ _. 1)) = Some 1"
    "configQuery g' config_top (Some (text_path [97, 46, 97], 64)) (Some (\<lambda>_ _. 1)) = Some MissingData"
    using g(3) [OF text_path_ok(1) [of "[98, 46, 97]"], of 64 "\<lambda>_ _. 1"] g(3) [OF text_path_ok(1) [of "[97, 46, 97]"], of 64 "\<lambda>_ _. 1"]
    by (simp_all add: text_path_ok(2) s)
  with g(1,2) show ?thesis by simp
qed

section \<open>Deviations\<close>

definition global1 :: gstate where
  "global1 = global0\<lparr>gcs := \<lparr>nst = \<lparr>nodes = [2 \<mapsto> MPT_NODE_INIT\<lparr>nident := ident_b, nprev := 1\<rparr>], blocks = Map.empty, unrefs = []\<rparr>,
     mst = \<lparr>minfos = Map.empty, mbufs = bmem_init\<rparr>\<rparr>, groot := 2\<rparr>"

lemma query_head:
  assumes "x \<noteq> 46" "a \<noteq> 0" "q \<noteq> 0" "nodes (nst (gcs g)) q = Some n" "nchildren n = 0" "wf_ident (blocks (nst (gcs g))) (nident n)"
    and "named (blocks (nst (gcs g))) [x] n"
  shows "gquery g a q (text_path [x]) = Some (q, (text_path [x])\<lparr>poff := 2, plen := 0\<rparr>)"
proof -
  have e: "split_on 46 [x] = [[x]]" using assms(1) by simp
  have p: "text_path [x] = \<lparr>pbase = Some [x, 0], pused = 0, poff = 0, plen = 2, pfirst = 0, pflags = 0, psep = 46, passign = 0\<rparr>"
    by (simp add: text_path_def MPT_PATH_INIT_def)
  have "mpt_path_next (text_path [x]) = Some (1, (text_path [x])\<lparr>poff := 2, plen := 0\<rparr>)"
    using next_ok [OF text_path_ok(1) [of "[x]"]] unfolding text_path_ok(2) e by (simp add: p)
  moreover have "node_match (blocks (nst (gcs g))) False a [x, 0] (Suc 0) (Suc (Suc 0)) 1 n = Some True"
    using node_match_named [OF assms(6), of 1 "[x, 0]" False a] assms(7) by simp
  ultimately show ?thesis using assms(2-5)
    by (simp add: gquery_def mpt_node_query_def p query_loop.simps [of _ _ _ q] mpt_node_locate_def locate_fwd.simps [of _ _ q] load_def)
qed

lemma remove_head:
  assumes "x \<noteq> 46" "a \<noteq> 0" "groot g \<noteq> 0" "nodes (nst (gcs g)) (groot g) = Some n" "nchildren n = 0"
    and "wf_ident (blocks (nst (gcs g))) (nident n)" "named (blocks (nst (gcs g))) [x] n"
  shows "configRemove l g config_top (Some (text_path [x], a)) = map_option (\<lambda>g. (1, g)) (remove_node g (groot g))"
proof -
  have "plen (text_path [x]) \<noteq> 0" by (simp add: text_path_def)
  then show ?thesis using query_head [OF assms(1-7)] assms(3) by (simp add: configRemove_def remove_below_def map_option_case split: option.split)
qed

lemmas head_eval = named_def wf_ident_def ident_a_def ident_b_def ident_bytes_def ident_block_def mpt_identifier_data_def rd_def

lemmas remove_eval = remove_node_def global0_def global1_def MPT_NODE_INIT_def gload_def load_def upd_def set_heap_def
  mpt_node_destroy_def node_access

text \<open>The removal of the first node of the list leaves the reference to it in the next one; when this one is
  removed it is taken for a linked node and stays allocated, out of reach.\<close>

lemma global_remove_first:
  "configRemove l global0 config_top (Some (text_path [97], 64)) = Some (1, global1)"
proof -
  have "memset_b (97 # replicate 11 0) 0 0 12 = Some (replicate 12 0)" by code_simp
  then have "remove_node global0 1 = Some global1"
    by (simp add: remove_eval ident_a_def ident_b_def mpt_node_clear_def clear_loop.simps node_free_def unref_def
      mpt_identifier_set_def set_inline_def free_base_def)
  moreover have "configRemove l global0 config_top (Some (text_path [97], 64)) = map_option (\<lambda>g. (1, g)) (remove_node global0 (groot global0))"
    by (rule remove_head [where n = "MPT_NODE_INIT\<lparr>nident := ident_a, nnext := 2\<rparr>"])
      (simp_all add: global0_def MPT_NODE_INIT_def head_eval)
  ultimately show ?thesis by (simp add: global0_def)
qed

lemma global_remove_next:
  "\<exists>g n. configRemove l global1 config_top (Some (text_path [98], 64)) = Some (1, g) \<and> groot g = 0 \<and> nodes (nst (gcs g)) 2 = Some n"
proof -
  obtain g n where "remove_node global1 2 = Some g" "groot g = 0" "nodes (nst (gcs g)) 2 = Some n"
    by (simp add: remove_eval)
  moreover have "configRemove l global1 config_top (Some (text_path [98], 64)) = map_option (\<lambda>g. (1, g)) (remove_node global1 (groot global1))"
    by (rule remove_head [where n = "MPT_NODE_INIT\<lparr>nident := ident_b, nprev := 1\<rparr>"])
      (simp_all add: global1_def MPT_NODE_INIT_def head_eval)
  ultimately show ?thesis by (simp add: global1_def)
qed

end
