(* ===== verification/MsgValue.thy ===== *)
theory MsgValue
  imports MptBase
begin

text \<open>
  Format codes of message values: \<open>mptcore/message/msgvalfmt.c\<close>, with the integer type ids of
  \<open>mptcore/types/type_int.c\<close>.  The target is a 64 bit machine with little-endian byte order: the
  native flag is 0x80, a \<open>long double\<close> takes 16 bytes.  Type ids are the character codes of the
  source.
\<close>

unbundle bit_operations_syntax

section \<open>Model\<close>

text \<open>\<open>mptcore/message.h\<close>, \<open>enum MPT_MESGTYPE(Value)\<close>.\<close>

abbreviation MesgValUnsigned :: byte where "MesgValUnsigned \<equiv> 0x20"
abbreviation MesgValFloat :: byte where "MesgValFloat \<equiv> 0x40"
abbreviation MesgValInteger :: byte where "MesgValInteger \<equiv> 0x60"
abbreviation MesgValNormal :: byte where "MesgValNormal \<equiv> 0x60"
abbreviation MesgValBigAtom :: nat where "MesgValBigAtom \<equiv> 0x40"
abbreviation MesgValByteOrderLittle :: byte where "MesgValByteOrderLittle \<equiv> 0x80"
abbreviation MesgValByteOrderNative :: byte where "MesgValByteOrderNative \<equiv> 0x80"

definition type_char :: "char \<Rightarrow> int" where
  "type_char c = of_char c"

definition mpt_type_int :: "nat \<Rightarrow> int" where
  "mpt_type_int len =
     (if len = 1 then type_char CHR ''b'' else if len = 2 then type_char CHR ''n''
      else if len = 4 then type_char CHR ''i'' else if len = 8 then type_char CHR ''x'' else 0)"

definition mpt_type_uint :: "nat \<Rightarrow> int" where
  "mpt_type_uint len =
     (if len = 1 then type_char CHR ''y'' else if len = 2 then type_char CHR ''q''
      else if len = 4 then type_char CHR ''u'' else if len = 8 then type_char CHR ''t'' else 0)"

definition mpt_msgvalfmt_size :: "byte \<Rightarrow> nat" where
  "mpt_msgvalfmt_size fmt =
     (let fmt = fmt AND NOT MesgValByteOrderLittle in
      if fmt AND MesgValNormal \<noteq> 0 then unat (fmt AND 0x1f) + 1
      else (unat (fmt AND 0x1f) + 1) * MesgValBigAtom)"

definition mpt_msgvalfmt_typeid :: "byte \<Rightarrow> int" where
  "mpt_msgvalfmt_typeid fmt =
     (if fmt AND MesgValByteOrderLittle \<noteq> MesgValByteOrderNative then BadValue
      else
        (let size = mpt_msgvalfmt_size fmt; kind = fmt AND MesgValNormal in
         if kind = 0 then BadType
         else if kind = MesgValInteger then
           (if mpt_type_int size \<noteq> 0 then mpt_type_int size else BadType)
         else if kind = MesgValFloat then
           (if size = 4 then type_char CHR ''f'' else if size = 8 then type_char CHR ''d''
            else if size = 16 then type_char CHR ''e'' else BadType)
         else (if mpt_type_uint size \<noteq> 0 then mpt_type_uint size else BadType)))"

text \<open>\<open>MPT_message_value(f, v)\<close> with the size of the type \<open>v\<close>.\<close>

definition MPT_message_value :: "byte \<Rightarrow> nat \<Rightarrow> int" where
  "MPT_message_value f sz = uint ((of_nat sz - 1) OR f OR MesgValByteOrderNative)"

text \<open>The first case depends on a compile-time flag.\<close>

definition mpt_msgvalfmt_code :: "bool \<Rightarrow> int \<Rightarrow> int" where
  "mpt_msgvalfmt_code float_extended type =
     (if float_extended \<and> type = type_char CHR ''e'' then MPT_message_value MesgValFloat 16
      else if type = type_char CHR ''d'' then MPT_message_value MesgValFloat 8
      else if type = type_char CHR ''f'' then MPT_message_value MesgValFloat 4
      else if type = type_char CHR ''b'' then MPT_message_value MesgValInteger 1
      else if type = type_char CHR ''n'' then MPT_message_value MesgValInteger 2
      else if type = type_char CHR ''i'' then MPT_message_value MesgValInteger 4
      else if type = type_char CHR ''x'' then MPT_message_value MesgValInteger 8
      else if type = type_char CHR ''y'' then MPT_message_value MesgValUnsigned 1
      else if type = type_char CHR ''q'' then MPT_message_value MesgValUnsigned 2
      else if type = type_char CHR ''u'' then MPT_message_value MesgValUnsigned 4
      else if type = type_char CHR ''t'' then MPT_message_value MesgValUnsigned 8
      else - 1)"

section \<open>Properties\<close>

text \<open>The native types and their sizes.\<close>

definition native_types :: "(int \<times> nat) list" where
  "native_types = map (\<lambda>(c, n). (type_char c, n))
     [(CHR ''d'', 8), (CHR ''f'', 4), (CHR ''b'', 1), (CHR ''n'', 2), (CHR ''i'', 4), (CHR ''x'', 8),
      (CHR ''y'', 1), (CHR ''q'', 2), (CHR ''u'', 4), (CHR ''t'', 8)]"

lemma code_native:
  "list_all (\<lambda>(t, n). 0 \<le> mpt_msgvalfmt_code ext t \<and> mpt_msgvalfmt_code ext t < 256
     \<and> mpt_msgvalfmt_typeid (word_of_int (mpt_msgvalfmt_code ext t)) = t
     \<and> mpt_msgvalfmt_size (word_of_int (mpt_msgvalfmt_code ext t)) = n) native_types"
  by (simp add: native_types_def type_char_def mpt_msgvalfmt_code_def MPT_message_value_def
      mpt_msgvalfmt_typeid_def mpt_msgvalfmt_size_def mpt_type_int_def mpt_type_uint_def)

lemma code_other:
  "t \<notin> fst ` set native_types \<Longrightarrow> t \<noteq> type_char CHR ''e'' \<Longrightarrow> mpt_msgvalfmt_code ext t = - 1"
  by (simp add: native_types_def mpt_msgvalfmt_code_def)

text \<open>The message format code of every native type decodes to that type and to its size, and
  types without a code (apart from the extended float) are refused.\<close>

theorem msgvalfmt_roundtrip:
  "list_all (\<lambda>(t, n). mpt_msgvalfmt_typeid (word_of_int (mpt_msgvalfmt_code ext t)) = t
     \<and> mpt_msgvalfmt_size (word_of_int (mpt_msgvalfmt_code ext t)) = n) native_types
   \<and> (t \<notin> fst ` set native_types \<union> {type_char CHR ''e''} \<longrightarrow> mpt_msgvalfmt_code ext t = - 1)"
  using code_native [of ext] code_other [of t ext] by (auto simp: list_all_iff)

theorem msgvalfmt_roundtrip_witness: "mpt_msgvalfmt_code True 7 = - 1"
  using msgvalfmt_roundtrip [of True 7] by (simp add: native_types_def type_char_def)

end
