(* ===== verification/TypeRegistry.thy ===== *)
theory TypeRegistry
  imports Identifier MsgValue
begin

text \<open>
  The registry of types: \<open>mptcore/types/type_traits.c\<close>, the type codes of \<open>mptcore/types.h\<close> and
  \<open>mptcore/types/alias_typeid.c\<close>.

  A code is resolved by its range: fixed tables of basic types, tables of interfaces and of basic types
  added at run time, and lists of chunks with 30 entries for metatypes and for types with traits of the
  caller.  The tables of interfaces and metatypes are created when they are first used.  The success of
  the allocations of a call is the parameter \<open>al\<close>, numbered in the order of the call; the fixed tables can always be
  created, and the exit handlers that release the tables are not modelled.
\<close>

section \<open>State\<close>

text \<open>Entries with a name; the size in their traits is absent where it is not initialised.\<close>

record named =
  nname :: "block option"
  ntype :: nat
  nsize :: "nat option"

text \<open>\<open>rext\<close> tells whether extended floating point numbers are available, \<open>rtail\<close> whether the end of the
  list of metatype chunks is initialised.  Traits of the caller are an address and a size.\<close>

record registry =
  rext :: bool
  rdyn :: "nat list option"
  rifs :: "named option list option"
  rpos :: nat
  rmeta :: "named list list option"
  rtail :: bool
  rgen :: "(nat \<times> nat) list list"

definition registry_init :: "bool \<Rightarrow> registry" where
  "registry_init fx = \<lparr>rext = fx, rdyn = None, rifs = None, rpos = 0, rmeta = None, rtail = True, rgen = []\<rparr>"

abbreviation (input) CoreSize :: nat where "CoreSize \<equiv> 0x20"
abbreviation (input) InterfaceBase :: nat where "InterfaceBase \<equiv> 0x80"
abbreviation (input) InterfaceMax :: nat where "InterfaceMax \<equiv> 0xbf"
abbreviation (input) DynamicBase :: nat where "DynamicBase \<equiv> 0xc0"
abbreviation (input) DynamicMax :: nat where "DynamicMax \<equiv> 0xff"
abbreviation (input) MetaPtrBase :: nat where "MetaPtrBase \<equiv> 0x100"
abbreviation (input) MetaPtrMax :: nat where "MetaPtrMax \<equiv> 0x7ff"
abbreviation (input) ValueAdd :: nat where "ValueAdd \<equiv> 0x900"
abbreviation (input) ValueMax :: nat where "ValueMax \<equiv> 0xfff"

definition isScalar :: "nat \<Rightarrow> bool" where
  "isScalar v \<longleftrightarrow> 0x60 \<le> v \<and> v \<le> 0x7a"

definition isVector :: "nat \<Rightarrow> bool" where
  "isVector v \<longleftrightarrow> 0x40 \<le> v \<and> v < 0x5a"

text \<open>Codes and sizes of the fixed tables.\<close>

definition core_sizes :: "(nat \<times> nat) list" where
  "core_sizes = [(0x1, 4), (0x4, 8), (0x5, 8), (0x9, 8), (0x8, 8), (0x18, 4), (0x19, 16), (0x1a, 48)]"

definition scalar_sizes :: "bool \<Rightarrow> (nat \<times> nat) list" where
  "scalar_sizes fx = [(99, 1), (98, 1), (121, 1), (110, 2), (113, 2), (105, 4), (117, 4), (120, 8), (116, 8), (102, 4), (100, 8)] @
     (if fx then [(101, 16)] else []) @ [(115, 8)]"

definition table_size :: "(nat \<times> nat) list \<Rightarrow> nat \<Rightarrow> nat" where
  "table_size tab t = (case map_of tab t of None \<Rightarrow> 0 | Some n \<Rightarrow> n)"

definition core_interfaces :: "(block \<times> nat) list" where
  "core_interfaces = [([99, 111, 110, 118, 101, 114, 116, 97, 98, 108, 101], 0x80), ([108, 111, 103, 103, 101, 114], 0x81),
     ([114, 101, 112, 108, 121], 0x82), ([111, 117, 116, 112, 117, 116], 0x83), ([111, 98, 106, 101, 99, 116], 0x84),
     ([99, 111, 110, 102, 105, 103], 0x85), ([105, 116, 101, 114, 97, 116, 111, 114], 0x86),
     ([99, 111, 108, 108, 101, 99, 116, 105, 111, 110], 0x87), ([115, 111, 108, 118, 101, 114], 0x88)]"

section \<open>Tables on demand\<close>

definition meta_base :: named where
  "meta_base = \<lparr>nname = Some [109, 101, 116, 97, 116, 121, 112, 101], ntype = MetaPtrBase, nsize = Some 8\<rparr>"

definition with_meta :: "(nat \<Rightarrow> bool) \<Rightarrow> registry \<Rightarrow> registry" where
  "with_meta al r =
     (if rmeta r \<noteq> None \<or> \<not> al 0 then r
      else if \<not> al 1 then r\<lparr>rmeta := Some [[]], rtail := False\<rparr>
      else r\<lparr>rmeta := Some [[meta_base]], rtail := True\<rparr>)"

text \<open>The traits of the interfaces are copied with the size of a pointer: their size field is not set.\<close>

definition core_entry :: "(nat \<Rightarrow> bool) \<Rightarrow> nat \<Rightarrow> named option" where
  "core_entry al i = (if i < length core_interfaces \<and> al (Suc i)
     then Some \<lparr>nname = Some (fst (core_interfaces ! i)), ntype = snd (core_interfaces ! i), nsize = None\<rparr> else None)"

definition with_ifs :: "(nat \<Rightarrow> bool) \<Rightarrow> registry \<Rightarrow> registry" where
  "with_ifs al r =
     (if rifs r \<noteq> None \<or> \<not> al 0 then r
      else r\<lparr>rifs := Some (map (core_entry al) [0..<64]), rpos := 16\<rparr>)"

section \<open>Resolving codes\<close>

text \<open>What a call delivers: an entry of a table with its size, an entry with a name, traits of the caller, traits
  of a type with managed content.\<close>

datatype tref = Table nat nat | Named named | Custom nat nat | Managed nat

definition mpt_interface_traits :: "(nat \<Rightarrow> bool) \<Rightarrow> registry \<Rightarrow> nat \<Rightarrow> (named option \<times> registry) option" where
  "mpt_interface_traits al r type =
     (if type > InterfaceMax \<or> type < InterfaceBase then Some (None, r)
      else let r = with_ifs al r; pos = type - InterfaceBase in
        if pos > rpos r then Some (None, r)
        else case rifs r of None \<Rightarrow> None | Some l \<Rightarrow> Some (l ! pos, r))"

text \<open>A position that became negative would be read in front of the entries.\<close>

fun meta_at :: "bool \<Rightarrow> named list list \<Rightarrow> int \<Rightarrow> named option option" where
  "meta_at tail [] pos = (if tail then Some None else None)"
| "meta_at tail (c # cs) pos =
     (if pos < int (length c) then (if pos < 0 then None else Some (Some (c ! nat pos))) else meta_at tail cs (pos - 30))"

definition mpt_metatype_traits :: "(nat \<Rightarrow> bool) \<Rightarrow> registry \<Rightarrow> nat \<Rightarrow> (named option \<times> registry) option" where
  "mpt_metatype_traits al r type =
     (if type > MetaPtrMax \<or> type < MetaPtrBase then Some (None, r)
      else let r = with_meta al r in
        case rmeta r of None \<Rightarrow> Some (None, r)
        | Some cs \<Rightarrow> map_option (\<lambda>e. (e, r)) (meta_at (rtail r) cs (int (type - MetaPtrBase))))"

fun gen_at :: "'a list list \<Rightarrow> nat \<Rightarrow> 'a option" where
  "gen_at [] t = None"
| "gen_at (c # cs) t = (if t < length c then Some (c ! t) else gen_at cs (usub t 30))"

definition mpt_type_traits :: "(nat \<Rightarrow> bool) \<Rightarrow> registry \<Rightarrow> nat \<Rightarrow> (tref option \<times> registry) option" where
  "mpt_type_traits al r type =
     (let table = (\<lambda>n. if n = 0 then None else Some (Table type n)) in
      if type = 0 then Some (None, r)
      else if type < CoreSize then Some (table (table_size core_sizes type), r)
      else if isScalar type then Some (table (table_size (scalar_sizes (rext r)) type), r)
      else if isVector type then
        Some (table (if table_size (scalar_sizes (rext r)) (type - 0x40 + 0x60) = 0 then 0 else 16), r)
      else if InterfaceBase \<le> type \<and> type \<le> InterfaceMax then
        map_option (\<lambda>(e, r). (map_option Named e, r)) (mpt_interface_traits al r type)
      else if DynamicBase \<le> type \<and> type \<le> DynamicMax then
        (case rdyn r of None \<Rightarrow> Some (None, r)
         | Some l \<Rightarrow> Some (if type - DynamicBase < length l then Some (Table type (l ! (type - DynamicBase))) else None, r))
      else if type \<in> {0x800, 0x801, 0x802, 0x803} then Some (Some (Managed type), r)
      else if MetaPtrBase \<le> type \<and> type \<le> MetaPtrMax then
        map_option (\<lambda>(e, r). (map_option Named e, r)) (mpt_metatype_traits al r type)
      else Some (map_option (\<lambda>(p, n). Custom p n) (gen_at (rgen r) (usub type ValueAdd)), r))"

section \<open>Resolving names\<close>

text \<open>Names of entries are kept without their terminating byte.\<close>

fun strncmp_eq :: "block \<Rightarrow> block \<Rightarrow> bool option" where
  "strncmp_eq [] name = Some True"
| "strncmp_eq (c # cs) [] = None"
| "strncmp_eq (c # cs) (x # xs) = (if c = x then strncmp_eq cs xs else Some False)"

fun find_m :: "('a \<Rightarrow> bool option) \<Rightarrow> 'a list \<Rightarrow> 'a option option" where
  "find_m f [] = Some None"
| "find_m f (x # xs) = do { b \<leftarrow> f x; if b then Some (Some x) else find_m f xs }"

definition exact_name :: "block \<Rightarrow> int \<Rightarrow> named \<Rightarrow> bool option" where
  "exact_name name len e = (case nname e of None \<Rightarrow> Some False
     | Some n \<Rightarrow> if len = int (length n) then strncmp_eq n name else Some False)"

definition alias_name :: "block \<Rightarrow> block" where
  "alias_name n =
     (if n = [108, 111, 103] then [108, 111, 103, 103, 101, 114]
      else if n = [105, 116, 101, 114] then [105, 116, 101, 114, 97, 116, 111, 114]
      else if n = [111, 117, 116] then [111, 117, 116, 112, 117, 116]
      else if n = [109, 101, 116, 97] then [109, 101, 116, 97, 116, 121, 112, 101] else n)"

text \<open>The entries of the interface table up to the position in use.\<close>

definition used_ifs :: "registry \<Rightarrow> named list" where
  "used_ifs r = (case rifs r of None \<Rightarrow> [] | Some l \<Rightarrow> concat (map (\<lambda>e. case e of None \<Rightarrow> [] | Some e \<Rightarrow> [e]) (take (rpos r) l)))"

definition find_named :: "(nat \<Rightarrow> bool) \<Rightarrow> registry \<Rightarrow> (named \<Rightarrow> bool option) \<Rightarrow> (named option \<times> registry) option" where
  "find_named al r f =
     (let r = with_meta al r in do {
        e \<leftarrow> find_m f (case rmeta r of None \<Rightarrow> [] | Some cs \<Rightarrow> concat cs);
        if e \<noteq> None then Some (e, r)
        else if \<not> rtail r then None
        else let r = with_ifs (\<lambda>i. al (i + 2)) r in map_option (\<lambda>e. (e, r)) (find_m f (used_ifs r)) })"

definition mpt_named_traits :: "(nat \<Rightarrow> bool) \<Rightarrow> registry \<Rightarrow> block option \<Rightarrow> int \<Rightarrow> (named option \<times> registry) option" where
  "mpt_named_traits al r name len =
     (case name of None \<Rightarrow> Some (None, r)
      | Some s \<Rightarrow>
        if len = 0 then Some (None, r)
        else do {
          c \<leftarrow> rd s 0 1;
          if hd c = 0 then Some (None, r)
          else if len \<ge> 0 then find_named al r (exact_name s len)
          else do {
            l \<leftarrow> c_strlen s;
            find_named al r (\<lambda>e. Some (nname e = Some (alias_name (take l s)))) } })"

section \<open>Registration\<close>

text \<open>The code for a new entry behind those of the chunks, with a new chunk where all are full; with \<open>early\<close>
  the limit is checked before each further chunk.\<close>

fun place :: "bool \<Rightarrow> bool \<Rightarrow> nat \<Rightarrow> nat \<Rightarrow> 'a list list \<Rightarrow> int \<times> 'a list list" where
  "place early al lim pos [] = (BadOperation, [])"
| "place early al lim pos (c # cs) =
     (if length c = 30 then
        (if (early \<or> cs = []) \<and> pos + 30 > lim then (BadType, c # cs)
         else if cs = [] then (if al then (int (pos + 30), [c, []]) else (BadOperation, [c]))
         else let (r, cs') = place early al lim (pos + 30) cs in (r, c # cs'))
      else if pos + length c > lim then (BadType, c # cs)
      else (int (pos + length c), c # cs))"

fun put_free :: "'a list list \<Rightarrow> 'a \<Rightarrow> 'a list list" where
  "put_free [] x = []"
| "put_free (c # cs) x = (if length c = 30 then c # put_free cs x else (c @ [x]) # cs)"

definition mpt_type_add :: "(nat \<Rightarrow> bool) \<Rightarrow> registry \<Rightarrow> nat \<Rightarrow> nat \<Rightarrow> int \<times> registry" where
  "mpt_type_add al r ptr sz =
     (if ptr = 0 \<or> sz = 0 then (BadArgument, r)
      else if rgen r = [] \<and> \<not> al 0 then (BadOperation, r)
      else let (code, cs) = place False (al 1) ValueMax ValueAdd (if rgen r = [] then [[]] else rgen r) in
        (code, r\<lparr>rgen := if code < 0 then cs else put_free cs (ptr, sz)\<rparr>))"

definition mpt_type_basic_add :: "(nat \<Rightarrow> bool) \<Rightarrow> registry \<Rightarrow> nat \<Rightarrow> int \<times> registry" where
  "mpt_type_basic_add al r sz =
     (let sz = (if sz = 0 then 8 else sz) in
      case (case rdyn r of None \<Rightarrow> if al 0 then Some [] else None | Some l \<Rightarrow> Some l) of None \<Rightarrow> (BadOperation, r)
      | Some l \<Rightarrow> if length l < 64 then (int (DynamicBase + length l), r\<lparr>rdyn := Some (l @ [sz])\<rparr>)
          else (MissingBuffer, r\<lparr>rdyn := Some l\<rparr>))"

text \<open>A name of an entry: absent, or at least four characters and not in use.\<close>

definition new_name :: "named list \<Rightarrow> block option \<Rightarrow> (bool \<times> block option) option" where
  "new_name es name = (case name of None \<Rightarrow> Some (True, None)
     | Some s \<Rightarrow> do {
         l \<leftarrow> c_strlen s;
         let n = take l s;
         Some (4 \<le> l \<and> (\<forall>e \<in> set es. nname e \<noteq> Some n), Some n) })"

definition mpt_type_metatype_add :: "(nat \<Rightarrow> bool) \<Rightarrow> registry \<Rightarrow> block option \<Rightarrow> (named option \<times> registry) option" where
  "mpt_type_metatype_add al r name =
     (let r = with_meta al r in do {
        (ok, n) \<leftarrow> new_name (case rmeta r of None \<Rightarrow> [] | Some cs \<Rightarrow> concat cs) name;
        if \<not> ok then Some (None, r)
        else do {
          cs \<leftarrow> rmeta r;
          if \<not> rtail r \<and> (name \<noteq> None \<or> length (concat cs) = 30) then None
          else let (code, cs) = place True (al 2) MetaPtrMax MetaPtrBase cs; r = r\<lparr>rmeta := Some cs\<rparr> in
            if code < 0 \<or> \<not> al 3 then Some (None, r)
            else let e = \<lparr>nname = n, ntype = nat code, nsize = Some 8\<rparr> in Some (Some e, r\<lparr>rmeta := Some (put_free cs e)\<rparr>) } })"

definition mpt_type_interface_add :: "(nat \<Rightarrow> bool) \<Rightarrow> registry \<Rightarrow> block option \<Rightarrow> (named option \<times> registry) option" where
  "mpt_type_interface_add al r name =
     (if rpos r \<ge> 64 then Some (None, r)
      else let r = with_ifs al r in do {
        (ok, n) \<leftarrow> new_name (used_ifs r) name;
        if \<not> ok \<or> \<not> al 10 then Some (None, r)
        else do {
          l \<leftarrow> rifs r;
          let e = \<lparr>nname = n, ntype = InterfaceBase + rpos r, nsize = Some 8\<rparr>;
          Some (Some e, r\<lparr>rifs := Some (l[rpos r := Some e]), rpos := rpos r + 1\<rparr>) } })"

section \<open>Codes of descriptions\<close>

text \<open>The name in front of a colon without trailing space; the end is the position of the symbol behind it.\<close>

fun trim_len :: "block \<Rightarrow> nat \<Rightarrow> nat" where
  "trim_len s 0 = 0"
| "trim_len s (Suc n) = (if isspace (sint (s ! n)) then trim_len s n else Suc n)"

definition mpt_alias_typeid :: "(nat \<Rightarrow> bool) \<Rightarrow> registry \<Rightarrow> block option \<Rightarrow> (int \<times> nat \<times> registry) option" where
  "mpt_alias_typeid al r desc =
     (case desc of None \<Rightarrow> Some (BadArgument, 0, r)
      | Some s \<Rightarrow> do {
          l \<leftarrow> c_strlen s;
          let k = length (takeWhile (\<lambda>c. c \<noteq> 58) (take l s));
          let sep = (k < l);
          if sep \<and> trim_len s k = 0 then Some (BadValue, 0, r)
          else do {
            (e, r) \<leftarrow> mpt_named_traits al r (Some s) (if sep then int (trim_len s k) else - 1);
            case e of None \<Rightarrow> Some (BadValue, 0, r)
            | Some e \<Rightarrow> Some (int (ntype e),
                if sep then k + 1 + length (takeWhile (\<lambda>c. isspace (sint c)) (drop (k + 1) (take l s))) else l, r) } })"


section \<open>Chunks\<close>

text \<open>Every chunk but the final one is full.\<close>

fun filled :: "'a list list \<Rightarrow> bool" where
  "filled [] \<longleftrightarrow> True"
| "filled [c] \<longleftrightarrow> length c \<le> 30"
| "filled (c # d # cs) \<longleftrightarrow> length c = 30 \<and> filled (d # cs)"

lemma filled_Cons: "filled (c # cs) \<longleftrightarrow> length c \<le> 30 \<and> (cs \<noteq> [] \<longrightarrow> length c = 30) \<and> filled cs"
  by (cases cs) auto

lemma gen_at_filled: "filled cs \<Longrightarrow> gen_at cs t = (if t < length (concat cs) then Some (concat cs ! t) else None)"
proof (induction cs t rule: gen_at.induct)
  case (2 c cs t)
  show ?case
  proof (cases "cs = []")
    case False
    then have "length c = 30" and "filled cs" using 2 by (simp_all add: filled_Cons)
    then show ?thesis using 2 by (auto simp: nth_append)
  qed simp
qed simp

lemma meta_at_filled:
  "filled cs \<Longrightarrow> meta_at True cs (int t) = Some (if t < length (concat cs) then Some (concat cs ! t) else None)"
proof (induction cs arbitrary: t)
  case (Cons c cs)
  show ?case
  proof (cases "cs = []")
    case False
    then have l: "length c = 30" and "filled cs" using Cons.prems by (simp_all add: filled_Cons)
    show ?thesis
    proof (cases "t < 30")
      case False
      then have "int t - 30 = int (t - 30)" by simp
      then show ?thesis using Cons.IH [OF \<open>filled cs\<close>, of "t - 30"] l False by (auto simp: nth_append)
    qed (use l in \<open>simp add: nth_append\<close>)
  qed simp
qed simp

lemma place_filled:
  "place early al lim pos cs = (code, cs') \<Longrightarrow> filled cs \<Longrightarrow> cs \<noteq> [] \<Longrightarrow>
   concat cs' = concat cs \<and> filled cs' \<and> cs' \<noteq> [] \<and>
   (0 \<le> code \<longrightarrow> code = int (pos + length (concat cs)) \<and> pos + length (concat cs) \<le> lim \<and> length (List.last cs') < 30)"
proof (induction early al lim pos cs arbitrary: code cs' rule: place.induct)
  case (2 early al lim pos c cs)
  show ?case
  proof (cases "cs = []")
    case True
    then show ?thesis using 2 by (auto simp: filled_Cons split: if_splits)
  next
    case False
    then have l: "length c = 30" and f: "filled cs" using 2 by (simp_all add: filled_Cons)
    obtain r ds where p: "place early al lim (pos + 30) cs = (r, ds)" by fastforce
    show ?thesis
    proof (cases "early \<and> pos + 30 > lim")
      case True
      then show ?thesis using 2 l False by (auto)
    next
      case nl: False
      then have "code = r" "cs' = c # ds" using 2(2) l False p by auto
      moreover have "concat ds = concat cs \<and> filled ds \<and> ds \<noteq> [] \<and>
          (0 \<le> r \<longrightarrow> r = int (pos + 30 + length (concat cs)) \<and> pos + 30 + length (concat cs) \<le> lim \<and> length (List.last ds) < 30)"
        using 2(1) [OF l _ False _ ] nl False p f by auto
      ultimately show ?thesis using l by (auto simp: filled_Cons)
    qed
  qed
qed simp

lemma put_free_filled:
  "filled cs \<Longrightarrow> cs \<noteq> [] \<Longrightarrow> length (List.last cs) < 30 \<Longrightarrow>
   concat (put_free cs x) = concat cs @ [x] \<and> filled (put_free cs x) \<and> put_free cs x \<noteq> []"
proof (induction cs)
  case (Cons c cs)
  then show ?case by (cases "cs = []") (auto simp: filled_Cons)
qed simp


section \<open>What a registry holds\<close>

text \<open>The four lists of items; the tables that do not exist yet are those of their first use.\<close>

definition ifs0 :: "named option list" where
  "ifs0 = map (core_entry (\<lambda>_. True)) [0..<64]"

definition dyns :: "registry \<Rightarrow> nat list" where
  "dyns r = (case rdyn r of None \<Rightarrow> [] | Some l \<Rightarrow> l)"

definition ifs :: "registry \<Rightarrow> named option list" where
  "ifs r = (case rifs r of None \<Rightarrow> ifs0 | Some l \<Rightarrow> l)"

definition metas :: "registry \<Rightarrow> named list" where
  "metas r = (case rmeta r of None \<Rightarrow> [meta_base] | Some cs \<Rightarrow> concat cs)"

text \<open>The codes of the entries are their positions.\<close>

definition numbered :: "nat \<Rightarrow> named list \<Rightarrow> bool" where
  "numbered b l \<longleftrightarrow> (\<forall>i < length l. ntype (l ! i) = b + i)"

definition ifs_ok :: "nat \<Rightarrow> named option list \<Rightarrow> bool" where
  "ifs_ok n l \<longleftrightarrow> length l = 64 \<and> 16 \<le> n \<and> n \<le> 64 \<and>
     (\<forall>i < 64. case l ! i of None \<Rightarrow> True | Some e \<Rightarrow> i < n \<and> ntype e = InterfaceBase + i)"

fun ifs_inv :: "named option list option \<Rightarrow> nat \<Rightarrow> bool" where
  "ifs_inv None n \<longleftrightarrow> n = 0"
| "ifs_inv (Some l) n \<longleftrightarrow> ifs_ok n l"

fun meta_inv :: "named list list option \<Rightarrow> bool" where
  "meta_inv None \<longleftrightarrow> True"
| "meta_inv (Some cs) \<longleftrightarrow> filled cs \<and> cs \<noteq> []"

definition registry_ok :: "registry \<Rightarrow> bool" where
  "registry_ok r \<longleftrightarrow>
     length (dyns r) \<le> 64 \<and> ifs_inv (rifs r) (rpos r) \<and>
     meta_inv (rmeta r) \<and> rtail r \<and>
     numbered MetaPtrBase (metas r) \<and> length (metas r) \<le> 0x700 \<and>
     filled (rgen r) \<and> length (concat (rgen r)) \<le> 0x700"

lemma core_ifs_len [simp]: "length core_interfaces = 9"
  by (simp add: core_interfaces_def)

lemma core_types: "\<forall>i < 9. snd (core_interfaces ! i) = InterfaceBase + i"
  by (auto simp: core_interfaces_def less_Suc_eq numeral_eq_Suc)

lemma ifs_ok_core: "ifs_ok 16 (map (core_entry al) [0..<64])"
  using core_types by (auto simp: ifs_ok_def core_entry_def)

lemma registry_ok_init: "registry_ok (registry_init fx)"
  by (simp add: registry_ok_def registry_init_def dyns_def metas_def numbered_def meta_base_def)

text \<open>What a code stands for, read off the lists.\<close>

definition resolve :: "bool \<Rightarrow> nat list \<Rightarrow> named option list \<Rightarrow> named list \<Rightarrow> (nat \<times> nat) list \<Rightarrow> nat \<Rightarrow> tref option" where
  "resolve fx ds is ms gs c =
     (let table = (\<lambda>n. if n = 0 then None else Some (Table c n)) in
      if c = 0 then None
      else if c < CoreSize then table (table_size core_sizes c)
      else if isScalar c then table (table_size (scalar_sizes fx) c)
      else if isVector c then table (if table_size (scalar_sizes fx) (c - 0x40 + 0x60) = 0 then 0 else 16)
      else if InterfaceBase \<le> c \<and> c \<le> InterfaceMax then map_option Named (is ! (c - InterfaceBase))
      else if DynamicBase \<le> c \<and> c \<le> DynamicMax then
        (if c - DynamicBase < length ds then Some (Table c (ds ! (c - DynamicBase))) else None)
      else if c \<in> {0x800, 0x801, 0x802, 0x803} then Some (Managed c)
      else if MetaPtrBase \<le> c \<and> c \<le> MetaPtrMax then
        (if c - MetaPtrBase < length ms then Some (Named (ms ! (c - MetaPtrBase))) else None)
      else if ValueAdd \<le> c \<and> c - ValueAdd < length gs then Some (Custom (fst (gs ! (c - ValueAdd))) (snd (gs ! (c - ValueAdd))))
      else None)"

definition meaning :: "registry \<Rightarrow> nat \<Rightarrow> tref option option" where
  "meaning r c = map_option fst (mpt_type_traits (\<lambda>_. True) r c)"

lemma with_ifs_ok: "registry_ok r \<Longrightarrow> al 0 \<Longrightarrow>
  \<exists>l. rifs (with_ifs al r) = Some l \<and> ifs_ok (rpos (with_ifs al r)) l \<and> ((\<forall>i. al i) \<longrightarrow> l = ifs r)"
  using ifs_ok_core [of al]
  by (auto simp: registry_ok_def with_ifs_def ifs_def ifs0_def core_entry_def split: option.splits)

lemma with_meta_ok: "registry_ok r \<Longrightarrow> al 0 \<Longrightarrow> al 1 \<Longrightarrow>
  \<exists>cs. rmeta (with_meta al r) = Some cs \<and> filled cs \<and> cs \<noteq> [] \<and> concat cs = metas r \<and> rtail (with_meta al r)"
  by (auto simp: registry_ok_def with_meta_def metas_def split: option.splits)

lemma interface_traits_ok:
  assumes "registry_ok r" "InterfaceBase \<le> c" "c \<le> InterfaceMax"
  shows "\<exists>r'. mpt_interface_traits (\<lambda>_. True) r c = Some (ifs r ! (c - InterfaceBase), r')"
proof -
  obtain l where l: "rifs (with_ifs (\<lambda>_. True) r) = Some l" "ifs_ok (rpos (with_ifs (\<lambda>_. True) r)) l" "l = ifs r"
    using with_ifs_ok [OF assms(1), of "\<lambda>_. True"] by auto
  have "c - InterfaceBase < 64" using assms by auto
  then have "rpos (with_ifs (\<lambda>_. True) r) < c - InterfaceBase \<Longrightarrow> l ! (c - InterfaceBase) = None"
    using l(2) by (auto simp: ifs_ok_def split: option.splits)
  then show ?thesis using l assms by (simp add: mpt_interface_traits_def Let_def)
qed

lemma metatype_traits_ok:
  assumes "registry_ok r" "MetaPtrBase \<le> c" "c \<le> MetaPtrMax"
  shows "\<exists>r'. mpt_metatype_traits (\<lambda>_. True) r c =
    Some (if c - MetaPtrBase < length (metas r) then Some (metas r ! (c - MetaPtrBase)) else None, r')"
proof -
  obtain cs where cs: "rmeta (with_meta (\<lambda>_. True) r) = Some cs" "filled cs" "concat cs = metas r" "rtail (with_meta (\<lambda>_. True) r)"
    using with_meta_ok [OF assms(1), of "\<lambda>_. True"] by auto
  then show ?thesis using assms meta_at_filled [OF cs(2), of "c - MetaPtrBase"] by (simp add: mpt_metatype_traits_def Let_def)
qed

lemma meaning_resolve:
  assumes "registry_ok r"
  shows "meaning r c = Some (resolve (rext r) (dyns r) (ifs r) (metas r) (concat (rgen r)) c)"
proof (cases "InterfaceBase \<le> c \<and> c \<le> InterfaceMax")
  case True
  then show ?thesis using interface_traits_ok [OF assms, of c]
    by (auto simp: meaning_def mpt_type_traits_def resolve_def isScalar_def isVector_def)
next
  case ni: False
  show ?thesis
  proof (cases "MetaPtrBase \<le> c \<and> c \<le> MetaPtrMax")
    case True
    then show ?thesis using metatype_traits_ok [OF assms, of c]
      by (auto simp: meaning_def mpt_type_traits_def resolve_def isScalar_def isVector_def)
  next
    case nm: False
    have f: "filled (rgen r)" and l: "length (concat (rgen r)) \<le> 0x700" using assms by (simp_all add: registry_ok_def)
    have "map_option (\<lambda>(p, n). Custom p n) (gen_at (rgen r) (usub c ValueAdd)) =
      (if ValueAdd \<le> c \<and> c - ValueAdd < length (concat (rgen r))
       then Some (Custom (fst (concat (rgen r) ! (c - ValueAdd))) (snd (concat (rgen r) ! (c - ValueAdd)))) else None)"
      using l unfolding gen_at_filled [OF f] by (cases "ValueAdd \<le> c") (auto simp: usub_def split: prod.splits)
    then show ?thesis using ni nm
      by (auto simp: meaning_def mpt_type_traits_def resolve_def dyns_def Let_def split: option.splits)
  qed
qed


section \<open>Registering\<close>

definition view :: "registry \<Rightarrow> bool \<times> nat list \<times> named option list \<times> named list \<times> (nat \<times> nat) list" where
  "view r = (rext r, dyns r, ifs r, metas r, concat (rgen r))"

lemma type_add_ok:
  assumes "registry_ok r" "mpt_type_add al r ptr n = (c, r')"
  shows "registry_ok r' \<and>
    (if c < 0 then view r' = view r
     else c = int (ValueAdd + length (concat (rgen r))) \<and> c \<le> int ValueMax \<and>
       view r' = (rext r, dyns r, ifs r, metas r, concat (rgen r) @ [(ptr, n)]))"
proof (cases "ptr = 0 \<or> n = 0 \<or> rgen r = [] \<and> \<not> al 0")
  case True
  have "c < 0 \<and> r' = r"
  proof (cases "ptr = 0 \<or> n = 0")
    case ptr: True
    then show ?thesis using assms(2) by (simp add: mpt_type_add_def)
  next
    case False
    then have "mpt_type_add al r ptr n = (BadOperation, r)" using True unfolding mpt_type_add_def by simp
    then show ?thesis using assms(2) by simp
  qed
  then show ?thesis using assms(1) by simp
next
  case False
  define gs where "gs = (if rgen r = [] then [[]] else rgen r)"
  obtain c0 ds where p: "place False (al 1) ValueMax ValueAdd gs = (c0, ds)" by fastforce
  have g: "filled gs" "gs \<noteq> []" "concat gs = concat (rgen r)" using assms by (auto simp: registry_ok_def gs_def)
  note h = place_filled [OF p g(1,2)]
  have "mpt_type_add al r ptr n = (c0, r\<lparr>rgen := if c0 < 0 then ds else put_free ds (ptr, n)\<rparr>)"
    unfolding mpt_type_add_def gs_def [symmetric] p using False by (subst if_not_P, simp, subst if_not_P) simp_all
  then have r': "c = c0" "r' = r\<lparr>rgen := if c < 0 then ds else put_free ds (ptr, n)\<rparr>"
    using assms(2) by simp_all
  show ?thesis
  proof (cases "c < 0")
    case True
    then show ?thesis using h g r' assms(1) by (simp add: view_def registry_ok_def dyns_def ifs_def metas_def)
  next
    case F: False
    then have "concat (put_free ds (ptr, n)) = concat ds @ [(ptr, n)] \<and> filled (put_free ds (ptr, n))"
      using h r' put_free_filled [of ds "(ptr, n)"] by auto
    then show ?thesis using h g r' assms(1) F by (auto simp: view_def registry_ok_def dyns_def ifs_def metas_def)
  qed
qed

lemma basic_add_ok:
  assumes "registry_ok r" "mpt_type_basic_add al r n = (c, r')"
  shows "registry_ok r' \<and>
    (if c < 0 then view r' = view r
     else c = int (DynamicBase + length (dyns r)) \<and> length (dyns r) < 64 \<and>
       view r' = (rext r, dyns r @ [if n = 0 then 8 else n], ifs r, metas r, concat (rgen r)))"
proof -
  define l where "l = dyns r"
  consider (none) "r' = r" "c < 0" | (full) "c < 0" "r' = r\<lparr>rdyn := Some l\<rparr>"
    | (new) "length l < 64" "c = int (DynamicBase + length l)" "r' = r\<lparr>rdyn := Some (l @ [if n = 0 then 8 else n])\<rparr>"
  proof (cases "rdyn r = None \<and> \<not> al 0")
    case True
    then show thesis using assms(2) none by (simp add: mpt_type_basic_add_def)
  next
    case False
    then have "(case rdyn r of None \<Rightarrow> if al 0 then Some [] else None | Some l \<Rightarrow> Some l) = Some l"
      by (cases "rdyn r") (simp_all add: l_def dyns_def)
    then have "mpt_type_basic_add al r n = (if length l < 64
        then (int (DynamicBase + length l), r\<lparr>rdyn := Some (l @ [if n = 0 then 8 else n])\<rparr>) else (MissingBuffer, r\<lparr>rdyn := Some l\<rparr>))"
      unfolding mpt_type_basic_add_def Let_def by simp
    then show thesis using assms(2) full new by (cases "length l < 64") simp_all
  qed
  then show ?thesis using assms(1)
    by cases (simp_all add: registry_ok_def view_def l_def dyns_def [abs_def] ifs_def metas_def)
qed

lemma with_meta_view: "registry_ok r \<Longrightarrow> al 0 \<Longrightarrow> al 1 \<Longrightarrow> registry_ok (with_meta al r) \<and> view (with_meta al r) = view r"
  by (auto simp: with_meta_def registry_ok_def view_def dyns_def ifs_def metas_def)

lemma with_ifs_view: "registry_ok r \<Longrightarrow> \<forall>i<10. al i \<Longrightarrow> registry_ok (with_ifs al r) \<and> view (with_ifs al r) = view r"
  using ifs_ok_core [of al]
  by (auto simp: with_ifs_def registry_ok_def view_def dyns_def ifs_def metas_def ifs0_def core_entry_def)

lemma metatype_add_ok:
  assumes "registry_ok r" "al 0" "al 1" "mpt_type_metatype_add al r name = Some (e, r')"
  shows "registry_ok r' \<and>
    (case e of None \<Rightarrow> view r' = view r
     | Some e \<Rightarrow> ntype e = MetaPtrBase + length (metas r) \<and> length (metas r) < 0x700 \<and>
         view r' = (rext r, dyns r, ifs r, metas r @ [e], concat (rgen r)))"
proof -
  define q where "q = with_meta al r"
  obtain cs where cs: "rmeta q = Some cs" "filled cs" "cs \<noteq> []" "concat cs = metas r" "rtail q"
    using with_meta_ok [OF assms(1-3)] unfolding q_def by auto
  have q: "registry_ok q" "view q = view r" using with_meta_view [OF assms(1-3)] by (simp_all add: q_def)
  obtain b n where n: "new_name (concat cs) name = Some (b, n)"
    using assms(4) cs(1) by (auto simp: mpt_type_metatype_add_def Let_def q_def [symmetric] bind_eq_Some_conv)
  obtain c ds where p: "place True (al 2) MetaPtrMax MetaPtrBase cs = (c, ds)" by fastforce
  note h = place_filled [OF p cs(2,3)]
  consider (same) "r' = q" "e = None" | (full) "r' = q\<lparr>rmeta := Some ds\<rparr>" "e = None"
    | (new) e' where "0 \<le> c" "e = Some e'" "r' = q\<lparr>rmeta := Some (put_free ds e')\<rparr>" "ntype e' = nat c"
    using assms(4) cs n p
    by (auto simp: mpt_type_metatype_add_def Let_def q_def [symmetric] split: if_splits)
  then show ?thesis
  proof cases
    case same
    then show ?thesis using q by simp
  next
    case full
    then show ?thesis using q h cs by (auto simp: view_def registry_ok_def dyns_def ifs_def metas_def)
  next
    case new
    then have "concat (put_free ds e') = concat ds @ [e'] \<and> filled (put_free ds e') \<and> put_free ds e' \<noteq> []"
      using h put_free_filled [of ds e'] by auto
    then show ?thesis using q h cs new
      by (auto simp: view_def registry_ok_def dyns_def ifs_def metas_def numbered_def nth_append less_Suc_eq)
  qed
qed

lemma interface_add_ok:
  assumes "registry_ok r" "\<forall>i<10. al i" "mpt_type_interface_add al r name = Some (e, r')"
  shows "registry_ok r' \<and>
    (case e of None \<Rightarrow> view r' = view r
     | Some e \<Rightarrow> InterfaceBase \<le> ntype e \<and> ntype e \<le> InterfaceMax \<and> ifs r ! (ntype e - InterfaceBase) = None \<and>
         length (ifs r) = 64 \<and>
         view r' = (rext r, dyns r, (ifs r)[ntype e - InterfaceBase := Some e], metas r, concat (rgen r)))"
proof (cases "64 \<le> rpos r")
  case True
  then show ?thesis using assms by (simp add: mpt_type_interface_add_def)
next
  case False
  define q where "q = with_ifs al r"
  have q: "registry_ok q" "view q = view r" using with_ifs_view [OF assms(1,2)] by (simp_all add: q_def)
  obtain l where l: "rifs q = Some l" "ifs_ok (rpos q) l"
    using with_ifs_ok [of r al] assms(1,2) unfolding q_def by auto
  have li: "l = ifs r" using q(2) l(1) by (simp add: view_def ifs_def)
  have lt: "rpos q < 64" using False by (auto simp: q_def with_ifs_def)
  have nn: "l ! rpos q = None" using l(2) lt by (auto simp: ifs_ok_def split: option.splits)
  consider (same) "r' = q" "e = None"
    | (new) e' where "e = Some e'" "ntype e' = InterfaceBase + rpos q" "r' = q\<lparr>rifs := Some (l[rpos q := Some e']), rpos := rpos q + 1\<rparr>"
  proof -
    have f: "mpt_type_interface_add al r name = do {
        (ok, n) \<leftarrow> new_name (used_ifs q) name;
        if \<not> ok \<or> \<not> al 10 then Some (None, q)
        else do {
          l \<leftarrow> rifs q;
          let e = \<lparr>nname = n, ntype = InterfaceBase + rpos q, nsize = Some 8\<rparr>;
          Some (Some e, q\<lparr>rifs := Some (l[rpos q := Some e]), rpos := rpos q + 1\<rparr>) } }"
      using False by (simp add: mpt_type_interface_add_def Let_def q_def [symmetric])
    obtain b n where n: "new_name (used_ifs q) name = Some (b, n)"
      using assms(3) unfolding f by (cases "new_name (used_ifs q) name") auto
    show thesis
    proof (cases "\<not> b \<or> \<not> al 10")
      case True
      then show thesis using assms(3) same unfolding f n by simp
    next
      case False
      define e' where "e' = \<lparr>nname = n, ntype = InterfaceBase + rpos q, nsize = Some 8\<rparr>"
      have "e = Some e'" "r' = q\<lparr>rifs := Some (l[rpos q := Some e']), rpos := rpos q + 1\<rparr>"
        using assms(3) False unfolding f n by (auto simp add: l(1) Let_def e'_def)
      moreover have "ntype e' = InterfaceBase + rpos q" by (simp add: e'_def)
      ultimately show thesis by (intro new)
    qed
  qed
  then show ?thesis
  proof cases
    case same
    then show ?thesis using q by simp
  next
    case new
    have io: "ifs_ok (Suc (rpos q)) (l[rpos q := Some e'])"
      using l(2) lt new(2) by (auto simp: ifs_ok_def nth_list_update split: option.splits)
    have len: "length l = 64" using l(2) by (simp add: ifs_ok_def)
    have "registry_ok r'" using q(1) new(3) io by (simp add: registry_ok_def dyns_def metas_def)
    moreover have "view r' = (rext r, dyns r, (ifs r)[rpos q := Some e'], metas r, concat (rgen r))"
      using q(2) new(3) li by (simp add: view_def dyns_def ifs_def metas_def)
    ultimately show ?thesis using new(1,2) nn lt len li by simp
  qed
qed

text \<open>A registration: refused, or with the code it delivers and the item it is for.\<close>

definition delivered :: "int \<Rightarrow> (nat \<Rightarrow> tref) \<Rightarrow> (nat \<times> tref) option" where
  "delivered c x = (if c < 0 then None else Some (nat c, x (nat c)))"

definition delivered_entry :: "named option \<Rightarrow> (nat \<times> tref) option" where
  "delivered_entry e = map_option (\<lambda>e. (ntype e, Named e)) e"

datatype registration = Generic nat nat | Basic nat | Metatype "block option" | Interface "block option"

fun register :: "(nat \<Rightarrow> bool) \<Rightarrow> registration \<Rightarrow> registry \<Rightarrow> ((nat \<times> tref) option \<times> registry) option" where
  "register al (Generic ptr n) r = (let (c, r) = mpt_type_add al r ptr n in Some (delivered c (\<lambda>_. Custom ptr n), r))"
| "register al (Basic n) r =
    (let (c, r) = mpt_type_basic_add al r n in Some (delivered c (\<lambda>t. Table t (if n = 0 then 8 else n)), r))"
| "register al (Metatype name) r = map_option (map_prod delivered_entry (\<lambda>r. r)) (mpt_type_metatype_add al r name)"
| "register al (Interface name) r = map_option (map_prod delivered_entry (\<lambda>r. r)) (mpt_type_interface_add al r name)"

text \<open>The tables themselves can be created; other allocations may fail.\<close>

definition tables_ok :: "(nat \<Rightarrow> bool) \<Rightarrow> bool" where
  "tables_ok al \<longleftrightarrow> (\<forall>i<10. al i)"

inductive known_registry :: "registry \<Rightarrow> bool" where
  start: "known_registry (registry_init fx)"
| add: "known_registry r \<Longrightarrow> tables_ok al \<Longrightarrow> register al x r = Some (a, r') \<Longrightarrow> known_registry r'"


fun kind_range :: "registration \<Rightarrow> nat \<times> nat" where
  "kind_range (Generic ptr n) = (ValueAdd, ValueMax)"
| "kind_range (Basic n) = (DynamicBase, DynamicMax)"
| "kind_range (Metatype name) = (MetaPtrBase, MetaPtrMax)"
| "kind_range (Interface name) = (InterfaceBase, InterfaceMax)"

definition meaning_of :: "bool \<times> nat list \<times> named option list \<times> named list \<times> (nat \<times> nat) list \<Rightarrow> nat \<Rightarrow> tref option" where
  "meaning_of v = (case v of (fx, ds, is, ms, gs) \<Rightarrow> resolve fx ds is ms gs)"

lemma meaning_view: "registry_ok r \<Longrightarrow> meaning r c = Some (meaning_of (view r) c)"
  by (simp add: meaning_resolve meaning_of_def view_def)

text \<open>A registration refines what codes stand for by one code without meaning before.\<close>

definition adds :: "nat \<times> nat \<Rightarrow> (nat \<times> tref) option \<Rightarrow> (nat \<Rightarrow> tref option) \<Rightarrow> (nat \<Rightarrow> tref option) \<Rightarrow> bool" where
  "adds rg a f g = (case a of None \<Rightarrow> g = f
    | Some (c, x) \<Rightarrow> fst rg \<le> c \<and> c \<le> snd rg \<and> f c = None \<and> g = f(c \<mapsto> x))"

lemma resolve_dyn: "length ds < 64 \<Longrightarrow> 0 < n \<Longrightarrow>
  adds (DynamicBase, DynamicMax) (Some (DynamicBase + length ds, Table (DynamicBase + length ds) n))
    (resolve fx ds is ms gs) (resolve fx (ds @ [n]) is ms gs)"
  by (auto simp: adds_def resolve_def isScalar_def isVector_def Let_def nth_append fun_eq_iff)

lemma resolve_gen: "length gs < 0x700 \<Longrightarrow>
  adds (ValueAdd, ValueMax) (Some (ValueAdd + length gs, Custom p n))
    (resolve fx ds is ms gs) (resolve fx ds is ms (gs @ [(p, n)]))"
  by (auto simp: adds_def resolve_def isScalar_def isVector_def Let_def nth_append fun_eq_iff)

lemma resolve_meta: "length ms < 0x700 \<Longrightarrow> ntype e = MetaPtrBase + length ms \<Longrightarrow>
  adds (MetaPtrBase, MetaPtrMax) (delivered_entry (Some e))
    (resolve fx ds is ms gs) (resolve fx ds is (ms @ [e]) gs)"
  by (auto simp: adds_def delivered_entry_def resolve_def isScalar_def isVector_def Let_def nth_append fun_eq_iff)

lemma resolve_ifs: "InterfaceBase \<le> ntype e \<Longrightarrow> ntype e \<le> InterfaceMax \<Longrightarrow> is ! (ntype e - InterfaceBase) = None \<Longrightarrow>
  length is = 64 \<Longrightarrow>
  adds (InterfaceBase, InterfaceMax) (delivered_entry (Some e))
    (resolve fx ds is ms gs) (resolve fx ds (is[ntype e - InterfaceBase := Some e]) ms gs)"
  by (auto simp: adds_def delivered_entry_def resolve_def isScalar_def isVector_def Let_def nth_list_update fun_eq_iff)


lemma adds_refl [simp]: "adds rg None f f"
  by (simp add: adds_def)

lemma delivered_entry_None [simp]: "delivered_entry None = None"
  by (simp add: delivered_entry_def)

lemma register_ok:
  assumes "registry_ok r" "tables_ok al" "register al x r = Some (a, r')"
  shows "registry_ok r' \<and> adds (kind_range x) a (meaning_of (view r)) (meaning_of (view r'))"
proof (cases x)
  case (Generic ptr n)
  obtain c q where q: "mpt_type_add al r ptr n = (c, q)" by fastforce
  then have a: "a = delivered c (\<lambda>_. Custom ptr n)" "q = r'" using assms(3) Generic by simp_all
  note h = type_add_ok [OF assms(1) q [unfolded a(2)]]
  show ?thesis
  proof (cases "c < 0")
    case True
    then show ?thesis using h a by (simp add: delivered_def)
  next
    case False
    then have c: "nat c = ValueAdd + length (concat (rgen r))" "length (concat (rgen r)) < 0x700"
      and v: "view r' = (rext r, dyns r, ifs r, metas r, concat (rgen r) @ [(ptr, n)])" using h by (simp_all)
    have a': "a = Some (ValueAdd + length (concat (rgen r)), Custom ptr n)"
      unfolding a(1) delivered_def c(1) using False by simp
    show ?thesis using resolve_gen [OF c(2), of ptr n] h unfolding v a' Generic by (simp add: meaning_of_def view_def)
  qed
next
  case (Basic n)
  obtain c q where q: "mpt_type_basic_add al r n = (c, q)" by fastforce
  then have a: "a = delivered c (\<lambda>t. Table t (if n = 0 then 8 else n))" "q = r'" using assms(3) Basic by simp_all
  note h = basic_add_ok [OF assms(1) q [unfolded a(2)]]
  show ?thesis
  proof (cases "c < 0")
    case True
    then show ?thesis using h a by (simp add: delivered_def)
  next
    case False
    then have c: "nat c = DynamicBase + length (dyns r)" "length (dyns r) < 64"
      and v: "view r' = (rext r, dyns r @ [if n = 0 then 8 else n], ifs r, metas r, concat (rgen r))" using h by (simp_all)
    have a': "a = Some (DynamicBase + length (dyns r), Table (DynamicBase + length (dyns r)) (if n = 0 then 8 else n))"
      unfolding a(1) delivered_def c(1) using False by simp
    show ?thesis using resolve_dyn [OF c(2), of "if n = 0 then 8 else n"] h unfolding v a' Basic
      by (simp add: meaning_of_def view_def)
  qed
next
  case (Metatype name)
  obtain e where e: "mpt_type_metatype_add al r name = Some (e, r')" "a = delivered_entry e"
    using assms(3) Metatype by auto
  have al: "al 0" "al 1" using assms(2) by (simp_all add: tables_ok_def)
  note h = metatype_add_ok [OF assms(1) al e(1)]
  show ?thesis
  proof (cases e)
    case (Some i)
    then show ?thesis using h resolve_meta [of "metas r" i] unfolding e(2) Metatype
      by (simp add: meaning_of_def view_def)
  qed (use h e Metatype in simp)
next
  case (Interface name)
  obtain e where e: "mpt_type_interface_add al r name = Some (e, r')" "a = delivered_entry e"
    using assms(3) Interface by auto
  note h = interface_add_ok [OF assms(1) assms(2) [unfolded tables_ok_def] e(1)]
  show ?thesis
  proof (cases e)
    case (Some i)
    then show ?thesis using h resolve_ifs [of i "ifs r"] unfolding e(2) Interface
      by (simp add: meaning_of_def view_def)
  qed (use h e Interface in simp)
qed

lemma known_registry_ok: "known_registry r \<Longrightarrow> registry_ok r"
proof (induction rule: known_registry.induct)
  case (add r al x a r')
  show ?case using register_ok [OF add(4) add(2,3)] by (rule conjunct1)
qed (rule registry_ok_init)


section \<open>Registrations return\<close>

fun name_given :: "registration \<Rightarrow> bool" where
  "name_given (Metatype (Some s)) \<longleftrightarrow> 0 \<in> set s"
| "name_given (Interface (Some s)) \<longleftrightarrow> 0 \<in> set s"
| "name_given x \<longleftrightarrow> True"

lemma new_name_returns: "(\<forall>s. name = Some s \<longrightarrow> 0 \<in> set s) \<Longrightarrow> \<exists>b n. new_name es name = Some (b, n)"
  by (cases name) (auto simp: new_name_def c_strlen_def Let_def)

lemma metatype_add_returns:
  assumes "registry_ok r" "al 0" "al 1" "\<forall>s. name = Some s \<longrightarrow> 0 \<in> set s"
  shows "\<exists>e r'. mpt_type_metatype_add al r name = Some (e, r')"
proof -
  define q where "q = with_meta al r"
  obtain cs where cs: "rmeta q = Some cs" "rtail q" using with_meta_ok [OF assms(1-3)] unfolding q_def by auto
  obtain b n where n: "new_name (concat cs) name = Some (b, n)" using new_name_returns [OF assms(4)] by blast
  obtain c ds where p: "place True (al 2) MetaPtrMax MetaPtrBase cs = (c, ds)" by fastforce
  show ?thesis unfolding mpt_type_metatype_add_def q_def [symmetric] Let_def
    by (simp add: cs n p)
qed

lemma interface_add_returns:
  assumes "registry_ok r" "al 0" "\<forall>s. name = Some s \<longrightarrow> 0 \<in> set s"
  shows "\<exists>e r'. mpt_type_interface_add al r name = Some (e, r')"
proof -
  define q where "q = with_ifs al r"
  obtain l where l: "rifs q = Some l" using with_ifs_ok [of r al, OF assms(1,2)] unfolding q_def by auto
  obtain b n where n: "new_name (used_ifs q) name = Some (b, n)" using new_name_returns [OF assms(3)] by blast
  show ?thesis unfolding mpt_type_interface_add_def q_def [symmetric] Let_def
    by (simp add: l n)
qed

lemma register_returns:
  assumes "registry_ok r" "tables_ok al" "name_given x"
  shows "\<exists>a r'. register al x r = Some (a, r')"
proof (cases x)
  case (Metatype name)
  then have "\<forall>s. name = Some s \<longrightarrow> 0 \<in> set s" using assms(3) by auto
  then show ?thesis using metatype_add_returns [of r al name] assms Metatype by (fastforce simp: tables_ok_def)
next
  case (Interface name)
  then have "\<forall>s. name = Some s \<longrightarrow> 0 \<in> set s" using assms(3) by auto
  then show ?thesis using interface_add_returns [of r al name] assms Interface by (fastforce simp: tables_ok_def)
qed (simp_all split: prod.splits)

section \<open>Names\<close>

lemma strncmp_eq_take: "length n \<le> length s \<Longrightarrow> strncmp_eq n s = Some (take (length n) s = n)"
  by (induction n s rule: strncmp_eq.induct) auto

lemma exact_name_take: "n \<le> length s \<Longrightarrow> exact_name s (int n) e = Some (nname e = Some (take n s))"
  by (cases "nname e") (auto simp: exact_name_def strncmp_eq_take)

lemma find_m_find: "(\<And>x. f x = Some (p x)) \<Longrightarrow> find_m f xs = Some (find p xs)"
  by (induction xs) auto

definition entries :: "named option list \<Rightarrow> named list" where
  "entries l = concat (map (\<lambda>e. case e of None \<Rightarrow> [] | Some e \<Rightarrow> [e]) l)"

lemma entries_None: "(\<forall>x \<in> set l. x = None) \<Longrightarrow> entries l = []"
  by (induction l) (auto simp: entries_def)

lemma entries_take:
  assumes "ifs_ok n l"
  shows "entries (take n l) = entries l"
proof -
  have "\<forall>x \<in> set (drop n l). x = None"
  proof
    fix x
    assume "x \<in> set (drop n l)"
    then obtain i where i: "i < length (drop n l)" "x = drop n l ! i" by (metis in_set_conv_nth)
    then have "n + i < 64" "x = l ! (n + i)" using assms by (auto simp: ifs_ok_def)
    then show "x = None" using assms by (auto simp: ifs_ok_def split: option.splits)
  qed
  then have "entries (drop n l) = []" by (rule entries_None)
  moreover have "entries l = entries (take n l) @ entries (drop n l)"
    unfolding entries_def by (metis append_take_drop_id concat_append map_append)
  ultimately show ?thesis by simp
qed

lemma entries_iff: "e \<in> set (entries l) \<longleftrightarrow> (\<exists>i < length l. l ! i = Some e)"
proof -
  have "e \<in> set (entries l) \<longleftrightarrow> Some e \<in> set l"
    by (induction l) (auto simp: entries_def split: option.splits)
  then show ?thesis by (simp add: in_set_conv_nth)
qed

lemma find_append: "find p (xs @ ys) = (case find p xs of None \<Rightarrow> find p ys | Some x \<Rightarrow> Some x)"
  by (induction xs) auto

lemma find_named_view:
  assumes "registry_ok r" "\<And>e. f e = Some (p e)"
  shows "\<exists>r'. find_named (\<lambda>_. True) r f = Some (find p (metas r @ entries (ifs r)), r')"
proof -
  define q where "q = with_meta (\<lambda>_. True) r"
  obtain cs where cs: "rmeta q = Some cs" "rtail q" "concat cs = metas r"
    using with_meta_ok [OF assms(1), of "\<lambda>_. True"] unfolding q_def by auto
  have q: "registry_ok q" "ifs q = ifs r" using with_meta_view [OF assms(1), of "\<lambda>_. True"] by (simp_all add: q_def view_def)
  define w where "w = with_ifs (\<lambda>_. True) q"
  obtain l where l: "rifs w = Some l" "ifs_ok (rpos w) l" "l = ifs q"
    using with_ifs_ok [OF q(1), of "\<lambda>_. True"] unfolding w_def by auto
  have u: "used_ifs w = entries (ifs r)"
    using entries_take [OF l(2)] l(1,3) q(2) by (simp add: used_ifs_def entries_def)
  show ?thesis unfolding find_named_def q_def [symmetric] Let_def
    by (simp add: cs find_m_find [OF assms(2)] w_def [symmetric] u find_append split: option.splits)
qed

lemma entries_meaning:
  assumes "registry_ok r" "e \<in> set (metas r @ entries (ifs r))"
  shows "meaning r (ntype e) = Some (Some (Named e))"
proof -
  consider (meta) i where "i < length (metas r)" "metas r ! i = e" | (ifc) i where "i < length (ifs r)" "ifs r ! i = Some e"
    using assms(2) unfolding set_append Un_iff entries_iff by (auto simp: in_set_conv_nth [of e "metas r"])
  then show ?thesis
  proof cases
    case meta
    then have "ntype e = MetaPtrBase + i" "length (metas r) \<le> 0x700"
      using assms(1) by (auto simp: registry_ok_def numbered_def)
    then show ?thesis using meta
      by (auto simp: meaning_resolve [OF assms(1)] resolve_def isScalar_def isVector_def)
  next
    case ifc
    have "\<exists>n. ifs_ok n (ifs r)" using with_ifs_ok [OF assms(1), of "\<lambda>_. True"] by auto
    then have "ntype e = InterfaceBase + i" "i < 64" using ifc by (auto simp: ifs_ok_def split: option.splits)
    then show ?thesis using ifc
      by (auto simp: meaning_resolve [OF assms(1)] resolve_def isScalar_def isVector_def)
  qed
qed


text \<open>Vectors of any type, and of the scalar \<open>'z'\<close> that counts as scalar, have no traits.\<close>

lemma vector_codes_unknown: "registry_ok r \<Longrightarrow> meaning r 0x40 = Some None \<and> isScalar 0x7a \<and> \<not> isVector 0x5a"
  by (simp add: meaning_resolve resolve_def isScalar_def isVector_def table_size_def scalar_sizes_def)

text \<open>The codes of integers with a given size have traits with that size.\<close>

lemma type_int_cases:
  "mpt_type_int n \<noteq> 0 \<Longrightarrow> (n, mpt_type_int n) \<in> {(1, 98), (2, 110), (4, 105), (8, 120)}"
  "mpt_type_uint n \<noteq> 0 \<Longrightarrow> (n, mpt_type_uint n) \<in> {(1, 121), (2, 113), (4, 117), (8, 116)}"
  by (simp_all add: mpt_type_int_def mpt_type_uint_def type_char_def split: if_splits)

lemma resolve_integer:
  "(n, k) \<in> {(1, 98), (2, 110), (4, 105), (8, 120), (1, 121), (2, 113), (4, 117), (8, 116 :: int)} \<Longrightarrow>
   resolve fx ds is ms gs (nat k) = Some (Table (nat k) n)"
  by (elim insertE emptyE Pair_inject) (simp_all add: resolve_def isScalar_def table_size_def scalar_sizes_def)

lemma integer_codes:
  assumes "registry_ok r"
  shows "mpt_type_int n \<noteq> 0 \<Longrightarrow> meaning r (nat (mpt_type_int n)) = Some (Some (Table (nat (mpt_type_int n)) n))"
    and "mpt_type_uint n \<noteq> 0 \<Longrightarrow> meaning r (nat (mpt_type_uint n)) = Some (Some (Table (nat (mpt_type_uint n)) n))"
  unfolding meaning_resolve [OF assms] by (rule arg_cong [of _ _ Some], rule resolve_integer, use type_int_cases in blast)+

section \<open>Properties\<close>

text \<open>Property C17: whatever was registered before, a registration of any of the four kinds returns.  It either
  changes nothing that a code stands for, or delivers a code in the range of its kind that stood for
  nothing, stands for the registered item from then on, and leaves the meaning of all other codes as it was.\<close>

theorem types_registered:
  assumes "known_registry r" "tables_ok al" "name_given x"
  shows "\<exists>a r'. register al x r = Some (a, r') \<and>
    (case a of None \<Rightarrow> (\<forall>c. meaning r' c = meaning r c)
     | Some (c, t) \<Rightarrow> fst (kind_range x) \<le> c \<and> c \<le> snd (kind_range x) \<and> meaning r c = Some None \<and>
         meaning r' = (meaning r)(c := Some (Some t)))"
proof -
  have r: "registry_ok r" using assms(1) by (rule known_registry_ok)
  obtain a r' where a: "register al x r = Some (a, r')" using register_returns [OF r assms(2,3)] by blast
  note h = register_ok [OF r assms(2) a]
  have m: "meaning r = (\<lambda>c. Some (meaning_of (view r) c))" "meaning r' = (\<lambda>c. Some (meaning_of (view r') c))"
    using r h by (simp_all add: fun_eq_iff meaning_view)
  show ?thesis
    by (intro exI [of _ a] exI [of _ r'])
      (use a h in \<open>auto simp: m adds_def fun_eq_iff split: option.splits\<close>)
qed

definition first_registry :: registry where
  "first_registry = snd (the (register (\<lambda>_. True) (Metatype (Some [99, 111, 108, 111, 114, 0])) (registry_init True)))"

lemma first_registry_known: "known_registry first_registry"
proof -
  have "\<exists>a. register (\<lambda>_. True) (Metatype (Some [99, 111, 108, 111, 114, 0])) (registry_init True) = Some (a, first_registry)"
    by (simp add: first_registry_def registry_init_def mpt_type_metatype_add_def with_meta_def new_name_def c_strlen_def
        meta_base_def Let_def)
  moreover have "tables_ok (\<lambda>_. True)" by (simp add: tables_ok_def)
  ultimately show ?thesis using known_registry.add [OF known_registry.start] by blast
qed

lemma types_registered_witness:
  "\<exists>a r'. register (\<lambda>i. i < 20) (Basic 12) first_registry = Some (a, r') \<and>
    (case a of None \<Rightarrow> (\<forall>c. meaning r' c = meaning first_registry c)
     | Some (c, t) \<Rightarrow> 0xc0 \<le> c \<and> c \<le> 0xff \<and> meaning first_registry c = Some None \<and>
         meaning r' = (meaning first_registry)(c := Some (Some t)))"
proof -
  have "tables_ok (\<lambda>i. i < 20)" "name_given (Basic 12)" by (simp_all add: tables_ok_def)
  then show ?thesis
    by (rule types_registered [OF first_registry_known, of _ "Basic 12", unfolded kind_range.simps fst_conv snd_conv])
qed

text \<open>Property C40: a name with its length is looked up among the metatypes in the order of their registration and
  then among the interfaces, and the code of the entry found stands for that entry.\<close>

theorem named_types_found:
  assumes "known_registry r" "0 < n" "n \<le> length s" "hd s \<noteq> 0"
  shows "\<exists>e r'. mpt_named_traits (\<lambda>_. True) r (Some s) (int n) = Some (e, r') \<and>
    e = find (\<lambda>e. nname e = Some (take n s)) (metas r @ entries (ifs r)) \<and>
    (case e of None \<Rightarrow> True | Some e \<Rightarrow> meaning r (ntype e) = Some (Some (Named e)))"
proof -
  have r: "registry_ok r" using assms(1) by (rule known_registry_ok)
  define p where "p = (\<lambda>e :: named. nname e = Some (take n s))"
  obtain r' where f: "find_named (\<lambda>_. True) r (exact_name s (int n)) = Some (find p (metas r @ entries (ifs r)), r')"
    using find_named_view [OF r, of "exact_name s (int n)" p] exact_name_take [OF assms(3)] unfolding p_def by blast
  have "rd s 0 1 = Some [hd s]" using assms(2,3) by (cases s) (simp_all add: rd_def)
  then have "mpt_named_traits (\<lambda>_. True) r (Some s) (int n) = Some (find p (metas r @ entries (ifs r)), r')"
    using f assms(2,4) by (simp add: mpt_named_traits_def)
  moreover have "case find p (metas r @ entries (ifs r)) of None \<Rightarrow> True | Some e \<Rightarrow> meaning r (ntype e) = Some (Some (Named e))"
  proof (cases "find p (metas r @ entries (ifs r))")
    case (Some e)
    then have "e \<in> set (metas r @ entries (ifs r))" by (metis find_Some_iff nth_mem)
    then show ?thesis using entries_meaning [OF r] Some by simp
  qed simp
  ultimately show ?thesis unfolding p_def by blast
qed

lemma named_types_found_witness:
  "\<exists>e r'. mpt_named_traits (\<lambda>_. True) first_registry (Some [99, 111, 108, 111, 114, 58, 97, 0]) (int 5) = Some (e, r') \<and>
    e = find (\<lambda>e. nname e = Some (take 5 [99, 111, 108, 111, 114, 58, 97, 0])) (metas first_registry @ entries (ifs first_registry)) \<and>
    (case e of None \<Rightarrow> True | Some e \<Rightarrow> meaning first_registry (ntype e) = Some (Some (Named e)))"
  by (rule named_types_found [OF first_registry_known]) simp_all

end
