(* ===== verification/Coding.thy ===== *)
theory Coding
  imports MptBase
begin

text \<open>
  States and signatures of the message encoders and decoders (\<open>mptcore/core.h\<close>,
  \<open>mptcore/convert.h\<close>), the parameters of the COBS variants (the macros of
  \<open>encode_cobs.c\<close>, \<open>encode_cobs_zpe.c\<close>, \<open>decode_cobs.c\<close>, \<open>decode_cobs_zpe.c\<close>), and the
  specification of a COBS stream: an automaton that takes one encoded byte at a time.
\<close>

section \<open>States\<close>

record encode_state =
  ectx :: nat
  edone :: nat
  escratch :: nat

definition MPT_ENCODE_INIT :: encode_state where
  "MPT_ENCODE_INIT = \<lparr>ectx = 0, edone = 0, escratch = 0\<rparr>"

text \<open>The members of the inner structure \<open>data\<close> are \<open>dpos\<close>, \<open>dlen\<close> and \<open>dmsg\<close>.\<close>

record decode_state =
  dctx :: nat
  dcurr :: nat
  dpos :: nat
  dlen :: nat
  dmsg :: int

definition MPT_DECODE_INIT :: decode_state where
  "MPT_DECODE_INIT = \<lparr>dctx = 0, dcurr = 0, dpos = 0, dlen = 0, dmsg = - 1\<rparr>"

text \<open>An element of a vector as an argument: base (absent for a null pointer) and length.  A block that
  is passed has that length.\<close>

type_synonym iov = "block option \<times> nat"

text \<open>\<open>MPT_TYPE(data_encoder)\<close>: state, target and source (null or an element); the result has the state
  and the bytes of the target.\<close>

type_synonym encoder = "encode_state \<Rightarrow> iov option \<Rightarrow> iov option \<Rightarrow> (int \<times> encode_state \<times> block option) option"

text \<open>\<open>MPT_TYPE(data_decoder)\<close>: state, vector of elements with their addresses and number of elements;
  the result has the state and the bytes of the elements.\<close>

type_synonym vec = "(nat \<times> block) list"
type_synonym decoder = "decode_state \<Rightarrow> vec option \<Rightarrow> nat \<Rightarrow> (int \<times> decode_state \<times> vec option) option"

section \<open>Variants\<close>

datatype variant = COBS | ZPE

text \<open>\<open>MPT_COBS_MAXLEN\<close>, \<open>MPT_cobs_len_data\<close>, \<open>MPT_cobs_len_zero\<close>, \<open>MPT_cobs_max_dec\<close>.\<close>

fun cobs_max :: "variant \<Rightarrow> nat" where
  "cobs_max COBS = 255"
| "cobs_max ZPE = 223"

fun cobs_len_data :: "variant \<Rightarrow> nat \<Rightarrow> nat" where
  "cobs_len_data COBS c = c - 1"
| "cobs_len_data ZPE c = (if c \<le> 223 then c - 1 else c - 224)"

fun cobs_len_zero :: "variant \<Rightarrow> nat \<Rightarrow> nat \<Rightarrow> nat" where
  "cobs_len_zero COBS c n = (if c < 255 \<and> n \<noteq> 0 then 1 else 0)"
| "cobs_len_zero ZPE c n = (if c \<ge> 224 then 2 else if c < 223 \<and> n \<noteq> 0 then 1 else 0)"

fun cobs_max_dec :: "variant \<Rightarrow> nat \<Rightarrow> nat" where
  "cobs_max_dec COBS c = c - c div 255"
| "cobs_max_dec ZPE c = c * 2"

text \<open>\<open>MPT_cobs_zero\<close>: the code that is stored for a block ended by a zero byte, and the rest of the
  source.\<close>

fun cobs_zero :: "variant \<Rightarrow> nat \<Rightarrow> block \<Rightarrow> nat \<times> block" where
  "cobs_zero COBS c src = (c, src)"
| "cobs_zero ZPE c src =
     (if src \<noteq> [] \<and> c > 1 \<and> c < 32 \<and> hd src = 0 then (c + 223, tl src) else (c, src))"

section \<open>Specification of an encoded stream\<close>

text \<open>Before a message, inside of a block (code, number of data bytes and decoded bytes so far),
  complete message, zero byte inside of a block, zero byte where a message has to start.\<close>

datatype cstate = Idle | Blk nat nat block | Msg block | Cut nat block | Bad

fun terminal :: "cstate \<Rightarrow> bool" where
  "terminal (Msg _) = True"
| "terminal (Cut _ _) = True"
| "terminal Bad = True"
| "terminal _ = False"

fun feed :: "variant \<Rightarrow> cstate \<Rightarrow> byte \<Rightarrow> cstate" where
  "feed V Idle b = (if b = 0 then Bad else Blk (unat b) 0 [])"
| "feed V (Blk c p out) b =
     (if p < cobs_len_data V c then (if b = 0 then Cut c out else Blk c (p + 1) (out @ [b]))
      else (let out' = out @ replicate (cobs_len_zero V c (unat b)) 0
            in if b = 0 then Msg out' else Blk (unat b) 0 out'))"
| "feed V s b = s"

text \<open>The automaton stops in a terminal state: state and number of bytes taken.\<close>

fun run :: "variant \<Rightarrow> cstate \<Rightarrow> block \<Rightarrow> cstate \<times> nat" where
  "run V s [] = (s, 0)"
| "run V s (b # bs) =
     (let t = feed V s b in
      if terminal t then (t, 1) else (let (u, k) = run V t bs in (u, k + 1)))"

text \<open>What a frame means: with tail inlining a cut block ends with its code as last byte.\<close>

definition frame_of :: "variant \<Rightarrow> bool \<Rightarrow> block \<Rightarrow> block option" where
  "frame_of V R bs = (case run V Idle bs of
     (Msg out, k) \<Rightarrow> if k = length bs then Some out else None
   | (Cut c out, k) \<Rightarrow> if R \<and> k = length bs then Some (out @ [of_nat c]) else None
   | _ \<Rightarrow> None)"

lemma run_append:
  "run V s xs = (t, length xs) \<Longrightarrow> \<not> terminal t \<Longrightarrow>
   run V s (xs @ ys) = (let (u, k) = run V t ys in (u, length xs + k))"
proof (induction xs arbitrary: s)
  case (Cons x xs)
  show ?case
  proof (cases "terminal (feed V s x)")
    case True
    with Cons.prems show ?thesis by (auto simp: Let_def)
  next
    case False
    with Cons show ?thesis by (auto simp: Let_def split: prod.splits)
  qed
qed (simp add: split_def)

lemma run_data:
  assumes "0 \<notin> set xs" and "p + length xs \<le> cobs_len_data V c"
  shows "run V (Blk c p out) xs = (Blk c (p + length xs) (out @ xs), length xs)"
  using assms by (induction xs arbitrary: p out) (auto simp: Let_def)

end
