(* ===== verification/CobsEncode.thy ===== *)
theory CobsEncode
  imports Coding
begin

text \<open>
  The COBS encoders of \<open>mptcore/convert/\<close>: \<open>encode_cobs.c\<close>, also compiled as COBS/ZPE by
  \<open>encode_cobs_zpe.c\<close>, and the tail inlining variants of \<open>encode_cobs_r.c\<close>.

  The target is one block: \<open>done\<close> bytes of finished blocks, then \<open>scratch\<close> bytes of the
  block in progress (its code byte first).  The lemmas relate this state to the message pushed so
  far by way of the stream automaton of \<open>Coding\<close>.
\<close>

section \<open>Model\<close>

text \<open>The loop over the source: \<open>p\<close> is the place \<open>dst\<close> points to.  Results are the target, \<open>dst\<close>,
  \<open>left\<close>, \<open>code\<close> and the source bytes that are left.\<close>

lemma cobs_zero_length: "cobs_zero V c src = (v, rest) \<Longrightarrow> length rest \<le> length src"
  by (cases V) (auto split: if_splits)

function encode_loop :: "variant \<Rightarrow> block \<Rightarrow> nat \<Rightarrow> nat \<Rightarrow> nat \<Rightarrow> block
    \<Rightarrow> (block \<times> nat \<times> nat \<times> nat \<times> block) option" where
  "encode_loop V buf p left code [] = do {
     buf \<leftarrow> wr buf (p - code) [of_nat code];
     Some (buf, p, left, code, []) }"
| "encode_loop V buf p left code (c # src) =
     (if c = 0 then
        (case cobs_zero V code src of (v, src) \<Rightarrow> do {
           buf \<leftarrow> wr buf (p - code) [of_nat v];
           (if left - 1 = 0 then do {
              buf \<leftarrow> wr buf (p + 1 - 1) [1];
              Some (buf, p + 1, left - 1, 1, src) }
            else encode_loop V buf (p + 1) (left - 1) 1 src) })
      else do {
        buf \<leftarrow> wr buf p [c];
        (if (code + 1) mod 256 = cobs_max V then
           (if left - 1 = 0 then do {
              buf \<leftarrow> wr buf (p - code) [of_nat code];
              Some (buf, p, left - 1, code, c # src) }
            else do {
              buf \<leftarrow> wr buf (p + 1 - cobs_max V) [of_nat (cobs_max V)];
              (if left - 1 - 1 = 0 then do {
                 buf \<leftarrow> wr buf (p + 2 - 1) [1];
                 Some (buf, p + 2, left - 1 - 1, 1, src) }
               else encode_loop V buf (p + 2) (left - 1 - 1) 1 src) })
         else if left - 1 = 0 then do {
           buf \<leftarrow> wr buf (p + 1 - (code + 1) mod 256) [of_nat (code + 1)];
           Some (buf, p + 1, left - 1, (code + 1) mod 256, src) }
         else encode_loop V buf (p + 1) (left - 1) ((code + 1) mod 256) src) })"
  by pat_completeness auto
termination
  by (relation "measure (\<lambda>(V, buf, p, left, code, src). length src)")
    (auto dest!: cobs_zero_length [OF sym])

text \<open>Message termination (\<open>base\<close> is null); \<open>left\<close> is the size behind the finished blocks.\<close>

definition encode_end :: "encode_state \<Rightarrow> block \<Rightarrow> nat \<Rightarrow> nat \<Rightarrow> (int \<times> encode_state \<times> block option) option" where
  "encode_end info buf code left =
     (if code \<ge> left then Some (MissingBuffer, info, Some buf)
      else if code = 0 then
        (if left < 2 then Some (MissingBuffer, info, Some buf)
         else do {
           buf \<leftarrow> wr buf (edone info) [1, 0];
           Some (0, \<lparr>ectx = 0, edone = 2, escratch = 0\<rparr>, Some buf) })
      else do {
        buf \<leftarrow> wr buf (edone info) [of_nat code];
        buf \<leftarrow> wr buf (edone info + code) [0];
        Some (0, \<lparr>ectx = 0, edone = edone info + (code + 1) mod 256, escratch = 0\<rparr>, Some buf) })"

text \<open>Message deletion (source without data): \<open>mpt_memrchr\<close> is called on the null source with the length
  of the finished data.\<close>

definition encode_delete :: "encode_state \<Rightarrow> block \<Rightarrow> nat \<Rightarrow> (int \<times> encode_state \<times> block option) option" where
  "encode_delete info buf len =
     (let len = (if ectx info \<noteq> 0 then len - 1 else len) in
      if len = 0 then
        Some (int (edone info), \<lparr>ectx = 0, edone = edone info, escratch = 0\<rparr>, Some buf)
      else if edone info = 0 then Some (BadValue, info, Some buf)
      else None)"

text \<open>Adding data.\<close>

definition encode_data :: "variant \<Rightarrow> encode_state \<Rightarrow> block \<Rightarrow> nat \<Rightarrow> nat \<Rightarrow> block \<Rightarrow> nat
    \<Rightarrow> (int \<times> encode_state \<times> block option) option" where
  "encode_data V info buf code left src siz =
     (if (if code \<noteq> 0 then left - code = 0 else left \<le> 1) then Some (MissingBuffer, info, Some buf)
      else
        (let (code, left) = (if code \<noteq> 0 then (code, left - code) else (1, left - 1)) in do {
           (buf', p, left', code', rest) \<leftarrow> encode_loop V buf (edone info + code) left code src;
           (let used = siz - left' in
            Some (int (length src) - int (length rest),
              \<lparr>ectx = ectx info + usub (usub used (edone info)) (escratch info),
                 edone = used - code', escratch = code'\<rparr>, Some buf')) }))"

definition mpt_encode :: "variant \<Rightarrow> encoder" where
  "mpt_encode V info cobs base = (case cobs of
     None \<Rightarrow> Some (0, MPT_ENCODE_INIT, None)
   | Some (None, siz) \<Rightarrow>
       Some (if escratch info mod 256 \<noteq> 0 \<or> edone info \<noteq> 0 \<or> siz \<noteq> 0 then BadArgument else MissingBuffer,
         info, None)
   | Some (Some buf, siz) \<Rightarrow>
       (let code = escratch info mod 256 in
        if edone info > siz \<or> code > siz - edone info then Some (BadArgument, info, Some buf)
        else (case base of
            None \<Rightarrow> encode_end info buf code (siz - edone info)
          | Some (src, len) \<Rightarrow>
              if len = 0 then Some (BadValue, info, Some buf)
              else (case src of
                  None \<Rightarrow> encode_delete info buf len
                | Some xs \<Rightarrow> encode_data V info buf code (siz - edone info) xs siz))))"

definition mpt_encode_cobs :: encoder where
  "mpt_encode_cobs = mpt_encode COBS"

definition mpt_encode_cobs_zpe :: encoder where
  "mpt_encode_cobs_zpe = mpt_encode ZPE"

text \<open>\<open>MPT_cobs_check_inline\<close>: the last data byte where it can take the place of the code.\<close>

fun cobs_check_inline :: "variant \<Rightarrow> nat \<Rightarrow> block \<Rightarrow> nat \<Rightarrow> byte option option" where
  "cobs_check_inline COBS c buf p = do {
     e \<leftarrow> rd buf (p + c - 1) 1;
     Some (if c < unat (hd e) then Some (hd e) else None) }"
| "cobs_check_inline ZPE c buf p =
     (if c \<le> 223 then do {
        e \<leftarrow> rd buf (p + c - 1) 1;
        Some (if c < unat (hd e) \<and> unat (hd e) \<le> 223 then Some (hd e) else None) }
      else Some None)"

definition mpt_encode_r :: "variant \<Rightarrow> encoder" where
  "mpt_encode_r V info cobs base =
     (if cobs = None \<or> base \<noteq> None \<or> escratch info = 0 then mpt_encode V info cobs base
      else (case cobs of
          Some (Some buf, siz) \<Rightarrow>
            (let off = edone info; code = escratch info in
             if off > siz then Some (- 1, info, Some buf)
             else do {
               e \<leftarrow> (if code > 1 then cobs_check_inline V code buf off else Some None);
               (case e of
                  None \<Rightarrow>
                    (if siz \<le> off then Some (- 2, info, Some buf)
                     else do {
                       buf \<leftarrow> wr buf off [of_nat code];
                       buf \<leftarrow> wr buf (off + code) [0];
                       Some (0, \<lparr>ectx = 0, edone = off + (code + 1), escratch = 0\<rparr>, Some buf) })
                | Some v \<Rightarrow> do {
                    buf \<leftarrow> wr buf off [v];
                    buf \<leftarrow> wr buf (off + (code - 1)) [0];
                    Some (0, \<lparr>ectx = 0, edone = off + code, escratch = 0\<rparr>, Some buf) }) })
        | Some (None, _) \<Rightarrow> Some (- 1, info, None)
        | None \<Rightarrow> None))"

definition mpt_encode_cobs_r :: encoder where
  "mpt_encode_cobs_r = mpt_encode_r COBS"

definition mpt_encode_cobs_zpe_r :: encoder where
  "mpt_encode_cobs_zpe_r = mpt_encode_r ZPE"

section \<open>Specification\<close>

text \<open>Finished blocks \<open>d\<close> whose decoded bytes are \<open>m\<close> as soon as a next block begins.\<close>

definition enc_upto :: "variant \<Rightarrow> block \<Rightarrow> block \<Rightarrow> bool" where
  "enc_upto V d m \<longleftrightarrow> 0 \<notin> set d \<and> (\<forall>c. 0 < c \<longrightarrow> c < 256 \<longrightarrow>
     run V Idle (d @ [of_nat c]) = (Blk c 0 m, length d + 1))"

text \<open>The encoder state: behind \<open>pre\<close>, finished blocks, the place of the code byte, and the data of the
  block in progress; all together encode the message \<open>m\<close>.\<close>

definition enc_rel :: "variant \<Rightarrow> block \<Rightarrow> block \<Rightarrow> nat \<Rightarrow> nat \<Rightarrow> block \<Rightarrow> bool" where
  "enc_rel V pre buf off code m \<longleftrightarrow> (\<exists>d x cur rest m0. buf = pre @ d @ [x] @ cur @ rest
     \<and> off = length pre + length d \<and> code = length cur + 1 \<and> code < cobs_max V
     \<and> 0 \<notin> set cur \<and> enc_upto V d m0 \<and> m = m0 @ cur)"

text \<open>State of a message in progress; without data there is no block yet.\<close>

definition enc_state :: "variant \<Rightarrow> block \<Rightarrow> encode_state \<Rightarrow> block \<Rightarrow> block \<Rightarrow> bool" where
  "enc_state V pre info buf m \<longleftrightarrow>
     (if escratch info = 0 then m = [] \<and> edone info = length pre \<and> take (length pre) buf = pre
      else enc_rel V pre buf (edone info) (escratch info) m)"

text \<open>The size of the block in progress, with the code byte that a first push adds.\<close>

definition enc_code :: "encode_state \<Rightarrow> nat" where
  "enc_code info = (if escratch info = 0 then 1 else escratch info)"

text \<open>Free space that is enough for \<open>n\<close> bytes and the end of the message.\<close>

definition enc_space :: "variant \<Rightarrow> nat \<Rightarrow> nat \<Rightarrow> nat" where
  "enc_space V code n = n + (code - 1 + n) div (cobs_max V - 1)"

text \<open>A complete encoding: pushes, then the end of the message.\<close>

fun encode_chunks :: "encoder \<Rightarrow> encode_state \<Rightarrow> block \<Rightarrow> block list \<Rightarrow> (encode_state \<times> block) option" where
  "encode_chunks enc info buf [] =
     (case enc info (Some (Some buf, length buf)) None of
        Some (r, info', Some buf') \<Rightarrow> if r = 0 then Some (info', buf') else None
      | _ \<Rightarrow> None)"
| "encode_chunks enc info buf (c # cs) =
     (case enc info (Some (Some buf, length buf)) (Some (Some c, length c)) of
        Some (r, info', Some buf') \<Rightarrow> if r = int (length c) then encode_chunks enc info' buf' cs else None
      | _ \<Rightarrow> None)"

section \<open>Lemmas\<close>

lemma cobs_max_range: "1 < cobs_max V" "cobs_max V \<le> 255"
  by (cases V; simp)+

lemma len_data_plain: "c \<le> cobs_max V \<Longrightarrow> cobs_len_data V c = c - 1"
  by (cases V) auto

lemma byte_of_nat: "c < 256 \<Longrightarrow> unat (of_nat c :: byte) = c"
  by (simp add: unat_of_nat)

lemma byte_of_nat_nz: "0 < c \<Longrightarrow> c < 256 \<Longrightarrow> of_nat c \<noteq> (0 :: byte)"
  using byte_of_nat [of c] by auto

lemma enc_upto_Nil: "enc_upto V [] []"
  by (auto simp: enc_upto_def Let_def byte_of_nat dest: byte_of_nat_nz)

lemma enc_block:
  assumes "enc_upto V d m" and "0 < v" "v < 256" and "0 \<notin> set cur" and "length cur \<le> cobs_len_data V v"
  shows "run V Idle (d @ of_nat v # cur) = (Blk v (length cur) (m @ cur), length (d @ of_nat v # cur))"
proof -
  have "run V Idle (d @ [of_nat v]) = (Blk v 0 m, length (d @ [of_nat v]))"
    using assms(1-3) by (simp add: enc_upto_def)
  from run_append [OF this, of cur] run_data [OF assms(4), of 0 V v m] assms(5) show ?thesis by simp
qed

lemma enc_upto_block:
  assumes "enc_upto V d m" and "0 < v" "v < 256" and "0 \<notin> set cur" and "length cur = cobs_len_data V v"
    and z: "\<And>n. 0 < n \<Longrightarrow> n < 256 \<Longrightarrow> cobs_len_zero V v n = k"
  shows "enc_upto V (d @ of_nat v # cur) (m @ cur @ replicate k 0)"
  unfolding enc_upto_def
proof (intro conjI allI impI)
  from byte_of_nat_nz [OF assms(2,3)] show "0 \<notin> set (d @ of_nat v # cur)" using assms(1,4) by (auto simp: enc_upto_def)
next
  fix c :: nat assume c: "0 < c" "c < 256"
  note nz = byte_of_nat_nz [OF c] and u = byte_of_nat [OF c(2)]
  have "run V (Blk v (length cur) (m @ cur)) [of_nat c] = (Blk c 0 ((m @ cur) @ replicate k 0), 1)"
    using assms(5) z c nz u by (simp add: Let_def)
  with run_append [OF enc_block [OF assms(1-4)], of "[of_nat c]"] assms(5)
  show "run V Idle ((d @ of_nat v # cur) @ [of_nat c]) = (Blk c 0 (m @ cur @ replicate k 0), length (d @ of_nat v # cur) + 1)"
    by simp
qed

lemma enc_upto_zero:
  assumes "enc_upto V d m" and "0 \<notin> set cur" and "length cur + 1 < cobs_max V"
  shows "enc_upto V (d @ of_nat (length cur + 1) # cur) (m @ cur @ [0])"
  using enc_upto_block [OF assms(1) _ _ assms(2), of "length cur + 1" 1] assms(3) cobs_max_range [of V]
  by (cases V) auto

lemma enc_upto_full:
  assumes "enc_upto V d m" and "0 \<notin> set cur" and "length cur + 1 = cobs_max V"
  shows "enc_upto V (d @ of_nat (cobs_max V) # cur) (m @ cur)"
  using enc_upto_block [OF assms(1) _ _ assms(2), of "cobs_max V" 0] assms(3) cobs_max_range [of V]
  by (cases V) auto

lemma enc_upto_pair:
  assumes "enc_upto ZPE d m" and "0 \<notin> set cur" and "0 < length cur" and "length cur + 1 < 32"
  shows "enc_upto ZPE (d @ of_nat (length cur + 224) # cur) (m @ cur @ [0, 0])"
  using enc_upto_block [OF assms(1) _ _ assms(2), of "length cur + 224" 2] assms(3,4)
  by (auto simp: numeral_2_eq_2)

lemma enc_end:
  assumes "enc_upto V d m" and "0 \<notin> set cur" and "length cur + 1 < cobs_max V"
  shows "run V Idle (d @ of_nat (length cur + 1) # cur @ [0]) = (Msg (m @ cur), length (d @ of_nat (length cur + 1) # cur @ [0]))"
proof -
  let ?v = "length cur + 1"
  have l: "cobs_len_data V ?v = length cur" "?v < 256" using assms(3) cobs_max_range [of V] by (simp_all add: len_data_plain)
  have z: "cobs_len_zero V ?v 0 = 0" using assms(3) by (cases V) auto
  have "run V (Blk ?v (length cur) (m @ cur)) [0] = (Msg (m @ cur), 1)" using l z by (simp add: Let_def)
  with run_append [OF enc_block [OF assms(1) _ _ assms(2)], of ?v "[0]"] l show ?thesis by simp
qed

text \<open>Each write of the loop keeps the relation.\<close>

lemma rel_code:
  assumes "enc_rel V pre buf off code m"
  shows "\<exists>b. wr buf off [x] = Some b \<and> enc_rel V pre b off code m \<and> length b = length buf"
proof -
  from assms obtain d y cur rest m0 where e: "buf = pre @ d @ [y] @ cur @ rest"
    "off = length pre + length d" "code = length cur + 1" "code < cobs_max V" "0 \<notin> set cur" "enc_upto V d m0" "m = m0 @ cur"
    by (auto simp: enc_rel_def)
  have "wr buf off [x] = Some (pre @ d @ [x] @ cur @ rest)"
    using wr_parts [of off "pre @ d" "[x]" "[y]" "cur @ rest"] e by simp
  moreover have "enc_rel V pre (pre @ d @ [x] @ cur @ rest) off code m"
    unfolding enc_rel_def using e by blast
  ultimately show ?thesis using e by simp
qed

lemma rel_data:
  assumes "enc_rel V pre buf off code m" and "c \<noteq> 0" and "code + 1 < cobs_max V" and "off + code < length buf"
  shows "\<exists>b. wr buf (off + code) [c] = Some b \<and> enc_rel V pre b off (code + 1) (m @ [c]) \<and> length b = length buf"
proof -
  from assms(1,4) obtain d y cur rest m0 z where e: "buf = pre @ d @ [y] @ cur @ z # rest"
    "off = length pre + length d" "code = length cur + 1" "0 \<notin> set cur" "enc_upto V d m0" "m = m0 @ cur"
    by (auto simp: enc_rel_def neq_Nil_conv intro: that dest!: length_greater_0_conv [THEN iffD1, rotated])
  have "wr buf (off + code) [c] = Some (pre @ d @ [y] @ (cur @ [c]) @ rest)"
    using wr_parts [of "off + code" "pre @ d @ [y] @ cur" "[c]" "[z]" rest] e by simp
  moreover have "enc_rel V pre (pre @ d @ [y] @ (cur @ [c]) @ rest) off (code + 1) (m @ [c])"
    unfolding enc_rel_def
    by (rule exI [of _ d], rule exI [of _ y], rule exI [of _ "cur @ [c]"], rule exI [of _ rest], rule exI [of _ m0])
      (use e assms(2,3) in auto)
  ultimately show ?thesis using e by simp
qed

lemma rel_full:
  assumes "enc_rel V pre buf off code m" and "c \<noteq> 0" and "code + 1 = cobs_max V" and "off + code + 1 < length buf"
  shows "\<exists>b b'. wr buf (off + code) [c] = Some b \<and> wr b off [of_nat (cobs_max V)] = Some b'
     \<and> enc_rel V pre b' (off + cobs_max V) 1 (m @ [c]) \<and> length b' = length buf"
proof -
  from assms(1) obtain d y cur r m0 where e: "buf = pre @ d @ [y] @ cur @ r"
    "off = length pre + length d" "code = length cur + 1" "0 \<notin> set cur" "enc_upto V d m0" "m = m0 @ cur"
    by (auto simp: enc_rel_def)
  with assms(4) obtain z z' rest where r: "r = z # z' # rest" by (cases r; cases "tl r") auto
  have "wr buf (off + code) [c] = Some (pre @ d @ [y] @ (cur @ [c]) @ z' # rest)"
    using wr_parts [of "off + code" "pre @ d @ [y] @ cur" "[c]" "[z]" "z' # rest"] e r by simp
  moreover have "wr (pre @ d @ [y] @ (cur @ [c]) @ z' # rest) off [of_nat (cobs_max V)] =
     Some (pre @ (d @ of_nat (cobs_max V) # cur @ [c]) @ [z'] @ [] @ rest)"
    using wr_parts [of off "pre @ d" "[of_nat (cobs_max V)]" "[y]" "(cur @ [c]) @ z' # rest"] e by simp
  moreover have "enc_rel V pre (pre @ (d @ of_nat (cobs_max V) # cur @ [c]) @ [z'] @ [] @ rest) (off + cobs_max V) 1 (m @ [c])"
    unfolding enc_rel_def
    by (rule exI [of _ "d @ of_nat (cobs_max V) # cur @ [c]"], rule exI [of _ z'], rule exI [of _ "[]"], rule exI [of _ rest],
        rule exI [of _ "m @ [c]"])
      (use e assms(2,3) cobs_max_range [of V] enc_upto_full [OF e(5), of "cur @ [c]"] in auto)
  ultimately show ?thesis using e r by auto
qed

lemma rel_zero:
  assumes "enc_rel V pre buf off code m" and "off + code < length buf" and "cobs_zero V code src = (v, rest)"
  shows "\<exists>b zs. wr buf off [of_nat v] = Some b \<and> 0 # src = zs @ rest
     \<and> enc_rel V pre b (off + code) 1 (m @ zs) \<and> length b = length buf"
proof -
  from assms(1) obtain d y cur r m0 where e: "buf = pre @ d @ [y] @ cur @ r"
    "off = length pre + length d" "code = length cur + 1" "code < cobs_max V" "0 \<notin> set cur" "enc_upto V d m0" "m = m0 @ cur"
    by (auto simp: enc_rel_def)
  with assms(2) obtain z r' where r: "r = z # r'" by (cases r) auto
  have w: "wr buf off [of_nat v] = Some (pre @ (d @ of_nat v # cur) @ [z] @ [] @ r')"
    using wr_parts [of off "pre @ d" "[of_nat v]" "[y]" "cur @ r"] e r by simp
  have "\<exists>zs. 0 # src = zs @ rest \<and> enc_upto V (d @ of_nat v # cur) (m @ zs)"
  proof (cases "v = code")
    case True
    with assms(3) have "rest = src" by (cases V) (auto split: if_splits)
    with True e enc_upto_zero [OF e(6,5)] show ?thesis by (intro exI [of _ "[0]"]) simp
  next
    case False
    with assms(3) have "V = ZPE" "src = 0 # rest" "v = code + 223" "1 < code" "code < 32"
      by (cases V; cases src; auto split: if_splits)+
    with e enc_upto_pair [of d m0 cur] show ?thesis by (intro exI [of _ "[0, 0]"]) (simp add: add.commute)
  qed
  then obtain zs where zs: "0 # src = zs @ rest" "enc_upto V (d @ of_nat v # cur) (m @ zs)" by blast
  have "enc_rel V pre (pre @ (d @ of_nat v # cur) @ [z] @ [] @ r') (off + code) 1 (m @ zs)"
    unfolding enc_rel_def
    by (rule exI [of _ "d @ of_nat v # cur"], rule exI [of _ z], rule exI [of _ "[]"], rule exI [of _ r'], rule exI [of _ "m @ zs"])
      (use e zs cobs_max_range [of V] in auto)
  with w zs e r show ?thesis by auto
qed

lemma enc_space_step:
  "enc_space V code (Suc n) < left \<Longrightarrow> k \<le> n \<Longrightarrow> enc_space V 1 k < left - 1 \<and> 0 < left - 1"
  "0 < code \<Longrightarrow> enc_space V code (Suc n) < left \<Longrightarrow> enc_space V (code + 1) n < left - 1 \<and> 0 < left - 1"
  "code + 1 = cobs_max V \<Longrightarrow> enc_space V code (Suc n) < left \<Longrightarrow> enc_space V 1 n < left - 2 \<and> 2 < left"
proof -
  assume a: "enc_space V code (Suc n) < left" "k \<le> n"
  have "k div (cobs_max V - 1) \<le> (code - 1 + Suc n) div (cobs_max V - 1)"
    by (rule div_le_mono) (use a in simp)
  with a show "enc_space V 1 k < left - 1 \<and> 0 < left - 1" unfolding enc_space_def by auto
next
  assume "0 < code" "enc_space V code (Suc n) < left"
  then show "enc_space V (code + 1) n < left - 1 \<and> 0 < left - 1"
    unfolding enc_space_def by (auto simp: Suc_diff_Suc)
next
  assume a: "code + 1 = cobs_max V" "enc_space V code (Suc n) < left"
  then have "code - 1 + Suc n = n + (cobs_max V - 1)" using cobs_max_range [of V] by auto
  moreover have "cobs_max V - 1 \<noteq> 0" using cobs_max_range [of V] by auto
  ultimately have "(code - 1 + Suc n) div (cobs_max V - 1) = n div (cobs_max V - 1) + 1"
    by (metis div_add_self2)
  with a show "enc_space V 1 n < left - 2 \<and> 2 < left" by (auto simp: enc_space_def)
qed

lemma encode_loop_ok:
  assumes "enc_rel V pre buf off code m" and "p = off + code" and "p + left = length buf"
    and "enc_space V code (length src + k) < left"
  shows "\<exists>buf' off' code' left'. encode_loop V buf p left code src = Some (buf', off' + code', left', code', [])
    \<and> enc_rel V pre buf' off' code' (m @ src) \<and> off' + code' + left' = length buf
    \<and> length buf' = length buf \<and> enc_space V code' k < left'"
  using assms
proof (induction V buf p left code src arbitrary: off m rule: encode_loop.induct)
  case (1 V buf p left code)
  from rel_code [OF 1(1), of "of_nat code"] obtain b where
    "wr buf off [of_nat code] = Some b" "enc_rel V pre b off code m" "length b = length buf" by blast
  with 1 show ?case by (auto intro!: exI [of _ b] exI [of _ off])
next
  case (2 V buf p left code c src)
  note rel = 2(4) and p = 2(5) and len = 2(6) and space = 2(7) [simplified]
  have code: "0 < code" "code < cobs_max V" "code + 1 < 257" using rel cobs_max_range [of V] by (auto simp: enc_rel_def)
  have room: "0 < left" using space by simp
  show ?case
  proof (cases "c = 0")
    case True
    obtain v rest where z: "cobs_zero V code src = (v, rest)" by fastforce
    from rel_zero [OF rel _ z] p len room obtain b zs where b: "wr buf off [of_nat v] = Some b"
      "0 # src = zs @ rest" "enc_rel V pre b (off + code) 1 (m @ zs)" "length b = length buf" by auto
    have sp: "enc_space V 1 (length rest + k) < left - 1" "0 < left - 1"
      using enc_space_step(1) [OF space, of "length rest + k"] cobs_zero_length [OF z] by auto
    have w: "wr buf (p - code) [of_nat v] = Some b" using b(1) p by simp
    have ms: "m @ 0 # src = (m @ zs) @ rest" using b(2) by simp
    have eq: "encode_loop V buf p left code (c # src) = encode_loop V b (p + 1) (left - 1) 1 rest"
      using True z w sp by simp
    show ?thesis unfolding eq unfolding True unfolding ms
      using 2(1) [OF True z [symmetric] w _ b(3)] b(4) sp p len room by simp
  next
    case False
    show ?thesis
    proof (cases "code + 1 = cobs_max V")
      case full: True
      from enc_space_step(3) [OF full space] have sp: "enc_space V 1 (length src + k) < left - 2" "2 < left" by auto
      from rel_full [OF rel False full] p len sp obtain b b' where b: "wr buf p [c] = Some b"
        "wr b off [of_nat (cobs_max V)] = Some b'" "enc_rel V pre b' (off + cobs_max V) 1 (m @ [c])"
        "length b' = length buf" by auto
      have md: "(code + 1) mod 256 = cobs_max V" using full cobs_max_range [of V] by simp
      have off: "p + 1 - cobs_max V = off" using p full by simp
      have w: "wr b (p + 1 - cobs_max V) [of_nat (cobs_max V)] = Some b'" using b(2) off by simp
      have eq: "encode_loop V buf p left code (c # src) = encode_loop V b' (p + 2) (left - 1 - 1) 1 src"
        using False md b(1) w sp by simp
      have ms: "m @ c # src = (m @ [c]) @ src" by simp
      show ?thesis unfolding eq ms
        using 2(2) [OF False b(1) md _ w _ b(3)] b(4) sp p len full by simp
    next
      case False': False
      with code have lt: "code + 1 < cobs_max V" by simp
      from rel_data [OF rel False lt] p len room obtain b where b: "wr buf p [c] = Some b"
        "enc_rel V pre b off (code + 1) (m @ [c])" "length b = length buf" by auto
      have md: "(code + 1) mod 256 = code + 1" using lt cobs_max_range [of V] by simp
      from enc_space_step(2) [OF code(1) space] have sp: "enc_space V (code + 1) (length src + k) < left - 1" "0 < left - 1" by auto
      have eq: "encode_loop V buf p left code (c # src) = encode_loop V b (p + 1) (left - 1) (code + 1) src"
        using False md b(1) lt sp by simp
      have ms: "m @ c # src = (m @ [c]) @ src" by simp
      show ?thesis unfolding eq ms
        using 2(3) [OF False b(1), of off "m @ [c]"] b sp p len md False' by simp
    qed
  qed
qed

text \<open>The operations on a state of a message in progress.\<close>

lemma enc_start: "length pre < length buf \<Longrightarrow> take (length pre) buf = pre \<Longrightarrow> enc_rel V pre buf (length pre) 1 []"
proof -
  assume "length pre < length buf" "take (length pre) buf = pre"
  then have "buf = pre @ [] @ [hd (drop (length pre) buf)] @ [] @ tl (drop (length pre) buf)"
    by (metis append_Cons append_Nil append_take_drop_id drop_eq_Nil list.collapse not_less)
  moreover have "1 < cobs_max V" by (rule cobs_max_range)
  ultimately show ?thesis unfolding enc_rel_def
    using enc_upto_Nil [of V] by (metis add.right_neutral append_Nil2 list.size(3) add_0 empty_iff list.set(1))
qed

lemma enc_state_code:
  assumes "enc_state V pre info buf m" and "edone info + enc_code info < length buf"
  shows "enc_rel V pre buf (edone info) (enc_code info) m" and "escratch info mod 256 = escratch info"
proof -
  show "enc_rel V pre buf (edone info) (enc_code info) m"
    using assms enc_start [of pre buf V] by (auto simp: enc_state_def enc_code_def split: if_splits)
  then show "escratch info mod 256 = escratch info"
    using cobs_max_range [of V] by (auto simp: enc_rel_def enc_code_def split: if_splits)
qed

lemma push_data:
  assumes st: "enc_state V pre info buf m" and "src \<noteq> []"
    and space: "edone info + enc_code info + enc_space V (enc_code info) (length src + k) < length buf"
  shows "\<exists>info' buf'. mpt_encode V info (Some (Some buf, length buf)) (Some (Some src, length src)) = Some (int (length src), info', Some buf')
     \<and> enc_state V pre info' buf' (m @ src) \<and> length buf' = length buf \<and> 0 < escratch info'
     \<and> edone info' + enc_code info' + enc_space V (enc_code info') k < length buf'"
proof -
  let ?c = "enc_code info" and ?l = "length buf - edone info - enc_code info"
  have lt: "edone info + ?c < length buf" using space by linarith
  note rel = enc_state_code [OF st lt]
  have "enc_space V ?c (length src + k) < ?l" using space by linarith
  with encode_loop_ok [OF rel(1) refl, of ?l src k] lt obtain buf' off' code' left' where
    l: "encode_loop V buf (edone info + ?c) ?l ?c src = Some (buf', off' + code', left', code', [])"
      "enc_rel V pre buf' off' code' (m @ src)" "off' + code' + left' = length buf" "length buf' = length buf"
      "enc_space V code' k < left'" by auto
  have c: "0 < code'" using l(2) by (auto simp: enc_rel_def)
  let ?i = "\<lparr>ectx = ectx info + usub (usub (length buf - left') (edone info)) (escratch info), edone = off', escratch = code'\<rparr>"
  have "length buf - left' - code' = off'" using l(3) by simp
  then have "encode_data V info buf (escratch info) (length buf - edone info) src (length buf) = Some (int (length src), ?i, Some buf')"
    using lt l(1) by (auto simp: encode_data_def enc_code_def split: if_splits)
  moreover have "escratch info \<le> length buf - edone info" using lt by (auto simp: enc_code_def split: if_splits)
  ultimately have "mpt_encode V info (Some (Some buf, length buf)) (Some (Some src, length src)) = Some (int (length src), ?i, Some buf')"
    using assms(2) lt rel(2) by (simp add: mpt_encode_def)
  moreover have "enc_state V pre ?i buf' (m @ src)" using c l(2) by (simp add: enc_state_def)
  ultimately show ?thesis using c l(3-5) by (auto simp: enc_code_def)
qed

lemma end_regular:
  assumes st: "enc_state V pre info buf m" and empty: "escratch info = 0 \<longrightarrow> pre = []"
    and lt: "edone info + enc_code info < length buf"
  shows "\<exists>info' buf' f. mpt_encode V info (Some (Some buf, length buf)) None = Some (0, info', Some buf')
     \<and> ectx info' = 0 \<and> escratch info' = 0 \<and> length buf' = length buf
     \<and> take (edone info') buf' = pre @ f @ [0] \<and> edone info' = length (pre @ f) + 1 \<and> 0 \<notin> set f \<and> frame_of V False (f @ [0]) = Some m"
proof (cases "escratch info = 0")
  case True
  then have d: "pre = []" "m = []" "edone info = 0" "1 < length buf" using st empty lt by (auto simp: enc_state_def enc_code_def)
  have "wr buf 0 [1, 0] = Some ([1, 0] @ drop 2 buf)" using d by (simp add: wr_def numeral_2_eq_2)
  moreover have "frame_of V False [1, 0] = Some []" by (cases V) (simp_all add: frame_of_def Let_def)
  ultimately show ?thesis using d True
    by (auto simp: mpt_encode_def encode_end_def intro!: exI [of _ "[1]"])
next
  case False
  note rel = enc_state_code [OF st lt]
  from rel(1) False obtain d x cur rest m0 where e: "buf = pre @ d @ [x] @ cur @ rest"
    "edone info = length pre + length d" "escratch info = length cur + 1" "escratch info < cobs_max V"
    "0 \<notin> set cur" "enc_upto V d m0" "m = m0 @ cur" by (auto simp: enc_rel_def enc_code_def)
  have lt': "edone info + escratch info < length buf" using lt False by (simp add: enc_code_def)
  then obtain z r where r: "rest = z # r" using e by (cases rest) auto
  let ?c = "of_nat (escratch info)"
  have "wr buf (edone info) [?c] = Some (pre @ d @ [?c] @ cur @ z # r)"
    using wr_parts [of "edone info" "pre @ d" "[?c]" "[x]" "cur @ rest"] e r by simp
  moreover have "wr (pre @ d @ [?c] @ cur @ z # r) (edone info + escratch info) [0] = Some (pre @ d @ [?c] @ cur @ [0] @ r)"
    using wr_parts [of "edone info + escratch info" "pre @ d @ [?c] @ cur" "[0]" "[z]" r] e by simp
  moreover have "(escratch info + 1) mod 256 = escratch info + 1" using e(4) cobs_max_range [of V] by simp
  ultimately have "mpt_encode V info (Some (Some buf, length buf)) None =
      Some (0, \<lparr>ectx = 0, edone = edone info + (escratch info + 1), escratch = 0\<rparr>, Some (pre @ d @ [?c] @ cur @ [0] @ r))"
    using False lt' rel(2) by (auto simp: mpt_encode_def encode_end_def Let_def)
  moreover have "frame_of V False (d @ ?c # cur @ [0]) = Some m"
    using enc_end [OF e(6,5), folded e(3)] e(4,7) by (simp add: frame_of_def)
  moreover have "0 \<notin> set (d @ ?c # cur)"
    using e(4-6) False byte_of_nat_nz [of "escratch info"] cobs_max_range [of V] by (auto simp: enc_upto_def)
  ultimately show ?thesis using e r by (auto intro!: exI [of _ "d @ ?c # cur"])
qed

lemma check_inline:
  assumes "cur \<noteq> []" and "length cur + 1 \<le> cobs_max V"
  shows "cobs_check_inline V (length cur + 1) (pre' @ x # cur @ rest) (length pre') =
    Some (if length cur + 1 < unat (last cur) \<and> (V = ZPE \<longrightarrow> unat (last cur) \<le> 223) then Some (last cur) else None)"
proof -
  from assms(1) obtain ys y where c: "cur = ys @ [y]" by (metis rev_exhaust)
  have "rd (pre' @ x # cur @ rest) (length pre' + (length cur + 1) - 1) 1 = Some [last cur]"
    using rd_parts [of _ "pre' @ x # ys" 1 "[y]" rest] c by simp
  then show ?thesis using assms(2) by (cases V) auto
qed

lemma end_inline:
  assumes st: "enc_state V pre info buf m" and empty: "escratch info = 0 \<longrightarrow> pre = []"
    and lt: "edone info + enc_code info < length buf"
  shows "\<exists>info' buf' f. mpt_encode_r V info (Some (Some buf, length buf)) None = Some (0, info', Some buf')
     \<and> ectx info' = 0 \<and> escratch info' = 0 \<and> length buf' = length buf
     \<and> take (edone info') buf' = pre @ f @ [0] \<and> edone info' = length (pre @ f) + 1 \<and> 0 \<notin> set f \<and> frame_of V True (f @ [0]) = Some m"
proof (cases "escratch info = 0")
  case True
  have "frame_of V True f = Some x" if "frame_of V False f = Some x" for f x
    using that by (auto simp: frame_of_def split: prod.splits cstate.splits if_splits)
  with end_regular [OF assms] True show ?thesis by (fastforce simp: mpt_encode_r_def)
next
  case False
  note rel = enc_state_code [OF st lt]
  from rel(1) False obtain d x cur rest m0 where e: "buf = (pre @ d) @ x # cur @ rest"
    "edone info = length (pre @ d)" "escratch info = length cur + 1" "escratch info < cobs_max V"
    "0 \<notin> set cur" "enc_upto V d m0" "m = m0 @ cur" by (auto simp: enc_rel_def enc_code_def)
  have lt': "edone info + escratch info < length buf" using lt False by (simp add: enc_code_def)
  then obtain z r where r: "rest = z # r" using e by (cases rest) auto
  define inl where "inl = (cur \<noteq> [] \<and> length cur + 1 < unat (last cur) \<and> (V = ZPE \<longrightarrow> unat (last cur) \<le> 223))"
  have chk: "(if escratch info > 1 then cobs_check_inline V (escratch info) buf (edone info) else Some None)
      = Some (if inl then Some (last cur) else None)"
    using check_inline [of cur V "pre @ d" x rest] e(1-4) by (auto simp: inl_def)
  show ?thesis
  proof (cases inl)
    case True
    then obtain ys y where c: "cur = ys @ [y]" unfolding inl_def by (metis rev_exhaust)
    have y: "length cur + 1 < unat y" "unat y < 256" "V = ZPE \<longrightarrow> unat y \<le> 223" "0 < unat y"
      using True c unsigned_less [of y] by (auto simp: inl_def)
    have "wr buf (edone info) [y] = Some ((pre @ d) @ [y] @ cur @ rest)"
      using wr_parts [of "edone info" "pre @ d" "[y]" "[x]" "cur @ rest"] e by simp
    moreover have "wr ((pre @ d) @ [y] @ cur @ rest) (edone info + (escratch info - 1)) [0]
        = Some ((pre @ d) @ [y] @ ys @ [0] @ rest)"
      using wr_parts [of "edone info + (escratch info - 1)" "pre @ d @ [y] @ ys" "[0]" "[y]" rest] e c by simp
    ultimately have "mpt_encode_r V info (Some (Some buf, length buf)) None =
        Some (0, \<lparr>ectx = 0, edone = edone info + escratch info, escratch = 0\<rparr>, Some ((pre @ d) @ [y] @ ys @ [0] @ rest))"
      using False lt' chk True c by (simp add: mpt_encode_r_def Let_def)
    moreover have "frame_of V True (d @ y # ys @ [0]) = Some m"
    proof -
      have l: "length ys < cobs_len_data V (unat y)" using y c by (cases V) auto
      have "run V Idle (d @ y # ys) = (Blk (unat y) (length ys) (m0 @ ys), length (d @ y # ys))"
        using enc_block [OF e(6) y(4,2), of ys] e(5) c l by simp
      from run_append [OF this, of "[0]"] l have "run V Idle (d @ y # ys @ [0]) = (Cut (unat y) (m0 @ ys), length (d @ y # ys @ [0]))"
        by simp
      then show ?thesis using e(7) c by (simp add: frame_of_def)
    qed
    moreover have "0 \<notin> set (d @ y # ys)" using e(5,6) c by (auto simp: enc_upto_def)
    ultimately show ?thesis using e c by (auto intro!: exI [of _ "d @ y # ys"])
  next
    case no: False
    let ?c = "of_nat (escratch info)"
    have "wr buf (edone info) [?c] = Some ((pre @ d) @ [?c] @ cur @ z # r)"
      using wr_parts [of "edone info" "pre @ d" "[?c]" "[x]" "cur @ rest"] e r by simp
    moreover have "wr ((pre @ d) @ [?c] @ cur @ z # r) (edone info + escratch info) [0] = Some ((pre @ d) @ [?c] @ cur @ [0] @ r)"
      using wr_parts [of "edone info + escratch info" "pre @ d @ [?c] @ cur" "[0]" "[z]" r] e by simp
    ultimately have "mpt_encode_r V info (Some (Some buf, length buf)) None =
        Some (0, \<lparr>ectx = 0, edone = edone info + (escratch info + 1), escratch = 0\<rparr>, Some ((pre @ d) @ [?c] @ cur @ [0] @ r))"
      using False lt' chk no by (simp add: mpt_encode_r_def Let_def)
    moreover have "frame_of V True (d @ ?c # cur @ [0]) = Some m"
      using enc_end [OF e(6,5), folded e(3)] e(4,7) by (simp add: frame_of_def)
    moreover have "0 \<notin> set (d @ ?c # cur)"
      using e(4-6) False byte_of_nat_nz [of "escratch info"] cobs_max_range [of V] by (auto simp: enc_upto_def)
    ultimately show ?thesis using e r by (auto intro!: exI [of _ "d @ ?c # cur"])
  qed
qed

lemma chunks_ok:
  assumes "enc = mpt_encode V \<and> \<not> R \<or> enc = mpt_encode_r V \<and> R"
    and "enc_state V pre info buf m" and "list_all (\<lambda>c. c \<noteq> []) cs"
    and "pre = [] \<or> 0 < escratch info \<or> cs \<noteq> []"
    and "edone info + enc_code info + enc_space V (enc_code info) (length (concat cs)) < length buf"
  shows "\<exists>info' buf' f. encode_chunks enc info buf cs = Some (info', buf') \<and> ectx info' = 0 \<and> escratch info' = 0
     \<and> length buf' = length buf \<and> take (edone info') buf' = pre @ f @ [0] \<and> edone info' = length (pre @ f) + 1 \<and> 0 \<notin> set f
     \<and> frame_of V R (f @ [0]) = Some (m @ concat cs)"
  using assms(2-)
proof (induction cs arbitrary: info buf m)
  case Nil
  then have lt: "edone info + enc_code info < length buf" and e: "escratch info = 0 \<longrightarrow> pre = []" by auto
  from assms(1) end_regular [OF Nil(1) e lt] end_inline [OF Nil(1) e lt] show ?case by (elim disjE conjE) fastforce+
next
  case (Cons c cs)
  have enc: "enc i (Some b) (Some d) = mpt_encode V i (Some b) (Some d)" for i b d
    using assms(1) by (auto simp: mpt_encode_r_def)
  from push_data [OF Cons.prems(1), of c "length (concat cs)"] Cons.prems obtain info' buf' where
    p: "mpt_encode V info (Some (Some buf, length buf)) (Some (Some c, length c)) = Some (int (length c), info', Some buf')"
      "enc_state V pre info' buf' (m @ c)" "length buf' = length buf" "0 < escratch info'"
      "edone info' + enc_code info' + enc_space V (enc_code info') (length (concat cs)) < length buf'" by auto
  from Cons.IH [OF p(2) _ _ p(5)] Cons.prems p(3,4) p(1) show ?case by (simp add: enc)
qed

section \<open>Properties\<close>

text \<open>Property C4: a message that is pushed in any number of non-empty pieces to an encoder (COBS or COBS/ZPE,
  with or without tail inlining) with enough room is encoded completely: behind the bytes that
  were there, the target has one frame that holds a zero byte at its end only and that the stream
  automaton decodes to the message.\<close>

theorem encode_chunks_frame:
  assumes "enc = mpt_encode V \<and> \<not> R \<or> enc = mpt_encode_r V \<and> R"
    and "list_all (\<lambda>c. c \<noteq> []) cs" and "cs \<noteq> [] \<or> start = 0"
    and "start + 1 + enc_space V 1 (length (concat cs)) < length buf"
  shows "\<exists>info' buf' f. encode_chunks enc \<lparr>ectx = 0, edone = start, escratch = 0\<rparr> buf cs = Some (info', buf')
     \<and> escratch info' = 0 \<and> length buf' = length buf \<and> take (edone info') buf' = take start buf @ f @ [0]
     \<and> 0 \<notin> set f \<and> frame_of V R (f @ [0]) = Some (concat cs)"
  using chunks_ok [of enc V R "take start buf" "\<lparr>ectx = 0, edone = start, escratch = 0\<rparr>" buf "[]" cs] assms
  by (fastforce simp: enc_state_def enc_code_def)

theorem encode_chunks_frame_witness:
  "\<exists>info' buf' f. encode_chunks (mpt_encode_r ZPE) \<lparr>ectx = 0, edone = 2, escratch = 0\<rparr> (replicate 20 9) [[1, 0, 0], [7, 5]] = Some (info', buf')
     \<and> take (edone info') buf' = [9, 9] @ f @ [0] \<and> frame_of ZPE True (f @ [0]) = Some [1, 0, 0, 7, 5]"
  using encode_chunks_frame [of "mpt_encode_r ZPE" ZPE True "[[1, 0, 0], [7, 5]]" 2 "replicate 20 9"]
  by (auto simp: enc_space_def numeral_2_eq_2)

text \<open>Where the last free byte would complete a block of maximum length, the encoder takes the
  byte back (nothing is consumed) but not the used space: the finished size then includes the code
  byte of the block in progress, one more than before.\<close>

theorem encode_full_block_shift:
  assumes "enc_rel V pre buf off (cobs_max V - 1) m" and "length buf = off + cobs_max V" and "c \<noteq> 0"
  shows "\<exists>info' buf'. mpt_encode V \<lparr>ectx = 0, edone = off, escratch = cobs_max V - 1\<rparr> (Some (Some buf, length buf)) (Some (Some (c # src), length (c # src)))
     = Some (0, info', Some buf') \<and> edone info' = off + 1 \<and> buf' ! off = of_nat (cobs_max V - 1)"
proof -
  from assms(1) obtain d x cur rest m0 where e: "buf = (pre @ d) @ x # cur @ rest" "off = length (pre @ d)"
    "cobs_max V - 1 = length cur + 1" by (auto simp: enc_rel_def)
  have r: "1 < cobs_max V" "cobs_max V \<le> 255" by (rule cobs_max_range)+
  have "length rest = 1" using assms(2) e r by simp
  then obtain z where z: "rest = [z]" by (cases rest) auto
  obtain k where k: "cobs_max V = Suc k" "k = length cur + 1" "k < 255" using e(3) r by (cases "cobs_max V") auto
  have "wr buf (off + k) [c] = Some ((pre @ d) @ x # cur @ [c])"
    using wr_parts [of "off + k" "(pre @ d) @ x # cur" "[c]" "[z]" "[]"] e(1,2) k(2) z by simp
  moreover have "wr ((pre @ d) @ x # cur @ [c]) off [of_nat k] = Some ((pre @ d) @ of_nat k # cur @ [c])"
    using wr_parts [of off "pre @ d" "[of_nat k]" "[x]" "cur @ [c]"] e by simp
  ultimately have "encode_loop V buf (off + k) 1 k (c # src) = Some ((pre @ d) @ of_nat k # cur @ [c], off + k, 0, k, c # src)"
    using assms(3) k(1,3) by simp
  then have "mpt_encode V \<lparr>ectx = 0, edone = off, escratch = k\<rparr> (Some (Some buf, length buf)) (Some (Some (c # src), length (c # src)))
    = Some (0, \<lparr>ectx = usub (usub (length buf) off) k, edone = off + 1, escratch = k\<rparr>, Some ((pre @ d) @ of_nat k # cur @ [c]))"
    using k assms(2) by (auto simp: mpt_encode_def encode_data_def Let_def simp del: encode_loop.simps)
  then show ?thesis using e(2) k(1) by (auto simp: nth_append)
qed

theorem encode_full_block_shift_witness:
  "\<exists>info' buf'. mpt_encode ZPE \<lparr>ectx = 0, edone = 0, escratch = 222\<rparr> (Some (Some (replicate 223 1), 223)) (Some (Some [5], 1))
     = Some (0, info', Some buf') \<and> edone info' = 1"
proof -
  have "enc_rel ZPE [] (replicate 223 1) 0 222 (replicate 221 1)" unfolding enc_rel_def
    by (rule exI [of _ "[]"], rule exI [of _ 1], rule exI [of _ "replicate 221 1"], rule exI [of _ "[1]"], rule exI [of _ "[]"])
      (simp add: enc_upto_Nil replicate_add [of 1 222, symmetric, simplified] replicate_append_same flip: replicate_Suc)
  from encode_full_block_shift [of ZPE "[]" "replicate 223 1" 0 "replicate 221 1" 5 "[]"] this show ?thesis by auto
qed

end
