(* ===== verification/Memrev.thy ===== *)
theory Memrev
  imports MptBase
begin

text \<open>
  \<open>mptcore/queue/memrev.c\<close>: exchange of two memory regions (\<open>mpt_memswap\<close>) and rotation of a
  region around a pivot (\<open>mpt_memrev\<close>), both with a stack buffer of 1024 bytes.  A pointer
  argument is an index into the block, \<open>None\<close> the null pointer.
\<close>

section \<open>Definitions\<close>

text \<open>One exchange through the stack buffer \<open>buf\<close>.\<close>

definition swap_part :: "block \<Rightarrow> nat \<Rightarrow> nat \<Rightarrow> nat \<Rightarrow> block option" where
  "swap_part m from to n = do {
     buf \<leftarrow> rd m from n;
     m1 \<leftarrow> memcpy_b m from to n;
     wr m1 to buf }"

fun memswap_loop :: "block \<Rightarrow> nat \<Rightarrow> nat \<Rightarrow> nat \<Rightarrow> (block \<times> nat \<times> nat) option" where
  "memswap_loop m from to 0 = Some (m, from, to)"
| "memswap_loop m from to (Suc parts) = do {
     m1 \<leftarrow> swap_part m from to 1024;
     memswap_loop m1 (from + 1024) (to + 1024) parts }"

definition mpt_memswap :: "block \<Rightarrow> nat option \<Rightarrow> nat option \<Rightarrow> nat \<Rightarrow> (int \<times> block) option" where
  "mpt_memswap m from to len =
     (case (from, to) of
        (Some f, Some t) \<Rightarrow> do {
          (m1, f1, t1) \<leftarrow> memswap_loop m f t (len div 1024);
          (if len mod 1024 \<noteq> 0 then do { m2 \<leftarrow> swap_part m1 f1 t1 (len mod 1024); Some (0, m2) }
           else Some (0, m1)) }
      | _ \<Rightarrow> Some (BadArgument, m))"

text \<open>The loop of \<open>mpt_memrev\<close> on the bytes before (\<open>pre\<close>) and after (\<open>post\<close>) the pivot.\<close>

function memrev_loop :: "block \<Rightarrow> nat \<Rightarrow> nat \<Rightarrow> nat \<Rightarrow> block option" where
  "memrev_loop m data pre post =
     (if pre = 0 \<or> post = 0 then Some m
      else if pre \<le> 1024 then do {
        tmp \<leftarrow> rd m data pre;
        m1 \<leftarrow> memmove_b m data (data + pre) post;
        wr m1 (data + post) tmp }
      else if post \<le> 1024 then do {
        tmp \<leftarrow> rd m (data + pre) post;
        m1 \<leftarrow> memmove_b m (data + post) data pre;
        wr m1 data tmp }
      else if pre < post then do {
        (_, m1) \<leftarrow> mpt_memswap m (Some data) (Some (data + pre)) pre;
        memrev_loop m1 (data + pre) pre (post - pre) }
      else do {
        (_, m1) \<leftarrow> mpt_memswap m (Some (data + (pre - post))) (Some (data + pre)) post;
        memrev_loop m1 data (pre - post) post })"
  by pat_completeness auto
termination
  by (relation "measure (\<lambda>(m, data, pre, post). pre + post)") auto

declare memrev_loop.simps [simp del]

definition mpt_memrev :: "block \<Rightarrow> nat option \<Rightarrow> nat \<Rightarrow> nat \<Rightarrow> (int \<times> block) option" where
  "mpt_memrev m data pre len =
     (case data of
        None \<Rightarrow> Some (MissingData, m)
      | Some d \<Rightarrow>
          if len < pre then Some (BadArgument, m)
          else do { m1 \<leftarrow> memrev_loop m d pre (len - pre); Some (0, m1) })"

section \<open>Exchange of two regions\<close>

lemma swap_part_parts:
  assumes "length x = n" and "length y = n"
  shows "swap_part (a @ x @ b @ y @ c) (length a) (length a + n + length b) n
           = Some (a @ y @ b @ x @ c)"
proof -
  have "rd ((a @ x @ b) @ y @ c) (length a + n + length b) n = Some y"
    by (rule rd_parts) (simp_all add: assms)
  moreover have "wr (a @ x @ b @ y @ c) (length a) y = Some (a @ y @ b @ y @ c)"
    by (rule wr_parts) (simp_all add: assms)
  ultimately have "memcpy_b (a @ x @ b @ y @ c) (length a) (length a + n + length b) n
               = Some (a @ y @ b @ y @ c)"
    by (simp add: memcpy_b_def memmove_b_def)
  moreover have "wr ((a @ y @ b) @ y @ c) (length a + n + length b) x = Some ((a @ y @ b) @ x @ c)"
    by (rule wr_parts) (simp_all add: assms)
  moreover have "rd (a @ x @ b @ y @ c) (length a) n = Some x"
    by (rule rd_parts) (simp_all add: assms)
  ultimately show ?thesis by (simp add: swap_part_def)
qed

lemma memswap_loop_parts:
  assumes "length x = 1024 * k" and "length y = 1024 * k"
  shows "memswap_loop (a @ x @ b @ y @ c) (length a) (length a + length x + length b) k
    = Some (a @ y @ b @ x @ c, length a + length x, length a + length x + length b + length y)"
  using assms
proof (induction k arbitrary: a x b y c)
  case 0
  then show ?case by simp
next
  case (Suc k)
  from Suc.prems split_at [of 1024 x] obtain x1 x2
    where x: "x = x1 @ x2" "length x1 = 1024" by auto
  from Suc.prems split_at [of 1024 y] obtain y1 y2
    where y: "y = y1 @ y2" "length y1 = 1024" by auto
  have len: "length x2 = 1024 * k" "length y2 = 1024 * k" using Suc.prems x y by auto
  have "swap_part (a @ x1 @ (x2 @ b) @ y1 @ y2 @ c) (length a)
          (length a + 1024 + length (x2 @ b)) 1024 = Some (a @ y1 @ (x2 @ b) @ x1 @ y2 @ c)"
    using x y by (intro swap_part_parts) auto
  moreover have "memswap_loop ((a @ y1) @ x2 @ (b @ x1) @ y2 @ c) (length (a @ y1))
      (length (a @ y1) + length x2 + length (b @ x1)) k
    = Some ((a @ y1) @ y2 @ (b @ x1) @ x2 @ c, length (a @ y1) + length x2,
        length (a @ y1) + length x2 + length (b @ x1) + length y2)"
    using len by (intro Suc.IH)
  ultimately show ?case using x y by (simp add: algebra_simps)
qed

lemma mpt_memswap_parts:
  assumes "length x = n" and "length y = n"
  shows "mpt_memswap (a @ x @ b @ y @ c) (Some (length a)) (Some (length a + n + length b)) n
           = Some (0, a @ y @ b @ x @ c)"
proof -
  let ?k = "1024 * (n div 1024)"
  have k: "?k \<le> n" "n - ?k = n mod 1024" by (simp_all add: minus_mult_div_eq_mod)
  from split_at [of ?k x] k assms obtain x1 x2 where x: "x = x1 @ x2" "length x1 = ?k" by auto
  from split_at [of ?k y] k assms obtain y1 y2 where y: "y = y1 @ y2" "length y1 = ?k" by auto
  have len: "length x2 = n mod 1024" "length y2 = n mod 1024" using x y assms k by auto
  have "memswap_loop (a @ x1 @ (x2 @ b) @ y1 @ (y2 @ c)) (length a)
      (length a + length x1 + length (x2 @ b)) (n div 1024)
    = Some (a @ y1 @ (x2 @ b) @ x1 @ (y2 @ c), length a + length x1,
        length a + length x1 + length (x2 @ b) + length y1)"
    using x y by (intro memswap_loop_parts) auto
  moreover have "length a + length x1 + length (x2 @ b) = length a + n + length b"
    using x assms by auto
  moreover have "swap_part ((a @ y1) @ x2 @ (b @ x1) @ y2 @ c) (length (a @ y1))
      (length (a @ y1) + n mod 1024 + length (b @ x1)) (n mod 1024)
    = Some ((a @ y1) @ y2 @ (b @ x1) @ x2 @ c)"
    using len by (intro swap_part_parts)
  ultimately show ?thesis
    using x y len by (auto simp: mpt_memswap_def algebra_simps)
qed

section \<open>Rotation around the pivot\<close>

lemma memrev_loop_parts:
  assumes "length x = pre" and "length y = post" and "d = length a"
  shows "memrev_loop (a @ x @ y @ c) d pre post = Some (a @ y @ x @ c)"
  using assms
proof (induction "a @ x @ y @ c" d pre post arbitrary: a x y c rule: memrev_loop.induct)
  case (1 d pre post)
  note prems = "1.prems"
  consider (triv) "pre = 0 \<or> post = 0" | (low) "pre \<noteq> 0" "post \<noteq> 0" "pre \<le> 1024"
    | (high) "pre \<noteq> 0" "post \<noteq> 0" "pre > 1024" "post \<le> 1024"
    | (less) "pre \<noteq> 0" "post \<noteq> 0" "pre > 1024" "post > 1024" "pre < post"
    | (ge) "pre \<noteq> 0" "post \<noteq> 0" "pre > 1024" "post > 1024" "pre \<ge> post"
    by linarith
  then show ?case
  proof cases
    case triv
    then show ?thesis using prems by (auto simp: memrev_loop.simps)
  next
    case low
    have "rd ((a @ x) @ y @ c) (length a + pre) post = Some y"
      by (rule rd_parts) (simp_all add: prems)
    then show ?thesis using low prems
      by (subst memrev_loop.simps) (simp add: mem_defs)
  next
    case high
    then show ?thesis using prems
      by (subst memrev_loop.simps) (simp add: mem_defs)
  next
    case less
    from split_at [of pre y] less prems obtain y1 y2
      where y: "y = y1 @ y2" "length y1 = pre" by auto
    have sw: "mpt_memswap (a @ x @ y @ c) (Some d) (Some (d + pre)) pre
        = Some (0, a @ y1 @ x @ y2 @ c)"
      using mpt_memswap_parts [of x pre y1 a "[]" "y2 @ c"] prems y by simp
    have "memrev_loop ((a @ y1) @ x @ y2 @ c) (d + pre) pre (post - pre)
        = Some ((a @ y1) @ y2 @ x @ c)"
      using prems y less sw by (intro "1.hyps"(1)) auto
    then show ?thesis using less sw y prems by (subst memrev_loop.simps) simp
  next
    case ge
    from split_at_end [of post x] ge prems obtain x1 x2
      where x: "x = x1 @ x2" "length x2 = post" by auto
    have sw: "mpt_memswap (a @ x @ y @ c) (Some (d + (pre - post))) (Some (d + pre)) post
        = Some (0, a @ x1 @ y @ x2 @ c)"
      using mpt_memswap_parts [of x2 post y "a @ x1" "[]" c] prems x ge by (auto simp: add.assoc)
    have "memrev_loop (a @ x1 @ y @ (x2 @ c)) d (pre - post) post = Some (a @ y @ x1 @ x2 @ c)"
      using prems x ge sw by (intro "1.hyps"(2)) auto
    then show ?thesis using ge sw x prems by (subst memrev_loop.simps) simp
  qed
qed

lemma mpt_memrev_parts:
  assumes "length x = pre" and "len = pre + length y" and "d = length a"
  shows "mpt_memrev (a @ x @ y @ c) (Some d) pre len = Some (0, a @ y @ x @ c)"
  using assms by (simp add: mpt_memrev_def memrev_loop_parts)

section \<open>Property\<close>

text \<open>Property C22: \<open>mpt_memrev\<close> exchanges the bytes before and after the pivot, for regions of any
  size, and writes nothing outside of the region; it fails only with a pivot outside of the
  region or a null pointer, and then changes nothing.\<close>

theorem memrev_rotates:
  "mpt_memrev (a @ x @ y @ c) (Some (length a)) (length x) (length x + length y) = Some (0, a @ y @ x @ c)
   \<and> mpt_memrev m (Some d) (n + Suc k) n = Some (BadArgument, m)
   \<and> mpt_memrev m None n k = Some (MissingData, m)"
  using mpt_memrev_parts [of x "length x" "length x + length y" y "length a" a c]
  by (simp add: mpt_memrev_def)

end
