(* ===== verification/ByteQueue.thy ===== *)
theory ByteQueue
  imports MptBase
begin

text \<open>
  The contract of a bounded byte queue, as its clients (the coded message queues and the
  streams) rely on it: bytes leave in the order they entered, a request that does not fit is
  refused and leaves the queue as it was, and the request that the code does not survive is
  named.  The contract is a locale; runs of operations are functions of the provider's
  operations, so that a refinement statement mentions them.

  An operation of the provider returns \<open>None\<close> where its behaviour is undefined.  Otherwise it
  returns its answer (for \<open>push\<close> whether the bytes were taken, for \<open>shift\<close> the bytes or their
  refusal) together with the queue it leaves, for refused requests as well.
\<close>

datatype qop = Push block | Shift nat

text \<open>The specification on the list of stored bytes: the new contents and the answer, \<open>None\<close> in
  the answer for a refused request.  An empty push is refused by a full queue and otherwise
  divides by zero (queue/qpost.c:33), which ends the run.\<close>

fun spec_step :: "nat \<Rightarrow> block \<Rightarrow> qop \<Rightarrow> (block \<times> block option) option" where
  "spec_step cap ys (Push xs) =
     (if xs = [] then (if length ys < cap then None else Some (ys, None))
      else if length ys + length xs \<le> cap then Some (ys @ xs, Some [])
      else Some (ys, None))"
| "spec_step cap ys (Shift n) =
     (if n \<le> length ys then Some (drop n ys, Some (take n ys)) else Some (ys, None))"

fun spec_run :: "nat \<Rightarrow> block \<Rightarrow> qop list \<Rightarrow> (block \<times> block option list) option" where
  "spec_run cap ys [] = Some (ys, [])"
| "spec_run cap ys (c # cs) = do {
     (zs, out) \<leftarrow> spec_step cap ys c;
     (r, outs) \<leftarrow> spec_run cap zs cs;
     Some (r, out # outs) }"

text \<open>The same requests, served by an implementation.\<close>

fun impl_step :: "('q \<Rightarrow> block \<Rightarrow> (bool \<times> 'q) option) \<Rightarrow> ('q \<Rightarrow> nat \<Rightarrow> (block option \<times> 'q) option)
    \<Rightarrow> 'q \<Rightarrow> qop \<Rightarrow> ('q \<times> block option) option" where
  "impl_step push shift q (Push xs) = do {
     (taken, q') \<leftarrow> push q xs;
     Some (q', if taken then Some [] else None) }"
| "impl_step push shift q (Shift n) = do {
     (out, q') \<leftarrow> shift q n;
     Some (q', out) }"

fun impl_run :: "('q \<Rightarrow> block \<Rightarrow> (bool \<times> 'q) option) \<Rightarrow> ('q \<Rightarrow> nat \<Rightarrow> (block option \<times> 'q) option)
    \<Rightarrow> 'q \<Rightarrow> qop list \<Rightarrow> ('q \<times> block option list) option" where
  "impl_run push shift q [] = Some (q, [])"
| "impl_run push shift q (c # cs) = do {
     (q', out) \<leftarrow> impl_step push shift q c;
     (r, outs) \<leftarrow> impl_run push shift q' cs;
     Some (r, out # outs) }"

locale byte_queue =
  fixes inv :: "'q \<Rightarrow> bool"
    and cap :: "'q \<Rightarrow> nat"
    and content :: "'q \<Rightarrow> block"
    and push :: "'q \<Rightarrow> block \<Rightarrow> (bool \<times> 'q) option"
    and shift :: "'q \<Rightarrow> nat \<Rightarrow> (block option \<times> 'q) option"
  assumes bounded: "inv q \<Longrightarrow> length (content q) \<le> cap q"
    and push_fits: "inv q \<Longrightarrow> xs \<noteq> [] \<Longrightarrow> length (content q) + length xs \<le> cap q \<Longrightarrow>
      \<exists>q'. push q xs = Some (True, q') \<and> inv q' \<and> cap q' = cap q \<and> content q' = content q @ xs"
    and push_over: "inv q \<Longrightarrow> xs \<noteq> [] \<Longrightarrow> cap q < length (content q) + length xs \<Longrightarrow>
      push q xs = Some (False, q)"
    and push_none: "inv q \<Longrightarrow> length (content q) < cap q \<Longrightarrow> push q [] = None"
    and push_none_full: "inv q \<Longrightarrow> length (content q) = cap q \<Longrightarrow> push q [] = Some (False, q)"
    and shift_fits: "inv q \<Longrightarrow> n \<le> length (content q) \<Longrightarrow>
      \<exists>q'. shift q n = Some (Some (take n (content q)), q') \<and> inv q' \<and> cap q' = cap q
         \<and> content q' = drop n (content q)"
    and shift_over: "inv q \<Longrightarrow> length (content q) < n \<Longrightarrow> shift q n = Some (None, q)"
begin

lemma step_undefined:
  assumes "inv q" and "spec_step (cap q) (content q) c = None"
  shows "impl_step push shift q c = None"
  using assms push_none [of q] by (cases c) (auto split: if_splits)

lemma step_refines:
  assumes "inv q" and "spec_step (cap q) (content q) c = Some (ys, out)"
  obtains q' where "impl_step push shift q c = Some (q', out)" "inv q'" "cap q' = cap q" "content q' = ys"
proof (cases c)
  case (Push xs)
  show thesis
  proof (cases "xs \<noteq> [] \<and> length (content q) + length xs \<le> cap q")
    case True
    then show thesis using that push_fits [of q xs] Push assms by auto
  next
    case False
    then have "push q xs = Some (False, q)"
      using push_over [of q xs] push_none_full [of q] bounded [of q] Push assms
      by (cases "xs = []") (auto split: if_splits)
    then show thesis using that Push assms False by (auto split: if_splits)
  qed
next
  case (Shift n)
  then show thesis using that assms shift_fits [of q n] shift_over [of q n]
    by (cases "n \<le> length (content q)") auto
qed

lemma run_refines:
  assumes "inv q"
  shows "case spec_run (cap q) (content q) cs of
           None \<Rightarrow> impl_run push shift q cs = None
         | Some (ys, outs) \<Rightarrow>
             \<exists>q'. impl_run push shift q cs = Some (q', outs) \<and> inv q' \<and> cap q' = cap q \<and> content q' = ys"
  using assms
proof (induction cs arbitrary: q)
  case Nil
  then show ?case by simp
next
  case (Cons c cs)
  show ?case
  proof (cases "spec_step (cap q) (content q) c")
    case None
    then show ?thesis using step_undefined [OF Cons.prems] by simp
  next
    case (Some r)
    then obtain ys out where r: "spec_step (cap q) (content q) c = Some (ys, out)" by (cases r) simp
    from step_refines [OF Cons.prems r] obtain q1
      where q1: "impl_step push shift q c = Some (q1, out)" "inv q1" "cap q1 = cap q" "content q1 = ys" .
    from Cons.IH [OF q1(2)] show ?thesis using r q1
      by (cases "spec_run (cap q) ys cs") auto
  qed
qed

text \<open>Bytes that are pushed leave unchanged once everything before them has left.\<close>

lemma push_then_drain:
  assumes "inv q" and "xs \<noteq> []" and "length (content q) + length xs \<le> cap q"
  shows "\<exists>q1 q2 q3. push q xs = Some (True, q1) \<and> shift q1 (length (content q)) = Some (Some (content q), q2)
           \<and> shift q2 (length xs) = Some (Some xs, q3) \<and> content q3 = []"
proof -
  obtain q1 where q1: "push q xs = Some (True, q1)" "inv q1" "content q1 = content q @ xs"
    using push_fits [OF assms] by blast
  then obtain q2 where q2: "shift q1 (length (content q)) = Some (Some (content q), q2)" "inv q2" "content q2 = xs"
    using shift_fits [of q1 "length (content q)"] by auto
  then obtain q3 where "shift q2 (length xs) = Some (Some xs, q3)" "content q3 = []"
    using shift_fits [of q2 "length xs"] by auto
  with q1 q2 show ?thesis by blast
qed

end

text \<open>A queue that takes bytes back at its front.\<close>

locale byte_deque = byte_queue inv cap content push shift
  for inv :: "'q \<Rightarrow> bool" and cap content push shift +
  fixes unshift :: "'q \<Rightarrow> block \<Rightarrow> (bool \<times> 'q) option"
  assumes unshift_fits: "inv q \<Longrightarrow> xs \<noteq> [] \<Longrightarrow> length (content q) + length xs \<le> cap q \<Longrightarrow>
      \<exists>q'. unshift q xs = Some (True, q') \<and> inv q' \<and> cap q' = cap q \<and> content q' = xs @ content q"
begin

lemma unshift_shift:
  assumes "inv q" and "xs \<noteq> []" and "length (content q) + length xs \<le> cap q"
  shows "\<exists>q1 q2. unshift q xs = Some (True, q1) \<and> shift q1 (length xs) = Some (Some xs, q2) \<and> content q2 = content q"
proof -
  obtain q1 where q1: "unshift q xs = Some (True, q1)" "inv q1" "content q1 = xs @ content q"
    using unshift_fits [OF assms] by blast
  then show ?thesis using shift_fits [of q1 "length xs"] by auto
qed

text \<open>A removal can be undone.\<close>

lemma shift_unshift:
  assumes "inv q" and "n \<le> length (content q)" and "n \<noteq> 0"
  shows "\<exists>xs q1 q2. shift q n = Some (Some xs, q1) \<and> unshift q1 xs = Some (True, q2) \<and> content q2 = content q"
proof -
  obtain q1 where q1: "shift q n = Some (Some (take n (content q)), q1)" "inv q1" "cap q1 = cap q"
    "content q1 = drop n (content q)"
    using shift_fits [OF assms(1,2)] by blast
  moreover have "take n (content q) \<noteq> []" using assms by auto
  ultimately show ?thesis using unshift_fits [of q1 "take n (content q)"] bounded [OF assms(1)] by fastforce
qed

end

end
