(* ===== verification/Queue.thy ===== *)
theory Queue
  imports Memrev ByteQueue
begin

unbundle bit_operations_syntax

text \<open>
  The ring buffer of \<open>mptcore/queue.h\<close> (\<open>struct mpt_queue\<close>) and its operations under
  \<open>mptcore/queue/\<close>.  A queue owns one memory block \<open>qbase\<close>; the null pointer is the empty block
  (no operation allocates a block of zero bytes).  \<open>qlen\<close> bytes of it starting at offset \<open>qoff\<close>
  are used, continuing at the start of the block when they reach its end \<open>qmax\<close>.
  Pointers into the block are indices.

  A result buffer that the caller passes (\<open>void *data\<close>) is a flag or an optional block on input
  and a block of the bytes written to it on output.  The system calls \<open>readv\<close> and \<open>writev\<close> and
  the allocator are parameters.
\<close>

record queue =
  qbase :: block
  qlen :: nat
  qmax :: nat
  qoff :: nat

definition MPT_QUEUE_INIT :: queue where
  "MPT_QUEUE_INIT = \<lparr>qbase = [], qlen = 0, qmax = 0, qoff = 0\<rparr>"

definition MPT_queue_frag :: "queue \<Rightarrow> bool" where
  "MPT_queue_frag q \<longleftrightarrow> usub (qmax q) (qlen q) < qoff q"

datatype errno = EINVAL | ERANGE | EFAULT | EAGAIN | ENOTSUP | EOVERFLOW

text \<open>Addresses that queue operations return: null, inside the queue's block, or the start of the
  caller's buffer.\<close>

datatype qaddr = QNull errno | QIn nat | QData

text \<open>The value of a \<open>ssize_t\<close> result that the source stores in an \<open>int\<close>.\<close>

definition to_int32 :: "int \<Rightarrow> int" where
  "to_int32 x = sint (word_of_int x :: 32 word)"

section \<open>Used and unused parts\<close>

definition qptr :: "queue \<Rightarrow> nat \<Rightarrow> nat option" where
  "qptr q p = (if qbase q = [] \<and> p = 0 then None else Some p)"

text \<open>\<open>mpt_queue_data\<close>: start of the first part and, where \<open>low\<close> is passed, its size.\<close>

definition mpt_queue_data :: "queue \<Rightarrow> bool \<Rightarrow> nat option \<times> nat" where
  "mpt_queue_data q low =
     (let start = usub (qmax q) (qoff q) in
      if start < qlen q then
        (if \<not> low then (None, 0) else (qptr q (qoff q), start))
      else (qptr q (qoff q), qlen q))"

text \<open>\<open>mpt_queue_empty\<close>: start and sizes (\<open>low\<close>, \<open>high\<close>) of the unused parts; with \<open>None\<close> the null
  pointer is returned and the sizes are not set.\<close>

definition mpt_queue_empty :: "queue \<Rightarrow> (nat \<times> nat \<times> nat) option" where
  "mpt_queue_empty q =
     (let space = usub (qmax q) (qlen q) in
      if space = 0 then None
      else if space \<le> qoff q then
        (let add = usub (qmax q) (qoff q) in Some (usub (qlen q) add, space, 0))
      else Some (qoff q + qlen q, space - qoff q, qoff q))"

section \<open>Removal\<close>

text \<open>\<open>mpt_queue_crop\<close>: remove \<open>len\<close> bytes at position \<open>pos\<close>.  The pointer \<open>src\<close> of the split case
  lies before the block if \<open>len < low\<close>.\<close>

definition mpt_queue_crop :: "queue \<Rightarrow> nat \<Rightarrow> nat \<Rightarrow> (int \<times> queue) option" where
  "mpt_queue_crop q pos len =
     (let low = snd (mpt_queue_data q True);
          high = usub (qlen q) low in
      if pos = 0 then
        (if len > low + high then Some (BadArgument, q)
         else if len \<ge> low then
           Some (if len - low \<noteq> 0 then 2 else 0, q\<lparr>qlen := qlen q - len, qoff := len - low\<rparr>)
         else Some (0, q\<lparr>qlen := qlen q - len, qoff := qoff q + len\<rparr>))
      else if \<not> pos < low \<and> pos - low > high then Some (BadArgument, q)
      else
        (let (base, low', high') =
               (if pos < low then (qoff q + pos, low - pos, high)
                else (pos - low, high - (pos - low), 0)) in
         if low' + high' < len then Some (BadArgument, q)
         else
           (let post = low' + high' - len in
            do {
              (ret, m) \<leftarrow>
                (if high' \<noteq> 0 then
                   (if len < low' then None
                    else
                      (let src = len - low' in
                       if low' \<le> post then do { m \<leftarrow> memcpy_b (qbase q) base src post; Some (1, m) }
                       else do {
                         m \<leftarrow> memcpy_b (qbase q) base src low';
                         m \<leftarrow> memmove_b m 0 len (usub post low');
                         Some (3, m) }))
                 else if post \<noteq> 0 then do {
                   m \<leftarrow> memmove_b (qbase q) base (base + len) post; Some (0, m) }
                 else Some (0, qbase q));
              Some (ret, q\<lparr>qbase := m, qlen := qlen q - len\<rparr>) })))"

section \<open>Access at a position\<close>

text \<open>The local copy \<open>tmp\<close> of the queue that \<open>mpt_queue_set\<close> and \<open>mpt_queue_get\<close> cut at \<open>pos\<close>; the
  flag is bit 0 of their result.\<close>

definition queue_seek :: "queue \<Rightarrow> nat \<Rightarrow> (int \<times> queue) option" where
  "queue_seek q pos =
     (if pos = 0 then Some (0, q)
      else do {
        (r, tmp) \<leftarrow> mpt_queue_crop q 0 pos;
        (if r < 0 then Some (BadArgument, q)
         else Some (if pos > usub (qmax q) (qoff q) then 1 else 0, tmp)) })"

definition mpt_queue_set :: "queue \<Rightarrow> nat \<Rightarrow> nat \<Rightarrow> block option \<Rightarrow> (int \<times> queue) option" where
  "mpt_queue_set q pos len data =
     (if len = 0 then Some (0, q)
      else do {
        (ret, tmp) \<leftarrow> queue_seek q pos;
        (if ret < 0 then Some (BadArgument, q)
         else if len > qlen tmp then Some (MissingBuffer, q)
         else
           (let low = snd (mpt_queue_data (tmp\<lparr>qlen := len\<rparr>) True);
                high = len - low in
            do {
              val \<leftarrow> (case data of None \<Rightarrow> Some (replicate len 0) | Some d \<Rightarrow> rd d 0 len);
              m \<leftarrow> (if low \<noteq> 0 then wr (qbase q) (qoff tmp) (take low val) else Some (qbase q));
              m \<leftarrow> (if high \<noteq> 0 then wr m 0 (drop low val) else Some m);
              Some (if high \<noteq> 0 then ret + 2 else ret, q\<lparr>qbase := m\<rparr>) })) })"

definition mpt_queue_get :: "queue \<Rightarrow> nat \<Rightarrow> nat \<Rightarrow> block option \<Rightarrow> (int \<times> block option) option" where
  "mpt_queue_get q pos len data =
     (if len = 0 then Some (0, data)
      else do {
        (ret, tmp) \<leftarrow> queue_seek q pos;
        (if ret < 0 then Some (BadArgument, data)
         else if len > qlen tmp then Some (BadArgument, data)
         else
           (let low = snd (mpt_queue_data (tmp\<lparr>qlen := len\<rparr>) True);
                high = len - low;
                ret' = (if high \<noteq> 0 then ret + 2 else ret) in
            case data of
              None \<Rightarrow> Some (ret', None)
            | Some d \<Rightarrow> do {
                d \<leftarrow> (if low \<noteq> 0 then do { a \<leftarrow> rd (qbase q) (qoff tmp) low; wr d 0 a } else Some d);
                d \<leftarrow> (if high \<noteq> 0 then do { b \<leftarrow> rd (qbase q) 0 high; wr d low b } else Some d);
                Some (ret', Some d) })) })"

section \<open>Insertion at both ends\<close>

text \<open>The quotient at the end of \<open>mpt_qpost\<close> and \<open>mpt_qpre\<close> traps for a zero length.  \<open>mpt_qpre\<close> does
  not test the result of \<open>mpt_queue_empty\<close>: on a full queue \<open>low\<close> and \<open>high\<close> are indeterminate.\<close>

definition mpt_qpost :: "queue \<Rightarrow> nat \<Rightarrow> (int \<times> queue) option" where
  "mpt_qpost q len =
     (case mpt_queue_empty q of
        None \<Rightarrow> Some (MissingBuffer, q)
      | Some (_, low, high) \<Rightarrow>
          (let total = low + high in
           if len > total then Some (MissingBuffer, q)
           else if len = 0 then None
           else Some (int ((total - len) div len), q\<lparr>qlen := qlen q + len\<rparr>)))"

definition mpt_qpre :: "queue \<Rightarrow> nat \<Rightarrow> (int \<times> queue) option" where
  "mpt_qpre q len =
     (case mpt_queue_empty q of
        None \<Rightarrow> None
      | Some (_, low, high) \<Rightarrow>
          (let total = low + high in
           if len > total then Some (MissingBuffer, q)
           else if len = 0 then None
           else
             (let off = (if high \<noteq> 0 \<and> high < len then qmax q - (len - high)
                         else if len < qoff q then qoff q - len
                         else qoff q + qmax q - len) in
              Some (int ((total - len) div len), q\<lparr>qlen := qlen q + len, qoff := off\<rparr>))))"

definition mpt_qpush :: "queue \<Rightarrow> nat \<Rightarrow> block option \<Rightarrow> (int \<times> queue) option" where
  "mpt_qpush q len data = do {
     (r, q1) \<leftarrow> mpt_qpost q len;
     (let ret = to_int32 r in
      if ret < 0 then Some (ret, q1)
      else mpt_queue_set q1 (qlen q1 - len) len data) }"

definition mpt_qunshift :: "queue \<Rightarrow> nat \<Rightarrow> block option \<Rightarrow> (int \<times> queue) option" where
  "mpt_qunshift q len data = do {
     (r, q1) \<leftarrow> mpt_qpre q len;
     (let ret = to_int32 r in
      if ret < 0 then Some (ret, q1)
      else mpt_queue_set q1 0 len data) }"

section \<open>Removal at both ends\<close>

definition mpt_qshift :: "queue \<Rightarrow> nat \<Rightarrow> block option \<Rightarrow> (qaddr \<times> block option \<times> queue) option" where
  "mpt_qshift q len data =
     (let low = snd (mpt_queue_data q True) in
      if len \<le> low then do {
        data' \<leftarrow> (case data of None \<Rightarrow> Some None
                  | Some d \<Rightarrow> do { a \<leftarrow> rd (qbase q) (qoff q) len; d \<leftarrow> wr d 0 a; Some (Some d) });
        (_, q1) \<leftarrow> mpt_queue_crop q 0 len;
        Some (QIn (qoff q), data', q1) }
      else
        (case data of
           None \<Rightarrow> Some (QNull EINVAL, None, q)
         | Some d \<Rightarrow>
             if len > qlen q then Some (QNull ERANGE, Some d, q)
             else do {
               a \<leftarrow> rd (qbase q) (qoff q) low;
               d \<leftarrow> wr d 0 a;
               b \<leftarrow> rd (qbase q) 0 (len - low);
               d \<leftarrow> wr d low b;
               (_, q1) \<leftarrow> mpt_queue_crop q 0 len;
               Some (QData, Some d, q1) }))"

definition mpt_qpop :: "queue \<Rightarrow> nat \<Rightarrow> block option \<Rightarrow> (qaddr \<times> block option \<times> queue) option" where
  "mpt_qpop q len data =
     (let low = snd (mpt_queue_data q True);
          high = usub (qlen q) low;
          copy = (\<lambda>base. case data of None \<Rightarrow> Some None
                  | Some d \<Rightarrow> do { a \<leftarrow> rd (qbase q) base len; d \<leftarrow> wr d 0 a; Some (Some d) }) in
      if high = 0 then
        (if len > low then Some (QNull ERANGE, data, q)
         else do {
           data' \<leftarrow> copy (qoff q);
           Some (QIn (qoff q), data', q\<lparr>qlen := qlen q - len\<rparr>) })
      else if len > high then
        (case data of
           None \<Rightarrow> Some (QNull EINVAL, None, q)
         | Some d \<Rightarrow>
             (let len' = len - high in
              if len' > low then Some (QNull ERANGE, Some d, q)
              else do {
                a \<leftarrow> rd (qbase q) (qmax q - len') high;
                d \<leftarrow> wr d 0 a;
                b \<leftarrow> rd (qbase q) 0 high;
                d \<leftarrow> wr d len' b;
                Some (QData, Some d, q\<lparr>qlen := qlen q - len'\<rparr>) }))
      else
        (let base = high - len in
         do {
           data' \<leftarrow> copy base;
           Some (QIn base, data', q\<lparr>qlen := qlen q - len\<rparr>) }))"

section \<open>Element search\<close>

text \<open>\<open>mpt_queue_find\<close> passes each element of size \<open>esz\<close> to \<open>cmp\<close>; a match is the result zero.  The
  quotients by \<open>esz\<close> trap for an element size of zero.\<close>

fun find_loop :: "block \<Rightarrow> nat \<Rightarrow> (block \<Rightarrow> int) \<Rightarrow> nat \<Rightarrow> nat \<Rightarrow> nat option option" where
  "find_loop m esz cmp addr 0 = Some None"
| "find_loop m esz cmp addr (Suc iter) = do {
     e \<leftarrow> rd m addr esz;
     (if cmp e = 0 then Some (Some addr) else find_loop m esz cmp (addr + esz) iter) }"

definition mpt_queue_find :: "queue option \<Rightarrow> nat \<Rightarrow> (block \<Rightarrow> int) option \<Rightarrow> (errno option + nat) option" where
  "mpt_queue_find queue esz cmp =
     (case (queue, cmp) of
        (Some q, Some cmp) \<Rightarrow>
          if qlen q < esz then Some (Inl (Some EAGAIN))
          else if esz = 0 then None
          else if \<not> MPT_queue_frag q then do {
            r \<leftarrow> find_loop (qbase q) esz cmp (qoff q) (qlen q div esz);
            Some (case r of Some a \<Rightarrow> Inr a | None \<Rightarrow> Inl None) }
          else do {
            r \<leftarrow> find_loop (qbase q) esz cmp (qoff q) (usub (qmax q) (qoff q) div esz);
            (case r of
               Some a \<Rightarrow> Some (Inr a)
             | None \<Rightarrow>
                 (let iter = usub (qmax q) (qoff q) in
                  if iter mod esz \<noteq> 0 then Some (Inl (Some ENOTSUP))
                  else do {
                    r \<leftarrow> find_loop (qbase q) esz cmp 0 (usub (qlen q) iter div esz);
                    Some (case r of Some a \<Rightarrow> Inr a | None \<Rightarrow> Inl None) })) }
      | _ \<Rightarrow> Some (Inl (Some EFAULT)))"

section \<open>Alignment and size\<close>

definition mpt_queue_align :: "queue \<Rightarrow> nat \<Rightarrow> queue option" where
  "mpt_queue_align q pos =
     (if pos > qmax q then Some q
      else if qlen q = 0 then Some (q\<lparr>qoff := 0\<rparr>)
      else if qbase q = [] then Some q
      else do {
        (q, fin) \<leftarrow>
          (if MPT_queue_frag q then
             (let pv = usub (qmax q) (qlen q) in
              do {
                q \<leftarrow> (if pv \<noteq> 0 then do {
                       m \<leftarrow> memmove_b (qbase q) (qoff q - pv) (qoff q) (usub (qmax q) (qoff q));
                       Some (q\<lparr>qbase := m, qoff := qoff q - pv\<rparr>) }
                     else Some q);
                (_, m) \<leftarrow> mpt_memrev (qbase q) (Some 0) (qoff q) (qlen q);
                Some (q\<lparr>qbase := m, qoff := 0\<rparr>, pos = 0) })
           else Some (q, pos = qoff q));
        (if fin then Some q
         else
           (let pv = usub (qmax q) (qlen q) in
            if pv \<ge> pos then do {
              m \<leftarrow> memmove_b (qbase q) pos (qoff q) (qlen q);
              Some (q\<lparr>qbase := m, qoff := pos\<rparr>) }
            else
              (let pv = usub pos (qoff q) in
               do {
                 (_, m) \<leftarrow> mpt_memrev (qbase q) (Some (qoff q)) pv (qlen q);
                 m \<leftarrow> (if qoff q \<noteq> 0 then memmove_b m 0 (qoff q) pv else Some m);
                 (let pos = usub (qmax q) (usub (qlen q) pv) in
                  do {
                    m \<leftarrow> (if pos \<noteq> qoff q + pv then memmove_b m pos (qoff q + pv) (usub (qlen q) pv)
                         else Some m);
                    Some (q\<lparr>qbase := m\<rparr>) }) }))) })"

text \<open>The allocator: \<open>al n\<close> is a fresh block of \<open>n\<close> bytes or \<open>None\<close> where it fails.  \<open>realloc\<close> keeps
  the old bytes as far as they fit.\<close>

definition realloc_b :: "(nat \<Rightarrow> block option) \<Rightarrow> block \<Rightarrow> nat \<Rightarrow> block option" where
  "realloc_b al m n = map_option (\<lambda>f. take n m @ drop (length m) f) (al n)"

definition alloc_ok :: "(nat \<Rightarrow> block option) \<Rightarrow> bool" where
  "alloc_ok al \<longleftrightarrow> (\<forall>n f. al n = Some f \<longrightarrow> length f = n)"

text \<open>\<open>mpt_queue_resize\<close>: the flag tells whether the returned address is non-null.\<close>

definition queue_realloc :: "(nat \<Rightarrow> block option) \<Rightarrow> nat \<Rightarrow> queue \<Rightarrow> bool \<times> queue" where
  "queue_realloc al len q =
     (case realloc_b al (qbase q) len of
        None \<Rightarrow> (False, q)
      | Some m \<Rightarrow> (True, q\<lparr>qbase := m, qmax := len\<rparr>))"

definition mpt_queue_resize :: "(nat \<Rightarrow> block option) \<Rightarrow> queue \<Rightarrow> nat \<Rightarrow> (bool \<times> queue) option" where
  "mpt_queue_resize al q len =
     (if len = 0 then Some (False, MPT_QUEUE_INIT)
      else if len < qmax q then do {
        q \<leftarrow> (if len < qlen q then do { (_, q) \<leftarrow> mpt_queue_crop q 0 (qlen q - len); Some q } else Some q);
        q \<leftarrow> mpt_queue_align q 0;
        Some (queue_realloc al len q) }
      else if len > qmax q then do {
        q \<leftarrow> (if MPT_queue_frag q then mpt_queue_align q 0 else Some q);
        Some (queue_realloc al len q) }
      else Some (qbase q \<noteq> [], q))"

text \<open>\<open>mpt_queue_prepare\<close> with its 64 bit arithmetic; \<open>MPT_align\<close> rounds up to the size of a pointer.\<close>

definition MPT_align :: "64 word \<Rightarrow> 64 word" where
  "MPT_align x = x + 7 - ((x - 1) AND 7)"

definition mpt_queue_prepare :: "(nat \<Rightarrow> block option) \<Rightarrow> queue \<Rightarrow> nat \<Rightarrow> (nat \<times> queue) option" where
  "mpt_queue_prepare al q len =
     (let left = usub (qmax q) (qlen q) in
      if len > left then
        (if 2 ^ 64 - 1 - left < len then Some (0, q)
         else do {
           (ok, q) \<leftarrow> mpt_queue_resize al q (unat (MPT_align (of_nat (len - left + qmax q))));
           Some (if ok then usub (qmax q) (qlen q) else 0, q) })
      else Some (left, q))"

definition mpt_queue_string :: "queue \<Rightarrow> (nat option \<times> queue) option" where
  "mpt_queue_string q =
     (let rem = usub (qmax q) (qlen q) in
      if rem = 0 then Some (None, q)
      else do {
        q \<leftarrow> (if rem \<le> qoff q then mpt_queue_align q 0 else Some q);
        m \<leftarrow> wr (qbase q) (qoff q + qlen q) [0];
        Some (qptr q (qoff q), q\<lparr>qbase := m\<rparr>) })"

section \<open>File transfer\<close>

text \<open>\<open>readv\<close> gets the sizes of the buffers and returns an error (\<open>Inl\<close>, zero at the end of the file)
  or the bytes read; \<open>writev\<close> gets the buffers and returns the result of the call.\<close>

definition mpt_queue_load :: "(nat list \<Rightarrow> int + block) \<Rightarrow> queue \<Rightarrow> nat \<Rightarrow> (int \<times> queue) option" where
  "mpt_queue_load readv q len =
     (case mpt_queue_empty q of
        None \<Rightarrow> Some (- 2, q)
      | Some (base, low, high) \<Rightarrow>
          (let (low, high) =
             (if len = 0 then (low, high)
              else if len < low then (len, 0)
              else if len - low < high then (low, len - low)
              else (low, high)) in
           case readv (if high \<noteq> 0 then [low, high] else [low]) of
             Inl e \<Rightarrow> Some (e, q)
           | Inr bs \<Rightarrow> do {
               m \<leftarrow> wr (qbase q) base (take low bs);
               m \<leftarrow> wr m 0 (drop low bs);
               Some (int (length bs), q\<lparr>qbase := m, qlen := qlen q + length bs\<rparr>) }))"

definition mpt_queue_save :: "(block list \<Rightarrow> int) \<Rightarrow> queue \<Rightarrow> (int \<times> queue) option" where
  "mpt_queue_save writev q =
     (if qlen q = 0 then Some (0, q)
      else
        (case mpt_queue_data q True of
           (None, _) \<Rightarrow> Some (MissingData, q)
         | (Some p, low) \<Rightarrow> do {
             a \<leftarrow> rd (qbase q) p low;
             b \<leftarrow> rd (qbase q) 0 (usub (qlen q) low);
             (let len = writev (if usub (qlen q) low \<noteq> 0 then [a, b] else [a]) in
              if len \<le> 0 then Some (len, q)
              else do {
                (_, q1) \<leftarrow> mpt_queue_crop q 0 (nat len);
                Some (len, q1) }) }))"

section \<open>Invariant and contents\<close>

text \<open>\<open>ring b o\<close> is the block read cyclically from offset \<open>o\<close>; the contents of a queue are its first
  \<open>qlen\<close> bytes.\<close>

definition ring :: "block \<Rightarrow> nat \<Rightarrow> block" where
  "ring b k = drop k b @ take k b"

definition queue_wf :: "queue \<Rightarrow> bool" where
  "queue_wf q \<longleftrightarrow> length (qbase q) = qmax q \<and> qlen q \<le> qmax q \<and> qoff q \<le> qmax q"

definition qdata :: "queue \<Rightarrow> block" where
  "qdata q = take (qlen q) (ring (qbase q) (qoff q))"

definition ring_off :: "nat \<Rightarrow> nat \<Rightarrow> nat \<Rightarrow> nat" where
  "ring_off n k p = (if k + p < n then k + p else k + p - n)"

text \<open>The bytes that \<open>mpt_queue_set\<close> stores: the caller's data or zeros.\<close>

definition set_bytes :: "block option \<Rightarrow> nat \<Rightarrow> block" where
  "set_bytes data n = (case data of None \<Rightarrow> replicate n 0 | Some d \<Rightarrow> take n d)"

definition data_ok :: "block option \<Rightarrow> nat \<Rightarrow> bool" where
  "data_ok data n \<longleftrightarrow> (case data of None \<Rightarrow> True | Some d \<Rightarrow> n \<le> length d)"

text \<open>What POSIX documents of the system calls: no more bytes than the buffers hold.\<close>

definition readv_ok :: "(nat list \<Rightarrow> int + block) \<Rightarrow> bool" where
  "readv_ok readv \<longleftrightarrow> (\<forall>ns bs. readv ns = Inr bs \<longrightarrow> length bs \<le> sum_list ns)"

definition writev_ok :: "(block list \<Rightarrow> int) \<Rightarrow> bool" where
  "writev_ok writev \<longleftrightarrow> (\<forall>bs. writev bs \<le> int (length (concat bs)))"

text \<open>The \<open>i\<close>-th element of the contents, and where it lies in the block.\<close>

definition qelem :: "queue \<Rightarrow> nat \<Rightarrow> nat \<Rightarrow> block" where
  "qelem q esz i = take esz (drop (i * esz) (qdata q))"

text \<open>The operations as a client calls them: a negative result is a refusal, and the queue is the
  one the operation leaves in either case.  \<open>None\<close> is undefined behaviour, as everywhere.\<close>

definition ring_push :: "queue \<Rightarrow> block \<Rightarrow> (bool \<times> queue) option" where
  "ring_push q xs = do {
     (r, q') \<leftarrow> mpt_qpush q (length xs) (Some xs);
     Some (0 \<le> r, q') }"

definition ring_unshift :: "queue \<Rightarrow> block \<Rightarrow> (bool \<times> queue) option" where
  "ring_unshift q xs = do {
     (r, q') \<leftarrow> mpt_qunshift q (length xs) (Some xs);
     Some (0 \<le> r, q') }"

definition ring_shift_out :: "queue \<Rightarrow> nat \<Rightarrow> (block option \<times> queue) option" where
  "ring_shift_out q n = do {
     (a, d, q') \<leftarrow> mpt_qshift q n (Some (replicate n 0));
     Some (case a of QNull _ \<Rightarrow> None | _ \<Rightarrow> d, q') }"

definition ring_inv :: "queue \<Rightarrow> bool" where
  "ring_inv q \<longleftrightarrow> queue_wf q \<and> qmax q < 2 ^ 31"

definition queue_example :: queue where
  "queue_example = \<lparr>qbase = [1, 2, 3, 4, 5, 6, 7, 8], qlen = 5, qmax = 8, qoff = 5\<rparr>"

lemma length_ring [simp]: "length (ring b k) = length b"
  by (simp add: ring_def)

lemma ring_zero [simp]: "ring b 0 = b"
  by (simp add: ring_def)

lemma length_qdata [simp]: "queue_wf q \<Longrightarrow> length (qdata q) = qlen q"
  by (simp add: qdata_def queue_wf_def)

lemma ring_shift:
  assumes "k \<le> length b" and "p \<le> length b"
  shows "ring b (ring_off (length b) k p) = drop p (ring b k) @ take p (ring b k)"
proof (cases "k + p < length b")
  case True
  then show ?thesis by (simp add: ring_def ring_off_def take_add add.commute)
next
  case False
  define j where "j = k + p - length b"
  have j: "j \<le> k" "ring_off (length b) k p = j" using assms False by (auto simp: j_def ring_off_def)
  have "drop j b = drop j (take k b) @ drop k b"
    using j assms by (metis append_take_drop_id diff_is_0_eq drop0 drop_append length_take min.absorb2)
  moreover have "p - (length b - k) = j" "length b - k \<le> p" using assms False by (auto simp: j_def)
  ultimately show ?thesis using j assms by (simp add: ring_def min_def)
qed

text \<open>A write that wraps at the end of the block replaces the start of the ring.\<close>

lemma ring_write:
  assumes "k \<le> length b" and "length xs \<le> length b" and "low = min (length xs) (length b - k)"
  shows "\<exists>b1 b2. wr b k (take low xs) = Some b1 \<and> wr b1 0 (drop low xs) = Some b2
           \<and> length b2 = length b \<and> ring b2 k = xs @ drop (length xs) (ring b k)"
proof (cases "length xs \<le> length b - k")
  case True
  then have low: "low = length xs" "k + length xs \<le> length b" using assms by auto
  then show ?thesis by (simp add: wr_def ring_def add.commute [of _ k])
next
  case False
  then have low: "low = length b - k" "length b - k < length xs" using assms(3) by auto
  then show ?thesis using assms(1,2) by (simp add: wr_def ring_def drop_take)
qed

lemma ring_read:
  assumes "k \<le> length b" and "n \<le> length b" and "low = min n (length b - k)"
  shows "rd b k low = Some (take low (ring b k))"
    and "rd b 0 (n - low) = Some (drop low (take n (ring b k)))"
  using assms by (auto simp: rd_def ring_def min_def drop_take)

lemma ring_set_at:
  assumes "k \<le> length b" and "length b' = length b" and "p + length xs \<le> length b"
    and "k' = ring_off (length b) k p"
    and "ring b' k' = xs @ drop (length xs) (ring b k')"
  shows "ring b' k = take p (ring b k) @ xs @ drop (p + length xs) (ring b k)"
proof -
  have "drop p (ring b' k) @ take p (ring b' k) = xs @ drop (length xs) (drop p (ring b k) @ take p (ring b k))"
    using ring_shift [of k b' p] ring_shift [of k b p] assms by simp
  also have "\<dots> = (xs @ drop (p + length xs) (ring b k)) @ take p (ring b k)"
    using assms by (simp add: add.commute)
  finally have "drop p (ring b' k) = xs @ drop (p + length xs) (ring b k)
      \<and> take p (ring b' k) = take p (ring b k)"
    using assms by (subst (asm) append_eq_append_conv) simp_all
  then show ?thesis by (metis append_take_drop_id)
qed

section \<open>Parts of a well-formed queue\<close>

lemma queue_low:
  "queue_wf q \<Longrightarrow> snd (mpt_queue_data q True) = min (qlen q) (qmax q - qoff q)"
  by (simp add: mpt_queue_data_def queue_wf_def Let_def)

lemma queue_low_len:
  "queue_wf q \<Longrightarrow> n \<le> qmax q \<Longrightarrow> snd (mpt_queue_data (q\<lparr>qlen := n\<rparr>) True) = min n (qmax q - qoff q)"
  by (simp add: mpt_queue_data_def queue_wf_def Let_def)

lemma crop_front:
  assumes wf: "queue_wf q" and n: "n \<le> qlen q"
  shows "\<exists>r q'. mpt_queue_crop q 0 n = Some (r, q') \<and> 0 \<le> r \<and> queue_wf q'
           \<and> qbase q' = qbase q \<and> qmax q' = qmax q \<and> qlen q' = qlen q - n
           \<and> (n < qlen q \<longrightarrow> qoff q' = ring_off (qmax q) (qoff q) n)
           \<and> qdata q' = drop n (qdata q)"
proof -
  define low where "low = min (qlen q) (qmax q - qoff q)"
  define off where "off = (if n \<ge> low then n - low else qoff q + n)"
  have crop: "\<exists>r. mpt_queue_crop q 0 n = Some (r, q\<lparr>qlen := qlen q - n, qoff := off\<rparr>) \<and> 0 \<le> r"
    using wf n queue_low [OF wf] by (auto simp: mpt_queue_crop_def Let_def off_def low_def queue_wf_def)
  have off: "n < qlen q \<Longrightarrow> off = ring_off (qmax q) (qoff q) n"
    using wf n by (auto simp: ring_off_def off_def low_def queue_wf_def min_def)
  have "off \<le> qmax q" using wf n by (auto simp: off_def low_def queue_wf_def min_def)
  then have wf': "queue_wf (q\<lparr>qlen := qlen q - n, qoff := off\<rparr>)"
    using wf by (auto simp: queue_wf_def)
  have "qdata (q\<lparr>qlen := qlen q - n, qoff := off\<rparr>) = drop n (qdata q)"
  proof (cases "n < qlen q")
    case True
    have "ring (qbase q) off = drop n (ring (qbase q) (qoff q)) @ take n (ring (qbase q) (qoff q))"
      using ring_shift [of "qoff q" "qbase q" n] off [OF True] wf n by (simp add: queue_wf_def)
    then show ?thesis using wf n by (simp add: qdata_def drop_take queue_wf_def)
  next
    case False
    then show ?thesis using wf n by (simp add: qdata_def queue_wf_def)
  qed
  with crop off wf' show ?thesis by fastforce
qed

lemma crop_front_error:
  "queue_wf q \<Longrightarrow> qlen q < n \<Longrightarrow> mpt_queue_crop q 0 n = Some (BadArgument, q)"
  by (simp add: mpt_queue_crop_def queue_low Let_def)


section \<open>Access at a position\<close>

lemma seek_ok:
  assumes wf: "queue_wf q" and p: "p < qlen q"
  shows "\<exists>r tmp. queue_seek q p = Some (r, tmp) \<and> 0 \<le> r \<and> queue_wf tmp \<and> qbase tmp = qbase q
           \<and> qmax tmp = qmax q \<and> qlen tmp = qlen q - p
           \<and> ring (qbase q) (qoff tmp) = drop p (ring (qbase q) (qoff q)) @ take p (ring (qbase q) (qoff q))
           \<and> (p = 0 \<longrightarrow> qoff tmp = qoff q) \<and> (p \<noteq> 0 \<longrightarrow> qoff tmp = ring_off (qmax q) (qoff q) p)"
proof (cases "p = 0")
  case True
  then show ?thesis using wf by (simp add: queue_seek_def)
next
  case False
  from crop_front [OF wf, of p] p obtain r q' where crop: "mpt_queue_crop q 0 p = Some (r, q')"
    "0 \<le> r" "queue_wf q'" "qbase q' = qbase q" "qmax q' = qmax q" "qlen q' = qlen q - p"
    "qoff q' = ring_off (qmax q) (qoff q) p" by auto
  then show ?thesis
    using False wf p ring_shift [of "qoff q" "qbase q" p] by (auto simp: queue_seek_def queue_wf_def)
qed

lemma seek_error:
  "queue_wf q \<Longrightarrow> qlen q < p \<Longrightarrow> queue_seek q p = Some (BadArgument, q)"
  by (auto simp: queue_seek_def crop_front_error)

lemma seek_end:
  assumes "queue_wf q"
  shows "\<exists>r tmp. queue_seek q (qlen q) = Some (r, tmp) \<and> 0 \<le> r \<and> qlen tmp = 0"
  using assms crop_front [of q "qlen q"] by (fastforce simp: queue_seek_def)

lemma length_set_bytes [simp]: "data_ok data n \<Longrightarrow> length (set_bytes data n) = n"
  by (simp add: set_bytes_def data_ok_def split: option.splits)

lemma set_ok:
  assumes wf: "queue_wf q" and n: "0 < n" "p + n \<le> qlen q" and d: "data_ok data n"
  shows "\<exists>r m. mpt_queue_set q p n data = Some (r, q\<lparr>qbase := m\<rparr>) \<and> 0 \<le> r \<and> length m = qmax q
           \<and> ring m (qoff q) = take p (ring (qbase q) (qoff q)) @ set_bytes data n
                                 @ drop (p + n) (ring (qbase q) (qoff q))"
proof -
  define xs where "xs = set_bytes data n"
  have xs: "length xs = n" using d by (simp add: xs_def)
  have len: "length (qbase q) = qmax q" "n \<le> qmax q" "qoff q \<le> qmax q" "p + n \<le> qmax q"
    using wf n by (auto simp: queue_wf_def)
  from seek_ok [OF wf, of p] n obtain r tmp where seek: "queue_seek q p = Some (r, tmp)"
    "0 \<le> r" "queue_wf tmp" "qbase tmp = qbase q" "qmax tmp = qmax q" "qlen tmp = qlen q - p"
    and off: "p = 0 \<longrightarrow> qoff tmp = qoff q" "p \<noteq> 0 \<longrightarrow> qoff tmp = ring_off (qmax q) (qoff q) p"
    by auto
  define low where "low = min n (qmax q - qoff tmp)"
  have low: "snd (mpt_queue_data (tmp\<lparr>qlen := n\<rparr>) True) = low"
    using queue_low_len [of tmp n] seek len by (simp add: low_def)
  have toff: "qoff tmp \<le> length (qbase q)" using seek len by (simp add: queue_wf_def)
  obtain b1 b2 where w: "wr (qbase q) (qoff tmp) (take low xs) = Some b1"
    "wr b1 0 (drop low xs) = Some b2" "length b2 = length (qbase q)"
    "ring b2 (qoff tmp) = xs @ drop (length xs) (ring (qbase q) (qoff tmp))"
    using ring_write [of "qoff tmp" "qbase q" xs low] xs len toff by (auto simp: low_def)
  have z: "low = 0 \<Longrightarrow> b1 = qbase q" "n - low = 0 \<Longrightarrow> b2 = b1"
    using w xs toff by (auto simp: low_def)
  have val: "(case data of None \<Rightarrow> Some (replicate n 0) | Some d \<Rightarrow> rd d 0 n) = Some xs"
    using d by (auto simp: xs_def set_bytes_def data_ok_def rd_def split: option.splits)
  have "\<exists>r'. mpt_queue_set q p n data = Some (r', q\<lparr>qbase := b2\<rparr>) \<and> 0 \<le> r'"
    using seek n low val w z
    by (cases "low = 0"; cases "n \<le> low") (auto simp: mpt_queue_set_def)
  moreover have "ring b2 (qoff q) = take p (ring (qbase q) (qoff q)) @ xs @ drop (p + n) (ring (qbase q) (qoff q))"
  proof (cases "p = 0")
    case True
    then show ?thesis using w off xs by simp
  next
    case False
    then show ?thesis using ring_set_at [of "qoff q" "qbase q" b2 p xs "qoff tmp"] w off xs len n
      by simp
  qed
  ultimately show ?thesis using w len by (auto simp: xs_def)
qed

lemma set_range_error:
  assumes "queue_wf q" and "0 < n" and "qlen q < p + n"
  shows "\<exists>r. mpt_queue_set q p n data = Some (r, q) \<and> r < 0"
proof -
  consider "p < qlen q" | "p = qlen q" | "qlen q < p" by linarith
  then show ?thesis
  proof cases
    case 1
    then show ?thesis using seek_ok [of q p] assms by (fastforce simp: mpt_queue_set_def)
  next
    case 2
    then show ?thesis using seek_end [of q] assms by (fastforce simp: mpt_queue_set_def)
  next
    case 3
    then show ?thesis using seek_error [of q p] assms by (simp add: mpt_queue_set_def)
  qed
qed

lemma get_ok:
  assumes wf: "queue_wf q" and n: "0 < n" "p + n \<le> qlen q" and d: "n \<le> length d"
  shows "\<exists>r. mpt_queue_get q p n (Some d) = Some (r, Some (take n (drop p (qdata q)) @ drop n d)) \<and> 0 \<le> r"
proof -
  have len: "length (qbase q) = qmax q" "n \<le> qmax q" "qoff q \<le> qmax q" "qlen q \<le> qmax q"
    using wf n by (auto simp: queue_wf_def)
  from seek_ok [OF wf, of p] n obtain r tmp where seek: "queue_seek q p = Some (r, tmp)"
    "0 \<le> r" "queue_wf tmp" "qbase tmp = qbase q" "qmax tmp = qmax q" "qlen tmp = qlen q - p"
    and ring: "ring (qbase q) (qoff tmp) = drop p (ring (qbase q) (qoff q)) @ take p (ring (qbase q) (qoff q))"
    by auto
  define low where "low = min n (qmax q - qoff tmp)"
  define xs where "xs = take n (ring (qbase q) (qoff tmp))"
  have low: "snd (mpt_queue_data (tmp\<lparr>qlen := n\<rparr>) True) = low" "low \<le> n"
    using queue_low_len [of tmp n] seek len by (simp_all add: low_def)
  have toff: "qoff tmp \<le> length (qbase q)" using seek len by (simp add: queue_wf_def)
  have xs: "length xs = n" "xs = take n (drop p (qdata q))"
    using len n ring by (auto simp: xs_def qdata_def take_drop min_def)
  have rds: "rd (qbase q) (qoff tmp) low = Some (take low xs)"
    "rd (qbase q) 0 (n - low) = Some (drop low xs)"
    using ring_read [of "qoff tmp" "qbase q" n low] toff len low(2) by (simp_all add: low_def xs_def min_def)
  have wrs: "wr d 0 (take low xs) = Some (take low xs @ drop low d)"
    "wr (take low xs @ drop low d) low (drop low xs) = Some (xs @ drop n d)"
    using xs(1) low(2) d by (simp_all add: wr_def)
  have z: "n \<le> low \<Longrightarrow> take low xs @ drop low d = xs @ drop n d" "low = 0 \<Longrightarrow> take low xs @ drop low d = d"
    using xs(1) low(2) by auto
  have "\<exists>r. mpt_queue_get q p n (Some d) = Some (r, Some (xs @ drop n d)) \<and> 0 \<le> r"
    using seek n low rds wrs z
    by (cases "low = 0"; cases "n \<le> low") (auto simp: mpt_queue_get_def)
  then show ?thesis using xs(2) by simp
qed


section \<open>Insertion and removal\<close>

lemma to_int32_id: "- (2 ^ 31) \<le> x \<Longrightarrow> x < 2 ^ 31 \<Longrightarrow> to_int32 x = x"
  by (simp add: to_int32_def sint_sbintrunc' signed_take_bit_int_eq_self)

lemma to_int32_nat: "n < 2 ^ 31 \<Longrightarrow> to_int32 (int n) = int n"
  by (rule to_int32_id) auto

lemma queue_empty_full: "queue_wf q \<Longrightarrow> qlen q = qmax q \<Longrightarrow> mpt_queue_empty q = None"
  by (simp add: mpt_queue_empty_def Let_def)

lemma queue_empty_split:
  assumes "queue_wf q" and "qlen q < qmax q"
  shows "\<exists>s low high. mpt_queue_empty q = Some (s, low, high) \<and> low + high = qmax q - qlen q
     \<and> s = ring_off (qmax q) (qoff q) (qlen q) \<and> 0 < low
     \<and> s + low \<le> qmax q \<and> (high \<noteq> 0 \<longrightarrow> s + low = qmax q \<and> high = qoff q)
     \<and> (high = 0 \<longrightarrow> qmax q - qlen q \<le> qoff q \<or> qoff q = 0)"
  using assms by (auto simp: mpt_queue_empty_def Let_def queue_wf_def ring_off_def)

lemma qpost_ok:
  assumes "queue_wf q" and "0 < n" and "n \<le> qmax q - qlen q" and "qmax q < 2 ^ 31"
  shows "\<exists>r. mpt_qpost q n = Some (r, q\<lparr>qlen := qlen q + n\<rparr>) \<and> 0 \<le> r \<and> to_int32 r = r"
proof -
  obtain s low high where e: "mpt_queue_empty q = Some (s, low, high)" "low + high = qmax q - qlen q"
    using queue_empty_split [of q] assms by fastforce
  have "(low + high - n) div n \<le> qmax q" using e(2) by (metis diff_le_self div_le_dividend le_trans)
  then have "to_int32 (int ((low + high - n) div n)) = int ((low + high - n) div n)"
    using assms(4) by (intro to_int32_nat) simp
  then show ?thesis using e assms by (auto simp: mpt_qpost_def Let_def)
qed

lemma qpost_error:
  assumes "queue_wf q" and "qmax q - qlen q < n"
  shows "mpt_qpost q n = Some (MissingBuffer, q)"
proof (cases "qlen q = qmax q")
  case True
  then show ?thesis using assms by (simp add: mpt_qpost_def queue_empty_full)
next
  case False
  then have "qlen q < qmax q" using assms by (simp add: queue_wf_def)
  with queue_empty_split [OF assms(1)] obtain s low high
    where "mpt_queue_empty q = Some (s, low, high)" "low + high = qmax q - qlen q" by blast
  then show ?thesis using assms by (simp add: mpt_qpost_def Let_def)
qed

lemma push_ok:
  assumes "queue_wf q" and "0 < n" and "n \<le> qmax q - qlen q" and "qmax q < 2 ^ 31" and "data_ok data n"
  shows "\<exists>r q'. mpt_qpush q n data = Some (r, q') \<and> 0 \<le> r \<and> queue_wf q' \<and> qmax q' = qmax q
           \<and> qoff q' = qoff q \<and> qdata q' = qdata q @ set_bytes data n"
proof -
  let ?q = "q\<lparr>qlen := qlen q + n\<rparr>"
  from qpost_ok [OF assms(1-4)] obtain r where r: "mpt_qpost q n = Some (r, ?q)" "0 \<le> r" "to_int32 r = r"
    by blast
  have "queue_wf ?q" using assms by (simp add: queue_wf_def)
  from set_ok [OF this assms(2) _ assms(5), of "qlen q"] obtain r' m
    where m: "mpt_queue_set ?q (qlen q) n data = Some (r', ?q\<lparr>qbase := m\<rparr>)" "0 \<le> r'" "length m = qmax q"
      "ring m (qoff q) = take (qlen q) (ring (qbase q) (qoff q)) @ set_bytes data n
         @ drop (qlen q + n) (ring (qbase q) (qoff q))" by auto
  have "qdata (?q\<lparr>qbase := m\<rparr>) = qdata q @ set_bytes data n"
    using m assms by (simp add: qdata_def queue_wf_def)
  then show ?thesis using r m assms by (simp add: mpt_qpush_def queue_wf_def)
qed

lemma push_full:
  "queue_wf q \<Longrightarrow> qmax q - qlen q < n \<Longrightarrow> mpt_qpush q n data = Some (MissingBuffer, q)"
  by (simp add: mpt_qpush_def qpost_error to_int32_id)

lemma qpre_ok:
  assumes wf: "queue_wf q" and n: "0 < n" "n \<le> qmax q - qlen q" and "qmax q < 2 ^ 31"
  shows "\<exists>r off. mpt_qpre q n = Some (r, q\<lparr>qlen := qlen q + n, qoff := off\<rparr>) \<and> 0 \<le> r \<and> to_int32 r = r
           \<and> off \<le> qmax q
           \<and> ring (qbase q) (qoff q) = drop n (ring (qbase q) off) @ take n (ring (qbase q) off)"
proof -
  obtain s low high where e: "mpt_queue_empty q = Some (s, low, high)" "low + high = qmax q - qlen q"
    "high \<noteq> 0 \<longrightarrow> high = qoff q" "high = 0 \<longrightarrow> qmax q - qlen q \<le> qoff q \<or> qoff q = 0"
    using queue_empty_split [of q] assms by fastforce
  define off where "off = (if high \<noteq> 0 \<and> high < n then qmax q - (n - high)
                         else if n < qoff q then qoff q - n else qoff q + qmax q - n)"
  have "(low + high - n) div n \<le> qmax q" using e(2) by (metis diff_le_self div_le_dividend le_trans)
  then have "to_int32 (int ((low + high - n) div n)) = int ((low + high - n) div n)"
    using assms(4) by (intro to_int32_nat) simp
  then have "\<exists>r. mpt_qpre q n = Some (r, q\<lparr>qlen := qlen q + n, qoff := off\<rparr>) \<and> 0 \<le> r \<and> to_int32 r = r"
    using e assms by (auto simp: mpt_qpre_def Let_def off_def)
  moreover have off: "off \<le> qmax q" using e n wf by (auto simp: off_def queue_wf_def)
  moreover have "ring_off (qmax q) off n = qoff q \<or> ring_off (qmax q) off n = 0 \<and> qoff q = qmax q"
    using e n wf unfolding off_def ring_off_def queue_wf_def
    by (cases "high = 0"; cases "high < n"; cases "n < qoff q") auto
  then have "ring (qbase q) (qoff q) = ring (qbase q) (ring_off (qmax q) off n)"
    using wf by (auto simp: queue_wf_def ring_def)
  ultimately show ?thesis
    using ring_shift [of off "qbase q" n] n wf by (auto simp: queue_wf_def)
qed

lemma unshift_ok:
  assumes "queue_wf q" and "0 < n" and "n \<le> qmax q - qlen q" and "qmax q < 2 ^ 31" and "data_ok data n"
  shows "\<exists>r q'. mpt_qunshift q n data = Some (r, q') \<and> 0 \<le> r \<and> queue_wf q' \<and> qmax q' = qmax q
           \<and> qdata q' = set_bytes data n @ qdata q"
proof -
  from qpre_ok [OF assms(1-4)] obtain r off
    where r: "mpt_qpre q n = Some (r, q\<lparr>qlen := qlen q + n, qoff := off\<rparr>)" "0 \<le> r" "to_int32 r = r"
      "off \<le> qmax q"
      and ring: "ring (qbase q) (qoff q) = drop n (ring (qbase q) off) @ take n (ring (qbase q) off)"
    by blast
  let ?q = "q\<lparr>qlen := qlen q + n, qoff := off\<rparr>"
  have "queue_wf ?q" using assms r by (simp add: queue_wf_def)
  from set_ok [OF this assms(2) _ assms(5), of 0] obtain r' m
    where m: "mpt_queue_set ?q 0 n data = Some (r', ?q\<lparr>qbase := m\<rparr>)" "0 \<le> r'" "length m = qmax q"
      "ring m off = set_bytes data n @ drop n (ring (qbase q) off)" by auto
  have "qdata (?q\<lparr>qbase := m\<rparr>) = set_bytes data n @ qdata q"
    using m assms ring by (simp add: qdata_def queue_wf_def)
  then show ?thesis using r m assms by (simp add: mpt_qunshift_def queue_wf_def)
qed

lemma unshift_error:
  assumes "queue_wf q" and "qlen q < qmax q" and "qmax q - qlen q < n"
  shows "mpt_qunshift q n data = Some (MissingBuffer, q)"
proof -
  obtain s low high where "mpt_queue_empty q = Some (s, low, high)" "low + high = qmax q - qlen q"
    using queue_empty_split [of q] assms by fastforce
  then show ?thesis using assms by (simp add: mpt_qunshift_def mpt_qpre_def Let_def to_int32_id)
qed

lemma shift_ok:
  assumes wf: "queue_wf q" and n: "n \<le> qlen q" and d: "n \<le> length d"
  shows "\<exists>a q'. mpt_qshift q n (Some d) = Some (a, Some (take n (qdata q) @ drop n d), q')
           \<and> (\<forall>e. a \<noteq> QNull e) \<and> queue_wf q' \<and> qmax q' = qmax q \<and> qdata q' = drop n (qdata q)"
proof -
  define low where "low = min (qlen q) (qmax q - qoff q)"
  have low: "snd (mpt_queue_data q True) = low" using queue_low [OF wf] by (simp add: low_def)
  have len: "length (qbase q) = qmax q" "qoff q \<le> qmax q" "qlen q \<le> qmax q"
    using wf by (simp_all add: queue_wf_def)
  from crop_front [OF wf n] obtain r q' where crop: "mpt_queue_crop q 0 n = Some (r, q')" "queue_wf q'"
    "qmax q' = qmax q" "qdata q' = drop n (qdata q)" by blast
  have data: "take n (qdata q) = take n (ring (qbase q) (qoff q))" using n by (simp add: qdata_def)
  show ?thesis
  proof (cases "n \<le> low")
    case True
    then have "min n (qmax q - qoff q) = n" by (simp add: low_def)
    then have "rd (qbase q) (qoff q) n = Some (take n (qdata q))"
      using ring_read(1) [of "qoff q" "qbase q" n n] len n data by simp
    moreover have "wr d 0 (take n (qdata q)) = Some (take n (qdata q) @ drop n d)"
      using d n wf by (simp add: wr_def)
    ultimately show ?thesis using True low crop by (simp add: mpt_qshift_def Let_def)
  next
    case False
    then have m: "low = min n (length (qbase q) - qoff q)" "low \<le> n" using n len by (auto simp: low_def)
    define xs where "xs = take n (qdata q)"
    have rds: "rd (qbase q) (qoff q) low = Some (take low xs)" "rd (qbase q) 0 (n - low) = Some (drop low xs)"
      using ring_read [of "qoff q" "qbase q" n low] m len n by (simp_all add: xs_def data min_def)
    have "length xs = n" using wf n by (simp add: xs_def)
    then have "wr d 0 (take low xs) = Some (take low xs @ drop low d)"
      "wr (take low xs @ drop low d) low (drop low xs) = Some (xs @ drop n d)"
      using m d by (simp_all add: wr_def)
    then show ?thesis using False low crop rds n by (simp add: mpt_qshift_def Let_def xs_def)
  qed
qed

lemma shift_error:
  assumes "queue_wf q" and "qlen q < n"
  shows "mpt_qshift q n data = Some (QNull (if data = None then EINVAL else ERANGE), data, q)"
  using assms by (auto simp: mpt_qshift_def Let_def queue_low split: option.splits)


section \<open>Alignment and resizing\<close>

lemma qdata_linear:
  "queue_wf q \<Longrightarrow> qoff q + qlen q \<le> qmax q \<Longrightarrow> rd (qbase q) (qoff q) (qlen q) = Some (qdata q)"
  by (simp add: rd_def qdata_def queue_wf_def ring_def)

lemma frag_parts:
  assumes wf: "queue_wf q" and "MPT_queue_frag q"
  obtains up gap lo where "qbase q = up @ gap @ lo" "qdata q = lo @ up"
    "length gap = qmax q - qlen q" "length up + length gap = qoff q" "length lo = qmax q - qoff q"
proof -
  have f: "qmax q - qlen q < qoff q" "length (qbase q) = qmax q" "qoff q \<le> qmax q" "qlen q \<le> qmax q"
    using assms by (simp_all add: MPT_queue_frag_def queue_wf_def)
  from split_at_two [of "qoff q - (qmax q - qlen q)" "qmax q - qlen q" "qbase q"] f
  obtain up gap lo where b: "qbase q = up @ gap @ lo" "length up = qoff q - (qmax q - qlen q)"
    "length gap = qmax q - qlen q" by auto
  have len: "length up + length gap = qoff q" "length lo = qmax q - qoff q"
    "qlen q = length lo + length up"
    using b f by (auto dest: arg_cong [where f = length])
  have "ring (up @ gap @ lo) (length (up @ gap)) = lo @ up @ gap" by (simp add: ring_def)
  then have "ring (qbase q) (qoff q) = lo @ up @ gap" using b(1) len(1) by simp
  then have "qdata q = lo @ up" by (simp add: qdata_def len(3))
  with b len show thesis by (intro that) auto
qed

lemma align_linear:
  assumes wf: "queue_wf q" and p: "pos + qlen q \<le> qmax q" and "qoff q + qlen q \<le> qmax q"
  shows "\<exists>m. memmove_b (qbase q) pos (qoff q) (qlen q) = Some m \<and> queue_wf (q\<lparr>qbase := m, qoff := pos\<rparr>)
           \<and> qdata (q\<lparr>qbase := m, qoff := pos\<rparr>) = qdata q"
proof -
  from qdata_linear [OF wf assms(3)] have r: "rd (qbase q) (qoff q) (qlen q) = Some (qdata q)" .
  have len: "length (qdata q) = qlen q" using wf by simp
  obtain m where m: "wr (qbase q) pos (qdata q) = Some m"
    using p len wf by (simp add: wr_def queue_wf_def)
  let ?q = "q\<lparr>qbase := m, qoff := pos\<rparr>"
  have wf': "queue_wf ?q" using wr_length [OF m] wf p by (simp add: queue_wf_def)
  have "rd m pos (qlen q) = Some (qdata q)" using rd_wr_same [OF m] len by simp
  moreover have "rd m pos (qlen q) = Some (qdata ?q)" using qdata_linear [OF wf'] p by simp
  ultimately show ?thesis using r m wf' by (simp add: memmove_b_def)
qed

lemma align_frag:
  assumes wf: "queue_wf q" and fr: "MPT_queue_frag q" and "0 < qlen q"
  shows "\<exists>m1 m2. (if qmax q - qlen q \<noteq> 0 then memmove_b (qbase q) (qoff q - (qmax q - qlen q)) (qoff q) (qmax q - qoff q)
            else Some (qbase q)) = Some m1
          \<and> mpt_memrev m1 (Some 0) (qoff q - (qmax q - qlen q)) (qlen q) = Some (0, m2)
          \<and> queue_wf (q\<lparr>qbase := m2, qoff := 0\<rparr>) \<and> qdata (q\<lparr>qbase := m2, qoff := 0\<rparr>) = qdata q"
proof -
  from frag_parts [OF wf fr] obtain up gap lo where b: "qbase q = up @ gap @ lo" "qdata q = lo @ up"
    "length gap = qmax q - qlen q" "length up + length gap = qoff q" "length lo = qmax q - qoff q" .
  have len: "qlen q = length lo + length up" "qmax q = length up + length gap + length lo"
    using wf b by (auto simp: queue_wf_def)
  have r: "rd ((up @ gap) @ lo @ []) (qoff q) (qmax q - qoff q) = Some lo"
    by (rule rd_parts) (use b in auto)
  have "\<exists>j. length j = length gap \<and> (up @ gap @ lo = up @ lo @ j \<or> wr (up @ gap @ lo) (length up) lo = Some (up @ lo @ j))
     \<and> (gap \<noteq> [] \<longrightarrow> wr (up @ gap @ lo) (length up) lo = Some (up @ lo @ j)) \<and> (gap = [] \<longrightarrow> j = [])"
    by (cases "gap = []") (auto simp: wr_def)
  then obtain j where j: "length j = length gap" "gap = [] \<Longrightarrow> j = []"
    "gap \<noteq> [] \<Longrightarrow> wr (up @ gap @ lo) (length up) lo = Some (up @ lo @ j)" by auto
  have pos: "qoff q - (qmax q - qlen q) = length up" using b(3,4) by linarith
  have m1: "(if qmax q - qlen q \<noteq> 0 then memmove_b (qbase q) (qoff q - (qmax q - qlen q)) (qoff q) (qmax q - qoff q)
            else Some (qbase q)) = Some (up @ lo @ j)"
  proof (cases "gap = []")
    case True
    then show ?thesis using j(2) b(1,3) by simp
  next
    case False
    then have "qmax q - qlen q \<noteq> 0" using b(3) by (metis length_0_conv)
    moreover have "memmove_b (qbase q) (length up) (qoff q) (qmax q - qoff q) = Some (up @ lo @ j)"
      using r j(3) [OF False] by (simp add: memmove_b_def b(1))
    ultimately show ?thesis unfolding pos by simp
  qed
  have m2: "mpt_memrev ([] @ up @ lo @ j) (Some 0) (qoff q - (qmax q - qlen q)) (qlen q) = Some (0, [] @ lo @ up @ j)"
    unfolding pos by (rule mpt_memrev_parts) (simp_all add: len(1))
  have "queue_wf (q\<lparr>qbase := lo @ up @ j, qoff := 0\<rparr>)" using j(1) len by (simp add: queue_wf_def)
  moreover have "qdata (q\<lparr>qbase := lo @ up @ j, qoff := 0\<rparr>) = qdata q" using b(2) len(1) by (simp add: qdata_def)
  ultimately show ?thesis using m1 m2 by auto
qed

lemma align_ok:
  assumes wf: "queue_wf q" and p: "pos + qlen q \<le> qmax q"
  shows "\<exists>q'. mpt_queue_align q pos = Some q' \<and> queue_wf q' \<and> qdata q' = qdata q \<and> qmax q' = qmax q
           \<and> qlen q' = qlen q \<and> qoff q' = (if qlen q = 0 then 0 else pos)"
proof (cases "qlen q = 0")
  case True
  then show ?thesis using p wf by (auto simp: mpt_queue_align_def queue_wf_def qdata_def)
next
  case False
  then have ne: "qbase q \<noteq> []" "0 < qlen q" using p wf by (auto simp: queue_wf_def)
  have le: "qlen q \<le> qmax q" "qoff q \<le> qmax q" using wf by (simp_all add: queue_wf_def)
  show ?thesis
  proof (cases "MPT_queue_frag q")
    case True
    then have "qmax q - qlen q < qoff q" using le by (simp add: MPT_queue_frag_def)
    with align_frag [OF wf True ne(2)] obtain m1 m2 where f: "(if qmax q - qlen q \<noteq> 0 then
        memmove_b (qbase q) (qoff q - (qmax q - qlen q)) (qoff q) (qmax q - qoff q) else Some (qbase q)) = Some m1"
      "mpt_memrev m1 (Some 0) (qoff q - (qmax q - qlen q)) (qlen q) = Some (0, m2)"
      "queue_wf (q\<lparr>qbase := m2, qoff := 0\<rparr>)" "qdata (q\<lparr>qbase := m2, qoff := 0\<rparr>) = qdata q" by blast
    from align_linear [OF f(3), of pos] p obtain m where
      "memmove_b m2 pos 0 (qlen q) = Some m" "queue_wf (q\<lparr>qbase := m, qoff := pos\<rparr>)"
      "qdata (q\<lparr>qbase := m, qoff := pos\<rparr>) = qdata q" using f(4) le by auto
    then show ?thesis using f p ne True le
      by (cases "qmax q = qlen q"; cases "pos = 0") (auto simp: mpt_queue_align_def)
  next
    case nofrag: False
    then have off: "qoff q + qlen q \<le> qmax q" using le by (simp add: MPT_queue_frag_def)
    from align_linear [OF wf p off] obtain m where
      "memmove_b (qbase q) pos (qoff q) (qlen q) = Some m" "queue_wf (q\<lparr>qbase := m, qoff := pos\<rparr>)"
      "qdata (q\<lparr>qbase := m, qoff := pos\<rparr>) = qdata q" by blast
    then show ?thesis using nofrag p ne le wf by (auto simp: mpt_queue_align_def Let_def)
  qed
qed

lemma realloc_length: "alloc_ok al \<Longrightarrow> realloc_b al m n = Some m' \<Longrightarrow> length m' = n"
  by (auto simp: realloc_b_def alloc_ok_def)

lemma realloc_take: "realloc_b al m n = Some m' \<Longrightarrow> k \<le> n \<Longrightarrow> k \<le> length m \<Longrightarrow> take k m' = take k m"
  by (auto simp: realloc_b_def)

lemma resize_set:
  assumes wf: "queue_wf q" and al: "alloc_ok al" "realloc_b al (qbase q) n = Some m"
    and lin: "qoff q + qlen q \<le> qmax q" "qoff q + qlen q \<le> n"
  shows "queue_wf (q\<lparr>qbase := m, qmax := n\<rparr>) \<and> qdata (q\<lparr>qbase := m, qmax := n\<rparr>) = qdata q"
proof -
  let ?q = "q\<lparr>qbase := m, qmax := n\<rparr>"
  have wf': "queue_wf ?q" using realloc_length [OF al] lin by (simp add: queue_wf_def)
  have "take (qoff q + qlen q) m = take (qoff q + qlen q) (qbase q)"
    using realloc_take [OF al(2)] lin wf by (simp add: queue_wf_def)
  then have "take (qlen q) (drop (qoff q) m) = take (qlen q) (drop (qoff q) (qbase q))"
    by (metis take_drop add.commute)
  then have "rd m (qoff q) (qlen q) = rd (qbase q) (qoff q) (qlen q)"
    using realloc_length [OF al] lin wf by (simp add: rd_def queue_wf_def)
  then show ?thesis using qdata_linear [OF wf lin(1)] qdata_linear [OF wf'] wf' lin by simp
qed

text \<open>What \<open>mpt_queue_resize\<close> does after the contents are in one piece.\<close>

lemma resize_finish:
  assumes "queue_wf q" and "alloc_ok al" and "qoff q + qlen q \<le> qmax q" and "qoff q + qlen q \<le> n"
  shows "\<exists>ok q'. queue_realloc al n q = (ok, q')
          \<and> queue_wf q' \<and> qdata q' = qdata q \<and> (ok \<longrightarrow> qmax q' = n) \<and> (al n \<noteq> None \<longrightarrow> ok)"
  using assms resize_set [OF assms(1,2) _ assms(3,4)]
  by (cases "realloc_b al (qbase q) n") (auto simp: realloc_b_def queue_realloc_def)

lemma resize_less:
  assumes wf: "queue_wf q" and "n < qmax q" and "0 < n"
  shows "\<exists>q'. mpt_queue_resize al q n = Some (queue_realloc al n q') \<and> queue_wf q'
           \<and> qdata q' = drop (qlen q - n) (qdata q) \<and> qlen q' \<le> n \<and> qoff q' = 0 \<and> qmax q' = qmax q"
proof -
  obtain q1 where q1: "queue_wf q1" "qdata q1 = drop (qlen q - n) (qdata q)" "qlen q1 \<le> n" "qmax q1 = qmax q"
    and r: "n < qlen q \<Longrightarrow> \<exists>r. mpt_queue_crop q 0 (qlen q - n) = Some (r, q1)" "\<not> n < qlen q \<Longrightarrow> q1 = q"
    using crop_front [OF wf, of "qlen q - n"] wf by (cases "n < qlen q") auto
  from align_ok [OF q1(1), of 0] obtain q2 where q2: "mpt_queue_align q1 0 = Some q2" "queue_wf q2"
    "qdata q2 = qdata q1" "qmax q2 = qmax q" "qlen q2 = qlen q1" "qoff q2 = 0"
    using q1 by (auto simp: queue_wf_def)
  then have "mpt_queue_resize al q n = Some (queue_realloc al n q2)"
    using r assms by (cases "n < qlen q") (auto simp: mpt_queue_resize_def)
  with q1 q2 show ?thesis by auto
qed

lemma resize_ok:
  assumes wf: "queue_wf q" and al: "alloc_ok al" and n: "0 < n"
  shows "\<exists>ok q'. mpt_queue_resize al q n = Some (ok, q') \<and> queue_wf q'
           \<and> qdata q' = drop (qlen q - n) (qdata q) \<and> (ok \<longrightarrow> qmax q' = n) \<and> (al n \<noteq> None \<longrightarrow> ok)"
proof -
  consider (less) "n < qmax q" | (more) "qmax q < n" | (same) "n = qmax q" by linarith
  then show ?thesis
  proof cases
    case less
    from resize_less [OF wf less n, of al] obtain q2 where
      "mpt_queue_resize al q n = Some (queue_realloc al n q2)" "queue_wf q2"
      "qdata q2 = drop (qlen q - n) (qdata q)" "qlen q2 \<le> n" "qoff q2 = 0" "qmax q2 = qmax q" by blast
    with resize_finish [of q2 al n] al less show ?thesis by auto
  next
    case more
    then have le: "qlen q \<le> n" "qlen q \<le> qmax q" using wf by (auto simp: queue_wf_def)
    have "\<exists>q1. (if MPT_queue_frag q then mpt_queue_align q 0 else Some q) = Some q1 \<and>
      queue_wf q1 \<and> qdata q1 = qdata q \<and> qlen q1 = qlen q \<and> qmax q1 = qmax q \<and> qoff q1 + qlen q1 \<le> qmax q1"
    proof (cases "MPT_queue_frag q")
      case True
      then show ?thesis using align_ok [OF wf, of 0] le by auto
    next
      case False
      then show ?thesis using wf le by (simp add: MPT_queue_frag_def)
    qed
    then obtain q1 where q1: "(if MPT_queue_frag q then mpt_queue_align q 0 else Some q) = Some q1"
      "queue_wf q1" "qdata q1 = qdata q" "qlen q1 = qlen q" "qmax q1 = qmax q" "qoff q1 + qlen q1 \<le> qmax q1"
      by blast
    then have "mpt_queue_resize al q n = Some (queue_realloc al n q1)"
      using more n by (simp add: mpt_queue_resize_def)
    with resize_finish [OF q1(2) al q1(6), of n] q1 more le show ?thesis by auto
  next
    case same
    then have "qlen q \<le> n" "qbase q \<noteq> []" using wf n by (auto simp: queue_wf_def)
    then show ?thesis using wf n same by (auto simp: mpt_queue_resize_def)
  qed
qed

lemma MPT_align_ge:
  assumes "n + 7 < 2 ^ 64"
  shows "n \<le> unat (MPT_align (of_nat n)) \<and> unat (MPT_align (of_nat n)) \<le> n + 7"
proof -
  define x :: "64 word" where "x = of_nat n"
  define k :: "64 word" where "k = (x - 1) AND 7"
  have x: "unat x = n" using assms by (simp add: x_def unat_of_nat)
  have k: "unat k \<le> 7" unfolding k_def
    using word_and_le1 [of "x - 1" 7, THEN word_le_nat_alt [THEN iffD1]] by simp
  have s: "unat (x + 7) = n + 7" using assms x by (simp add: unat_word_ariths)
  then have "k \<le> x + 7" using k x by (simp add: word_le_nat_alt)
  then have "unat (x + 7 - k) = n + 7 - unat k" using s by (simp add: unat_sub)
  then show ?thesis using k by (simp add: MPT_align_def x_def k_def)
qed

lemma prepare_ok:
  assumes wf: "queue_wf q" and al: "alloc_ok al" and n: "qmax q + n + 7 < 2 ^ 64"
  shows "\<exists>k q'. mpt_queue_prepare al q n = Some (k, q') \<and> queue_wf q' \<and> qdata q' = qdata q
           \<and> (k = 0 \<or> k = qmax q' - qlen q' \<and> n \<le> k) \<and> ((\<forall>i. al i \<noteq> None) \<longrightarrow> n \<le> k)"
proof (cases "n \<le> qmax q - qlen q")
  case True
  then show ?thesis using wf by (auto simp: mpt_queue_prepare_def queue_wf_def)
next
  case False
  define s where "s = unat (MPT_align (of_nat (qlen q + n)))"
  have le: "qlen q \<le> qmax q" using wf by (simp add: queue_wf_def)
  then have sum: "n - (qmax q - qlen q) + qmax q = qlen q + n" using False by simp
  have s: "qlen q + n \<le> s" using MPT_align_ge [of "qlen q + n"] n le by (simp add: s_def)
  from resize_ok [OF wf al, of s] s False obtain ok q' where r: "mpt_queue_resize al q s = Some (ok, q')"
    "queue_wf q'" "qdata q' = qdata q" "ok \<longrightarrow> qmax q' = s" "al s \<noteq> None \<longrightarrow> ok" by auto
  have "length (qdata q') = qlen q" using r(3) wf by simp
  then have "qlen q' = qlen q" using r(2) by simp
  moreover have "\<not> 2 ^ 64 - 1 - (qmax q - qlen q) < n" using n False le by simp
  then have "mpt_queue_prepare al q n = do { (ok, q) \<leftarrow> mpt_queue_resize al q s;
      Some (if ok then usub (qmax q) (qlen q) else 0, q) }"
    using False le by (simp add: mpt_queue_prepare_def s_def sum add.commute)
  ultimately show ?thesis using r s False le wf by (auto simp: queue_wf_def)
qed

lemma string_ok:
  assumes wf: "queue_wf q" and "qlen q < qmax q"
  shows "\<exists>p q'. mpt_queue_string q = Some (Some p, q') \<and> queue_wf q' \<and> qdata q' = qdata q
           \<and> rd (qbase q') p (qlen q + 1) = Some (qdata q @ [0])"
proof -
  have le: "qlen q \<le> qmax q" "qoff q \<le> qmax q" using wf by (simp_all add: queue_wf_def)
  obtain q1 where q1: "(if qmax q - qlen q \<le> qoff q then mpt_queue_align q 0 else Some q) = Some q1"
    "queue_wf q1" "qdata q1 = qdata q" "qlen q1 = qlen q" "qmax q1 = qmax q" "qoff q1 + qlen q1 < qmax q1"
    using align_ok [OF wf, of 0] wf le assms(2) by (cases "qmax q - qlen q \<le> qoff q") auto
  have len: "length (qbase q1) = qmax q" using q1 by (simp add: queue_wf_def)
  obtain m where m: "wr (qbase q1) (qoff q1 + qlen q1) [0] = Some m"
    using q1 len by (simp add: wr_def)
  have "m = take (qoff q1 + qlen q1) (qbase q1) @ [0] @ drop (qoff q1 + qlen q1 + 1) (qbase q1)"
    using m by (simp add: wr_def split: if_splits)
  moreover have "qdata q1 = take (qlen q1) (drop (qoff q1) (qbase q1))"
    using qdata_linear [OF q1(2)] q1(6) by (simp add: rd_def split: if_splits)
  ultimately have r: "rd m (qoff q1) (qlen q + 1) = Some (qdata q @ [0])"
    using q1 len by (simp add: rd_def drop_take)
  have wf': "queue_wf (q1\<lparr>qbase := m\<rparr>)" using q1 wr_length [OF m] by (simp add: queue_wf_def)
  have "rd m (qoff q1) (qlen q) = Some (qdata q)"
    using r q1(3,4) wf by (auto simp: rd_def take_Suc_conv_app_nth split: if_splits dest: arg_cong [where f = "take (qlen q)"])
  then have "qdata (q1\<lparr>qbase := m\<rparr>) = qdata q" using qdata_linear [OF wf'] q1 by simp
  moreover have "qptr q1 (qoff q1) = Some (qoff q1)" using len assms(2) by (auto simp: qptr_def)
  ultimately show ?thesis using q1 m r wf' le assms(2)
    by (auto simp: mpt_queue_string_def Let_def)
qed


section \<open>File transfer and search\<close>

lemma ring_append:
  assumes wf: "queue_wf q" and "qlen q + length bs \<le> qmax q" and s: "s = ring_off (qmax q) (qoff q) (qlen q)"
    and low: "low = min (length bs) (qmax q - s)"
  shows "\<exists>m1 m2. wr (qbase q) s (take low bs) = Some m1 \<and> wr m1 0 (drop low bs) = Some m2
          \<and> queue_wf (q\<lparr>qbase := m2, qlen := qlen q + length bs\<rparr>)
          \<and> qdata (q\<lparr>qbase := m2, qlen := qlen q + length bs\<rparr>) = qdata q @ bs"
proof -
  have len: "length (qbase q) = qmax q" "qoff q \<le> qmax q" "qlen q \<le> qmax q" "s \<le> qmax q"
    using wf by (auto simp: queue_wf_def s ring_off_def)
  obtain m1 m2 where w: "wr (qbase q) s (take low bs) = Some m1" "wr m1 0 (drop low bs) = Some m2"
    "length m2 = qmax q" "ring m2 s = bs @ drop (length bs) (ring (qbase q) s)"
    using ring_write [of s "qbase q" bs low] len assms by auto
  have "ring m2 (qoff q) = take (qlen q) (ring (qbase q) (qoff q)) @ bs @ drop (qlen q + length bs) (ring (qbase q) (qoff q))"
    by (rule ring_set_at [of _ _ _ _ _ s]) (use w len assms in simp_all)
  then have "qdata (q\<lparr>qbase := m2, qlen := qlen q + length bs\<rparr>) = qdata q @ bs"
    using len by (simp add: qdata_def)
  then show ?thesis using w len assms(2) by (auto simp: queue_wf_def)
qed

lemma load_ok:
  assumes wf: "queue_wf q" and "qlen q < qmax q" and rv: "readv_ok readv"
  shows "\<exists>ns. sum_list ns = (if n = 0 then qmax q - qlen q else min n (qmax q - qlen q)) \<and>
           (case readv ns of
              Inl e \<Rightarrow> mpt_queue_load readv q n = Some (e, q)
            | Inr bs \<Rightarrow> \<exists>q'. mpt_queue_load readv q n = Some (int (length bs), q')
                            \<and> queue_wf q' \<and> qmax q' = qmax q \<and> qdata q' = qdata q @ bs)"
proof -
  obtain s low high where e: "mpt_queue_empty q = Some (s, low, high)" "low + high = qmax q - qlen q"
     "s = ring_off (qmax q) (qoff q) (qlen q)" "s + low \<le> qmax q" "high \<noteq> 0 \<longrightarrow> s + low = qmax q" "0 < low"
    using queue_empty_split [OF wf assms(2)] by blast
  define l where "l = (if n \<noteq> 0 \<and> n < low then n else low)"
  define h where "h = (if n = 0 then high else if n < low then 0 else min (n - low) high)"
  have lh: "(if n = 0 then (low, high) else if n < low then (n, 0)
              else if n - low < high then (low, n - low) else (low, high)) = (l, h)"
    by (auto simp: l_def h_def)
  have b: "l + h \<le> qmax q - qlen q" "s + l \<le> qmax q" "h \<noteq> 0 \<Longrightarrow> s + l = qmax q"
    using e(2,4-6) by (auto simp: l_def h_def)
  have b4: "l + h = (if n = 0 then qmax q - qlen q else min n (qmax q - qlen q))"
    using e(2) by (auto simp: l_def h_def)
  define ns where "ns = (if h \<noteq> 0 then [l, h] else [l])"
  have ns: "sum_list ns = l + h" by (simp add: ns_def)
  show ?thesis
  proof (cases "readv ns")
    case (Inl r)
    then have "mpt_queue_load readv q n = Some (r, q)"
      unfolding mpt_queue_load_def e(1) option.case prod.case lh Let_def by (simp add: ns_def)
    then show ?thesis using Inl b4 ns by (intro exI [of _ ns]) simp
  next
    case (Inr bs)
    have bs: "length bs \<le> l + h" using rv Inr ns by (metis readv_ok_def)
    have "take l bs = take (min (length bs) (qmax q - s)) bs \<and> drop l bs = drop (min (length bs) (qmax q - s)) bs"
    proof (cases "h = 0")
      case True
      then have "length bs \<le> l" "min (length bs) (qmax q - s) = length bs" using b(2) bs by auto
      then show ?thesis by simp
    next
      case False
      then have "qmax q - s = l" using b(3) by auto
      then show ?thesis by (simp add: min_def)
    qed
    then have tk: "take l bs = take (min (length bs) (qmax q - s)) bs"
      "drop l bs = drop (min (length bs) (qmax q - s)) bs" by auto
    have "qlen q + length bs \<le> qmax q" using bs b(1) assms(2) by linarith
    from ring_append [OF wf this e(3) refl] obtain m1 m2 where m:
      "wr (qbase q) s (take l bs) = Some m1" "wr m1 0 (drop l bs) = Some m2"
      "queue_wf (q\<lparr>qbase := m2, qlen := qlen q + length bs\<rparr>)"
      "qdata (q\<lparr>qbase := m2, qlen := qlen q + length bs\<rparr>) = qdata q @ bs"
      unfolding tk by blast
    have "mpt_queue_load readv q n = Some (int (length bs), q\<lparr>qbase := m2, qlen := qlen q + length bs\<rparr>)"
      unfolding mpt_queue_load_def e(1) option.case prod.case lh Let_def
      using Inr m by (simp add: ns_def)
    then show ?thesis using Inr b4 ns m by (intro exI [of _ ns]) simp
  qed
qed

lemma save_ok:
  assumes wf: "queue_wf q" and ne: "qlen q \<noteq> 0" and wv: "writev_ok writev"
  shows "\<exists>bs. concat bs = qdata q \<and>
           (\<exists>q'. mpt_queue_save writev q = Some (writev bs, q') \<and> queue_wf q'
               \<and> qdata q' = drop (nat (writev bs)) (qdata q))"
proof -
  define low where "low = min (qlen q) (qmax q - qoff q)"
  have len: "length (qbase q) = qmax q" "qoff q \<le> qmax q" "qlen q \<le> qmax q" "low \<le> qlen q"
    using wf by (auto simp: queue_wf_def low_def)
  then have "qbase q \<noteq> []" using ne by auto
  then have data: "mpt_queue_data q True = (Some (qoff q), low)"
    using len by (auto simp: mpt_queue_data_def low_def qptr_def Let_def)
  define a where "a = take low (ring (qbase q) (qoff q))"
  define b where "b = drop low (take (qlen q) (ring (qbase q) (qoff q)))"
  have rds: "rd (qbase q) (qoff q) low = Some a" "rd (qbase q) 0 (qlen q - low) = Some b"
    using ring_read [of "qoff q" "qbase q" "qlen q" low] len by (auto simp: low_def a_def b_def)
  have "take low (take (qlen q) (ring (qbase q) (qoff q))) = a" using len by (simp add: a_def min_def)
  then have ab: "a @ b = qdata q" unfolding b_def qdata_def by (metis append_take_drop_id)
  have lb: "length b = qlen q - low" using len by (simp add: b_def)
  define bs where "bs = (if qlen q - low \<noteq> 0 then [a, b] else [a])"
  have bs: "concat bs = qdata q" using ab lb by (auto simp: bs_def)
  have "writev bs \<le> int (length (concat bs))" using wv by (simp add: writev_ok_def)
  then have le: "nat (writev bs) \<le> qlen q" using bs wf by simp
  have save: "mpt_queue_save writev q = (if writev bs \<le> 0 then Some (writev bs, q) else do {
        (_, q1) \<leftarrow> mpt_queue_crop q 0 (nat (writev bs)); Some (writev bs, q1) })"
    using ne data rds len(4) by (simp add: mpt_queue_save_def bs_def Let_def)
  show ?thesis
  proof (cases "writev bs \<le> 0")
    case True
    then show ?thesis using save bs wf by (intro exI [of _ bs]) simp
  next
    case False
    with crop_front [OF wf le] save bs show ?thesis by (intro exI [of _ bs]) auto
  qed
qed

lemma find_loop_None:
  "find_loop m esz cmp a k = Some None \<Longrightarrow> i < k \<Longrightarrow>
     \<exists>e. rd m (a + i * esz) esz = Some e \<and> cmp e \<noteq> 0"
proof (induction k arbitrary: a i)
  case (Suc k)
  from Suc.prems(1) obtain e where e: "rd m a esz = Some e" "cmp e \<noteq> 0" "find_loop m esz cmp (a + esz) k = Some None"
    by (auto split: bind_splits if_splits)
  show ?case
  proof (cases i)
    case 0
    then show ?thesis using e by simp
  next
    case (Suc j)
    then show ?thesis using Suc.IH [OF e(3), of j] Suc.prems(2) by (simp add: add.assoc)
  qed
qed simp

lemma find_loop_Some:
  "find_loop m esz cmp a k = Some (Some p) \<Longrightarrow>
     \<exists>i<k. p = a + i * esz \<and> (\<exists>e. rd m p esz = Some e \<and> cmp e = 0)
        \<and> (\<forall>j<i. \<exists>e. rd m (a + j * esz) esz = Some e \<and> cmp e \<noteq> 0)"
proof (induction k arbitrary: a)
  case (Suc k)
  from Suc.prems obtain e where e: "rd m a esz = Some e" by (auto split: bind_splits)
  show ?case
  proof (cases "cmp e = 0")
    case True
    then show ?thesis using Suc.prems e by (intro exI [of _ 0]) auto
  next
    case False
    then have "find_loop m esz cmp (a + esz) k = Some (Some p)" using Suc.prems e by simp
    from Suc.IH [OF this] obtain i where i: "i < k" "p = a + esz + i * esz"
      "\<exists>e. rd m p esz = Some e \<and> cmp e = 0"
      "\<forall>j<i. \<exists>e. rd m (a + esz + j * esz) esz = Some e \<and> cmp e \<noteq> 0" by blast
    have "\<exists>e. rd m (a + j * esz) esz = Some e \<and> cmp e \<noteq> 0" if "j < Suc i" for j
      using that i(4) e False by (cases j) (auto simp: add.assoc)
    then show ?thesis using i by (intro exI [of _ "Suc i"]) (auto simp: add.assoc)
  qed
qed simp

lemma find_loop_total:
  "a + k * esz \<le> length m \<Longrightarrow> \<exists>r. find_loop m esz cmp a k = Some r"
proof (induction k arbitrary: a)
  case (Suc k)
  then have "a + esz + k * esz \<le> length m" "a + esz \<le> length m" by auto
  then show ?case using Suc.IH [of "a + esz"] by (auto simp: rd_def)
qed simp

lemma rd_qdata:
  assumes wf: "queue_wf q" and "p + n \<le> qlen q" and "n \<noteq> 0"
    and lin: "p + n \<le> qmax q - qoff q \<or> qmax q - qoff q \<le> p"
  shows "rd (qbase q) (ring_off (qmax q) (qoff q) p) n = Some (take n (drop p (qdata q)))"
proof -
  have len: "length (qbase q) = qmax q" "qoff q \<le> qmax q" "qlen q \<le> qmax q" using wf by (simp_all add: queue_wf_def)
  have eq: "ring (qbase q) (ring_off (qmax q) (qoff q) p)
      = drop p (ring (qbase q) (qoff q)) @ take p (ring (qbase q) (qoff q))"
    using ring_shift [of "qoff q" "qbase q" p] len assms(2) by simp
  let ?k = "ring_off (qmax q) (qoff q) p"
  have k: "?k + n \<le> qmax q" using lin assms(2,3) len by (auto simp: ring_off_def)
  then have "rd (qbase q) ?k n = Some (take n (ring (qbase q) ?k))"
    using len by (simp add: rd_def ring_def)
  also have "take n (ring (qbase q) ?k) = take n (drop p (qdata q))"
    using len assms(2) by (simp add: eq qdata_def take_drop min_def)
  finally show ?thesis .
qed

lemma find_linear:
  assumes wf: "queue_wf q" and "0 < esz" and "\<not> MPT_queue_frag q" and "esz \<le> qlen q"
  shows "\<exists>r. mpt_queue_find (Some q) esz (Some cmp) = Some r \<and>
     (case r of
        Inr a \<Rightarrow> \<exists>i<qlen q div esz. a = qoff q + i * esz \<and> cmp (qelem q esz i) = 0
                   \<and> (\<forall>j<i. cmp (qelem q esz j) \<noteq> 0)
      | Inl e \<Rightarrow> e = None \<and> (\<forall>i<qlen q div esz. cmp (qelem q esz i) \<noteq> 0))"
proof -
  have len: "length (qbase q) = qmax q" "qoff q + qlen q \<le> qmax q"
    using assms by (auto simp: queue_wf_def MPT_queue_frag_def)
  have bound: "i * esz + esz \<le> qlen q" if "i < qlen q div esz" for i
    using that assms(2) by (metis Suc_leI add.commute div_times_less_eq_dividend le_trans mult_Suc mult_le_mono1)
  have el: "rd (qbase q) (qoff q + i * esz) esz = Some (qelem q esz i)" if "i < qlen q div esz" for i
  proof -
    have "ring_off (qmax q) (qoff q) (i * esz) = qoff q + i * esz"
      using bound [OF that] len assms(2) by (simp add: ring_off_def)
    moreover have "i * esz + esz \<le> qmax q - qoff q" using bound [OF that] len by linarith
    ultimately show ?thesis using rd_qdata [OF wf bound [OF that]] assms(2) by (simp add: qelem_def)
  qed
  have "qlen q div esz * esz \<le> qlen q" by simp
  then have "qoff q + qlen q div esz * esz \<le> length (qbase q)" using len by linarith
  from find_loop_total [OF this, of cmp] obtain r where r: "find_loop (qbase q) esz cmp (qoff q) (qlen q div esz) = Some r" ..
  have f: "mpt_queue_find (Some q) esz (Some cmp) = Some (case r of Some a \<Rightarrow> Inr a | None \<Rightarrow> Inl None)"
    using r assms by (simp add: mpt_queue_find_def)
  show ?thesis
  proof (cases r)
    case None
    then show ?thesis using f r el find_loop_None [of "qbase q" esz cmp "qoff q"] by fastforce
  next
    case (Some a)
    with find_loop_Some [of "qbase q" esz cmp "qoff q" "qlen q div esz" a] r obtain i where i: "i < qlen q div esz" "a = qoff q + i * esz"
      "\<exists>e. rd (qbase q) a esz = Some e \<and> cmp e = 0"
      "\<forall>j<i. \<exists>e. rd (qbase q) (qoff q + j * esz) esz = Some e \<and> cmp e \<noteq> 0" by auto
    then have "cmp (qelem q esz j) \<noteq> 0" if "j < i" for j using el [of j] that by fastforce
    then show ?thesis using i f el [of i] Some by auto
  qed
qed


section \<open>Behaviour outside of the contract\<close>

lemma pop_linear:
  assumes wf: "queue_wf q" and fr: "\<not> MPT_queue_frag q" and n: "n \<le> qlen q" "n \<le> length d"
  shows "\<exists>q'. mpt_qpop q n (Some d) = Some (QIn (qoff q), Some (take n (qdata q) @ drop n d), q')
           \<and> queue_wf q' \<and> qdata q' = take (qlen q - n) (qdata q)"
proof -
  have len: "length (qbase q) = qmax q" "qoff q + qlen q \<le> qmax q" "qlen q \<le> qmax q"
    using wf fr by (auto simp: queue_wf_def MPT_queue_frag_def)
  have low: "snd (mpt_queue_data q True) = qlen q" using queue_low [OF wf] len by simp
  have r: "rd (qbase q) (qoff q) n = Some (take n (qdata q))"
    using len n by (simp add: rd_def qdata_def ring_def)
  have w: "wr d 0 (take n (qdata q)) = Some (take n (qdata q) @ drop n d)"
    using n wf by (simp add: wr_def)
  show ?thesis using low r w n wf by (auto simp: mpt_qpop_def Let_def queue_wf_def qdata_def)
qed

lemma pop_high:
  assumes wf: "queue_wf q" and fr: "MPT_queue_frag q" and n: "n \<le> qlen q - (qmax q - qoff q)" "n \<le> length d"
  shows "\<exists>a q'. mpt_qpop q n (Some d) = Some (a, Some (drop (qlen q - n) (qdata q) @ drop n d), q')
           \<and> queue_wf q' \<and> qdata q' = take (qlen q - n) (qdata q)"
proof -
  define low where "low = qmax q - qoff q"
  have len: "length (qbase q) = qmax q" "qoff q \<le> qmax q" "qlen q \<le> qmax q" "low < qlen q"
    using wf fr by (auto simp: queue_wf_def MPT_queue_frag_def low_def)
  have l: "snd (mpt_queue_data q True) = low" using queue_low [OF wf] len by (simp add: low_def)
  have "drop (qlen q - n) (qdata q) = take n (drop (qlen q - low - n) (qbase q))"
    using len n by (auto simp: qdata_def ring_def low_def drop_take min_def add.commute)
  then have r: "rd (qbase q) (qlen q - low - n) n = Some (drop (qlen q - n) (qdata q))"
    using len n by (auto simp: rd_def low_def)
  have w: "wr d 0 (drop (qlen q - n) (qdata q)) = Some (drop (qlen q - n) (qdata q) @ drop n d)"
    using n len wf by (simp add: wr_def low_def)
  show ?thesis using l r w n wf len by (auto simp: mpt_qpop_def Let_def queue_wf_def qdata_def low_def)
qed

lemma crop_split_undef:
  assumes wf: "queue_wf q" and fr: "MPT_queue_frag q" and big: "qmax q < 2 ^ 63"
    and p: "0 < pos" "pos < qmax q - qoff q" and n: "pos + n \<le> qlen q"
    and bad: "n < qmax q - qoff q - pos \<or> qlen q - pos - n \<noteq> qmax q - qoff q - pos"
  shows "mpt_queue_crop q pos n = None"
proof -
  define low where "low = qmax q - qoff q"
  define low' where "low' = low - pos"
  have len: "length (qbase q) = qmax q" "qoff q \<le> qmax q" "qlen q \<le> qmax q" "low < qlen q"
    using wf fr by (auto simp: queue_wf_def MPT_queue_frag_def low_def)
  have l: "snd (mpt_queue_data q True) = low" using queue_low [OF wf] len by (simp add: low_def)
  define post where "post = low' + (qlen q - low) - n"
  have post: "post = qlen q - pos - n" "n \<le> low' + (qlen q - low)"
    using p n len by (auto simp: post_def low'_def low_def)
  have nz: "\<not> qlen q + qoff q \<le> qmax q" using len by (simp add: low_def)
  have body: "mpt_queue_crop q pos n =
      (if n < low' then None else if low' \<le> post then do { m \<leftarrow> memcpy_b (qbase q) (qoff q + pos) (n - low') post;
           Some (1, q\<lparr>qbase := m, qlen := qlen q - n\<rparr>) }
       else do { m \<leftarrow> memcpy_b (qbase q) (qoff q + pos) (n - low') low';
                 m \<leftarrow> memmove_b m 0 n (usub post low');
                 Some (3, q\<lparr>qbase := m, qlen := qlen q - n\<rparr>) })"
    using p l len post(2) nz by (simp add: mpt_queue_crop_def Let_def low'_def low_def post_def)
  consider "n < low'" | "low' \<le> n" "low' < post" | "low' \<le> n" "post < low'"
    using bad post by (auto simp: low'_def low_def) linarith
  then show ?thesis
  proof cases
    case 1
    then show ?thesis using body by simp
  next
    case 2
    then have "qoff q + pos + post > length (qbase q)" using p len by (auto simp: low'_def low_def)
    then have "memcpy_b (qbase q) (qoff q + pos) (n - low') post = None"
      by (auto simp: mem_defs split: bind_splits)
    then show ?thesis using body 2 by simp
  next
    case 3
    then have "usub post low' = post + 2 ^ 64 - low'" by (simp add: usub_def)
    moreover have "low' < 2 ^ 63" using big by (simp add: low'_def low_def)
    ultimately have "usub post low' > qmax q" using big by simp
    then have "memmove_b m 0 n (usub post low') = None" if "length m = qmax q" for m
      using that by (simp add: memmove_b_def rd_def)
    then show ?thesis using body 3 memcpy_length [of "qbase q"] len
      by (auto split: bind_splits)
  qed
qed

section \<open>The ring buffer as a byte queue\<close>

lemma ring_push_fits:
  assumes "ring_inv q" and "xs \<noteq> []" and "length (qdata q) + length xs \<le> qmax q"
  shows "\<exists>q'. ring_push q xs = Some (True, q') \<and> ring_inv q' \<and> qmax q' = qmax q \<and> qdata q' = qdata q @ xs"
proof -
  have "length xs \<le> qmax q - qlen q" using assms by (simp add: ring_inv_def)
  then show ?thesis using push_ok [of q "length xs" "Some xs"] assms
    by (auto simp: ring_inv_def ring_push_def data_ok_def set_bytes_def)
qed

lemma ring_push_over:
  assumes "ring_inv q" and "qmax q < length (qdata q) + length xs"
  shows "ring_push q xs = Some (False, q)"
  using push_full [of q "length xs" "Some xs"] assms
  by (auto simp: ring_inv_def ring_push_def queue_wf_def less_diff_conv2)

lemma ring_push_none:
  assumes "ring_inv q"
  shows "ring_push q [] = (if length (qdata q) < qmax q then None else Some (False, q))"
proof (cases "qlen q < qmax q")
  case True
  with queue_empty_split [of q] assms obtain s low high where
    "mpt_queue_empty q = Some (s, low, high)" by (auto simp: ring_inv_def)
  then show ?thesis using assms True
    by (simp add: ring_inv_def ring_push_def mpt_qpush_def mpt_qpost_def Let_def)
next
  case False
  then have "qlen q = qmax q" using assms by (simp add: ring_inv_def queue_wf_def)
  then show ?thesis using assms
    by (simp add: ring_inv_def ring_push_def mpt_qpush_def mpt_qpost_def queue_empty_full to_int32_id)
qed

lemma ring_unshift_fits:
  assumes "ring_inv q" and "xs \<noteq> []" and "length (qdata q) + length xs \<le> qmax q"
  shows "\<exists>q'. ring_unshift q xs = Some (True, q') \<and> ring_inv q' \<and> qmax q' = qmax q \<and> qdata q' = xs @ qdata q"
proof -
  have "length xs \<le> qmax q - qlen q" using assms by (simp add: ring_inv_def)
  then show ?thesis using unshift_ok [of q "length xs" "Some xs"] assms
    by (auto simp: ring_inv_def ring_unshift_def data_ok_def set_bytes_def)
qed

lemma ring_shift_fits:
  assumes "ring_inv q" and "n \<le> length (qdata q)"
  shows "\<exists>q'. ring_shift_out q n = Some (Some (take n (qdata q)), q') \<and> ring_inv q' \<and> qmax q' = qmax q
           \<and> qdata q' = drop n (qdata q)"
proof -
  from shift_ok [of q n "replicate n 0"] assms obtain a q' where
    "mpt_qshift q n (Some (replicate n 0)) = Some (a, Some (take n (qdata q)), q')" "\<forall>e. a \<noteq> QNull e"
    "queue_wf q'" "qmax q' = qmax q" "qdata q' = drop n (qdata q)"
    by (auto simp: ring_inv_def)
  then show ?thesis using assms by (cases a) (auto simp: ring_shift_out_def ring_inv_def)
qed

interpretation rq: byte_deque ring_inv qmax qdata ring_push ring_shift_out ring_unshift
proof
  fix q :: queue and n
  assume q: "ring_inv q"
  then show "length (qdata q) \<le> qmax q" by (simp add: ring_inv_def queue_wf_def)
  show "length (qdata q) < qmax q \<Longrightarrow> ring_push q [] = None"
    "length (qdata q) = qmax q \<Longrightarrow> ring_push q [] = Some (False, q)"
    using ring_push_none [OF q] by simp_all
  show "length (qdata q) < n \<Longrightarrow> ring_shift_out q n = Some (None, q)"
    using q by (simp add: ring_inv_def ring_shift_out_def shift_error)
qed (rule ring_push_fits ring_push_over ring_shift_fits ring_unshift_fits; assumption)+

section \<open>Properties\<close>

text \<open>Property C1: Every sequence of \<open>mpt_qpush\<close> and \<open>mpt_qshift\<close> requests on a well-formed queue of
  less than 2 GiB behaves as a bounded first-in first-out list of bytes: the same requests are
  refused, the same bytes are delivered, the queue they leave is well-formed, of the same size
  and has the contents of the list, after refused requests as well.  The sequence runs into
  undefined behaviour exactly where it pushes nothing to a queue which is not full (the
  division by zero of qpost.c:33).\<close>

theorem queue_refines_fifo:
  assumes "ring_inv q"
  shows "case spec_run (qmax q) (qdata q) cs of
           None \<Rightarrow> impl_run ring_push ring_shift_out q cs = None
         | Some (ys, outs) \<Rightarrow>
             \<exists>q'. impl_run ring_push ring_shift_out q cs = Some (q', outs)
                \<and> ring_inv q' \<and> qmax q' = qmax q \<and> qdata q' = ys"
  using rq.run_refines [OF assms] .

lemma queue_example_wf [simp]: "queue_wf queue_example" "ring_inv queue_example"
  by (simp_all add: queue_example_def queue_wf_def ring_inv_def)

lemma queue_example_data [simp]: "qdata queue_example = [6, 7, 8, 1, 2]"
  "qmax queue_example = 8" "qlen queue_example = 5" "qoff queue_example = 5"
  "MPT_queue_frag queue_example"
  by (simp_all add: queue_example_def qdata_def ring_def MPT_queue_frag_def)

theorem queue_refines_fifo_witness:
  "ring_inv queue_example
   \<and> (\<exists>q'. impl_run ring_push ring_shift_out queue_example [Push [9, 10, 11], Push [], Push [12], Shift 4]
              = Some (q', [Some [], None, None, Some [6, 7, 8, 1]])
         \<and> ring_inv q' \<and> qmax q' = 8 \<and> qdata q' = [2, 9, 10, 11])
   \<and> impl_run ring_push ring_shift_out queue_example [Shift 6, Push []] = None"
  using queue_refines_fifo [of queue_example "[Push [9, 10, 11], Push [], Push [12], Shift 4]"]
    queue_refines_fifo [of queue_example "[Shift 6, Push []]"]
  by simp

text \<open>Property C2: \<open>mpt_qpush\<close> of a positive length appends the caller's bytes (zeros without a source)
  when they fit, across the end of the block as well, and otherwise returns \<open>MissingBuffer\<close> and
  changes nothing.\<close>

theorem qpush_appends:
  assumes "queue_wf q" and "0 < n" and "qmax q < 2 ^ 31" and "data_ok data n"
  shows "if n \<le> qmax q - qlen q
         then \<exists>r q'. mpt_qpush q n data = Some (r, q') \<and> 0 \<le> r \<and> queue_wf q' \<and> qmax q' = qmax q
                \<and> qdata q' = qdata q @ set_bytes data n
         else mpt_qpush q n data = Some (MissingBuffer, q)"
  using push_ok [of q n data] push_full [of q n data] assms by auto

theorem qpush_appends_witness:
  "queue_wf queue_example \<and> (0::nat) < 2 \<and> qmax queue_example < 2 ^ 31 \<and> data_ok (Some [20, 21]) 2
   \<and> (\<exists>r q'. mpt_qpush queue_example 2 (Some [20, 21]) = Some (r, q') \<and> 0 \<le> r \<and> queue_wf q'
         \<and> qmax q' = 8 \<and> qdata q' = [6, 7, 8, 1, 2, 20, 21])"
  using qpush_appends [of queue_example 2 "Some [20, 21]"] by (simp add: data_ok_def set_bytes_def)

text \<open>Property C20: what \<open>mpt_qshift\<close> removes from the front, \<open>mpt_qunshift\<close> puts back: the contents
  are those before the removal, wherever the block wraps.\<close>

theorem qshift_qunshift_restores:
  assumes "ring_inv q" and "0 < n" and "n \<le> qlen q"
  shows "\<exists>q1 q2. ring_shift_out q n = Some (Some (take n (qdata q)), q1) \<and> qdata q1 = drop n (qdata q)
           \<and> ring_unshift q1 (take n (qdata q)) = Some (True, q2) \<and> qdata q2 = qdata q"
proof -
  have wf: "length (qdata q) = qlen q"
    using assms by (simp add: ring_inv_def)
  then obtain q1 where "ring_shift_out q n = Some (Some (take n (qdata q)), q1)" "qdata q1 = drop n (qdata q)"
    using ring_shift_fits [of q n] assms by auto
  with rq.shift_unshift [of q n] assms wf show ?thesis by auto
qed

theorem qshift_qunshift_restores_witness:
  "ring_inv queue_example \<and> (0::nat) < 4 \<and> 4 \<le> qlen queue_example
   \<and> (\<exists>q1 q2. ring_shift_out queue_example 4 = Some (Some [6, 7, 8, 1], q1) \<and> qdata q1 = [2]
         \<and> ring_unshift q1 [6, 7, 8, 1] = Some (True, q2) \<and> qdata q2 = [6, 7, 8, 1, 2])"
  using qshift_qunshift_restores [of queue_example 4] by simp

text \<open>Property C21: a block stored with \<open>mpt_queue_set\<close> inside of the used range is what
  \<open>mpt_queue_get\<close> reads from there, and no other byte of the contents changes.\<close>

theorem queue_set_get:
  assumes "queue_wf q" and "0 < length xs" and "p + length xs \<le> qlen q" and "length buf = length xs"
  shows "\<exists>r q' r'. mpt_queue_set q p (length xs) (Some xs) = Some (r, q') \<and> 0 \<le> r \<and> queue_wf q'
           \<and> qdata q' = take p (qdata q) @ xs @ drop (p + length xs) (qdata q)
           \<and> mpt_queue_get q' p (length xs) (Some buf) = Some (r', Some xs) \<and> 0 \<le> r'"
proof -
  have len: "length (qbase q) = qmax q" "qlen q \<le> qmax q" "qoff q \<le> qmax q"
    using assms by (simp_all add: queue_wf_def)
  from set_ok [OF assms(1-3), of "Some xs"] obtain r m where m:
    "mpt_queue_set q p (length xs) (Some xs) = Some (r, q\<lparr>qbase := m\<rparr>)" "0 \<le> r" "length m = qmax q"
    "ring m (qoff q) = take p (ring (qbase q) (qoff q)) @ xs @ drop (p + length xs) (ring (qbase q) (qoff q))"
    by (auto simp: data_ok_def set_bytes_def)
  let ?q = "q\<lparr>qbase := m\<rparr>"
  have wf: "queue_wf ?q" using m len by (simp add: queue_wf_def)
  have "min p (qlen q) = p" "min p (qmax q) = p" "p \<le> qlen q" using assms(3) len by auto
  then have d: "qdata ?q = take p (qdata q) @ xs @ drop (p + length xs) (qdata q)"
    using m(4) assms(3) len by (simp add: qdata_def drop_take)
  have "take (length xs) (drop p (qdata ?q)) = xs" using assms by (simp add: d)
  then show ?thesis using get_ok [OF wf assms(2), of p buf] assms m wf d by auto
qed

theorem queue_set_get_witness:
  "queue_wf queue_example \<and> 0 < length [40, 41, 42 :: byte] \<and> 1 + length [40, 41, 42 :: byte] \<le> qlen queue_example
   \<and> length [0, 0, 0 :: byte] = length [40, 41, 42 :: byte]
   \<and> (\<exists>r q' r'. mpt_queue_set queue_example 1 3 (Some [40, 41, 42]) = Some (r, q')
         \<and> qdata q' = [6, 40, 41, 42, 2]
         \<and> mpt_queue_get q' 1 3 (Some [0, 0, 0]) = Some (r', Some [40, 41, 42]))"
  using queue_set_get [of queue_example "[40, 41, 42]" 1 "[0, 0, 0]"] by (auto simp: numeral_3_eq_3)

text \<open>\<open>mpt_queue_align\<close> to an offset from which the contents fit in one piece keeps the
  contents and sets the offset, from a split queue as well.\<close>

theorem queue_align_keeps:
  assumes "queue_wf q" and "pos + qlen q \<le> qmax q"
  shows "\<exists>q'. mpt_queue_align q pos = Some q' \<and> queue_wf q' \<and> qdata q' = qdata q
           \<and> qoff q' = (if qlen q = 0 then 0 else pos) \<and> \<not> MPT_queue_frag q'"
  using align_ok [OF assms] assms by (fastforce simp: MPT_queue_frag_def queue_wf_def)

theorem queue_align_keeps_witness:
  "queue_wf queue_example \<and> 2 + qlen queue_example \<le> qmax queue_example
   \<and> (\<exists>q'. mpt_queue_align queue_example 2 = Some q' \<and> queue_wf q' \<and> qdata q' = [6, 7, 8, 1, 2]
         \<and> qoff q' = 2 \<and> \<not> MPT_queue_frag q')"
  using queue_align_keeps [of queue_example 2] by simp

text \<open>\<open>mpt_queue_prepare\<close> keeps the contents; a non-zero result is the free space, at least
  the requested size, and with a working allocator the request always succeeds.\<close>

theorem queue_prepare_reserves:
  assumes "queue_wf q" and "alloc_ok al" and "qmax q + n + 7 < 2 ^ 64"
  shows "\<exists>k q'. mpt_queue_prepare al q n = Some (k, q') \<and> queue_wf q' \<and> qdata q' = qdata q
           \<and> (k = 0 \<or> k = qmax q' - qlen q' \<and> n \<le> k) \<and> ((\<forall>i. al i \<noteq> None) \<longrightarrow> n \<le> k)"
  by (rule prepare_ok [OF assms])

theorem queue_prepare_reserves_witness:
  "queue_wf queue_example \<and> alloc_ok (\<lambda>n. Some (replicate n 0)) \<and> qmax queue_example + 20 + 7 < 2 ^ 64
   \<and> (\<exists>k q'. mpt_queue_prepare (\<lambda>n. Some (replicate n 0)) queue_example 20 = Some (k, q')
         \<and> queue_wf q' \<and> qdata q' = [6, 7, 8, 1, 2] \<and> 20 \<le> k)"
proof -
  have "alloc_ok (\<lambda>n. Some (replicate n 0))" by (simp add: alloc_ok_def)
  then show ?thesis using queue_prepare_reserves [of queue_example "\<lambda>n. Some (replicate n 0)" 20] by auto
qed

text \<open>A shrinking \<open>mpt_queue_resize\<close> drops the oldest bytes only, a growing one none; the
  result is well-formed also where the allocator fails.\<close>

theorem queue_resize_keeps_tail:
  assumes "queue_wf q" and "alloc_ok al" and "0 < n"
  shows "\<exists>ok q'. mpt_queue_resize al q n = Some (ok, q') \<and> queue_wf q'
           \<and> qdata q' = drop (qlen q - n) (qdata q) \<and> (ok \<longrightarrow> qmax q' = n) \<and> (al n \<noteq> None \<longrightarrow> ok)"
  by (rule resize_ok [OF assms])

theorem queue_resize_keeps_tail_witness:
  "queue_wf queue_example \<and> alloc_ok (\<lambda>n. Some (replicate n 0)) \<and> (0::nat) < 3
   \<and> (\<exists>ok q'. mpt_queue_resize (\<lambda>n. Some (replicate n 0)) queue_example 3 = Some (ok, q')
         \<and> queue_wf q' \<and> qdata q' = [8, 1, 2] \<and> ok \<and> qmax q' = 3)"
proof -
  have "alloc_ok (\<lambda>n. Some (replicate n 0))" by (simp add: alloc_ok_def)
  then show ?thesis using queue_resize_keeps_tail [of queue_example "\<lambda>n. Some (replicate n 0)" 3] by auto
qed

text \<open>Property C23: \<open>mpt_queue_save\<close> offers exactly the contents to \<open>writev\<close>, in order, and removes the
  part that was written; \<open>mpt_queue_load\<close> appends exactly the bytes that \<open>readv\<close> delivered and
  never asks for more than the free space.\<close>

theorem queue_file_transfer:
  assumes "queue_wf q" and "0 < qlen q" and "qlen q < qmax q" and "writev_ok writev" and "readv_ok readv"
  shows "(\<exists>bs q'. concat bs = qdata q \<and> mpt_queue_save writev q = Some (writev bs, q') \<and> queue_wf q'
             \<and> qdata q' = drop (nat (writev bs)) (qdata q))
       \<and> (\<exists>ns. sum_list ns = (if n = 0 then qmax q - qlen q else min n (qmax q - qlen q)) \<and>
           (case readv ns of
              Inl e \<Rightarrow> mpt_queue_load readv q n = Some (e, q)
            | Inr bs \<Rightarrow> \<exists>q'. mpt_queue_load readv q n = Some (int (length bs), q')
                            \<and> queue_wf q' \<and> qmax q' = qmax q \<and> qdata q' = qdata q @ bs))"
  using save_ok [OF assms(1) _ assms(4)] load_ok [OF assms(1,3,5), of n] assms(2) by blast

theorem queue_file_transfer_witness:
  "queue_wf queue_example \<and> 0 < qlen queue_example \<and> qlen queue_example < qmax queue_example
   \<and> writev_ok (\<lambda>bs. min 2 (int (length (concat bs))))
   \<and> readv_ok (\<lambda>ns. if 3 \<le> sum_list ns then Inr [30, 31, 32] else Inl (- 1))
   \<and> (\<exists>q'. mpt_queue_load (\<lambda>ns. if 3 \<le> sum_list ns then Inr [30, 31, 32] else Inl (- 1)) queue_example 0
            = Some (3, q') \<and> qdata q' = [6, 7, 8, 1, 2, 30, 31, 32])"
proof -
  let ?w = "\<lambda>bs :: block list. min 2 (int (length (concat bs)))"
  let ?r = "\<lambda>ns :: nat list. if 3 \<le> sum_list ns then Inr [30, 31, 32 :: byte] else Inl (- 1 :: int)"
  have wv: "writev_ok ?w" and rv: "readv_ok ?r" by (simp_all add: writev_ok_def readv_ok_def)
  from queue_file_transfer [of queue_example ?w ?r 0] wv rv obtain ns where "sum_list ns = 3"
    "case ?r ns of Inl e \<Rightarrow> mpt_queue_load ?r queue_example 0 = Some (e, queue_example)
      | Inr bs \<Rightarrow> \<exists>q'. mpt_queue_load ?r queue_example 0 = Some (int (length bs), q')
                     \<and> queue_wf q' \<and> qmax q' = qmax queue_example \<and> qdata q' = qdata queue_example @ bs"
    by auto
  then have "\<exists>q'. mpt_queue_load ?r queue_example 0 = Some (3, q') \<and> qdata q' = [6, 7, 8, 1, 2, 30, 31, 32]"
    by auto
  with wv rv show ?thesis by simp
qed

text \<open>On contents in one piece \<open>mpt_queue_find\<close> returns the first element (of size \<open>esz\<close>,
  counted from the front) that the compare function accepts, or null if there is none.\<close>

theorem queue_find_first:
  assumes "queue_wf q" and "0 < esz" and "\<not> MPT_queue_frag q" and "esz \<le> qlen q"
  shows "\<exists>r. mpt_queue_find (Some q) esz (Some cmp) = Some r \<and>
     (case r of
        Inr a \<Rightarrow> \<exists>i<qlen q div esz. a = qoff q + i * esz \<and> cmp (qelem q esz i) = 0
                   \<and> (\<forall>j<i. cmp (qelem q esz j) \<noteq> 0)
      | Inl e \<Rightarrow> e = None \<and> (\<forall>i<qlen q div esz. cmp (qelem q esz i) \<noteq> 0))"
  by (rule find_linear [OF assms])

theorem queue_find_first_witness:
  "queue_wf (queue_example\<lparr>qoff := 2\<rparr>) \<and> (0::nat) < 2 \<and> \<not> MPT_queue_frag (queue_example\<lparr>qoff := 2\<rparr>)
   \<and> 2 \<le> qlen (queue_example\<lparr>qoff := 2\<rparr>)
   \<and> (\<exists>r. mpt_queue_find (Some (queue_example\<lparr>qoff := 2\<rparr>)) 2 (Some (\<lambda>e. if e = [5, 6] then 0 else 1)) = Some r)"
  using queue_find_first [of "queue_example\<lparr>qoff := 2\<rparr>" 2 "\<lambda>e. if e = [5, 6] then 0 else 1"]
  by (auto simp: queue_example_def queue_wf_def MPT_queue_frag_def)

text \<open>On contents in one piece \<open>mpt_qpop\<close> removes the last \<open>n\<close> bytes but copies, and
  points to, the first \<open>n\<close> bytes; the documentation promises the removed data.\<close>

theorem qpop_delivers_front:
  assumes "queue_wf q" and "\<not> MPT_queue_frag q" and "n \<le> qlen q" and "n \<le> length d"
  shows "\<exists>q'. mpt_qpop q n (Some d) = Some (QIn (qoff q), Some (take n (qdata q) @ drop n d), q')
           \<and> queue_wf q' \<and> qdata q' = take (qlen q - n) (qdata q)"
  by (rule pop_linear [OF assms])

theorem qpop_delivers_front_witness:
  "queue_wf (queue_example\<lparr>qoff := 0\<rparr>) \<and> \<not> MPT_queue_frag (queue_example\<lparr>qoff := 0\<rparr>)
   \<and> 2 \<le> qlen (queue_example\<lparr>qoff := 0\<rparr>) \<and> 2 \<le> length [0, 0 :: byte]
   \<and> (\<exists>q'. mpt_qpop (queue_example\<lparr>qoff := 0\<rparr>) 2 (Some [0, 0]) = Some (QIn 0, Some [1, 2], q')
         \<and> qdata q' = [1, 2, 3])"
  using qpop_delivers_front [of "queue_example\<lparr>qoff := 0\<rparr>" 2 "[0, 0]"]
  by (simp add: queue_example_def queue_wf_def MPT_queue_frag_def qdata_def) auto

text \<open>\<open>mpt_queue_crop\<close> of bytes inside of the first part of a split queue has undefined
  behaviour, unless the removed bytes cover the rest of the first part and exactly as many bytes
  follow them as they leave room for: the source pointer lies before the block, the copy runs
  over its end, or the remaining size wraps around.\<close>

theorem queue_crop_split_undefined:
  assumes "queue_wf q" and "MPT_queue_frag q" and "qmax q < 2 ^ 63"
    and "0 < pos" and "pos < qmax q - qoff q" and "pos + n \<le> qlen q"
    and "n < qmax q - qoff q - pos \<or> qlen q - pos - n \<noteq> qmax q - qoff q - pos"
  shows "mpt_queue_crop q pos n = None"
  by (rule crop_split_undef [OF assms])

theorem queue_crop_split_undefined_witness:
  "queue_wf queue_example \<and> MPT_queue_frag queue_example \<and> qmax queue_example < 2 ^ 63
   \<and> (0::nat) < 1 \<and> 1 < qmax queue_example - qoff queue_example \<and> 1 + 1 \<le> qlen queue_example
   \<and> 1 < qmax queue_example - qoff queue_example - 1
   \<and> mpt_queue_crop queue_example 1 1 = None"
  using queue_crop_split_undefined [of queue_example 1 1] by simp

end
