(* ===== verification/Message.thy ===== *)
theory Message
  imports Queue
begin

text \<open>
  Messages and vectors of data parts: \<open>mptcore/message/\<close>.

  A \<open>struct iovec\<close> that is only read is the block of its bytes, a vector of them with its number
  of elements is the list of these blocks.  A \<open>struct message\<close> has a first part (\<open>base\<close>,
  \<open>used\<close>) and a vector of further parts (\<open>cont\<close>, \<open>clen\<close>).  The lemmas show that every operation
  depends on the joined bytes of the parts only, and which function of them it computes; where the
  source does depend on the parts, this is stated as well.
\<close>

section \<open>Model\<close>

abbreviation SSIZE_MAX :: nat where "SSIZE_MAX \<equiv> 2 ^ 63 - 1"

record message =
  mbase :: block
  mcont :: "block list"

subsection \<open>Reading: \<open>message_read.c\<close>\<close>

text \<open>The destination of a copy: absent (a null pointer) or a block and the place to write at.\<close>

type_synonym dest = "(block \<times> nat) option"

definition dest_put :: "dest \<Rightarrow> block \<Rightarrow> dest option" where
  "dest_put dest xs = (case dest of None \<Rightarrow> Some None
     | Some (b, p) \<Rightarrow> do { b' \<leftarrow> wr b p xs; Some (Some (b', p + length xs)) })"

text \<open>The first loop of \<open>mpt_message_read\<close>: \<open>Inl\<close> is the return in the loop, \<open>Inr\<close> the state behind
  the loop.\<close>

fun message_read_loop :: "block \<Rightarrow> block list \<Rightarrow> nat \<Rightarrow> nat \<Rightarrow> dest
    \<Rightarrow> ((nat \<times> message \<times> dest) + (block \<times> block list \<times> nat \<times> nat \<times> dest)) option" where
  "message_read_loop base cont len tot dest =
     (if len > length base then do {
        dest \<leftarrow> (if base = [] then Some dest else dest_put dest base);
        (case cont of
           [] \<Rightarrow> Some (Inl (tot + length base, \<lparr>mbase = [], mcont = []\<rparr>, dest))
         | c # cs \<Rightarrow> message_read_loop c cs (len - length base) (tot + length base) dest) }
      else Some (Inr (base, cont, len, tot, dest)))"

text \<open>The second loop: skip of empty parts.\<close>

fun message_skip :: "block \<Rightarrow> block list \<Rightarrow> message" where
  "message_skip [] (c # cs) = message_skip c cs"
| "message_skip base cont = \<lparr>mbase = base, mcont = cont\<rparr>"

definition mpt_message_read :: "message \<Rightarrow> nat \<Rightarrow> dest \<Rightarrow> (nat \<times> message \<times> dest) option" where
  "mpt_message_read msg len dest = do {
     r \<leftarrow> message_read_loop (mbase msg) (mcont msg) len 0 dest;
     (case r of
        Inl ret \<Rightarrow> Some ret
      | Inr (base, cont, len, tot, dest) \<Rightarrow> do {
          dest \<leftarrow> (if len = 0 then Some dest else dest_put dest (take len base));
          Some (tot + len, message_skip (drop len base) cont, dest) }) }"

fun length_loop :: "nat \<Rightarrow> block list \<Rightarrow> nat" where
  "length_loop len [] = len"
| "length_loop len (v # vs) = length_loop (len + length v) vs"

definition mpt_message_length :: "message \<Rightarrow> nat" where
  "mpt_message_length msg = length_loop (length (mbase msg)) (mcont msg)"

subsection \<open>Searching: \<open>memchr.c\<close>, \<open>memfcn.c\<close>, \<open>memstr.c\<close>\<close>

text \<open>The loops that add the lengths of the parts before a match, refused above \<open>SSIZE_MAX\<close>.\<close>

fun add_lens :: "nat \<Rightarrow> nat list \<Rightarrow> nat option" where
  "add_lens n [] = Some n"
| "add_lens n (l # ls) = (if n + l > SSIZE_MAX then None else add_lens (n + l) ls)"

definition pos_result :: "nat option \<Rightarrow> int" where
  "pos_result r = (case r of None \<Rightarrow> - 1 | Some n \<Rightarrow> int n)"

text \<open>\<open>memchr\<close> of the C library.\<close>

definition memchr_c :: "block \<Rightarrow> byte \<Rightarrow> nat option" where
  "memchr_c xs c = (if c \<in> set xs then Some (length (takeWhile (\<lambda>x. x \<noteq> c) xs)) else None)"

text \<open>The list \<open>seen\<close> has the lengths of the parts before the current one, the nearest one first.\<close>

fun memchr_loop :: "byte \<Rightarrow> nat list \<Rightarrow> block list \<Rightarrow> int" where
  "memchr_loop tok seen [] = - 2"
| "memchr_loop tok seen (d # ds) =
     (case (if d = [] then None else memchr_c d tok) of
        Some k \<Rightarrow> pos_result (add_lens k seen)
      | None \<Rightarrow> memchr_loop tok (length d # seen) ds)"

definition mpt_memchr :: "block list \<Rightarrow> int \<Rightarrow> int" where
  "mpt_memchr data tok = memchr_loop (word_of_int tok) [] data"

text \<open>A scan down from index \<open>n\<close>: the inner loops of the backward searches.\<close>

fun scan_down :: "(byte \<Rightarrow> bool) \<Rightarrow> block \<Rightarrow> nat \<Rightarrow> nat option" where
  "scan_down P d 0 = None"
| "scan_down P d (Suc n) = (if P (d ! n) then Some n else scan_down P d n)"

text \<open>The backward loops see the parts last to first.\<close>

fun memrchr_loop :: "byte \<Rightarrow> block list \<Rightarrow> int" where
  "memrchr_loop tok [] = - 2"
| "memrchr_loop tok (d # ds) =
     (case scan_down (\<lambda>x. x = tok) d (length d) of
        Some k \<Rightarrow> pos_result (add_lens k (map length ds))
      | None \<Rightarrow> memrchr_loop tok ds)"

definition mpt_memrchr :: "block list \<Rightarrow> int \<Rightarrow> int" where
  "mpt_memrchr data tok = memrchr_loop (word_of_int tok) (rev data)"

text \<open>The match function is a parameter; it gets the byte as a non-negative \<open>int\<close>.  The vector and the
  function are pointers that may be null.  The forward inner loop has already stepped over the match
  when it adds the lengths.\<close>

fun scan_up :: "(byte \<Rightarrow> bool) \<Rightarrow> block \<Rightarrow> nat \<Rightarrow> nat option" where
  "scan_up P [] pos = None"
| "scan_up P (x # d) pos = (if P x then Some (pos + 1) else scan_up P d (pos + 1))"

fun memfcn_loop :: "(int \<Rightarrow> int) \<Rightarrow> nat list \<Rightarrow> block list \<Rightarrow> int" where
  "memfcn_loop fcn seen [] = - 2"
| "memfcn_loop fcn seen (d # ds) =
     (case scan_up (\<lambda>x. fcn (uint x) \<noteq> 0) d 0 of
        Some k \<Rightarrow> (case add_lens k seen of None \<Rightarrow> - 1 | Some n \<Rightarrow> int n - 1)
      | None \<Rightarrow> memfcn_loop fcn (seen @ [length d]) ds)"

definition mpt_memfcn :: "block list option \<Rightarrow> (int \<Rightarrow> int) option \<Rightarrow> int" where
  "mpt_memfcn data fcn = (case (data, fcn) of
     (Some ds, Some f) \<Rightarrow> memfcn_loop f [] ds | _ \<Rightarrow> - 1)"

fun memrfcn_loop :: "(int \<Rightarrow> int) \<Rightarrow> block list \<Rightarrow> int" where
  "memrfcn_loop fcn [] = - 2"
| "memrfcn_loop fcn (d # ds) =
     (case scan_down (\<lambda>x. fcn (uint x) \<noteq> 0) d (length d) of
        Some k \<Rightarrow> pos_result (add_lens k (rev (map length ds)))
      | None \<Rightarrow> memrfcn_loop fcn ds)"

definition mpt_memrfcn :: "block list option \<Rightarrow> (int \<Rightarrow> int) option \<Rightarrow> int" where
  "mpt_memrfcn data fcn = (case (data, fcn) of
     (Some ds, Some f) \<Rightarrow> memrfcn_loop f (rev ds) | _ \<Rightarrow> - 1)"

definition memchr_wrap :: "block \<Rightarrow> int \<Rightarrow> int" where
  "memchr_wrap match cur = (case memchr_c match (word_of_int cur) of Some _ \<Rightarrow> 1 | None \<Rightarrow> 0)"

text \<open>\<open>None\<close>: the tokens are fewer bytes than the caller says.\<close>

definition mpt_memstr :: "block list option \<Rightarrow> block option \<Rightarrow> nat \<Rightarrow> int option" where
  "mpt_memstr data match mlen =
     (if mlen = 0 then Some 0
      else case match of
          None \<Rightarrow> Some (- 1)
        | Some m \<Rightarrow> do { toks \<leftarrow> rd m 0 mlen; Some (mpt_memfcn data (Some (memchr_wrap toks))) })"

definition mpt_memrstr :: "block list option \<Rightarrow> block option \<Rightarrow> nat \<Rightarrow> int option" where
  "mpt_memrstr data match mlen =
     (if mlen = 0 then Some 0
      else case match of
          None \<Rightarrow> Some (- 1)
        | Some m \<Rightarrow> do { toks \<leftarrow> rd m 0 mlen; Some (mpt_memrfcn data (Some (memchr_wrap toks))) })"

subsection \<open>Copy between vectors: \<open>memcpy.c\<close>\<close>

text \<open>The loop: \<open>s\<close> is what is left of the source part, \<open>w\<close> the written and \<open>t\<close> the free part of
  the target, \<open>fin\<close> the target parts before it.  Source and target parts are different
  objects.\<close>

function memcpy_loop :: "int \<Rightarrow> block \<Rightarrow> block list \<Rightarrow> block list \<Rightarrow> block \<Rightarrow> block \<Rightarrow> block list \<Rightarrow> nat
    \<Rightarrow> nat \<times> block list" where
  "memcpy_loop len s ss fin w t ts tot =
     (if len = 0 then (tot, fin @ (w @ t) # ts)
      else if s = [] then
        (case ss of [] \<Rightarrow> (tot, fin @ (w @ t) # ts)
         | s' # ss' \<Rightarrow> memcpy_loop len s' ss' fin w t ts tot)
      else if t = [] then
        (case ts of [] \<Rightarrow> (tot, fin @ (w @ t) # ts)
         | t' # ts' \<Rightarrow> memcpy_loop len s ss (fin @ [w]) [] t' ts' tot)
      else
        (let copy = (if 0 < len \<and> nat len \<le> length s then nat len else length s);
             copy = (if length t < copy then length t else copy)
         in memcpy_loop (len - int copy) (drop copy s) ss fin (w @ take copy s) (drop copy t) ts
              (tot + copy)))"
  by pat_completeness auto
termination
  by (relation "measure (\<lambda>(len, s, ss, fin, w, t, ts, tot).
        length s + length (concat ss) + length ss + length ts)") (auto simp: Let_def)

definition to_ssize :: "nat \<Rightarrow> int" where
  "to_ssize n = sint (of_nat n :: 64 word)"

definition mpt_memcpy :: "int \<Rightarrow> block list \<Rightarrow> block list \<Rightarrow> int \<times> block list" where
  "mpt_memcpy len src dest = (case (src, dest) of
     (s # ss, t # ts) \<Rightarrow>
       (if len > 0 \<and> len > to_ssize (sum_list (map length src)) then (- 1, dest)
        else if len > 0 \<and> len > to_ssize (sum_list (map length dest)) then (- 2, dest)
        else let (tot, dest') = memcpy_loop len s ss [] [] t ts 0 in (int tot, dest'))
   | _ \<Rightarrow> (0, dest))"

subsection \<open>Tokens: \<open>memtok.c\<close>\<close>

definition isgraph :: "int \<Rightarrow> bool" where
  "isgraph c \<longleftrightarrow> 33 \<le> c \<and> c \<le> 126"

text \<open>The comment loop reads up to the next newline.  \<open>while (pos++ < len && *(++cur) != '\n')\<close> reads the
  byte behind the part when there is none: undefined.  \<open>Some None\<close> is the end of an empty part.\<close>

function skip_line :: "block \<Rightarrow> nat \<Rightarrow> nat option option" where
  "skip_line d pos =
     (if pos < length d then
        (if pos + 1 < length d then
           (if d ! (pos + 1) = 10 then Some (Some (pos + 1)) else skip_line d (pos + 1))
         else None)
      else Some None)"
  by pat_completeness auto
termination
  by (relation "measure (\<lambda>(d, pos). length d - pos)") auto

text \<open>The state of the search: parts to come, lengths of the parts before the current one, current
  part and position.\<close>

type_synonym tokpos = "block list \<times> nat list \<times> block \<times> nat"

fun memtok_comment :: "block list \<Rightarrow> nat list \<Rightarrow> block \<Rightarrow> nat \<Rightarrow> tokpos option option" where
  "memtok_comment rest seen d pos = do {
     r \<leftarrow> skip_line d pos;
     (case r of
        Some p \<Rightarrow> Some (Some (rest, seen, d, p))
      | None \<Rightarrow> (case rest of
            [] \<Rightarrow> Some None
          | d' # rest' \<Rightarrow> memtok_comment rest' (seen @ [length d]) d' 0)) }"

declare skip_line.simps [simp del] memtok_comment.simps [simp del]

text \<open>Progress of the comment loop, needed for the termination of the outer loop.\<close>

lemma skip_line_le: "skip_line d pos = Some (Some p) \<Longrightarrow> pos < p \<and> p < length d"
  by (induction d pos rule: skip_line.induct)
    (subst (asm) (2) skip_line.simps, auto split: if_splits)

lemma memtok_comment_less:
  "memtok_comment rest seen d pos = Some (Some (rest', seen', d', p)) \<Longrightarrow>
     p < length d' \<and>
     length (concat rest') + length rest' + (length d' - p) \<le>
       length (concat rest) + length rest + (length d - pos)"
proof (induction rest arbitrary: seen d pos)
  case Nil
  then show ?case
    by (auto simp: memtok_comment.simps [of "[]"] split: bind_splits option.splits dest!: skip_line_le)
next
  case (Cons c rest)
  from Cons.prems show ?case
    by (auto simp: memtok_comment.simps [of "c # rest"] split: bind_splits option.splits
        dest!: skip_line_le Cons.IH)
qed

text \<open>One pass of the outer loop per step; \<open>pos\<close> is the position after the increment.  \<open>Some None\<close> is
  the error return of an exhausted vector, \<open>None\<close> undefined behaviour.  In front of the token
  test \<open>match\<close> is always zero, so that the check for an unfinished escape behind the loop never
  holds.\<close>

function memtok_loop :: "block option \<Rightarrow> block \<Rightarrow> block \<Rightarrow> block list \<Rightarrow> nat list \<Rightarrow> block \<Rightarrow> nat \<Rightarrow> int \<Rightarrow> int
    \<Rightarrow> (nat list \<times> nat) option option" where
  "memtok_loop tok com esc rest seen d pos match prev =
     (if pos \<ge> length d then
        (case rest of
           [] \<Rightarrow> Some None
         | d' # rest' \<Rightarrow> memtok_loop tok com esc rest' (seen @ [length d]) d' 0 match prev)
      else
        (let c = d ! pos in
         if esc \<noteq> [] \<and> match \<noteq> 0 then
           memtok_loop tok com esc rest seen d (pos + 1)
             (if uint c = match \<and> prev \<noteq> 92 then 0 else match) (uint c)
         else if esc \<noteq> [] \<and> c \<in> set esc then
           memtok_loop tok com esc rest seen d (pos + 1) (uint c) prev
         else if com \<noteq> [] \<and> c \<in> set com \<and> isspace prev then
           (case tok of
              Some t \<Rightarrow> Some (Some (seen, pos))
            | None \<Rightarrow>
                (case memtok_comment rest seen d pos of
                   None \<Rightarrow> None
                 | Some None \<Rightarrow> Some None
                 | Some (Some (rest', seen', d', p)) \<Rightarrow>
                     (if \<not> isspace (uint (d' ! p)) then Some (Some (seen', p))
                      else memtok_loop tok com esc rest' seen' d' (p + 1) match (uint (d' ! p)))))
         else if (case tok of Some t \<Rightarrow> c \<in> set t | None \<Rightarrow> \<not> isspace (uint c)) then Some (Some (seen, pos))
         else memtok_loop tok com esc rest seen d (pos + 1) match (uint c)))"
  by pat_completeness auto
termination
  by (relation "measure (\<lambda>(tok, com, esc, rest, seen, d, pos, match, prev).
        length (concat rest) + length rest + (length d - pos))")
    (auto dest!: memtok_comment_less)

definition str_bytes :: "block option \<Rightarrow> block" where
  "str_bytes s = (case s of None \<Rightarrow> [] | Some xs \<Rightarrow> xs)"

text \<open>The strings are given without their terminating zero byte.\<close>

definition mpt_memtok :: "block list option \<Rightarrow> block option \<Rightarrow> block option \<Rightarrow> block option \<Rightarrow> int option" where
  "mpt_memtok data tok com esc = (case data of
     None \<Rightarrow> Some (- 1)
   | Some [] \<Rightarrow> Some (- 2)
   | Some (d # ds) \<Rightarrow>
       (case memtok_loop tok (str_bytes com) (str_bytes esc) ds [] d 0 0 32 of
          None \<Rightarrow> None
        | Some None \<Rightarrow> Some (- 2)
        | Some (Some (seen, pos)) \<Rightarrow> Some (pos_result (add_lens pos seen))))"

subsection \<open>Arguments: \<open>message_argv.c\<close>\<close>

definition nextChar :: "block \<Rightarrow> block list \<Rightarrow> int \<Rightarrow> int" where
  "nextChar cur cont match =
     (let part = mpt_memchr [cur] match in
      if part \<ge> 0 then part
      else let part = mpt_memchr cont match in
        if cont \<noteq> [] \<and> part \<ge> 0 then int (length cur) + part
        else int (length_loop (length cur) cont))"

definition notSpace :: "int \<Rightarrow> int" where
  "notSpace c = (if isspace c then 0 else 1)"

text \<open>The trim of leading space in the further parts: \<open>while ((size_t) part > cont->iov_len)\<close>.\<close>

fun argv_trim :: "nat \<Rightarrow> block list \<Rightarrow> (nat \<times> block list) option" where
  "argv_trim part [] = None"
| "argv_trim part (c # cs) = (if part > length c then argv_trim (part - length c) cs else Some (part, c # cs))"

definition white :: block where
  "white = [9, 32, 10, 13, 11]"

definition quotes :: block where
  "quotes = [39, 34]"

text \<open>The separator selection and search on the current part and the further parts.\<close>

definition argv_end :: "block \<Rightarrow> block list \<Rightarrow> int \<Rightarrow> int option" where
  "argv_end cur cont sep =
     (if \<not> isgraph sep then do {
        part \<leftarrow> mpt_memtok (Some [cur]) (Some white) None (Some quotes);
        (if part \<ge> 0 then Some part
         else if cont = [] then Some (nextChar cur cont 0)
         else do {
           part \<leftarrow> mpt_memtok (Some cont) (Some white) None (Some quotes);
           (if part \<ge> 0 then Some (int (length cur) + part) else Some (nextChar cur cont 0)) }) }
      else Some (nextChar cur cont sep))"

definition mpt_message_argv :: "message \<Rightarrow> int \<Rightarrow> (int \<times> message) option" where
  "mpt_message_argv msg sep =
     (let msg = message_skip (mbase msg) (mcont msg) in
      if mbase msg = [] then Some (MissingData, msg)
      else if sep = 0 then Some (nextChar (mbase msg) (mcont msg) sep, msg)
      else
        (let part = mpt_memfcn (Some [mbase msg]) (Some notSpace) in
         if part \<ge> 0 then
           (let cur = drop (nat part) (mbase msg) in do {
              r \<leftarrow> argv_end cur (mcont msg) sep;
              Some (r, msg\<lparr>mbase := cur\<rparr>) })
         else
           (let part = mpt_memfcn (Some (mcont msg)) (Some notSpace) in
            if part \<ge> 0 then do {
              (p, cont) \<leftarrow> argv_trim (nat part) (mcont msg);
              r \<leftarrow> argv_end (drop p (hd cont)) cont sep;
              Some (r, \<lparr>mbase = drop p (hd cont), mcont = cont\<rparr>) }
            else do {
              r \<leftarrow> argv_end (mbase msg) (mcont msg) sep;
              Some (r, msg) })))"

subsection \<open>Identifiers: \<open>message_id.c\<close>\<close>

text \<open>\<open>mpt_message_id2buf\<close>: the loop over the leading bytes; results are the rest of the identifier,
  the counter and the buffer.\<close>

fun id2buf_loop :: "nat \<Rightarrow> nat \<Rightarrow> int \<Rightarrow> block \<Rightarrow> (nat \<times> int \<times> block) option" where
  "id2buf_loop mid 0 used buf = Some (mid, used, buf)"
| "id2buf_loop mid (Suc len) used buf =
     (let mid = mid div 256 in do {
        buf \<leftarrow> wr buf len [of_nat mid];
        id2buf_loop mid len (if mid \<noteq> 0 then used + 1 else used) buf })"

definition mpt_message_id2buf :: "64 word \<Rightarrow> block \<Rightarrow> nat \<Rightarrow> (int \<times> block) option" where
  "mpt_message_id2buf mid buf len = (case len of
     0 \<Rightarrow> Some (if mid \<noteq> 0 then MissingBuffer else 0, buf)
   | Suc len \<Rightarrow> do {
       buf \<leftarrow> wr buf len [of_nat (unat mid)];
       (mid', used, buf) \<leftarrow> id2buf_loop (unat mid) len 1 buf;
       (if mid' \<noteq> 0 then Some (MissingBuffer, buf)
        else do {
          h \<leftarrow> rd buf 0 1;
          Some (if 128 \<le> unat (hd h) then BadValue else used, buf) }) })"

text \<open>\<open>mpt_message_buf2id\<close>: \<open>while (!--len)\<close> with the wrap-around of the counter.  The result is the
  return value and what is stored at \<open>iptr\<close>.\<close>

function buf2id_loop :: "block \<Rightarrow> nat \<Rightarrow> nat \<Rightarrow> 64 word \<Rightarrow> nat \<Rightarrow> int option" where
  "buf2id_loop buf p len mid used =
     (let len = usub len 1 in
      if len = 0 then do {
        v \<leftarrow> rd buf p 1;
        (let mid = mid * 256; used' = (if hd v \<noteq> 0 \<or> used \<noteq> 0 then used + 1 else used) in
         if used' \<noteq> used \<and> used' > 8 then Some BadValue
         else buf2id_loop buf (p + 1) len (or mid (ucast (hd v))) used') }
      else Some (int used))"
  by pat_completeness auto
termination
  by (relation "measure (\<lambda>(buf, p, len, mid, used). if usub len 1 = 0 then 1 else 0)")
    (auto simp: usub_def)

definition mpt_message_buf2id :: "block \<Rightarrow> nat \<Rightarrow> bool \<Rightarrow> (int \<times> 64 word option) option" where
  "mpt_message_buf2id buf len iptr =
     (if len = 0 then Some (0, if iptr then Some 0 else None)
      else do {
        v \<leftarrow> rd buf 0 1;
        r \<leftarrow> buf2id_loop buf 1 len (ucast (hd v)) (if hd v \<noteq> 0 then 1 else 0);
        Some (r, None) })"

subsection \<open>Messages in a queue: \<open>message_get.c\<close>\<close>

text \<open>The parts of the message are views of the queue's block: here their bytes.  The flag \<open>vec\<close> says
  that a second element is passed.  The message is left as it was on an error.\<close>

definition mpt_message_get :: "queue \<Rightarrow> nat \<Rightarrow> nat \<Rightarrow> message \<Rightarrow> bool \<Rightarrow> (int \<times> message) option" where
  "mpt_message_get qu off tak msg vec =
     (let low = snd (mpt_queue_data qu True); high = usub (qlen qu) low in
      if \<not> off < low \<and> off - low > high then Some (- 1, msg)
      else
        (let (base, low, high) = (if off < low then (qoff qu + off, low - off, high)
               else (off - low, high - (off - low), 0)) in
         if tak > low + high then Some (- 2, msg)
         else if tak \<le> low then do {
           b \<leftarrow> rd (qbase qu) base tak; Some (0, \<lparr>mbase = b, mcont = []\<rparr>) }
         else if \<not> vec then Some (- 3, msg)
         else do {
           b \<leftarrow> rd (qbase qu) base low;
           c \<leftarrow> rd (qbase qu) 0 (tak - low);
           Some (1, \<lparr>mbase = b, mcont = [c]\<rparr>) }))"

declare message_read_loop.simps [simp del] memcpy_loop.simps [simp del] memtok_loop.simps [simp del]
  buf2id_loop.simps [simp del]

section \<open>Specification\<close>

definition mdata :: "message \<Rightarrow> block" where
  "mdata msg = mbase msg @ concat (mcont msg)"

definition dest_ok :: "dest \<Rightarrow> nat \<Rightarrow> bool" where
  "dest_ok dest n \<longleftrightarrow> (case dest of None \<Rightarrow> True | Some (b, p) \<Rightarrow> p + n \<le> length b)"

fun first_pos :: "('a \<Rightarrow> bool) \<Rightarrow> 'a list \<Rightarrow> nat option" where
  "first_pos P [] = None"
| "first_pos P (x # xs) = (if P x then Some 0 else map_option Suc (first_pos P xs))"

fun last_pos :: "('a \<Rightarrow> bool) \<Rightarrow> 'a list \<Rightarrow> nat option" where
  "last_pos P [] = None"
| "last_pos P (x # xs) = (case last_pos P xs of Some k \<Rightarrow> Some (Suc k)
     | None \<Rightarrow> if P x then Some 0 else None)"

definition search_result :: "nat option \<Rightarrow> int" where
  "search_result r = (case r of None \<Rightarrow> - 2 | Some k \<Rightarrow> int k)"

text \<open>The token search on one list of bytes: escape state and last byte as in the source.\<close>

fun tok_scan :: "block \<Rightarrow> block \<Rightarrow> block \<Rightarrow> int \<Rightarrow> int \<Rightarrow> block \<Rightarrow> nat option" where
  "tok_scan t com esc match prev [] = None"
| "tok_scan t com esc match prev (c # xs) =
     (if esc \<noteq> [] \<and> match \<noteq> 0 then
        map_option Suc (tok_scan t com esc (if uint c = match \<and> prev \<noteq> 92 then 0 else match) (uint c) xs)
      else if c \<in> set esc then map_option Suc (tok_scan t com esc (uint c) prev xs)
      else if (c \<in> set com \<and> isspace prev) \<or> c \<in> set t then Some 0
      else map_option Suc (tok_scan t com esc match (uint c) xs))"

text \<open>An outcome of the token loop, as a position in the joined bytes.\<close>

definition tok_at :: "(nat list \<times> nat) option option \<Rightarrow> nat \<Rightarrow> nat option \<Rightarrow> bool" where
  "tok_at r n k = (case k of None \<Rightarrow> r = Some None
     | Some j \<Rightarrow> \<exists>seen p. r = Some (Some (seen, p)) \<and> sum_list seen + p = n + j)"

text \<open>How much a copy moves.\<close>

definition copy_size :: "int \<Rightarrow> block \<Rightarrow> block \<Rightarrow> nat" where
  "copy_size len s t = (if len < 0 then min (length s) (length t) else min (nat len) (min (length s) (length t)))"

text \<open>Bytes of a number, the most significant one first, and the number of its non-zero leading
  quotients.\<close>

fun be_bytes :: "nat \<Rightarrow> nat \<Rightarrow> block" where
  "be_bytes 0 v = []"
| "be_bytes (Suc n) v = be_bytes n (v div 256) @ [of_nat v]"

fun sig_count :: "nat \<Rightarrow> nat \<Rightarrow> int" where
  "sig_count 0 v = 0"
| "sig_count (Suc n) v = (if v div 256 \<noteq> 0 then 1 else 0) + sig_count n (v div 256)"

text \<open>Length up to a position, everything without one.\<close>

definition upto :: "nat option \<Rightarrow> block \<Rightarrow> int" where
  "upto r s = (case r of Some k \<Rightarrow> int k | None \<Rightarrow> int (length s))"

text \<open>The argument at the start of contents in one piece.\<close>

definition trim :: "block \<Rightarrow> block" where
  "trim s = (if list_all (\<lambda>x. isspace (uint x)) s then s else dropWhile (\<lambda>x. isspace (uint x)) s)"

definition arg_length :: "block \<Rightarrow> int \<Rightarrow> int" where
  "arg_length s sep =
     (if isgraph sep \<or> sep = 0 then upto (first_pos (\<lambda>x. x = word_of_int sep) s) s
      else case tok_scan white [] quotes 0 32 s of
          Some k \<Rightarrow> int k
        | None \<Rightarrow> upto (first_pos (\<lambda>x. x = 0) s) s)"

text \<open>The value of bytes with the most significant one first.\<close>

definition big_endian :: "block \<Rightarrow> nat" where
  "big_endian bs = foldl (\<lambda>v b. v * 256 + unat b) 0 bs"

text \<open>A reader of message bytes, as the clients of a message use it.\<close>

definition message_take :: "message \<Rightarrow> nat \<Rightarrow> (block \<times> message) option" where
  "message_take msg n = do {
     (r, msg', d) \<leftarrow> mpt_message_read msg n (Some (replicate n 0, 0));
     (case d of None \<Rightarrow> None | Some (b, p) \<Rightarrow> Some (take r b, msg')) }"

fun read_pieces :: "('s \<Rightarrow> nat \<Rightarrow> (block \<times> 's) option) \<Rightarrow> 's \<Rightarrow> nat list \<Rightarrow> (block list \<times> 's) option" where
  "read_pieces f s [] = Some ([], s)"
| "read_pieces f s (n # ns) = do {
     (b, s) \<leftarrow> f s n; (bs, s) \<leftarrow> read_pieces f s ns; Some (b # bs, s) }"

text \<open>The contract of a source of bytes: a request returns the leading bytes, as many as there are,
  and leaves the others.\<close>

locale byte_source =
  fixes contents :: "'s \<Rightarrow> block"
    and fetch :: "'s \<Rightarrow> nat \<Rightarrow> (block \<times> 's) option"
  assumes fetch_some: "\<exists>s'. fetch s n = Some (take n (contents s), s') \<and> contents s' = drop n (contents s)"
begin

lemma pieces:
  "\<exists>bs s'. read_pieces fetch s ns = Some (bs, s') \<and> concat bs = take (sum_list ns) (contents s)
     \<and> contents s' = drop (sum_list ns) (contents s)"
proof (induction ns arbitrary: s)
  case (Cons n ns)
  from fetch_some [of s n] obtain s1 where s1: "fetch s n = Some (take n (contents s), s1)"
    "contents s1 = drop n (contents s)" by blast
  from Cons.IH [of s1] obtain bs s' where "read_pieces fetch s1 ns = Some (bs, s')"
    "concat bs = take (sum_list ns) (contents s1)" "contents s' = drop (sum_list ns) (contents s1)" by blast
  with s1 show ?case by (simp add: take_add drop_drop ac_simps)
qed simp

lemma exhausted: "length (contents s) \<le> n \<Longrightarrow> fetch s n = Some (b, s') \<Longrightarrow> contents s' = []"
  using fetch_some [of s n] by auto

end

section \<open>Lemmas\<close>

subsection \<open>Reading\<close>

lemma wr_wr:
  assumes "wr b p xs = Some b'" and "p + length xs + length ys \<le> length b"
  shows "wr b' (p + length xs) ys = wr b p (xs @ ys)"
proof -
  from assms(2) split_at_two [of p "length xs" b] obtain u v w where
    b: "b = u @ v @ w" "length u = p" "length v = length xs" by auto
  with assms(2) split_at [of "length ys" w] obtain x y where w: "w = x @ y" "length x = length ys" by auto
  have "b' = u @ xs @ x @ y" using assms(1) wr_parts [of p u xs v w] b w by simp
  then have "wr b' (p + length xs) ys = Some (u @ xs @ ys @ y)"
    using wr_parts [of "p + length xs" "u @ xs" ys x y] b w by simp
  moreover have "wr b p (xs @ ys) = Some (u @ xs @ ys @ y)"
    using wr_parts [of p u "xs @ ys" "v @ x" y] b w by simp
  ultimately show ?thesis by simp
qed

lemma dest_put_total: "dest_ok dest (length xs) \<Longrightarrow> \<exists>d. dest_put dest xs = Some d"
  by (auto simp: dest_ok_def dest_put_def wr_def split: option.splits)

lemma dest_put_ok: "dest_put dest xs = Some d \<Longrightarrow> dest_ok d n = dest_ok dest (length xs + n)"
  by (auto simp: dest_ok_def dest_put_def wr_def split: option.splits if_splits)

lemma dest_put_put:
  "dest_put dest xs = Some d \<Longrightarrow> dest_ok dest (length xs + length ys) \<Longrightarrow> dest_put d ys = dest_put dest (xs @ ys)"
  by (auto simp: dest_put_def dest_ok_def wr_wr add.assoc split: option.splits bind_splits)

lemma dest_put_Nil [simp]: "dest_ok dest 0 \<Longrightarrow> dest_put dest [] = Some dest"
  by (auto simp: dest_put_def dest_ok_def split: option.splits)

lemma dest_ok_mono: "dest_ok dest n \<Longrightarrow> m \<le> n \<Longrightarrow> dest_ok dest m"
  by (auto simp: dest_ok_def split: option.splits)

lemma skip_data [simp]: "mdata (message_skip base cont) = base @ concat cont"
  by (induction base cont rule: message_skip.induct) (auto simp: mdata_def)

lemma skip_empty: "mbase (message_skip base cont) = [] \<Longrightarrow> mcont (message_skip base cont) = []"
  by (induction base cont rule: message_skip.induct) auto

lemma read_loop_ok:
  assumes "dest_ok dest (min len (length (base @ concat cont)))"
  shows "if length (base @ concat cont) < len
    then \<exists>d. dest_put dest (base @ concat cont) = Some d \<and> message_read_loop base cont len tot dest =
           Some (Inl (tot + length (base @ concat cont), \<lparr>mbase = [], mcont = []\<rparr>, d))
    else \<exists>c base' cont' len' d. base @ concat cont = c @ base' @ concat cont' \<and> len = length c + len'
           \<and> len' \<le> length base' \<and> dest_put dest c = Some d
           \<and> message_read_loop base cont len tot dest = Some (Inr (base', cont', len', tot + length c, d))"
  using assms
proof (induction cont arbitrary: base len tot dest)
  case Nil
  then obtain d where "length base < len \<Longrightarrow> dest_put dest base = Some d"
    using dest_put_total [of dest base] by (cases "length base < len") (auto simp: min_def)
  moreover have "dest_put dest [] = Some dest"
    by (rule dest_put_Nil) (rule dest_ok_mono [OF Nil], simp)
  ultimately show ?case
    by (auto simp: message_read_loop.simps intro!: exI [of _ "[]"])
next
  case (Cons b cont)
  have nil: "dest_put dest [] = Some dest"
    by (rule dest_put_Nil) (rule dest_ok_mono [OF Cons.prems], simp)
  show ?case
  proof (cases "length base < len")
    case False
    then show ?thesis using nil
      by (auto simp: message_read_loop.simps [of base] intro!: exI [of _ "[]"] exI [of _ base] exI [of _ "b # cont"])
  next
    case True
    have ok: "dest_ok dest (length base)"
      by (rule dest_ok_mono [OF Cons.prems]) (use True in auto)
    then obtain d where d: "dest_put dest base = Some d" using dest_put_total by blast
    have d': "(if base = [] then Some dest else dest_put dest base) = Some d" using d nil by auto
    have dok: "dest_ok d (min (len - length base) (length (b @ concat cont)))"
      unfolding dest_put_ok [OF d] by (rule dest_ok_mono [OF Cons.prems]) (use True in auto)
    have put: "dest_put d ys = dest_put dest (base @ ys)" if "length ys \<le> min (len - length base) (length (b @ concat cont))" for ys
      by (rule dest_put_put [OF d]) (rule dest_ok_mono [OF Cons.prems], use that True in auto)
    show ?thesis
    proof (cases "length (base @ concat (b # cont)) < len")
      case all: True
      then have "length (b @ concat cont) < len - length base" by auto
      with Cons.IH [OF dok, of "tot + length base"] put [of "b @ concat cont"] all True d' show ?thesis
        by (auto simp: message_read_loop.simps [of base])
    next
      case some: False
      then have "\<not> length (b @ concat cont) < len - length base" by auto
      with Cons.IH [OF dok, of "tot + length base"] obtain c base' cont' len' e where
        e: "b @ concat cont = c @ base' @ concat cont'" "len - length base = length c + len'"
          "len' \<le> length base'" "dest_put d c = Some e"
          "message_read_loop b cont (len - length base) (tot + length base) d =
             Some (Inr (base', cont', len', tot + length base + length c, e))" by auto
      moreover have "dest_put dest (base @ c) = Some e"
        using put [of c] e(2,4) arg_cong [OF e(1), of length] by auto
      ultimately show ?thesis using some True d'
        by (auto simp: message_read_loop.simps [of base] intro!: exI [of _ "base @ c"])
    qed
  qed
qed

lemma read_ok:
  assumes "dest_ok dest (min len (length (mdata msg)))"
  shows "\<exists>msg' d. mpt_message_read msg len dest = Some (min len (length (mdata msg)), msg', d)
           \<and> dest_put dest (take len (mdata msg)) = Some d
           \<and> mdata msg' = drop len (mdata msg) \<and> (mbase msg' = [] \<longrightarrow> mcont msg' = [])"
proof (cases "length (mdata msg) < len")
  case True
  with read_loop_ok [of dest len "mbase msg" "mcont msg" 0] assms show ?thesis
    by (auto simp: mpt_message_read_def mdata_def min_def)
next
  case False
  with read_loop_ok [of dest len "mbase msg" "mcont msg" 0] assms obtain c base' cont' len' d where
    r: "mbase msg @ concat (mcont msg) = c @ base' @ concat cont'" "len = length c + len'"
      "len' \<le> length base'" "dest_put dest c = Some d"
      "message_read_loop (mbase msg) (mcont msg) len 0 dest = Some (Inr (base', cont', len', length c, d))"
    by (auto simp: mdata_def)
  have ok: "dest_ok dest (length c + len')" using assms False r(2) by (simp add: min_def)
  have p: "dest_put d (take len' base') = dest_put dest (c @ take len' base')"
    by (rule dest_put_put [OF r(4)]) (use ok r(3) in simp)
  obtain e where e: "dest_put dest (c @ take len' base') = Some e"
    using dest_put_total [of dest "c @ take len' base'"] ok r(3) by auto
  have "(if len' = 0 then Some d else dest_put d (take len' base')) = Some e"
    using p e r(4) by auto
  moreover have "mdata (message_skip (drop len' base') cont') = drop len (mdata msg)"
    using r(1-3) by (simp add: mdata_def [of msg])
  moreover have "take len (mdata msg) = c @ take len' base'" using r(1-3) by (simp add: mdata_def)
  ultimately show ?thesis using r(2,5) e False skip_empty [of "drop len' base'" cont']
    by (auto simp: mpt_message_read_def)
qed

lemma message_take_ok:
  "\<exists>msg'. message_take msg n = Some (take n (mdata msg), msg') \<and> mdata msg' = drop n (mdata msg)"
proof -
  have ok: "dest_ok (Some (replicate n 0, 0)) (min n (length (mdata msg)))" by (simp add: dest_ok_def)
  from read_ok [OF ok] show ?thesis
    by (auto simp: message_take_def dest_put_def wr_def min_def split: if_splits)
qed

interpretation msg: byte_source mdata message_take
  by unfold_locales (rule message_take_ok)

lemma length_loop_sum: "length_loop n vs = n + length (concat vs)"
  by (induction n vs rule: length_loop.induct) simp_all

subsection \<open>Searching\<close>

lemma first_pos_append:
  "first_pos P (xs @ ys) = (case first_pos P xs of Some k \<Rightarrow> Some k
     | None \<Rightarrow> map_option ((+) (length xs)) (first_pos P ys))"
  by (induction xs) (cases "first_pos P ys"; auto split: option.splits)+

lemma last_pos_append:
  "last_pos P (xs @ ys) = (case last_pos P ys of Some k \<Rightarrow> Some (length xs + k) | None \<Rightarrow> last_pos P xs)"
  by (induction xs) (auto split: option.splits)

lemma first_pos_less: "first_pos P xs = Some k \<Longrightarrow> k < length xs"
  by (induction xs arbitrary: k) (auto split: if_splits)

lemma last_pos_less: "last_pos P xs = Some k \<Longrightarrow> k < length xs"
  by (induction xs arbitrary: k) (auto split: if_splits option.splits)

lemma first_pos_None: "first_pos P xs = None \<longleftrightarrow> (\<forall>x\<in>set xs. \<not> P x)"
  by (induction xs) auto

lemma memchr_first: "memchr_c xs c = first_pos (\<lambda>x. x = c) xs"
proof (induction xs)
  case (Cons x xs)
  from Cons [symmetric] show ?case by (auto simp: memchr_c_def)
qed (simp add: memchr_c_def)

lemma scan_up_first: "scan_up P d pos = map_option (\<lambda>k. pos + k + 1) (first_pos P d)"
  by (induction P d pos rule: scan_up.induct) (auto simp: option.map_comp comp_def)

lemma scan_down_take: "n \<le> length d \<Longrightarrow> scan_down P d n = last_pos P (take n d)"
  by (induction n) (auto simp: take_Suc_conv_app_nth last_pos_append min_def split: option.splits)

lemma scan_down_last: "scan_down P d (length d) = last_pos P d"
  by (simp add: scan_down_take)

lemma add_lens_ok: "n + sum_list ls \<le> SSIZE_MAX \<Longrightarrow> add_lens n ls = Some (n + sum_list ls)"
  by (induction n ls rule: add_lens.induct) auto

lemma memchr_loop_first:
  "sum_list seen + length (concat ds) \<le> SSIZE_MAX \<Longrightarrow>
   memchr_loop tok seen ds = search_result (map_option ((+) (sum_list seen)) (first_pos (\<lambda>x. x = tok) (concat ds)))"
proof (induction tok seen ds rule: memchr_loop.induct)
  case (2 tok seen d ds)
  show ?case
  proof (cases "first_pos (\<lambda>x. x = tok) d")
    case None
    then have n: "(if d = [] then None else memchr_c d tok) = None" by (simp add: memchr_first)
    show ?thesis using 2(1) [OF n] 2(2) None n
      by (cases "first_pos (\<lambda>x. x = tok) (concat ds)") (simp_all add: first_pos_append ac_simps)
  next
    case (Some k)
    moreover from this have "k < length d" by (rule first_pos_less)
    ultimately show ?thesis using 2(2)
      by (auto simp: memchr_first first_pos_append add_lens_ok pos_result_def search_result_def)
  qed
qed (simp add: search_result_def)

lemma memfcn_loop_first:
  "sum_list seen + length (concat ds) \<le> SSIZE_MAX \<Longrightarrow>
   memfcn_loop fcn seen ds =
     search_result (map_option ((+) (sum_list seen)) (first_pos (\<lambda>x. fcn (uint x) \<noteq> 0) (concat ds)))"
proof (induction fcn seen ds rule: memfcn_loop.induct)
  case (2 fcn seen d ds)
  show ?case
  proof (cases "first_pos (\<lambda>x. fcn (uint x) \<noteq> 0) d")
    case None
    then show ?thesis using 2
      by (cases "first_pos (\<lambda>x. fcn (uint x) \<noteq> 0) (concat ds)") (simp_all add: scan_up_first first_pos_append ac_simps)
  next
    case (Some k)
    moreover from this have "k < length d" by (rule first_pos_less)
    ultimately show ?thesis using 2(2)
      by (auto simp: scan_up_first first_pos_append add_lens_ok search_result_def)
  qed
qed (simp add: search_result_def)

lemma memrchr_loop_last:
  "length (concat ds) \<le> SSIZE_MAX \<Longrightarrow>
   memrchr_loop tok ds = search_result (last_pos (\<lambda>x. x = tok) (concat (rev ds)))"
proof (induction tok ds rule: memrchr_loop.induct)
  case (2 tok d ds)
  then show ?case using last_pos_less [of "\<lambda>x. x = tok" d]
    by (auto simp: scan_down_last last_pos_append add_lens_ok pos_result_def search_result_def
        length_concat rev_map [symmetric] sum_list.rev split: option.splits)
qed (simp add: search_result_def)

lemma memrfcn_loop_last:
  "length (concat ds) \<le> SSIZE_MAX \<Longrightarrow>
   memrfcn_loop fcn ds = search_result (last_pos (\<lambda>x. fcn (uint x) \<noteq> 0) (concat (rev ds)))"
proof (induction fcn ds rule: memrfcn_loop.induct)
  case (2 fcn d ds)
  then show ?case using last_pos_less [of "\<lambda>x. fcn (uint x) \<noteq> 0" d]
    by (auto simp: scan_down_last last_pos_append add_lens_ok pos_result_def search_result_def
        length_concat rev_map [symmetric] sum_list.rev split: option.splits)
qed (simp add: search_result_def)

lemma map_option_plus_0 [simp]: "map_option ((+) (0::nat)) r = r"
  by (cases r) simp_all

lemma memchr_pos:
  "length (concat ds) \<le> SSIZE_MAX \<Longrightarrow> mpt_memchr ds tok = search_result (first_pos (\<lambda>x. x = word_of_int tok) (concat ds))"
  using memchr_loop_first [of "[]" ds "word_of_int tok"] by (simp add: mpt_memchr_def)

lemma memrchr_pos:
  "length (concat ds) \<le> SSIZE_MAX \<Longrightarrow> mpt_memrchr ds tok = search_result (last_pos (\<lambda>x. x = word_of_int tok) (concat ds))"
  using memrchr_loop_last [of "rev ds" "word_of_int tok"]
  by (simp add: mpt_memrchr_def length_concat rev_map [symmetric] sum_list.rev)

lemma memfcn_pos:
  "length (concat ds) \<le> SSIZE_MAX \<Longrightarrow> mpt_memfcn (Some ds) (Some fcn) = search_result (first_pos (\<lambda>x. fcn (uint x) \<noteq> 0) (concat ds))"
  using memfcn_loop_first [of "[]" ds fcn] by (simp add: mpt_memfcn_def)

lemma memrfcn_pos:
  "length (concat ds) \<le> SSIZE_MAX \<Longrightarrow> mpt_memrfcn (Some ds) (Some fcn) = search_result (last_pos (\<lambda>x. fcn (uint x) \<noteq> 0) (concat ds))"
  using memrfcn_loop_last [of "rev ds" fcn]
  by (simp add: mpt_memrfcn_def length_concat rev_map [symmetric] sum_list.rev)

lemma memchr_wrap_iff: "memchr_wrap m (uint x) \<noteq> 0 \<longleftrightarrow> x \<in> set m"
  by (simp add: memchr_wrap_def memchr_c_def)

lemmas search_pos = memchr_pos memrchr_pos memfcn_pos memrfcn_pos

subsection \<open>Copying\<close>

lemma copy_size_nat: "copy_size (int l) s t = min l (min (length s) (length t))"
  by (simp add: copy_size_def)

lemma min_step:
  "(c::nat) \<le> a \<Longrightarrow> c \<le> b \<Longrightarrow> c \<le> l \<Longrightarrow>
   min l (min (a + x) (b + y)) = c + min (l - c) (min (a - c + x) (b - c + y))"
  by (simp add: min_add_distrib_right)

lemma memcpy_loop_ok:
  "memcpy_loop len s ss fin w t ts tot = (n, d) \<Longrightarrow>
     (let k = copy_size len (s @ concat ss) (t @ concat ts) in
      n = tot + k \<and> concat d = concat fin @ w @ take k (s @ concat ss) @ drop k (t @ concat ts)
      \<and> map length d = map length (fin @ (w @ t) # ts))"
proof (induction len s ss fin w t ts tot rule: memcpy_loop.induct)
  case (1 len s ss fin w t ts tot)
  consider (fin) "len = 0" | (src) "len \<noteq> 0" "s = []" | (dst) "len \<noteq> 0" "s \<noteq> []" "t = []"
    | (copy) "len \<noteq> 0" "s \<noteq> []" "t \<noteq> []" by auto
  then show ?case
  proof cases
    case fin
    with "1.prems" show ?thesis by (auto simp: memcpy_loop.simps [of 0] copy_size_def Let_def)
  next
    case src
    with "1.prems" 1(1) show ?thesis
      by (cases ss) (auto simp: memcpy_loop.simps [of len] copy_size_def Let_def)
  next
    case dst
    with "1.prems" 1(2) show ?thesis
      by (cases ts) (auto simp: memcpy_loop.simps [of len] copy_size_def Let_def)
  next
    case copy
    define c where "c = copy_size len s t"
    have c: "(let copy = (if 0 < len \<and> nat len \<le> length s then nat len else length s)
        in if length t < copy then length t else copy) = c"
      using copy by (auto simp: c_def copy_size_def Let_def min_def)
    have step: "memcpy_loop (len - int c) (drop c s) ss fin (w @ take c s) (drop c t) ts (tot + c) = (n, d)"
      using "1.prems" copy c by (simp add: memcpy_loop.simps [of len s] Let_def)
    have le: "c \<le> length s" "c \<le> length t" "0 < len \<Longrightarrow> int c \<le> len" by (auto simp: c_def copy_size_def)
    have k: "copy_size len (s @ concat ss) (t @ concat ts)
       = c + copy_size (len - int c) (drop c s @ concat ss) (drop c t @ concat ts)"
    proof (cases "len < 0")
      case True
      then show ?thesis by (simp add: c_def copy_size_def)
    next
      case False
      then obtain l where "len = int l" by (metis nonneg_int_cases not_less)
      moreover from this have "len - int c = int (l - c)" using le(3) copy by auto
      moreover have "c \<le> l" using le(3) copy calculation(1) by auto
      ultimately show ?thesis using min_step [of c "length s" "length t" l] le(1,2)
        by (simp only: copy_size_nat) simp
    qed
    define k' where "k' = copy_size (len - int c) (drop c s @ concat ss) (drop c t @ concat ts)"
    have c': "(if length t < (if 0 < len \<and> nat len \<le> length s then nat len else length s) then length t
        else (if 0 < len \<and> nat len \<le> length s then nat len else length s)) = c"
      using c by (simp add: Let_def)
    note ih = 1(3) [OF copy refl refl, unfolded c', OF step, unfolded k'_def [symmetric] Let_def]
    have "drop c (t @ concat ts) = drop c t @ concat ts" using le(2) by simp
    then have dr: "drop (c + k') (t @ concat ts) = drop k' (drop c t @ concat ts)"
      by (metis add.commute drop_drop)
    have ta: "take (c + k') (s @ concat ss) = take c s @ take k' (drop c s @ concat ss)"
      using le(1) by (simp add: take_add add.commute)
    show ?thesis unfolding k k'_def [symmetric] Let_def ta dr using ih le(1,2) by simp
  qed
qed

lemma to_ssize_id: "n \<le> SSIZE_MAX \<Longrightarrow> to_ssize n = int n"
proof -
  assume "n \<le> SSIZE_MAX"
  then have "int n < 2 ^ 63" by simp
  moreover have "(of_nat n :: 64 word) = word_of_int (int n)" by simp
  ultimately show ?thesis
    unfolding to_ssize_def by (simp only: sint_sbintrunc') (simp add: signed_take_bit_int_eq_self)
qed

subsection \<open>Tokens\<close>

lemma tok_at_Suc: "tok_at r n (map_option Suc k) = tok_at r (Suc n) k"
  by (auto simp: tok_at_def split: option.splits)

lemma memtok_loop_step:
  assumes "pos < length d"
  shows "memtok_loop (Some t) com esc rest seen d pos match prev =
    (if esc \<noteq> [] \<and> match \<noteq> 0 then
       memtok_loop (Some t) com esc rest seen d (Suc pos)
         (if uint (d ! pos) = match \<and> prev \<noteq> 92 then 0 else match) (uint (d ! pos))
     else if d ! pos \<in> set esc then memtok_loop (Some t) com esc rest seen d (Suc pos) (uint (d ! pos)) prev
     else if (d ! pos \<in> set com \<and> isspace prev) \<or> d ! pos \<in> set t then Some (Some (seen, pos))
     else memtok_loop (Some t) com esc rest seen d (Suc pos) match (uint (d ! pos)))"
  using assms by (subst memtok_loop.simps) (auto simp: Let_def)

lemma memtok_loop_scan:
  assumes "pos \<le> length d"
  shows "tok_at (memtok_loop (Some t) com esc rest seen d pos match prev) (sum_list seen + pos)
    (tok_scan t com esc match prev (drop pos d @ concat rest))"
  using assms
proof (induction "Some t" com esc rest seen d pos match prev rule: memtok_loop.induct)
  case (1 com esc rest seen d pos match prev)
  show ?case
  proof (cases "pos < length d")
    case False
    with 1(1) 1(6) show ?thesis
      by (cases rest) (simp_all add: memtok_loop.simps [of _ _ _ _ seen d] tok_at_def)
  next
    case True
    then have d: "drop pos d = d ! pos # drop (Suc pos) d" by (simp add: Cons_nth_drop_Suc)
    have ge: "\<not> length d \<le> pos" using True by simp
    let ?esc = "esc \<noteq> [] \<and> match \<noteq> 0" and ?mark = "d ! pos \<in> set esc"
    let ?hit = "(d ! pos \<in> set com \<and> isspace prev) \<or> d ! pos \<in> set t"
    note step = memtok_loop_step [OF True] d append_Cons tok_scan.simps if_True if_False tok_at_Suc
      Suc_eq_plus1 add.assoc
    consider (esc) "?esc = True" | (mark) "?esc = False" "?mark = True"
      | (hit) "?esc = False" "?mark = False" "?hit = True"
      | (none) "?esc = False" "?mark = False" "?hit = False" by argo
    then show ?thesis
    proof cases
      case esc
      with 1(2) [OF ge refl] True show ?thesis by (simp only: step)
    next
      case mark
      then have "esc \<noteq> []" by auto
      with 1(3) [OF ge refl] mark True show ?thesis by (simp only: step) simp
    next
      case hit
      then show ?thesis by (simp only: step) (simp add: tok_at_def)
    next
      case none
      then have "\<not> (com \<noteq> [] \<and> d ! pos \<in> set com \<and> isspace prev)" by blast
      with 1(5) [OF ge refl] none True show ?thesis by (simp only: step) simp
    qed
  qed
qed

lemma tok_scan_less: "tok_scan t com esc match prev xs = Some k \<Longrightarrow> k < length xs"
  by (induction t com esc match prev xs arbitrary: k rule: tok_scan.induct) (auto split: if_splits)

lemma memtok_joined_ok:
  assumes "length (concat data) \<le> SSIZE_MAX"
  shows "mpt_memtok (Some data) (Some t) com esc =
    Some (search_result (tok_scan t (str_bytes com) (str_bytes esc) 0 32 (concat data)))"
proof (cases data)
  case (Cons d ds)
  let ?s = "tok_scan t (str_bytes com) (str_bytes esc) 0 32 (concat data)"
  from memtok_loop_scan [of 0 d t "str_bytes com" "str_bytes esc" ds "[]" 0 32] Cons
  have at: "tok_at (memtok_loop (Some t) (str_bytes com) (str_bytes esc) ds [] d 0 0 32) 0 ?s" by simp
  show ?thesis
  proof (cases ?s)
    case None
    then show ?thesis using at Cons by (simp add: tok_at_def mpt_memtok_def search_result_def)
  next
    case (Some k)
    with at obtain seen p where "memtok_loop (Some t) (str_bytes com) (str_bytes esc) ds [] d 0 0 32 = Some (Some (seen, p))"
      "sum_list seen + p = k" by (auto simp: tok_at_def)
    moreover have "k \<le> SSIZE_MAX" using tok_scan_less [OF Some] assms by simp
    ultimately show ?thesis using Some Cons add_lens_ok [of p seen]
      by (simp add: mpt_memtok_def search_result_def pos_result_def add.commute)
  qed
qed (simp add: mpt_memtok_def search_result_def)

lemma tok_scan_plain: "tok_scan t [] [] match prev xs = first_pos (\<lambda>x. x \<in> set t) xs"
  by (induction xs arbitrary: prev) auto

subsection \<open>Arguments\<close>

lemma search_result_ge: "search_result r \<ge> 0 \<longleftrightarrow> r \<noteq> None"
  by (auto simp: search_result_def split: option.splits)

lemma nextChar_single:
  assumes "length s \<le> SSIZE_MAX"
  shows "nextChar s [] match = upto (first_pos (\<lambda>x. x = word_of_int match) s) s"
  using memchr_pos [of "[s]" match] assms
  by (auto simp: nextChar_def search_result_ge Let_def upto_def length_loop_sum search_result_def split: option.splits)

lemma argv_end_single:
  assumes "length s \<le> SSIZE_MAX" and "sep \<noteq> 0"
  shows "argv_end s [] sep = Some (arg_length s sep)"
proof -
  have "mpt_memtok (Some [s]) (Some white) None (Some quotes) = Some (search_result (tok_scan white [] quotes 0 32 s))"
    using memtok_joined_ok [of "[s]" white None "Some quotes"] assms by (simp add: str_bytes_def)
  then show ?thesis using assms nextChar_single [OF assms(1)]
    by (auto simp: argv_end_def arg_length_def search_result_ge search_result_def split: option.splits)
qed

lemma first_pos_dropWhile: "first_pos P xs = Some k \<Longrightarrow> drop k xs = dropWhile (\<lambda>x. \<not> P x) xs"
  by (induction xs arbitrary: k) (auto split: if_splits)

lemma argv_single_ok:
  assumes "length s \<le> SSIZE_MAX" and "s \<noteq> []" and "sep \<noteq> 0"
  shows "mpt_message_argv \<lparr>mbase = s, mcont = []\<rparr> sep =
    Some (arg_length (trim s) sep, \<lparr>mbase = trim s, mcont = []\<rparr>)"
proof -
  let ?P = "\<lambda>x :: byte. notSpace (uint x) \<noteq> 0"
  have P: "?P x \<longleftrightarrow> \<not> isspace (uint x)" for x by (simp add: notSpace_def)
  have m: "mpt_memfcn (Some [s]) (Some notSpace) = search_result (first_pos ?P s)"
    using memfcn_pos [of "[s]" notSpace] assms(1) by simp
  have skip: "message_skip s [] = \<lparr>mbase = s, mcont = []\<rparr>" by (cases s) simp_all
  show ?thesis
  proof (cases "first_pos ?P s")
    case None
    then have t: "trim s = s" by (auto simp: trim_def first_pos_None P list_all_iff)
    have "mpt_memfcn (Some []) (Some notSpace) = - 2" by (simp add: mpt_memfcn_def)
    with None m t skip assms show ?thesis
      by (simp add: mpt_message_argv_def argv_end_single search_result_def)
  next
    case (Some k)
    then have "drop k s = dropWhile (\<lambda>x. isspace (uint x)) s"
      using first_pos_dropWhile [of ?P s k] by (simp add: P)
    moreover have "\<not> list_all (\<lambda>x. isspace (uint x)) s"
      using Some first_pos_None [of ?P s] by (auto simp: P list_all_iff)
    ultimately have t: "trim s = drop k s" by (simp add: trim_def)
    show ?thesis using Some m t skip assms
      by (simp add: mpt_message_argv_def argv_end_single search_result_def Let_def)
  qed
qed

subsection \<open>Identifiers\<close>

lemma length_be_bytes [simp]: "length (be_bytes n v) = n"
  by (induction n v rule: be_bytes.induct) simp_all

lemma big_endian_snoc: "big_endian (xs @ [x]) = big_endian xs * 256 + unat x"
  by (simp add: big_endian_def)

lemma big_endian_be_bytes: "big_endian (be_bytes n v) = v mod 256 ^ n"
proof (induction n v rule: be_bytes.induct)
  case (2 n v)
  have "v mod (256 * 256 ^ n) = 256 * (v div 256 mod 256 ^ n) + v mod 256" by (simp add: mod_mult2_eq)
  then show ?case using 2 by (simp add: big_endian_snoc unat_of_nat)
qed (simp add: big_endian_def)

lemma be_bytes_zero: "v div 256 ^ n = 0 \<Longrightarrow> hd (be_bytes (Suc n) v) = 0"
proof (induction n arbitrary: v)
  case (Suc n)
  from Suc.prems have "v div 256 div 256 ^ n = 0" by (simp add: div_mult2_eq)
  with Suc.IH have "hd (be_bytes (Suc n) (v div 256)) = 0" by blast
  moreover have "be_bytes (Suc n) (v div 256) \<noteq> []" by (simp flip: length_greater_0_conv)
  ultimately show ?case by (simp only: be_bytes.simps(2) [of "Suc n"] hd_append if_False)
qed simp

lemma id2buf_loop_ok:
  "n \<le> length buf \<Longrightarrow>
   id2buf_loop v n used buf = Some (v div 256 ^ n, used + sig_count n v, be_bytes n (v div 256) @ drop n buf)"
proof (induction v n used buf rule: id2buf_loop.induct)
  case (2 v len used buf)
  from 2(2) split_at_two [of len 1 buf] obtain a b c where
    b: "buf = a @ b @ c" "length a = len" "length b = 1" by auto
  have w: "wr buf len [of_nat (v div 256)] = Some (a @ [of_nat (v div 256)] @ c)"
    unfolding b(1) by (rule wr_parts) (use b in simp_all)
  have "id2buf_loop v (Suc len) used buf =
      id2buf_loop (v div 256) len (if v div 256 \<noteq> 0 then used + 1 else used) (a @ [of_nat (v div 256)] @ c)"
    by (simp add: w Let_def del: append_Cons append.simps)
  moreover have "drop (Suc len) buf = c" using b by simp
  ultimately show ?case using 2(1) [OF refl w] b(2) by (simp add: div_mult2_eq)
qed simp

lemma id2buf_ok:
  assumes "0 < len" and "len \<le> length buf"
  shows "mpt_message_id2buf v buf len =
    Some (if unat v < 256 ^ (len - 1) then 1 + sig_count (len - 1) (unat v) else MissingBuffer,
      be_bytes len (unat v) @ drop len buf)"
proof -
  define u where "u = unat v"
  from assms obtain n where n: "len = Suc n" by (cases len) auto
  from assms(2) n split_at_two [of n 1 buf] obtain a b c where
    b: "buf = a @ b @ c" "length a = n" "length b = 1" by auto
  have w: "wr buf n [of_nat u] = Some (a @ [of_nat u] @ c)"
    unfolding b(1) by (rule wr_parts) (use b in simp_all)
  have res: "be_bytes n (u div 256) @ [of_nat u] @ c = be_bytes len u @ drop len buf"
    using b n by simp
  have hd: "rd (be_bytes len u @ drop len buf) 0 1 = Some [0]" if "u div 256 ^ n = 0"
  proof -
    note z = be_bytes_zero [OF that]
    obtain bs where "be_bytes len u = 0 # bs"
      using z n length_be_bytes [of len u] by (cases "be_bytes len u") auto
    then show ?thesis by (simp add: rd_def)
  qed
  have lp: "id2buf_loop u n 1 (a @ [of_nat u] @ c) = Some (u div 256 ^ n, 1 + sig_count n u, be_bytes len u @ drop len buf)"
    using id2buf_loop_ok [of n "a @ [of_nat u] @ c" u 1] b res by simp
  show ?thesis using hd
    by (simp add: mpt_message_id2buf_def n div_eq_0_iff flip: u_def) (simp add: w lp [simplified] div_eq_0_iff n)
qed

subsection \<open>Messages in a queue\<close>

lemma get_view:
  assumes wf: "queue_wf q" and n: "off + n \<le> qlen q" "0 < n"
  shows "\<exists>r msg'. mpt_message_get q off n msg True = Some (r, msg')
     \<and> mdata msg' = take n (drop off (qdata q)) \<and> r = int (length (mcont msg')) \<and> r \<le> 1"
proof -
  define low where "low = min (qlen q) (qmax q - qoff q)"
  have low: "snd (mpt_queue_data q True) = low" "low \<le> qlen q" using queue_low [OF wf] by (simp_all add: low_def)
  have m: "qlen q \<le> qmax q" "qoff q \<le> qmax q" using wf by (simp_all add: queue_wf_def)
  consider (first) "off < low" "n \<le> low - off" | (both) "off < low" "\<not> n \<le> low - off" | (second) "\<not> off < low" by blast
  then show ?thesis
  proof cases
    case first
    then have "off + n \<le> qmax q - qoff q" unfolding low_def by linarith
    moreover from this have "qoff q + off < qmax q" using n(2) by linarith
    ultimately have "rd (qbase q) (qoff q + off) n = Some (take n (drop off (qdata q)))"
      using rd_qdata [OF wf n(1)] n m by (simp add: ring_off_def)
    then show ?thesis using first low n by (simp add: mpt_message_get_def mdata_def)
  next
    case both
    then have l: "low = qmax q - qoff q" "low < qlen q" using n by (auto simp: low_def)
    have "rd (qbase q) (qoff q + off) (low - off) = Some (take (low - off) (drop off (qdata q)))"
      using rd_qdata [OF wf, of off "low - off"] both n m l by (simp add: ring_off_def)
    moreover have "rd (qbase q) 0 (n - (low - off)) = Some (take (n - (low - off)) (drop low (qdata q)))"
      using rd_qdata [OF wf, of low "n - (low - off)"] both n m l by (simp add: ring_off_def)
    moreover have "take n (drop off (qdata q)) = take (low - off) (drop off (qdata q)) @ take (n - (low - off)) (drop low (qdata q))"
      using take_add [of "low - off" "n - (low - off)" "drop off (qdata q)"] both by simp
    ultimately show ?thesis using both low n by (simp add: mpt_message_get_def mdata_def)
  next
    case second
    then have l: "low = qmax q - qoff q" using n by (auto simp: low_def)
    have "ring_off (qmax q) (qoff q) off = off - low" using second m l by (auto simp: ring_off_def)
    then have "rd (qbase q) (off - low) n = Some (take n (drop off (qdata q)))"
      using rd_qdata [OF wf n(1)] second n l by simp
    moreover have "\<not> qlen q - low < off - low" "n \<le> qlen q - low - (off - low)" using second n by auto
    ultimately show ?thesis using second low n(2) by (simp add: mpt_message_get_def mdata_def Let_def)
  qed
qed

section \<open>Properties\<close>

text \<open>Property C24: \<open>mpt_message_read\<close> consumes the leading bytes of the joined parts, as many as were
  asked for and are there, returns their number, copies them to the destination when there is one,
  and leaves a message of the other bytes that starts with a non-empty part or is empty.\<close>

theorem message_read_splits:
  assumes "dest_ok dest (min len (length (mdata msg)))"
  shows "\<exists>msg' d. mpt_message_read msg len dest = Some (min len (mpt_message_length msg), msg', d)
           \<and> dest_put dest (take len (mdata msg)) = Some d
           \<and> mdata msg' = drop len (mdata msg) \<and> (mbase msg' = [] \<longrightarrow> mcont msg' = [])"
  using read_ok [OF assms] by (simp add: mpt_message_length_def length_loop_sum mdata_def)

theorem message_read_splits_witness:
  "\<exists>msg' d. mpt_message_read \<lparr>mbase = [1], mcont = [[], [2, 3]]\<rparr> 2 (Some ([0, 0, 0], 1)) = Some (2, msg', d)
     \<and> mdata msg' = [3]"
  using message_read_splits [of "Some ([0, 0, 0], 1)" 2 "\<lparr>mbase = [1], mcont = [[], [2, 3]]\<rparr>"]
  by (auto simp: dest_ok_def mdata_def mpt_message_length_def)

text \<open>A message read in pieces of any sizes gives the same bytes as one read of the sum of
  the sizes, and leaves the same bytes, however they are distributed on the parts.\<close>

theorem message_read_pieces:
  "\<exists>bs msg'. read_pieces message_take msg ns = Some (bs, msg')
     \<and> concat bs = take (sum_list ns) (mdata msg) \<and> mdata msg' = drop (sum_list ns) (mdata msg)"
  by (rule msg.pieces)

text \<open>Property C25: the forward searches \<open>mpt_memchr\<close>, \<open>mpt_memfcn\<close> and \<open>mpt_memstr\<close> return the
  first and the backward searches \<open>mpt_memrchr\<close>, \<open>mpt_memrfcn\<close> and \<open>mpt_memrstr\<close> the last
  matching position in the joined parts, and -2 when no byte matches.  More token bytes than the caller has are
  undefined behaviour.\<close>

theorem memsearch_positions:
  assumes "length (concat data) \<le> SSIZE_MAX" and "0 < mlen"
  shows "mpt_memchr data tok = search_result (first_pos (\<lambda>x. x = word_of_int tok) (concat data))
    \<and> mpt_memrchr data tok = search_result (last_pos (\<lambda>x. x = word_of_int tok) (concat data))
    \<and> mpt_memfcn (Some data) (Some fcn) = search_result (first_pos (\<lambda>x. fcn (uint x) \<noteq> 0) (concat data))
    \<and> mpt_memrfcn (Some data) (Some fcn) = search_result (last_pos (\<lambda>x. fcn (uint x) \<noteq> 0) (concat data))
    \<and> mpt_memstr (Some data) (Some m) mlen = (if mlen \<le> length m
        then Some (search_result (first_pos (\<lambda>x. x \<in> set (take mlen m)) (concat data))) else None)
    \<and> mpt_memrstr (Some data) (Some m) mlen = (if mlen \<le> length m
        then Some (search_result (last_pos (\<lambda>x. x \<in> set (take mlen m)) (concat data))) else None)"
  using assms search_pos [of data] by (simp add: mpt_memstr_def mpt_memrstr_def memchr_wrap_iff rd_def)

theorem memsearch_positions_witness:
  "mpt_memchr [[1, 2], [], [2, 7]] 258 = 1 \<and> mpt_memrchr [[1, 2], [], [2, 7]] 2 = 2
   \<and> mpt_memfcn (Some [[1], [7]]) (Some (\<lambda>c. c - 1)) = 1 \<and> mpt_memrfcn (Some [[1], [7]]) (Some (\<lambda>c. c - 7)) = 0
   \<and> mpt_memstr (Some [[1], [7]]) (Some [7, 1]) 1 = Some 1 \<and> mpt_memrstr (Some [[1], [7]]) (Some [7, 1]) 2 = Some 1"
  using memsearch_positions [of "[[1, 2], [], [2, 7]]" 1 258] memsearch_positions [of "[[1, 2], [], [2, 7]]" 1 2]
    memsearch_positions [of "[[1], [7]]" 1 0 "\<lambda>c. c - 1" "[7, 1]"] memsearch_positions [of "[[1], [7]]" 2 0 "\<lambda>c. c - 7" "[7, 1]"]
  by (simp add: search_result_def)

text \<open>\<open>mpt_memcpy\<close> on non-empty vectors refuses a positive length above the source (-1) or the
  target size (-2); otherwise it moves that length, with a negative length all that the source has
  and the target can take, from the start of the joined source to the start of the joined target and
  changes neither other bytes nor the sizes of the parts.\<close>

theorem memcpy_transfers:
  assumes "src \<noteq> []" and "dest \<noteq> []" and "length (concat src) \<le> SSIZE_MAX" and "length (concat dest) \<le> SSIZE_MAX"
  shows "if len > int (length (concat src)) then mpt_memcpy len src dest = (- 1, dest)
    else if len > int (length (concat dest)) then mpt_memcpy len src dest = (- 2, dest)
    else \<exists>dest'. mpt_memcpy len src dest = (int (copy_size len (concat src) (concat dest)), dest')
      \<and> concat dest' = (let n = copy_size len (concat src) (concat dest) in take n (concat src) @ drop n (concat dest))
      \<and> map length dest' = map length dest"
proof -
  from assms(1,2) obtain s ss t ts where st: "src = s # ss" "dest = t # ts" by (meson neq_Nil_conv)
  obtain n d where lp: "memcpy_loop len s ss [] [] t ts 0 = (n, d)" by fastforce
  have "to_ssize (sum_list (map length src)) = int (length (concat src))"
    "to_ssize (sum_list (map length dest)) = int (length (concat dest))"
    using assms(3,4) by (simp_all add: to_ssize_id length_concat)
  with memcpy_loop_ok [OF lp] lp st show ?thesis by (simp add: mpt_memcpy_def Let_def)
qed

theorem memcpy_transfers_witness:
  "\<exists>dest'. mpt_memcpy (- 1) [[1, 2], [3]] [[0], [0, 0, 9]] = (3, dest') \<and> concat dest' = [1, 2, 3, 9]
     \<and> map length dest' = [1, 3]"
  using memcpy_transfers [of "[[1, 2], [3]]" "[[0], [0, 0, 9]]" "- 1"] by (simp add: copy_size_def numeral_3_eq_3)

text \<open>Property C26: a token search of \<open>mpt_memtok\<close> depends on the joined bytes only: quoting that is open at
  the end of a part goes on in the next one, and without quote and comment characters the result
  is that of \<open>mpt_memstr\<close>.\<close>

theorem memtok_joined:
  assumes "length (concat data) \<le> SSIZE_MAX" and "t \<noteq> []"
  shows "mpt_memtok (Some data) (Some t) com esc =
      Some (search_result (tok_scan t (str_bytes com) (str_bytes esc) 0 32 (concat data)))
    \<and> mpt_memtok (Some data) (Some t) None None = mpt_memstr (Some data) (Some t) (length t)"
  using assms memtok_joined_ok [of data] search_pos [of data]
  by (simp add: str_bytes_def tok_scan_plain mpt_memstr_def memchr_wrap_iff rd_def)

theorem memtok_joined_witness:
  "mpt_memtok (Some [[39, 32], [39], [65, 32]]) (Some [32]) None (Some [39]) = Some 4"
  using memtok_joined [of "[[39, 32], [39], [65, 32]]" "[32]" None "Some [39]"]
  by (simp add: str_bytes_def search_result_def)

text \<open>\<open>mpt_message_argv\<close> on contents in one piece trims leading white space (unless there is
  nothing else), and returns the length up to the separator; for a separator that is not a graphic
  character up to the first white space outside of quotes, without one up to the first zero byte.\<close>

theorem message_argv_single:
  assumes "length s \<le> SSIZE_MAX" and "s \<noteq> []"
  shows "mpt_message_argv \<lparr>mbase = s, mcont = []\<rparr> sep =
    Some (if sep = 0 then (arg_length s 0, \<lparr>mbase = s, mcont = []\<rparr>)
          else (arg_length (trim s) sep, \<lparr>mbase = trim s, mcont = []\<rparr>))"
proof (cases "sep = 0")
  case True
  have "message_skip s [] = \<lparr>mbase = s, mcont = []\<rparr>" by (cases s) simp_all
  with True assms nextChar_single [OF assms(1), of 0] show ?thesis
    by (simp add: mpt_message_argv_def arg_length_def)
next
  case False
  with argv_single_ok [OF assms False] show ?thesis by simp
qed

theorem message_argv_single_witness:
  "mpt_message_argv \<lparr>mbase = [32, 65, 34, 32, 34, 32, 66], mcont = []\<rparr> 32 =
     Some (4, \<lparr>mbase = [65, 34, 32, 34, 32, 66], mcont = []\<rparr>)"
  by (simp add: message_argv_single arg_length_def trim_def isspace_def isgraph_def white_def quotes_def)

text \<open>\<open>mpt_message_id2buf\<close> writes the big-endian bytes of the identifier and succeeds, with
  the number of its significant bytes (one for zero), exactly when the identifier needs at most one
  byte less than the buffer has.\<close>

theorem id2buf_big_endian:
  assumes "0 < len" and "len \<le> length buf"
  shows "\<exists>bs. mpt_message_id2buf v buf len =
      Some (if unat v < 256 ^ (len - 1) then 1 + sig_count (len - 1) (unat v) else MissingBuffer,
        bs @ drop len buf)
    \<and> length bs = len \<and> big_endian bs = unat v mod 256 ^ len"
  by (rule exI [of _ "be_bytes len (unat v)"]) (simp add: id2buf_ok [OF assms] big_endian_be_bytes)

theorem id2buf_big_endian_witness:
  "\<exists>bs. mpt_message_id2buf 513 [9, 9, 9] 3 = Some (2, bs) \<and> length bs = 3 \<and> big_endian bs = 513"
  using id2buf_big_endian [of 3 "[9, 9, 9]" 513] by (auto simp: numeral_3_eq_3)

text \<open>\<open>mpt_message_get\<close> gives a message of the requested bytes of the queue, with a second
  part exactly when they wrap around the end of the block.\<close>

theorem message_get_view:
  assumes "queue_wf q" and "off + n \<le> qlen q" and "0 < n"
  shows "\<exists>r msg'. mpt_message_get q off n msg True = Some (r, msg')
     \<and> mdata msg' = take n (drop off (qdata q)) \<and> r = int (length (mcont msg')) \<and> r \<le> 1"
  by (rule get_view [OF assms])

theorem message_get_view_witness:
  "\<exists>r msg'. mpt_message_get \<lparr>qbase = [3, 4, 0, 1, 2], qlen = 4, qmax = 5, qoff = 3\<rparr> 1 2 \<lparr>mbase = [], mcont = []\<rparr> True
     = Some (r, msg') \<and> mdata msg' = [2, 3]"
  using message_get_view [of "\<lparr>qbase = [3, 4, 0, 1, 2], qlen = 4, qmax = 5, qoff = 3\<rparr>" 1 2 "\<lparr>mbase = [], mcont = []\<rparr>"]
  by (auto simp: queue_wf_def qdata_def ring_def)

text \<open>\<open>mpt_message_buf2id\<close> takes the first byte only of two or more and reads behind the end of
  a buffer of one byte; it stores no identifier.\<close>

theorem buf2id_first_byte:
  "(2 \<le> length buf \<and> length buf < 2 ^ 64 \<longrightarrow>
     mpt_message_buf2id buf (length buf) True = Some (if hd buf = 0 then 0 else 1, None))
   \<and> mpt_message_buf2id [b] 1 True = None"
proof (intro conjI impI)
  assume "2 \<le> length buf \<and> length buf < 2 ^ 64"
  then have "rd buf 0 1 = Some [hd buf]" "length buf \<noteq> 0" "usub (length buf) 1 \<noteq> 0"
    by (cases buf; auto simp: rd_def)+
  then show "mpt_message_buf2id buf (length buf) True = Some (if hd buf = 0 then 0 else 1, None)"
    by (simp add: mpt_message_buf2id_def buf2id_loop.simps)
qed (simp add: mpt_message_buf2id_def buf2id_loop.simps rd_def)

theorem buf2id_first_byte_witness: "mpt_message_buf2id [1, 2] 2 True = Some (1, None) \<and> mpt_message_buf2id [5] 1 True = None"
  using buf2id_first_byte [of "[1, 2]" 5] by (simp flip: numeral_2_eq_2)

end
