(* ===== verification/CobsDecode.thy ===== *)
theory CobsDecode
  imports CobsEncode Message
begin

text \<open>
  The COBS decoders of \<open>mptcore/convert/\<close>: \<open>decode_cobs.c\<close>, also compiled as COBS/ZPE by
  \<open>decode_cobs_zpe.c\<close>, with and without tail inlining.

  A decoder works in place on a vector of elements.  The pointers \<open>src\<close> and \<open>dst\<close> with the sizes that
  are left of their elements step from each element to the next one, so that they are positions in
  the joined bytes of the elements: \<open>sp\<close> for \<open>src\<close>, and \<open>done + mlen\<close> for \<open>dst\<close>.  The vector is cut
  into its elements again at the end.  The lemmas show that the decoder does on the unread bytes what
  the automaton of \<open>Coding\<close> does, and overwrites read bytes only.
\<close>

section \<open>Model\<close>

text \<open>Bytes of a vector, and a vector with its bytes replaced.\<close>

definition vec_bytes :: "vec \<Rightarrow> block" where
  "vec_bytes v = concat (map snd v)"

fun vec_with :: "vec \<Rightarrow> block \<Rightarrow> vec" where
  "vec_with [] m = []"
| "vec_with ((a, b) # v) m = (a, take (length b) m) # vec_with v (drop (length b) m)"

text \<open>The address of a position, as a message that starts there has it as its base.\<close>

fun vec_addr :: "vec \<Rightarrow> nat \<Rightarrow> nat" where
  "vec_addr [] p = 0"
| "vec_addr ((a, b) # v) p = (if p < length b then a + p else vec_addr v (p - length b))"

text \<open>The alignment loop: how far the target is moved.  \<open>addr & (align - 1)\<close> is the remainder for the
  powers of two that occur.\<close>

function align_loop :: "nat \<Rightarrow> nat \<Rightarrow> nat \<Rightarrow> nat \<Rightarrow> nat" where
  "align_loop align addr cur proc =
     (if align > 1 then
        (let post = addr mod align in
         if cur < align div 2 \<or> proc < post then align_loop (align div 2) addr cur proc else post)
      else 0)"
  by pat_completeness auto
termination
  by (relation "measure (\<lambda>(align, addr, cur, proc). align)") auto

definition dec_save :: "decode_state \<Rightarrow> nat \<Rightarrow> nat \<Rightarrow> nat \<Rightarrow> nat \<Rightarrow> nat \<Rightarrow> decode_state" where
  "dec_save dec off code pos mlen proc =
     dec\<lparr>dctx := pos * 256 + code, dcurr := off + mlen + proc, dlen := mlen\<rparr>"

text \<open>The loop over the data bytes of a block: \<open>Inl\<close> are the returns in the loop.\<close>

function dec_data :: "block \<Rightarrow> nat \<Rightarrow> nat \<Rightarrow> nat \<Rightarrow> nat \<Rightarrow> nat \<Rightarrow> nat
    \<Rightarrow> ((int \<times> block \<times> nat \<times> nat) + (block \<times> nat \<times> nat \<times> nat)) option" where
  "dec_data m off cur pos sp mlen proc =
     (if pos < cur then
        (if sp \<ge> length m then Some (Inl (0, m, pos, mlen))
         else if m ! sp = 0 then Some (Inl (MissingData, m, pos, mlen))
         else if proc = 0 then Some (Inl (0, m, pos, mlen))
         else do {
           m \<leftarrow> wr m (off + mlen) [m ! sp];
           dec_data m off cur (pos + 1) (sp + 1) (mlen + 1) proc })
      else Some (Inr (m, pos, sp, mlen)))"
  by pat_completeness auto
termination
  by (relation "measure (\<lambda>(m, off, cur, pos, sp, mlen, proc). cur - pos)") auto

text \<open>The loop over the zero bytes behind a block: \<open>Inl\<close> is the return without target space.\<close>

function dec_zero :: "block \<Rightarrow> nat \<Rightarrow> nat \<Rightarrow> nat \<Rightarrow> nat \<Rightarrow> nat
    \<Rightarrow> ((block \<times> nat \<times> nat) + (block \<times> nat \<times> nat)) option" where
  "dec_zero m off cur pos mlen proc =
     (if pos < cur then
        (if proc = 0 then Some (Inl (m, pos, mlen))
         else do {
           m \<leftarrow> wr m (off + mlen) [0];
           dec_zero m off cur (pos + 1) (mlen + 1) (proc - 1) })
      else Some (Inr (m, mlen, proc)))"
  by pat_completeness auto
termination
  by (relation "measure (\<lambda>(m, off, cur, pos, mlen, proc). cur - pos)") auto

declare align_loop.simps [simp del] dec_data.simps [simp del] dec_zero.simps [simp del]

lemma dec_data_keeps:
  "dec_data m off cur pos sp mlen proc = Some (Inr (m', pos', sp', mlen')) \<Longrightarrow> length m' = length m \<and> sp \<le> sp'"
proof (induction m off cur pos sp mlen proc rule: dec_data.induct)
  case (1 m off cur pos sp mlen proc)
  note ih = "1.IH" and eq = "1.prems" [unfolded dec_data.simps [of m]]
  show ?case
    by (use eq ih in \<open>simp split: if_splits bind_splits\<close>) (use ih in \<open>fastforce dest: wr_length\<close>)+
qed

lemma dec_zero_keeps:
  "dec_zero m off cur pos mlen proc = Some (Inr (m', mlen', proc')) \<Longrightarrow> length m' = length m"
proof (induction m off cur pos mlen proc rule: dec_zero.induct)
  case (1 m off cur pos mlen proc)
  note ih = "1.IH" and eq = "1.prems" [unfolded dec_zero.simps [of m]]
  show ?case
    by (use eq ih in \<open>simp split: if_splits bind_splits\<close>) (use ih in \<open>fastforce dest: wr_length\<close>)+
qed

text \<open>The outer loop, one block for each step; \<open>single\<close> stands for \<open>sourcelen\<close> zero.\<close>

function dec_loop :: "variant \<Rightarrow> bool \<Rightarrow> decode_state \<Rightarrow> block \<Rightarrow> nat \<Rightarrow> nat \<Rightarrow> nat \<Rightarrow> nat \<Rightarrow> nat \<Rightarrow> nat
    \<Rightarrow> (int \<times> decode_state \<times> block) option" where
  "dec_loop V single dec m off code pos sp mlen proc =
     (if code = 0 then
        Some (1, dec\<lparr>dctx := 0, dpos := off, dlen := mlen, dmsg := int mlen, dcurr := off + mlen + proc\<rparr>, m)
      else
        (case dec_data m off (cobs_len_data V code) pos sp mlen proc of
           None \<Rightarrow> None
         | Some (Inl (ret, m, pos, mlen)) \<Rightarrow> Some (ret, dec_save dec off code pos mlen proc, m)
         | Some (Inr (m, pos, sp, mlen)) \<Rightarrow>
             (if single \<or> sp \<ge> length m then Some (0, dec_save dec off code pos mlen proc, m)
              else
                (case dec_zero m off (cobs_len_data V code + cobs_len_zero V code (unat (m ! sp))) pos mlen proc of
                   None \<Rightarrow> None
                 | Some (Inl (m, pos, mlen)) \<Rightarrow> Some (MissingBuffer, dec_save dec off code pos mlen 0, m)
                 | Some (Inr (m', mlen, proc)) \<Rightarrow>
                     dec_loop V single dec m' off (unat (m ! sp)) 0 (sp + 1) mlen (proc + 1)))))"
  by pat_completeness auto
termination
  by (relation "measure (\<lambda>(V, single, dec, m, off, code, pos, sp, mlen, proc). length m - sp)")
    (auto dest!: dec_data_keeps dec_zero_keeps)

text \<open>A finished message is dropped, and the target of a message that has no data yet is moved: offset,
  size of the message, shift and state.\<close>

definition decode_target :: "decode_state \<Rightarrow> vec \<Rightarrow> nat \<Rightarrow> nat \<Rightarrow> nat \<Rightarrow> nat \<times> nat \<times> nat \<times> decode_state" where
  "decode_target dec parts dl used proc =
     (let (off, mlen, dec) = (if dmsg dec \<ge> 0
             then (dpos dec + nat (dmsg dec), usub (dlen dec) (nat (dmsg dec)),
                   dec\<lparr>dlen := usub (dlen dec) (nat (dmsg dec)), dmsg := - 1\<rparr>)
             else (dpos dec, dlen dec, dec)) in
      if mlen = 0 then
        (let post = align_loop 16 (vec_addr parts dl) used proc
         in (dl + post, mlen, post, dec\<lparr>dpos := dl + post\<rparr>))
      else (off, mlen, 0, dec))"

text \<open>Access to the encoded data and the start of a block where none is in progress.\<close>

definition decode_begin :: "variant \<Rightarrow> bool \<Rightarrow> decode_state \<Rightarrow> block \<Rightarrow> nat \<Rightarrow> nat \<Rightarrow> nat \<Rightarrow> message \<Rightarrow> nat \<Rightarrow> nat
    \<Rightarrow> (int \<times> decode_state \<times> block) option" where
  "decode_begin V single dec m off mlen proc tmp code pos = do {
     (r, tmp, _) \<leftarrow> mpt_message_read tmp proc None;
     (if r < proc then Some (BadArgument, dec, m)
      else if code = 0 then do {
        (r, tmp, d) \<leftarrow> mpt_message_read tmp 1 (Some ([0], 0));
        (if r = 0 then Some (0, dec, m)
         else case d of
             Some (c # _, _) \<Rightarrow>
               (if c = 0 then Some (BadValue, dec\<lparr>dcurr := proc + 1\<rparr>, m)
                else dec_loop V single dec m off (unat c) pos (off + mlen + proc + 1) mlen (proc + 1))
           | _ \<Rightarrow> None) }
      else dec_loop V single dec m off code pos (off + mlen + proc) mlen proc) }"

text \<open>The decoder on the elements it may use.\<close>

definition decode_parts :: "variant \<Rightarrow> decode_state \<Rightarrow> vec \<Rightarrow> bool \<Rightarrow> (int \<times> decode_state \<times> block) option" where
  "decode_parts V dec parts single =
     (let m = vec_bytes parts; dl = dpos dec + dlen dec; proc = dcurr dec - dl in
      if dl > dcurr dec then Some (BadArgument, dec, m)
      else do {
        (r, tmp, _) \<leftarrow> mpt_message_read \<lparr>mbase = [], mcont = map snd parts\<rparr> dl None;
        (if r < dl then Some (BadArgument, dec, m)
         else if single \<and> (dmsg dec \<ge> 0 \<or> dlen dec = 0) then Some (BadOperation, dec, m)
         else
           (case decode_target dec parts dl (length (mbase tmp)) proc of
              (off, mlen, post, dec') \<Rightarrow> do {
                (_, tmp, _) \<leftarrow> mpt_message_read tmp post None;
                decode_begin V single dec' m off mlen (proc - post) tmp (dctx dec mod 256) (dctx dec div 256 mod 256) })) })"

definition mpt_decode :: "variant \<Rightarrow> decoder" where
  "mpt_decode V dec source sourcelen = (case source of
     None \<Rightarrow>
       (if sourcelen = 0 then Some (0, dec\<lparr>dctx := 0\<rparr>, None)
        else Some (to_int32 (int (cobs_max_dec V sourcelen + dlen dec)), dec, None))
   | Some v \<Rightarrow>
       (let n = (if sourcelen = 0 then 1 else sourcelen) in
        if length v < n then None
        else do {
          (ret, dec, m) \<leftarrow> decode_parts V dec (take n v) (sourcelen = 0);
          Some (ret, dec, Some (vec_with (take n v) m @ drop n v)) }))"

definition mpt_decode_cobs :: decoder where
  "mpt_decode_cobs = mpt_decode COBS"

definition mpt_decode_cobs_zpe :: decoder where
  "mpt_decode_cobs_zpe = mpt_decode ZPE"

text \<open>Tail inlining: a zero byte inside of a block ends the message with the code as last byte.\<close>

definition mpt_decode_r :: "variant \<Rightarrow> decoder" where
  "mpt_decode_r V dec source sourcelen = do {
     (ret, dec, v) \<leftarrow> mpt_decode V dec source sourcelen;
     (if ret = MissingData \<and> dctx dec \<noteq> 0 then
        (case v of
           None \<Rightarrow> None
         | Some v \<Rightarrow> do {
             (_, tmp, _) \<leftarrow> mpt_message_read \<lparr>mbase = [], mcont = map snd (take sourcelen v)\<rparr> (dpos dec + dlen dec) None;
             (if mbase tmp = [] then Some (MissingBuffer, dec, Some v)
              else do {
                m \<leftarrow> wr (vec_bytes v) (dpos dec + dlen dec) [of_nat (dctx dec mod 256)];
                Some (1, dec\<lparr>dmsg := int (dlen dec + 1), dlen := dlen dec + 1, dctx := 0, dcurr := dcurr dec + 1\<rparr>,
                  Some (vec_with v m)) }) })
      else Some (ret, dec, v)) }"

definition mpt_decode_cobs_r :: decoder where
  "mpt_decode_cobs_r = mpt_decode_r COBS"

definition mpt_decode_cobs_zpe_r :: decoder where
  "mpt_decode_cobs_zpe_r = mpt_decode_r ZPE"

declare dec_loop.simps [simp del]

section \<open>Specification\<close>

text \<open>Free bytes between decoded and encoded data that are enough for \<open>k\<close> encoded bytes: one byte for
  COBS; each block of COBS/ZPE may take one more byte than it had.\<close>

fun dec_room :: "variant \<Rightarrow> nat \<Rightarrow> nat \<Rightarrow> bool" where
  "dec_room COBS proc k \<longleftrightarrow> 1 \<le> proc"
| "dec_room ZPE proc k \<longleftrightarrow> k + 1 \<le> proc"

text \<open>What the decoder leaves when the automaton stops in a state at position \<open>e\<close>: return value, state
  and the decoded bytes at \<open>off\<close>.\<close>

fun dec_outcome :: "decode_state \<Rightarrow> nat \<Rightarrow> nat \<Rightarrow> cstate \<Rightarrow> int \<Rightarrow> decode_state \<Rightarrow> block \<Rightarrow> bool" where
  "dec_outcome dec off e (Msg out) ret dec' m \<longleftrightarrow> ret = 1 \<and> off + length out \<le> e \<and> take (length out) (drop off m) = out \<and>
     dec' = dec\<lparr>dctx := 0, dpos := off, dlen := length out, dmsg := int (length out), dcurr := e\<rparr>"
| "dec_outcome dec off e (Blk c p out) ret dec' m \<longleftrightarrow> ret = 0 \<and> off + length out \<le> e \<and> take (length out) (drop off m) = out \<and>
     dec' = dec\<lparr>dctx := p * 256 + c, dcurr := e, dlen := length out\<rparr>"
| "dec_outcome dec off e (Cut c out) ret dec' m \<longleftrightarrow> ret = MissingData \<and> take (length out) (drop off m) = out \<and>
     (\<exists>p. dec' = dec\<lparr>dctx := p * 256 + c, dcurr := e - 1, dlen := length out\<rparr>) \<and> 0 < c \<and> c < 256 \<and> off + length out < e"
| "dec_outcome dec off e s ret dec' m \<longleftrightarrow> False"

text \<open>A decoder between two messages: nothing decoded, or a message that is to be dropped.\<close>

definition dec_idle :: "decode_state \<Rightarrow> bool" where
  "dec_idle dec \<longleftrightarrow> dctx dec = 0 \<and> (if dmsg dec \<ge> 0 then dmsg dec = int (dlen dec) else dlen dec = 0)"

section \<open>Lemmas\<close>

lemma dec_zero_ok:
  assumes "pos + z = cur" and "z \<le> proc" and "off + mlen + z \<le> length m"
  shows "\<exists>m'. wr m (off + mlen) (replicate z 0) = Some m'
    \<and> dec_zero m off cur pos mlen proc = Some (Inr (m', mlen + z, proc - z))"
  using assms
proof (induction z arbitrary: pos m mlen proc)
  case 0
  then show ?case by (simp add: dec_zero.simps)
next
  case (Suc z)
  from Suc.prems(3) have "\<exists>m1. wr m (off + mlen) [0] = Some m1" by (simp add: wr_def)
  then obtain m1 where m1: "wr m (off + mlen) [0] = Some m1" by blast
  have "z \<le> proc - 1" using Suc.prems(2) by simp
  with m1 Suc.IH [of "pos + 1" "proc - 1" "mlen + 1" m1] Suc.prems wr_length [OF m1] obtain m' where
    m': "wr m1 (off + (mlen + 1)) (replicate z 0) = Some m'"
      "dec_zero m1 off cur (pos + 1) (mlen + 1) (proc - 1) = Some (Inr (m', mlen + 1 + z, proc - 1 - z))" by auto
  have "wr m (off + mlen) (replicate (Suc z) 0) = Some m'"
    using wr_wr [OF m1, of "replicate z 0"] m'(1) Suc.prems(3) by simp
  then show ?case using Suc.prems m1 m'(2) by (simp add: dec_zero.simps [of m])
qed

lemma loop_end:
  assumes "0 < code" and "length m \<le> sp"
  shows "dec_loop V single dec m off code pos sp mlen proc = Some (0, dec_save dec off code pos mlen proc, m)"
  using assms by (subst dec_loop.simps) (simp add: dec_data.simps)

lemma loop_cut:
  assumes "pos < cobs_len_data V code" and "0 < code" and "sp < length m" and "m ! sp = 0"
  shows "dec_loop V single dec m off code pos sp mlen proc = Some (MissingData, dec_save dec off code pos mlen proc, m)"
  using assms by (subst dec_loop.simps) (simp add: dec_data.simps)

lemma loop_data:
  assumes "pos < cobs_len_data V code" and "0 < code" and "sp < length m" and "m ! sp \<noteq> 0" and "0 < proc"
    and "wr m (off + mlen) [m ! sp] = Some m'"
  shows "dec_loop V single dec m off code pos sp mlen proc = dec_loop V single dec m' off code (pos + 1) (sp + 1) (mlen + 1) proc"
  using assms by (subst (1 2) dec_loop.simps) (simp add: dec_data.simps [of m])

lemma loop_next:
  assumes "pos = cobs_len_data V code" and "0 < code" and "sp < length m"
    and "z = cobs_len_zero V code (unat (m ! sp))" and "z \<le> proc" and "off + mlen + z \<le> length m"
  shows "\<exists>m'. wr m (off + mlen) (replicate z 0) = Some m' \<and>
    dec_loop V False dec m off code pos sp mlen proc = dec_loop V False dec m' off (unat (m ! sp)) 0 (sp + 1) (mlen + z) (proc - z + 1)"
proof -
  from dec_zero_ok [of pos z "cobs_len_data V code + z" proc off mlen m] assms obtain m' where
    "wr m (off + mlen) (replicate z 0) = Some m'"
    "dec_zero m off (cobs_len_data V code + z) pos mlen proc = Some (Inr (m', mlen + z, proc - z))" by auto
  then show ?thesis using assms by (subst dec_loop.simps) (auto simp: dec_data.simps)
qed

lemma len_zero_room:
  "dec_room V proc k \<Longrightarrow> 1 \<le> k \<Longrightarrow> cobs_len_zero V c n \<le> proc \<and> dec_room V (proc - cobs_len_zero V c n + 1) (k - 1) \<and> 0 < proc"
  by (cases V) auto

lemma run_step:
  "run V s (b # bs) = (if terminal (feed V s b) then (feed V s b, 1)
     else (fst (run V (feed V s b) bs), snd (run V (feed V s b) bs) + 1))"
  by (simp add: Let_def split_def)

lemma run_pos: "run V s (b # bs) = (t, k) \<Longrightarrow> 1 \<le> k"
  by (auto simp: Let_def split: prod.splits if_splits)

lemma dec_loop_ok:
  assumes "drop sp m = bs" and "sp = off + mlen + proc" and "sp \<le> length m" and "out = take mlen (drop off m)"
    and "0 < code" "code < 256" and "pos \<le> cobs_len_data V code" and "run V (Blk code pos out) bs = (s, k)" and "dec_room V proc k"
  shows "\<exists>ret dec' m'. dec_loop V False dec m off code pos sp mlen proc = Some (ret, dec', m') \<and> length m' = length m
    \<and> take off m' = take off m \<and> drop (sp + k) m' = drop (sp + k) m \<and> dec_outcome dec off (sp + k) s ret dec' m'"
  using assms
proof (induction bs arbitrary: m code pos sp mlen proc out k)
  case Nil
  then have "length m \<le> sp" "s = Blk code pos out" "k = 0" "length out = mlen" by auto
  with Nil show ?case by (auto simp: loop_end dec_save_def)
next
  case (Cons b bs)
  have sp: "sp < length m" using Cons.prems(1) by (metis drop_eq_Nil list.distinct(1) not_less)
  have b: "m ! sp = b" "drop (sp + 1) m = bs"
    using Cons.prems(1) sp by (metis nth_via_drop, metis drop_Suc_Cons drop_drop drop0 One_nat_def add.commute plus_1_eq_Suc)
  have out: "length out = mlen" using Cons.prems(2,3,4) sp by auto
  show ?case
  proof (cases "pos < cobs_len_data V code")
    case True
    show ?thesis
    proof (cases "b = 0")
      case b0: True
      with Cons.prems(8) True have "s = Cut code out" "k = 1" by (auto simp: run_step)
      with loop_cut [OF True Cons.prems(5) sp] b b0 Cons.prems(2,4-6) out show ?thesis by (auto simp: dec_save_def)
    next
      case nz: False
      have "\<not> terminal (feed V (Blk code pos out) b)" using True nz by simp
      with Cons.prems(8) True nz obtain k' where k': "run V (Blk code (pos + 1) (out @ [b])) bs = (s, k')" "k = k' + 1"
        by (auto simp: run_step split: prod.splits)
      with Cons.prems(9) have room: "0 < proc" "dec_room V proc k'" by (cases V; auto)+
      have "off + mlen < length m" using sp Cons.prems(2) by simp
      then obtain m' where w: "wr m (off + mlen) [b] = Some m'" by (auto simp: wr_def)
      have "drop (sp + 1) m' = bs" "drop (sp + 1 + k') m' = drop (sp + 1 + k') m" "take off m' = take off m"
        using wr_frame [OF w] b(2) Cons.prems(2) by simp_all
      moreover have "out @ [b] = take (mlen + 1) (drop off m')"
        using wr_extend [OF w] Cons.prems(4) by simp
      ultimately show ?thesis
        using Cons.IH [of "sp + 1" m' "mlen + 1" proc "out @ [b]" code "pos + 1" k'] k' room Cons.prems True sp wr_length [OF w]
          loop_data [OF True Cons.prems(5) sp _ room(1), of off mlen m'] b(1) nz w by simp
    qed
  next
    case False
    with Cons.prems(7) have pos: "pos = cobs_len_data V code" by simp
    define z where "z = cobs_len_zero V code (unat b)"
    note k = run_pos [OF Cons.prems(8)]
    from len_zero_room [OF Cons.prems(9) k, of code "unat b"] have room: "z \<le> proc" "dec_room V (proc - z + 1) (k - 1)"
      by (simp_all add: z_def)
    have fit: "off + mlen + z \<le> length m" "off + mlen + z \<le> sp" using room sp Cons.prems(2) by auto
    from loop_next [OF pos Cons.prems(5) sp _ room(1) fit(1), of dec] b(1) obtain m' where
      w: "wr m (off + mlen) (replicate z 0) = Some m'"
      and lp: "dec_loop V False dec m off code pos sp mlen proc = dec_loop V False dec m' off (unat b) 0 (sp + 1) (mlen + z) (proc - z + 1)"
      by (auto simp: z_def)
    have m': "drop (sp + 1) m' = bs" "drop (sp + 1) m' = drop (sp + 1) m" "take off m' = take off m" "length m' = length m"
      "out @ replicate z 0 = take (mlen + z) (drop off m')"
      using wr_frame [OF w] wr_extend [OF w] b(2) fit wr_length [OF w] Cons.prems(4) by simp_all
    have e: "off + (mlen + z) + (proc - z + 1) = sp + 1" using room Cons.prems(2) by simp
    show ?thesis
    proof (cases "b = 0")
      case True
      with Cons.prems(8) pos have "s = Msg (out @ replicate z 0)" "k = 1" by (auto simp: run_step Let_def z_def)
      moreover have "length (out @ replicate z 0) = mlen + z" using out by simp
      ultimately show ?thesis using True lp m'(2-4) m'(5) [symmetric] e
        by (simp add: dec_loop.simps [of _ _ _ _ _ 0])
    next
      case nz: False
      with pos have f: "feed V (Blk code pos out) b = Blk (unat b) 0 (out @ replicate z 0)" by (simp add: Let_def z_def)
      with Cons.prems(8) obtain k' where k': "run V (Blk (unat b) 0 (out @ replicate z 0)) bs = (s, k')" "k = k' + 1"
        by (auto simp: run_step split: prod.splits)
      have dr: "drop (sp + 1 + k') m' = drop (sp + 1 + k') m" using m'(2) by (metis drop_drop add.commute)
      have sk: "sp + k = sp + 1 + k'" using k'(2) by simp
      have "\<exists>ret dec' m''. dec_loop V False dec m' off (unat b) 0 (sp + 1) (mlen + z) (proc - z + 1) = Some (ret, dec', m'')
          \<and> length m'' = length m' \<and> take off m'' = take off m' \<and> drop (sp + 1 + k') m'' = drop (sp + 1 + k') m'
          \<and> dec_outcome dec off (sp + 1 + k') s ret dec' m''"
        by (rule Cons.IH [OF m'(1) e [symmetric] _ m'(5) _ _ _ k'(1)])
          (use sp m'(4) nz unsigned_less [of b] room(2) k'(2) in \<open>simp_all add: unat_gt_0\<close>)
      then show ?thesis unfolding lp sk m'(3,4) dr .
    qed
  qed
qed

lemma align_loop_bound: "align_loop align addr cur proc \<le> proc \<and> align_loop align addr cur proc \<le> align - 1"
proof (induction align addr cur proc rule: align_loop.induct)
  case (1 align addr cur proc)
  show ?case
  proof (cases "align > 1 \<and> (cur < align div 2 \<or> proc < addr mod align)")
    case True
    then have "align_loop align addr cur proc = align_loop (align div 2) addr cur proc"
      by (subst align_loop.simps) (simp add: Let_def)
    with 1 [OF _ refl] True show ?thesis by fastforce
  next
    case False
    moreover have "align > 1 \<Longrightarrow> addr mod align \<le> align - 1" using mod_less_divisor [of align addr] by linarith
    ultimately show ?thesis by (subst (1 2) align_loop.simps) (auto simp: Let_def)
  qed
qed

lemma read_none:
  "\<exists>msg'. mpt_message_read msg n None = Some (min n (length (mdata msg)), msg', None) \<and> mdata msg' = drop n (mdata msg)"
  using read_ok [of None n msg] by (auto simp: dest_ok_def dest_put_def)

lemma read_byte:
  assumes "mdata msg = b # bs"
  shows "\<exists>msg'. mpt_message_read msg 1 (Some ([0], 0)) = Some (1, msg', Some ([b], 1))"
  using read_ok [of "Some ([0], 0)" 1 msg] assms by (auto simp: dest_ok_def dest_put_def wr_def)

lemma vec_mdata: "mdata \<lparr>mbase = [], mcont = map snd v\<rparr> = vec_bytes v"
  by (simp add: mdata_def vec_bytes_def)

lemma vec_with_bytes: "length m = length (vec_bytes v) \<Longrightarrow> vec_bytes (vec_with v m) = m"
  by (induction v m rule: vec_with.induct) (auto simp: vec_bytes_def)

lemma decode_fresh:
  assumes "dec_idle dec" and "m = vec_bytes parts" and "dl = dpos dec + dlen dec" and "dl \<le> dcurr dec" and "dcurr dec \<le> length m"
    and "run V Idle (drop (dcurr dec) m) = (s, k)" and "s \<noteq> Idle" "s \<noteq> Bad"
    and "V = ZPE \<longrightarrow> k + 15 \<le> dcurr dec - dl"
  shows "\<exists>ret dec' m' off dec0. decode_parts V dec parts False = Some (ret, dec', m') \<and> length m' = length m
     \<and> dl \<le> off \<and> take dl m' = take dl m \<and> drop (dcurr dec + k) m' = drop (dcurr dec + k) m
     \<and> dmsg dec0 < 0 \<and> dpos dec0 = off \<and> dec_outcome dec0 off (dcurr dec + k) s ret dec' m'"
proof -
  let ?t0 = "\<lparr>mbase = [], mcont = map snd parts\<rparr>"
  from read_none [of ?t0 dl] assms(2,4,5) obtain t1 where t1: "mpt_message_read ?t0 dl None = Some (dl, t1, None)"
    "mdata t1 = drop dl m" by (auto simp: vec_mdata)
  define post where "post = align_loop 16 (vec_addr parts dl) (length (mbase t1)) (dcurr dec - dl)"
  define proc where "proc = dcurr dec - dl - post"
  define off where "off = dl + post"
  have post: "post \<le> dcurr dec - dl" "post \<le> 15"
    using align_loop_bound [of 16 "vec_addr parts dl" "length (mbase t1)" "dcurr dec - dl"] by (simp_all add: post_def)
  have sp: "off + proc = dcurr dec" using post assms(4) by (simp add: off_def proc_def)
  from read_none [of t1 post] post assms(4,5) t1(2) obtain t2 where t2: "mpt_message_read t1 post None = Some (post, t2, None)"
    "mdata t2 = drop off m" by (auto simp: off_def add.commute)
  from read_none [of t2 proc] sp assms(5) t2(2) obtain t3 where t3: "mpt_message_read t2 proc None = Some (proc, t3, None)"
    "mdata t3 = drop (dcurr dec) m" by (auto simp: add.commute)
  obtain b bs where b: "drop (dcurr dec) m = b # bs" using assms(6,7) by (cases "drop (dcurr dec) m") auto
  from read_byte [of t3 b bs] t3(2) b obtain t4 where t4: "mpt_message_read t3 1 (Some ([0], 0)) = Some (1, t4, Some ([b], 1))" by auto
  have nz: "b \<noteq> 0" using assms(6,8) b by auto
  from assms(6) b nz obtain k' where k': "run V (Blk (unat b) 0 []) bs = (s, k')" "k = k' + 1"
    by (auto simp: run_step split: prod.splits)
  define dec0 where "dec0 = (if dmsg dec \<ge> 0 then dec\<lparr>dlen := 0, dmsg := - 1\<rparr> else dec)\<lparr>dpos := off\<rparr>"
  have tgt: "decode_target dec parts dl (length (mbase t1)) (dcurr dec - dl) = (off, 0, post, dec0)"
    using assms(1) by (auto simp: decode_target_def dec_idle_def dec0_def off_def post_def Let_def)
  have bgn: "decode_begin V False dec0 m off 0 proc t2 0 0 = dec_loop V False dec0 m off (unat b) 0 (dcurr dec + 1) 0 (proc + 1)"
    using t3(1) t4 nz sp by (simp add: decode_begin_def)
  have "dctx dec = 0" using assms(1) by (simp add: dec_idle_def)
  with tgt bgn t1(1) t2(1) assms(2-4)
  have "decode_parts V dec parts False = dec_loop V False dec0 m off (unat b) 0 (dcurr dec + 1) 0 (proc + 1)"
    by (simp add: decode_parts_def Let_def proc_def)
  moreover have "\<exists>ret dec' m'. dec_loop V False dec0 m off (unat b) 0 (dcurr dec + 1) 0 (proc + 1) = Some (ret, dec', m') \<and> length m' = length m
    \<and> take off m' = take off m \<and> drop (dcurr dec + 1 + k') m' = drop (dcurr dec + 1 + k') m \<and> dec_outcome dec0 off (dcurr dec + 1 + k') s ret dec' m'"
  proof (rule dec_loop_ok [OF _ _ _ _ _ _ _ k'(1)])
    show "drop (dcurr dec + 1) m = bs" using b by (metis drop_Suc_Cons drop_drop drop0 One_nat_def add.commute plus_1_eq_Suc)
    show "dcurr dec + 1 \<le> length m" using b by (metis Suc_eq_plus1 Suc_leI drop_all list.distinct(1) not_le)
    show "dec_room V (proc + 1) k'" using assms(9) k'(2) post by (cases V) (auto simp: proc_def)
  qed (use sp nz unsigned_less [of b] in \<open>auto simp: unat_gt_0\<close>)
  then obtain ret dec' m' where r: "dec_loop V False dec0 m off (unat b) 0 (dcurr dec + 1) 0 (proc + 1) = Some (ret, dec', m')"
    "length m' = length m" "take off m' = take off m" "drop (dcurr dec + k) m' = drop (dcurr dec + k) m"
    "dec_outcome dec0 off (dcurr dec + k) s ret dec' m'" using k'(2) by auto
  moreover have "take dl m' = take dl m" using arg_cong [OF r(3), of "take dl"] by (simp add: off_def min_def)
  moreover have "dmsg dec0 < 0" "dpos dec0 = off" "dl \<le> off" by (auto simp: dec0_def off_def)
  ultimately show ?thesis by metis
qed

lemma decode_resume:
  assumes "dctx dec = p * 256 + c" "0 < c" "c < 256" "p < 256" and "dmsg dec < 0" and "0 < dlen dec"
    and "m = vec_bytes parts" and "dpos dec + dlen dec \<le> dcurr dec" and "dcurr dec \<le> length m"
    and "run V (Blk c p (take (dlen dec) (drop (dpos dec) m))) (drop (dcurr dec) m) = (s, k)"
    and "p \<le> cobs_len_data V c" and "dec_room V (dcurr dec - (dpos dec + dlen dec)) k"
  shows "\<exists>ret dec' m'. decode_parts V dec parts False = Some (ret, dec', m') \<and> length m' = length m
     \<and> take (dpos dec) m' = take (dpos dec) m \<and> drop (dcurr dec + k) m' = drop (dcurr dec + k) m
     \<and> dec_outcome dec (dpos dec) (dcurr dec + k) s ret dec' m'"
proof -
  let ?t0 = "\<lparr>mbase = [], mcont = map snd parts\<rparr>" and ?dl = "dpos dec + dlen dec"
  from read_none [of ?t0 ?dl] assms(7-9) obtain t1 where t1: "mpt_message_read ?t0 ?dl None = Some (?dl, t1, None)"
    "mdata t1 = drop ?dl m" by (auto simp: vec_mdata)
  from read_none [of t1 0] t1(2) obtain t2 where t2: "mpt_message_read t1 0 None = Some (0, t2, None)" "mdata t2 = drop ?dl m" by auto
  from read_none [of t2 "dcurr dec - ?dl"] t2(2) assms(8,9) obtain t3 where
    t3: "mpt_message_read t2 (dcurr dec - ?dl) None = Some (dcurr dec - ?dl, t3, None)" by auto
  have ctx: "dctx dec mod 256 = c" "dctx dec div 256 mod 256 = p" using assms(1-4) by auto
  have "decode_parts V dec parts False = dec_loop V False dec m (dpos dec) c p (dcurr dec) (dlen dec) (dcurr dec - ?dl)"
    using assms(2,5-8) t1(1) t2(1) t3 by (simp add: decode_parts_def decode_target_def decode_begin_def ctx Let_def)
  with dec_loop_ok [OF refl _ assms(9) refl assms(2,3,11,10,12), of dec] assms(8) show ?thesis by simp
qed

lemma run_terminal_append: "run V s xs = (t, k) \<Longrightarrow> terminal t \<Longrightarrow> \<not> terminal s \<Longrightarrow> run V s (xs @ ys) = (t, k)"
proof (induction xs arbitrary: s k)
  case (Cons x xs)
  then show ?case by (cases "terminal (feed V s x)") (auto simp: Let_def split: prod.splits)
qed auto

lemma read_none_base:
  assumes "n < length (mdata msg)"
  shows "\<exists>msg'. mpt_message_read msg n None = Some (n, msg', None) \<and> mbase msg' \<noteq> []"
proof -
  from read_ok [of None n msg] assms obtain msg' where "mpt_message_read msg n None = Some (n, msg', None)"
    "mdata msg' = drop n (mdata msg)" "mbase msg' = [] \<longrightarrow> mcont msg' = []" by (auto simp: dest_ok_def dest_put_def)
  moreover from this(2) assms have "mdata msg' \<noteq> []" by auto
  ultimately show ?thesis by (auto simp: mdata_def)
qed

lemma length_vec_with [simp]: "length (vec_with v m) = length v"
  by (induction v m rule: vec_with.induct) auto

lemma vec_with_lengths: "length m = length (vec_bytes v) \<Longrightarrow> map (length \<circ> snd) (vec_with v m) = map (length \<circ> snd) v"
  by (induction v m rule: vec_with.induct) (auto simp: vec_bytes_def)

text \<open>The decoded bytes of a finished message.\<close>

lemma decode_frame_ok:
  assumes "frame_of V R f = Some msg" and "dec_idle dec" and "dpos dec + dlen dec \<le> dcurr dec"
    and "vec_bytes v = pre @ f @ rest" and "dcurr dec = length pre" and "v \<noteq> []"
    and "V = ZPE \<longrightarrow> length f + 15 \<le> dcurr dec - (dpos dec + dlen dec)"
    and "D = mpt_decode V \<and> \<not> R \<or> D = mpt_decode_r V \<and> R"
  shows "\<exists>dec' v'. D dec (Some v) (length v) = Some (1, dec', Some v') \<and> length (vec_bytes v') = length (vec_bytes v)
     \<and> map (length \<circ> snd) v' = map (length \<circ> snd) v
     \<and> dec_idle dec' \<and> dmsg dec' = int (length msg) \<and> dcurr dec' = length (pre @ f) \<and> dpos dec' + dlen dec' \<le> dcurr dec'
     \<and> take (dlen dec') (drop (dpos dec') (vec_bytes v')) = msg \<and> drop (dcurr dec') (vec_bytes v') = rest"
proof -
  let ?m = "vec_bytes v"
  from assms(1) obtain s where s: "run V Idle f = (s, length f)"
    "s = Msg msg \<or> (R \<and> (\<exists>c out. s = Cut c out \<and> msg = out @ [of_nat c]))"
    by (auto simp: frame_of_def split: prod.splits cstate.splits if_splits)
  have rn: "run V Idle (drop (dcurr dec) ?m) = (s, length f)"
    using run_terminal_append [OF s(1), of rest] s(2) assms(4,5) by auto
  have sn: "s \<noteq> Idle" "s \<noteq> Bad" and le: "dcurr dec \<le> length ?m" using s(2) assms(4,5) by auto
  from decode_fresh [OF assms(2) refl refl assms(3) le rn sn assms(7)] obtain ret dec' m' off dec0 where
    d: "decode_parts V dec v False = Some (ret, dec', m')" "length m' = length ?m"
      "drop (dcurr dec + length f) m' = drop (dcurr dec + length f) ?m" "dmsg dec0 < 0" "dpos dec0 = off"
      "dec_outcome dec0 off (dcurr dec + length f) s ret dec' m'" by blast
  have rest: "drop (dcurr dec + length f) m' = rest" using d(3) assms(4,5) by simp
  have md: "mpt_decode V dec (Some v) (length v) = Some (ret, dec', Some (vec_with v m'))"
    using d(1) assms(6) by (simp add: mpt_decode_def)
  note vb = vec_with_bytes [OF d(2)]
  from s(2) show ?thesis
  proof (elim disjE conjE exE)
    assume "s = Msg msg"
    with d(6) have o: "ret = 1" "take (length msg) (drop off m') = msg" "off + length msg \<le> dcurr dec + length f"
      "dec' = dec0\<lparr>dctx := 0, dpos := off, dlen := length msg, dmsg := int (length msg), dcurr := dcurr dec + length f\<rparr>" by auto
    have D: "D dec (Some v) (length v) = Some (1, dec', Some (vec_with v m'))"
      using assms(8) md o(1) by (auto simp: mpt_decode_r_def)
    show ?thesis using o(2-4) rest assms(5) d(2)
      by (intro exI [of _ dec'] exI [of _ "vec_with v m'"]) (simp add: D vb dec_idle_def vec_with_lengths [OF d(2)])
  next
    fix c out assume R: R and c: "s = Cut c out" "msg = out @ [of_nat c]"
    let ?e = "dcurr dec + length f"
    from d(6) c obtain p where o: "ret = MissingData" "take (length out) (drop off m') = out" "off + length out < ?e" "0 < c" "c < 256"
      "dec' = dec0\<lparr>dctx := p * 256 + c, dcurr := ?e - 1, dlen := length out\<rparr>" by auto
    have e: "?e \<le> length m'" using d(2) assms(4,5) by simp
    have "off + length out < length m'" using o(3) e by simp
    then obtain m2 where w: "wr m' (off + length out) [of_nat c] = Some m2" by (auto simp: wr_def)
    have "off + length out < length (mdata \<lparr>mbase = [], mcont = map snd (vec_with v m')\<rparr>)"
      using o(3) e by (simp add: vec_mdata vb)
    from read_none_base [OF this] obtain t where t: "mpt_message_read \<lparr>mbase = [], mcont = map snd (vec_with v m')\<rparr> (off + length out) None =
        Some (off + length out, t, None)" "mbase t \<noteq> []" by blast
    let ?d = "dec'\<lparr>dmsg := int (length out + 1), dlen := length out + 1, dctx := 0, dcurr := ?e\<rparr>"
    have D: "D dec (Some v) (length v) = Some (1, ?d, Some (vec_with (vec_with v m') m2))"
      using assms(8) R md o(1,3-6) t w d(5) by (auto simp: mpt_decode_r_def vb)
    have m2: "vec_bytes (vec_with (vec_with v m') m2) = m2" by (rule vec_with_bytes) (simp add: vb wr_length [OF w])
    have lens: "map (length \<circ> snd) (vec_with (vec_with v m') m2) = map (length \<circ> snd) v"
      using vec_with_lengths [of m2 "vec_with v m'"] vec_with_lengths [OF d(2)] wr_length [OF w] by (simp add: vb)
    have "drop ?e m2 = rest" using wr_frame(2) [OF w, of ?e] o(3) rest by simp
    moreover have "take (length out + 1) (drop off m2) = out @ [of_nat c]" using wr_extend [OF w] o(2) by simp
    ultimately show ?thesis using o(3,6) d(2,5) assms(5) c(2) wr_length [OF w]
      by (intro exI [of _ ?d] exI [of _ "vec_with (vec_with v m') m2"]) (simp add: D m2 dec_idle_def lens)
  qed
qed

section \<open>Properties\<close>

text \<open>Property C3: what one of the four encoders makes of a message, pushed in any non-empty pieces, the decoder
  of the same variant turns back into the message: it returns 1, the message bytes stand at the
  data offset of its state, exactly the frame is consumed, the bytes behind it are unchanged, and
  the state is ready for the next message.  The bytes of the frame may be spread over any elements at
  any addresses; COBS/ZPE needs the space in front that its expansion can take.\<close>

theorem cobs_roundtrip:
  assumes "enc = mpt_encode V \<and> D = mpt_decode V \<and> \<not> R \<or> enc = mpt_encode_r V \<and> D = mpt_decode_r V \<and> R"
    and "list_all (\<lambda>c. c \<noteq> []) cs" and "1 + enc_space V 1 (length (concat cs)) < length buf"
    and "encode_chunks enc MPT_ENCODE_INIT buf cs = Some (info', buf')"
    and "v \<noteq> []" and "vec_bytes v = pre @ take (edone info') buf' @ rest"
    and "dec_idle dec" and "dpos dec + dlen dec \<le> dcurr dec" and "dcurr dec = length pre"
    and "V = ZPE \<longrightarrow> edone info' + 15 \<le> dcurr dec - (dpos dec + dlen dec)"
  shows "\<exists>dec' v'. D dec (Some v) (length v) = Some (1, dec', Some v') \<and> length (vec_bytes v') = length (vec_bytes v)
     \<and> dec_idle dec' \<and> dmsg dec' = int (length (concat cs)) \<and> dcurr dec' = length pre + edone info'
     \<and> take (dlen dec') (drop (dpos dec') (vec_bytes v')) = concat cs \<and> drop (dcurr dec') (vec_bytes v') = rest"
proof -
  have E: "enc = mpt_encode V \<and> \<not> R \<or> enc = mpt_encode_r V \<and> R" and Dd: "D = mpt_decode V \<and> \<not> R \<or> D = mpt_decode_r V \<and> R"
    using assms(1) by blast+
  have "enc_state V [] MPT_ENCODE_INIT buf []" by (simp add: enc_state_def MPT_ENCODE_INIT_def)
  from chunks_ok [OF E this assms(2)] assms(3,4) obtain f where
    f: "take (edone info') buf' = f @ [0]" "frame_of V R (f @ [0]) = Some (concat cs)" "length (f @ [0]) = edone info'"
    by (auto simp: MPT_ENCODE_INIT_def enc_code_def)
  note len = f(3)
  have v: "vec_bytes v = pre @ (f @ [0]) @ rest" using assms(6) f(1) by simp
  have z: "V = ZPE \<longrightarrow> length (f @ [0]) + 15 \<le> dcurr dec - (dpos dec + dlen dec)" using assms(10) len by simp
  from decode_frame_ok [OF f(2) assms(7,8) v assms(9,5) z Dd] len show ?thesis by fastforce
qed

theorem cobs_roundtrip_witness:
  "\<exists>dec' v'. mpt_decode COBS MPT_DECODE_INIT (Some [(8, [2, 1]), (64, [2, 2, 0, 9])]) 2 = Some (1, dec', Some v')
     \<and> take (dlen dec') (drop (dpos dec') (vec_bytes v')) = [1, 0, 2] \<and> drop (dcurr dec') (vec_bytes v') = [9]"
proof -
  have e: "encode_chunks (mpt_encode COBS) MPT_ENCODE_INIT [7, 7, 7, 7, 7, 7, 7] [[1, 0], [2]] =
      Some (\<lparr>ectx = 0, edone = 5, escratch = 0\<rparr>, [2, 1, 2, 2, 0, 7, 7])"
    by (simp add: mpt_encode_def MPT_ENCODE_INIT_def encode_data_def encode_end_def wr_def Let_def)
  show ?thesis
    using cobs_roundtrip [OF _ _ _ e, of COBS "mpt_decode COBS" False "[(8, [2, 1]), (64, [2, 2, 0, 9])]" "[]" "[9]" MPT_DECODE_INIT]
    by (simp add: enc_space_def vec_bytes_def dec_idle_def MPT_DECODE_INIT_def numeral_2_eq_2) blast
qed



text \<open>The target of a message without data at an odd address is moved by one byte, if there is one.\<close>

lemma align_odd: "odd addr \<Longrightarrow> 0 < cur \<Longrightarrow> align_loop (2 ^ Suc n) addr cur 1 = 1"
proof (induction n)
  case 0
  then show ?case by (subst align_loop.simps) (simp add: Let_def odd_iff_mod_2_eq_one)
next
  case (Suc n)
  have "odd (addr mod 2 ^ Suc (Suc n))" using Suc.prems(1) by (simp add: dvd_mod_iff)
  then have "0 < addr mod 2 ^ Suc (Suc n)" by (rule odd_pos)
  moreover have "Suc 0 < 4 * 2 ^ n" using one_le_power [of "2 :: nat" n] by linarith
  ultimately show ?case using Suc by (subst align_loop.simps) (auto simp: Let_def)
qed

lemma align_none: "align_loop align addr cur 0 = 0"
  using align_loop_bound [of align addr cur 0] by simp

lemma vec_with_same: "vec_with v (vec_bytes v) = v"
  by (induction v) (auto simp: vec_bytes_def)

text \<open>A block without target space: no data byte is taken.\<close>

lemma loop_no_space:
  assumes "0 < cobs_len_data V code" and "0 < code" and "drop sp m = [] \<or> hd (drop sp m) \<noteq> 0"
  shows "dec_loop V single dec m off code 0 sp 0 0 = Some (0, dec_save dec off code 0 0 0, m)"
proof (cases "sp < length m")
  case True
  then have "m ! sp \<noteq> 0" using assms(3) by (simp add: hd_drop_conv_nth)
  then show ?thesis using True assms(1,2) by (subst dec_loop.simps) (simp add: dec_data.simps)
next
  case False
  then show ?thesis using loop_end [OF assms(2), of m sp] by simp
qed

lemma decode_parts_stall:
  assumes "0 < cobs_len_data V code" and "0 < code" and "code < 256" and "vec_bytes v = pre @ c # xs" and "xs = [] \<or> hd xs \<noteq> 0"
    and "j = length pre \<and> odd (vec_addr v j) \<or> j = Suc (length pre)"
  shows "decode_parts V \<lparr>dctx = code, dcurr = Suc (length pre), dpos = j, dlen = 0, dmsg = - 1\<rparr> v False
    = Some (0, \<lparr>dctx = code, dcurr = Suc (length pre), dpos = Suc (length pre), dlen = 0, dmsg = - 1\<rparr>, vec_bytes v)"
proof -
  let ?m = "vec_bytes v" and ?t0 = "\<lparr>mbase = [], mcont = map snd v\<rparr>" and ?k = "length pre"
  have j: "j \<le> Suc ?k" using assms(6) by auto
  define post where "post = Suc ?k - j"
  have jp: "j + post = Suc ?k" using j by (simp add: post_def)
  have len: "length ?m = Suc (?k + length xs)" by (simp add: assms(4))
  from read_none [of ?t0 j] obtain t1 where t1: "mpt_message_read ?t0 j None = Some (j, t1, None)" "mdata t1 = drop j ?m"
    using j len by (auto simp: vec_mdata)
  have al: "align_loop 16 (vec_addr v j) (length (mbase t1)) (Suc ?k - j) = post"
  proof (cases "j = Suc ?k")
    case True
    then show ?thesis by (simp add: align_none post_def)
  next
    case False
    then have jk: "j = ?k" "odd (vec_addr v j)" using assms(6) by auto
    from read_none_base [of j ?t0] t1(1) jk(1) len have "0 < length (mbase t1)" by (auto simp: vec_mdata)
    from align_odd [OF jk(2) this, of 3] show ?thesis using jk(1) by (simp add: post_def)
  qed
  from read_none [of t1 post] t1(2) obtain t2 where t2: "mpt_message_read t1 post None = Some (post, t2, None)"
    using jp len by auto
  from read_none [of t2 0] obtain t3 where t3: "mpt_message_read t2 0 None = Some (0, t3, None)" by auto
  let ?d = "\<lparr>dctx = code, dcurr = Suc ?k, dpos = Suc ?k, dlen = 0, dmsg = - 1\<rparr>"
  have tgt: "decode_target \<lparr>dctx = code, dcurr = Suc ?k, dpos = j, dlen = 0, dmsg = - 1\<rparr> v j (length (mbase t1)) (Suc ?k - j)
      = (Suc ?k, 0, post, ?d)"
    using al jp by (simp add: decode_target_def Let_def)
  have "drop (Suc ?k) ?m = xs" by (simp add: assms(4))
  then have "dec_loop V False ?d ?m (Suc ?k) code 0 (Suc ?k) 0 0 = Some (0, ?d, ?m)"
    using loop_no_space [OF assms(1,2), of "Suc ?k" ?m False ?d "Suc ?k"] assms(5) by (simp add: dec_save_def)
  then have "decode_begin V False ?d ?m (Suc ?k) 0 0 t2 code 0 = Some (0, ?d, ?m)"
    using t3 assms(2) by (simp add: decode_begin_def)
  then show ?thesis
    using t1(1) t2 tgt j assms(3) by (simp add: decode_parts_def Let_def post_def)
qed

lemma decode_stall:
  assumes "0 < cobs_len_data V code" and "0 < code" and "code < 256" and "vec_bytes v = pre @ c # xs" and "xs = [] \<or> hd xs \<noteq> 0"
    and "j = length pre \<and> odd (vec_addr v j) \<or> j = Suc (length pre)" and "D = mpt_decode V \<or> D = mpt_decode_r V"
  shows "D \<lparr>dctx = code, dcurr = Suc (length pre), dpos = j, dlen = 0, dmsg = - 1\<rparr> (Some v) (length v)
    = Some (0, \<lparr>dctx = code, dcurr = Suc (length pre), dpos = Suc (length pre), dlen = 0, dmsg = - 1\<rparr>, Some v)"
proof -
  have "v \<noteq> []" using assms(4) by (auto simp: vec_bytes_def)
  then have "mpt_decode V \<lparr>dctx = code, dcurr = Suc (length pre), dpos = j, dlen = 0, dmsg = - 1\<rparr> (Some v) (length v)
    = Some (0, \<lparr>dctx = code, dcurr = Suc (length pre), dpos = Suc (length pre), dlen = 0, dmsg = - 1\<rparr>, Some v)"
    using decode_parts_stall [OF assms(1-6)] by (simp add: mpt_decode_def vec_with_same)
  then show ?thesis using assms(7) by (auto simp: mpt_decode_r_def)
qed

text \<open>The call that reads the first code byte, where the message begins directly behind the data before it.\<close>

lemma decode_first:
  assumes "c \<noteq> 0" and "vec_bytes v = pre @ [c]" and "D = mpt_decode V \<or> D = mpt_decode_r V"
  shows "D \<lparr>dctx = 0, dcurr = length pre, dpos = length pre, dlen = 0, dmsg = - 1\<rparr> (Some v) (length v)
    = Some (0, \<lparr>dctx = unat c, dcurr = Suc (length pre), dpos = length pre, dlen = 0, dmsg = - 1\<rparr>, Some v)"
proof -
  let ?m = "vec_bytes v" and ?t0 = "\<lparr>mbase = [], mcont = map snd v\<rparr>" and ?k = "length pre"
  let ?d = "\<lparr>dctx = 0, dcurr = ?k, dpos = ?k, dlen = 0, dmsg = - 1\<rparr>"
  have ne: "v \<noteq> []" using assms(2) by (auto simp: vec_bytes_def)
  from read_none [of ?t0 ?k] obtain t1 where t1: "mpt_message_read ?t0 ?k None = Some (?k, t1, None)" "mdata t1 = [c]"
    using assms(2) by (auto simp: vec_mdata)
  from read_none [of t1 0] t1(2) obtain t2 where t2: "mpt_message_read t1 0 None = Some (0, t2, None)" "mdata t2 = [c]" by auto
  from read_none [of t2 0] t2(2) obtain t3 where t3: "mpt_message_read t2 0 None = Some (0, t3, None)" "mdata t3 = [c]" by auto
  from read_byte [of t3 c "[]"] t3(2) obtain t4 where t4: "mpt_message_read t3 1 (Some ([0], 0)) = Some (1, t4, Some ([c], 1))" by auto
  have "dec_loop V False ?d ?m ?k (unat c) 0 (Suc ?k) 0 (Suc 0) = Some (0, dec_save ?d ?k (unat c) 0 0 (Suc 0), ?m)"
    by (rule loop_end) (use assms(1,2) in \<open>simp_all add: unat_gt_0\<close>)
  then have "decode_begin V False ?d ?m ?k 0 0 t2 0 0
      = Some (0, \<lparr>dctx = unat c, dcurr = Suc ?k, dpos = ?k, dlen = 0, dmsg = - 1\<rparr>, ?m)"
    using t3(1) t4 assms(1) by (simp add: decode_begin_def dec_save_def)
  then have "decode_parts V ?d v False = Some (0, \<lparr>dctx = unat c, dcurr = Suc ?k, dpos = ?k, dlen = 0, dmsg = - 1\<rparr>, ?m)"
    using t1(1) t2(1) by (simp add: decode_parts_def decode_target_def align_none Let_def)
  then have "mpt_decode V ?d (Some v) (length v)
      = Some (0, \<lparr>dctx = unat c, dcurr = Suc ?k, dpos = ?k, dlen = 0, dmsg = - 1\<rparr>, Some v)"
    using ne by (simp add: mpt_decode_def vec_with_same)
  then show ?thesis using assms(3) by (auto simp: mpt_decode_r_def)
qed

text \<open>Property C27: for each of the four decoders, a message of which only the first code byte has arrived is
  never decoded if this byte is at an odd address, directly behind the bytes that were decoded before, and its block has data: its
  code counts data bytes, and the byte that arrives behind it is not zero (with tail inlining the message of
  one byte has no such byte and is decoded).
  The call that finds the code byte alone takes it; the next call moves the target behind it,
  after which no target space is left; and every further call returns 0 in the same state
  and with the same bytes, whatever has arrived behind the code byte, the rest of the complete message
  as well.\<close>

theorem decode_stalls:
  assumes "0 < cobs_len_data V (unat c)" and "D = mpt_decode V \<or> D = mpt_decode_r V"
  shows "\<exists>taken stalled.
    (\<forall>v. vec_bytes v = pre @ [c] \<longrightarrow>
       D \<lparr>dctx = 0, dcurr = length pre, dpos = length pre, dlen = 0, dmsg = - 1\<rparr> (Some v) (length v) = Some (0, taken, Some v))
    \<and> (\<forall>v xs. vec_bytes v = pre @ c # xs \<longrightarrow> (xs = [] \<or> hd xs \<noteq> 0) \<longrightarrow> odd (vec_addr v (length pre)) \<longrightarrow>
         D taken (Some v) (length v) = Some (0, stalled, Some v) \<and> D stalled (Some v) (length v) = Some (0, stalled, Some v))"
proof -
  have c: "c \<noteq> 0" "0 < unat c" "unat c < 256" using assms(1) unsigned_less [of c] by (cases V; auto simp: unat_gt_0)+
  note first = decode_first [OF c(1) _ assms(2)] and more = decode_stall [OF assms(1) c(2,3) _ _ _ assms(2)]
  show ?thesis
    by (rule exI [of _ "\<lparr>dctx = unat c, dcurr = Suc (length pre), dpos = length pre, dlen = 0, dmsg = - 1\<rparr>"],
        rule exI [of _ "\<lparr>dctx = unat c, dcurr = Suc (length pre), dpos = Suc (length pre), dlen = 0, dmsg = - 1\<rparr>"])
      (intro conjI allI impI first more; auto)
qed

theorem decode_stalls_witness:
  "\<exists>taken stalled. mpt_decode_cobs MPT_DECODE_INIT (Some [(1, [3])]) 1 = Some (0, taken, Some [(1, [3])])
     \<and> mpt_decode_cobs taken (Some [(1, [3, 65, 66, 0])]) 1 = Some (0, stalled, Some [(1, [3, 65, 66, 0])])
     \<and> mpt_decode_cobs stalled (Some [(1, [3, 65, 66, 0, 2, 67, 0])]) 1 = Some (0, stalled, Some [(1, [3, 65, 66, 0, 2, 67, 0])])
     \<and> run COBS Idle [3, 65, 66, 0] = (Msg [65, 66], 4)"
proof -
  from decode_stalls [of COBS 3 "mpt_decode COBS" "[]"] obtain taken stalled where
    s: "\<forall>v. vec_bytes v = [] @ [3] \<longrightarrow> mpt_decode COBS \<lparr>dctx = 0, dcurr = length ([] :: block), dpos = length ([] :: block), dlen = 0, dmsg = - 1\<rparr>
          (Some v) (length v) = Some (0, taken, Some v)"
      "\<forall>v xs. vec_bytes v = [] @ 3 # xs \<longrightarrow> (xs = [] \<or> hd xs \<noteq> 0) \<longrightarrow> odd (vec_addr v (length ([] :: block))) \<longrightarrow>
         mpt_decode COBS taken (Some v) (length v) = Some (0, stalled, Some v) \<and> mpt_decode COBS stalled (Some v) (length v) = Some (0, stalled, Some v)"
    by auto
  from s(1) [rule_format, of "[(1, [3])]"] s(2) [rule_format, of "[(1, [3, 65, 66, 0])]" "[65, 66, 0]"]
    s(2) [rule_format, of "[(1, [3, 65, 66, 0, 2, 67, 0])]" "[65, 66, 0, 2, 67, 0]"]
  show ?thesis by (intro exI [of _ taken] exI [of _ stalled])
    (simp add: mpt_decode_cobs_def vec_bytes_def MPT_DECODE_INIT_def Let_def)
qed

end
