(* ===== verification/TextCoding.thy ===== *)
theory TextCoding
  imports CobsEncode CobsDecode Message Identifier
begin

text \<open>
  Text encodings: \<open>encode_string.c\<close> (text with a delimiter behind each message), \<open>decode_command.c\<close>
  (zero-terminated text as command messages), the selection of encoders and decoders by code and name
  (\<open>encoder.c\<close>, \<open>decoder.c\<close>, \<open>encoding.c\<close>), and the small text helpers of \<open>mptcore/convert\<close>:
  \<open>convert_key.c\<close>, \<open>newline_string.c\<close>, and the change of the byte order in \<open>bswap.c\<close>.
\<close>

section \<open>Encoder\<close>

definition byte_at :: "block \<Rightarrow> int \<Rightarrow> byte option" where
  "byte_at m p = (if 0 \<le> p \<and> p < int (length m) then Some (m ! nat p) else None)"

text \<open>The search for a delimiter of several bytes.  The position read next is in the target or in the source
  (\<open>Inl\<close>, \<open>Inr\<close>); the bound of the inner loop tests the outer counter, so only a difference ends it.\<close>

function cmp_tail :: "block \<Rightarrow> block \<Rightarrow> int + int \<Rightarrow> nat \<Rightarrow> int \<Rightarrow> int option" where
  "cmp_tail b s v c j =
     (if c \<ge> length b then None
      else (let v = (if j = 0 then Inr 0 else v) in do {
        x \<leftarrow> (case v of Inl p \<Rightarrow> byte_at b p | Inr p \<Rightarrow> byte_at s p);
        if x \<noteq> b ! c then Some j
        else cmp_tail b s (map_sum (\<lambda>p. p + 1) (\<lambda>p. p + 1) v) (c + 1) (j + 1) }))"
  by pat_completeness auto
termination
  by (relation "measure (\<lambda>(b, s, v, c, j). length b - c)") auto

function sep_scan :: "block \<Rightarrow> block \<Rightarrow> nat \<Rightarrow> int \<Rightarrow> int \<Rightarrow> int \<Rightarrow> int \<Rightarrow> bool option" where
  "sep_scan b s off len tot i v =
     (if i < tot then do {
        x \<leftarrow> byte_at b v;
        y \<leftarrow> byte_at b (int off);
        if x \<noteq> y then sep_scan b s off len tot (i + 1) (v + 1)
        else do {
          j \<leftarrow> cmp_tail b s (Inl (v + 1)) (off + 1) (i + 1);
          if j = i + 1 + len then Some True else sep_scan b s off len tot (i + 1) (v + 1) } }
      else Some False)"
  by pat_completeness auto
termination
  by (relation "measure (\<lambda>(b, s, off, len, tot, i, v). nat (tot - i))") auto

text \<open>The loop that steps back over messages.\<close>

fun drop_messages :: "block \<Rightarrow> int \<Rightarrow> nat \<Rightarrow> nat \<Rightarrow> nat option" where
  "drop_messages b tok 0 off = Some off"
| "drop_messages b tok (Suc n) off =
     (let p = mpt_memrchr [take off b] tok in if p \<ge> 0 then drop_messages b tok n (nat p) else None)"

definition string_end :: "encode_state \<Rightarrow> block option \<Rightarrow> nat \<Rightarrow> (int \<times> encode_state \<times> block option) option" where
  "string_end info tb siz =
     (let sep = escratch info; off = edone info + escratch info in
      if siz - off < (if sep = 0 then 1 else sep) then Some (MissingBuffer, info, tb)
      else do {
        b \<leftarrow> tb;
        b \<leftarrow> (if sep = 0 then wr b off [of_nat (ectx info)] else memcpy_b b (off - sep) off sep);
        Some (0, info\<lparr>edone := off + (if sep = 0 then 1 else sep)\<rparr>, Some b) })"

definition string_delete :: "encode_state \<Rightarrow> block option \<Rightarrow> nat \<Rightarrow> (int \<times> encode_state \<times> block option) option" where
  "string_delete info tb n =
     (let off = edone info + escratch info in
      if off = 0 then Some (MissingData, info, tb)
      else do {
        b \<leftarrow> tb;
        z \<leftarrow> rd b (off - 1) 1;
        Some (case drop_messages b (int (ectx info)) n (if hd z = 0 then off - 1 else off) of
            None \<Rightarrow> (MissingData, info, tb)
          | Some p \<Rightarrow> (int p, info\<lparr>edone := usub (edone info) p\<rparr>, tb)) })"

definition string_data :: "encode_state \<Rightarrow> block option \<Rightarrow> nat \<Rightarrow> block \<Rightarrow> (int \<times> encode_state \<times> block option) option" where
  "string_data info tb siz s =
     (let sep = escratch info; off = edone info + escratch info; n = min (length s) (siz - off) in
      if siz - off = 0 then Some (MissingBuffer, info, tb)
      else if sep = 0 then
        (if of_nat (ectx info) \<in> set (take n s) then Some (BadEncoding, info, tb)
         else do { b \<leftarrow> tb; b \<leftarrow> wr b off (take n s); Some (int n, info\<lparr>edone := off + n\<rparr>, Some b) })
      else do {
        b \<leftarrow> tb;
        let i = (if off < length s then - int off else 1 - int (length s));
        hit \<leftarrow> sep_scan b s off (int (length s)) (int n - int (length s)) i (int off - int (length s) + i);
        if hit then Some (- 3, info, tb)
        else do {
          b \<leftarrow> memmove_b b (off + n - sep) (off - sep) sep;
          b \<leftarrow> wr b (off - sep) (take n s);
          Some (int n, info\<lparr>edone := off + n\<rparr>, Some b) } })"

definition mpt_encode_string :: encoder where
  "mpt_encode_string info to from = (case to of
     None \<Rightarrow> Some (0, MPT_ENCODE_INIT, None)
   | Some (tb, siz) \<Rightarrow>
       if edone info + escratch info > siz then Some (- 1, info, tb)
       else (case from of
           None \<Rightarrow> string_end info tb siz
         | Some (fb, n) \<Rightarrow>
             if n = 0 then Some (BadArgument, info, tb)
             else (case fb of None \<Rightarrow> string_delete info tb n | Some s \<Rightarrow> string_data info tb siz s)))"

section \<open>Decoder\<close>

text \<open>Elements as positions and lengths in the joined bytes; \<open>message_read\<close> without a target steps over them.\<close>

fun spans :: "nat \<Rightarrow> vec \<Rightarrow> (nat \<times> nat) list" where
  "spans p [] = []"
| "spans p ((a, b) # v) = (p, length b) # spans (p + length b) v"

fun skip_parts :: "nat \<Rightarrow> nat \<Rightarrow> (nat \<times> nat) list \<Rightarrow> nat \<times> nat \<times> (nat \<times> nat) list" where
  "skip_parts base used [] = (base, used, [])"
| "skip_parts base used ((p, l) # cs) = (if used = 0 then skip_parts p l cs else (base, used, (p, l) # cs))"

fun seek_parts :: "nat \<Rightarrow> nat \<Rightarrow> (nat \<times> nat) list \<Rightarrow> nat \<Rightarrow> (nat \<times> nat \<times> (nat \<times> nat) list) option" where
  "seek_parts base used [] n = (if n > used then None else Some (base + n, used - n, []))"
| "seek_parts base used ((p, l) # cs) n =
     (if n > used then seek_parts p l cs (n - used) else Some (skip_parts (base + n) (used - n) ((p, l) # cs)))"

text \<open>The header is written at \<open>e\<close>, while the base stays at the start of the element.\<close>

fun put_head :: "block \<Rightarrow> nat \<Rightarrow> nat \<Rightarrow> nat \<Rightarrow> (nat \<times> nat) list \<Rightarrow> block \<Rightarrow>
    (block + block \<times> nat \<times> nat \<times> (nat \<times> nat) list) option" where
  "put_head [] e base used cs m = Some (Inr (m, base, used, cs))"
| "put_head (h # hs) e base used [] m =
     (if used > 0 then do { m \<leftarrow> wr m e [h]; put_head hs (e + 1) base (used - 1) [] m } else Some (Inl m))"
| "put_head (h # hs) e base used ((p, l) # cs) m =
     (if used > 0 then do { m \<leftarrow> wr m e [h]; put_head hs (e + 1) base (used - 1) ((p, l) # cs) m }
      else put_head (h # hs) p p l cs m)"

text \<open>The position of the first zero byte.\<close>

definition zero_pos :: "block \<Rightarrow> nat option" where
  "zero_pos d = (let k = length (takeWhile (\<lambda>x. x \<noteq> 0) d) in if k < length d then Some k else None)"

fun scan_zero :: "block \<Rightarrow> nat \<Rightarrow> nat \<Rightarrow> (nat \<times> nat) list \<Rightarrow> nat \<Rightarrow> bool \<times> nat" where
  "scan_zero m base used [] len =
     (case zero_pos (take used (drop base m)) of Some k \<Rightarrow> (True, len + k) | None \<Rightarrow> (False, len + used))"
| "scan_zero m base used ((p, l) # cs) len =
     (case zero_pos (take used (drop base m)) of Some k \<Rightarrow> (True, len + k) | None \<Rightarrow> scan_zero m p l cs (len + used))"

definition command_end :: "decode_state \<Rightarrow> nat \<Rightarrow> nat \<Rightarrow> bool \<times> nat \<Rightarrow> int \<times> decode_state" where
  "command_end dec n off r =
     (if fst r then
        (if n = 0 \<or> dmsg dec \<ge> 0 then (1, dec\<lparr>dcurr := off + snd r, dlen := snd r\<rparr>)
         else (1, dec\<lparr>dlen := snd r, dmsg := int (snd r), dcurr := off + snd r + 1\<rparr>))
      else (0, dec\<lparr>dlen := snd r, dcurr := off + snd r\<rparr>))"

definition mpt_decode_command :: decoder where
  "mpt_decode_command dec source n = (case source of
     None \<Rightarrow> Some (0, MPT_DECODE_INIT, None)
   | Some v \<Rightarrow>
       if dmsg dec \<ge> 0 \<and> n = 0 then Some (BadOperation, dec, Some v)
       else if length v < max n 1 then None
       else
         (let pos = dcurr dec; m = vec_bytes v; parts = spans 0 (take (max n 1) v);
              len = (if dmsg dec \<ge> 0 then usub (dlen dec) (nat (dmsg dec)) else dlen dec) in
          if len = 0 then
            (if n = 0 then Some (BadOperation, dec, Some v)
             else if pos < 2 then Some (MissingBuffer, dec, Some v)
             else (case seek_parts 0 0 parts (pos - 2) of
                 None \<Rightarrow> Some (MissingData, dec, Some v)
               | Some (base, used, cs) \<Rightarrow> do {
                   r \<leftarrow> put_head [4, 32] base base used cs m;
                   Some (case r of
                       Inl m \<Rightarrow> (MissingBuffer, dec, Some (vec_with v m))
                     | Inr (m, base, used, cs) \<Rightarrow>
                         (let (ret, dec) = command_end (dec\<lparr>dpos := pos - 2, dlen := 2, dmsg := - 1\<rparr>) n (pos - 2)
                               (scan_zero m base used cs 2)
                          in (ret, dec, Some (vec_with v m)))) }))
          else if pos \<noteq> dpos dec + len then Some (BadArgument, dec, Some v)
          else (case seek_parts 0 0 parts pos of
              None \<Rightarrow> Some (MissingData, dec, Some v)
            | Some (base, used, cs) \<Rightarrow>
                let (ret, dec) = command_end dec n (dpos dec) (scan_zero m base used cs len) in Some (ret, dec, Some v))))"

section \<open>Selection\<close>

definition mpt_message_encoder :: "int \<Rightarrow> encoder option" where
  "mpt_message_encoder code =
     (if code = 1 then Some mpt_encode_string
      else if code = 2 then Some mpt_encode_cobs
      else if code = 3 then Some mpt_encode_cobs_r
      else if code = 6 then Some mpt_encode_cobs_zpe
      else if code = 7 then Some mpt_encode_cobs_zpe_r else None)"

definition mpt_message_decoder :: "int \<Rightarrow> decoder option" where
  "mpt_message_decoder code =
     (let code = code mod 128 in
      if code = 1 then Some mpt_decode_command
      else if code = 2 then Some mpt_decode_cobs
      else if code = 3 then Some mpt_decode_cobs_r
      else if code = 6 then Some mpt_decode_cobs_zpe
      else if code = 7 then Some mpt_decode_cobs_zpe_r else None)"

text \<open>Names without their terminating byte.\<close>

definition encodings :: "(block \<times> int) list" where
  "encodings = [([], 0), ([110, 111, 110, 101], 0), ([99, 111, 109, 109, 97, 110, 100], 1),
     ([99, 111, 98, 115], 2), ([99, 111, 98, 115, 47, 114], 3),
     ([99, 111, 98, 115, 47, 122, 112, 101], 6), ([99, 111, 98, 115, 47, 99], 6),
     ([99, 111, 98, 115, 47, 122, 112, 101, 43, 114], 7)]"

text \<open>\<open>strncasecmp\<close> with the length of a name of the table.\<close>

fun case_eq :: "block \<Rightarrow> block \<Rightarrow> bool option" where
  "case_eq [] s = Some True"
| "case_eq (c # cs) [] = None"
| "case_eq (c # cs) (x # xs) = (if tolower (uint c) = tolower (uint x) then case_eq cs xs else Some False)"

fun find_encoding :: "(block \<times> int) list \<Rightarrow> block \<Rightarrow> nat \<Rightarrow> int option" where
  "find_encoding [] s n = Some (- 2)"
| "find_encoding ((e, i) # es) s n =
     (if length e = n then do { q \<leftarrow> case_eq e s; if q then Some i else find_encoding es s n }
      else find_encoding es s n)"

definition mpt_encoding_value :: "block option \<Rightarrow> int \<Rightarrow> int option" where
  "mpt_encoding_value name len = (case name of None \<Rightarrow> Some 0
     | Some s \<Rightarrow> do {
         n \<leftarrow> (if len < 0 then c_strlen s else Some (nat len));
         find_encoding encodings s n })"

definition mpt_encoding_type :: "int \<Rightarrow> block option" where
  "mpt_encoding_type type = map_option fst (find (\<lambda>(e, i). i = type) encodings)"

section \<open>Helpers for text\<close>

text \<open>Line ends: 1 for Mac, 2 for Unix (the platform modelled), 3 for the network.\<close>

definition mpt_newline_native :: int where
  "mpt_newline_native = 2"

definition mpt_newline_string :: "int \<Rightarrow> block" where
  "mpt_newline_string type =
     (let type = (if type \<le> 0 then mpt_newline_native else type) in
      if type = 1 then [13, 0] else if type = 2 then [10, 0] else [13, 10, 0])"

text \<open>The loops of \<open>mpt_convert_key\<close> on the rest of the text, with the position in the text.\<close>

fun key_start :: "block \<Rightarrow> nat \<Rightarrow> (nat \<times> block) option" where
  "key_start [] p = None"
| "key_start (c # cs) p = (if c \<noteq> 0 \<and> isspace (sint c) then key_start cs (p + 1) else Some (p, c # cs))"

fun key_until :: "bool \<Rightarrow> block \<Rightarrow> block \<Rightarrow> nat \<Rightarrow> nat \<Rightarrow> nat \<Rightarrow> (nat \<times> nat) option" where
  "key_until match sep [] e key len = None"
| "key_until match sep (c # cs) e key len =
     (if c = 0 then Some (e, len)
      else if isspace (sint c) then (if match then Some (e, len) else key_until match sep cs (e + 1) key len)
      else if c \<in> set sep then Some (e + 1, len)
      else key_until match sep cs (e + 1) key (e + 1 - key))"

fun key_word :: "block \<Rightarrow> nat \<Rightarrow> nat \<Rightarrow> (nat \<times> nat) option" where
  "key_word [] e len = None"
| "key_word (c # cs) e len =
     (if c = 0 \<or> isspace (sint c) then Some (e, len) else key_word cs (e + 1) (len + 1))"

text \<open>Start and length of the keyword and the position behind it.\<close>

definition mpt_convert_key :: "block option \<Rightarrow> block option \<Rightarrow> (nat \<times> nat \<times> nat) option option" where
  "mpt_convert_key src sep = (case src of None \<Rightarrow> Some None
     | Some s \<Rightarrow> do {
         (key, cs) \<leftarrow> key_start s 0;
         (e, len) \<leftarrow> (case sep of
             None \<Rightarrow> key_word cs key 0
           | Some p \<Rightarrow> do {
               n \<leftarrow> c_strlen p;
               let p = take n p;
               key_until (\<exists>c \<in> set p. isspace (sint c)) p cs key key 0 });
         Some (if e = key then None else Some (key, len, e)) })"

section \<open>Byte order\<close>

fun bswap_loop :: "nat \<Rightarrow> nat \<Rightarrow> block \<Rightarrow> nat \<Rightarrow> block option" where
  "bswap_loop n 0 m p = Some m"
| "bswap_loop n (Suc k) m p = do { x \<leftarrow> rd m p n; m \<leftarrow> wr m p (rev x); bswap_loop n k m (p + n) }"

definition mpt_bswap_80 :: "int \<Rightarrow> block \<Rightarrow> block option" where
  "mpt_bswap_80 len m = bswap_loop 10 (nat len) m 0"

definition mpt_bswap_64 :: "int \<Rightarrow> block \<Rightarrow> block option" where
  "mpt_bswap_64 len m = bswap_loop 8 (nat len) m 0"

definition mpt_bswap_32 :: "int \<Rightarrow> block \<Rightarrow> block option" where
  "mpt_bswap_32 len m = bswap_loop 4 (nat len) m 0"

definition mpt_bswap_16 :: "int \<Rightarrow> block \<Rightarrow> block option" where
  "mpt_bswap_16 len m = bswap_loop 2 (nat len) m 0"

section \<open>Encoding text\<close>

lemma string_data_ok:
  assumes "escratch info = 0" "c \<noteq> []" "edone info + length c \<le> length buf" "of_nat (ectx info) \<notin> set c"
  shows "mpt_encode_string info (Some (Some buf, length buf)) (Some (Some c, length c)) =
    Some (int (length c), info\<lparr>edone := edone info + length c\<rparr>,
      Some (take (edone info) buf @ c @ drop (edone info + length c) buf))"
  using assms by (simp add: mpt_encode_string_def string_data_def wr_def min_def Let_def) (cases c; simp)

lemma string_end_ok:
  assumes "escratch info = 0" "edone info < length buf"
  shows "mpt_encode_string info (Some (Some buf, length buf)) None =
    Some (0, info\<lparr>edone := edone info + 1\<rparr>,
      Some (take (edone info) buf @ [of_nat (ectx info)] @ drop (edone info + 1) buf))"
  using assms by (simp add: mpt_encode_string_def string_end_def wr_def Let_def)

lemma string_chunks:
  assumes "list_all (\<lambda>c. c \<noteq> []) cs" "escratch info = 0" "of_nat (ectx info) \<notin> set (concat cs)"
    and "edone info + length (concat cs) < length buf"
  shows "\<exists>buf'. encode_chunks mpt_encode_string info buf cs = Some (info\<lparr>edone := edone info + length (concat cs) + 1\<rparr>, buf')
    \<and> length buf' = length buf
    \<and> take (edone info + length (concat cs) + 1) buf' = take (edone info) buf @ concat cs @ [of_nat (ectx info)]"
  using assms
proof (induction cs arbitrary: info buf)
  case Nil
  then show ?case using string_end_ok [of info buf] by simp
next
  case (Cons c cs)
  define i where "i = info\<lparr>edone := edone info + length c\<rparr>"
  define b where "b = take (edone info) buf @ c @ drop (edone info + length c) buf"
  have e: "mpt_encode_string info (Some (Some buf, length buf)) (Some (Some c, length c)) = Some (int (length c), i, Some b)"
    using Cons.prems unfolding i_def b_def by (intro string_data_ok) auto
  have l: "length b = length buf" using Cons.prems(4) by (simp add: b_def)
  have t: "take (edone i) b = take (edone info) buf @ c" using Cons.prems(4) by (simp add: b_def i_def)
  obtain b' where "encode_chunks mpt_encode_string i b cs = Some (i\<lparr>edone := edone i + length (concat cs) + 1\<rparr>, b')"
    "length b' = length b" "take (edone i + length (concat cs) + 1) b' = take (edone i) b @ concat cs @ [of_nat (ectx i)]"
    using Cons.IH [of i b] Cons.prems l by (auto simp: i_def)
  then show ?case using e l unfolding t by (simp add: i_def add.assoc)
qed

text \<open>A delimiter inside of the data is refused without a change.\<close>

lemma string_delimiter_refused:
  assumes "escratch info = 0" "of_nat (ectx info) \<in> set c" "edone info + length c \<le> length buf"
  shows "mpt_encode_string info (Some (Some buf, length buf)) (Some (Some c, length c)) = Some (BadEncoding, info, Some buf)"
  using assms by (cases c) (auto simp: mpt_encode_string_def string_data_def min_def Let_def)


section \<open>Decoding text\<close>

lemma skip_parts_used: "used > 0 \<Longrightarrow> skip_parts base used cs = (base, used, cs)"
  by (cases cs) auto

lemma put_head_step:
  "used > 0 \<Longrightarrow> wr m e [h] = Some m' \<Longrightarrow> put_head (h # hs) e base used cs m = put_head hs (e + 1) base (used - 1) cs m'"
  by (cases cs) auto

lemma vec_bytes_Cons [simp]: "vec_bytes ((a, b) # v) = b @ vec_bytes v"
  by (simp add: vec_bytes_def)

lemma zero_in_take:
  assumes "xs = t @ 0 # r" "0 \<notin> set t"
  shows "zero_pos (take n xs) = (if length t < n then Some (length t) else None)"
proof (cases "length t < n")
  case True
  then have "take n xs = t @ 0 # take (n - Suc (length t)) r" using assms(1) by (simp add: take_Cons')
  moreover have "takeWhile (\<lambda>x. x \<noteq> 0) (t @ 0 # take (n - Suc (length t)) r) = t"
    using assms(2) by (subst takeWhile_append2) auto
  ultimately show ?thesis using True by (simp add: zero_pos_def Let_def)
next
  case False
  then have "take n xs = take n t" using assms(1) by simp
  moreover have "takeWhile (\<lambda>x. x \<noteq> 0) (take n t) = take n t"
    using assms(2) by (auto simp: takeWhile_eq_all_conv dest: in_set_takeD)
  ultimately have "length (takeWhile (\<lambda>x. x \<noteq> 0) (take n xs)) = length (take n xs)" by (simp only:)
  then show ?thesis using False by (simp only: zero_pos_def Let_def if_False less_irrefl)
qed

text \<open>The scan finds the first zero byte, whatever the distribution on elements.\<close>

lemma scan_zero_spans:
  assumes "drop base m = t @ 0 # r" "0 \<notin> set t" "base + used + length (vec_bytes w) = length m"
  shows "scan_zero m base used (spans (base + used) w) len = (True, len + length t)"
  using assms
proof (induction w arbitrary: base used t len)
  case Nil
  have "length (drop base m) = used" using Nil.prems(3) by (simp add: vec_bytes_def)
  then have "length t < used" unfolding Nil.prems(1) by simp
  then show ?case using zero_in_take [OF Nil.prems(1,2), of used] by simp
next
  case (Cons x w)
  obtain a b where x: "x = (a, b)" by fastforce
  show ?case
  proof (cases "length t < used")
    case True
    then show ?thesis using zero_in_take [OF Cons.prems(1,2), of used] x by simp
  next
    case False
    have "drop (base + used) m = drop used (drop base m)" by (simp add: add.commute)
    then have "drop (base + used) m = drop used t @ 0 # r"
      using False unfolding Cons.prems(1) by simp
    moreover have "0 \<notin> set (drop used t)" using Cons.prems(2) by (auto dest: in_set_dropD)
    moreover have "base + used + length b + length (vec_bytes w) = length m" using Cons.prems(3) x by simp
    ultimately have "scan_zero m (base + used) (length b) (spans (base + used + length b) w) (len + used) =
        (True, len + used + length (drop used t))" by (rule Cons.IH)
    then show ?thesis using False x zero_in_take [OF Cons.prems(1,2), of used] by simp
  qed
qed

lemma decode_command_ok:
  assumes "2 \<le> length h" "vec_bytes w = t @ 0 # r" "0 \<notin> set t"
    and "dcurr dec = length h" "dlen dec = 0 \<and> dmsg dec < 0 \<or> dmsg dec = int (dlen dec)"
  shows "\<exists>v'. mpt_decode_command dec (Some ((a, h) # w)) (Suc (length w)) =
      Some (1, dec\<lparr>dpos := length h - 2, dlen := length t + 2, dmsg := int (length t) + 2, dcurr := length h + length t + 1\<rparr>, Some v')
    \<and> vec_bytes v' = take (length h - 2) h @ [4, 32] @ t @ 0 # r"
proof -
  define p where "p = length h - 2"
  define m where "m = h @ t @ 0 # r"
  define m' where "m' = take p h @ [4, 32] @ t @ 0 # r"
  have v: "vec_bytes ((a, h) # w) = m" using assms(2) by (simp add: m_def)
  have len: "(if dmsg dec \<ge> 0 then usub (dlen dec) (nat (dmsg dec)) else dlen dec) = 0" using assms(5) by auto
  have seek: "seek_parts 0 0 (spans 0 ((a, h) # w)) (dcurr dec - 2) = Some (p, 2, spans (length h) w)"
  proof (cases "length h = 2")
    case True
    then show ?thesis using assms(4) by (simp add: p_def skip_parts_used numeral_2_eq_2)
  next
    case False
    then have "seek_parts 0 (length h) (spans (length h) w) p = Some (p, 2, spans (length h) w)"
      using assms(1) by (cases "spans (length h) w") (auto simp: p_def skip_parts_used)
    then show ?thesis using False assms(1,4) by (simp add: p_def)
  qed
  have head: "put_head [4, 32] p p 2 (spans (length h) w) m = Some (Inr (m', p, 0, spans (length h) w))"
  proof -
    have "h = take p h @ [h ! p, h ! Suc p]" using assms(1)
      by (metis Cons_nth_drop_Suc Suc_leI add_2_eq_Suc' append_take_drop_id diff_add drop_eq_Nil le_refl lessI less_SucI p_def)
    then have m: "m = take p h @ [h ! p] @ [h ! Suc p] @ t @ 0 # r" unfolding m_def by (metis append.assoc append_Cons append_Nil)
    have l: "p = length (take p h)" by (simp add: p_def)
    have "wr m p [4] = Some (take p h @ [4] @ [h ! Suc p] @ t @ 0 # r)"
      unfolding m by (rule wr_parts [OF l]) simp
    moreover have "wr ((take p h @ [4]) @ [h ! Suc p] @ t @ 0 # r) (p + 1) [32] = Some ((take p h @ [4]) @ [32] @ t @ 0 # r)"
      using l by (intro wr_parts) simp_all
    ultimately show ?thesis by (simp add: m'_def put_head_step)
  qed
  have scan: "scan_zero m' p 0 (spans (length h) w) 2 = (True, length t + 2)"
  proof -
    obtain a' b' w' where w: "w = (a', b') # w'" using assms(2) by (cases w) (auto simp: vec_bytes_def)
    have hp: "length h = p + 2" using assms(1) by (simp add: p_def)
    have "drop (length h) m' = t @ 0 # r" by (simp add: m'_def hp)
    moreover have "length (b' @ vec_bytes w') = length (t @ 0 # r)" using assms(2) w by (simp only: vec_bytes_Cons)
    then have "length h + length b' + length (vec_bytes w') = length m'" using hp by (simp add: m'_def)
    ultimately have "scan_zero m' (length h) (length b') (spans (length h + length b') w') 2 = (True, 2 + length t)"
      using assms(3) by (intro scan_zero_spans)
    then show ?thesis by (simp add: w zero_pos_def)
  qed
  have hp: "length h = p + 2" using assms(1) by (simp add: p_def)
  have lv: "length m' = length (vec_bytes ((a, h) # w))" using assms(1,2) by (simp add: m'_def p_def)
  have "mpt_decode_command dec (Some ((a, h) # w)) (Suc (length w)) =
      Some (1, dec\<lparr>dpos := length h - 2, dlen := length t + 2, dmsg := int (length t) + 2, dcurr := length h + length t + 1\<rparr>,
        Some (vec_with ((a, h) # w) m'))"
    unfolding mpt_decode_command_def option.case v len Let_def using assms(1,4) seek head scan
    by (simp add: p_def [symmetric] command_end_def max_def hp algebra_simps del: spans.simps vec_with.simps)
  then show ?thesis using vec_with_bytes [OF lv] by (simp add: m'_def p_def)
qed


text \<open>With the header and the text in the same element the scan starts at the header and ends two bytes before
  the end of the element: the header is counted twice, and a text at the end is not found.\<close>

lemma decode_command_same_part:
  "mpt_decode_command (MPT_DECODE_INIT\<lparr>dcurr := 2\<rparr>) (Some [(8, [0, 0, 97, 98, 0, 99, 0])]) 1 =
     Some (1, \<lparr>dctx = 0, dcurr = 7, dpos = 0, dlen = 6, dmsg = 6\<rparr>, Some [(8, [4, 32, 97, 98, 0, 99, 0])])"
  "mpt_decode_command (MPT_DECODE_INIT\<lparr>dcurr := 2\<rparr>) (Some [(8, [0, 0, 97, 98, 0])]) 1 =
     Some (0, \<lparr>dctx = 0, dcurr = 5, dpos = 0, dlen = 5, dmsg = - 1\<rparr>, Some [(8, [4, 32, 97, 98, 0])])"
  by code_simp+

text \<open>Removing messages keeps the place of the removed ones as the finished size.\<close>

lemma string_delete_size:
  "mpt_encode_string \<lparr>ectx = 0, edone = 6, escratch = 0\<rparr> (Some (Some [97, 0, 98, 99, 100, 0], 6)) (Some (None, 1)) =
     Some (1, \<lparr>ectx = 0, edone = 5, escratch = 0\<rparr>, Some [97, 0, 98, 99, 100, 0])"
  by code_simp

section \<open>Keywords\<close>

text \<open>Without separators the keyword is the first run of visible characters.\<close>

lemma key_start_spaces:
  "\<forall>x \<in> set b. x \<noteq> 0 \<and> isspace (sint x) \<Longrightarrow> c = 0 \<or> \<not> isspace (sint c) \<Longrightarrow>
   key_start (b @ c # r) p = Some (p + length b, c # r)"
  by (induction b arbitrary: p) auto

lemma key_word_run:
  "\<forall>x \<in> set k. x \<noteq> 0 \<and> \<not> isspace (sint x) \<Longrightarrow> c = 0 \<or> isspace (sint c) \<Longrightarrow>
   key_word (k @ c # r) e n = Some (e + length k, n + length k)"
  by (induction k arbitrary: e n) auto

lemma convert_key_word:
  assumes "\<forall>x \<in> set b. x \<noteq> 0 \<and> isspace (sint x)" "\<forall>x \<in> set k. x \<noteq> 0 \<and> \<not> isspace (sint x)" "k \<noteq> []"
    and "c = 0 \<or> isspace (sint c)"
  shows "mpt_convert_key (Some (b @ k @ c # r)) None = Some (Some (length b, length k, length b + length k))"
proof -
  obtain x k' where k: "k = x # k'" using assms(3) by (cases k) auto
  have "key_start (b @ x # (k' @ c # r)) 0 = Some (0 + length b, x # (k' @ c # r))"
    using assms(1,2) k by (intro key_start_spaces) auto
  then have "key_start (b @ k @ c # r) 0 = Some (length b, k @ c # r)" by (simp add: k)
  then show ?thesis using key_word_run [OF assms(2,4), of r "length b" 0] assms(3) by (simp add: mpt_convert_key_def)
qed

section \<open>Names and byte order\<close>

lemma case_eq_refl: "case_eq n (n @ s) = Some True"
  by (induction n) auto

definition selected :: "int \<Rightarrow> bool" where
  "selected code \<longleftrightarrow> (case mpt_encoding_type code of None \<Rightarrow> False
     | Some n \<Rightarrow> mpt_encoding_value (Some (n @ [0])) (- 1) = Some code \<and>
         (code = 0 \<or> \<not> Option.is_none (mpt_message_encoder code) \<and> \<not> Option.is_none (mpt_message_decoder code)))"

lemma encoding_codes: "mpt_encoding_type code \<noteq> None \<Longrightarrow> code \<in> {0, 1, 2, 3, 6, 7}"
  by (simp add: mpt_encoding_type_def encodings_def split: if_splits)

text \<open>Every encoding with a name is found by its name, and has an encoder and a decoder.\<close>

lemma encoding_names: "mpt_encoding_type code \<noteq> None \<Longrightarrow> selected code"
proof -
  have "\<forall>c \<in> set [0, 1, 2, 3, 6, 7]. selected c" by code_simp
  then show "mpt_encoding_type code \<noteq> None \<Longrightarrow> selected code" using encoding_codes [of code] by auto
qed

text \<open>A swap reverses the bytes of each element and undoes itself.\<close>

fun rev_elems :: "nat \<Rightarrow> nat \<Rightarrow> block \<Rightarrow> block" where
  "rev_elems n 0 m = m"
| "rev_elems n (Suc k) m = rev (take n m) @ rev_elems n k (drop n m)"

lemma bswap_loop_rev:
  "p + n * k \<le> length m \<Longrightarrow> bswap_loop n k m p = Some (take p m @ rev_elems n k (drop p m))"
proof (induction k arbitrary: m p)
  case (Suc k)
  define x where "x = take n (drop p m)"
  define m' where "m' = take p m @ rev x @ drop (p + n) m"
  have l: "p + n \<le> length m" "length x = n" using Suc.prems by (simp_all add: x_def)
  have "rd m p n = Some x" "wr m p (rev x) = Some m'" using l by (simp_all add: rd_def wr_def x_def m'_def)
  moreover have "bswap_loop n k m' (p + n) = Some (take (p + n) m' @ rev_elems n k (drop (p + n) m'))"
    using Suc.prems l by (intro Suc.IH) (simp add: m'_def)
  moreover have "take (p + n) m' = take p m @ rev x" "drop (p + n) m' = drop n (drop p m)"
    using l by (simp_all add: m'_def add.commute)
  ultimately show ?case by (simp add: x_def)
qed simp

lemma length_rev_elems [simp]: "n * k \<le> length m \<Longrightarrow> length (rev_elems n k m) = length m"
  by (induction n k m rule: rev_elems.induct) auto

lemma rev_elems_twice: "n * k \<le> length m \<Longrightarrow> rev_elems n k (rev_elems n k m) = m"
  by (induction n k m rule: rev_elems.induct) auto

lemma bswap_twice:
  assumes "mpt_bswap_32 len m = Some m'"
  shows "int (length m) \<ge> 4 * len \<Longrightarrow> mpt_bswap_32 len m' = Some m"
proof -
  assume "int (length m) \<ge> 4 * len"
  then have l: "4 * nat len \<le> length m" by linarith
  then have "m' = rev_elems 4 (nat len) m" using assms bswap_loop_rev [of 0 4 "nat len" m] by (simp add: mpt_bswap_32_def)
  then show ?thesis using l bswap_loop_rev [of 0 4 "nat len" m'] by (simp add: mpt_bswap_32_def rev_elems_twice)
qed

section \<open>Properties\<close>

text \<open>Property C18: text that is encoded in pieces and terminated is delivered by the decoder as one command
  message: the header and the text, however the encoded bytes are spread over elements behind the
  one that ends with the place of the header; the bytes behind the delimiter stay for the next
  message.\<close>

theorem command_roundtrip:
  assumes "list_all (\<lambda>c. c \<noteq> []) cs" "0 \<notin> set (concat cs)" "length (concat cs) < length buf"
    and "2 \<le> length h" "dcurr dec = length h" "dlen dec = 0 \<and> dmsg dec < 0 \<or> dmsg dec = int (dlen dec)"
  shows "\<exists>info' buf'. encode_chunks mpt_encode_string MPT_ENCODE_INIT buf cs = Some (info', buf') \<and>
    (\<forall>w r. vec_bytes w = take (edone info') buf' @ r \<longrightarrow>
      (\<exists>dec' v'. mpt_decode_command dec (Some ((a, h) # w)) (length w + 1) = Some (1, dec', Some v') \<and>
        take (dlen dec') (drop (dpos dec') (vec_bytes v')) = [4, 32] @ concat cs \<and>
        dmsg dec' = int (dlen dec') \<and> drop (dcurr dec') (vec_bytes v') = r))"
proof -
  define t where "t = concat cs"
  obtain buf' where e: "encode_chunks mpt_encode_string MPT_ENCODE_INIT buf cs = Some (MPT_ENCODE_INIT\<lparr>edone := length t + 1\<rparr>, buf')"
    "take (length t + 1) buf' = t @ [0]"
    using string_chunks [of cs MPT_ENCODE_INIT buf] assms(1-3) by (auto simp: MPT_ENCODE_INIT_def t_def)
  have "\<exists>dec' v'. mpt_decode_command dec (Some ((a, h) # w)) (length w + 1) = Some (1, dec', Some v') \<and>
        take (dlen dec') (drop (dpos dec') (vec_bytes v')) = [4, 32] @ t \<and>
        dmsg dec' = int (dlen dec') \<and> drop (dcurr dec') (vec_bytes v') = r"
    if w: "vec_bytes w = take (length t + 1) buf' @ r" for w r
  proof -
    have wb: "vec_bytes w = t @ 0 # r" using w e(2) by simp
    obtain v' where v: "mpt_decode_command dec (Some ((a, h) # w)) (Suc (length w)) =
      Some (1, dec\<lparr>dpos := length h - 2, dlen := length t + 2, dmsg := int (length t) + 2, dcurr := length h + length t + 1\<rparr>, Some v')"
      "vec_bytes v' = take (length h - 2) h @ [4, 32] @ t @ 0 # r"
      using decode_command_ok [OF assms(4) wb _ assms(5,6)] assms(2) by (auto simp: t_def)
    have "drop (3 + length t) (4 # 32 # t @ 0 # r) = r" by (simp add: numeral_3_eq_3)
    then show ?thesis using v assms(4) by (auto simp: min_def)
  qed
  then show ?thesis using e by (intro exI [of _ "MPT_ENCODE_INIT\<lparr>edone := length t + 1\<rparr>"] exI [of _ buf']) (simp add: t_def)
qed

lemma command_roundtrip_witness:
  "\<exists>info' buf'. encode_chunks mpt_encode_string MPT_ENCODE_INIT (replicate 9 1) [[97], [98, 99]] = Some (info', buf') \<and>
    (\<forall>w r. vec_bytes w = take (edone info') buf' @ r \<longrightarrow>
      (\<exists>dec' v'. mpt_decode_command (MPT_DECODE_INIT\<lparr>dcurr := 2\<rparr>) (Some ((8, [0, 0]) # w)) (length w + 1) = Some (1, dec', Some v') \<and>
        take (dlen dec') (drop (dpos dec') (vec_bytes v')) = [4, 32] @ concat [[97], [98, 99]] \<and>
        dmsg dec' = int (dlen dec') \<and> drop (dcurr dec') (vec_bytes v') = r))"
  by (rule command_roundtrip) (simp_all add: MPT_DECODE_INIT_def)

end
