(* ===== verification/CodedQueue.thy ===== *)
theory CodedQueue
  imports CobsDecode
begin

text \<open>
  Queues of encoded messages: \<open>queue_push.c\<close>, \<open>queue_recv.c\<close>, \<open>queue_peek.c\<close> and
  \<open>queue_shift.c\<close> of \<open>mptcore/queue/\<close>.

  A queue has a ring buffer, the state of its encoder or decoder and the coding function, which is
  a parameter (the source has a function pointer).  The contract that the queues rely on is the locale
  \<open>frame_codec\<close>; it is interpreted on the four COBS variants, and the client lemma is the
  transfer of a message from an encoding to a decoding queue.
\<close>

section \<open>Model\<close>

record encode_queue =
  eq_data :: queue
  eq_state :: encode_state
  eq_enc :: "encoder option"

text \<open>\<open>dq_addr\<close> is the address of the block, which the decoders look at.\<close>

record decode_queue =
  dq_data :: queue
  dq_state :: decode_state
  dq_dec :: "decoder option"
  dq_addr :: nat

subsection \<open>Encoding: \<open>queue_push.c\<close>\<close>

text \<open>A call of the encoder on \<open>n\<close> bytes at position \<open>b\<close> of a block.  The bytes that are there are
  passed: an access behind the block is undefined.\<close>

definition enc_at :: "encoder \<Rightarrow> encode_state \<Rightarrow> block \<Rightarrow> nat \<Rightarrow> nat \<Rightarrow> iov option \<Rightarrow> (int \<times> encode_state \<times> block) option" where
  "enc_at enc st m b n from = do {
     (r, st', sub) \<leftarrow> enc st (Some (if m = [] then None else Some (take n (drop b m)), n)) from;
     (case sub of
        None \<Rightarrow> Some (r, st', m)
      | Some s \<Rightarrow> Some (r, st', take b m @ s @ drop (b + length s) m)) }"

text \<open>The branch without an encoder.\<close>

definition push_raw :: "encode_queue \<Rightarrow> nat \<Rightarrow> block option \<Rightarrow> (int \<times> encode_queue) option" where
  "push_raw qu len base =
     (let q = eq_data qu; st = eq_state qu in
      if len = 0 then
        Some (int (qlen q), qu\<lparr>eq_state := st\<lparr>edone := qlen q, escratch := 0\<rparr>\<rparr>)
      else (case base of
          None \<Rightarrow>
            (if escratch st = 0 \<or> len > 1 then Some (BadOperation, qu)
             else Some (0, qu\<lparr>eq_data := q\<lparr>qlen := edone st\<rparr>, eq_state := st\<lparr>escratch := 0\<rparr>\<rparr>))
        | Some d \<Rightarrow>
            (if edone st + escratch st \<noteq> qlen q then Some (BadEncoding, qu)
             else
               (let low = usub (qmax q) (qlen q) in
                if low = 0 then Some (MissingBuffer, qu)
                else
                  (let low = (if low > len then len else low) in do {
                     (_, q') \<leftarrow> mpt_qpush q low (Some d);
                     Some (int low, qu\<lparr>eq_data := q', eq_state := st\<lparr>escratch := escratch st + low\<rparr>\<rparr>) })))))"

text \<open>The attempt at the end of the block, where data from the front of the block is needed for the
  encoder: result, state, queue and finished size.\<close>

definition push_lower :: "encoder \<Rightarrow> queue \<Rightarrow> encode_state \<Rightarrow> iov option \<Rightarrow> (int \<times> encode_state \<times> queue \<times> nat) option" where
  "push_lower enc q st from =
     (let high = qoff q; low = qmax q - high; off = edone st in
      if low - off \<ge> escratch st then do {
        (push, st', m) \<leftarrow> enc_at enc st (qbase q) high low from;
        Some (push, st', q\<lparr>qbase := m\<rparr>, edone st') }
      else if escratch st \<ge> 256 then Some (- 1, st, q, off)
      else
        (let max = (if qmax q - off > 256 then 256 else qmax q - off) in do {
           (_, buf) \<leftarrow> mpt_queue_get q off (escratch st) (Some (replicate 256 0));
           (case buf of
              None \<Rightarrow> None
            | Some buf \<Rightarrow> do {
                (push, st', buf') \<leftarrow> enc_at enc (st\<lparr>edone := 0\<rparr>) buf 0 max from;
                q' \<leftarrow>
                  (if push \<ge> 0 then
                     (let set = edone st' + escratch st' in
                      if off + set > qmax q then None
                      else do {
                        (_, q') \<leftarrow> mpt_queue_set (q\<lparr>qlen := off + set\<rparr>) off set (Some buf');
                        Some q' })
                   else Some q);
                Some (push, st'\<lparr>edone := off + edone st'\<rparr>, q', off + edone st') }) }))"

text \<open>What follows it: a new attempt on aligned data, or a second part.\<close>

definition push_rest :: "encoder \<Rightarrow> nat \<Rightarrow> nat \<Rightarrow> queue \<Rightarrow> encode_state \<Rightarrow> int \<Rightarrow> nat \<Rightarrow> nat \<Rightarrow> block option
    \<Rightarrow> (int \<times> encode_state \<times> queue) option" where
  "push_rest enc low high q st push off len base =
     (let from = (if len = 0 then None else Some (base, len)) in
      if push < 0 then do {
        q' \<leftarrow> mpt_queue_align q 0;
        (push, st', m) \<leftarrow> enc_at enc st (qbase q') 0 (qmax q') from;
        Some (push, st', q'\<lparr>qbase := m\<rparr>) }
      else if nat push < len then
        (let from2 = Some (map_option (drop (nat push)) base, len - nat push) in do {
           (push2, st', q') \<leftarrow>
             (if off < low then do {
                q' \<leftarrow> mpt_queue_align q 0;
                (push2, st', m) \<leftarrow> enc_at enc st (qbase q') 0 (qmax q') from2;
                Some (push2, st', q'\<lparr>qbase := m\<rparr>) }
              else do {
                (push2, st', m) \<leftarrow> enc_at enc (st\<lparr>edone := off - low\<rparr>) (qbase q) 0 high from2;
                Some (push2, st'\<lparr>edone := edone st' + (off - low)\<rparr>, q\<lparr>qbase := m\<rparr>) });
           Some (if push2 > 0 then push + push2 else push, st', q') })
      else Some (push, st, q))"

definition push_coded :: "encoder \<Rightarrow> queue \<Rightarrow> encode_state \<Rightarrow> nat \<Rightarrow> block option \<Rightarrow> (int \<times> encode_state \<times> queue) option" where
  "push_coded enc q st len base =
     (let from = (if len = 0 then None else Some (base, len)); high = qoff q; low = qmax q - high in
      if high = 0 then do {
        (push, st', m) \<leftarrow> enc_at enc st (qbase q) 0 (qmax q) from;
        Some (push, st', q\<lparr>qbase := m\<rparr>) }
      else if edone st \<ge> low then do {
        (push, st', m) \<leftarrow> enc_at enc (st\<lparr>edone := edone st - low\<rparr>) (qbase q) (edone st - low) high from;
        Some (push, st'\<lparr>edone := edone st' + low\<rparr>, q\<lparr>qbase := m\<rparr>) }
      else do {
        (push, st', q', off) \<leftarrow> push_lower enc q st from;
        push_rest enc low high q' st' push off len base })"

definition mpt_queue_push :: "encode_queue \<Rightarrow> nat \<Rightarrow> block option \<Rightarrow> (int \<times> encode_queue) option" where
  "mpt_queue_push qu len base = (case eq_enc qu of
     None \<Rightarrow> push_raw qu len base
   | Some enc \<Rightarrow> do {
       (push, st, q) \<leftarrow> push_coded enc (eq_data qu) (eq_state qu) len base;
       (let used = edone st + escratch st in
        if used > qmax q then None
        else Some (push, qu\<lparr>eq_data := q\<lparr>qlen := used\<rparr>, eq_state := st\<rparr>)) })"

subsection \<open>Decoding: \<open>queue_shift.c\<close>, \<open>queue_recv.c\<close>, \<open>queue_peek.c\<close>\<close>

definition shift_crop :: "decode_queue \<Rightarrow> nat \<Rightarrow> nat \<Rightarrow> decode_queue option" where
  "shift_crop qu cur pos = do {
     (r, q) \<leftarrow> mpt_queue_crop (dq_data qu) 0 cur;
     Some (if r < 0 then qu
       else qu\<lparr>dq_data := q, dq_state := (dq_state qu)\<lparr>dcurr := dcurr (dq_state qu) - cur, dpos := pos\<rparr>\<rparr>) }"

definition mpt_queue_shift :: "decode_queue \<Rightarrow> decode_queue option" where
  "mpt_queue_shift qu =
     (let st = dq_state qu in
      if dcurr st = 0 then Some qu
      else if dpos st \<noteq> 0 \<or> dlen st \<noteq> 0 then
        (if dpos st < dcurr st then
           (if dpos st = 0 then Some qu else shift_crop qu (dpos st) 0)
         else shift_crop qu (dcurr st) (dpos st - dcurr st))
      else shift_crop qu (dcurr st) (dpos st))"

text \<open>The elements of the queue's contents, and the block with the bytes of changed elements.\<close>

definition vectorSet :: "nat \<Rightarrow> queue \<Rightarrow> vec" where
  "vectorSet addr q =
     (if qoff q + qlen q > qmax q then
        [(addr + qoff q, take (qmax q - qoff q) (drop (qoff q) (qbase q))),
         (addr, take (qlen q - (qmax q - qoff q)) (qbase q))]
      else [(addr + qoff q, take (qlen q) (drop (qoff q) (qbase q)))])"

definition vec_store :: "queue \<Rightarrow> vec \<Rightarrow> queue" where
  "vec_store q v = (case v of
     [(_, a), (_, b)] \<Rightarrow> q\<lparr>qbase := b @ take (qoff q - length b) (drop (length b) (qbase q)) @ a\<rparr>
   | [(_, a)] \<Rightarrow> q\<lparr>qbase := take (qoff q) (qbase q) @ a @ drop (qoff q + length a) (qbase q)\<rparr>
   | _ \<Rightarrow> q)"

text \<open>A call of the decoder on the contents.\<close>

definition dec_call :: "decoder \<Rightarrow> decode_queue \<Rightarrow> (int \<times> decode_queue) option" where
  "dec_call dec qu =
     (let v = vectorSet (dq_addr qu) (dq_data qu) in do {
        (r, st, v') \<leftarrow> dec (dq_state qu) (Some v) (length v);
        Some (r, qu\<lparr>dq_state := st, dq_data := (case v' of None \<Rightarrow> dq_data qu | Some v' \<Rightarrow> vec_store (dq_data qu) v')\<rparr>) })"

definition recv_raw :: "decode_queue \<Rightarrow> (int \<times> decode_queue) option" where
  "recv_raw qu =
     (let st = dq_state qu; len = qlen (dq_data qu);
          off = dpos st + (if dmsg st \<ge> 0 then nat (dmsg st) else dlen st) in
      if off > len then Some (BadEncoding, qu)
      else if dmsg st \<ge> 0 then do {
        qu \<leftarrow> mpt_queue_shift (qu\<lparr>dq_state := st\<lparr>dpos := off, dmsg := int (dlen st), dlen := len - off\<rparr>\<rparr>);
        Some (1, qu) }
      else do {
        qu \<leftarrow> mpt_queue_shift (qu\<lparr>dq_state := st\<lparr>dpos := off, dlen := len - off\<rparr>\<rparr>);
        Some (0, qu) })"

definition recv_done :: "decode_queue \<Rightarrow> (int \<times> decode_queue) option" where
  "recv_done qu = do {
     qu \<leftarrow> mpt_queue_shift qu;
     Some (if dmsg (dq_state qu) \<ge> 0 then 1 else 0, qu) }"

definition mpt_queue_recv :: "decode_queue \<Rightarrow> (int \<times> decode_queue) option" where
  "mpt_queue_recv qu =
     (let len = qlen (dq_data qu) in
      if len = 0 then Some (MissingData, qu)
      else (case dq_dec qu of
          None \<Rightarrow> recv_raw qu
        | Some dec \<Rightarrow> do {
            (res, qu) \<leftarrow> dec_call dec qu;
            (if res \<ge> 0 then recv_done qu
             else if res \<noteq> MissingBuffer then Some (res, qu)
             else if len \<ge> qmax (dq_data qu) then Some (res, qu)
             else
               (let max = qmax (dq_data qu) - len in do {
                  (r, q) \<leftarrow> mpt_qpre (dq_data qu) max;
                  (if r < 0 then Some (MissingBuffer, qu\<lparr>dq_data := q\<rparr>)
                   else do {
                     (res, qu) \<leftarrow> dec_call dec (qu\<lparr>dq_data := q,
                        dq_state := (dq_state qu)\<lparr>dpos := dpos (dq_state qu) + max, dcurr := dcurr (dq_state qu) + max\<rparr>\<rparr>);
                     (if res < 0 then Some (res, qu) else recv_done qu) }) })) }))"

text \<open>The message of the contents, and the place in the block of the part that holds an offset.\<close>

definition peek_message :: "queue \<Rightarrow> message" where
  "peek_message q =
     (if qlen q > qmax q - qoff q
      then \<lparr>mbase = take (qmax q - qoff q) (drop (qoff q) (qbase q)), mcont = [take (qlen q - (qmax q - qoff q)) (qbase q)]\<rparr>
      else \<lparr>mbase = take (qlen q) (drop (qoff q) (qbase q)), mcont = []\<rparr>)"

definition peek_place :: "queue \<Rightarrow> nat \<Rightarrow> nat" where
  "peek_place q off = (if off < qmax q - qoff q then qoff q + off else off - (qmax q - qoff q))"

definition peek_raw :: "decode_queue \<Rightarrow> nat \<Rightarrow> dest \<Rightarrow> (int \<times> dest) option" where
  "peek_raw qu lim dst =
     (let st = dq_state qu; msg = peek_message (dq_data qu); ret = to_int32 (dmsg st);
          off = (if ret \<ge> 0 then dpos st + nat ret else dpos st) in
      if dst = None then
        (let ret = to_int32 (int (usub (qlen (dq_data qu)) off)) in
         Some (if ret \<ge> 0 then ret else MissingData, dst))
      else do {
        (r, msg, _) \<leftarrow> mpt_message_read msg off None;
        (if off \<noteq> 0 \<and> r < off then Some (MissingData, dst)
         else do {
           (r, _, dst) \<leftarrow> mpt_message_read msg lim dst;
           Some (int r, dst) }) })"

definition mpt_queue_peek :: "decode_queue \<Rightarrow> nat \<Rightarrow> dest \<Rightarrow> (int \<times> decode_queue \<times> dest) option" where
  "mpt_queue_peek qu lim dst =
     (let q = dq_data qu; st = dq_state qu in
      if qlen q = 0 then Some (MissingData, qu, dst)
      else (case dq_dec qu of
          None \<Rightarrow> do { (r, dst) \<leftarrow> peek_raw qu lim dst; Some (r, qu, dst) }
        | Some dec \<Rightarrow>
            (let off = (if dcurr st < dpos st then dcurr st else dpos st); at = peek_place q off in do {
               (r, msg, _) \<leftarrow> mpt_message_read (peek_message q) off None;
               (if off \<noteq> 0 \<and> r < off then Some (MissingData, qu, dst)
                else do {
                  (ret, st', v) \<leftarrow> dec (st\<lparr>dpos := dpos st - off, dcurr := dcurr st - off\<rparr>)
                     (Some [(dq_addr qu + at, mbase msg)]) 0;
                  b \<leftarrow> (case v of Some [(_, b)] \<Rightarrow> Some b | _ \<Rightarrow> None);
                  (let qu' = qu\<lparr>dq_data := q\<lparr>qbase := take at (qbase q) @ b @ drop (at + length b) (qbase q)\<rparr>,
                         dq_state := st'\<lparr>dpos := dpos st' + off, dcurr := dcurr st' + off\<rparr>\<rparr>;
                       len = dlen st' in
                   if ret < 0 \<or> dst = None then Some (int len, qu', dst)
                   else do {
                     xs \<leftarrow> rd b (dpos st') (if len > lim then lim else len);
                     dst \<leftarrow> dest_put dst xs;
                     Some (int (if len > lim then lim else len), qu', dst) }) }) })))"

section \<open>Specification\<close>

text \<open>A message that is pushed in pieces and terminated.\<close>

fun push_all :: "encode_queue \<Rightarrow> block list \<Rightarrow> encode_queue option" where
  "push_all qu [] = (case mpt_queue_push qu 0 None of
     Some (r, qu') \<Rightarrow> if r = 0 then Some qu' else None | None \<Rightarrow> None)"
| "push_all qu (c # cs) = (case mpt_queue_push qu (length c) (Some c) of
     Some (r, qu') \<Rightarrow> if r = int (length c) then push_all qu' cs else None | None \<Rightarrow> None)"

text \<open>The message that a decoding queue holds, and the contents behind it.\<close>

definition dq_message :: "decode_queue \<Rightarrow> block" where
  "dq_message qu = take (dlen (dq_state qu)) (drop (dpos (dq_state qu)) (qdata (dq_data qu)))"

definition dq_rest :: "decode_queue \<Rightarrow> block" where
  "dq_rest qu = drop (dcurr (dq_state qu)) (qdata (dq_data qu))"

definition dq_ok :: "decode_queue \<Rightarrow> bool" where
  "dq_ok qu \<longleftrightarrow> queue_wf (dq_data qu) \<and> dpos (dq_state qu) + dlen (dq_state qu) \<le> dcurr (dq_state qu)
     \<and> dcurr (dq_state qu) \<le> qlen (dq_data qu)"

definition encoder_of :: "variant \<Rightarrow> bool \<Rightarrow> encoder" where
  "encoder_of V R = (if R then mpt_encode_r V else mpt_encode V)"

definition decoder_of :: "variant \<Rightarrow> bool \<Rightarrow> decoder" where
  "decoder_of V R = (if R then mpt_decode_r V else mpt_decode V)"

definition cobs_need :: "variant \<Rightarrow> encode_state \<Rightarrow> nat \<Rightarrow> nat" where
  "cobs_need V info n = edone info + enc_code info + enc_space V (enc_code info) n"

definition cobs_room :: "variant \<Rightarrow> block \<Rightarrow> nat" where
  "cobs_room V f = (case V of COBS \<Rightarrow> 0 | ZPE \<Rightarrow> length f + 15)"

section \<open>The queue under its codec\<close>

lemma shift_keeps:
  assumes "dq_ok qu"
  shows "\<exists>qu'. mpt_queue_shift qu = Some qu' \<and> dq_ok qu' \<and> dq_message qu' = dq_message qu \<and> dq_rest qu' = dq_rest qu
     \<and> dmsg (dq_state qu') = dmsg (dq_state qu) \<and> dlen (dq_state qu') = dlen (dq_state qu) \<and> dctx (dq_state qu') = dctx (dq_state qu)
     \<and> qmax (dq_data qu') = qmax (dq_data qu) \<and> dq_dec qu' = dq_dec qu"
proof -
  let ?st = "dq_state qu" and ?q = "dq_data qu"
  have ok: "queue_wf ?q" "dpos ?st + dlen ?st \<le> dcurr ?st" "dcurr ?st \<le> qlen ?q" using assms by (auto simp: dq_ok_def)
  have crop: "\<exists>qu'. shift_crop qu n p = Some qu' \<and> dq_ok qu' \<and> dq_message qu' = dq_message qu \<and> dq_rest qu' = dq_rest qu
     \<and> dmsg (dq_state qu') = dmsg ?st \<and> dlen (dq_state qu') = dlen ?st \<and> dctx (dq_state qu') = dctx ?st
     \<and> qmax (dq_data qu') = qmax ?q \<and> dq_dec qu' = dq_dec qu"
    if n: "n \<le> dcurr ?st" "p + n = dpos ?st \<or> dlen ?st = 0 \<and> p + n \<le> dcurr ?st" for n p
  proof -
    from crop_front [OF ok(1), of n] n ok obtain r q' where c: "mpt_queue_crop ?q 0 n = Some (r, q')" "0 \<le> r" "queue_wf q'"
      "qmax q' = qmax ?q" "qlen q' = qlen ?q - n" "qdata q' = drop n (qdata ?q)" by auto
    have "take (dlen ?st) (drop p (drop n (qdata ?q))) = take (dlen ?st) (drop (dpos ?st) (qdata ?q))" using n(2) by (auto simp: add.commute)
    then show ?thesis using c n ok
      by (auto simp: shift_crop_def dq_ok_def dq_message_def dq_rest_def)
  qed
  consider (same) "mpt_queue_shift qu = Some qu"
    | (part) "mpt_queue_shift qu = shift_crop qu (dpos ?st) 0" "dpos ?st < dcurr ?st"
    | (all) "mpt_queue_shift qu = shift_crop qu (dcurr ?st) (dpos ?st - dcurr ?st)" "dpos ?st = dcurr ?st"
    | (none) "mpt_queue_shift qu = shift_crop qu (dcurr ?st) (dpos ?st)" "dpos ?st = 0" "dlen ?st = 0"
    using ok(2) by (cases "dcurr ?st = 0"; cases "dpos ?st < dcurr ?st"; cases "dpos ?st = 0"; cases "dlen ?st = 0")
      (auto simp: mpt_queue_shift_def Let_def)
  then show ?thesis
  proof cases
    case same
    then show ?thesis using assms by blast
  next
    case part
    show ?thesis unfolding part(1) by (rule crop) (use part in auto)
  next
    case all
    show ?thesis unfolding all(1) by (rule crop) (use all in auto)
  next
    case none
    show ?thesis unfolding none(1) by (rule crop) (use none in auto)
  qed
qed

lemma vector_split:
  assumes wf: "queue_wf q" and w: "qoff q + qlen q > qmax q"
  obtains up gap lo where "qbase q = up @ gap @ lo" "vectorSet addr q = [(addr + qoff q, lo), (addr, up)]"
    "length up + length gap = qoff q" "length lo = qmax q - qoff q" "qlen q = length lo + length up"
proof -
  have m: "length (qbase q) = qmax q" "qlen q \<le> qmax q" "qoff q \<le> qmax q" using wf by (simp_all add: queue_wf_def)
  have "MPT_queue_frag q" using w m by (simp add: MPT_queue_frag_def)
  from frag_parts [OF wf this] obtain up gap lo where p: "qbase q = up @ gap @ lo" "qdata q = lo @ up"
    "length gap = qmax q - qlen q" "length up + length gap = qoff q" "length lo = qmax q - qoff q" by blast
  have l: "qlen q = length lo + length up" using p(2) wf by (metis length_append length_qdata)
  have "drop (qoff q) (qbase q) = lo" using p(1) p(4) [symmetric] by simp
  moreover have "take (qlen q - (qmax q - qoff q)) (qbase q) = up" using p(1,5) l by simp
  ultimately have "vectorSet addr q = [(addr + qoff q, lo), (addr, up)]" using w p(5) by (simp add: vectorSet_def)
  with p l show thesis by (intro that)
qed

lemma vector_linear:
  assumes wf: "queue_wf q" and w: "\<not> qoff q + qlen q > qmax q"
  obtains pre d post where "qbase q = pre @ d @ post" "vectorSet addr q = [(addr + qoff q, d)]"
    "length pre = qoff q" "length d = qlen q" "length (qbase q) = qmax q"
proof -
  from split_at_two [of "qoff q" "qlen q" "qbase q"] wf w obtain pre d post where
    p: "qbase q = pre @ d @ post" "length pre = qoff q" "length d = qlen q" by (auto simp: queue_wf_def)
  with wf w show thesis by (intro that [of pre d post]) (auto simp: vectorSet_def queue_wf_def)
qed

lemma ring_parts:
  assumes "qbase q = up @ gap @ lo" "length up + length gap = qoff q" "qlen q = length lo + length up"
  shows "qdata q = lo @ up"
proof -
  have "ring ((up @ gap) @ lo) (length (up @ gap)) = lo @ up @ gap" by (simp add: ring_def)
  then show ?thesis using assms by (simp add: qdata_def)
qed

lemma linear_parts: "qbase q = pre @ d @ post \<Longrightarrow> length pre = qoff q \<Longrightarrow> length d = qlen q \<Longrightarrow> qdata q = d"
  by (simp add: qdata_def ring_def)

lemma vector_bytes: "queue_wf q \<Longrightarrow> vec_bytes (vectorSet addr q) = qdata q"
proof (cases "qoff q + qlen q > qmax q")
  case True
  moreover assume "queue_wf q"
  ultimately show ?thesis by (elim vector_split [of q addr]) (auto simp: vec_bytes_def ring_parts)
next
  case False
  moreover assume "queue_wf q"
  ultimately show ?thesis by (elim vector_linear [of q addr]) (auto simp: vec_bytes_def linear_parts)
qed

lemma vector_store:
  assumes wf: "queue_wf q" and len: "map (length \<circ> snd) v = map (length \<circ> snd) (vectorSet addr q)"
  shows "queue_wf (vec_store q v) \<and> qdata (vec_store q v) = vec_bytes v \<and> qlen (vec_store q v) = qlen q
     \<and> qmax (vec_store q v) = qmax q \<and> qoff (vec_store q v) = qoff q"
proof (cases "qoff q + qlen q > qmax q")
  case True
  from vector_split [OF wf True, of addr] obtain up gap lo where p: "qbase q = up @ gap @ lo"
    "vectorSet addr q = [(addr + qoff q, lo), (addr, up)]" "length up + length gap = qoff q" "length lo = qmax q - qoff q"
    "qlen q = length lo + length up" .
  from len p(2) obtain a b a' b' where v: "v = [(a, a'), (b, b')]" "length a' = length lo" "length b' = length up"
    by (auto simp: map_eq_Cons_conv)
  have s: "vec_store q v = q\<lparr>qbase := b' @ gap @ a'\<rparr>" using p v by (simp add: vec_store_def)
  have "qdata (q\<lparr>qbase := b' @ gap @ a'\<rparr>) = a' @ b'" by (rule ring_parts) (use p(3,5) v in auto)
  moreover have "length (b' @ gap @ a') = length (qbase q)" using p(1) v by simp
  ultimately show ?thesis unfolding s using wf v(1) by (simp add: queue_wf_def vec_bytes_def)
next
  case False
  from vector_linear [OF wf False, of addr] obtain pre d post where p: "qbase q = pre @ d @ post"
    "vectorSet addr q = [(addr + qoff q, d)]" "length pre = qoff q" "length d = qlen q" .
  from len p(2) obtain a a' where v: "v = [(a, a')]" "length a' = length d" by (auto simp: map_eq_Cons_conv)
  have s: "vec_store q v = q\<lparr>qbase := pre @ a' @ post\<rparr>" using p v by (simp add: vec_store_def)
  have "qdata (q\<lparr>qbase := pre @ a' @ post\<rparr>) = a'" by (rule linear_parts) (use p(3,4) v in auto)
  then show ?thesis unfolding s using wf p v by (simp add: queue_wf_def vec_bytes_def)
qed

text \<open>A decoder that has consumed all data drops its message.\<close>

lemma decode_exhausted:
  assumes "dec_idle d" and "dpos d + dlen d \<le> dcurr d" and "dcurr d = length (vec_bytes v)" and "v \<noteq> []"
    and "D = mpt_decode V \<or> D = mpt_decode_r V"
  shows "\<exists>d' v'. D d (Some v) (length v) = Some (0, d', Some v') \<and> map (length \<circ> snd) v' = map (length \<circ> snd) v
    \<and> dec_idle d' \<and> dmsg d' < 0 \<and> dcurr d' = dcurr d \<and> dpos d' + dlen d' \<le> dcurr d'"
proof -
  let ?t0 = "\<lparr>mbase = [], mcont = map snd v\<rparr>" and ?m = "vec_bytes v" and ?dl = "dpos d + dlen d"
  from read_none [of ?t0 ?dl] assms(2,3) obtain t1 where t1: "mpt_message_read ?t0 ?dl None = Some (?dl, t1, None)"
    "mdata t1 = drop ?dl ?m" by (auto simp: vec_mdata)
  define post where "post = align_loop 16 (vec_addr v ?dl) (length (mbase t1)) (dcurr d - ?dl)"
  have post: "post \<le> dcurr d - ?dl"
    using align_loop_bound [of 16 "vec_addr v ?dl" "length (mbase t1)" "dcurr d - ?dl"] by (simp add: post_def)
  from read_none [of t1 post] post assms(2,3) t1(2) obtain t2 where t2: "mpt_message_read t1 post None = Some (post, t2, None)"
    "mdata t2 = drop (?dl + post) ?m" by (auto simp: add.commute)
  from read_none [of t2 "dcurr d - ?dl - post"] post t2(2) assms(2,3) obtain t3 where
    t3: "mpt_message_read t2 (dcurr d - ?dl - post) None = Some (dcurr d - ?dl - post, t3, None)" "mdata t3 = []" by auto
  from read_ok [of "Some ([0], 0)" 1 t3] t3(2) obtain t4 where t4: "mpt_message_read t3 1 (Some ([0], 0)) = Some (0, t4, Some ([0], 0))"
    by (auto simp: dest_ok_def dest_put_def)
  define d' where "d' = (if dmsg d \<ge> 0 then d\<lparr>dlen := 0, dmsg := - 1\<rparr> else d)\<lparr>dpos := ?dl + post\<rparr>"
  have "decode_target d v ?dl (length (mbase t1)) (dcurr d - ?dl) = (?dl + post, 0, post, d')"
    using assms(1) by (auto simp: decode_target_def dec_idle_def d'_def post_def Let_def)
  then have "decode_parts V d v False = Some (0, d', ?m)"
    using t1(1) t2(1) t3(1) t4 assms(1,2) by (simp add: decode_parts_def decode_begin_def dec_idle_def Let_def)
  then have m: "mpt_decode V d (Some v) (length v) = Some (0, d', Some (vec_with v ?m))" using assms(4) by (simp add: mpt_decode_def)
  then have "D d (Some v) (length v) = Some (0, d', Some (vec_with v ?m))" using assms(5) by (auto simp: mpt_decode_r_def)
  moreover have "dec_idle d'" "dmsg d' < 0" "dcurr d' = dcurr d" "dpos d' + dlen d' \<le> dcurr d'"
    using assms(1,2) post by (auto simp: dec_idle_def d'_def)
  moreover have "map (length \<circ> snd) (vec_with v ?m) = map (length \<circ> snd) v" by (rule vec_with_lengths) simp
  ultimately show ?thesis by blast
qed

section \<open>Contract of a codec\<close>

text \<open>What the queues rely on.  \<open>rel pre info buf m\<close>: the state \<open>info\<close> and the target \<open>buf\<close> hold the message
  \<open>m\<close> in progress behind the bytes \<open>pre\<close>.  \<open>need info n\<close>: a target of more bytes takes \<open>n\<close> more bytes
  and the end of the message.  \<open>frame f\<close>: the message of a complete frame.  \<open>room f\<close>: the free
  space in front of a frame that decoding in place may need.\<close>

locale frame_codec =
  fixes enc :: encoder and dec :: decoder
    and rel :: "block \<Rightarrow> encode_state \<Rightarrow> block \<Rightarrow> block \<Rightarrow> bool"
    and need :: "encode_state \<Rightarrow> nat \<Rightarrow> nat"
    and frame :: "block \<Rightarrow> block option"
    and room :: "block \<Rightarrow> nat"
  assumes need_done: "edone info \<le> need info n"
    and start: "escratch info = 0 \<Longrightarrow> edone info = length pre \<Longrightarrow> take (length pre) buf = pre \<Longrightarrow> rel pre info buf []"
    and push: "rel pre info buf m \<Longrightarrow> src \<noteq> [] \<Longrightarrow> need info (length src + k) < length buf \<Longrightarrow>
      \<exists>info' buf'. enc info (Some (Some buf, length buf)) (Some (Some src, length src)) = Some (int (length src), info', Some buf')
        \<and> rel pre info' buf' (m @ src) \<and> length buf' = length buf \<and> 0 < escratch info'
        \<and> edone info' + escratch info' \<le> length buf' \<and> need info' k < length buf'"
    and finish: "rel pre info buf m \<Longrightarrow> 0 < escratch info \<Longrightarrow> need info 0 < length buf \<Longrightarrow>
      \<exists>info' buf' f. enc info (Some (Some buf, length buf)) None = Some (0, info', Some buf')
        \<and> escratch info' = 0 \<and> length buf' = length buf \<and> take (edone info') buf' = pre @ f
        \<and> edone info' = length (pre @ f) \<and> frame f = Some m"
    and decode: "frame f = Some m \<Longrightarrow> dec_idle d \<Longrightarrow> dpos d + dlen d \<le> dcurr d \<Longrightarrow> vec_bytes v = pre @ f @ rest \<Longrightarrow>
      dcurr d = length pre \<Longrightarrow> v \<noteq> [] \<Longrightarrow> room f \<le> dcurr d - (dpos d + dlen d) \<Longrightarrow>
      \<exists>d' v'. dec d (Some v) (length v) = Some (1, d', Some v') \<and> map (length \<circ> snd) v' = map (length \<circ> snd) v
        \<and> dec_idle d' \<and> dmsg d' = int (length m) \<and> dcurr d' = length (pre @ f) \<and> dpos d' + dlen d' \<le> dcurr d'
        \<and> take (dlen d') (drop (dpos d') (vec_bytes v')) = m \<and> drop (dcurr d') (vec_bytes v') = rest"
    and exhausted: "dec_idle d \<Longrightarrow> dpos d + dlen d \<le> dcurr d \<Longrightarrow> dcurr d = length (vec_bytes v) \<Longrightarrow> v \<noteq> [] \<Longrightarrow>
      \<exists>d' v'. dec d (Some v) (length v) = Some (0, d', Some v') \<and> map (length \<circ> snd) v' = map (length \<circ> snd) v
        \<and> dec_idle d' \<and> dmsg d' < 0 \<and> dcurr d' = dcurr d \<and> dpos d' + dlen d' \<le> dcurr d'"

begin

text \<open>A push to the part of the block behind the offset, which has enough space.\<close>

lemma lower_call:
  assumes "eq_enc qu = Some enc" and "queue_wf (eq_data qu)" and "n = qmax (eq_data qu) - qoff (eq_data qu)"
    and "edone (eq_state qu) + escratch (eq_state qu) \<le> n" and "edone (eq_state qu) < n" and "from = (if len = 0 then None else Some (src, len))"
    and e: "enc (eq_state qu) (Some (Some (drop (qoff (eq_data qu)) (qbase (eq_data qu))), n)) from = Some (int len, info', Some buf')"
    and "length buf' = n" and "edone info' + escratch info' \<le> n"
  shows "\<exists>qu'. mpt_queue_push qu len src = Some (int len, qu') \<and> eq_enc qu' = Some enc \<and> queue_wf (eq_data qu')
     \<and> qoff (eq_data qu') = qoff (eq_data qu) \<and> qmax (eq_data qu') = qmax (eq_data qu) \<and> eq_state qu' = info'
     \<and> drop (qoff (eq_data qu')) (qbase (eq_data qu')) = buf' \<and> qlen (eq_data qu') = edone info' + escratch info'"
proof -
  let ?q = "eq_data qu"
  let ?b = "take (qoff ?q) (qbase ?q) @ buf'"
  let ?q' = "?q\<lparr>qbase := ?b, qlen := edone info' + escratch info'\<rparr>"
  have len: "length (qbase ?q) = qmax ?q" "qoff ?q \<le> qmax ?q" "qbase ?q \<noteq> []" using assms(2,3,5) by (auto simp: queue_wf_def)
  have b: "drop (qoff ?q) ?b = buf'" "length ?b = qmax ?q" using len assms(3,8) by simp_all
  have le: "\<not> qmax ?q < edone info' + escratch info'" using assms(3,9) len(2) by simp
  have at: "enc_at enc (eq_state qu) (qbase ?q) (qoff ?q) n from = Some (int len, info', ?b)"
    using e len assms(3,8) by (simp add: enc_at_def)
  have "push_coded enc ?q (eq_state qu) len src = Some (int len, info', ?q\<lparr>qbase := ?b\<rparr>)"
  proof (cases "qoff ?q = 0")
    case True
    then show ?thesis using at assms(3,6) by (simp add: push_coded_def Let_def)
  next
    case False
    have "\<not> edone (eq_state qu) \<ge> qmax ?q - qoff ?q" "escratch (eq_state qu) \<le> qmax ?q - qoff ?q - edone (eq_state qu)"
      using assms(3-5) by simp_all
    then show ?thesis using False at assms(3,6) by (simp add: push_coded_def push_lower_def push_rest_def Let_def)
  qed
  then have "mpt_queue_push qu len src = Some (int len, qu\<lparr>eq_data := ?q', eq_state := info'\<rparr>)"
    using assms(1) le by (simp add: mpt_queue_push_def Let_def)
  moreover have "queue_wf ?q'" using assms(2,3,9) b(2) len(2) by (simp add: queue_wf_def)
  ultimately show ?thesis using assms(1) b(1) by simp
qed

lemma queue_push_piece:
  assumes "eq_enc qu = Some enc" and "queue_wf (eq_data qu)" and "n = qmax (eq_data qu) - qoff (eq_data qu)"
    and "rel pre (eq_state qu) (drop (qoff (eq_data qu)) (qbase (eq_data qu))) m" and "src \<noteq> []"
    and "edone (eq_state qu) + escratch (eq_state qu) \<le> n" and "need (eq_state qu) (length src + k) < n"
  shows "\<exists>qu'. mpt_queue_push qu (length src) (Some src) = Some (int (length src), qu') \<and> eq_enc qu' = Some enc
     \<and> queue_wf (eq_data qu') \<and> rel pre (eq_state qu') (drop (qoff (eq_data qu')) (qbase (eq_data qu'))) (m @ src)
     \<and> 0 < escratch (eq_state qu') \<and> edone (eq_state qu') + escratch (eq_state qu') \<le> n \<and> need (eq_state qu') k < n
     \<and> qoff (eq_data qu') = qoff (eq_data qu) \<and> qmax (eq_data qu') = qmax (eq_data qu)"
proof -
  let ?q = "eq_data qu" and ?b = "drop (qoff (eq_data qu)) (qbase (eq_data qu))"
  have len: "length ?b = n" using assms(2,3) by (simp add: queue_wf_def)
  from push [OF assms(4,5), of k] assms(7) len obtain info' buf' where
    p: "enc (eq_state qu) (Some (Some ?b, n)) (Some (Some src, length src)) = Some (int (length src), info', Some buf')"
      "rel pre info' buf' (m @ src)" "length buf' = n" "0 < escratch info'" "edone info' + escratch info' \<le> n" "need info' k < n" by auto
  have "edone (eq_state qu) < n" using need_done [of "eq_state qu" "length src + k"] assms(7) by simp
  from lower_call [OF assms(1-3,6) this refl _ p(3,5), of "length src" "Some src"] p(1) assms(5) obtain qu' where
    "mpt_queue_push qu (length src) (Some src) = Some (int (length src), qu')" "eq_enc qu' = Some enc" "queue_wf (eq_data qu')"
    "qoff (eq_data qu') = qoff ?q" "qmax (eq_data qu') = qmax ?q" "eq_state qu' = info'"
    "drop (qoff (eq_data qu')) (qbase (eq_data qu')) = buf'" by auto
  then show ?thesis using p by auto
qed

lemma queue_push_end:
  assumes "eq_enc qu = Some enc" and "queue_wf (eq_data qu)" and "n = qmax (eq_data qu) - qoff (eq_data qu)"
    and "rel pre (eq_state qu) (drop (qoff (eq_data qu)) (qbase (eq_data qu))) m" and "0 < escratch (eq_state qu)"
    and "edone (eq_state qu) + escratch (eq_state qu) \<le> n" and "need (eq_state qu) 0 < n"
  shows "\<exists>qu' f. mpt_queue_push qu 0 src = Some (0, qu') \<and> queue_wf (eq_data qu') \<and> qdata (eq_data qu') = pre @ f
     \<and> frame f = Some m \<and> eq_enc qu' = Some enc \<and> qoff (eq_data qu') = qoff (eq_data qu) \<and> escratch (eq_state qu') = 0
     \<and> edone (eq_state qu') = length (pre @ f) \<and> qmax (eq_data qu') = qmax (eq_data qu)"
proof -
  let ?q = "eq_data qu" and ?b = "drop (qoff (eq_data qu)) (qbase (eq_data qu))"
  have len: "length ?b = n" using assms(2,3) by (simp add: queue_wf_def)
  from finish [OF assms(4,5)] assms(7) len obtain info' buf' f where
    p: "enc (eq_state qu) (Some (Some ?b, n)) None = Some (0, info', Some buf')"
      "escratch info' = 0" "length buf' = n" "take (edone info') buf' = pre @ f" "edone info' = length (pre @ f)" "frame f = Some m"
    by auto
  have le: "edone info' \<le> n" using arg_cong [OF p(4), of length] p(3,5) by simp
  have "edone (eq_state qu) < n" using need_done [of "eq_state qu" 0] assms(7) by simp
  from lower_call [OF assms(1-3,6) this refl _ p(3), of 0 src] p(1,2) le obtain qu' where
    q: "mpt_queue_push qu 0 src = Some (0, qu')" "eq_enc qu' = Some enc" "queue_wf (eq_data qu')"
      "qoff (eq_data qu') = qoff ?q" "qmax (eq_data qu') = qmax ?q" "eq_state qu' = info'"
      "drop (qoff (eq_data qu')) (qbase (eq_data qu')) = buf'" "qlen (eq_data qu') = edone info'" by auto
  have "qdata (eq_data qu') = take (edone info') (drop (qoff (eq_data qu')) (qbase (eq_data qu')))"
    using q(3-5,8) le p(3) assms(2,3) by (simp add: qdata_def ring_def queue_wf_def)
  then have "qdata (eq_data qu') = pre @ f" using q(7) p(4) by simp
  then show ?thesis using q p by auto
qed

lemma queue_push_message:
  assumes "list_all (\<lambda>c. c \<noteq> []) cs" and "eq_enc qu = Some enc" and "queue_wf (eq_data qu)" and "n = qmax (eq_data qu) - qoff (eq_data qu)"
    and "rel pre (eq_state qu) (drop (qoff (eq_data qu)) (qbase (eq_data qu))) m" and "0 < escratch (eq_state qu) \<or> cs \<noteq> []"
    and "edone (eq_state qu) + escratch (eq_state qu) \<le> n" and "need (eq_state qu) (length (concat cs)) < n"
  shows "\<exists>qu' f. push_all qu cs = Some qu' \<and> queue_wf (eq_data qu') \<and> qdata (eq_data qu') = pre @ f \<and> frame f = Some (m @ concat cs)
     \<and> eq_enc qu' = Some enc \<and> qoff (eq_data qu') = qoff (eq_data qu) \<and> escratch (eq_state qu') = 0 \<and> qmax (eq_data qu') = qmax (eq_data qu)"
  using assms
proof (induction cs arbitrary: qu m)
  case Nil
  from Nil(6,8) have "0 < escratch (eq_state qu)" "need (eq_state qu) 0 < n" by simp_all
  from queue_push_end [OF Nil(2-5) this(1) Nil(7) this(2), of None] show ?case by auto
next
  case (Cons c cs)
  have c: "c \<noteq> []" "list_all (\<lambda>c. c \<noteq> []) cs" using Cons.prems(1) by auto
  from queue_push_piece [OF Cons.prems(2-5) c(1) Cons.prems(7), of "length (concat cs)"] Cons.prems(8) obtain qu' where
    p: "mpt_queue_push qu (length c) (Some c) = Some (int (length c), qu')" "eq_enc qu' = Some enc" "queue_wf (eq_data qu')"
      "rel pre (eq_state qu') (drop (qoff (eq_data qu')) (qbase (eq_data qu'))) (m @ c)" "0 < escratch (eq_state qu')"
      "edone (eq_state qu') + escratch (eq_state qu') \<le> n" "need (eq_state qu') (length (concat cs)) < n"
      "qoff (eq_data qu') = qoff (eq_data qu)" "qmax (eq_data qu') = qmax (eq_data qu)" by auto
  have n: "n = qmax (eq_data qu') - qoff (eq_data qu')" using p(8,9) Cons.prems(4) by simp
  from Cons.IH [OF c(2) p(2,3) n p(4) disjI1 [OF p(5)] p(6,7)] p(1,8,9) show ?case by simp
qed

lemma queue_recv_message:
  assumes "dq_dec qu = Some dec" and "dq_ok qu" and "dec_idle (dq_state qu)" and "dq_rest qu = f @ rest" and "f \<noteq> []" and "frame f = Some m"
    and "room f \<le> dcurr (dq_state qu) - (dpos (dq_state qu) + dlen (dq_state qu))"
  shows "\<exists>qu'. mpt_queue_recv qu = Some (1, qu') \<and> dq_ok qu' \<and> dq_message qu' = m \<and> dq_rest qu' = rest
     \<and> dmsg (dq_state qu') = int (length m) \<and> dec_idle (dq_state qu') \<and> dq_dec qu' = Some dec
     \<and> qmax (dq_data qu') = qmax (dq_data qu)"
proof -
  let ?q = "dq_data qu" and ?st = "dq_state qu" and ?v = "vectorSet (dq_addr qu) (dq_data qu)"
  have ok: "queue_wf ?q" "dpos ?st + dlen ?st \<le> dcurr ?st" "dcurr ?st \<le> qlen ?q" using assms(2) by (auto simp: dq_ok_def)
  let ?pre = "take (dcurr ?st) (qdata ?q)"
  have v: "vec_bytes ?v = ?pre @ f @ rest" "dcurr ?st = length ?pre" "?v \<noteq> []"
    using vector_bytes [OF ok(1)] assms(4) ok by (simp_all add: dq_rest_def vectorSet_def) (metis append_take_drop_id)
  from decode [OF assms(6,3) ok(2) v assms(7)] obtain d' v' where
    d: "dec ?st (Some ?v) (length ?v) = Some (1, d', Some v')" "map (length \<circ> snd) v' = map (length \<circ> snd) ?v"
      "dec_idle d'" "dmsg d' = int (length m)" "dcurr d' = length (?pre @ f)" "dpos d' + dlen d' \<le> dcurr d'"
      "take (dlen d') (drop (dpos d') (vec_bytes v')) = m" "drop (dcurr d') (vec_bytes v') = rest" by blast
  note st = vector_store [OF ok(1) d(2)]
  let ?qu = "qu\<lparr>dq_state := d', dq_data := vec_store ?q v'\<rparr>"
  have len: "qlen ?q = length (?pre @ f @ rest)" using v(1) vector_bytes [OF ok(1)] ok(1) by (metis length_qdata)
  have "dq_ok ?qu" using st d(5,6) len by (simp add: dq_ok_def)
  from shift_keeps [OF this] obtain qu' where s: "mpt_queue_shift ?qu = Some qu'" "dq_ok qu'" "dq_message qu' = m" "dq_rest qu' = rest"
    "dmsg (dq_state qu') = int (length m)" "dlen (dq_state qu') = dlen d'" "dctx (dq_state qu') = dctx d'"
    "dq_dec qu' = Some dec" "qmax (dq_data qu') = qmax ?q"
    using st d(4,7,8) assms(1) by (auto simp: dq_message_def dq_rest_def)
  have "dec_call dec qu = Some (1, ?qu)" using d(1) by (simp add: dec_call_def)
  moreover have "qlen ?q \<noteq> 0" using len assms(5) by auto
  ultimately have "mpt_queue_recv qu = Some (1, qu')" using assms(1) s(1,5) by (simp add: mpt_queue_recv_def recv_done_def)
  moreover have "dec_idle (dq_state qu')" using d(3,4) s(5-7) by (simp add: dec_idle_def)
  ultimately show ?thesis using s by auto
qed

lemma queue_recv_exhausted:
  assumes "dq_dec qu = Some dec" and "dq_ok qu" and "dec_idle (dq_state qu)" and "dq_rest qu = []" and "0 < qlen (dq_data qu)"
  shows "\<exists>qu'. mpt_queue_recv qu = Some (0, qu') \<and> dq_ok qu' \<and> dq_rest qu' = [] \<and> dmsg (dq_state qu') < 0 \<and> dec_idle (dq_state qu')
     \<and> qmax (dq_data qu') = qmax (dq_data qu) \<and> dq_dec qu' = Some dec"
proof -
  let ?q = "dq_data qu" and ?st = "dq_state qu" and ?v = "vectorSet (dq_addr qu) (dq_data qu)"
  have ok: "queue_wf ?q" "dpos ?st + dlen ?st \<le> dcurr ?st" "dcurr ?st \<le> qlen ?q" using assms(2) by (auto simp: dq_ok_def)
  have v: "vec_bytes ?v = qdata ?q" "?v \<noteq> []" using vector_bytes [OF ok(1)] by (simp_all add: vectorSet_def)
  have e: "dcurr ?st = length (vec_bytes ?v)" using v(1) assms(4) ok(1,3) by (simp add: dq_rest_def)
  from exhausted [OF assms(3) ok(2) e v(2)] obtain d' v' where
    d: "dec ?st (Some ?v) (length ?v) = Some (0, d', Some v')" "map (length \<circ> snd) v' = map (length \<circ> snd) ?v"
      "dec_idle d'" "dmsg d' < 0" "dcurr d' = dcurr ?st" "dpos d' + dlen d' \<le> dcurr d'" by blast
  note st = vector_store [OF ok(1) d(2)]
  let ?qu = "qu\<lparr>dq_state := d', dq_data := vec_store ?q v'\<rparr>"
  have "dq_ok ?qu" using st d(5,6) ok(3) by (simp add: dq_ok_def)
  moreover have "length (vec_bytes v') = qlen ?q" using st length_qdata [of "vec_store ?q v'"] by simp
  then have "dq_rest ?qu = []" using st d(5) e v(1) ok(1) by (simp add: dq_rest_def)
  ultimately obtain qu' where s: "mpt_queue_shift ?qu = Some qu'" "dq_ok qu'" "dq_rest qu' = []" "dmsg (dq_state qu') = dmsg d'"
    "dlen (dq_state qu') = dlen d'" "dctx (dq_state qu') = dctx d'" "qmax (dq_data qu') = qmax ?q" "dq_dec qu' = dq_dec qu"
    using shift_keeps [of ?qu] st by auto
  have "dec_call dec qu = Some (0, ?qu)" using d(1) by (simp add: dec_call_def)
  then have "mpt_queue_recv qu = Some (0, qu')" using assms(1,5) s(1,4) d(4) by (simp add: mpt_queue_recv_def recv_done_def)
  moreover have "dec_idle (dq_state qu')" using d(3) s(4-6) by (simp add: dec_idle_def)
  ultimately show ?thesis using s d(4) assms(1) by auto
qed

end

text \<open>The four COBS variants fulfil the contract.\<close>

lemma encoder_push: "encoder_of V R info (Some b) (Some d) = mpt_encode V info (Some b) (Some d)"
  by (simp add: encoder_of_def mpt_encode_r_def)

lemma encoder_end:
  assumes "enc_state V pre info buf m" and "0 < escratch info" and "cobs_need V info 0 < length buf"
  shows "\<exists>info' buf' f. encoder_of V R info (Some (Some buf, length buf)) None = Some (0, info', Some buf')
    \<and> escratch info' = 0 \<and> length buf' = length buf \<and> take (edone info') buf' = pre @ f
    \<and> edone info' = length (pre @ f) \<and> frame_of V R f = Some m"
proof -
  have e: "escratch info = 0 \<longrightarrow> pre = []" and lt: "edone info + enc_code info < length buf"
    using assms(2,3) by (auto simp: cobs_need_def)
  show ?thesis
  proof (cases R)
    case True
    with end_inline [OF assms(1) e lt] show ?thesis by (fastforce simp: encoder_of_def)
  next
    case False
    with end_regular [OF assms(1) e lt] show ?thesis by (fastforce simp: encoder_of_def)
  qed
qed

interpretation cobs: frame_codec "encoder_of V R" "decoder_of V R" "enc_state V" "cobs_need V" "frame_of V R" "cobs_room V"
  for V R
proof
  show "edone info \<le> cobs_need V info n" for info n by (simp add: cobs_need_def)
next
  show "enc_state V pre info buf []" if "escratch info = 0" "edone info = length pre" "take (length pre) buf = pre" for info pre buf
    using that by (simp add: enc_state_def)
next
  fix pre info buf m and src :: block and k
  assume "enc_state V pre info buf m" "src \<noteq> []" "cobs_need V info (length src + k) < length buf"
  from push_data [OF this(1,2), of k] this(3) show "\<exists>info' buf'. encoder_of V R info (Some (Some buf, length buf)) (Some (Some src, length src)) = Some (int (length src), info', Some buf')
      \<and> enc_state V pre info' buf' (m @ src) \<and> length buf' = length buf \<and> 0 < escratch info'
      \<and> edone info' + escratch info' \<le> length buf' \<and> cobs_need V info' k < length buf'"
    by (fastforce simp: encoder_push cobs_need_def enc_code_def)
next
  fix f m d v pre rest
  assume a: "frame_of V R f = Some m" "dec_idle d" "dpos d + dlen d \<le> dcurr d" "vec_bytes v = pre @ f @ rest" "dcurr d = length pre" "v \<noteq> []"
    "cobs_room V f \<le> dcurr d - (dpos d + dlen d)"
  have "V = ZPE \<longrightarrow> length f + 15 \<le> dcurr d - (dpos d + dlen d)" using a(7) by (cases V) (simp_all add: cobs_room_def)
  from decode_frame_ok [OF a(1-6) this, of "decoder_of V R"]
  show "\<exists>d' v'. decoder_of V R d (Some v) (length v) = Some (1, d', Some v') \<and> map (length \<circ> snd) v' = map (length \<circ> snd) v
    \<and> dec_idle d' \<and> dmsg d' = int (length m) \<and> dcurr d' = length (pre @ f) \<and> dpos d' + dlen d' \<le> dcurr d'
    \<and> take (dlen d') (drop (dpos d') (vec_bytes v')) = m \<and> drop (dcurr d') (vec_bytes v') = rest"
    by (cases R) (auto simp: decoder_of_def)
next
  fix d :: decode_state and v
  assume "dec_idle d" "dpos d + dlen d \<le> dcurr d" "dcurr d = length (vec_bytes v)" "v \<noteq> []"
  from decode_exhausted [OF this, of "decoder_of V R" V]
  show "\<exists>d' v'. decoder_of V R d (Some v) (length v) = Some (0, d', Some v') \<and> map (length \<circ> snd) v' = map (length \<circ> snd) v
    \<and> dec_idle d' \<and> dmsg d' < 0 \<and> dcurr d' = dcurr d \<and> dpos d' + dlen d' \<le> dcurr d'"
    by (cases R) (auto simp: decoder_of_def)
qed (rule encoder_end)

lemma frame_nonempty: "frame_of V R f = Some m \<Longrightarrow> f \<noteq> []"
  by (auto simp: frame_of_def)

section \<open>Properties\<close>

text \<open>A queue whose free space behind the finished contents does not begin in the upper part of the
  block takes every piece of a message completely, and the end of the message adds exactly one frame.\<close>

lemma queue_push_frame:
  assumes "list_all (\<lambda>c. c \<noteq> []) cs" and "cs \<noteq> []" and "eq_enc qu = Some (encoder_of V R)" and "queue_wf (eq_data qu)"
    and "escratch (eq_state qu) = 0" and "edone (eq_state qu) = qlen (eq_data qu)"
    and need: "cobs_need V (eq_state qu) (length (concat cs)) < qmax (eq_data qu) - qoff (eq_data qu)"
  obtains qu' f where "push_all qu cs = Some qu'" "qdata (eq_data qu') = qdata (eq_data qu) @ f" "frame_of V R f = Some (concat cs)"
     "queue_wf (eq_data qu')" "escratch (eq_state qu') = 0" "qmax (eq_data qu') = qmax (eq_data qu)"
proof -
  let ?q = "eq_data qu" and ?n = "qmax (eq_data qu) - qoff (eq_data qu)"
  have le: "qlen ?q < ?n" using cobs.need_done [of "eq_state qu" V "length (concat cs)"] need assms(6) by simp
  then have d: "qdata ?q = take (qlen ?q) (drop (qoff ?q) (qbase ?q))"
    using assms(4) by (simp add: qdata_def ring_def queue_wf_def)
  have "enc_state V (qdata ?q) (eq_state qu) (drop (qoff ?q) (qbase ?q)) []"
    using assms(4-6) d le by (simp add: enc_state_def queue_wf_def min_def)
  moreover have "edone (eq_state qu) + escratch (eq_state qu) \<le> ?n" using assms(5,6) le by simp
  ultimately show thesis
    using cobs.queue_push_message [OF assms(1,3,4) refl, of "qdata ?q" "[]"] assms(2) need that by auto
qed

text \<open>Property C6: a message pushed in non-empty pieces to an encoding queue and terminated adds one
  frame to the contents, and a decoding queue of the same variant receives exactly this message from
  the frame: when it is next in its buffer, wherever the buffer wraps, with other contents before and
  after it.  The receiving queue is ready for the next message and keeps the contents that follow.
  The encoding queue may hold finished contents and begin anywhere in its block, but the block must
  have the space that the message may need (\<open>cobs_need\<close>) behind this offset: where the message
  reaches the end of the block, \<open>mpt_queue_push\<close> loses bytes (\<open>queue_push_split_lost\<close>,
  \<open>queue_push_upper_gap\<close>).  The decoder of zero pair elimination needs free space in front of
  the frame (\<open>cobs_room\<close>).\<close>

theorem queue_message_transfer:
  assumes "list_all (\<lambda>c. c \<noteq> []) cs" and "cs \<noteq> []"
    and "eq_enc qu = Some (encoder_of V R)" and "queue_wf (eq_data qu)"
    and "escratch (eq_state qu) = 0" and "edone (eq_state qu) = qlen (eq_data qu)"
    and "cobs_need V (eq_state qu) (length (concat cs)) < qmax (eq_data qu) - qoff (eq_data qu)"
  shows "\<exists>qu' f. push_all qu cs = Some qu' \<and> qdata (eq_data qu') = qdata (eq_data qu) @ f
     \<and> queue_wf (eq_data qu') \<and> escratch (eq_state qu') = 0
     \<and> (\<forall>dq rest. dq_dec dq = Some (decoder_of V R) \<longrightarrow> dq_ok dq \<longrightarrow> dec_idle (dq_state dq) \<longrightarrow> dq_rest dq = f @ rest
         \<longrightarrow> cobs_room V f \<le> dcurr (dq_state dq) - (dpos (dq_state dq) + dlen (dq_state dq))
         \<longrightarrow> (\<exists>dq'. mpt_queue_recv dq = Some (1, dq') \<and> dq_message dq' = concat cs \<and> dq_rest dq' = rest
               \<and> dmsg (dq_state dq') = int (length (concat cs)) \<and> dec_idle (dq_state dq') \<and> dq_ok dq'))"
proof -
  from queue_push_frame [OF assms] obtain qu' f where
    f: "push_all qu cs = Some qu'" "qdata (eq_data qu') = qdata (eq_data qu) @ f" "frame_of V R f = Some (concat cs)"
      "queue_wf (eq_data qu')" "escratch (eq_state qu') = 0" .
  have "\<exists>dq'. mpt_queue_recv dq = Some (1, dq') \<and> dq_message dq' = concat cs \<and> dq_rest dq' = rest
      \<and> dmsg (dq_state dq') = int (length (concat cs)) \<and> dec_idle (dq_state dq') \<and> dq_ok dq'"
    if "dq_dec dq = Some (decoder_of V R)" "dq_ok dq" "dec_idle (dq_state dq)" "dq_rest dq = f @ rest"
      "cobs_room V f \<le> dcurr (dq_state dq) - (dpos (dq_state dq) + dlen (dq_state dq))" for dq rest
    using cobs.queue_recv_message [OF that(1-4) frame_nonempty [OF f(3)] f(3) that(5)] by blast
  then show ?thesis using f by blast
qed

text \<open>An example: one finished message in an encoding queue which begins in the middle of its block, and a
  decoding queue whose contents wrap.\<close>

definition eq_example :: encode_queue where
  "eq_example = \<lparr>eq_data = \<lparr>qbase = [9, 9, 2, 7, 0, 9, 9, 9, 9, 9], qlen = 3, qmax = 10, qoff = 2\<rparr>,
     eq_state = \<lparr>ectx = 0, edone = 3, escratch = 0\<rparr>, eq_enc = Some (encoder_of COBS False)\<rparr>"

definition dq_example :: decode_queue where
  "dq_example = \<lparr>dq_data = \<lparr>qbase = [2, 2, 0, 7, 0, 0, 2, 1], qlen = 6, qmax = 8, qoff = 6\<rparr>, dq_state = MPT_DECODE_INIT,
     dq_dec = Some (decoder_of COBS False), dq_addr = 64\<rparr>"

lemma eq_example_push:
  "push_all eq_example [[1, 0], [2]] = Some \<lparr>eq_data = \<lparr>qbase = [9, 9, 2, 7, 0, 2, 1, 2, 2, 0], qlen = 8, qmax = 10, qoff = 2\<rparr>,
     eq_state = \<lparr>ectx = 0, edone = 8, escratch = 0\<rparr>, eq_enc = Some (encoder_of COBS False)\<rparr>"
  by (simp add: eq_example_def mpt_queue_push_def push_coded_def push_lower_def push_rest_def enc_at_def encoder_of_def
      mpt_encode_def encode_data_def encode_end_def wr_def Let_def)

theorem queue_message_transfer_witness:
  "\<exists>dq'. mpt_queue_recv dq_example = Some (1, dq') \<and> dq_message dq' = [1, 0, 2] \<and> dq_rest dq' = [7]"
proof -
  have d: "dq_dec dq_example = Some (decoder_of COBS False)" "dq_ok dq_example" "dec_idle (dq_state dq_example)"
    "dq_rest dq_example = [2, 1, 2, 2, 0] @ [7]"
    by (simp_all add: dq_example_def queue_wf_def MPT_DECODE_INIT_def dq_ok_def dec_idle_def dq_rest_def qdata_def ring_def)
  have e: "eq_enc eq_example = Some (encoder_of COBS False)" "queue_wf (eq_data eq_example)"
    "escratch (eq_state eq_example) = 0" "edone (eq_state eq_example) = qlen (eq_data eq_example)"
    "cobs_need COBS (eq_state eq_example) (length (concat [[1, 0], [2]])) < qmax (eq_data eq_example) - qoff (eq_data eq_example)"
    by (simp_all add: eq_example_def queue_wf_def cobs_need_def enc_space_def enc_code_def)
  have q: "qdata (eq_data eq_example) = [2, 7, 0]" by (simp add: eq_example_def qdata_def ring_def)
  from queue_message_transfer [of "[[1, 0], [2]]", OF _ _ e] obtain qu' f where
    f: "push_all eq_example [[1, 0], [2]] = Some qu'" "qdata (eq_data qu') = qdata (eq_data eq_example) @ f"
      "\<forall>dq rest. dq_dec dq = Some (decoder_of COBS False) \<longrightarrow> dq_ok dq \<longrightarrow> dec_idle (dq_state dq) \<longrightarrow> dq_rest dq = f @ rest
         \<longrightarrow> cobs_room COBS f \<le> dcurr (dq_state dq) - (dpos (dq_state dq) + dlen (dq_state dq))
         \<longrightarrow> (\<exists>dq'. mpt_queue_recv dq = Some (1, dq') \<and> dq_message dq' = concat [[1, 0], [2]] \<and> dq_rest dq' = rest
               \<and> dmsg (dq_state dq') = int (length (concat [[1, 0], [2 :: byte]])) \<and> dec_idle (dq_state dq') \<and> dq_ok dq')"
    by (auto simp del: push_all.simps concat.simps)
  have "qdata (eq_data qu') = [2, 7, 0, 2, 1, 2, 2, 0]"
    using f(1) eq_example_push by (auto simp del: push_all.simps simp: qdata_def ring_def)
  then have "f = [2, 1, 2, 2, 0]" using f(2) q by simp
  with f(3) [rule_format, OF d(1-3), of "[7]"] d(4) show ?thesis by (auto simp: cobs_room_def)
qed

text \<open>An empty queue keeps the offset of the data that left it (\<open>mpt_queue_crop\<close> of wrapped contents).  A
  message which reaches the end of the block from there is stored in part, and for the rest
  the queue is aligned by its length, which counts no byte of the message in progress: the
  part stays where it was, and the end of the message is joined to other bytes.  Here the
  message \<open>[65, 66, 67]\<close> becomes a frame of \<open>[9, 66, 67]\<close>.\<close>

theorem queue_push_split_lost:
  "let qu = \<lparr>eq_data = \<lparr>qbase = [9, 9, 9, 9, 9, 9, 9, 9], qlen = 0, qmax = 8, qoff = 6\<rparr>,
             eq_state = MPT_ENCODE_INIT, eq_enc = Some (encoder_of COBS False)\<rparr> in
   (case push_all qu [[65, 66, 67]] of Some qu' \<Rightarrow> qdata (eq_data qu') | None \<Rightarrow> []) = [4, 9, 66, 67, 0]"
  by (simp add: mpt_queue_push_def push_coded_def push_lower_def push_rest_def enc_at_def encoder_of_def mpt_encode_def
      mpt_queue_align_def MPT_ENCODE_INIT_def encode_data_def encode_end_def wr_def qdata_def ring_def Let_def)

text \<open>In a queue whose free space begins in the upper part of the block, a push starts at twice the
  offset there: the message is stored behind a gap that holds no encoded data, and the end of
  the message is outside of the contents.  Here the message \<open>[1]\<close> is
  pushed behind an equal one whose last byte wraps.\<close>

theorem queue_push_upper_gap:
  "let qu = \<lparr>eq_data = \<lparr>qbase = [0, 5, 5, 5, 5, 5, 2, 1], qlen = 3, qmax = 8, qoff = 6\<rparr>,
             eq_state = \<lparr>ectx = 0, edone = 3, escratch = 0\<rparr>, eq_enc = Some (encoder_of COBS False)\<rparr> in
   (case push_all qu [[1]] of Some qu' \<Rightarrow> qdata (eq_data qu') | None \<Rightarrow> []) = [2, 1, 0, 5, 2, 1]"
  by (simp add: mpt_queue_push_def push_coded_def enc_at_def encoder_of_def mpt_encode_def
      encode_data_def encode_end_def wr_def qdata_def ring_def Let_def)

end
