(* ===== verification/DataConvert.thy ===== *)
theory DataConvert
  imports Message MsgValue
begin

text \<open>
  Conversion of integers between the native types: \<open>mptcore/convert/data_convert_int.c\<close>.

  A source is a word of the width of its C type, absent for a null pointer; a target type is its type
  id.  What is stored at the destination is an integer of a number of bytes (as its unsigned bit
  value), the conversion of an integer to a floating point type (done by the compiler, so that the
  integer is recorded), or a vector element that refers to the source.  The result \<open>None\<close> is the
  store to a null destination and \<open>isgraph\<close> outside of its domain.  \<open>ext\<close> is the compile-time
  flag of the extended float type.
\<close>

section \<open>Model\<close>

datatype cval = CInt nat int | CFloat nat int | CVec nat

type_synonym cvt_result = "(int \<times> cval option) option"

definition cvt_put :: "bool \<Rightarrow> cval \<Rightarrow> int \<Rightarrow> cvt_result" where
  "cvt_put dest v ret = Some (ret, if dest then Some v else None)"

definition cvt_must :: "bool \<Rightarrow> cval \<Rightarrow> int \<Rightarrow> cvt_result" where
  "cvt_must dest v ret = (if dest then Some (ret, Some v) else None)"

definition cvt_fail :: "int \<Rightarrow> cvt_result" where
  "cvt_fail e = Some (e, None)"

text \<open>Bits of an integer in a number of bytes.\<close>

definition bits_of :: "nat \<Rightarrow> int \<Rightarrow> cval" where
  "bits_of n val = CInt n (val mod 2 ^ (8 * n))"

text \<open>The character case: \<open>isgraph\<close> takes an \<open>int\<close> of the range of \<open>unsigned char\<close> or \<open>EOF\<close>.\<close>

definition cvt_char :: "bool \<Rightarrow> int \<Rightarrow> cvt_result" where
  "cvt_char dest val =
     (let c = to_int32 val in
      if c < - 1 \<or> 255 < c then None
      else if \<not> isgraph c then cvt_fail BadValue else cvt_put dest (bits_of 1 val) 1)"

text \<open>The vector case with the size of the source.\<close>

definition cvt_vec :: "bool \<Rightarrow> nat \<Rightarrow> cvt_result" where
  "cvt_vec dest n = (if dest then Some (16, Some (CVec n)) else cvt_fail MissingData)"

text \<open>The id of a vector of a scalar type.\<close>

definition MPT_type_toVector :: "int \<Rightarrow> int" where
  "MPT_type_toVector v = (if 0x60 \<le> v \<and> v \<le> 0x7a then v - 0x60 + 0x40 else 0)"

text \<open>The type \<open>l\<close> is replaced by the type of a \<open>long\<close>.\<close>

definition long_type :: "int \<Rightarrow> int" where
  "long_type type = (if type = type_char CHR ''l'' then mpt_type_int 8 else type)"

definition mpt_data_convert_int8 :: "bool \<Rightarrow> 8 word option \<Rightarrow> int \<Rightarrow> bool \<Rightarrow> cvt_result" where
  "mpt_data_convert_int8 ext from type dest =
     (let val = (case from of None \<Rightarrow> 0 | Some w \<Rightarrow> sint w); type = long_type type in
      if type = type_char CHR ''c'' then cvt_char dest val
      else if type = type_char CHR ''y'' then (if val < 0 then cvt_fail BadValue else cvt_put dest (bits_of 1 val) 1)
      else if type = type_char CHR ''b'' then cvt_put dest (bits_of 1 val) 1
      else if type = type_char CHR ''q'' then (if val < 0 then cvt_fail BadValue else cvt_put dest (bits_of 2 val) 2)
      else if type = type_char CHR ''n'' then cvt_put dest (bits_of 2 val) 2
      else if type = type_char CHR ''u'' then (if val < 0 then cvt_fail BadValue else cvt_put dest (bits_of 4 val) 4)
      else if type = type_char CHR ''i'' then cvt_put dest (bits_of 4 val) 4
      else if type = type_char CHR ''t'' then (if val < 0 then cvt_fail BadValue else cvt_put dest (bits_of 8 val) 8)
      else if type = type_char CHR ''x'' then cvt_put dest (bits_of 8 val) 8
      else if type = type_char CHR ''f'' then cvt_put dest (CFloat 4 val) 4
      else if type = type_char CHR ''d'' then cvt_put dest (CFloat 8 val) 8
      else if ext \<and> type = type_char CHR ''e'' then cvt_put dest (CFloat 16 val) 16
      else if type = MPT_type_toVector (type_char CHR ''b'') then cvt_vec dest 1
      else cvt_fail BadType)"

definition mpt_data_convert_uint8 :: "bool \<Rightarrow> 8 word option \<Rightarrow> int \<Rightarrow> bool \<Rightarrow> cvt_result" where
  "mpt_data_convert_uint8 ext from type dest =
     (let val = (case from of None \<Rightarrow> 0 | Some w \<Rightarrow> uint w); type = long_type type in
      if type = type_char CHR ''c'' then cvt_char dest val
      else if type = type_char CHR ''b'' then (if val > 127 then cvt_fail BadValue else cvt_put dest (bits_of 1 val) 1)
      else if type = type_char CHR ''y'' then cvt_put dest (bits_of 1 val) 1
      else if type = type_char CHR ''n'' \<or> type = type_char CHR ''q'' then cvt_put dest (bits_of 2 val) 2
      else if type = type_char CHR ''i'' \<or> type = type_char CHR ''u'' then cvt_must dest (bits_of 4 val) 4
      else if type = type_char CHR ''x'' \<or> type = type_char CHR ''t'' then cvt_must dest (bits_of 8 val) 8
      else if type = type_char CHR ''f'' then cvt_put dest (CFloat 4 val) 4
      else if type = type_char CHR ''d'' then cvt_put dest (CFloat 8 val) 8
      else if ext \<and> type = type_char CHR ''e'' then cvt_put dest (CFloat 16 val) 8
      else if type = MPT_type_toVector (type_char CHR ''y'') then cvt_vec dest 1
      else cvt_fail BadType)"

definition mpt_data_convert_int16 :: "bool \<Rightarrow> 16 word option \<Rightarrow> int \<Rightarrow> bool \<Rightarrow> cvt_result" where
  "mpt_data_convert_int16 ext from type dest =
     (let val = (case from of None \<Rightarrow> 0 | Some w \<Rightarrow> sint w); type = long_type type in
      if type = type_char CHR ''c'' then cvt_char dest val
      else if type = type_char CHR ''b'' then (if val < - 128 \<or> val > 127 then cvt_fail BadValue else cvt_put dest (bits_of 1 val) 1)
      else if type = type_char CHR ''y'' then (if val < 0 \<or> val > 255 then cvt_fail BadValue else cvt_put dest (bits_of 1 val) 1)
      else if type = type_char CHR ''q'' then (if val < 0 then cvt_fail BadValue else cvt_put dest (bits_of 2 val) 2)
      else if type = type_char CHR ''n'' then cvt_put dest (bits_of 2 val) 2
      else if type = type_char CHR ''u'' then (if val < 0 then cvt_fail BadValue else cvt_put dest (bits_of 4 val) 4)
      else if type = type_char CHR ''i'' then cvt_put dest (bits_of 4 val) 4
      else if type = type_char CHR ''t'' then (if val < 0 then cvt_fail BadValue else cvt_put dest (bits_of 8 val) 8)
      else if type = type_char CHR ''x'' then cvt_put dest (bits_of 8 val) 8
      else if type = type_char CHR ''f'' then cvt_put dest (CFloat 4 val) 8
      else if type = type_char CHR ''d'' then cvt_put dest (CFloat 8 val) 8
      else if ext \<and> type = type_char CHR ''e'' then cvt_put dest (CFloat 16 val) 16
      else if type = MPT_type_toVector (type_char CHR ''n'') then cvt_vec dest 2
      else cvt_fail BadType)"

definition mpt_data_convert_uint16 :: "bool \<Rightarrow> 16 word option \<Rightarrow> int \<Rightarrow> bool \<Rightarrow> cvt_result" where
  "mpt_data_convert_uint16 ext from type dest =
     (let val = (case from of None \<Rightarrow> 0 | Some w \<Rightarrow> uint w); type = long_type type in
      if type = type_char CHR ''c'' then cvt_char dest val
      else if type = type_char CHR ''b'' then (if val > 127 then cvt_fail BadValue else cvt_put dest (bits_of 1 val) 1)
      else if type = type_char CHR ''y'' then (if val > 255 then cvt_fail BadValue else cvt_put dest (bits_of 1 val) 1)
      else if type = type_char CHR ''h'' then (if val > 32767 then cvt_fail BadValue else cvt_put dest (bits_of 2 val) 2)
      else if type = type_char CHR ''q'' then cvt_put dest (bits_of 2 val) 2
      else if type = type_char CHR ''u'' \<or> type = type_char CHR ''i'' then cvt_put dest (bits_of 4 val) 4
      else if type = type_char CHR ''t'' \<or> type = type_char CHR ''x'' then cvt_put dest (bits_of 8 val) 8
      else if type = type_char CHR ''f'' then cvt_put dest (CFloat 4 val) 4
      else if type = type_char CHR ''d'' then cvt_put dest (CFloat 8 val) 8
      else if ext \<and> type = type_char CHR ''e'' then cvt_must dest (CFloat 16 val) 16
      else if type = MPT_type_toVector (type_char CHR ''q'') then Some (MissingData, if dest then Some (CVec 2) else None)
      else cvt_fail BadType)"

definition mpt_data_convert_int32 :: "bool \<Rightarrow> 32 word option \<Rightarrow> int \<Rightarrow> bool \<Rightarrow> cvt_result" where
  "mpt_data_convert_int32 ext from type dest =
     (let val = (case from of None \<Rightarrow> 0 | Some w \<Rightarrow> sint w); type = long_type type in
      if type = type_char CHR ''c'' then cvt_char dest val
      else if type = type_char CHR ''b'' then (if val < - 128 \<or> val > 127 then cvt_fail BadValue else cvt_put dest (bits_of 1 val) 1)
      else if type = type_char CHR ''y'' then (if val < 0 \<or> val > 255 then cvt_fail BadValue else cvt_put dest (bits_of 1 val) 1)
      else if type = type_char CHR ''n'' then (if val < - 32768 \<or> val > 32767 then cvt_fail BadValue else cvt_put dest (bits_of 2 val) 2)
      else if type = type_char CHR ''q'' then (if val < 0 \<or> val > 65535 then cvt_fail BadValue else cvt_put dest (bits_of 2 val) 2)
      else if type = type_char CHR ''u'' then (if val < 0 then cvt_fail BadValue else cvt_put dest (bits_of 4 val) 4)
      else if type = type_char CHR ''i'' then cvt_put dest (bits_of 4 val) 4
      else if type = type_char CHR ''t'' then (if val < 0 then cvt_fail BadValue else cvt_put dest (bits_of 8 val) 8)
      else if type = type_char CHR ''x'' then cvt_put dest (bits_of 8 val) 8
      else if type = type_char CHR ''f'' then cvt_put dest (CFloat 4 val) 4
      else if type = type_char CHR ''d'' then cvt_put dest (CFloat 8 val) 8
      else if ext \<and> type = type_char CHR ''e'' then cvt_put dest (CFloat 16 val) 16
      else if type = MPT_type_toVector (type_char CHR ''i'') then cvt_vec dest 4
      else cvt_fail BadType)"

definition mpt_data_convert_uint32 :: "bool \<Rightarrow> 32 word option \<Rightarrow> int \<Rightarrow> bool \<Rightarrow> cvt_result" where
  "mpt_data_convert_uint32 ext from type dest =
     (let val = (case from of None \<Rightarrow> 0 | Some w \<Rightarrow> uint w); type = long_type type in
      if type = type_char CHR ''c'' then cvt_char dest val
      else if type = type_char CHR ''b'' then (if val > 127 then cvt_fail BadValue else cvt_put dest (bits_of 1 val) 1)
      else if type = type_char CHR ''y'' then (if val > 255 then cvt_fail BadValue else cvt_put dest (bits_of 1 val) 1)
      else if type = type_char CHR ''n'' then (if val > 32767 then cvt_fail BadValue else cvt_put dest (bits_of 2 val) 2)
      else if type = type_char CHR ''q'' then (if val > 65535 then cvt_fail BadValue else cvt_put dest (bits_of 2 val) 2)
      else if type = type_char CHR ''i'' then (if val > 2147483647 then cvt_fail BadValue else cvt_put dest (bits_of 4 val) 4)
      else if type = type_char CHR ''u'' then cvt_put dest (bits_of 4 val) 4
      else if type = type_char CHR ''t'' \<or> type = type_char CHR ''x'' then cvt_put dest (bits_of 8 val) 8
      else if type = type_char CHR ''f'' then cvt_put dest (CFloat 4 val) 4
      else if type = type_char CHR ''d'' then cvt_put dest (CFloat 8 val) 8
      else if ext \<and> type = type_char CHR ''e'' then cvt_put dest (CFloat 16 val) 16
      else if type = MPT_type_toVector (type_char CHR ''u'') then cvt_vec dest 4
      else cvt_fail BadType)"

definition mpt_data_convert_int64 :: "bool \<Rightarrow> 64 word option \<Rightarrow> int \<Rightarrow> bool \<Rightarrow> cvt_result" where
  "mpt_data_convert_int64 ext from type dest =
     (let val = (case from of None \<Rightarrow> 0 | Some w \<Rightarrow> sint w); type = long_type type in
      if type = type_char CHR ''c'' then cvt_char dest val
      else if type = type_char CHR ''b'' then (if val < - 128 \<or> val > 127 then cvt_fail BadValue else cvt_put dest (bits_of 1 val) 1)
      else if type = type_char CHR ''y'' then (if val < 0 \<or> val > 255 then cvt_fail BadValue else cvt_put dest (bits_of 1 val) 1)
      else if type = type_char CHR ''n'' then (if val < - 32768 \<or> val > 32767 then cvt_fail BadValue else cvt_put dest (bits_of 2 val) 2)
      else if type = type_char CHR ''q'' then (if val < 0 \<or> val > 65535 then cvt_fail BadValue else cvt_put dest (bits_of 2 val) 2)
      else if type = type_char CHR ''i'' then (if val < - 2147483648 \<or> val > 2147483647 then cvt_fail BadValue else cvt_put dest (bits_of 4 val) 4)
      else if type = type_char CHR ''u'' then (if val < 0 \<or> val > 4294967295 then cvt_fail BadValue else cvt_put dest (bits_of 4 val) 4)
      else if type = type_char CHR ''t'' then (if val < 0 then cvt_fail BadValue else cvt_put dest (bits_of 8 val) 8)
      else if type = type_char CHR ''x'' then cvt_put dest (bits_of 8 val) 8
      else if type = type_char CHR ''f'' then cvt_put dest (CFloat 4 val) 4
      else if type = type_char CHR ''d'' then cvt_put dest (CFloat 8 val) 8
      else if ext \<and> type = type_char CHR ''e'' then cvt_put dest (CFloat 16 val) 16
      else if type = MPT_type_toVector (type_char CHR ''x'') then cvt_vec dest 8
      else cvt_fail BadType)"

definition mpt_data_convert_uint64 :: "bool \<Rightarrow> 64 word option \<Rightarrow> int \<Rightarrow> bool \<Rightarrow> cvt_result" where
  "mpt_data_convert_uint64 ext from type dest =
     (let val = (case from of None \<Rightarrow> 0 | Some w \<Rightarrow> uint w); type = long_type type in
      if type = type_char CHR ''c'' then cvt_char dest val
      else if type = type_char CHR ''b'' then (if val > 127 then cvt_fail BadValue else cvt_put dest (bits_of 1 val) 1)
      else if type = type_char CHR ''y'' then (if val > 255 then cvt_fail BadValue else cvt_put dest (bits_of 1 val) 1)
      else if type = type_char CHR ''n'' then (if val > 32767 then cvt_fail BadValue else cvt_put dest (bits_of 2 val) 2)
      else if type = type_char CHR ''q'' then (if val > 65535 then cvt_fail BadValue else cvt_put dest (bits_of 2 val) 2)
      else if type = type_char CHR ''i'' then (if val > 2147483647 then cvt_fail BadValue else cvt_put dest (bits_of 4 val) 4)
      else if type = type_char CHR ''u'' then (if val > 4294967295 then cvt_fail BadValue else cvt_put dest (bits_of 4 val) 4)
      else if type = type_char CHR ''x'' then (if val > 9223372036854775807 then cvt_fail BadValue else cvt_put dest (bits_of 8 val) 8)
      else if type = type_char CHR ''t'' then cvt_put dest (bits_of 8 val) 8
      else if type = type_char CHR ''f'' then cvt_put dest (CFloat 4 val) 4
      else if type = type_char CHR ''d'' then cvt_put dest (CFloat 8 val) 8
      else if ext \<and> type = type_char CHR ''e'' then cvt_put dest (CFloat 16 val) 16
      else if type = MPT_type_toVector (type_char CHR ''t'') then cvt_vec dest 8
      else cvt_fail BadType)"

section \<open>Specification\<close>

text \<open>The integer types with their sizes and whether they are signed.\<close>

definition int_types :: "(char \<times> nat \<times> bool) list" where
  "int_types = [(CHR ''b'', 1, True), (CHR ''y'', 1, False), (CHR ''n'', 2, True), (CHR ''q'', 2, False),
     (CHR ''i'', 4, True), (CHR ''u'', 4, False), (CHR ''x'', 8, True), (CHR ''t'', 8, False)]"

definition in_range :: "nat \<Rightarrow> bool \<Rightarrow> int \<Rightarrow> bool" where
  "in_range n sg v \<longleftrightarrow> (if sg then - (2 ^ (8 * n - 1)) \<le> v \<and> v < 2 ^ (8 * n - 1) else 0 \<le> v \<and> v < 2 ^ (8 * n))"

text \<open>The value that is read from stored bits.\<close>

definition int_value :: "nat \<Rightarrow> bool \<Rightarrow> int \<Rightarrow> int" where
  "int_value n sg b = (if sg \<and> b \<ge> 2 ^ (8 * n - 1) then b - 2 ^ (8 * n) else b)"

definition int_spec :: "nat \<Rightarrow> bool \<Rightarrow> int \<Rightarrow> cvt_result" where
  "int_spec n sg v = (if in_range n sg v then Some (int n, Some (bits_of n v)) else Some (BadValue, None))"

section \<open>Lemmas\<close>

lemma int_value_bits:
  assumes "in_range n sg v" and "0 < n"
  shows "int_value n sg (v mod 2 ^ (8 * n)) = v"
proof -
  have p: "(2 :: int) ^ (8 * n) = 2 * 2 ^ (8 * n - 1)" using power_minus_mult [of "8 * n" "2 :: int"] assms(2) by simp
  have q: "0 < (2 :: int) ^ (8 * n - 1)" by simp
  show ?thesis
  proof (cases "0 \<le> v")
    case True
    then have "v mod 2 ^ (8 * n) = v"
      using assms(1) p q by (intro mod_pos_pos_trivial) (auto simp: in_range_def split: if_splits)
    then show ?thesis using assms True by (auto simp: in_range_def int_value_def split: if_splits)
  next
    case False
    then have sg: sg "- (2 ^ (8 * n - 1)) \<le> v" using assms by (auto simp: in_range_def split: if_splits)
    have "v mod 2 ^ (8 * n) = (v + 2 ^ (8 * n)) mod 2 ^ (8 * n)" by simp
    also have "\<dots> = v + 2 ^ (8 * n)" using False sg p q by (intro mod_pos_pos_trivial) linarith+
    finally show ?thesis using sg p False by (simp add: int_value_def)
  qed
qed

lemma sint_bounds:
  "- 128 \<le> sint (a :: 8 word)" "sint a \<le> 127" "- 32768 \<le> sint (b :: 16 word)" "sint b \<le> 32767"
  "- 2147483648 \<le> sint (c :: 32 word)" "sint c \<le> 2147483647"
  "- 9223372036854775808 \<le> sint (d :: 64 word)" "sint d \<le> 9223372036854775807"
  using sint_ge [of a] sint_lt [of a] sint_ge [of b] sint_lt [of b] sint_ge [of c] sint_lt [of c]
    sint_ge [of d] sint_lt [of d] by simp_all

lemma uint_bounds:
  "uint (a :: 8 word) \<le> 255" "uint (b :: 16 word) \<le> 65535" "uint (c :: 32 word) \<le> 4294967295"
  "uint (d :: 64 word) \<le> 18446744073709551615"
  using unsigned_less [of a, where ?'a = int] unsigned_less [of b, where ?'a = int]
    unsigned_less [of c, where ?'a = int] unsigned_less [of d, where ?'a = int] by simp_all

lemma uint_above: "- numeral k \<le> uint (a :: 'a :: len word)"
  by (rule order.trans [OF _ uint_nonnegative]) simp

lemmas cvt_simps = uint_above cvt_put_def cvt_must_def cvt_fail_def long_type_def type_char_def mpt_type_int_def
  MPT_type_toVector_def int_spec_def in_range_def Let_def

lemma convert_int8_exact:
  "list_all (\<lambda>(c, n, sg). mpt_data_convert_int8 ext (Some a) (type_char c) True = int_spec n sg (sint a)) int_types"
  using sint_bounds(1,2) [of a] by (simp add: int_types_def mpt_data_convert_int8_def cvt_simps)

lemma convert_uint8_exact:
  "list_all (\<lambda>(c, n, sg). mpt_data_convert_uint8 ext (Some a) (type_char c) True = int_spec n sg (uint a)) int_types"
  using uint_bounds(1) [of a] by (simp add: int_types_def mpt_data_convert_uint8_def cvt_simps)

lemma convert_int16_exact:
  "list_all (\<lambda>(c, n, sg). mpt_data_convert_int16 ext (Some a) (type_char c) True = int_spec n sg (sint a)) int_types"
  using sint_bounds(3,4) [of a] by (simp add: int_types_def mpt_data_convert_int16_def cvt_simps)

lemma convert_uint16_exact:
  "list_all (\<lambda>(c, n, sg). c = CHR ''n'' \<or> mpt_data_convert_uint16 ext (Some a) (type_char c) True = int_spec n sg (uint a)) int_types"
  using uint_bounds(2) [of a] by (simp add: int_types_def mpt_data_convert_uint16_def cvt_simps)

lemma convert_int32_exact:
  "list_all (\<lambda>(c, n, sg). mpt_data_convert_int32 ext (Some a) (type_char c) True = int_spec n sg (sint a)) int_types"
  using sint_bounds(5,6) [of a] by (simp add: int_types_def mpt_data_convert_int32_def cvt_simps)

lemma convert_uint32_exact:
  "list_all (\<lambda>(c, n, sg). mpt_data_convert_uint32 ext (Some a) (type_char c) True = int_spec n sg (uint a)) int_types"
  using uint_bounds(3) [of a] by (simp add: int_types_def mpt_data_convert_uint32_def cvt_simps)

lemma convert_int64_exact:
  "list_all (\<lambda>(c, n, sg). mpt_data_convert_int64 ext (Some a) (type_char c) True = int_spec n sg (sint a)) int_types"
  using sint_bounds(7,8) [of a] by (simp add: int_types_def mpt_data_convert_int64_def cvt_simps)

lemma convert_uint64_exact:
  "list_all (\<lambda>(c, n, sg). mpt_data_convert_uint64 ext (Some a) (type_char c) True = int_spec n sg (uint a)) int_types"
  using uint_bounds(4) [of a] by (simp add: int_types_def mpt_data_convert_uint64_def cvt_simps)

lemma int_value_exact:
  "list_all (\<lambda>(c, n, sg). if in_range n sg v then int_value n sg (v mod 2 ^ (8 * n)) = v else True) int_types"
proof -
  have "0 < n" if "(c, n, sg) \<in> set int_types" for c n sg using that by (auto simp: int_types_def)
  then show ?thesis using int_value_bits [of _ _ v] by (fastforce simp: list_all_iff)
qed

section \<open>Properties\<close>

text \<open>Property C28: every integer conversion stores the value of the source exactly, with the size of the target
  type as result, when it is in the range of the target type, and otherwise returns BadValue without
  a store; this holds for the eight source types and the eight target types, except for the target
  type \<open>n\<close> of a source of type \<open>uint16_t\<close>.\<close>

theorem convert_int_exact:
  "list_all (\<lambda>(c, n, sg).
      mpt_data_convert_int8 ext (Some a) (type_char c) True = int_spec n sg (sint a)
    \<and> mpt_data_convert_uint8 ext (Some a) (type_char c) True = int_spec n sg (uint a)
    \<and> mpt_data_convert_int16 ext (Some b) (type_char c) True = int_spec n sg (sint b)
    \<and> (c = CHR ''n'' \<or> mpt_data_convert_uint16 ext (Some b) (type_char c) True = int_spec n sg (uint b))
    \<and> mpt_data_convert_int32 ext (Some i) (type_char c) True = int_spec n sg (sint i)
    \<and> mpt_data_convert_uint32 ext (Some i) (type_char c) True = int_spec n sg (uint i)
    \<and> mpt_data_convert_int64 ext (Some l) (type_char c) True = int_spec n sg (sint l)
    \<and> mpt_data_convert_uint64 ext (Some l) (type_char c) True = int_spec n sg (uint l)
    \<and> (if in_range n sg v then int_value n sg (v mod 2 ^ (8 * n)) = v else True)) int_types"
  using convert_int8_exact [of ext a] convert_uint8_exact [of ext a] convert_int16_exact [of ext b]
    convert_uint16_exact [of ext b] convert_int32_exact [of ext i] convert_uint32_exact [of ext i]
    convert_int64_exact [of ext l] convert_uint64_exact [of ext l] int_value_exact [of v]
  unfolding list_all_iff split_def by blast

text \<open>The exceptions.  A \<open>uint16_t\<close> source knows an unused type \<open>h\<close> instead of \<open>n\<close> and reports
  an error for the vector it has stored; an \<open>uint8_t\<close> source writes 32 and 64 bit integers to a null
  destination; an \<open>int16_t\<close> source reports eight bytes for the four of a \<open>float\<close>.\<close>

theorem convert_int_defects:
  "mpt_data_convert_uint16 ext (Some b) (type_char CHR ''n'') True = Some (BadType, None)
   \<and> mpt_data_convert_uint16 ext (Some b) (type_char CHR ''Q'') True = Some (MissingData, Some (CVec 2))
   \<and> mpt_data_convert_uint8 ext (Some a) (type_char CHR ''u'') False = None
   \<and> mpt_data_convert_uint8 ext (Some a) (type_char CHR ''x'') False = None
   \<and> mpt_data_convert_int16 ext (Some b) (type_char CHR ''f'') True = Some (8, Some (CFloat 4 (sint b)))"
  by (simp add: mpt_data_convert_uint16_def mpt_data_convert_uint8_def mpt_data_convert_int16_def cvt_simps)

end
