(* ===== verification/NodeTraverse.thy ===== *)
theory NodeTraverse
  imports Node
begin

text \<open>
  Traversal of trees: \<open>mptcore/node/gnode_traverse.c\<close>.

  The function that is called for the nodes is a parameter: it takes the node, the data of the caller
  and the depth, and returns its result with the changed data; it does not change links.  The
  recursion of a traversal on the nodes of a list is written as one loop over the list, with the call
  for a single node in its body.  A result is the node at which the traversal stopped (or null) and
  the data; \<open>None\<close> is an invalid access or a traversal without an end.
\<close>

section \<open>Operations\<close>

unbundle bit_operations_syntax

type_synonym 'd handler = "ptr \<Rightarrow> 'd \<Rightarrow> nat \<Rightarrow> int \<times> 'd"

abbreviation TraverseLeafs :: "32 word" where "TraverseLeafs \<equiv> 1"
abbreviation TraverseNonLeafs :: "32 word" where "TraverseNonLeafs \<equiv> 2"

definition MPT_traverse_curr :: "bool \<Rightarrow> 32 word \<Rightarrow> bool" where
  "MPT_traverse_curr inner fl \<longleftrightarrow> (if inner then fl AND TraverseNonLeafs \<noteq> 0 else fl AND TraverseLeafs \<noteq> 0)"

text \<open>The call of the function for the current node.\<close>

definition visit :: "32 word \<Rightarrow> 'd handler \<Rightarrow> ptr \<Rightarrow> bool \<Rightarrow> nat \<Rightarrow> 'd \<Rightarrow> ptr \<times> 'd" where
  "visit fl f p inner depth d =
     (if MPT_traverse_curr inner fl then (let (r, d) = f p d depth in (if r \<noteq> 0 then p else 0, d)) else (0, d))"

partial_function (option) in_walk ::
  "heap \<Rightarrow> 32 word \<Rightarrow> 'd handler \<Rightarrow> bool \<Rightarrow> ptr \<Rightarrow> nat \<Rightarrow> 'd \<Rightarrow> (ptr \<times> 'd) option" where
  "in_walk h fl f one p depth d =
     (if p = 0 then Some (0, d)
      else do {
        n \<leftarrow> load h p;
        (r, d, child) \<leftarrow> (if nchildren n \<noteq> 0 then do {
            (r, d) \<leftarrow> in_walk h fl f True (nchildren n) (depth + 1) d;
            c \<leftarrow> load h (nchildren n);
            Some (r, d, nnext c) } else Some (0, d, 0));
        if r \<noteq> 0 then Some (r, d)
        else let (r, d) = visit fl f p (nchildren n \<noteq> 0) depth d in
        if r \<noteq> 0 then Some (r, d)
        else do {
          (r, d) \<leftarrow> in_walk h fl f False child (depth + 1) d;
          if r \<noteq> 0 then Some (r, d)
          else if one then Some (0, d) else in_walk h fl f False (nnext n) depth d } })"

definition mpt_gnode_traverse_in :: "heap \<Rightarrow> 32 word \<Rightarrow> 'd handler \<Rightarrow> ptr \<Rightarrow> nat \<Rightarrow> 'd \<Rightarrow> (ptr \<times> 'd) option" where
  "mpt_gnode_traverse_in h fl f p depth d = (if p = 0 then None else in_walk h fl f True p depth d)"

partial_function (option) post_walk ::
  "heap \<Rightarrow> 32 word \<Rightarrow> 'd handler \<Rightarrow> ptr \<Rightarrow> nat \<Rightarrow> 'd \<Rightarrow> (ptr \<times> 'd) option" where
  "post_walk h fl f p depth d =
     (if p = 0 then Some (0, d)
      else do {
        n \<leftarrow> load h p;
        (r, d) \<leftarrow> post_walk h fl f (nchildren n) (depth + 1) d;
        if r \<noteq> 0 then Some (r, d)
        else let (r, d) = visit fl f p (nchildren n \<noteq> 0) depth d in
        if r \<noteq> 0 then Some (r, d)
        else post_walk h fl f (nnext n) depth d })"

definition mpt_gnode_traverse_post :: "heap \<Rightarrow> 32 word \<Rightarrow> 'd handler \<Rightarrow> ptr \<Rightarrow> nat \<Rightarrow> 'd \<Rightarrow> (ptr \<times> 'd) option" where
  "mpt_gnode_traverse_post h fl f p depth d = do {
     n \<leftarrow> load h p;
     (r, d) \<leftarrow> post_walk h fl f (nchildren n) (depth + 1) d;
     Some (if r \<noteq> 0 then (r, d) else visit fl f p (nchildren n \<noteq> 0) depth d) }"

partial_function (option) pre_walk ::
  "heap \<Rightarrow> 32 word \<Rightarrow> 'd handler \<Rightarrow> ptr \<Rightarrow> nat \<Rightarrow> 'd \<Rightarrow> (ptr \<times> 'd) option" where
  "pre_walk h fl f p depth d =
     (if p = 0 then Some (0, d)
      else do {
        n \<leftarrow> load h p;
        let (r, d) = visit fl f p (nchildren n \<noteq> 0) depth d in
        if r \<noteq> 0 then Some (r, d)
        else do {
          (r, d) \<leftarrow> pre_walk h fl f (nchildren n) (depth + 1) d;
          if r \<noteq> 0 then Some (r, d)
          else pre_walk h fl f (nnext n) depth d } })"

definition mpt_gnode_traverse_pre :: "heap \<Rightarrow> 32 word \<Rightarrow> 'd handler \<Rightarrow> ptr \<Rightarrow> nat \<Rightarrow> 'd \<Rightarrow> (ptr \<times> 'd) option" where
  "mpt_gnode_traverse_pre h fl f p depth d = do {
     n \<leftarrow> load h p;
     let (r, d) = visit fl f p (nchildren n \<noteq> 0) depth d in
     if r \<noteq> 0 then Some (r, d) else pre_walk h fl f (nchildren n) (depth + 1) d }"

text \<open>The nodes of one level, and the levels.\<close>

partial_function (option) level_walk ::
  "heap \<Rightarrow> 32 word \<Rightarrow> 'd handler \<Rightarrow> nat \<Rightarrow> ptr \<Rightarrow> nat \<Rightarrow> 'd \<Rightarrow> (ptr \<times> 'd) option" where
  "level_walk h fl f up p depth d =
     (if p = 0 then Some (0, d)
      else do {
        n \<leftarrow> load h p;
        let (r, d) = visit fl f p (nchildren n \<noteq> 0) depth d in
        if r \<noteq> 0 then Some (r, d)
        else do {
          q \<leftarrow> (if nnext n = 0 then mpt_gnode_samelevel h up p else Some (nnext n));
          level_walk h fl f up q depth d } })"

partial_function (option) levels_walk ::
  "heap \<Rightarrow> 32 word \<Rightarrow> 'd handler \<Rightarrow> nat \<Rightarrow> ptr \<Rightarrow> nat \<Rightarrow> 'd \<Rightarrow> (ptr \<times> 'd) option" where
  "levels_walk h fl f up p depth d =
     (if p = 0 then Some (0, d)
      else do {
        (r, d) \<leftarrow> level_walk h fl f up p depth d;
        if r \<noteq> 0 then Some (r, d)
        else do { q \<leftarrow> mpt_gnode_sublevel h up p; levels_walk h fl f (up + 1) q (depth + 1) d } })"

definition mpt_gnode_traverse_level :: "heap \<Rightarrow> 32 word \<Rightarrow> 'd handler \<Rightarrow> ptr \<Rightarrow> nat \<Rightarrow> 'd \<Rightarrow> (ptr \<times> 'd) option" where
  "mpt_gnode_traverse_level h fl f p depth d = levels_walk h fl f 0 p depth d"

text \<open>The loop over the list of the start node with one of the three functions for a single node.\<close>

partial_function (option) list_walk ::
  "(ptr \<Rightarrow> 'd \<Rightarrow> (ptr \<times> 'd) option) \<Rightarrow> heap \<Rightarrow> ptr \<Rightarrow> 'd \<Rightarrow> (ptr \<times> 'd) option" where
  "list_walk g h p d = do {
     (r, d) \<leftarrow> g p d;
     if r \<noteq> 0 then Some (r, d)
     else do { n \<leftarrow> load h p; if nnext n = 0 then Some (0, d) else list_walk g h (nnext n) d } }"

definition mpt_gnode_traverse :: "heap \<Rightarrow> ptr \<Rightarrow> 32 word \<Rightarrow> 'd handler option \<Rightarrow> 'd \<Rightarrow> (ptr \<times> 'd) option" where
  "mpt_gnode_traverse h p fl trav d =
     (case trav of None \<Rightarrow> Some (0, d)
      | Some f \<Rightarrow>
        if p = 0 then Some (0, d)
        else let ord = fl AND 0xC in
          if ord = 8 then list_walk (\<lambda>p. mpt_gnode_traverse_in h fl f p 0) h p d
          else if ord = 4 then list_walk (\<lambda>p. mpt_gnode_traverse_pre h fl f p 0) h p d
          else if ord = 0 then list_walk (\<lambda>p. mpt_gnode_traverse_post h fl f p 0) h p d
          else if ord = 0xC then mpt_gnode_traverse_level h fl f p 0 d
          else Some (0, d))"

section \<open>Orders of a list of trees\<close>

text \<open>The sequence of nodes with their depth and whether they have children.\<close>

fun pre_order :: "nat \<Rightarrow> ntree list \<Rightarrow> (ptr \<times> nat \<times> bool) list" where
  "pre_order k [] = []"
| "pre_order k (NT p cs # ts) = (p, k, cs \<noteq> []) # pre_order (k + 1) cs @ pre_order k ts"

fun post_order :: "nat \<Rightarrow> ntree list \<Rightarrow> (ptr \<times> nat \<times> bool) list" where
  "post_order k [] = []"
| "post_order k (NT p cs # ts) = post_order (k + 1) cs @ (p, k, cs \<noteq> []) # post_order k ts"

fun in_order :: "nat \<Rightarrow> ntree list \<Rightarrow> (ptr \<times> nat \<times> bool) list" where
  "in_order k [] = []"
| "in_order k (NT p [] # ts) = (p, k, False) # in_order k ts"
| "in_order k (NT p (c # cs) # ts) = in_order (k + 1) [c] @ (p, k, True) # in_order (k + 1) cs @ in_order k ts"

fun level :: "nat \<Rightarrow> ntree list \<Rightarrow> ntree list" where
  "level 0 ts = ts"
| "level (Suc k) ts = concat (map kids (level k ts))"

definition level_visits :: "nat \<Rightarrow> ntree list \<Rightarrow> (ptr \<times> nat \<times> bool) list" where
  "level_visits k ts = map (\<lambda>t. (root t, k, kids t \<noteq> [])) (level k ts)"

definition level_order :: "ntree list \<Rightarrow> (ptr \<times> nat \<times> bool) list" where
  "level_order ts = concat (map (\<lambda>k. level_visits k ts) [0..<length (addrs ts)])"

text \<open>The calls for a sequence of nodes end at the first one with a non-zero result.\<close>

fun visit_all :: "32 word \<Rightarrow> 'd handler \<Rightarrow> (ptr \<times> nat \<times> bool) list \<Rightarrow> 'd \<Rightarrow> ptr \<times> 'd" where
  "visit_all fl f [] d = (0, d)"
| "visit_all fl f ((p, k, inner) # vs) d =
     (let (r, d) = visit fl f p inner k d in if r \<noteq> 0 then (r, d) else visit_all fl f vs d)"

lemma visit_all_append:
  "visit_all fl f (xs @ ys) d =
     (let (r, d) = visit_all fl f xs d in if r \<noteq> 0 then (r, d) else visit_all fl f ys d)"
  by (induction xs arbitrary: d) (auto simp: Let_def split: prod.splits)

text \<open>Every order visits each node once.\<close>

lemma pre_order_addrs: "map fst (pre_order k ts) = addrs ts"
  by (induction k ts rule: pre_order.induct) auto

lemma post_order_mset: "mset (map fst (post_order k ts)) = mset (addrs ts)"
  by (induction k ts rule: post_order.induct) auto

lemma in_order_mset: "mset (map fst (in_order k ts)) = mset (addrs ts)"
proof (induction k ts rule: in_order.induct)
  case (3 k p c cs ts)
  obtain q ds where "c = NT q ds" by (cases c)
  with 3 show ?case by simp
qed auto

section \<open>Traversal of one node and of a list\<close>

lemma first_pos: "repr h par pv ts nx \<Longrightarrow> first ts 0 = 0 \<longleftrightarrow> ts = []"
  by (cases ts rule: addrs.cases) auto

lemma pre_walk_ok:
  "repr h par pv ts 0 \<Longrightarrow> pre_walk h fl f (first ts 0) k d = Some (visit_all fl f (pre_order k ts) d)"
proof (induction k ts arbitrary: par pv d rule: pre_order.induct)
  case (1 k)
  then show ?case by (subst pre_walk.simps) simp
next
  case (2 k p cs ts)
  from "2.prems" obtain n where n: "load h p = Some n" "p \<noteq> 0" "nnext n = first ts 0" "nchildren n = first cs 0"
    "repr h p 0 cs 0" "repr h par p ts 0" by (auto simp: load_def split: option.splits)
  have "first cs 0 \<noteq> 0 \<longleftrightarrow> cs \<noteq> []" using first_pos [OF n(5)] by simp
  with n "2.IH"(1) [OF n(5)] "2.IH"(2) [OF n(6)] show ?case
    by (subst pre_walk.simps) (auto simp: visit_all_append Let_def split: prod.splits)
qed

lemma post_walk_ok:
  "repr h par pv ts 0 \<Longrightarrow> post_walk h fl f (first ts 0) k d = Some (visit_all fl f (post_order k ts) d)"
proof (induction k ts arbitrary: par pv d rule: post_order.induct)
  case (1 k)
  then show ?case by (subst post_walk.simps) simp
next
  case (2 k p cs ts)
  from "2.prems" obtain n where n: "load h p = Some n" "p \<noteq> 0" "nnext n = first ts 0" "nchildren n = first cs 0"
    "repr h p 0 cs 0" "repr h par p ts 0" by (auto simp: load_def split: option.splits)
  have "first cs 0 \<noteq> 0 \<longleftrightarrow> cs \<noteq> []" using first_pos [OF n(5)] by simp
  with n "2.IH"(1) [OF n(5)] "2.IH"(2) [OF n(6)] show ?case
    by (subst post_walk.simps) (auto simp: visit_all_append Let_def split: prod.splits)
qed

lemma in_walk_ok:
  "repr h par pv ts nx \<Longrightarrow> (if one then length ts = 1 else nx = 0) \<Longrightarrow>
    in_walk h fl f one (first ts 0) k d = Some (visit_all fl f (in_order k ts) d)"
proof (induction k ts arbitrary: par pv nx one d rule: in_order.induct)
  case (1 k)
  then show ?case by (subst in_walk.simps) (auto split: if_splits)
next
  case (2 k p ts)
  from "2.prems"(1) obtain n where n: "load h p = Some n" "p \<noteq> 0" "nnext n = first ts nx" "nchildren n = 0"
    "repr h par p ts nx" by (auto simp: load_def split: option.splits)
  have z: "\<And>d. in_walk h fl f False 0 (Suc k) d = Some (0, d)" by (subst in_walk.simps) simp
  from n z "2.prems"(2) "2.IH" [of par p 0 False] show ?case
    by (subst in_walk.simps) (auto simp: Let_def split: prod.splits if_splits)
next
  case (3 k p c cs ts)
  obtain q ds where c: "c = NT q ds" by (cases c)
  from "3.prems"(1) obtain n where n: "load h p = Some n" "p \<noteq> 0" "nnext n = first ts nx" "nchildren n = q" "q \<noteq> 0"
    "repr h p 0 [c] (first cs 0)" "repr h p q cs 0" "repr h par p ts nx"
    using c by (auto simp: load_def split: option.splits)
  from n(6) c obtain m where m: "load h q = Some m" "nnext m = first cs 0" by (auto simp: load_def split: option.splits)
  have a: "\<And>d. in_walk h fl f True q (Suc k) d = Some (visit_all fl f (in_order (k + 1) [c]) d)"
    using "3.IH"(1) [OF n(6), of True] c by simp
  have b: "\<And>d. in_walk h fl f False (first cs 0) (Suc k) d = Some (visit_all fl f (in_order (k + 1) cs) d)"
    using "3.IH"(2) [OF n(7), of False] by simp
  have e: "\<And>d. \<not> one \<Longrightarrow> in_walk h fl f False (first ts 0) k d = Some (visit_all fl f (in_order k ts) d)"
    using "3.IH"(3) [OF n(8), of False] "3.prems"(2) by simp
  have "\<not> one \<Longrightarrow> nx = 0" "one \<Longrightarrow> ts = []" using "3.prems"(2) by auto
  with n m a b e show ?case
    by (subst in_walk.simps) (auto simp: visit_all_append Let_def split: prod.splits)
qed

lemma pre_single:
  "repr h par pv [t] nx \<Longrightarrow> mpt_gnode_traverse_pre h fl f (root t) k d = Some (visit_all fl f (pre_order k [t]) d)"
proof (cases t)
  case (NT p cs)
  assume "repr h par pv [t] nx"
  with NT obtain n where n: "load h p = Some n" "nchildren n = first cs 0" "repr h p 0 cs 0"
    by (auto simp: load_def split: option.splits)
  have "first cs 0 \<noteq> 0 \<longleftrightarrow> cs \<noteq> []" using first_pos [OF n(3)] by simp
  moreover have "\<And>d. pre_walk h fl f (first cs 0) (Suc k) d = Some (visit_all fl f (pre_order (Suc k) cs) d)"
    by (rule pre_walk_ok [OF n(3)])
  ultimately show ?thesis using NT n
    by (auto simp: mpt_gnode_traverse_pre_def Let_def split: prod.splits)
qed

lemma post_single:
  "repr h par pv [t] nx \<Longrightarrow> mpt_gnode_traverse_post h fl f (root t) k d = Some (visit_all fl f (post_order k [t]) d)"
proof (cases t)
  case (NT p cs)
  assume "repr h par pv [t] nx"
  with NT obtain n where n: "load h p = Some n" "nchildren n = first cs 0" "repr h p 0 cs 0"
    by (auto simp: load_def split: option.splits)
  have "first cs 0 \<noteq> 0 \<longleftrightarrow> cs \<noteq> []" using first_pos [OF n(3)] by simp
  moreover have "\<And>d. post_walk h fl f (first cs 0) (Suc k) d = Some (visit_all fl f (post_order (Suc k) cs) d)"
    by (rule post_walk_ok [OF n(3)])
  ultimately show ?thesis using NT n
    by (auto simp: mpt_gnode_traverse_post_def Let_def visit_all_append visit_def split: prod.splits)
qed

lemma in_single:
  "repr h par pv [t] nx \<Longrightarrow> mpt_gnode_traverse_in h fl f (root t) k d = Some (visit_all fl f (in_order k [t]) d)"
  using in_walk_ok [of h par pv "[t]" nx True fl f k d] by (cases t) (auto simp: mpt_gnode_traverse_in_def)

lemma list_walk_ok:
  assumes g: "\<And>t par pv nx d. repr h par pv [t] nx \<Longrightarrow> g (root t) d = Some (visit_all fl f (ord [t]) d)"
    and o: "\<And>t ts. ord (t # ts) = ord [t] @ ord ts" "ord [] = []"
  shows "repr h par pv ts 0 \<Longrightarrow> ts \<noteq> [] \<Longrightarrow> list_walk g h (first ts 0) d = Some (visit_all fl f (ord ts) d)"
proof (induction ts arbitrary: pv d)
  case (Cons t ts)
  obtain p cs where t: "t = NT p cs" by (cases t)
  from Cons.prems(1) t obtain n where n: "load h p = Some n" "nnext n = first ts 0" "repr h par p ts 0" "repr h par pv [t] (first ts 0)"
    by (auto simp: load_def split: option.splits)
  have "list_walk g h (first (t # ts) 0) d = (case visit_all fl f (ord [t]) d of (r, d) \<Rightarrow>
    if r \<noteq> 0 then Some (r, d) else if first ts 0 = 0 then Some (0, d) else list_walk g h (first ts 0) d)"
    using g [OF n(4)] t n by (subst list_walk.simps) (auto split: prod.splits)
  moreover have "visit_all fl f (ord (t # ts)) d = (case visit_all fl f (ord [t]) d of (r, d) \<Rightarrow>
    if r \<noteq> 0 then (r, d) else visit_all fl f (ord ts) d)"
    by (subst o(1)) (auto simp: visit_all_append Let_def split: prod.splits)
  ultimately show ?case using first_pos [OF n(3)] Cons.IH [OF n(3)] o(2)
    by (cases "ts = []") (auto split: prod.splits)
qed simp

lemma orders_append: "pre_order k (t # ts) = pre_order k [t] @ pre_order k ts"
  "post_order k (t # ts) = post_order k [t] @ post_order k ts"
  "in_order k (t # ts) = in_order k [t] @ in_order k ts"
proof -
  obtain p cs where "t = NT p cs" by (cases t)
  then show "pre_order k (t # ts) = pre_order k [t] @ pre_order k ts"
    "post_order k (t # ts) = post_order k [t] @ post_order k ts"
    "in_order k (t # ts) = in_order k [t] @ in_order k ts" by (auto, cases cs, auto)
qed

section \<open>Traversal of levels\<close>

lemma concat_split:
  "concat (map kids L) = xs @ t # ys \<Longrightarrow>
    \<exists>L1 y L2 as bs. L = L1 @ y # L2 \<and> kids y = as @ t # bs \<and> ys = bs @ concat (map kids L2)"
proof (induction L arbitrary: xs)
  case (Cons l L)
  then have "kids l @ concat (map kids L) = xs @ t # ys" by simp
  then consider us where "kids l = xs @ t # us" "us @ concat (map kids L) = ys"
    | us where "concat (map kids L) = us @ t # ys"
    by (auto simp: append_eq_append_conv2 append_eq_Cons_conv Cons_eq_append_conv)
  then show ?case
  proof cases
    case 1
    then have "l # L = [] @ l # L \<and> kids l = xs @ t # us \<and> ys = us @ concat (map kids L)" by simp
    then show ?thesis by blast
  next
    case 2
    from Cons.IH [OF 2] obtain L1 y L2 as bs where
      "L = L1 @ y # L2" "kids y = as @ t # bs" "ys = bs @ concat (map kids L2)" by blast
    then have "l # L = (l # L1) @ y # L2 \<and> kids y = as @ t # bs \<and> ys = bs @ concat (map kids L2)" by simp
    then show ?thesis by blast
  qed
qed simp

text \<open>Every tree of a level is represented in the heap.\<close>

definition tree_ok :: "heap \<Rightarrow> ntree \<Rightarrow> bool" where
  "tree_ok h t \<longleftrightarrow> root t \<noteq> 0 \<and> (\<exists>n. load h (root t) = Some n \<and> nchildren n = first (kids t) 0) \<and>
     repr h (root t) 0 (kids t) 0"

lemma repr_tree_ok: "repr h par pv ts nx \<Longrightarrow> t \<in> set ts \<Longrightarrow> tree_ok h t"
proof (induction ts arbitrary: pv)
  case (Cons a ts)
  then show ?case by (cases a) (auto simp: tree_ok_def load_def split: option.splits)
qed simp

lemma level_ok: "repr h par pv ts nx \<Longrightarrow> t \<in> set (level k ts) \<Longrightarrow> tree_ok h t"
proof (induction k arbitrary: t)
  case 0
  then show ?case by (simp add: repr_tree_ok)
next
  case (Suc k)
  then obtain u where "u \<in> set (level k ts)" "t \<in> set (kids u)" by auto
  with Suc.IH [of u] Suc.prems(1) show ?case by (auto simp: tree_ok_def [of h u] intro: repr_tree_ok)
qed

lemma sibling_links:
  "repr h par pv (as @ t # bs) nx \<Longrightarrow> \<exists>n. load h (root t) = Some n \<and> nnext n = first bs nx \<and> nparent n = par"
  by (cases t) (auto simp: load_def split: option.splits)

lemma samelevel_ok:
  assumes r: "repr h par pv ts 0"
  shows "level k ts = xs @ t # ys \<Longrightarrow> mpt_gnode_samelevel h k (root t) = Some (first ys 0)"
proof (induction k arbitrary: xs t ys)
  case 0
  then have "repr h par pv (xs @ t # ys) 0" using r by simp
  from sibling_links [OF this] obtain n where "load h (root t) = Some n" "nnext n = first ys 0" by auto
  moreover from this have "root t \<noteq> 0" by (auto simp: load_def split: if_splits)
  ultimately show ?case by simp
next
  case (Suc k)
  then have "concat (map kids (level k ts)) = xs @ t # ys" by simp
  from concat_split [OF this] obtain L1 y L2 as bs where
    L: "level k ts = L1 @ y # L2" "kids y = as @ t # bs" "ys = bs @ concat (map kids L2)" by blast
  have lo: "\<And>u. u \<in> set (level k ts) \<Longrightarrow> tree_ok h u" using level_ok [OF r] .
  have loop: "level_loop (mpt_gnode_samelevel h k) h (root u) = Some (first (concat (map kids zs)) 0)"
    if "level k ts = us @ u # zs" for us u zs using that
  proof (induction zs arbitrary: us u)
    case Nil
    with Suc.IH [of us u "[]"] show ?case by (subst level_loop.simps) simp
  next
    case (Cons z zs)
    have zr: "mpt_gnode_samelevel h k (root u) = Some (root z)" using Suc.IH [OF Cons.prems] by (simp add: first_def)
    from lo [of z] Cons.prems obtain n where
      n: "root z \<noteq> 0" "load h (root z) = Some n" "nchildren n = first (kids z) 0" "repr h (root z) 0 (kids z) 0" by (auto simp: tree_ok_def)
    from Cons.IH [of "us @ [u]" z] Cons.prems have IH: "level_loop (mpt_gnode_samelevel h k) h (root z) = Some (first (concat (map kids zs)) 0)" by simp
    have "first (kids z) (first (concat (map kids zs)) 0) = (if kids z = [] then first (concat (map kids zs)) 0 else first (kids z) 0)"
      by (simp add: first_def split: list.split)
    with zr n IH first_pos [OF n(4)] show ?case by (subst level_loop.simps) auto
  qed
  have "tree_ok h y" using lo L by simp
  then have "repr h (root y) 0 (as @ t # bs) 0" using L(2) by (simp add: tree_ok_def)
  from sibling_links [OF this] this obtain n where
    n: "load h (root t) = Some n" "nnext n = first bs 0" "nparent n = root y" "repr h (root y) (root t) bs 0"
    by (cases t) auto
  have nz: "root t \<noteq> 0" using n(1) by (auto simp: load_def split: if_splits)
  show ?case
  proof (cases "bs = []")
    case True
    with n nz loop [OF L(1)] L(3) show ?thesis by simp
  next
    case False
    then have "first ys 0 = first bs 0" using L(3) by (simp add: first_def split: list.split)
    with n nz False first_pos [OF n(4)] show ?thesis by simp
  qed
qed

lemma level_split_ok:
  assumes "repr h par pv ts 0" "level k ts = xs @ t # ys"
  shows "root t \<noteq> 0" "\<exists>n. load h (root t) = Some n \<and> nchildren n = first (kids t) 0"
    "first (kids t) 0 = 0 \<longleftrightarrow> kids t = []" "mpt_gnode_samelevel h k (root t) = Some (first ys 0)"
proof -
  have "tree_ok h t" using level_ok [OF assms(1), of t k] assms(2) by simp
  then show "root t \<noteq> 0" "\<exists>n. load h (root t) = Some n \<and> nchildren n = first (kids t) 0"
    "first (kids t) 0 = 0 \<longleftrightarrow> kids t = []" using first_pos [of h "root t" 0 "kids t" 0] by (auto simp: tree_ok_def)
  show "mpt_gnode_samelevel h k (root t) = Some (first ys 0)" by (rule samelevel_ok [OF assms])
qed

lemma samelevel_next: "load h p = Some n \<Longrightarrow> nnext n \<noteq> 0 \<Longrightarrow> mpt_gnode_samelevel h k p = Some (nnext n)"
  by (cases k) (auto simp: load_def split: if_splits)

lemma level_walk_ok:
  assumes r: "repr h par pv ts 0"
  shows "level k ts = xs @ ys \<Longrightarrow> level_walk h fl f k (first ys 0) k d =
    Some (visit_all fl f (map (\<lambda>t. (root t, k, kids t \<noteq> [])) ys) d)"
proof (induction ys arbitrary: xs d)
  case Nil
  then show ?case by (subst level_walk.simps) simp
next
  case (Cons t ys)
  note L = level_split_ok [OF r Cons.prems]
  from L(2) obtain n where n: "load h (root t) = Some n" "nchildren n = first (kids t) 0" by blast
  have nx: "(if nnext n = 0 then mpt_gnode_samelevel h k (root t) else Some (nnext n)) = Some (first ys 0)"
    using L(4) samelevel_next [OF n(1), of k] by auto
  have "first (t # ys) 0 = root t" by (simp add: first_def)
  moreover have "\<And>d. level_walk h fl f k (first ys 0) k d = Some (visit_all fl f (map (\<lambda>t. (root t, k, kids t \<noteq> [])) ys) d)"
    using Cons.IH [of "xs @ [t]"] Cons.prems by simp
  ultimately show ?case using L(1,3) n nx
    by (subst level_walk.simps) (auto simp: Let_def split: prod.splits)
qed

lemma sublevel_ok:
  assumes r: "repr h par pv ts 0"
  shows "level k ts = xs @ ys \<Longrightarrow> mpt_gnode_sublevel h k (first ys 0) = Some (first (concat (map kids ys)) 0)"
proof (induction ys arbitrary: xs)
  case Nil
  then show ?case by (subst mpt_gnode_sublevel.simps) simp
next
  case (Cons t ys)
  note L = level_split_ok [OF r Cons.prems]
  from L(2) obtain n where n: "load h (root t) = Some n" "nchildren n = first (kids t) 0" by blast
  have "first (t # ys) 0 = root t" by (simp add: first_def)
  moreover have "first (kids t) (first (concat (map kids ys)) 0) =
      (if kids t = [] then first (concat (map kids ys)) 0 else first (kids t) 0)"
    by (simp add: first_def split: list.split)
  ultimately show ?case using L n Cons.IH [of "xs @ [t]"] Cons.prems
    by (subst mpt_gnode_sublevel.simps) auto
qed

text \<open>There are at most as many levels as nodes.\<close>

fun height :: "ntree list \<Rightarrow> nat" where
  "height [] = 0"
| "height (NT p cs # ts) = max (Suc (height cs)) (height ts)"

lemma height_bound: "height ts \<le> length (addrs ts)"
  by (induction ts rule: height.induct) auto

lemma level_append: "level k (xs @ ys) = level k xs @ level k ys"
  by (induction k) auto

lemma level_kids: "level (Suc k) ts = level k (concat (map kids ts))"
  by (induction k) auto

lemma level_empty: "height ts \<le> k \<Longrightarrow> level k ts = []"
proof (induction ts arbitrary: k rule: height.induct)
  case (1 k)
  show ?case by (induction k) auto
next
  case (2 p cs ts)
  then obtain j where k: "k = Suc j" by (cases k) auto
  have "level (Suc j) [NT p cs] = level j cs" by (subst level_kids) simp
  moreover have "level j cs = []" "level (Suc j) ts = []" using 2 k by (simp_all del: level.simps)
  moreover have "level (Suc j) (NT p cs # ts) = level (Suc j) [NT p cs] @ level (Suc j) ts"
    using level_append [of "Suc j" "[NT p cs]" ts] by simp
  ultimately show ?case using k by simp
qed

lemma levels_walk_ok:
  assumes r: "repr h par pv ts 0"
  shows "k \<le> n \<Longrightarrow> level n ts = [] \<Longrightarrow> levels_walk h fl f k (first (level k ts) 0) k d =
    Some (visit_all fl f (concat (map (\<lambda>k. level_visits k ts) [k..<n])) d)"
proof (induction "n - k" arbitrary: k d)
  case 0
  then show ?case by (subst levels_walk.simps) simp
next
  case (Suc j)
  have u: "[k..<n] = k # [Suc k..<n]" using Suc.hyps(2) by (simp add: upt_conv_Cons)
  have IH: "\<And>d. levels_walk h fl f (Suc k) (first (level (Suc k) ts) 0) (Suc k) d =
      Some (visit_all fl f (concat (map (\<lambda>k. level_visits k ts) [Suc k..<n])) d)"
    by (rule Suc.hyps(1)) (use Suc.hyps(2) Suc.prems in auto)
  show ?case
  proof (cases "level k ts")
    case Nil
    have "level i ts = []" if "k \<le> i" for i using that Nil by (induction i) (auto simp: le_Suc_eq)
    then have "concat (map (\<lambda>k. level_visits k ts) [k..<n]) = []" by (simp add: level_visits_def)
    then show ?thesis unfolding Nil by (subst levels_walk.simps) (simp del: concat_eq_Nil_conv)
  next
    case (Cons t ys)
    have nz: "first (level k ts) 0 \<noteq> 0" using level_split_ok(1) [OF r, of k "[]" t ys] Cons by (simp add: first_def)
    have w: "level_walk h fl f k (first (level k ts) 0) k d = Some (visit_all fl f (level_visits k ts) d)"
      unfolding level_visits_def by (rule level_walk_ok [OF r, of _ "[]"]) simp
    have s: "mpt_gnode_sublevel h k (first (level k ts) 0) = Some (first (level (Suc k) ts) 0)"
      using sublevel_ok [OF r, of k "[]" "level k ts"] by simp
    show ?thesis
    proof (cases "visit_all fl f (level_visits k ts) d")
      case (Pair x d1)
      with nz w s IH [of d1] u show ?thesis
        by (subst levels_walk.simps) (simp add: visit_all_append Let_def)
    qed
  qed
qed

section \<open>Properties\<close>

text \<open>The order that the flags select.\<close>

definition visits :: "32 word \<Rightarrow> ntree list \<Rightarrow> (ptr \<times> nat \<times> bool) list" where
  "visits fl ts = (let ord = fl AND 0xC in
     if ord = 8 then in_order 0 ts else if ord = 4 then pre_order 0 ts
     else if ord = 0 then post_order 0 ts else level_order ts)"

lemma order_cases: "(fl :: 32 word) AND 0xC = 0 \<or> fl AND 0xC = 4 \<or> fl AND 0xC = 8 \<or> fl AND 0xC = 0xC"
proof -
  define x where "x = take_bit 2 (drop_bit 2 fl)"
  have m: "(0xC :: 32 word) = push_bit 2 (mask 2)" by (simp add: mask_eq_exp_minus_1)
  have "\<And>n. 2 \<le> n \<Longrightarrow> Suc (Suc (n - 2)) = n" by simp
  then have "fl AND 0xC = push_bit 2 x"
    unfolding m x_def by (intro bit_word_eqI) (auto simp: bit_simps)
  moreover have "unat x < 4" using take_bit_nat_less_exp [of 2 "unat (drop_bit 2 fl)"]
    unfolding x_def unsigned_take_bit_eq by simp
  then have "unat x \<in> {0, 1, 2, 3}" by auto
  then have "x = word_of_nat 0 \<or> x = word_of_nat 1 \<or> x = word_of_nat 2 \<or> x = word_of_nat 3"
    by (metis insertE singletonD of_nat_unat ucast_id)
  ultimately show ?thesis by (auto simp: push_bit_eq_mult)
qed

text \<open>Property C8: a traversal of a list of trees returns and calls the function exactly for the nodes the
  flags select, in the selected order (first child before the node, node before or after its children,
  level by level) with the depth of each node, until the function returns a non-zero value; this node
  is the result.\<close>

theorem traverse_order:
  assumes "sibs h par ts"
  shows "mpt_gnode_traverse h (first ts 0) fl (Some f) d = Some (visit_all fl f (visits fl ts) d)"
proof (cases "ts = []")
  case True
  then show ?thesis by (simp add: mpt_gnode_traverse_def visits_def level_order_def Let_def)
next
  case False
  from assms have r: "repr h par 0 ts 0" by (simp add: sibs_def)
  have p: "first ts 0 \<noteq> 0" using first_pos [OF r] False by simp
  have "list_walk (\<lambda>p. mpt_gnode_traverse_in h fl f p 0) h (first ts 0) d = Some (visit_all fl f (in_order 0 ts) d)"
    by (rule list_walk_ok [OF _ _ _ r False]) (auto intro: in_single orders_append)
  moreover have "list_walk (\<lambda>p. mpt_gnode_traverse_pre h fl f p 0) h (first ts 0) d = Some (visit_all fl f (pre_order 0 ts) d)"
    by (rule list_walk_ok [OF _ _ _ r False]) (auto intro: pre_single orders_append)
  moreover have "list_walk (\<lambda>p. mpt_gnode_traverse_post h fl f p 0) h (first ts 0) d = Some (visit_all fl f (post_order 0 ts) d)"
    by (rule list_walk_ok [OF _ _ _ r False]) (auto intro: post_single orders_append)
  moreover have "levels_walk h fl f 0 (first ts 0) 0 d = Some (visit_all fl f (level_order ts) d)"
    using levels_walk_ok [OF r, of 0 "length (addrs ts)" fl f d] level_empty [OF height_bound] by (simp add: level_order_def)
  ultimately show ?thesis using p order_cases [of fl]
    by (auto simp: mpt_gnode_traverse_def mpt_gnode_traverse_level_def visits_def Let_def)
qed

theorem traverse_order_witness:
  "mpt_gnode_traverse heap0 1 0xF (Some (\<lambda>p d k. (if p = 3 then 1 else 0, d @ [(p, k)]))) [] =
    Some (3, [(1, 0), (2, 1), (3, 1)])"
proof -
  have "sibs heap0 0 [NT 1 [NT 2 [], NT 3 []]]" by (simp add: sibs_def heap0_def mk_node_def)
  from traverse_order [OF this, of "0xF" "\<lambda>p d k. (if p = 3 then 1 else 0, d @ [(p, k)])" "[]"] show ?thesis
    by (simp add: visits_def level_order_def level_visits_def numeral_3_eq_3 visit_def MPT_traverse_curr_def)
qed

end
