(* ===== verification/ParserTotal.thy ===== *)
theory ParserTotal
  imports ParserProof
begin

text \<open>
  Every parser function returns: on a path that owns its buffer, for every format, every source and every
  name restriction there is no undefined behaviour and no endless loop.

  The predicate \<open>J\<close> bounds the size of the path and the rest of the source, the flags state that there are
  collected characters and that the valid size of the context refers to them.
\<close>

unbundle bit_operations_syntax

section \<open>Steps\<close>

definition J :: "bool \<Rightarrow> bool \<Rightarrow> pstate \<Rightarrow> nat \<Rightarrow> bool" where
  "J ne va st b \<longleftrightarrow> (\<exists>es post keep. pst 46 0 (pmem st) (ppath st) es post keep \<and> (ne \<longrightarrow> post \<noteq> []) \<and>
     (va \<longrightarrow> pvalid st \<le> length post \<and> (0 < pvalid st \<longrightarrow> keep)) \<and> path_size es post + length (inp st) \<le> b)"

lemma J_E:
  assumes "J ne va st b"
  obtains es post keep where "pst 46 0 (pmem st) (ppath st) es post keep"
    "va \<longrightarrow> pvalid st \<le> length post \<and> (0 < pvalid st \<longrightarrow> keep)" "path_size es post + length (inp st) \<le> b"
    "ne \<longrightarrow> post \<noteq> []"
  using assms unfolding J_def by (elim exE conjE) (rule that)

lemma J_inp:
  assumes "J ne va st b" "length xs + k \<le> length (inp st)"
  shows "J ne va (st\<lparr>inp := xs\<rparr>) (b - k)" "k \<le> b"
proof -
  obtain es post keep where p: "pst 46 0 (pmem st) (ppath st) es post keep"
    "va \<longrightarrow> pvalid st \<le> length post \<and> (0 < pvalid st \<longrightarrow> keep)" "path_size es post + length (inp st) \<le> b"
    "ne \<longrightarrow> post \<noteq> []" using assms(1) by (rule J_E)
  have "path_size es post + length xs \<le> b - k" using p(3) assms(2) by linarith
  then show "J ne va (st\<lparr>inp := xs\<rparr>) (b - k)" unfolding J_def using p
    by (intro exI [of _ es] exI [of _ post] exI [of _ keep]) simp
  show "k \<le> b" using p(3) assms(2) by linarith
qed

text \<open>The previous operation stays, the source is consumed.\<close>

definition fr :: "pstate \<Rightarrow> pstate \<Rightarrow> bool" where
  "fr st st' \<longleftrightarrow> pprev st' = pprev st \<and> length (inp st') \<le> length (inp st)"

lemma fr_refl [simp]: "fr st st"
  by (simp add: fr_def)

lemma fr_trans: "fr st st1 \<Longrightarrow> fr st1 st2 \<Longrightarrow> fr st st2"
  by (simp add: fr_def)

lemma J_weak: "J ne va st b \<Longrightarrow> b \<le> b' \<Longrightarrow> J False False st b'"
  unfolding J_def by fastforce

lemma J_bound: "J ne va st b \<Longrightarrow> b \<le> b' \<Longrightarrow> J ne va st b'"
  unfolding J_def by fastforce

lemma J_va: "J ne va st b \<Longrightarrow> J False va st b"
  unfolding J_def by fastforce

lemma J_upd [simp]: "J ne va (st\<lparr>pcurr := d\<rparr>) b = J ne va st b" "J ne va (st\<lparr>pline := l\<rparr>) b = J ne va st b"
  "fr st (st1\<lparr>pcurr := d\<rparr>) = fr st st1" "fr (st\<lparr>pcurr := d\<rparr>) st1 = fr st st1" "fr st (st1\<lparr>pvalid := u\<rparr>) = fr st st1"
  by (simp_all add: J_def fr_def)

lemma J_zero: "J ne va st b \<Longrightarrow> J ne True (st\<lparr>pvalid := 0\<rparr>) b"
  by (auto simp: J_def)

definition BMAX :: nat where "BMAX = 2 ^ 62"

lemma J_addchar:
  assumes "J ne va st b" "always_ok mal" "b < BMAX"
  shows "\<exists>r st'. on_path (\<lambda>m p. mpt_path_addchar mal m p c) st = Some (r, st') \<and> 0 \<le> r \<and> J True va st' (b + 1) \<and>
    fr st st' \<and> inp st' = inp st \<and> pcurr st' = pcurr st"
proof -
  from assms(1) obtain es post keep where p: "pst 46 0 (pmem st) (ppath st) es post keep"
    "va \<longrightarrow> pvalid st \<le> length post \<and> (0 < pvalid st \<longrightarrow> keep)" "path_size es post + length (inp st) \<le> b"
    by (rule J_E)
  have "path_size es post + 1 < 2 ^ 63" using p(3) assms(3) by (simp add: BMAX_def)
  from addchar_pst [OF p(1) assms(2) this, of c] obtain r m' p' where
    a: "mpt_path_addchar mal (pmem st) (ppath st) c = Some (r, m', p')" "0 \<le> r"
      "pst 46 0 m' p' es (put_char post keep (word_of_int c)) keep" by blast
  let ?q = "put_char post keep (word_of_int c)"
  have q: "?q \<noteq> []" "va \<longrightarrow> pvalid st \<le> length ?q \<and> (0 < pvalid st \<longrightarrow> keep)" "path_size es ?q \<le> path_size es post + 1"
    using p(2) by (auto simp: put_char_def path_size_def)
  then have "J True va (st\<lparr>pmem := m', ppath := p'\<rparr>) (b + 1)" using a(3) p(3)
    unfolding J_def by (intro exI [of _ es] exI [of _ ?q] exI [of _ keep]) auto
  with a(1,2) show ?thesis by (simp add: on_path_def fr_def)
qed

lemma J_getchar:
  assumes "J ne True st b" "always_ok mal" "b < BMAX"
  shows "\<exists>r st'. mpt_parse_getchar mal st = Some (r, st') \<and> J (0 < r) True st' b \<and> fr st st' \<and> pcurr st' = pcurr st \<and>
    (0 \<le> r \<longrightarrow> length (inp st') < length (inp st))"
proof (cases "inp st")
  case Nil
  then show ?thesis using J_va [OF assms(1)] by (simp add: mpt_parse_getchar_def Let_def fr_def)
next
  case (Cons x xs)
  let ?st = "st\<lparr>pline := bump (pline st)\<rparr>\<lparr>inp := xs\<rparr>"
  have b: "0 < b" using J_inp(2) [OF assms(1), of xs 1] Cons by simp
  have "J ne True (st\<lparr>pline := bump (pline st)\<rparr>) b" using assms(1) by simp
  then have j: "J ne True ?st (b - 1)" by (rule J_inp) (simp add: Cons)
  show ?thesis
  proof (cases "x \<le> 0")
    case True
    then have "mpt_parse_getchar mal st = Some (x, ?st)" using Cons by (simp add: mpt_parse_getchar_def Let_def)
    moreover have "J False True ?st b" using J_va [OF J_bound [OF j, of b]] by simp
    ultimately show ?thesis using True Cons by (auto simp: fr_def)
  next
    case False
    let ?st2 = "if x = 10 then ?st\<lparr>pline := pline ?st + 1\<rparr> else ?st"
    have j2: "J ne True ?st2 (b - 1)" using j J_upd(2) [where ne = ne and va = True and st = ?st and l = "pline ?st + 1" and b = "b - 1"] by (cases "x = 10") simp_all
    have "b - 1 < BMAX" using assms(3) by simp
    from J_addchar [OF j2 assms(2) this, of x] obtain r st' where
      a: "on_path (\<lambda>m p. mpt_path_addchar mal m p x) ?st2 = Some (r, st')" "0 \<le> r" "J True True st' b" "fr ?st2 st'" "inp st' = inp ?st2"
        "pcurr st' = pcurr ?st2" using b by auto
    have "mpt_parse_getchar mal st = Some (x, st')" unfolding mpt_parse_getchar_def Let_def using Cons False a(1,2) by simp
    with a False Cons show ?thesis by (auto simp: fr_def split: if_splits)
  qed
qed

lemma J_set_valid:
  assumes "J ne va st b"
  shows "J ne True (set_valid st) b" "fr st (set_valid st)" "fr (set_valid st) st1 = fr st st1" "inp (set_valid st) = inp st"
    "pcurr (set_valid st) = pcurr st"
proof -
  from assms obtain es post keep where p: "pst 46 0 (pmem st) (ppath st) es post keep" "ne \<longrightarrow> post \<noteq> []"
    "path_size es post + length (inp st) \<le> b" unfolding J_def by blast
  from valid_pst [OF p(1)] obtain p' where v: "apath_valid (pmem st) (ppath st) = (int (length post), p')"
    "pst 46 0 (pmem st) p' es post (keep \<or> post \<noteq> [])" by blast
  have "nat (int (length post) mod 2 ^ 16) = length post mod 2 ^ 16" by (simp add: nat_mod_distrib)
  then have e: "set_valid st = st\<lparr>ppath := p', pvalid := length post mod 2 ^ 16\<rparr>" using v(1) by (simp add: set_valid_def)
  have "length post mod 2 ^ 16 \<le> length post" by simp
  then show "J ne True (set_valid st) b" unfolding e J_def using v(2) p(2,3)
    by (intro exI [of _ es] exI [of _ post] exI [of _ "keep \<or> post \<noteq> []"]) auto
  show "fr st (set_valid st)" "fr (set_valid st) st1 = fr st st1" "inp (set_valid st) = inp st" "pcurr (set_valid st) = pcurr st"
    unfolding e by (simp_all add: fr_def)
qed

lemma J_delchar:
  assumes "J ne va st b"
  shows "\<exists>r st'. on_path (mpt_path_delchar mal) st = Some (r, st') \<and> J False False st' (if ne then b - 1 else b) \<and> (ne \<longrightarrow> 0 < b) \<and>
    fr st st' \<and> inp st' = inp st \<and> pcurr st' = pcurr st"
proof -
  from assms obtain es post keep where p: "pst 46 0 (pmem st) (ppath st) es post keep" "ne \<longrightarrow> post \<noteq> []"
    "path_size es post + length (inp st) \<le> b" unfolding J_def by blast
  show ?thesis
  proof (cases post rule: rev_cases)
    case Nil
    then have "mpt_path_delchar mal (pmem st) (ppath st) = Some (MissingData, pmem st, ppath st)" using delchar_none p(1) by simp
    then show ?thesis using assms p(2) Nil by (auto simp: on_path_def fr_def J_def)
  next
    case (snoc q x)
    from delchar_pst [of 46 0 "pmem st" "ppath st" es q x keep mal] p(1) snoc obtain m' where
      d: "mpt_path_delchar mal (pmem st) (ppath st) = Some (sint x, m', ppath st)" "pst 46 0 m' (ppath st) es q keep" by auto
    have "path_size es q + 1 = path_size es post" using snoc by (simp add: path_size_def)
    then have "path_size es q + length (inp st) \<le> b - 1" "0 < b" using p(3) by simp_all
    then have "J False False (st\<lparr>pmem := m'\<rparr>) (if ne then b - 1 else b)" unfolding J_def using d(2)
      by (intro exI [of _ es] exI [of _ q] exI [of _ keep]) auto
    then show ?thesis using d(1) \<open>0 < b\<close> by (simp add: on_path_def fr_def)
  qed
qed

lemma J_invalidate:
  assumes "J ne va st b"
  shows "\<exists>r st'. on_path (mpt_path_invalidate mal) st = Some (r, st') \<and> 0 \<le> r \<and> J False False st' b \<and> fr st st' \<and>
    inp st' = inp st \<and> pcurr st' = pcurr st"
proof -
  from assms obtain es post keep where p: "pst 46 0 (pmem st) (ppath st) es post keep"
    "path_size es post + length (inp st) \<le> b" unfolding J_def by blast
  from invalidate_pst [OF p(1), of mal] obtain r m' p' where
    i: "mpt_path_invalidate mal (pmem st) (ppath st) = Some (r, m', p')" "0 \<le> r" "pst 46 0 m' p' es [] False" by blast
  have "path_size es [] + length (inp st) \<le> b" using p(2) by (simp add: path_size_def)
  then have "J False False (st\<lparr>pmem := m', ppath := p'\<rparr>) b" using i(3) unfolding J_def by auto
  with i(1,2) show ?thesis by (simp add: on_path_def fr_def)
qed

lemma J_del:
  assumes "J ne va st b" "always_ok mal" "b < BMAX"
  shows "\<exists>r st'. on_path (mpt_path_del mal) st = Some (r, st') \<and> J False False st' b \<and> fr st st' \<and>
    inp st' = inp st \<and> pcurr st' = pcurr st"
proof -
  from assms obtain es post keep where p: "pst 46 0 (pmem st) (ppath st) es post keep"
    "path_size es post + length (inp st) \<le> b" unfolding J_def by blast
  show ?thesis
  proof (cases es rule: rev_cases)
    case Nil
    then have "mpt_path_del mal (pmem st) (ppath st) = Some (MissingData, pmem st, ppath st)" using del_none p(1) by simp
    then show ?thesis using J_weak [OF assms(1)] by (simp add: on_path_def)
  next
    case (snoc fs e)
    have "path_size (fs @ [e]) post < 2 ^ 63" using p(2) assms(3) snoc by (simp add: BMAX_def)
    from del_pst [OF p(1) [unfolded snoc] assms(2) this] obtain m' p' where
      d: "mpt_path_del mal (pmem st) (ppath st) = Some (int (length e), m', p')" "pst 46 0 m' p' fs [] False" by blast
    have "path_size fs [] \<le> path_size es post" using join_length [of 0 0 fs 0 0] snoc by (simp add: path_size_def join_snoc)
    then have "J False False (st\<lparr>pmem := m', ppath := p'\<rparr>) b" using d(2) p(2) unfolding J_def by fastforce
    with d(1) show ?thesis by (simp add: on_path_def fr_def)
  qed
qed

lemma ncheck_total: "n \<le> length xs \<Longrightarrow> \<exists>k. ncheck_loop i xs n fl = Some k"
  by (induction i xs n fl rule: ncheck_loop.induct) auto

lemma J_check:
  assumes "J ne True st b" "n \<le> pvalid st"
  shows "\<exists>k. check_name fl n st = Some k"
proof -
  from assms obtain es post keep where p: "pst 46 0 (pmem st) (ppath st) es post keep" "n \<le> length post" unfolding J_def by auto
  show ?thesis
    using p(1)
  proof (cases rule: pstE)
    case null
    then show ?thesis by (simp add: check_name_def mpt_parse_ncheck_def)
  next
    case (buf a t)
    let ?c = "join 46 t es @ post"
    from buf(2) obtain b where b: "getb (pmem st) a = Some b" "bused b = length ?c" "bused b \<le> bsize b" by (rule ownedE) blast
    have l: "apath_end (ppath st) + n \<le> length (bdata b)" using b(2,3) buf(5) p(2) by (simp add: bsize_def)
    then have "n \<le> length (drop (apath_end (ppath st)) (bdata b))" by simp
    from ncheck_total [OF this] l buf b(1) show ?thesis by (simp add: check_name_def mpt_parse_ncheck_def base_bytes_def)
  qed
qed

lemma J_add:
  assumes "J ne True st b" "always_ok mal" "b < BMAX"
  shows "\<exists>r st'. on_path (\<lambda>m p. mpt_path_add mal m p (int (pvalid st))) st = Some (r, st') \<and> J False False st' (b + 1) \<and>
    fr st st' \<and> inp st' = inp st \<and> pcurr st' = pcurr st"
proof -
  from assms(1) obtain es post keep where p: "pst 46 0 (pmem st) (ppath st) es post keep" "pvalid st \<le> length post"
    "path_size es post + length (inp st) \<le> b" unfolding J_def by blast
  let ?n = "pvalid st"
  have s: "path_size es post + 1 < 2 ^ 63" "length post < 2 ^ 63" using p(3) assms(3) by (simp_all add: BMAX_def path_size_def)
  consider "abase (ppath st) = Null" | "abase (ppath st) \<noteq> Null" "46 \<in> set (take ?n post)" | "abase (ppath st) \<noteq> Null" "46 \<notin> set (take ?n post)"
    by blast
  then show ?thesis
  proof cases
    case 1
    then have "mpt_path_add mal (pmem st) (ppath st) (int ?n) = Some (MissingBuffer, pmem st, ppath st)" by (simp add: mpt_path_add_def)
    then show ?thesis using J_weak [OF assms(1), of "b + 1"] by (simp add: on_path_def)
  next
    case 2
    then have "post \<noteq> []" by auto
    with add_refused [OF p(1), of ?n mal] 2 p(2) s(2) have
      "mpt_path_add mal (pmem st) (ppath st) (int ?n) = Some (BadValue, pmem st, ppath st)" by simp
    then show ?thesis using J_weak [OF assms(1), of "b + 1"] by (simp add: on_path_def)
  next
    case 3
    have p2: "pst 46 0 (pmem st) (ppath st) es (take ?n post @ drop ?n post) keep" using p(1) by simp
    have s2: "path_size es (take ?n post @ drop ?n post) + 1 < 2 ^ 63" using s(1) by simp
    have l: "length (take ?n post) = ?n" using p(2) by simp
    from add_pst [OF p2 3 assms(2) s2] l obtain m' p' where
      a: "mpt_path_add mal (pmem st) (ppath st) (int ?n) = Some (0, m', p')" "pst 46 0 m' p' (es @ [take ?n post]) (tl (drop ?n post)) False"
      by auto
    have "path_size (es @ [take ?n post]) (tl (drop ?n post)) \<le> path_size es post + 1"
      using l p(2) join_length [of 0 0 es 0 0] by (simp add: path_size_def join_snoc)
    then have "J False False (st\<lparr>pmem := m', ppath := p'\<rparr>) (b + 1)" using a(2) p(3) unfolding J_def by fastforce
    with a(1) show ?thesis by (simp add: on_path_def fr_def)
  qed
qed

lemma endline_le: "endline_loop xs len line = (r, ys, l) \<Longrightarrow> length ys + 0 \<le> length xs"
  by (induction xs len line rule: endline_loop.induct) (auto split: if_splits)

lemma endline_fr: "fr st (snd (mpt_parse_endline st))" "J ne va st b \<Longrightarrow> J ne va (snd (mpt_parse_endline st)) b"
proof -
  obtain r ys l where e: "endline_loop (inp st) 0 (bump (pline st)) = (r, ys, l)" using prod_cases3 by metis
  have l: "length ys + 0 \<le> length (inp st)" by (rule endline_le [OF e])
  show "fr st (snd (mpt_parse_endline st))" using e l by (simp add: mpt_parse_endline_def fr_def)
  assume "J ne va st b"
  from J_inp(1) [OF this l] show "J ne va (snd (mpt_parse_endline st)) b" using e by (simp add: mpt_parse_endline_def)
qed

lemma nextvis_loop_length:
  "nextvis_loop cm xs l = (r, ys, l') \<Longrightarrow> length ys \<le> length xs \<and> (0 \<le> r \<longrightarrow> length ys + 1 \<le> length xs)"
proof (induction cm xs l arbitrary: r ys l' rule: nextvis_loop.induct)
  case (2 cm x xs line)
  let ?l = "if x = 10 then line + 1 else line"
  obtain r1 ys1 l1 where e: "endline_loop xs 0 (bump ?l) = (r1, ys1, l1)" using prod_cases3 by metis
  have l: "length ys1 \<le> length xs" using endline_le [OF e] by simp
  consider "x \<le> 0" | "\<not> x \<le> 0" "isspace x" | "\<not> x \<le> 0" "\<not> isspace x" "cm \<noteq> [] \<and> word_of_int x \<in> set cm" "r1 < 0"
    | "\<not> x \<le> 0" "\<not> isspace x" "cm \<noteq> [] \<and> word_of_int x \<in> set cm" "\<not> r1 < 0"
    | "\<not> x \<le> 0" "\<not> isspace x" "\<not> (cm \<noteq> [] \<and> word_of_int x \<in> set cm)" by blast
  then show ?case
  proof cases
    case 1
    then show ?thesis using 2(3) by auto
  next
    case 2
    then have "nextvis_loop cm xs ?l = (r, ys, l')" using "2.prems" by (simp add: Let_def)
    from "2.IH"(1) [OF 2(1) refl 2(2) this] show ?thesis by auto
  next
    case 3
    then have "r = r1" "ys = ys1" using "2.prems" e by (simp_all add: Let_def del: endline_loop.simps)
    then show ?thesis using l 3(4) by simp
  next
    case 4
    then have "nextvis_loop cm ys1 l1 = (r, ys, l')" using "2.prems" e by (simp add: Let_def)
    from "2.IH"(2) [OF 4(1) refl 4(2,3) e [symmetric] refl refl 4(4) this] l show ?thesis by auto
  next
    case 5
    then show ?thesis using "2.prems" by (simp add: Let_def del: de_Morgan_conj)
  qed
qed auto

lemma J_nextvis:
  assumes "J ne va st b" "mpt_parse_nextvis cm st = (r, st')"
  shows "J ne va st' (if 0 \<le> r then b - 1 else b)" "fr st st'" "0 \<le> r \<Longrightarrow> length (inp st') < length (inp st) \<and> 0 < b"
    "pcurr st' = pcurr st"
proof -
  obtain ys l where e: "nextvis_loop cm (inp st) (bump (pline st)) = (r, ys, l)" "st' = st\<lparr>inp := ys, pline := l\<rparr>"
    using assms(2) by (auto simp: mpt_parse_nextvis_def split: prod.splits)
  let ?k = "if 0 \<le> r then 1 else 0 :: nat"
  have l: "length ys + ?k \<le> length (inp st)" using nextvis_loop_length [OF e(1)] by simp
  from J_inp [OF assms(1) l] have "J ne va st' (b - ?k)" "?k \<le> b" unfolding e(2) by simp_all
  then show "J ne va st' (if 0 \<le> r then b - 1 else b)" by (cases "0 \<le> r") simp_all
  show "fr st st'" "pcurr st' = pcurr st" using l e(2) by (simp_all add: fr_def)
  show "length (inp st') < length (inp st) \<and> 0 < b" if "0 \<le> r" using l e(2) that \<open>?k \<le> b\<close> by simp
qed

section \<open>Loops\<close>

text \<open>The results of the parser functions: the state, and the value where the result has one.\<close>

definition R :: "pstate \<Rightarrow> nat \<Rightarrow> (int \<times> pstate) option \<Rightarrow> bool" where
  "R st b res \<longleftrightarrow> (\<exists>r st'. res = Some (r, st') \<and> fr st st' \<and> J False False st' b \<and> (r \<in> {4, 7} \<longrightarrow> J False True st' b) \<and>
     (0 < r \<longrightarrow> r \<in> {1, 2, 3, 4, 7}))"

lemma R_I: "fr st st' \<Longrightarrow> J ne va st' b \<Longrightarrow> r \<in> {4, 7} \<longrightarrow> va \<Longrightarrow> 0 < r \<longrightarrow> r \<in> {1, 2, 3, 4, 7} \<Longrightarrow> R st b (Some (r, st'))"
  unfolding R_def using J_weak [of ne va st' b b] J_va [of ne va st' b] by (cases va) auto

lemma R_fr: "R st1 b res \<Longrightarrow> fr st st1 \<Longrightarrow> R st b res"
  unfolding R_def by (blast intro: fr_trans)

lemma R_bound: "R st b res \<Longrightarrow> b \<le> b' \<Longrightarrow> R st b' res"
  unfolding R_def by (blast intro: J_bound)

lemma R_shorter: "R st b res \<Longrightarrow> length (inp st) < n \<Longrightarrow> res = Some (r, st') \<Longrightarrow> length (inp st') < n"
  by (auto simp: R_def fr_def)

lemma R_if: "(P \<Longrightarrow> R st b x) \<Longrightarrow> (\<not> P \<Longrightarrow> R st b y) \<Longrightarrow> R st b (if P then x else y)"
  by simp

lemma R_pcurr [simp]: "R (st\<lparr>pcurr := d\<rparr>) b res = R st b res"
  by (simp add: R_def)

lemma data_loop_total:
  "J ne True st b \<Longrightarrow> always_ok mal \<Longrightarrow> b < BMAX \<Longrightarrow> \<exists>r st'. data_loop mal f st match lst = Some (r, st') \<and> J False True st' b \<and> fr st st'"
proof (induction "length (inp st)" arbitrary: ne st match lst rule: less_induct)
  case less
  from J_getchar [OF less.prems] obtain c st1 where
    g: "mpt_parse_getchar mal st = Some (c, st1)" "J (0 < c) True st1 b" "fr st st1" "0 \<le> c \<longrightarrow> length (inp st1) < length (inp st)"
    by blast
  have IH: "\<exists>r st'. data_loop mal f st2 m2 l2 = Some (r, st') \<and> J False True st' b \<and> fr st st'"
    if "J ne2 True st2 b" "fr st1 st2" "0 \<le> c" for ne2 st2 m2 l2
  proof -
    have "length (inp st2) < length (inp st)" using that g(4) by (auto simp: fr_def)
    from less.hyps [OF this that(1) less.prems(2,3), of m2 l2] obtain r st' where
      "data_loop mal f st2 m2 l2 = Some (r, st')" "J False True st' b" "fr st2 st'" by blast
    then show ?thesis using fr_trans [OF fr_trans [OF g(3) that(2)]] by blast
  qed
  have stop: "\<exists>r st'. Some (x, st2) = Some (r, st') \<and> J False True st' b \<and> fr st st'" if "J (0 < c) True st2 b" "fr st1 st2" for x st2
    using J_va [OF that(1)] fr_trans [OF g(3) that(2)] by blast
  consider "c < 0" | "0 \<le> c" "match \<noteq> 0" "c = match" | "0 \<le> c" "match \<noteq> 0" "c \<noteq> match" | "0 \<le> c" "match = 0" by linarith
  then show ?case
  proof cases
    case 1
    then show ?thesis using g stop [of st1] by (subst data_loop.simps) simp
  next
    case 2
    then have "0 < c" by simp
    from J_delchar [OF g(2), of mal] this obtain r2 st2 where d: "on_path (mpt_path_delchar mal) st1 = Some (r2, st2)"
      "J False False st2 (b - 1)" "0 < b" "fr st1 st2" by auto
    show ?thesis
    proof (cases "lst = 92")
      case False
      have "\<exists>r st'. data_loop mal f (set_valid st2) 0 c = Some (r, st') \<and> J False True st' b \<and> fr st st'"
        using IH [OF J_set_valid(1) [OF J_bound [OF d(2), of b]]] fr_trans [OF d(4) J_set_valid(2) [OF d(2)]] 2 by simp
      then show ?thesis using g(1) d(1) 2 False by (subst data_loop.simps) simp
    next
      case True
      from J_delchar [OF d(2), of mal] obtain r3 st3 where d3: "on_path (mpt_path_delchar mal) st2 = Some (r3, st3)"
        "J False False st3 (b - 1)" "fr st2 st3" by auto
      have "b - 1 < BMAX" using less.prems(3) by simp
      from J_addchar [OF d3(2) less.prems(2) this, of c] obtain r4 st4 where
        a: "on_path (\<lambda>m p. mpt_path_addchar mal m p c) st3 = Some (r4, st4)" "J True False st4 b" "fr st3 st4" using d(3) by auto
      have "fr st1 (set_valid st4)" using d(4) d3(3) a(3) J_set_valid(2) [OF a(2)] by (blast intro: fr_trans)
      from IH [OF J_set_valid(1) [OF a(2)] this 2(1), of match c] show ?thesis using g(1) d(1) d3(1) a(1) 2 True
        by (subst data_loop.simps) simp
    qed
  next
    case 3
    from IH [OF J_set_valid(1) [OF g(2)] J_set_valid(2) [OF g(2)] 3(1), of match c] show ?thesis using g(1) 3
      by (subst data_loop.simps) simp
  next
    case 4
    have e: "J (0 < c) True (snd (mpt_parse_endline st1)) b" "fr st1 (snd (mpt_parse_endline st1))"
      using endline_fr(2) [OF g(2)] endline_fr(1) by blast+
    show ?thesis
      using g(1) 4 stop [OF g(2) fr_refl] stop [OF e] IH [OF g(2) fr_refl 4(1), of c c] IH [OF g(2) fr_refl 4(1), of 0 c]
        IH [OF J_set_valid(1) [OF g(2)] J_set_valid(2) [OF g(2)] 4(1), of 0 c]
      by (subst data_loop.simps) simp
  qed
qed

lemma data_total:
  assumes "J ne True st b" "always_ok mal" "b < BMAX"
  shows "\<exists>r st'. mpt_parse_data mal f st = Some (r, st') \<and> J False True st' b \<and> fr st st'"
proof -
  from data_loop_total [OF assms, of f 0 "- 1"] obtain r st' where
    "data_loop mal f st 0 (- 1) = Some (r, st')" "J False True st' b" "fr st st'" by blast
  then show ?thesis by (simp add: mpt_parse_data_def)
qed

lemma option_value_total:
  assumes "J ne True st b" "always_ok mal" "b + 1 < BMAX" "e < 0"
  shows "R st (b + 1) (option_value mal f e st)"
proof -
  from J_check [OF assms(1), of "pvalid st" "popt st"] obtain k where k: "check_name (popt st) (pvalid st) st = Some k" by blast
  from J_add [OF assms(1,2)] assms(3) obtain r1 st1 where
    a: "on_path (\<lambda>m p. mpt_path_add mal m p (int (pvalid st))) st = Some (r1, st1)" "J False False st1 (b + 1)" "fr st st1" by auto
  from J_invalidate [OF a(2), of mal] obtain r2 st2 where
    i: "on_path (mpt_path_invalidate mal) st1 = Some (r2, st2)" "J False False st2 (b + 1)" "fr st1 st2" by blast
  have "J False True (st2\<lparr>pvalid := 0\<rparr>) (b + 1)" by (rule J_zero [OF i(2)])
  from data_total [OF this assms(2,3), of f] obtain c st3 where
    d: "mpt_parse_data mal f (st2\<lparr>pvalid := 0\<rparr>) = Some (c, st3)" "J False True st3 (b + 1)" "fr (st2\<lparr>pvalid := 0\<rparr>) st3" by blast
  have "fr st st3" using a(3) i(3) d(3) by (auto simp: fr_def)
  show ?thesis
  proof (cases "k < 0 \<or> r1 < 0")
    case True
    then show ?thesis using k a assms(1,4) R_I [OF fr_refl assms(1), of BadType] R_I [OF a(3,2), of e]
      by (auto simp: option_value_def intro: R_bound)
  next
    case False
    then show ?thesis using k a(1) i(1) d(1) R_I [OF \<open>fr st st3\<close> d(2)] by (simp add: option_value_def)
  qed
qed

lemma option_break_total: "J ne True st b \<Longrightarrow> R st b (Some (option_break st))"
  unfolding option_break_def by (rule R_I) auto

lemma option_loop_total:
  "J ne True st b \<Longrightarrow> always_ok mal \<Longrightarrow> b + 1 < BMAX \<Longrightarrow> R st (b + 1) (option_loop mal f st cur)"
proof (induction "length (inp st)" arbitrary: ne st cur rule: less_induct)
  case less
  let ?st = "if isspace cur then st else set_valid st"
  have s: "J ne True ?st b" "fr st ?st" using less.prems(1) J_set_valid [OF less.prems(1)] by auto
  from J_getchar [OF s(1) less.prems(2)] less.prems(3) obtain c st1 where
    g: "mpt_parse_getchar mal ?st = Some (c, st1)" "J (0 < c) True st1 b" "fr ?st st1" "0 \<le> c \<longrightarrow> length (inp st1) < length (inp ?st)" by auto
  have f1: "fr st st1" using fr_trans [OF s(2) g(3)] .
  have val: "R st (b + 1) (option_value mal f MissingBuffer st)" using option_value_total [OF less.prems] by simp
  have err: "R st (b + 1) (Some (r, st))" if "r < 0" for r using R_I [OF fr_refl less.prems(1), of r] that R_bound by auto
  have br: "R st (b + 1) (Some (option_break st))" "R st (b + 1) (Some (option_break (snd (mpt_parse_endline st))))"
    using option_break_total [OF less.prems(1)] option_break_total [OF endline_fr(2) [OF less.prems(1)]] R_fr [OF _ endline_fr(1)] R_bound [of _ b _ "b + 1"]
    by simp_all
  have next_c: "R st (b + 1) (do {
        (c, st) \<leftarrow> mpt_parse_getchar mal ?st;
        if c < 0 then Some (if c = - 2 then MissingData else BadArgument, st)
        else option_loop mal f st c })"
  proof (cases "c < 0")
    case True
    then show ?thesis using g(1) R_I [OF f1 g(2)] R_bound [of st b _ "b + 1"] by auto
  next
    case False
    then have "length (inp st1) < length (inp st)" using g(4) s(2) by (auto simp: fr_def)
    from less.hyps [OF this g(2) less.prems(2,3)] have "R st (b + 1) (option_loop mal f st1 c)" by (rule R_fr [OF _ f1])
    with False g(1) show ?thesis by simp
  qed
  show ?case by (subst option_loop.simps) (intro R_if val br next_c err; simp)
qed

lemma option_total:
  assumes "J ne True st b" "always_ok mal" "b + 1 < BMAX" "mpt_parse_nextvis (com f) st = (cur, st1)"
  shows "R st1 (b + 1) (mpt_parse_option mal f st)"
proof -
  note n = J_nextvis [OF assms(1,4)]
  show ?thesis
  proof (cases "cur < 0")
    case True
    then have "J ne True st1 (b + 1)" using J_bound [OF n(1), of "b + 1"] by simp
    then have "R st1 (b + 1) (Some (r, st1\<lparr>pcurr := d\<rparr>))" if "r \<le> 0" for r d
      by (intro R_I [where ne = ne and va = True]) (use that in auto)
    then show ?thesis using True assms(4) unfolding mpt_parse_option_def by (simp only: Let_def split_beta fst_conv snd_conv if_True) simp
  next
    case False
    then have j: "J ne True st1 (b - 1)" "0 < b" using n(1,3) by simp_all
    have "b - 1 < BMAX" using assms(3) by simp
    from J_addchar [OF j(1) assms(2) this, of cur] j(2) obtain r st2 where
      a: "on_path (\<lambda>m p. mpt_path_addchar mal m p cur) st1 = Some (r, st2)" "0 \<le> r" "J True True st2 b" "fr st1 st2" by auto
    have "J True True (st2\<lparr>pcurr := 0xb\<rparr>) b" using a(3) by simp
    from option_loop_total [OF this assms(2,3), of f cur] have "R st2 (b + 1) (option_loop mal f (st2\<lparr>pcurr := 0xb\<rparr>) cur)" by simp
    then have l: "R st1 (b + 1) (option_loop mal f (st2\<lparr>pcurr := 0xb\<rparr>) cur)" by (rule R_fr [OF _ a(4)])
    have "J ne True st1 (b + 1)" using J_bound [OF j(1), of "b + 1"] by simp
    then have "R st1 (b + 1) (Some (BadValue, st1\<lparr>pcurr := 0xb\<rparr>))" by (intro R_I [where ne = ne and va = True]) auto
    with l False a(1,2) assms(4) show ?thesis by (simp add: mpt_parse_option_def)
  qed
qed

lemma section_total:
  assumes "J ne True st b" "always_ok mal" "b < BMAX"
  shows "R st (b + 1) (section_name mal st)"
    "\<exists>r st'. section_name mal st = Some (r, st') \<and> pcurr st' = pcurr st \<and> (0 < r \<longrightarrow> r = 1)"
proof -
  from J_check [OF assms(1), of "pvalid st" "psect st"] obtain k where k: "check_name (psect st) (pvalid st) st = Some k" by blast
  from J_add [OF assms] obtain r1 st1 where
    a: "on_path (\<lambda>m p. mpt_path_add mal m p (int (pvalid st))) st = Some (r1, st1)" "J False False st1 (b + 1)" "fr st st1"
      "pcurr st1 = pcurr st" by auto
  have "R st (b + 1) (Some (BadType, st))" "R st (b + 1) (Some (BadOperation, st1))" "R st (b + 1) (Some (1, st1))"
    using R_I [OF fr_refl assms(1), of BadType] R_I [OF a(3,2), of BadOperation] R_I [OF a(3,2), of 1] R_bound [of st b _ "b + 1"] by auto
  then show "R st (b + 1) (section_name mal st)"
    "\<exists>r st'. section_name mal st = Some (r, st') \<and> pcurr st' = pcurr st \<and> (0 < r \<longrightarrow> r = 1)"
    using k a by (auto simp: section_name_def)
qed

lemma pre_end_total:
  assumes "J ne True st b" "always_ok mal" "b < BMAX"
  shows "R st (b + 1) (pre_end mal f st cur)"
proof -
  have j: "J ne True (st\<lparr>pcurr := d\<rparr>) b" for d using assms(1) by simp
  have e: "R st (b + 1) (Some (r, st\<lparr>pcurr := d\<rparr>))" if "r < 0 \<or> r = 4" for r d
    by (rule R_I [where ne = ne and va = True]) (use that j J_bound [OF j, of "b + 1"] in auto)
  from J_check [OF assms(1), of 0 "popt st"] obtain k where k: "check_name (popt st) 0 st = Some k" by blast
  from section_total(1) [OF j assms(2,3), of 9] have "R st (b + 1) (section_name mal (st\<lparr>pcurr := 9\<rparr>))" by simp
  with k e [of BadType] e [of 4] e [of BadValue] show ?thesis by (simp add: pre_end_def)
qed

lemma pre_loop_total:
  "J ne True st b \<Longrightarrow> always_ok mal \<Longrightarrow> b + 2 < BMAX \<Longrightarrow> R st (b + 2) (pre_loop mal f st cur)"
proof (induction "length (inp st)" arbitrary: ne st cur rule: less_induct)
  case less
  let ?s = "st\<lparr>pcurr := ParseName\<rparr>"
  have j: "J ne True (st\<lparr>pcurr := d\<rparr>) b" for d using less.prems(1) by simp
  have res: "R st (b + 2) (Some (r, st\<lparr>pcurr := d\<rparr>))" "R st (b + 2) (Some (r, st))" if "r < 0 \<or> r = 2" for r d
    by (rule R_I [where ne = ne and va = True]; use that less.prems(1) j J_bound [OF less.prems(1), of "b + 2"] in auto)+
  have pend: "R st (b + 2) (pre_end mal f st1 c)" if "J ne1 True st1 (b + 1)" "fr st st1" for ne1 st1 c
    using R_bound [OF R_fr [OF pre_end_total [OF that(1) less.prems(2)] that(2)], of "b + 2"] less.prems(3) by simp
  have p1: "R st (b + 2) (pre_end mal f st cur)" by (rule pend [OF J_bound [OF less.prems(1)] fr_refl]) simp
  have p2: "R st (b + 2) (pre_end mal f (snd (mpt_parse_endline st)) cur)"
    by (rule pend [OF J_bound [OF endline_fr(2) [OF less.prems(1)]] endline_fr(1)]) simp
  have opt: "R st (b + 2) (mpt_parse_option mal f st)"
  proof -
    obtain c st1 where n: "mpt_parse_nextvis (com f) st = (c, st1)" by (cases "mpt_parse_nextvis (com f) st")
    from option_total [OF less.prems(1,2) _ n] have "R st1 (b + 1) (mpt_parse_option mal f st)" using less.prems(3) by simp
    from R_bound [OF R_fr [OF this J_nextvis(2) [OF less.prems(1) n]], of "b + 2"] show ?thesis by simp
  qed
  have val: "R st (b + 2) (option_value mal f BadOperation (st\<lparr>pcurr := 0xb\<rparr>))"
    using R_bound [OF option_value_total [OF j less.prems(2), where e = BadOperation], of "b + 2"] less.prems(3) by simp
  have nl: "R st (b + 2) (let (c, st) = mpt_parse_nextvis (com f) ?s in do {
             (r, st) \<leftarrow> on_path (\<lambda>m p. mpt_path_addchar mal m p c) st;
             if r < 0 then Some (MissingBuffer, st) else pre_end mal f st c })"
  proof -
    obtain c st1 where n: "mpt_parse_nextvis (com f) ?s = (c, st1)" by (cases "mpt_parse_nextvis (com f) ?s")
    have "J ne True st1 b" by (rule J_bound [OF J_nextvis(1) [OF j n]]) simp
    from J_addchar [OF this less.prems(2), of c] less.prems(3) obtain r st2 where
      a: "on_path (\<lambda>m p. mpt_path_addchar mal m p c) st1 = Some (r, st2)" "0 \<le> r" "J True True st2 (b + 1)" "fr st1 st2" by auto
    have "fr st st2" using fr_trans [OF J_nextvis(2) [OF j n] a(4)] by simp
    from pend [OF a(3) this, of c] n a(1,2) show ?thesis by simp
  qed
  let ?t = "if isspace cur then ?s else set_valid ?s"
  have s: "J ne True ?t b" "fr st ?t" using j [of ParseName] J_set_valid [OF j [of ParseName]] by auto
  from J_getchar [OF s(1) less.prems(2)] less.prems(3) obtain c st1 where
    g: "mpt_parse_getchar mal ?t = Some (c, st1)" "J (0 < c) True st1 b" "fr ?t st1" "0 \<le> c \<longrightarrow> length (inp st1) < length (inp ?t)" by auto
  have f1: "fr st st1" using fr_trans [OF s(2) g(3)] .
  have next_c: "R st (b + 2) (do {
          (c, st) \<leftarrow> mpt_parse_getchar mal ?t;
          if c < 0 then pre_end mal f st c else pre_loop mal f st c })"
  proof (cases "c < 0")
    case True
    then show ?thesis using g(1) pend [OF J_bound [OF g(2)] f1, of c] by simp
  next
    case False
    then have "length (inp st1) < length (inp st)" using g(4) s(2) by (auto simp: fr_def)
    from less.hyps [OF this g(2) less.prems(2,3)] have "R st (b + 2) (pre_loop mal f st1 c)" by (rule R_fr [OF _ f1])
    with False g(1) show ?thesis by simp
  qed
  show ?case by (subst pre_loop.simps, unfold Let_def [of ?s]) (intro R_if res p1 p2 opt val nl next_c; simp)
qed

lemma enc_loop_total:
  "J ne True st b \<Longrightarrow> always_ok mal \<Longrightarrow> b < BMAX \<Longrightarrow> \<exists>ok st'. enc_loop mal f st = Some (ok, st') \<and> J False True st' b \<and> fr st st'"
proof (induction "length (inp st)" arbitrary: ne st rule: less_induct)
  case less
  from J_getchar [OF less.prems] obtain c st1 where
    g: "mpt_parse_getchar mal st = Some (c, st1)" "J (0 < c) True st1 b" "fr st st1" "0 \<le> c \<longrightarrow> length (inp st1) < length (inp st)"
    by blast
  show ?case
  proof (cases "c \<le> 0 \<or> isspace c \<or> MPT_iscomment f c")
    case True
    have "J False True st1 b" "J False True (snd (mpt_parse_endline st1)) b" "fr st (snd (mpt_parse_endline st1))"
      using J_va [OF g(2)] endline_fr(2) [OF J_va [OF g(2)]] fr_trans [OF g(3) endline_fr(1)] by simp_all
    then show ?thesis using True g(1,3) by (subst enc_loop.simps) auto
  next
    case False
    have v: "J (0 < c) True (set_valid st1) b" "fr st (set_valid st1)" using J_set_valid [OF g(2)] g(3) by (auto intro: fr_trans)
    have "length (inp (set_valid st1)) < length (inp st)" using J_set_valid(4) [OF g(2)] g(4) False by simp
    from less.hyps [OF this v(1) less.prems(2,3)] obtain ok st' where
      "enc_loop mal f (set_valid st1) = Some (ok, st')" "J False True st' b" "fr (set_valid st1) st'" by blast
    with False g(1) fr_trans [OF v(2)] show ?thesis by (subst enc_loop.simps) simp
  qed
qed

lemma sep_loop_total:
  "J ne True st b \<Longrightarrow> always_ok mal \<Longrightarrow> b + 1 < BMAX \<Longrightarrow> R st (b + 1) (sep_loop mal f st cur)"
proof (induction "length (inp st)" arbitrary: ne st cur rule: less_induct)
  case less
  have j: "J ne True (st\<lparr>pcurr := d\<rparr>) b" for d using less.prems(1) by simp
  have sec: "R st (b + 1) (section_name mal (st\<lparr>pcurr := 9\<rparr>))" using section_total(1) [OF j less.prems(2), of 9] less.prems(3) by simp
  have bad: "R st (b + 1) (Some (BadValue, st\<lparr>pcurr := 1\<rparr>))"
    by (rule R_I [where ne = ne and va = True]) (use J_bound [OF less.prems(1), of "b + 1"] in auto)
  let ?t = "if isspace cur then st else set_valid st"
  have s: "J ne True ?t b" "fr st ?t" using less.prems(1) J_set_valid [OF less.prems(1)] by auto
  from J_getchar [OF s(1) less.prems(2)] less.prems(3) obtain c st1 where
    g: "mpt_parse_getchar mal ?t = Some (c, st1)" "J (0 < c) True st1 b" "fr ?t st1" "0 \<le> c \<longrightarrow> length (inp st1) < length (inp ?t)" by auto
  have f1: "fr st st1" using fr_trans [OF s(2) g(3)] .
  have next_c: "R st (b + 1) (do {
        (c, st) \<leftarrow> mpt_parse_getchar mal ?t;
        if c < 0 then Some (BadValue, st\<lparr>pcurr := ParseSection\<rparr>) else sep_loop mal f st c })"
  proof (cases "c < 0")
    case True
    have "R st (b + 1) (Some (BadValue, st1\<lparr>pcurr := 1\<rparr>))"
      by (rule R_I [where ne = "0 < c" and va = True]) (use J_bound [OF g(2), of "b + 1"] f1 in auto)
    then show ?thesis using g(1) True by simp
  next
    case False
    then have "length (inp st1) < length (inp st)" using g(4) s(2) by (auto simp: fr_def)
    from less.hyps [OF this g(2) less.prems(2,3)] have "R st (b + 1) (sep_loop mal f st1 c)" by (rule R_fr [OF _ f1])
    with False g(1) show ?thesis by simp
  qed
  show ?case by (subst sep_loop.simps) (intro R_if sec bad next_c)
qed

section \<open>Elements\<close>

text \<open>An element that was found has consumed characters or replaced the end of a section as the previous
  operation.\<close>

definition N :: "pstate \<Rightarrow> nat \<Rightarrow> (int \<times> pstate) option \<Rightarrow> bool" where
  "N st b res \<longleftrightarrow> R st b res \<and> (\<forall>r st'. res = Some (r, st') \<and> 0 < r \<longrightarrow>
     length (inp st') < length (inp st) \<or> (pprev st mod 16 = 2 \<and> pcurr st' mod 16 \<noteq> 2))"

lemma N_I: "R st1 b res \<Longrightarrow> fr st st1 \<Longrightarrow> length (inp st1) < length (inp st) \<Longrightarrow> b \<le> b' \<Longrightarrow> N st b' res"
  unfolding N_def by (auto intro: R_bound R_fr) (auto simp: R_def fr_def)

lemma N_end: "J ne va st1 b \<Longrightarrow> fr st st1 \<Longrightarrow> r \<le> 0 \<Longrightarrow> b \<le> b' \<Longrightarrow> N st b' (Some (r, st1))"
  unfolding N_def using R_bound [OF R_I [where r = r, of st st1 ne va b], of b'] by auto

lemma N_end_pcurr: "J ne va st1 b \<Longrightarrow> fr st st1 \<Longrightarrow> r \<le> 0 \<Longrightarrow> b \<le> b' \<Longrightarrow> N st b' (Some (r, st1\<lparr>pcurr := d\<rparr>))"
  by (rule N_end [where ne = ne and va = va and b = b]) simp_all

lemma N_if: "(P \<Longrightarrow> N st b x) \<Longrightarrow> (\<not> P \<Longrightarrow> N st b y) \<Longrightarrow> N st b (if P then x else y)"
  by simp

lemma option_N:
  assumes "J ne True st b" "always_ok mal" "b + 2 < BMAX"
  shows "N st (b + 2) (mpt_parse_option mal f st)"
proof -
  obtain cur st1 where n: "mpt_parse_nextvis (com f) st = (cur, st1)" by (cases "mpt_parse_nextvis (com f) st")
  note j = J_nextvis [OF assms(1) n]
  show ?thesis
  proof (cases "cur < 0")
    case True
    then have "J ne True st1 b" using j(1) by simp
    from N_end_pcurr [OF this j(2)] True n show ?thesis by (simp add: mpt_parse_option_def)
  next
    case False
    have "R st1 (b + 1) (mpt_parse_option mal f st)" using option_total [OF assms(1,2) _ n] assms(3) by simp
    from N_I [OF this j(2)] False j(3) show ?thesis by simp
  qed
qed

lemma pre_N:
  assumes "J ne True st b" "always_ok mal" "b + 2 < BMAX"
  shows "N st (b + 2) (mpt_parse_format_pre mal f st)"
proof -
  obtain cur st1 where n: "mpt_parse_nextvis (com f) st = (cur, st1)" by (cases "mpt_parse_nextvis (com f) st")
  note j = J_nextvis [OF assms(1) n]
  show ?thesis
  proof (cases "cur < 0")
    case True
    then have "J ne True st1 b" using j(1) by simp
    from N_end [OF this j(2)] True n show ?thesis by (simp add: mpt_parse_format_pre_def)
  next
    case False
    then have k: "J ne True st1 (b - 1)" "0 < b" "length (inp st1) < length (inp st)" using j(1,3) by simp_all
    have b: "b - 1 < BMAX" using assms(3) by simp
    have k2: "J ne True (st1\<lparr>pcurr := d\<rparr>) (b - 1)" for d using k(1) by simp
    have s: "N st (b + 2) (section_name mal (st1\<lparr>pcurr := 1\<rparr>))"
      using N_I [OF section_total(1) [OF k2 assms(2) b], of st] j(2) k(3) by simp
    from J_addchar [OF k2 [of ParseName] assms(2) b, of cur] k(2) obtain r st2 where
      a: "on_path (\<lambda>m p. mpt_path_addchar mal m p cur) (st1\<lparr>pcurr := ParseName\<rparr>) = Some (r, st2)" "0 \<le> r" "J True True st2 b" "fr st1 st2"
      by auto
    have "N st (b + 2) (pre_loop mal f st2 cur)"
      using N_I [OF R_fr [OF pre_loop_total [OF a(3) assms(2,3)] a(4)] j(2) k(3)] by simp
    with s n a(1,2) False show ?thesis by (simp add: mpt_parse_format_pre_def)
  qed
qed

lemma sep_first_N:
  assumes "J ne True st b" "always_ok mal" "b + 2 < BMAX"
  shows "R st (b + 1) (sep_first mal f st)"
    "send f = sstart f \<Longrightarrow> \<exists>r st'. sep_first mal f st = Some (r, st') \<and> (0 < r \<longrightarrow> pcurr st' = 9)"
    "send f \<noteq> sstart f \<Longrightarrow> sep_first mal f st = Some (r, st') \<Longrightarrow> 0 < r \<Longrightarrow> length (inp st') < length (inp st)"
proof -
  have b: "b < BMAX" "b + 1 < BMAX" using assms(3) by simp_all
  from J_getchar [OF assms(1,2) b(1)] obtain c st1 where
    g: "mpt_parse_getchar mal st = Some (c, st1)" "J (0 < c) True st1 b" "fr st st1" "0 \<le> c \<longrightarrow> length (inp st1) < length (inp st)"
    by blast
  have l: "R st1 (b + 1) (sep_loop mal f st1 c)" by (rule sep_loop_total [OF g(2) assms(2) b(2)])
  have e: "R st (b + 1) (Some (r, st1\<lparr>pcurr := d\<rparr>))" if "r < 0" for r d
    by (rule R_I [where ne = "0 < c" and va = True]) (use J_bound [OF g(2), of "b + 1"] g(3) that in auto)
  from sep_loop_total [OF assms(1,2) b(2)] R_fr [OF l g(3)] e g(1) show "R st (b + 1) (sep_first mal f st)"
    by (simp add: sep_first_def)
  have j: "J ne True (st\<lparr>pcurr := 9\<rparr>) b" using assms(1) by simp
  from section_total(2) [OF j assms(2) b(1)]
  show "\<exists>r st'. sep_first mal f st = Some (r, st') \<and> (0 < r \<longrightarrow> pcurr st' = 9)" if "send f = sstart f"
    using that by (subst sep_first_def, subst (1) sep_loop.simps) auto
  show "length (inp st') < length (inp st)" if "send f \<noteq> sstart f" "sep_first mal f st = Some (r, st')" "0 < r"
    using that g(1,4) l by (auto simp: sep_first_def R_def fr_def split: if_splits)
qed

lemma sep_N:
  assumes "J ne True st b" "always_ok mal" "b + 2 < BMAX"
  shows "N st (b + 2) (mpt_parse_format_sep mal f st)"
proof (cases "pprev st mod 16 = 2")
  case True
  have j: "J ne True (st\<lparr>pcurr := 1\<rparr>) b" using assms(1) by simp
  note s = sep_first_N [OF j assms(2,3), of f]
  from True s(2,3) R_bound [OF s(1), of "b + 2"] show ?thesis unfolding N_def mpt_parse_format_sep_def
    by (cases "send f = sstart f") (fastforce, fastforce)
next
  case False
  obtain cur st1 where n: "mpt_parse_nextvis (com f) st = (cur, st1)" by (cases "mpt_parse_nextvis (com f) st")
  note j = J_nextvis [OF assms(1) n]
  show ?thesis
  proof (cases "cur < 0")
    case True
    then have "J ne True st1 b" using j(1) by simp
    from N_end [OF this j(2)] N_end_pcurr [OF this j(2)] True n False show ?thesis by (simp add: mpt_parse_format_sep_def)
  next
    case ge: False
    then have k: "J ne True st1 (b - 1)" "0 < b" "length (inp st1) < length (inp st)" using j(1,3) by simp_all
    have b: "b - 1 < BMAX" "b - 1 + 2 < BMAX" using assms(3) by simp_all
    have k2: "J ne True (st1\<lparr>pcurr := d\<rparr>) (b - 1)" for d using k(1) by simp
    from J_addchar [OF k2 [of ParseName] assms(2) b(1), of cur] k(2) obtain r st2 where
      a: "on_path (\<lambda>m p. mpt_path_addchar mal m p cur) (st1\<lparr>pcurr := ParseName\<rparr>) = Some (r, st2)" "0 \<le> r" "J True True st2 b" "fr st1 st2"
      by auto
    note v = J_set_valid [OF a(3)]
    have r: "R (set_valid st2) (b + 2) (mpt_parse_option mal f (set_valid st2))"
      using option_N [OF v(1) assms(2,3), of f] by (simp add: N_def)
    have "length (inp (set_valid st2)) < length (inp st)" using k(3) a(4) v(4) by (simp add: fr_def)
    from N_I [OF r fr_trans [OF j(2) fr_trans [OF a(4) v(2)]] this]
    have o1: "N st (b + 2) (mpt_parse_option mal f (set_valid st2))" by simp
    have o2: "N st (b + 2) (mpt_parse_option mal f st1)"
      using N_I [OF option_N [OF k(1) assms(2) b(2), of f, unfolded N_def, THEN conjunct1] j(2) k(3)] by simp
    have o3: "N st (b + 2) (sep_first mal f st1)"
      using N_I [OF sep_first_N(1) [OF k(1) assms(2) b(2)] j(2) k(3)] by simp
    have o4: "N st (b + 2) (Some (ParseSectEnd, st1\<lparr>pcurr := ParseSectEnd\<rparr>))"
    proof (rule N_I [OF R_I [where ne = ne and va = True]])
      show "J ne True (st1\<lparr>pcurr := ParseSectEnd\<rparr>) (b - 1)" by (rule k2)
    qed (use j(2) k(3) in auto)
    show ?thesis using n False ge o1 o2 o3 o4 a(1,2) by (simp add: mpt_parse_format_sep_def)
  qed
qed

lemma enc_section_R:
  assumes "J ne True st b" "always_ok mal" "b < BMAX"
  shows "R st (b + 1) (enc_section mal f st)"
    "enc_section mal f st = Some (r, st') \<Longrightarrow> 0 < r \<Longrightarrow> length (inp st') < length (inp st)"
proof -
  obtain c st2 where n2: "mpt_parse_nextvis (com f) (st\<lparr>pcurr := ParseSection\<rparr>) = (c, st2)"
    by (cases "mpt_parse_nextvis (com f) (st\<lparr>pcurr := ParseSection\<rparr>)")
  have "J ne True (st\<lparr>pcurr := ParseSection\<rparr>) b" using assms(1) by simp
  note k = J_nextvis [OF this n2]
  have k2: "fr st st2" using k(2) by simp
  have "R st (b + 1) (enc_section mal f st) \<and>
    (\<forall>r st'. enc_section mal f st = Some (r, st') \<and> 0 < r \<longrightarrow> length (inp st') < length (inp st))"
  proof (cases "c \<le> 0")
    case True
    have "J ne True st2 (b + 1)" by (rule J_bound [OF k(1)]) auto
    from R_I [OF k2 this, of MissingData] True n2 show ?thesis by (simp add: enc_section_def)
  next
    case False
    then have l: "J ne True st2 (b - 1)" "length (inp st2) < length (inp st)" "0 < b" using k(1,3) by auto
    have "J ne True (st2\<lparr>pcurr := 0x9\<rparr>) (b - 1)" "b - 1 < BMAX" using l(1) assms(3) by simp_all
    from J_addchar [OF this(1) assms(2) this(2), of c] l(3) obtain r st3 where
      a: "on_path (\<lambda>m p. mpt_path_addchar mal m p c) (st2\<lparr>pcurr := 0x9\<rparr>) = Some (r, st3)" "0 \<le> r" "J True True st3 b" "fr st2 st3"
      by auto
    from enc_loop_total [OF J_set_valid(1) [OF a(3)] assms(2,3), of f] obtain ok st4 where
      e: "enc_loop mal f (set_valid st3) = Some (ok, st4)" "J False True st4 b" "fr st3 st4"
      using J_set_valid(3) [OF a(3)] by auto
    from section_total [OF e(2) assms(2,3)] obtain q st5 where
      q: "section_name mal st4 = Some (q, st5)" "R st4 (b + 1) (Some (q, st5))" "0 < q \<longrightarrow> q = 1" by auto
    have f: "fr st2 st4" using fr_trans [OF a(4) e(3)] .
    have jq: "J False False st5 (b + 1)" "fr st2 st5" using q(2) fr_trans [OF f] by (auto simp: R_def)
    have z: "J False True (st5\<lparr>pvalid := 0\<rparr>) (b + 1)" by (rule J_zero [OF jq(1)])
    have r: "R st2 (b + 1) (Some (q, if q < 0 then st5 else st5\<lparr>pvalid := 0\<rparr>))"
      using R_I [OF jq(2,1), of q] R_I [of st2, OF _ z, of q] jq(2) q(3) by auto
    have r4: "R st2 (b + 1) (Some (MissingData, st4))" using R_bound [OF R_I [OF f e(2), of MissingData]] by simp
    have "enc_section mal f st = (if \<not> ok then Some (MissingData, st4) else Some (q, if q < 0 then st5 else st5\<lparr>pvalid := 0\<rparr>))"
      using n2 a(1,2) e(1) q(1) False unfolding enc_section_def by simp
    then have r2: "R st2 (b + 1) (enc_section mal f st)" using r r4 by (cases ok) simp_all
    from R_fr [OF this k2] R_shorter [OF r2 l(2)] show ?thesis by blast
  qed
  then show "R st (b + 1) (enc_section mal f st)"
    "enc_section mal f st = Some (r, st') \<Longrightarrow> 0 < r \<Longrightarrow> length (inp st') < length (inp st)" by blast+
qed

lemma enc_N:
  assumes "J ne True st b" "always_ok mal" "b + 2 < BMAX"
  shows "N st (b + 2) (mpt_parse_format_enc mal f st)"
proof (cases "sstart f = send f \<and> pprev st = ParseSectEnd")
  case True
  have "b < BMAX" using assms(3) by simp
  note s = enc_section_R [OF assms(1,2) this, of f]
  have "mpt_parse_format_enc mal f st = enc_section mal f st" using True by (simp add: mpt_parse_format_enc_def)
  then show ?thesis unfolding N_def using s(2) R_bound [OF s(1), of "b + 2"] by auto
next
  case no: False
  obtain cur st1 where n: "mpt_parse_nextvis (com f) st = (cur, st1)" by (cases "mpt_parse_nextvis (com f) st")
  note j = J_nextvis [OF assms(1) n]
  have j1: "J ne True st1 b" by (rule J_bound [OF j(1)]) auto
  have pp: "pprev st1 = pprev st" using j(2) by (simp add: fr_def)
  have e: "N st (b + 2) (Some (r, st1\<lparr>pcurr := d\<rparr>))" if "r \<le> 0" for r d
    by (rule N_end_pcurr [OF j1 j(2) that]) simp
  let ?r = "mpt_parse_format_enc mal f st"
  show ?thesis
  proof (cases "cur < 0")
    case True
    then have "?r = Some (if sstart f = send f then 0 else if alen (ppath st1) = 0 \<and> cur = - 2 then cur else MissingData,
      st1\<lparr>pcurr := if sstart f = send f then 0 else ParseName\<rparr>)" using no n pp by (auto simp: mpt_parse_format_enc_def Let_def)
    with e True show ?thesis by auto
  next
    case False
    then have k: "J ne True st1 (b - 1)" "0 < b" "length (inp st1) < length (inp st)" using j(1,3) by simp_all
    have b: "b - 1 < BMAX" "b < BMAX" "b - 1 + 2 < BMAX" using assms(3) by simp_all
    have nn: "N st (b + 2) res" if "R st1 (b + 2) res" for res by (rule N_I [OF that j(2) k(3) le_refl])
    from J_addchar [OF k(1) assms(2) b(1), of cur] k(2) obtain r st2 where
      a: "on_path (\<lambda>m p. mpt_path_addchar mal m p cur) st1 = Some (r, st2)" "0 \<le> r" "J True True st2 b" "fr st1 st2" by auto
    let ?t = "if ostart f \<noteq> 0 then st2 else set_valid st2"
    have t: "J True True ?t b" "fr st1 ?t" using a(3,4) J_set_valid [OF a(3)] by (auto intro: fr_trans)
    have o: "R st1 (b + 2) (mpt_parse_option mal f ?t)"
      using R_fr [OF option_N [OF t(1) assms(2,3), unfolded N_def, THEN conjunct1] t(2)] .
    have v: "R st1 (b + 2) (Some (BadValue, st2\<lparr>pcurr := ParseOption\<rparr>))"
      by (rule R_I [where ne = True and va = True]) (use J_bound [OF a(3), of "b + 2"] a(4) in auto)
    have se: "R st1 (b + 2) (Some (ParseSectEnd, st1\<lparr>pcurr := ParseSectEnd\<rparr>))"
      by (rule R_I [where ne = ne and va = True]) (use J_bound [OF k(1), of "b + 2"] in auto)
    have s: "R st1 (b + 2) (enc_section mal f st1)"
      using R_bound [OF enc_section_R(1) [OF k(1) assms(2) b(1)], of "b + 2"] by simp
    from nn [OF o] nn [OF v] nn [OF se] nn [OF s] show ?thesis using no n a(1,2) False pp
      by (auto simp: mpt_parse_format_enc_def Let_def)
  qed
qed

section \<open>Configurations\<close>

text \<open>The value of an element is part of the content of the buffer.\<close>

lemma J_value:
  assumes "J ne True st b"
  shows "\<exists>v. value_data st = Some v"
proof (cases "pvalid st = 0")
  case False
  from assms obtain es post keep where p: "pst 46 0 (pmem st) (ppath st) es post keep"
    "pvalid st \<le> length post \<and> (0 < pvalid st \<longrightarrow> keep)" by (rule J_E) simp
  show ?thesis
    using p(1)
  proof (cases rule: pstE)
    case null
    then show ?thesis using p(2) False by simp
  next
    case (buf a t)
    from buf(2) obtain b where b: "getb (pmem st) a = Some b" "bused b = length (join 46 t es @ post)" "bused b \<le> bsize b"
      by (rule ownedE) blast
    then have "apath_end (ppath st) + pvalid st \<le> length (bdata b)" using buf(5) p(2) by (simp add: bsize_def)
    then show ?thesis using buf(1) b(1) by (simp add: value_data_def base_bytes_def rd_def)
  qed
qed (simp add: value_data_def)

definition prog :: "pstate \<Rightarrow> nat" where
  "prog st = 2 * length (inp st) + (if pprev st mod 16 = 2 then 1 else 0)"

lemma config_loop_total:
  assumes al: "always_ok mal" and nxt: "\<And>st b. J False True st b \<Longrightarrow> b + 2 < BMAX \<Longrightarrow> N st (b + 2) (nxt st)"
  shows "J False True st b \<Longrightarrow> b + 2 * prog st + 2 < BMAX \<Longrightarrow>
    \<exists>r st' s'. config_loop mal nxt save st s = Some (r, st', s') \<and> J False False st' (b + 2 * prog st + 2)"
proof (induction "prog st" arbitrary: st b s rule: less_induct)
  case less
  let ?B = "b + 2 * prog st + 2"
  have "b + 2 < BMAX" using less.prems(2) by simp
  from nxt [OF less.prems(1) this] obtain r st1 where n: "nxt st = Some (r, st1)" "fr st st1" "J False False st1 (b + 2)"
    "r \<in> {4, 7} \<longrightarrow> J False True st1 (b + 2)" "0 < r \<longrightarrow> r \<in> {1, 2, 3, 4, 7}"
    "0 < r \<longrightarrow> length (inp st1) < length (inp st) \<or> (pprev st mod 16 = 2 \<and> pcurr st1 mod 16 \<noteq> 2)"
    unfolding N_def R_def by auto
  have j1: "J False False st1 ?B" using J_bound [OF n(3)] by simp
  show ?case
  proof (cases "0 < r")
    case False
    then show ?thesis using n(1) j1 by (subst config_loop.simps) simp
  next
    case True
    have "nat r AND 4 \<noteq> 0 \<longrightarrow> r \<in> {4, 7}" using n(5) True by auto
    then obtain val where v: "(if nat r AND 4 \<noteq> 0 then map_option Some (value_data st1) else Some None) = Some val"
      using J_value n(4) by (cases "nat r AND 4 \<noteq> 0") fastforce+
    obtain q s1 where sv: "save (pmem st1) (ppath st1) val (pprev st1) r s = (q, s1)" by fastforce
    obtain r2 st2 where p: "on_path (if nat r AND 2 \<noteq> 0 then mpt_path_del mal else mpt_path_invalidate mal) st1 = Some (r2, st2)"
      "J False False st2 (b + 2)" "inp st2 = inp st1" "pcurr st2 = pcurr st1"
      using J_del [OF n(3) al \<open>b + 2 < BMAX\<close>] J_invalidate [OF n(3), of mal] by (cases "nat r AND 2 \<noteq> 0") auto
    have j2: "J False False st2 ?B" using J_bound [OF p(2)] by simp
    let ?st = "st2\<lparr>pprev := pcurr st2, pcurr := 0, pvalid := 0\<rparr>"
    have j3: "J False True ?st (b + 2)" using p(2) by (auto simp: J_def)
    have less: "prog ?st < prog st" using n(2,6) True p(3,4) by (auto simp: prog_def fr_def)
    then have B: "b + 2 + 2 * prog ?st + 2 < BMAX" "b + 2 + 2 * prog ?st + 2 \<le> ?B" using less.prems(2) by linarith+
    from less.hyps [OF less j3 B(1), of s1] obtain r3 st3 s3 where
      c: "config_loop mal nxt save ?st s1 = Some (r3, st3, s3)" "J False False st3 (b + 2 + 2 * prog ?st + 2)" by blast
    have "J False False st3 ?B" by (rule J_bound [OF c(2) B(2)])
    then show ?thesis using n(1) True v sv p(1) c(1) j1 j2 by (subst config_loop.simps) simp
  qed
qed

text \<open>The bounds of the source and the start of a configuration.\<close>

lemma config_total:
  assumes "always_ok mal" "mem_ok m" "length (inp c) < 2 ^ 58" "pvalid c = 0" "mpt_parse_next_fcn t = Some nxt"
  shows "\<exists>r st' s'. mpt_parse_config mal (nxt mal f) save c m s = Some (r, st', s') \<and> mem_ok (pmem st')"
proof -
  let ?st = "parser_context.extend c \<lparr>pmem = m, ppath = APATH_INIT\<rparr>"
  have "path_size [] [] = 0" by (simp add: path_size_def join_def)
  then have j: "J False True ?st (length (inp c))" unfolding J_def using pst_init [OF assms(2)] assms(4)
    by (intro exI [of _ "[]"] exI [of _ False]) (simp add: parser_context.defs)
  have b: "length (inp c) + 2 * prog ?st + 2 < BMAX" using assms(3) by (simp add: prog_def BMAX_def parser_context.defs)
  have n: "N st (b + 2) (nxt mal f st)" if "J False True st b" "b + 2 < BMAX" for st b
    using assms(5) option_N [OF that(1) assms(1) that(2)] pre_N [OF that(1) assms(1) that(2)] enc_N [OF that(1) assms(1) that(2)]
      sep_N [OF that(1) assms(1) that(2)] by (auto simp: mpt_parse_next_fcn_def split: if_splits)
  from config_loop_total [OF assms(1) n j b, of save s] obtain r st' s' where
    l: "config_loop mal (nxt mal f) save ?st s = Some (r, st', s')" "J False False st' (length (inp c) + 2 * prog ?st + 2)" by blast
  from l(2) obtain es post keep where p: "pst 46 0 (pmem st') (ppath st') es post keep" by (rule J_E)
  from fini_pst [OF p] obtain m' p' where "apath_fini (pmem st') (ppath st') = Some (m', p')" "mem_ok m'" by blast
  with l(1) show ?thesis by (simp add: mpt_parse_config_def)
qed

text \<open>Property C14: the parser returns for every input: with an allocator that does not fail, for each of the four
  element formats, every format description, every source of characters (with its errors), all name
  restrictions and every handler, reading a configuration ends without an access behind the content of
  a buffer and leaves valid memory.\<close>

theorem parser_returns:
  assumes "always_ok mal" and "mem_ok m" and "length (inp c) < 2 ^ 58" and "pvalid c = 0" and "mpt_parse_next_fcn t = Some nxt"
  shows "\<exists>r st' s'. mpt_parse_config mal (nxt mal f) save c m s = Some (r, st', s') \<and> mem_ok (pmem st')"
  using config_total [OF assms] .

text \<open>An encapsulated section without end, followed by the error of the source.\<close>

theorem parser_returns_witness:
  "\<exists>r st' s'. mpt_parse_config first_fit (mpt_parse_format_enc first_fit (MPT_PARSER_FORMAT_INIT\<lparr>send := 123\<rparr>)) record_event
      \<lparr>inp = [123, 97, 10, 98, 61, 34, 99, - 1], pline = 0, psect = 0xff, popt = 0, pvalid = 0, pprev = 2, pcurr = 5\<rparr> bmem_init [] =
    Some (r, st', s') \<and> mem_ok (pmem st')"
  by (rule parser_returns [where t = 120 and nxt = mpt_parse_format_enc, OF first_fit_ok bmem_init_ok])
    (simp_all add: mpt_parse_next_fcn_def)

end
