(* ===== verification/Command.thy ===== *)
theory Command
  imports Array "HOL-Library.Multiset"
begin

text \<open>
  The commands of a dispatcher: \<open>mptcore/event/\<close> (\<open>command_get.c\<close>, \<open>command_set.c\<close>, \<open>command_clear.c\<close>,
  \<open>command_reserve.c\<close>, \<open>command_traits.c\<close>) on the arrays of \<open>mptcore/array/\<close>.

  A command is three words of a buffer: identifier, handler and argument; handlers and arguments are
  addresses, 0 is the null pointer.  What a handler does is a parameter: \<open>fin c w\<close> is the state of the
  environment behind the call of a handler without data, which ends its registration.  Handlers do not
  change the array they are called from.
\<close>

unbundle bit_operations_syntax

section \<open>Words in memory\<close>

fun le_bytes :: "nat \<Rightarrow> 64 word \<Rightarrow> block" where
  "le_bytes 0 w = []"
| "le_bytes (Suc n) w = ucast w # le_bytes n (drop_bit 8 w)"

fun of_le :: "block \<Rightarrow> 64 word" where
  "of_le [] = 0"
| "of_le (b # bs) = ucast b OR push_bit 8 (of_le bs)"

lemma length_le_bytes [simp]: "length (le_bytes n w) = n"
  by (induction n arbitrary: w) simp_all

lemma of_le_bytes: "of_le (le_bytes n w) = take_bit (8 * n) w"
proof (induction n arbitrary: w)
  case (Suc n)
  have "ucast (ucast w :: byte) OR push_bit 8 (take_bit (8 * n) (drop_bit 8 w)) = take_bit (8 * Suc n) w"
    by (rule bit_word_eqI) (auto simp: bit_simps)
  then show ?case by (simp add: Suc)
qed simp

lemma of_le_bound: "bit (of_le d) i \<Longrightarrow> i < 8 * length d"
proof (induction d arbitrary: i)
  case (Cons x d)
  from Cons.prems have "i < 8 \<or> (8 \<le> i \<and> bit (of_le d) (i - 8))" by (auto simp: bit_simps dest: bit_imp_le_length)
  with Cons.IH [of "i - 8"] show ?case by auto
qed simp

record command =
  cid :: "64 word"
  ccmd :: "64 word"
  carg :: "64 word"

abbreviation (input) CMDSIZE :: nat where "CMDSIZE \<equiv> 24"

definition enc_cmd :: "command \<Rightarrow> block" where
  "enc_cmd c = le_bytes 8 (cid c) @ le_bytes 8 (ccmd c) @ le_bytes 8 (carg c)"

definition dec_cmd :: "block \<Rightarrow> command" where
  "dec_cmd d = \<lparr>cid = of_le (take 8 d), ccmd = of_le (take 8 (drop 8 d)), carg = of_le (take 8 (drop 16 d))\<rparr>"

lemma length_enc [simp]: "length (enc_cmd c) = 24"
  by (simp add: enc_cmd_def)

lemma dec_enc [simp]: "dec_cmd (enc_cmd c @ r) = c"
proof -
  have "of_le (le_bytes 8 w) = w" for w by (simp add: of_le_bytes take_bit_word_eq_self)
  then show ?thesis by (simp add: dec_cmd_def enc_cmd_def)
qed

lemma le_bytes_of_le: "length d \<le> 8 \<Longrightarrow> le_bytes (length d) (of_le d) = d"
proof (induction d)
  case (Cons x d)
  have "ucast (ucast x OR push_bit 8 w :: 64 word) = x" for w by (rule bit_word_eqI) (auto simp: bit_simps)
  moreover have "length d \<le> 7" using Cons.prems by simp
  then have "drop_bit 8 (ucast x OR push_bit 8 (of_le d)) = of_le d"
    by (intro bit_word_eqI) (auto simp: bit_simps dest: of_le_bound bit_imp_le_length)
  ultimately show ?case using Cons by simp
qed simp

lemma enc_dec: "length d = 24 \<Longrightarrow> enc_cmd (dec_cmd d) = d"
  using le_bytes_of_le [of "take 8 d"] le_bytes_of_le [of "take 8 (drop 8 d)"] le_bytes_of_le [of "take 8 (drop 16 d)"]
  by (simp add: enc_cmd_def dec_cmd_def min_def) (metis append_take_drop_id drop_drop numeral_Bit0)

fun dec_cmds :: "nat \<Rightarrow> block \<Rightarrow> command list" where
  "dec_cmds 0 d = []"
| "dec_cmds (Suc n) d = dec_cmd (take 24 d) # dec_cmds n (drop 24 d)"

abbreviation enc_cmds :: "command list \<Rightarrow> block" where
  "enc_cmds cs \<equiv> concat (map enc_cmd cs)"

lemma length_enc_cmds [simp]: "length (enc_cmds cs) = 24 * length cs"
  by (induction cs) simp_all

lemma dec_enc_cmds: "n = length cs \<Longrightarrow> dec_cmds n (enc_cmds cs @ r) = cs"
proof (induction cs arbitrary: n)
  case (Cons c cs)
  have "dec_cmd (take 24 (enc_cmd c @ enc_cmds cs @ r)) = c" using dec_enc [of c "[]"] by simp
  with Cons show ?case by simp
qed simp

text \<open>The commands of a buffer; a buffer with a command at an offset or all commands replaced.\<close>

definition commands :: "bufdata \<Rightarrow> command list" where
  "commands b = dec_cmds (bused b div CMDSIZE) (bdata b)"

definition put_command :: "bmem \<Rightarrow> nat \<Rightarrow> nat \<Rightarrow> command \<Rightarrow> bmem option" where
  "put_command m a off c = do {
     b \<leftarrow> getb m a;
     d \<leftarrow> wr (bdata b) off (enc_cmd c);
     Some (putb m a (b\<lparr>bdata := d\<rparr>)) }"

definition put_commands :: "bmem \<Rightarrow> nat \<Rightarrow> command list \<Rightarrow> bmem option" where
  "put_commands m a cs = do {
     b \<leftarrow> getb m a;
     d \<leftarrow> wr (bdata b) 0 (enc_cmds cs);
     Some (putb m a (b\<lparr>bdata := d\<rparr>)) }"

section \<open>Operations\<close>

text \<open>The static description of the type; elements in use cannot be copied.\<close>

definition command_init :: "block option \<Rightarrow> block option" where
  "command_init src = (case src of Some s \<Rightarrow> if ccmd (dec_cmd s) \<noteq> 0 then None else Some (replicate CMDSIZE 0)
     | None \<Rightarrow> Some (replicate CMDSIZE 0))"

definition mpt_command_traits :: traits where
  "mpt_command_traits = \<lparr>tid = 1, tsize = CMDSIZE, tinit = Some command_init, tfini = 1\<rparr>"

definition command_fini :: "(command \<Rightarrow> 'w \<Rightarrow> 'w) \<Rightarrow> command \<Rightarrow> 'w \<Rightarrow> 'w" where
  "command_fini fin c w = (if ccmd c \<noteq> 0 then fin c w else w)"

definition mpt_command_clear :: "(command \<Rightarrow> 'w \<Rightarrow> 'w) \<Rightarrow> bmem \<Rightarrow> nat \<Rightarrow> 'w \<Rightarrow> (bmem \<times> 'w) option" where
  "mpt_command_clear fin m arr w = (if arr = 0 then Some (m, w)
     else do {
       b \<leftarrow> getb m arr;
       Some (putb m arr (b\<lparr>bused := 0\<rparr>), fold (command_fini fin) (commands b) w) })"

fun mpt_command_empty :: "command list \<Rightarrow> nat option" where
  "mpt_command_empty [] = None"
| "mpt_command_empty (c # cs) = (if ccmd c = 0 then Some 0 else map_option Suc (mpt_command_empty cs))"

fun mpt_command_find :: "command list \<Rightarrow> 64 word \<Rightarrow> nat option" where
  "mpt_command_find [] i = None"
| "mpt_command_find (c # cs) i = (if ccmd c \<noteq> 0 \<and> i = cid c then Some 0 else map_option Suc (mpt_command_find cs i))"

text \<open>The outer option is the access to the buffer.\<close>

definition mpt_command_get :: "bmem \<Rightarrow> nat \<Rightarrow> 64 word \<Rightarrow> nat option option" where
  "mpt_command_get m arr i = (if arr = 0 then Some None
     else do { b \<leftarrow> getb m arr; Some (mpt_command_find (commands b) i) })"

definition mpt_command_set ::
  "malloc \<Rightarrow> (command \<Rightarrow> 'w \<Rightarrow> 'w) \<Rightarrow> bmem \<Rightarrow> nat \<Rightarrow> 64 word \<Rightarrow> 64 word \<Rightarrow> 64 word \<Rightarrow> 'w
    \<Rightarrow> (int \<times> nat \<times> bmem \<times> 'w) option" where
  "mpt_command_set mal fin m arr i cmd arg w = do {
     pos \<leftarrow> mpt_command_get m arr i;
     case pos of
       Some p \<Rightarrow> do {
         b \<leftarrow> getb m arr;
         let w = fin (commands b ! p) w;
         m \<leftarrow> put_command m arr (CMDSIZE * p) ((commands b ! p)\<lparr>ccmd := cmd, carg := arg\<rparr>);
         Some (if cmd \<noteq> 0 then 0 else 2, arr, m, w) }
     | None \<Rightarrow>
       if arr = 0 then do {
         (a, m) \<leftarrow> mpt_buffer_alloc mal m CMDSIZE BufferNoCopy;
         if a = 0 then Some (BadOperation, arr, m, w)
         else do {
           b \<leftarrow> getb m a;
           (p, m) \<leftarrow> mpt_buffer_insert (putb m a (b\<lparr>btraits := Some mpt_command_traits\<rparr>)) a 0 CMDSIZE;
           case p of None \<Rightarrow> Some (BadOperation, a, m, w)
           | Some p \<Rightarrow> do {
               m \<leftarrow> put_command m a p \<lparr>cid = i, ccmd = cmd, carg = arg\<rparr>;
               Some (1, a, m, w) } } }
       else do {
         b \<leftarrow> getb m arr;
         (case (if bused b div CMDSIZE \<noteq> 0 then mpt_command_empty (commands b) else None) of
            Some p \<Rightarrow> do { m \<leftarrow> put_command m arr (CMDSIZE * p) \<lparr>cid = i, ccmd = cmd, carg = arg\<rparr>; Some (0, arr, m, w) }
          | None \<Rightarrow> do {
              (p, a, m) \<leftarrow> mpt_array_insert mal m arr (bused b) CMDSIZE;
              case p of None \<Rightarrow> Some (BadOperation, a, m, w)
              | Some p \<Rightarrow> do {
                  m \<leftarrow> put_command m a p \<lparr>cid = i, ccmd = cmd, carg = arg\<rparr>;
                  Some (1, a, m, w) } }) } }"

text \<open>The loop of \<open>mpt_command_reserve\<close> moves active commands to free places in front of them; its results
  are the commands, their number and the highest identifier.\<close>

fun next_slot :: "command list \<Rightarrow> nat \<Rightarrow> nat \<Rightarrow> nat" where
  "next_slot cs c 0 = c"
| "next_slot cs c (Suc n) = (if ccmd (cs ! c) = 0 then c else next_slot cs (Suc c) n)"

function reserve_loop :: "command list \<Rightarrow> nat \<Rightarrow> nat option \<Rightarrow> nat \<Rightarrow> 64 word \<Rightarrow> command list \<times> nat \<times> 64 word" where
  "reserve_loop cs i slot used mid =
     (if i < length cs then
        let mid = (if cid (cs ! i) > mid then cid (cs ! i) else mid) in
        if ccmd (cs ! i) = 0 then reserve_loop cs (i + 1) (if slot = None then Some i else slot) used mid
        else case slot of
            None \<Rightarrow> reserve_loop cs (i + 1) None (used + 1) mid
          | Some c \<Rightarrow>
              let cs' = (cs[c := cs ! i])[i := (cs ! i)\<lparr>ccmd := 0\<rparr>] in
              reserve_loop cs' (i + 1) (Some (next_slot cs' (c + 1) (i - (c + 1)))) (used + 1) mid
      else (cs, used, mid))"
  by pat_completeness auto
termination by (relation "measure (\<lambda>(cs, i, slot, used, mid). length cs - i)") auto

declare reserve_loop.simps [simp del]

text \<open>The largest identifier of messages with \<open>n\<close> bytes for it.\<close>

definition id_max :: "nat \<Rightarrow> nat" where
  "id_max n = (if n = 1 then 2 ^ 7 - 1 else if n = 2 then 2 ^ 15 - 1 else if n = 3 then (2 ^ 31 - 1) div 0x100
     else if n = 4 then 2 ^ 31 - 1 else if n = 5 then (2 ^ 63 - 1) div 0x1000000 else if n = 6 then (2 ^ 63 - 1) div 0x10000
     else if n = 7 then (2 ^ 63 - 1) div 0x100 else 2 ^ 63 - 1)"

text \<open>The search of an identifier that is not used, from \<open>i\<close> on.\<close>

function free_id :: "command list \<Rightarrow> nat \<Rightarrow> nat \<Rightarrow> nat option" where
  "free_id cs i mx =
     (if i \<le> mx then if mpt_command_find cs (of_nat i) = None then Some i else free_id cs (i + 1) mx else None)"
  by pat_completeness auto
termination by (relation "measure (\<lambda>(cs, i, mx). Suc mx - i)") auto

declare free_id.simps [simp del]

text \<open>The result is the offset of the command; \<open>log_reply\<close> is the address of the static default handler.\<close>

definition mpt_command_reserve ::
  "malloc \<Rightarrow> 64 word \<Rightarrow> bmem \<Rightarrow> nat \<Rightarrow> nat \<Rightarrow> (nat option \<times> nat \<times> bmem) option" where
  "mpt_command_reserve mal log_reply m arr n =
     (if n = 0 then Some (None, arr, m)
      else if arr = 0 then do {
        (p, a, m) \<leftarrow> mpt_array_append mal m 0 (CMDSIZE * 8) None;
        case p of None \<Rightarrow> Some (None, a, m)
        | Some p \<Rightarrow> do { m \<leftarrow> put_command m a p \<lparr>cid = 1, ccmd = log_reply, carg = 1\<rparr>; Some (Some p, a, m) } }
      else do {
        b \<leftarrow> getb m arr;
        let (cs, used, mid) = reserve_loop (commands b) 0 None 0 0;
        m \<leftarrow> put_commands m arr cs;
        b \<leftarrow> getb m arr;
        m \<leftarrow> Some (putb m arr (b\<lparr>bused := used * CMDSIZE\<rparr>));
        let mid = mid + 1;
        let new = (if unat mid > id_max n then map_option of_nat (free_id (take used cs) 1 (id_max n)) else Some mid);
        case new of None \<Rightarrow> Some (None, arr, m)
        | Some mid \<Rightarrow> do {
            (p, a, m) \<leftarrow> mpt_array_append mal m arr CMDSIZE None;
            case p of None \<Rightarrow> Some (None, a, m)
            | Some p \<Rightarrow> do {
                m \<leftarrow> put_command m a p \<lparr>cid = mid, ccmd = log_reply, carg = mid\<rparr>;
                Some (Some p, a, m) } } })"

section \<open>Lists of commands\<close>

abbreviation active :: "command \<Rightarrow> bool" where "active c \<equiv> ccmd c \<noteq> 0"

lemma find_None: "mpt_command_find cs i = None \<longleftrightarrow> (\<forall>c \<in> set cs. active c \<longrightarrow> cid c \<noteq> i)"
  by (induction cs) auto

lemma find_Some: "mpt_command_find cs i = Some p \<Longrightarrow> p < length cs \<and> active (cs ! p) \<and> cid (cs ! p) = i"
  by (induction cs arbitrary: p) (auto split: if_splits)

lemma empty_None: "mpt_command_empty cs = None \<longleftrightarrow> (\<forall>c \<in> set cs. active c)"
  by (induction cs) auto

lemma empty_Some: "mpt_command_empty cs = Some p \<Longrightarrow> p < length cs \<and> \<not> active (cs ! p)"
  by (induction cs arbitrary: p) (auto split: if_splits)

text \<open>The handlers by identifier; identifiers of active commands are unique.\<close>

definition handlers :: "command list \<Rightarrow> 64 word \<rightharpoonup> 64 word \<times> 64 word" where
  "handlers cs i = map_option (\<lambda>p. (ccmd (cs ! p), carg (cs ! p))) (mpt_command_find cs i)"

definition unique_ids :: "command list \<Rightarrow> bool" where
  "unique_ids cs \<longleftrightarrow> distinct (map cid (filter active cs))"

lemma handlers_None: "handlers cs i = None \<longleftrightarrow> (\<forall>c \<in> set cs. active c \<longrightarrow> cid c \<noteq> i)"
  by (simp add: handlers_def find_None)

lemma handlers_Nil [simp]: "handlers [] = Map.empty"
  by (simp add: handlers_def fun_eq_iff)

lemma handlers_Cons: "handlers (c # cs) i = (if active c \<and> i = cid c then Some (ccmd c, carg c) else handlers cs i)"
  by (auto simp: handlers_def option.map_comp comp_def)

lemma handlers_append: "handlers (xs @ ys) = handlers ys ++ handlers xs"
  by (rule ext, induction xs) (simp_all add: handlers_Cons map_add_def)

lemma unique_split: "unique_ids (xs @ c # ys) \<longleftrightarrow> unique_ids (xs @ ys) \<and> (active c \<longrightarrow> handlers (xs @ ys) (cid c) = None)"
proof -
  have "handlers (xs @ ys) (cid c) = None \<longleftrightarrow> cid c \<notin> cid ` {x \<in> set (xs @ ys). active x}" unfolding handlers_None by (auto simp: image_iff)
  then show ?thesis by (auto simp: unique_ids_def)
qed

lemma handlers_split: "handlers (xs @ c # ys) = (if active c then
    (\<lambda>i. if i = cid c \<and> handlers xs i = None then Some (ccmd c, carg c) else handlers (xs @ ys) i) else handlers (xs @ ys))"
  by (auto simp: fun_eq_iff handlers_append map_add_def handlers_Cons split: option.splits)

lemma handlers_update:
  assumes "unique_ids (xs @ c # ys)" "active c \<longrightarrow> cid c = i" "\<not> active c \<longrightarrow> handlers (xs @ c # ys) i = None" "cid d = i"
  shows "handlers (xs @ d # ys) = (handlers (xs @ c # ys))(i := if active d then Some (ccmd d, carg d) else None)"
    "unique_ids (xs @ d # ys)"
proof -
  have n: "handlers (xs @ ys) i = None" using assms(1-3) by (cases "active c") (auto simp: unique_split handlers_split)
  then have "handlers xs i = None" by (simp add: handlers_append)
  then show "handlers (xs @ d # ys) = (handlers (xs @ c # ys))(i := if active d then Some (ccmd d, carg d) else None)"
    using n assms(2,4) by (auto simp: fun_eq_iff handlers_split)
  show "unique_ids (xs @ d # ys)" using assms(1,4) n by (simp add: unique_split)
qed

lemma handlers_snoc:
  assumes "handlers cs (cid d) = None" "unique_ids cs"
  shows "handlers (cs @ [d]) = (handlers cs)(cid d := if active d then Some (ccmd d, carg d) else None)" "unique_ids (cs @ [d])"
  using assms handlers_split [of cs d "[]"] unique_split [of cs d "[]"] by (auto simp: fun_eq_iff)

section \<open>Arrays of commands\<close>

text \<open>Writing a command changes its bytes.\<close>

lemma put_command_ok:
  assumes "getb m a = Some b" "content b = u @ v @ w" "length v = 24" "off = length u" "bused b \<le> bsize b"
  shows "\<exists>d. put_command m a off c = Some (putb m a (b\<lparr>bdata := d\<rparr>)) \<and> length d = length (bdata b) \<and>
    content (b\<lparr>bdata := d\<rparr>) = u @ enc_cmd c @ w"
proof -
  have e: "bdata b = u @ v @ w @ drop (bused b) (bdata b)" using assms(2) append_take_drop_id [of "bused b" "bdata b"]
    by (simp add: content_def)
  have "length (content b) = length u + 24 + length w" unfolding assms(2) using assms(3) by simp
  then have l: "bused b = length u + 24 + length w" using assms(5) by (simp add: content_def bsize_def)
  let ?d = "u @ enc_cmd c @ w @ drop (bused b) (bdata b)"
  have "wr (bdata b) off (enc_cmd c) = Some ?d" by (subst e) (simp add: wr_def assms(3,4))
  moreover have "length ?d = length (bdata b)" using arg_cong [OF e, of length] assms(3) by simp
  moreover have "content (b\<lparr>bdata := ?d\<rparr>) = u @ enc_cmd c @ w" using l by (simp add: content_def)
  ultimately show ?thesis using assms(1) by (intro exI [of _ ?d]) (simp add: put_command_def)
qed

lemma commands_content:
  assumes "content b = enc_cmds cs" "bused b \<le> bsize b"
  shows "commands b = cs" "bused b = 24 * length cs"
proof -
  show l: "bused b = 24 * length cs" using arg_cong [OF assms(1), of length] assms(2) by (simp add: content_def bsize_def)
  have "bdata b = enc_cmds cs @ drop (bused b) (bdata b)"
    using assms(1) append_take_drop_id [of "bused b" "bdata b"] by (simp add: content_def)
  then show "commands b = cs" using dec_enc_cmds [of "length cs" cs "drop (bused b) (bdata b)"] l by (simp add: commands_def)
qed

text \<open>The array of a dispatcher: absent, or a private typed buffer.\<close>

definition typed_cmds :: "bmem \<Rightarrow> nat \<Rightarrow> command list \<Rightarrow> bool" where
  "typed_cmds m a cs \<longleftrightarrow> mem_ok m \<and> (if a = 0 then cs = []
     else \<exists>b. getb m a = Some b \<and> btraits b = Some mpt_command_traits \<and> bref b = 1 \<and> bflags b = BufferNoCopy \<and>
       bused b \<le> bsize b \<and> bsize b < 2 ^ 64 \<and> content b = enc_cmds cs)"

lemma typed_put:
  assumes "typed_cmds m a (xs @ c # ys)" "a \<noteq> 0" "n = length xs"
  shows "\<exists>m'. put_command m a (24 * n) d = Some m' \<and> typed_cmds m' a (xs @ d # ys)"
proof -
  from assms obtain b where b: "getb m a = Some b" "btraits b = Some mpt_command_traits" "bref b = 1" "bflags b = BufferNoCopy"
    "bused b \<le> bsize b" "bsize b < 2 ^ 64" "content b = enc_cmds xs @ enc_cmd c @ enc_cmds ys" and m: "mem_ok m"
    by (auto simp: typed_cmds_def)
  from put_command_ok [OF b(1,7) _ _ b(5), of "24 * n" d] assms(3) obtain e where
    e: "put_command m a (24 * n) d = Some (putb m a (b\<lparr>bdata := e\<rparr>))" "length e = length (bdata b)"
      "content (b\<lparr>bdata := e\<rparr>) = enc_cmds xs @ enc_cmd d @ enc_cmds ys" by auto
  then show ?thesis using b m assms(2) by (auto simp: typed_cmds_def getb_putb bsize_def mem_ok_putb)
qed

text \<open>A command at the end: in the room of the buffer, in a larger buffer or in a new one.\<close>

lemma insert_typed:
  assumes b: "getb m a = Some b" "btraits b = Some mpt_command_traits" "bref b = 1" "bflags b = BufferNoCopy"
    "bused b = 24 * n" "bused b + 24 \<le> bsize b" "bsize b < 2 ^ 64"
  shows "mpt_buffer_insert m a (bused b) 24 = Some (Some (bused b), putb m a (b\<lparr>bused := bused b + 24\<rparr>))"
proof -
  have "init_loop command_init (bdata b) (bused b) (bused b) 24 = Some (bdata b, bused b)" by (subst init_loop.simps) simp
  moreover have "buffer_alloc_flags b AND BufferImmutable = 0" using b(3,4) by (simp add: buffer_alloc_flags_def)
  moreover have "wrap (bused b + 24) = bused b + 24" using b(6,7) by simp
  ultimately show ?thesis using b by (simp add: mpt_buffer_insert_def mpt_command_traits_def Let_def)
qed

lemma typed_insert:
  assumes t: "typed_cmds m a cs" "a \<noteq> 0" and al: "always_ok mal" and sz: "24 * length cs + 24 < 2 ^ 63"
  shows "\<exists>a' m' c. a' \<noteq> 0 \<and> mpt_array_insert mal m a (24 * length cs) 24 = Some (Some (24 * length cs), a', m') \<and> typed_cmds m' a' (cs @ [c])"
proof -
  from t obtain b where b: "getb m a = Some b" "btraits b = Some mpt_command_traits" "bref b = 1" "bflags b = BufferNoCopy"
    "bused b \<le> bsize b" "bsize b < 2 ^ 64" "content b = enc_cmds cs" and m: "mem_ok m"
    by (auto simp: typed_cmds_def)
  have u: "bused b = 24 * length cs" by (rule commands_content [OF b(7,5)])
  have w: "wrap (bused b + 24) = bused b + 24" using sz u by simp
  have last: "\<exists>m' c. mpt_buffer_insert m2 a2 (24 * length cs) 24 = Some (Some (24 * length cs), m') \<and> typed_cmds m' a2 (cs @ [c])"
    if "getb m2 a2 = Some b2" "btraits b2 = Some mpt_command_traits" "bref b2 = 1" "bflags b2 = BufferNoCopy" "content b2 = enc_cmds cs"
      "bused b2 = bused b" "bused b + 24 \<le> bsize b2" "bsize b2 < 2 ^ 64" "mem_ok m2" for m2 a2 b2
  proof -
    let ?x = "take 24 (drop (bused b) (bdata b2))"
    have "length ?x = 24" using that(7) by (simp add: bsize_def)
    then have "enc_cmd (dec_cmd ?x) = ?x" by (rule enc_dec)
    moreover have "content (b2\<lparr>bused := bused b + 24\<rparr>) = enc_cmds cs @ ?x"
      using that(5,6) by (simp add: content_def take_add)
    ultimately have "typed_cmds (putb m2 a2 (b2\<lparr>bused := bused b + 24\<rparr>)) a2 (cs @ [dec_cmd ?x])"
      using that getb_nonzero [OF that(1)] by (auto simp: typed_cmds_def getb_putb mem_ok_putb bsize_def)
    then show ?thesis using insert_typed [OF that(1-4) _ _ that(8), of "length cs"] that(6,7) u by auto
  qed
  show ?thesis
  proof (cases "bused b + 24 \<le> bsize b")
    case True
    from last [OF b(1-4,7) refl True b(6) m] obtain m' c where
      "mpt_buffer_insert m a (24 * length cs) 24 = Some (Some (24 * length cs), m')" "typed_cmds m' a (cs @ [c])" by blast
    moreover have "buffer_alloc_flags b AND BufferShared = 0" using b(3,4) by (simp add: buffer_alloc_flags_def)
    ultimately show ?thesis using True b(1) t(2) u w sz by (auto simp: mpt_array_insert_def)
  next
    case False
    have "alloc_ok mal m" using al m by (simp add: always_ok_def)
    from alloc_raw [OF this, of "bused b + 24" BufferNoCopy] sz u obtain x n where
      n: "mpt_buffer_alloc mal m (bused b + 24) BufferNoCopy = Some (x, putb (set_psz m) x n)" "x \<noteq> 0" "bufs m x = None"
        "raw_ok n" "bref n = 1" "bused n = 0" "bused b + 24 \<le> bsize n" "bflags n = BufferNoCopy AND BufferFlagsUser" by auto
    have xa: "x \<noteq> a" using b(1) n(2,3) by (auto simp: getb_def)
    let ?m = "putb (set_psz m) x (n\<lparr>btraits := Some mpt_command_traits\<rparr>)"
    let ?n = "n\<lparr>btraits := Some mpt_command_traits, bdata := take (bused b) (bdata b) @ drop (bused b) (bdata n), bused := bused b\<rparr>"
    let ?m2 = "putb (?m\<lparr>bufs := (bufs ?m)(a := None), fins := fins ?m\<rparr>) x ?n"
    have mv: "detach_move ?m a b x (bused b + 24) = Some ?m2"
      using b n xa by (simp add: detach_move_def getb_putb rd_def wr_def bsize_def)
    have fl: "BufferNoCopy AND NOT BufferImmutable = BufferNoCopy" by simp
    have "(bused b + 24) mod 24 = 0" using u by simp
    then have d: "buffer_alloc_detach mal m a (bused b + 24) = Some (x, ?m2)"
      using False b n(1,2) xa fl mv by (simp add: buffer_alloc_detach_def mpt_command_traits_def getb_putb mpt_refcount_lower_def)
    have g: "getb ?m2 x = Some ?n" using n(2) by (simp add: getb_putb)
    have "{c. getb ?m2 c \<noteq> None} \<subseteq> insert x {c. getb m c \<noteq> None}"
      using n(2) by (auto simp: getb_def putb_def set_psz_def split: if_splits)
    then have m2: "mem_ok ?m2" using mem_ok_psz [OF m] m unfolding mem_ok_def
      by (auto simp: putb_def intro: finite_subset)
    have c: "content ?n = enc_cmds cs" using b(5,7) u by (simp add: content_def bsize_def)
    have s: "bsize ?n = bsize n" using b(5) n(7) by (simp add: bsize_def)
    have "bflags ?n = BufferNoCopy" "bref ?n = 1" "bsize n < 2 ^ 64" using n by (simp_all add: raw_ok_def)
    from last [OF g _ this(2,1) c _ _ _ m2] s n(7) this(3) obtain m' c' where
      "mpt_buffer_insert ?m2 x (24 * length cs) 24 = Some (Some (24 * length cs), m')" "typed_cmds m' x (cs @ [c'])" by auto
    moreover have "\<not> wrap (bused b + 24) \<le> bsize b" using False w by simp
    ultimately show ?thesis using b(1) t(2) u w d n(2) sz by (auto simp: mpt_array_insert_def)
  qed
qed

lemma typed_get:
  assumes "typed_cmds m a cs"
  shows "mpt_command_get m a i = Some (mpt_command_find cs i)"
    "a \<noteq> 0 \<Longrightarrow> \<exists>b. getb m a = Some b \<and> commands b = cs \<and> bused b = 24 * length cs"
proof -
  show g: "\<exists>b. getb m a = Some b \<and> commands b = cs \<and> bused b = 24 * length cs" if "a \<noteq> 0"
    using assms that commands_content [of _ cs] by (auto simp: typed_cmds_def)
  show "mpt_command_get m a i = Some (mpt_command_find cs i)"
    using g assms by (cases "a = 0") (auto simp: mpt_command_get_def typed_cmds_def)
qed

lemma typed_first:
  assumes m: "mem_ok m" and al: "always_ok mal"
  shows "\<exists>a b m' m''. mpt_buffer_alloc mal m 24 BufferNoCopy = Some (a, m') \<and> a \<noteq> 0 \<and> getb m' a = Some b \<and>
    mpt_buffer_insert (putb m' a (b\<lparr>btraits := Some mpt_command_traits\<rparr>)) a 0 24 = Some (Some 0, m'') \<and>
    (\<exists>c. typed_cmds m'' a [c])"
proof -
  have "alloc_ok mal m" using al m by (simp add: always_ok_def)
  from alloc_raw [OF this, of 24 BufferNoCopy] obtain x n where
    n: "mpt_buffer_alloc mal m 24 BufferNoCopy = Some (x, putb (set_psz m) x n)" "x \<noteq> 0" "raw_ok n" "bref n = 1" "bused n = 0"
      "24 \<le> bsize n" "bflags n = BufferNoCopy AND BufferFlagsUser" by auto
  let ?n = "n\<lparr>btraits := Some mpt_command_traits\<rparr>"
  let ?m = "putb (putb (set_psz m) x n) x ?n"
  have "mpt_buffer_insert ?m x (bused ?n) 24 = Some (Some (bused ?n), putb ?m x (?n\<lparr>bused := bused ?n + 24\<rparr>))"
    by (rule insert_typed [where n = 0]) (use n in \<open>simp_all add: getb_putb raw_ok_def bsize_def\<close>)
  moreover have "typed_cmds (putb ?m x (?n\<lparr>bused := 24\<rparr>)) x [dec_cmd (take 24 (bdata n))]"
    using n mem_ok_putb [OF mem_ok_psz [OF m]] by (simp add: typed_cmds_def getb_putb raw_ok_def bsize_def content_def enc_dec)
  ultimately show ?thesis using n(1,2,5) by (auto simp: getb_putb)
qed

text \<open>The call of the former handler of an identifier.\<close>

definition end_handler :: "(command \<Rightarrow> 'w \<Rightarrow> 'w) \<Rightarrow> command list \<Rightarrow> 64 word \<Rightarrow> 'w \<Rightarrow> 'w" where
  "end_handler fin cs i w = (case mpt_command_find cs i of None \<Rightarrow> w | Some p \<Rightarrow> fin (cs ! p) w)"

lemma command_set_typed:
  assumes t: "typed_cmds m a cs" and u: "unique_ids cs" and al: "always_ok mal" and sz: "24 * length cs + 24 < 2 ^ 63"
  shows "\<exists>r a' m' cs'. mpt_command_set mal fin m a i cmd arg w = Some (r, a', m', end_handler fin cs i w) \<and> 0 \<le> r \<and>
    typed_cmds m' a' cs' \<and> unique_ids cs' \<and> handlers cs' = (handlers cs)(i := if cmd = 0 then None else Some (cmd, arg)) \<and>
    length cs' \<le> length cs + 1 \<and>
    mset (filter active cs') + (case mpt_command_find cs i of None \<Rightarrow> {#} | Some p \<Rightarrow> {#cs ! p#}) =
      mset (filter active cs) + (if cmd = 0 then {#} else {#\<lparr>cid = i, ccmd = cmd, carg = arg\<rparr>#})"
proof (cases "mpt_command_find cs i")
  case (Some p)
  then have p: "p < length cs" "active (cs ! p)" "cid (cs ! p) = i" using find_Some by blast+
  let ?d = "(cs ! p)\<lparr>ccmd := cmd, carg := arg\<rparr>"
  have e: "cs = take p cs @ cs ! p # drop (Suc p) cs" using p(1) by (simp add: id_take_nth_drop)
  have a: "a \<noteq> 0" using t p(1) by (cases "a = 0") (auto simp: typed_cmds_def)
  from typed_put [of m a "take p cs" "cs ! p" "drop (Suc p) cs" p ?d] t e a p(1) obtain m' where
    m': "put_command m a (24 * p) ?d = Some m'" "typed_cmds m' a (take p cs @ ?d # drop (Suc p) cs)" by auto
  note h = handlers_update [of "take p cs" "cs ! p" "drop (Suc p) cs" i ?d, folded e]
  have "mset (filter active (take p cs @ ?d # drop (Suc p) cs)) + {#cs ! p#} =
    mset (filter active (take p cs @ cs ! p # drop (Suc p) cs)) + (if cmd = 0 then {#} else {#\<lparr>cid = i, ccmd = cmd, carg = arg\<rparr>#})"
    using p by (cases "cs ! p") auto
  then show ?thesis using typed_get [OF t] a Some m' h u p
    by (intro exI [of _ "if cmd \<noteq> 0 then 0 else 2"] exI [of _ a] exI [of _ m'] exI [of _ "take p cs @ ?d # drop (Suc p) cs"])
      (auto simp: mpt_command_set_def end_handler_def e [symmetric])
next
  case None
  let ?d = "\<lparr>cid = i, ccmd = cmd, carg = arg\<rparr>"
  have hn: "handlers cs i = None" using None by (simp add: handlers_def)
  have sn: "handlers (cs @ [?d]) = (handlers cs)(i := if cmd = 0 then None else Some (cmd, arg))" "unique_ids (cs @ [?d])"
    using handlers_snoc [of cs ?d] hn u by simp_all
  have ew: "end_handler fin cs i w = w" using None by (simp add: end_handler_def)
  show ?thesis
  proof (cases "a = 0")
    case True
    then have cs: "cs = []" "mem_ok m" using t by (auto simp: typed_cmds_def)
    from typed_first [OF cs(2) al] obtain x b m1 m2 c where f: "mpt_buffer_alloc mal m 24 BufferNoCopy = Some (x, m1)" "x \<noteq> 0"
      "getb m1 x = Some b" "mpt_buffer_insert (putb m1 x (b\<lparr>btraits := Some mpt_command_traits\<rparr>)) x 0 24 = Some (Some 0, m2)"
      "typed_cmds m2 x ([] @ c # [])" by auto
    from typed_put [OF f(5,2), of 0 ?d] obtain m3 where m3: "put_command m2 x 0 ?d = Some m3" "typed_cmds m3 x [?d]" by auto
    have "mpt_command_set mal fin m a i cmd arg w = Some (1, x, m3, w)"
      using True f m3(1) by (simp add: mpt_command_set_def mpt_command_get_def)
    then show ?thesis using m3(2) sn cs(1) ew None
      by (intro exI [of _ 1] exI [of _ x] exI [of _ m3] exI [of _ "[?d]"]) simp
  next
    case nz: False
    from typed_get(2) [OF t nz] obtain b where b: "getb m a = Some b" "commands b = cs" "bused b = 24 * length cs" by blast
    show ?thesis
    proof (cases "mpt_command_empty cs")
      case (Some p)
      then have p: "p < length cs" "\<not> active (cs ! p)" using empty_Some by blast+
      have e: "cs = take p cs @ cs ! p # drop (Suc p) cs" using p(1) by (simp add: id_take_nth_drop)
      from typed_put [of m a "take p cs" "cs ! p" "drop (Suc p) cs" p ?d] t e nz p(1) obtain m' where
        m': "put_command m a (24 * p) ?d = Some m'" "typed_cmds m' a (take p cs @ ?d # drop (Suc p) cs)" by auto
      note h = handlers_update [of "take p cs" "cs ! p" "drop (Suc p) cs" i ?d, folded e]
      have "mpt_command_set mal fin m a i cmd arg w = Some (0, a, m', w)"
        using nz b Some m'(1) None p(1) typed_get(1) [OF t] by (auto simp: mpt_command_set_def)
      moreover have "mset (filter active (take p cs @ ?d # drop (Suc p) cs)) =
        mset (filter active (take p cs @ cs ! p # drop (Suc p) cs)) + (if cmd = 0 then {#} else {#?d#})" using p by simp
      ultimately show ?thesis using m'(2) h u p hn ew None
        by (intro exI [of _ 0] exI [of _ a] exI [of _ m'] exI [of _ "take p cs @ ?d # drop (Suc p) cs"])
          (auto simp: e [symmetric])
    next
      case full: None
      from typed_insert [OF t nz al sz] obtain a' m1 c where i: "a' \<noteq> 0"
        "mpt_array_insert mal m a (24 * length cs) 24 = Some (Some (24 * length cs), a', m1)" "typed_cmds m1 a' (cs @ c # [])" by blast
      from typed_put [OF i(3,1) refl, of ?d] obtain m2 where
        m2: "put_command m1 a' (24 * length cs) ?d = Some m2" "typed_cmds m2 a' (cs @ [?d])" by auto
      have "mpt_command_set mal fin m a i cmd arg w = Some (1, a', m2, w)"
        using nz b full i(2) m2(1) None typed_get(1) [OF t] by (auto simp: mpt_command_set_def)
      then show ?thesis using m2(2) sn ew None
        by (intro exI [of _ 1] exI [of _ a'] exI [of _ m2] exI [of _ "cs @ [?d]"]) simp
    qed
  qed
qed

section \<open>New identifiers\<close>

text \<open>The loop of \<open>mpt_command_reserve\<close> moves the active commands to the front, in their order.\<close>

fun max_id :: "64 word \<Rightarrow> command list \<Rightarrow> 64 word" where
  "max_id mid [] = mid"
| "max_id mid (c # cs) = max_id (if cid c > mid then cid c else mid) cs"

lemma max_id_ge: "mid \<le> max_id mid cs"
  by (induction mid cs rule: max_id.induct) (auto split: if_splits intro: order.trans less_imp_le)

lemma max_id_bound: "c \<in> set cs \<Longrightarrow> cid c \<le> max_id mid cs"
proof (induction mid cs rule: max_id.induct)
  case (2 mid x cs)
  show ?case
  proof (cases "c = x")
    case True
    have "cid x \<le> (if cid x > mid then cid x else mid)" by (simp add: not_less)
    from order.trans [OF this max_id_ge] show ?thesis unfolding True max_id.simps .
  next
    case False
    with 2 show ?thesis by simp
  qed
qed simp

lemma max_id_mem: "max_id mid cs = mid \<or> max_id mid cs \<in> cid ` set cs"
  by (induction mid cs rule: max_id.induct) (auto split: if_splits)

lemma next_slot_first: "n \<noteq> 0 \<Longrightarrow> \<not> active (cs ! c) \<Longrightarrow> next_slot cs c n = c"
  by (cases n) simp_all

lemma reserve_loop_filter:
  assumes "\<forall>c \<in> set free. \<not> active c"
  shows "\<exists>free'. reserve_loop (done @ free @ rest) (length done + length free) (if free = [] then None else Some (length done)) used mid =
    (done @ filter active rest @ free', used + length (filter active rest), max_id mid rest) \<and>
    length free' + length (filter active rest) = length free + length rest"
  using assms
proof (induction rest arbitrary: "done" free used mid)
  case Nil
  then show ?case by (subst reserve_loop.simps) simp
next
  case (Cons c rest)
  let ?i = "length done + length free" and ?cs = "done @ free @ c # rest"
  let ?mid = "if cid c > mid then cid c else mid"
  have c: "?cs ! ?i = c" by (simp add: nth_append)
  show ?case
  proof (cases "active c")
    case False
    let ?f = "free @ [c]"
    have "reserve_loop ?cs ?i (if free = [] then None else Some (length done)) used mid =
        reserve_loop (done @ ?f @ rest) (length done + length ?f) (if ?f = [] then None else Some (length done)) used ?mid"
      by (subst reserve_loop.simps) (simp add: c False Let_def)
    moreover have "\<forall>x \<in> set ?f. \<not> active x" using Cons.prems False by simp
    note Cons.IH [OF this, of "done" used ?mid]
    ultimately show ?thesis using False by auto
  next
    case act: True
    show ?thesis
    proof (cases free)
      case Nil
      have "reserve_loop ?cs ?i (if free = [] then None else Some (length done)) used mid =
          reserve_loop ((done @ [c]) @ [] @ rest) (length (done @ [c]) + length ([] :: command list)) (if [] = ([] :: command list) then None else Some (length (done @ [c]))) (used + 1) ?mid"
        by (subst reserve_loop.simps) (use Nil act in \<open>simp add: nth_append Let_def\<close>)
      moreover note Cons.IH [of "[]" "done @ [c]" "used + 1" ?mid]
      ultimately show ?thesis using act Nil by auto
    next
      case (Cons x fs)
      let ?f = "fs @ [c\<lparr>ccmd := 0\<rparr>]" and ?d = "done @ [c]"
      let ?cs' = "(?cs[length done := ?cs ! ?i])[?i := (?cs ! ?i)\<lparr>ccmd := 0\<rparr>]"
      have cs': "?cs' = ?d @ ?f @ rest" unfolding c using Cons by (simp add: list_update_append)
      have ina: "\<not> active (?cs' ! (length done + 1))" unfolding cs'
      proof (cases fs)
        case (Cons y ys)
        then show "\<not> active ((?d @ ?f @ rest) ! (length done + 1))" using Cons.prems \<open>free = x # fs\<close> by (simp add: nth_append)
      qed (simp add: nth_append)
      have ns: "next_slot ?cs' (length done + 1) (?i - (length done + 1)) = length done + 1"
      proof (cases "?i - (length done + 1) = 0")
        case False
        then show ?thesis using next_slot_first ina by blast
      qed simp
      have "reserve_loop ?cs ?i (if free = [] then None else Some (length done)) used mid =
          reserve_loop (?d @ ?f @ rest) (length ?d + length ?f) (if ?f = [] then None else Some (length ?d)) (used + 1) ?mid"
        by (subst reserve_loop.simps) (use Cons act ns cs' c in \<open>simp add: Let_def\<close>)
      moreover have "\<forall>y \<in> set ?f. \<not> active y" using Cons.prems Cons by simp
      note Cons.IH [OF this, of ?d "used + 1" ?mid]
      ultimately show ?thesis using act Cons by auto
    qed
  qed
qed

lemma reserve_loop_all:
  "\<exists>free. reserve_loop cs 0 None 0 0 = (filter active cs @ free, length (filter active cs), max_id 0 cs) \<and>
    length free + length (filter active cs) = length cs"
  using reserve_loop_filter [of "[]" "[]" cs 0 0] by auto

lemma free_id_ok:
  "case free_id cs i mx of None \<Rightarrow> \<forall>k. i \<le> k \<and> k \<le> mx \<longrightarrow> mpt_command_find cs (of_nat k) \<noteq> None
   | Some k \<Rightarrow> i \<le> k \<and> k \<le> mx \<and> mpt_command_find cs (of_nat k) = None"
proof (induction cs i mx rule: free_id.induct)
  case (1 cs i mx)
  show ?case
  proof (cases "i \<le> mx \<and> mpt_command_find cs (of_nat i) \<noteq> None")
    case True
    then have e: "free_id cs i mx = free_id cs (i + 1) mx" by (subst free_id.simps) auto
    have "k = i \<or> i + 1 \<le> k" if "i \<le> k" for k using that by auto
    with 1 True show ?thesis unfolding e by (cases "free_id cs (i + 1) mx") (fastforce, fastforce)
  next
    case False
    then show ?thesis by (subst free_id.simps) auto
  qed
qed

text \<open>A private raw array, as \<open>mpt_command_reserve\<close> makes it.\<close>

definition raw_cmds :: "bmem \<Rightarrow> nat \<Rightarrow> command list \<Rightarrow> bool" where
  "raw_cmds m a cs \<longleftrightarrow> mem_ok m \<and> (if a = 0 then cs = []
     else \<exists>b. getb m a = Some b \<and> raw_ok b \<and> bref b = 1 \<and> content b = enc_cmds cs)"

lemma append_null: "mpt_array_append mal m a n None = mpt_array_append mal m a n (Some (replicate n 0))"
proof -
  have "raw_data None n = raw_data (Some (replicate n 0)) n" by (simp add: raw_data_def rd_def)
  then show ?thesis unfolding mpt_array_append_def by (simp only:)
qed

lemma raw_append:
  assumes c: "raw_cmds m a cs" "a \<noteq> 0" and al: "always_ok mal" and sz: "24 * length cs + 24 < 2 ^ 63"
  shows "\<exists>a' m' x. mpt_array_append mal m a 24 None = Some (Some (24 * length cs), a', m') \<and> a' \<noteq> 0 \<and> raw_cmds m' a' (cs @ [x])"
proof -
  from c obtain b where b: "getb m a = Some b" "raw_ok b" "bref b = 1" "content b = enc_cmds cs" "mem_ok m"
    by (auto simp: raw_cmds_def)
  have u: "bused b = 24 * length cs" using content_length [OF b(2)] b(4) by simp
  let ?x = "replicate 24 0 :: block"
  have "alloc_ok mal m" using al b(5) by (simp add: always_ok_def)
  from array_append_raw [OF b(1,2) this, of ?x] sz u b(3) obtain a' b' m' where
    r: "mpt_array_append mal m a 24 (Some ?x) = Some (Some (bused b), a', m')" "getb m' a' = Some b'" "raw_ok b'" "content b' = content b @ ?x"
      "if bsize b - bused b < 24 then bref b' = 1 \<and> private_copy m a b a' m' else a' = a \<and> bref b' = bref b \<and> m' = putb m a b'"
    by auto
  have "mem_ok m'" "bref b' = 1" using r(5) b(3,5) mem_ok_private mem_ok_putb by (auto split: if_splits)
  moreover have "enc_cmd (dec_cmd ?x) = ?x" by (rule enc_dec) simp
  ultimately have "raw_cmds m' a' (cs @ [dec_cmd ?x])" using r(2-4) b(4) getb_nonzero [OF r(2)] by (auto simp: raw_cmds_def)
  then show ?thesis using r(1) u getb_nonzero [OF r(2)] unfolding append_null by auto
qed

lemma raw_put:
  assumes "raw_cmds m a (xs @ c # ys)" "a \<noteq> 0" "n = length xs"
  shows "\<exists>m'. put_command m a (24 * n) d = Some m' \<and> raw_cmds m' a (xs @ d # ys)"
proof -
  from assms obtain b where b: "getb m a = Some b" "raw_ok b" "bref b = 1" "content b = enc_cmds xs @ enc_cmd c @ enc_cmds ys"
    and m: "mem_ok m" by (auto simp: raw_cmds_def)
  have le: "bused b \<le> bsize b" using b(2) by (simp add: raw_ok_def)
  from put_command_ok [OF b(1,4) _ _ le, of "24 * n" d] assms(3) obtain e where
    e: "put_command m a (24 * n) d = Some (putb m a (b\<lparr>bdata := e\<rparr>))" "length e = length (bdata b)"
      "content (b\<lparr>bdata := e\<rparr>) = enc_cmds xs @ enc_cmd d @ enc_cmds ys" by auto
  then show ?thesis using b m assms(2) by (auto simp: raw_cmds_def getb_putb raw_ok_def bsize_def mem_ok_putb)
qed

lemma raw_compact:
  assumes "raw_cmds m a cs" "a \<noteq> 0" "length fs + length free = length cs"
  shows "\<exists>b d. put_commands m a (fs @ free) = Some (putb m a (b\<lparr>bdata := d\<rparr>)) \<and>
    raw_cmds (putb m a (b\<lparr>bdata := d, bused := length fs * 24\<rparr>)) a fs"
proof -
  from assms obtain b where b: "getb m a = Some b" "raw_ok b" "bref b = 1" "content b = enc_cmds cs" and m: "mem_ok m"
    by (auto simp: raw_cmds_def)
  have le: "bused b \<le> bsize b" using b(2) by (simp add: raw_ok_def)
  have u: "bused b = 24 * length (fs @ free)" using content_length [OF b(2)] b(4) assms(3) by simp
  let ?d = "enc_cmds (fs @ free) @ drop (bused b) (bdata b)"
  have w: "wr (bdata b) 0 (enc_cmds (fs @ free)) = Some ?d" using u le by (simp add: wr_def bsize_def)
  have "length ?d = length (bdata b)" using u le by (simp add: bsize_def)
  moreover have "take (length fs * 24) ?d = enc_cmds fs" by simp
  ultimately show ?thesis using b m w assms(2) u le
    by (intro exI [of _ b] exI [of _ ?d]) (auto simp: put_commands_def raw_cmds_def getb_putb raw_ok_def bsize_def content_def mem_ok_putb)
qed

lemma reserve_raw:
  assumes c: "raw_cmds m a cs" "a \<noteq> 0" and al: "always_ok mal" and sz: "24 * length cs + 24 < 2 ^ 63" and n: "n \<noteq> 0"
    and id: "\<forall>c \<in> set cs. cid c \<noteq> - 1"
  shows "\<exists>r a' m' cs'. mpt_command_reserve mal lr m a n = Some (r, a', m') \<and> raw_cmds m' a' cs' \<and>
    (case r of None \<Rightarrow> cs' = filter active cs \<and> (\<forall>k. 1 \<le> k \<and> k \<le> id_max n \<longrightarrow> (\<exists>c \<in> set cs. active c \<and> cid c = of_nat k))
     | Some p \<Rightarrow> \<exists>i. cs' = filter active cs @ [\<lparr>cid = i, ccmd = lr, carg = i\<rparr>] \<and> p = 24 * length (filter active cs) \<and>
         1 \<le> unat i \<and> unat i \<le> id_max n \<and> (\<forall>c \<in> set cs. active c \<longrightarrow> cid c \<noteq> i))"
proof -
  let ?fs = "filter active cs" and ?mid = "max_id 0 cs + 1"
  from reserve_loop_all [of cs] obtain free where l: "reserve_loop cs 0 None 0 0 = (?fs @ free, length ?fs, max_id 0 cs)"
    "length free + length ?fs = length cs" by blast
  from c obtain b where b: "getb m a = Some b" "raw_ok b" "content b = enc_cmds cs" by (auto simp: raw_cmds_def)
  have cb: "commands b = cs" using commands_content(1) [OF b(3)] b(2) by (simp add: raw_ok_def)
  from raw_compact [OF c, of ?fs free] l(2) obtain b1 d where p: "put_commands m a (?fs @ free) = Some (putb m a (b1\<lparr>bdata := d\<rparr>))"
    "raw_cmds (putb m a (b1\<lparr>bdata := d, bused := length ?fs * 24\<rparr>)) a ?fs" (is "raw_cmds ?m1 _ _") by auto
  have "length ?fs \<le> length cs" by simp
  then have "24 * length ?fs + 24 < 2 ^ 63" using sz by linarith
  from raw_append [OF p(2) c(2) al this] obtain a' m2 x where
    ap: "mpt_array_append mal ?m1 a 24 None = Some (Some (24 * length ?fs), a', m2)" "a' \<noteq> 0" "raw_cmds m2 a' (?fs @ x # [])" by blast
  let ?R = "\<lambda>r a' m' cs'. mpt_command_reserve mal lr m a n = Some (r, a', m') \<and> raw_cmds m' a' cs' \<and>
    (case r of None \<Rightarrow> cs' = filter active cs \<and> (\<forall>k. 1 \<le> k \<and> k \<le> id_max n \<longrightarrow> (\<exists>c \<in> set cs. active c \<and> cid c = of_nat k))
     | Some p \<Rightarrow> \<exists>i. cs' = filter active cs @ [\<lparr>cid = i, ccmd = lr, carg = i\<rparr>] \<and> p = 24 * length (filter active cs) \<and>
         1 \<le> unat i \<and> unat i \<le> id_max n \<and> (\<forall>c \<in> set cs. active c \<longrightarrow> cid c \<noteq> i))"
  have fin: "\<exists>r a' m' cs'. ?R r a' m' cs'" if i: "1 \<le> unat i" "unat i \<le> id_max n" "\<forall>c \<in> set cs. active c \<longrightarrow> cid c \<noteq> i"
    and e: "mpt_command_reserve mal lr m a n = do { m \<leftarrow> put_command m2 a' (24 * length ?fs) \<lparr>cid = i, ccmd = lr, carg = i\<rparr>;
      Some (Some (24 * length ?fs), a', m) }" for i
  proof -
    from raw_put [OF ap(3,2) refl, of "\<lparr>cid = i, ccmd = lr, carg = i\<rparr>"] obtain m3 where
      m3: "put_command m2 a' (24 * length ?fs) \<lparr>cid = i, ccmd = lr, carg = i\<rparr> = Some m3"
        "raw_cmds m3 a' (?fs @ [\<lparr>cid = i, ccmd = lr, carg = i\<rparr>])" by auto
    have "?R (Some (24 * length ?fs)) a' m3 (?fs @ [\<lparr>cid = i, ccmd = lr, carg = i\<rparr>])" using m3 e i by auto
    then show ?thesis by blast
  qed
  have mx: "id_max n < 2 ^ 64" by (simp add: id_max_def)
  have mid: "max_id 0 cs \<noteq> - 1" using max_id_mem [of 0 cs] id by auto
  then have um: "unat ?mid = unat (max_id 0 cs) + 1" using unatSuc [of "max_id 0 cs"] by (simp add: add.commute add_eq_0_iff)
  have step: "mpt_command_reserve mal lr m a n =
      (case (if unat ?mid > id_max n then map_option of_nat (free_id ?fs 1 (id_max n)) else Some ?mid) of
         None \<Rightarrow> Some (None, a, ?m1)
       | Some i \<Rightarrow> do { m \<leftarrow> put_command m2 a' (24 * length ?fs) \<lparr>cid = i, ccmd = lr, carg = i\<rparr>; Some (Some (24 * length ?fs), a', m) })"
    using c(2) n b(1) cb l p ap(1) by (simp add: mpt_command_reserve_def getb_putb Let_def del: id_max_def split: option.split)
  show ?thesis
  proof (cases "unat ?mid > id_max n")
    case False
    have "1 \<le> unat ?mid" "unat ?mid \<le> id_max n" using um False by simp_all
    moreover have "cid c \<noteq> ?mid" if "c \<in> set cs" for c
      using max_id_bound [OF that, of 0] um by (auto simp: word_le_nat_alt)
    ultimately show ?thesis by (intro fin [of ?mid]) (use step False in auto)
  next
    case True
    show ?thesis
    proof (cases "free_id ?fs 1 (id_max n)")
      case None
      then have "\<forall>k. 1 \<le> k \<and> k \<le> id_max n \<longrightarrow> mpt_command_find ?fs (of_nat k) \<noteq> None" using free_id_ok [where cs = ?fs and i = 1 and mx = "id_max n"] by simp
      then have "\<forall>k. 1 \<le> k \<and> k \<le> id_max n \<longrightarrow> (\<exists>c \<in> set cs. active c \<and> cid c = of_nat k)" unfolding find_None by auto
      then have "?R None a ?m1 ?fs" using step True None p(2) by auto
      then show ?thesis by blast
    next
      case (Some k)
      then have k: "1 \<le> k" "k \<le> id_max n" "mpt_command_find ?fs (of_nat k) = None" using free_id_ok [where cs = ?fs and i = 1 and mx = "id_max n"] by simp_all
      have "unat (of_nat k :: 64 word) = k" using k(2) mx by (simp add: unat_of_nat)
      moreover have "\<forall>c \<in> set cs. active c \<longrightarrow> cid c \<noteq> of_nat k" using k(3) by (simp add: find_None)
      ultimately show ?thesis using k(1,2) by (intro fin [of "of_nat k"]) (use step True Some in auto)
    qed
  qed
qed

text \<open>On an array of a dispatcher, which is typed, the request of room is always refused.\<close>

lemma reserve_typed_fails:
  assumes t: "typed_cmds m a cs" "a \<noteq> 0"
  shows "\<exists>m'. mpt_command_reserve mal lr m a n = Some (None, a, m')"
proof -
  from t obtain b where b: "getb m a = Some b" "btraits b = Some mpt_command_traits" "bused b \<le> bsize b" "content b = enc_cmds cs"
    by (auto simp: typed_cmds_def)
  from reserve_loop_all [of cs] obtain free where l: "reserve_loop cs 0 None 0 0 = (filter active cs @ free, length (filter active cs), max_id 0 cs)"
    "length free + length (filter active cs) = length cs" by blast
  have cb: "commands b = cs" "bused b = 24 * length cs" using commands_content [OF b(4,3)] by auto
  then have "24 * length (filter active cs @ free) \<le> length (bdata b)" using l(2) b(3) by (simp add: bsize_def)
  then obtain d where d: "wr (bdata b) 0 (enc_cmds (filter active cs @ free)) = Some d" by (simp add: wr_def)
  have "\<exists>d. put_commands m a (filter active cs @ free) = Some (putb m a (b\<lparr>bdata := d\<rparr>))"
    using b(1) d by (intro exI [of _ d]) (simp add: put_commands_def)
  then show ?thesis using t(2) b(1,2) cb(1) l(1)
    by (auto simp: mpt_command_reserve_def mpt_array_append_def getb_putb Let_def split: option.split)
qed

section \<open>Registrations\<close>

text \<open>A dispatcher registers, replaces and removes handlers and clears all of them; the environment records
  the calls that end a registration.\<close>

datatype cmdop = SetCommand "64 word" "64 word" "64 word" | ClearCommands

definition log_fini :: "command \<Rightarrow> command list \<Rightarrow> command list" where
  "log_fini c log = log @ [c]"

fun cmd_step :: "malloc \<Rightarrow> cmdop \<Rightarrow> nat \<times> bmem \<times> command list \<Rightarrow> (nat \<times> bmem \<times> command list) option" where
  "cmd_step mal (SetCommand i cmd arg) (a, m, log) = do {
     (r, a, m, log) \<leftarrow> mpt_command_set mal log_fini m a i cmd arg log;
     if r < 0 then None else Some (a, m, log) }"
| "cmd_step mal ClearCommands (a, m, log) = do { (m, log) \<leftarrow> mpt_command_clear log_fini m a log; Some (a, m, log) }"

fun cmd_run :: "malloc \<Rightarrow> cmdop list \<Rightarrow> nat \<times> bmem \<times> command list \<Rightarrow> (nat \<times> bmem \<times> command list) option" where
  "cmd_run mal [] s = Some s"
| "cmd_run mal (x # xs) s = do { s \<leftarrow> cmd_step mal x s; cmd_run mal xs s }"

fun abs_step :: "cmdop \<Rightarrow> (64 word \<rightharpoonup> 64 word \<times> 64 word) \<Rightarrow> 64 word \<rightharpoonup> 64 word \<times> 64 word" where
  "abs_step (SetCommand i cmd arg) h = h(i := if cmd = 0 then None else Some (cmd, arg))"
| "abs_step ClearCommands h = Map.empty"

fun registered :: "cmdop \<Rightarrow> command list" where
  "registered (SetCommand i cmd arg) = (if cmd = 0 then [] else [\<lparr>cid = i, ccmd = cmd, carg = arg\<rparr>])"
| "registered ClearCommands = []"

lemma fold_fini: "fold (command_fini log_fini) cs log = log @ filter active cs"
  by (induction cs arbitrary: log) (simp_all add: command_fini_def log_fini_def)

lemma typed_clear:
  assumes "typed_cmds m a cs"
  shows "\<exists>m'. mpt_command_clear fin m a w = Some (m', fold (command_fini fin) cs w) \<and> typed_cmds m' a []"
proof (cases "a = 0")
  case True
  then have "cs = []" using assms by (simp add: typed_cmds_def)
  with True show ?thesis using assms by (simp add: mpt_command_clear_def)
next
  case False
  with assms obtain b where b: "getb m a = Some b" "btraits b = Some mpt_command_traits" "bref b = 1" "bflags b = BufferNoCopy"
    "bsize b < 2 ^ 64" "mem_ok m" by (auto simp: typed_cmds_def)
  with typed_get(2) [OF assms False] have c: "commands b = cs" by simp
  have "typed_cmds (putb m a (b\<lparr>bused := 0\<rparr>)) a []"
    using b False by (simp add: typed_cmds_def getb_putb mem_ok_putb content_def bsize_def)
  then show ?thesis using False b(1) c by (simp add: mpt_command_clear_def)
qed

lemma cmd_run_typed:
  assumes al: "always_ok mal"
  shows "typed_cmds m a cs \<Longrightarrow> unique_ids cs \<Longrightarrow> 24 * (length cs + length ops) < 2 ^ 63 \<Longrightarrow>
    \<exists>a' m' log' cs'. cmd_run mal ops (a, m, log) = Some (a', m', log') \<and> typed_cmds m' a' cs' \<and> unique_ids cs' \<and>
      handlers cs' = fold abs_step ops (handlers cs) \<and>
      mset log' + mset (filter active cs') = mset log + mset (filter active cs) + mset (concat (map registered ops))"
proof (induction ops arbitrary: m a cs log)
  case (Cons x ops)
  have step: "\<exists>a1 m1 log1 cs1. cmd_step mal x (a, m, log) = Some (a1, m1, log1) \<and> typed_cmds m1 a1 cs1 \<and> unique_ids cs1 \<and>
      handlers cs1 = abs_step x (handlers cs) \<and> length cs1 \<le> length cs + 1 \<and>
      mset log1 + mset (filter active cs1) = mset log + mset (filter active cs) + mset (registered x)"
  proof (cases x)
    case (SetCommand i cmd arg)
    have sz: "24 * length cs + 24 < 2 ^ 63" using Cons.prems(3) by simp
    from command_set_typed [OF Cons.prems(1,2) al sz, of log_fini i cmd arg log] obtain r a1 m1 cs1 where
      s: "mpt_command_set mal log_fini m a i cmd arg log = Some (r, a1, m1, end_handler log_fini cs i log)" "0 \<le> r"
        "typed_cmds m1 a1 cs1" "unique_ids cs1" "handlers cs1 = (handlers cs)(i := if cmd = 0 then None else Some (cmd, arg))"
        "length cs1 \<le> length cs + 1"
        "mset (filter active cs1) + (case mpt_command_find cs i of None \<Rightarrow> {#} | Some p \<Rightarrow> {#cs ! p#}) =
          mset (filter active cs) + (if cmd = 0 then {#} else {#\<lparr>cid = i, ccmd = cmd, carg = arg\<rparr>#})" by blast
    have "mset (end_handler log_fini cs i log) = mset log + (case mpt_command_find cs i of None \<Rightarrow> {#} | Some p \<Rightarrow> {#cs ! p#})"
      by (simp add: end_handler_def log_fini_def split: option.splits)
    with s(7) have "mset (end_handler log_fini cs i log) + mset (filter active cs1) =
        mset log + mset (filter active cs) + mset (registered x)"
      by (simp add: SetCommand ac_simps)
    with s SetCommand show ?thesis by auto
  next
    case ClearCommands
    from typed_clear [OF Cons.prems(1), of log_fini log] obtain m1 where
      "mpt_command_clear log_fini m a log = Some (m1, log @ filter active cs)" "typed_cmds m1 a []" by (auto simp: fold_fini)
    with ClearCommands show ?thesis by (auto simp: unique_ids_def intro!: exI [of _ "[]"])
  qed
  then obtain a1 m1 log1 cs1 where s: "cmd_step mal x (a, m, log) = Some (a1, m1, log1)" "typed_cmds m1 a1 cs1" "unique_ids cs1"
      "handlers cs1 = abs_step x (handlers cs)" "length cs1 \<le> length cs + 1"
      "mset log1 + mset (filter active cs1) = mset log + mset (filter active cs) + mset (registered x)" by blast
  have "24 * (length cs1 + length ops) < 2 ^ 63" using Cons.prems(3) s(5) by simp
  from Cons.IH [OF s(2,3) this, of log1] obtain a' m' log' cs' where
    r: "cmd_run mal ops (a1, m1, log1) = Some (a', m', log')" "typed_cmds m' a' cs'" "unique_ids cs'"
      "handlers cs' = fold abs_step ops (handlers cs1)"
      "mset log' + mset (filter active cs') = mset log1 + mset (filter active cs1) + mset (concat (map registered ops))" by blast
  have "mset log' + mset (filter active cs') = mset log + mset (filter active cs) + mset (concat (map registered (x # ops)))"
    unfolding r(5) s(6) by simp
  moreover have "handlers cs' = fold abs_step (x # ops) (handlers cs)" using r(4) s(4) by simp
  moreover have "cmd_run mal (x # ops) (a, m, log) = Some (a', m', log')" using s(1) r(1) by simp
  ultimately show ?case using r(2,3) by blast
qed auto

text \<open>Property C11: every sequence of registrations, replacements, removals and clearing of commands, starting
  without an array, succeeds and acts on a finite map from identifiers to handlers, which
  \<open>mpt_command_get\<close> searches; every handler that was registered is either still in the map or its end
  was reported by exactly one call.\<close>

theorem commands_refine_map:
  assumes "always_ok mal" and "mem_ok m" and "length ops < 2 ^ 58"
  shows "\<exists>a' m' log cs. cmd_run mal ops (0, m, []) = Some (a', m', log) \<and>
    (\<forall>i. mpt_command_get m' a' i = Some (mpt_command_find cs i)) \<and> unique_ids cs \<and>
    handlers cs = fold abs_step ops Map.empty \<and>
    mset log + mset (filter active cs) = mset (concat (map registered ops))"
proof -
  have "typed_cmds m 0 []" "unique_ids []" using assms(2) by (simp_all add: typed_cmds_def unique_ids_def)
  moreover have "24 * (length ([] :: command list) + length ops) < 2 ^ 63" using assms(3) by simp
  ultimately show ?thesis using cmd_run_typed [OF assms(1), of m 0 "[]" ops "[]"] typed_get(1) by fastforce
qed

theorem commands_refine_map_witness:
  "\<exists>a' m' log cs. cmd_run first_fit [SetCommand 4 7 1, SetCommand 5 8 2, SetCommand 4 9 3, SetCommand 5 0 0, SetCommand 6 7 4]
      (0, bmem_init, []) = Some (a', m', log) \<and>
    (\<forall>i. mpt_command_get m' a' i = Some (mpt_command_find cs i)) \<and> unique_ids cs \<and>
    handlers cs = [4 \<mapsto> (9, 3), 6 \<mapsto> (7, 4)] \<and>
    mset log + mset (filter active cs) = {#\<lparr>cid = 4, ccmd = 7, carg = 1\<rparr>, \<lparr>cid = 5, ccmd = 8, carg = 2\<rparr>,
      \<lparr>cid = 4, ccmd = 9, carg = 3\<rparr>, \<lparr>cid = 6, ccmd = 7, carg = 4\<rparr>#}"
proof -
  let ?ops = "[SetCommand 4 7 1, SetCommand 5 8 2, SetCommand 4 9 3, SetCommand 5 0 0, SetCommand 6 7 4]"
  have "fold abs_step ?ops Map.empty = [4 \<mapsto> (9, 3), 6 \<mapsto> (7, 4)]" by (simp add: fun_eq_iff)
  with commands_refine_map [OF first_fit_ok bmem_init_ok, of ?ops] show ?thesis by simp
qed

text \<open>Property C37: a reservation in an existing array of raw command data, for identifiers of at least one byte, keeps the
  active commands in their order and appends one with an identifier that no active command has, between 1
  and the maximum for the size of identifiers; it is refused only if every identifier of this range is in
  use.  Two cases are outside of it: the arrays of dispatchers, which have a content type, refuse every reservation
  (\<open>reserve_typed_fails\<close>), and a command (active or not) with the highest identifier of all, whose
  successor is zero (command_reserve.c:139).  The allocator always succeeds here.\<close>

theorem command_reserve_fresh:
  assumes "raw_cmds m a cs" and "a \<noteq> 0" and "always_ok mal" and "24 * length cs + 24 < 2 ^ 63" and "n \<noteq> 0"
    and "\<forall>c \<in> set cs. cid c \<noteq> - 1"
  shows "\<exists>r a' m' cs'. mpt_command_reserve mal lr m a n = Some (r, a', m') \<and> raw_cmds m' a' cs' \<and>
    (case r of None \<Rightarrow> cs' = filter active cs \<and> (\<forall>k. 1 \<le> k \<and> k \<le> id_max n \<longrightarrow> (\<exists>c \<in> set cs. active c \<and> cid c = of_nat k))
     | Some p \<Rightarrow> \<exists>i. cs' = filter active cs @ [\<lparr>cid = i, ccmd = lr, carg = i\<rparr>] \<and> p = 24 * length (filter active cs) \<and>
         1 \<le> unat i \<and> unat i \<le> id_max n \<and> (\<forall>c \<in> set cs. active c \<longrightarrow> cid c \<noteq> i))"
  using reserve_raw [OF assms] .

text \<open>The highest identifier is in use, the place of a removed command and the next identifier are free.\<close>

definition cmds1 :: "command list" where
  "cmds1 = [\<lparr>cid = 127, ccmd = 5, carg = 5\<rparr>, \<lparr>cid = 2, ccmd = 0, carg = 0\<rparr>, \<lparr>cid = 1, ccmd = 9, carg = 9\<rparr>]"

definition bmem_cmds1 :: bmem where
  "bmem_cmds1 = putb bmem_init 1 \<lparr>bref = 1, bflags = 0, btraits = None, bused = 72, bdata = enc_cmds cmds1\<rparr>"

theorem command_reserve_fresh_witness:
  "\<exists>a' m' i. mpt_command_reserve first_fit 7 bmem_cmds1 1 1 = Some (Some 48, a', m') \<and> i \<noteq> 127 \<and> i \<noteq> 1 \<and> 1 \<le> unat i \<and> unat i \<le> 127 \<and>
    raw_cmds m' a' [\<lparr>cid = 127, ccmd = 5, carg = 5\<rparr>, \<lparr>cid = 1, ccmd = 9, carg = 9\<rparr>, \<lparr>cid = i, ccmd = 7, carg = i\<rparr>]"
proof -
  have r: "raw_cmds bmem_cmds1 1 cmds1"
    by (simp add: raw_cmds_def bmem_cmds1_def mem_ok_putb bmem_init_ok getb_putb raw_ok_def bsize_def content_def cmds1_def)
  have f: "filter active cmds1 = [\<lparr>cid = 127, ccmd = 5, carg = 5\<rparr>, \<lparr>cid = 1, ccmd = 9, carg = 9\<rparr>]" by (simp add: cmds1_def)
  have x: "id_max 1 = 127" by (simp add: id_max_def)
  have i: "\<forall>c \<in> set cmds1. cid c \<noteq> - 1" by (simp add: cmds1_def)
  have l: "24 * length cmds1 + 24 < 2 ^ 63" by (simp add: cmds1_def)
  have "(1 :: nat) \<noteq> 0" by simp
  from command_reserve_fresh [OF r this first_fit_ok l this i, of 7] obtain q a' m' cs' where
    q: "mpt_command_reserve first_fit 7 bmem_cmds1 1 1 = Some (q, a', m')" "raw_cmds m' a' cs'"
      "case q of None \<Rightarrow> cs' = filter active cmds1 \<and> (\<forall>k. 1 \<le> k \<and> k \<le> id_max 1 \<longrightarrow> (\<exists>c \<in> set cmds1. active c \<and> cid c = of_nat k))
       | Some p \<Rightarrow> \<exists>i. cs' = filter active cmds1 @ [\<lparr>cid = i, ccmd = 7, carg = i\<rparr>] \<and> p = 24 * length (filter active cmds1) \<and>
         1 \<le> unat i \<and> unat i \<le> id_max 1 \<and> (\<forall>c \<in> set cmds1. active c \<longrightarrow> cid c \<noteq> i)" by blast
  have "q \<noteq> None"
  proof
    assume "q = None"
    then have "\<forall>k. 1 \<le> k \<and> k \<le> id_max 1 \<longrightarrow> (\<exists>c \<in> set cmds1. active c \<and> cid c = of_nat k)" using q(3) by simp
    from this [rule_format, of 2] show False using x by (auto simp: cmds1_def)
  qed
  then obtain p where p: "q = Some p" by blast
  then obtain i where i: "cs' = filter active cmds1 @ [\<lparr>cid = i, ccmd = 7, carg = i\<rparr>]" "p = 24 * length (filter active cmds1)"
    "1 \<le> unat i" "unat i \<le> id_max 1" "\<forall>c \<in> set cmds1. active c \<longrightarrow> cid c \<noteq> i" using q(3) by auto
  have "i \<noteq> 127" "i \<noteq> 1" using i(5) by (auto simp: cmds1_def)
  then show ?thesis using q(1,2) p i(1-4) f x by auto
qed

end
