(* ===== verification/Dispatch.thy ===== *)
theory Dispatch
  imports Command Message
begin

text \<open>
  Hash functions (\<open>mptcore/misc/hash.c\<close>, \<open>hash_djb2.c\<close>, \<open>hash_smdb.c\<close>) and the dispatch of events:
  \<open>mptcore/event/\<close> (\<open>dispatch_finit.c\<close>, \<open>dispatch_set.c\<close>, \<open>dispatch_emit.c\<close>, \<open>dispatch_hash.c\<close>,
  \<open>context_reply.c\<close>).

  Handlers, their arguments and reply contexts are addresses, 0 is the null pointer.  What they do is a
  parameter: \<open>call h a ev s\<close> is the call of the handler \<open>h\<close> with an event, which may change the event, the
  dispatcher, the buffers and the environment; \<open>fin h a w\<close> the call without an event; \<open>send rc msg w\<close> the
  transmission of a reply; \<open>conv mt\<close> the reply context a metatype offers.  Output to the log is left out.
\<close>

unbundle bit_operations_syntax

section \<open>Hash functions\<close>

text \<open>Characters are signed.\<close>

definition djb2_step :: "64 word \<Rightarrow> byte \<Rightarrow> 64 word" where
  "djb2_step hash c = hash * 33 XOR scast c"

definition smdb_step :: "64 word \<Rightarrow> byte \<Rightarrow> 64 word" where
  "smdb_step hash c = hash * 65599 + scast c"

text \<open>The loops: up to a zero byte for a negative length, else over \<open>len\<close> bytes.\<close>

fun hash_text :: "(64 word \<Rightarrow> byte \<Rightarrow> 64 word) \<Rightarrow> 64 word \<Rightarrow> block \<Rightarrow> 64 word option" where
  "hash_text f hash [] = None"
| "hash_text f hash (c # cs) = (if c = 0 then Some hash else hash_text f (f hash c) cs)"

fun hash_data :: "(64 word \<Rightarrow> byte \<Rightarrow> 64 word) \<Rightarrow> 64 word \<Rightarrow> block \<Rightarrow> nat \<Rightarrow> 64 word option" where
  "hash_data f hash cs 0 = Some hash"
| "hash_data f hash [] (Suc n) = None"
| "hash_data f hash (c # cs) (Suc n) = hash_data f (f hash c) cs n"

definition mpt_hash_djb2 :: "block option \<Rightarrow> int \<Rightarrow> 64 word option" where
  "mpt_hash_djb2 data len = (case data of None \<Rightarrow> Some 0
     | Some str \<Rightarrow> if len < 0 then hash_text djb2_step 5381 str else hash_data djb2_step 5381 str (nat len))"

definition mpt_hash_smdb :: "block option \<Rightarrow> int \<Rightarrow> 64 word option" where
  "mpt_hash_smdb data len = (case data of None \<Rightarrow> Some 0
     | Some str \<Rightarrow> if len < 0 then hash_text smdb_step 0 str else hash_data smdb_step 0 str (nat len))"

text \<open>The function in use is a static variable.\<close>

datatype hashfcn = Djb2 | Smdb

definition hash_call :: "hashfcn \<Rightarrow> block option \<Rightarrow> int \<Rightarrow> 64 word option" where
  "hash_call f = (case f of Djb2 \<Rightarrow> mpt_hash_djb2 | Smdb \<Rightarrow> mpt_hash_smdb)"

definition mpt_hash :: "hashfcn option \<Rightarrow> block option \<Rightarrow> int \<Rightarrow> (64 word \<times> hashfcn option) option" where
  "mpt_hash fcn str len =
     (let f = (case fcn of None \<Rightarrow> Djb2 | Some f \<Rightarrow> f) in do { v \<leftarrow> hash_call f str len; Some (v, Some f) })"

text \<open>Names are compared without case; \<open>strcasecmp\<close> is true for different names.\<close>

definition strcasecmp_ne :: "block \<Rightarrow> string \<Rightarrow> bool" where
  "strcasecmp_ne s t \<longleftrightarrow> map (\<lambda>c. tolower (uint c)) s \<noteq> map of_char t"

definition mpt_hash_set :: "hashfcn option \<Rightarrow> block option \<Rightarrow> int \<times> hashfcn option" where
  "mpt_hash_set fcn type =
     (if fcn \<noteq> None then (BadOperation, fcn)
      else if (case type of None \<Rightarrow> True | Some t \<Rightarrow> t = [] \<or> strcasecmp_ne t ''djb2'') then (0, Some Djb2)
      else if \<not> strcasecmp_ne (the type) ''smdb'' then (1, Some Smdb)
      else (BadArgument, fcn))"

text \<open>The first comparison lacks a negation: every name but \<open>djb2\<close> selects this function, and it is the only
  one that is refused.\<close>

lemma hash_set_inverted:
  "snd (mpt_hash_set None type) = (if \<exists>t. type = Some t \<and> \<not> strcasecmp_ne t ''djb2'' then None else Some Djb2)"
  by (auto simp: mpt_hash_set_def strcasecmp_ne_def split: option.splits)

section \<open>Replies\<close>

definition ascii :: "string \<Rightarrow> block" where
  "ascii s = map of_char s"

fun hex_digits :: "nat \<Rightarrow> block" where
  "hex_digits n = (if n < 16 then [] else hex_digits (n div 16)) @
     [of_nat (if n mod 16 < 10 then 48 + n mod 16 else 87 + n mod 16)]"

declare hex_digits.simps [simp del]

abbreviation (input) MessageAnswer :: byte where "MessageAnswer \<equiv> 0x01"
abbreviation (input) MessageCommand :: byte where "MessageCommand \<equiv> 0x04"

text \<open>The formatted text, in a buffer of 256 bytes; without a context it is printed.\<close>

definition mpt_context_reply ::
  "(64 word \<Rightarrow> message \<Rightarrow> 'w \<Rightarrow> int \<times> 'w) \<Rightarrow> 64 word \<Rightarrow> int \<Rightarrow> block option \<Rightarrow> 'w \<Rightarrow> int \<times> 'w" where
  "mpt_context_reply send rc code txt w =
     (if code < - 128 \<or> code > 127 then (BadArgument, w)
      else if rc = 0 then (if txt = None then 0 else 1, w)
      else let cont = (case txt of None \<Rightarrow> [] | Some t \<Rightarrow>
                 if t = [] then [] else if length t < 256 then [t] else [take 255 t @ [0]]);
               (ret, w) = send rc \<lparr>mbase = [MessageAnswer, word_of_int code], mcont = cont\<rparr> w in
        (if ret < 0 then ret else 0, w))"

section \<open>Dispatch\<close>

record event =
  ereply :: "64 word"
  emsg :: "message option"
  eid :: "64 word"

record dispatch =
  darr :: nat
  ddef :: "64 word"
  derr :: "64 word"
  derrarg :: "64 word"
  dctx :: "64 word"

abbreviation (input) EventDefault :: int where "EventDefault \<equiv> 0x1"
abbreviation (input) EventFail :: int where "EventFail \<equiv> 0x2"

text \<open>The message and the identifier of a formatted reply.\<close>

definition id_text :: "string \<Rightarrow> 64 word \<Rightarrow> block option" where
  "id_text s i = Some (ascii s @ ascii '': '' @ hex_digits (unat i))"

definition event_fail ::
  "(64 word \<Rightarrow> message \<Rightarrow> 'w \<Rightarrow> int \<times> 'w) \<Rightarrow> event \<Rightarrow> int \<Rightarrow> string \<Rightarrow> 'w \<Rightarrow> int \<times> event \<times> 'w" where
  "event_fail send ev code txt w =
     (let (_, w) = mpt_context_reply send (ereply ev) code (Some (ascii txt)) w in (3, ev\<lparr>eid := 0\<rparr>, w))"

text \<open>The first byte of a message.\<close>

definition first_byte :: "message \<Rightarrow> byte option option" where
  "first_byte msg = do {
     (n, _, d) \<leftarrow> mpt_message_read msg 1 (Some ([0], 0));
     Some (if n < 1 then None else map_option (\<lambda>(b, _). hd b) d) }"

text \<open>The default handler for unknown identifiers.\<close>

definition unknownEvent ::
  "(64 word \<Rightarrow> message \<Rightarrow> 'w \<Rightarrow> int \<times> 'w) \<Rightarrow> event \<Rightarrow> 'w \<Rightarrow> (int \<times> event \<times> 'w) option" where
  "unknownEvent send ev w =
     (let reply = (\<lambda>code txt w. if ereply ev \<noteq> 0 then snd (mpt_context_reply send (ereply ev) code txt w) else w) in
      if eid ev \<noteq> 0 then Some (3, ev\<lparr>eid := 0\<rparr>, reply BadArgument (id_text ''invalid command'' (eid ev)) w)
      else case emsg ev of
        None \<Rightarrow> Some (3, ev, reply MissingData (Some (ascii ''message required'')) w)
      | Some msg \<Rightarrow> do {
          c \<leftarrow> first_byte msg;
          case c of None \<Rightarrow> Some (0, ev, w)
          | Some c \<Rightarrow> Some (EventFail, ev, reply BadOperation
              (Some (ascii ''unable to process message type: '' @ (if unat c < 16 then [48] else []) @ hex_digits (unat c))) w) })"

definition mpt_dispatch_init :: "64 word \<Rightarrow> dispatch" where
  "mpt_dispatch_init unknown = \<lparr>darr = 0, ddef = 0, derr = unknown, derrarg = 0, dctx = 0\<rparr>"

text \<open>The release of the metatype with the reply context is a parameter.\<close>

definition mpt_dispatch_fini ::
  "(64 word \<Rightarrow> 64 word \<Rightarrow> 'w \<Rightarrow> 'w) \<Rightarrow> (64 word \<Rightarrow> 'w \<Rightarrow> 'w) \<Rightarrow> dispatch \<Rightarrow> bmem \<Rightarrow> 'w \<Rightarrow> (dispatch \<times> bmem \<times> 'w) option" where
  "mpt_dispatch_fini fin unref disp m w = do {
     let disp = disp\<lparr>ddef := 0\<rparr>;
     (m, w) \<leftarrow> mpt_command_clear (\<lambda>c. fin (ccmd c) (carg c)) m (darr disp) w;
     (_, a, m) \<leftarrow> mpt_array_clone m (darr disp) None;
     let w = (if derr disp \<noteq> 0 then fin (derr disp) (derrarg disp) w else w);
     let disp = (if derr disp \<noteq> 0 then disp\<lparr>darr := a, derr := 0, derrarg := 0\<rparr> else disp\<lparr>darr := a\<rparr>);
     Some (disp\<lparr>dctx := 0\<rparr>, m, if dctx disp \<noteq> 0 then unref (dctx disp) w else w) }"

definition mpt_dispatch_set ::
  "malloc \<Rightarrow> (64 word \<Rightarrow> 64 word \<Rightarrow> 'w \<Rightarrow> 'w) \<Rightarrow> dispatch \<Rightarrow> bmem \<Rightarrow> 64 word \<Rightarrow> 64 word \<Rightarrow> 64 word \<Rightarrow> 'w
    \<Rightarrow> (int \<times> dispatch \<times> bmem \<times> 'w) option" where
  "mpt_dispatch_set mal fin disp m i cmd arg w = do {
     dst \<leftarrow> mpt_command_get m (darr disp) i;
     if cmd = 0 then
       (case dst of None \<Rightarrow> Some (BadArgument, disp, m, w)
        | Some p \<Rightarrow> do {
            b \<leftarrow> getb m (darr disp);
            let c = commands b ! p;
            let w = fin (ccmd c) (carg c) w;
            m \<leftarrow> put_command m (darr disp) (CMDSIZE * p) (c\<lparr>ccmd := 0, carg := 0\<rparr>);
            Some (int p, disp, m, w) })
     else if dst \<noteq> None then Some (BadArgument, disp, m, w)
     else do {
       (r, a, m, w) \<leftarrow> mpt_command_set mal (\<lambda>c. fin (ccmd c) (carg c)) m (darr disp) i cmd arg w;
       Some (r, disp\<lparr>darr := a\<rparr>, m, w) } }"

text \<open>The first part of \<open>mpt_dispatch_emit\<close>: the event with its identifier and the command for it, or the
  result of the function with the new default command.\<close>

definition emit_command ::
  "dispatch \<Rightarrow> bmem \<Rightarrow> event option \<Rightarrow> ((int \<times> dispatch) + (command option \<times> event)) option" where
  "emit_command disp m ev =
     (let get = (\<lambda>i. do {
            p \<leftarrow> mpt_command_get m (darr disp) i;
            case p of None \<Rightarrow> Some None | Some p \<Rightarrow> do { b \<leftarrow> getb m (darr disp); Some (Some (commands b ! p)) } }) in
      case ev of
        None \<Rightarrow>
          if ddef disp = 0 then Some (Inl (0, disp))
          else do {
            c \<leftarrow> get (ddef disp);
            Some (if c = None then Inl (BadValue, disp\<lparr>ddef := 0\<rparr>)
              else Inr (c, \<lparr>ereply = 0, emsg = None, eid = ddef disp\<rparr>)) }
      | Some ev \<Rightarrow>
          (case emsg ev of
             None \<Rightarrow> do { c \<leftarrow> get (eid ev); Some (Inr (c, ev)) }
           | Some msg \<Rightarrow> do {
               b \<leftarrow> first_byte msg;
               case b of None \<Rightarrow> Some (Inl (- 2, disp))
               | Some b \<Rightarrow> do { c \<leftarrow> get (ucast b); Some (Inr (c, ev\<lparr>eid := ucast b\<rparr>)) } }))"

text \<open>The last part: the reply to a failure and the default command.\<close>

definition emit_done ::
  "(64 word \<Rightarrow> message \<Rightarrow> 'w \<Rightarrow> int \<times> 'w) \<Rightarrow> int \<Rightarrow> event \<Rightarrow> dispatch \<Rightarrow> 'w \<Rightarrow> int \<times> dispatch \<times> 'w" where
  "emit_done send state ev disp w =
     (if state < 0 then
        (state, disp, snd (mpt_context_reply send (ereply ev) state (id_text ''command execution failed'' (eid ev)) w))
      else let (state, disp) = (if state AND EventDefault \<noteq> 0 then (state AND NOT EventDefault, disp\<lparr>ddef := eid ev\<rparr>) else (state, disp)) in
        (if ddef disp \<noteq> 0 then state OR EventDefault else state, disp, w))"

definition mpt_dispatch_emit ::
  "(64 word \<Rightarrow> 64 word \<Rightarrow> event \<Rightarrow> dispatch \<times> bmem \<times> 'w \<Rightarrow> (int \<times> event \<times> dispatch \<times> bmem \<times> 'w) option) \<Rightarrow>
   (64 word \<Rightarrow> message \<Rightarrow> 'w \<Rightarrow> int \<times> 'w) \<Rightarrow> (64 word \<Rightarrow> 64 word) \<Rightarrow>
   dispatch \<Rightarrow> bmem \<Rightarrow> event option \<Rightarrow> 'w \<Rightarrow> (int \<times> event option \<times> dispatch \<times> bmem \<times> 'w) option" where
  "mpt_dispatch_emit call send conv disp m ev w = do {
     r \<leftarrow> emit_command disp m ev;
     case r of Inl (r, disp) \<Rightarrow> Some (r, ev, disp, m, w)
     | Inr (cmd, e) \<Rightarrow>
         let e = (if ereply e = 0 \<and> dctx disp \<noteq> 0 then e\<lparr>ereply := conv (dctx disp)\<rparr> else e);
             back = (\<lambda>e. map_option (\<lambda>_. e) ev) in
         if cmd = None \<and> derr disp = 0 then
           Some (BadArgument, back e, disp, m,
             snd (mpt_context_reply send (ereply e) BadType (id_text ''unknown command'' (eid e)) w))
         else do {
           (state, e, disp, m, w) \<leftarrow> (case cmd of
              Some c \<Rightarrow> call (ccmd c) (carg c) e (disp, m, w)
            | None \<Rightarrow> call (derr disp) (derrarg disp) e (disp, m, w));
           let (r, disp, w) = emit_done send state e disp w;
           Some (r, back e, disp, m, w) } }"

text \<open>The handler of a dispatcher that is bound to a notifier: the end of the notifier closes the dispatcher,
  an event without a message is the request of the default command.\<close>

definition dispatchEvent ::
  "(64 word \<Rightarrow> 64 word \<Rightarrow> event \<Rightarrow> dispatch \<times> bmem \<times> 'w \<Rightarrow> (int \<times> event \<times> dispatch \<times> bmem \<times> 'w) option) \<Rightarrow>
   (64 word \<Rightarrow> message \<Rightarrow> 'w \<Rightarrow> int \<times> 'w) \<Rightarrow> (64 word \<Rightarrow> 64 word) \<Rightarrow> (64 word \<Rightarrow> 64 word \<Rightarrow> 'w \<Rightarrow> 'w) \<Rightarrow> (64 word \<Rightarrow> 'w \<Rightarrow> 'w) \<Rightarrow>
   dispatch \<Rightarrow> bmem \<Rightarrow> event option \<Rightarrow> 'w \<Rightarrow> (int \<times> event option \<times> dispatch \<times> bmem \<times> 'w) option" where
  "dispatchEvent call send conv fin unref disp m ev w =
     (case ev of
        None \<Rightarrow> do { (disp, m, w) \<leftarrow> mpt_dispatch_fini fin unref disp m w; Some (0, None, disp, m, w) }
      | Some e \<Rightarrow>
          if eid e \<noteq> 0 then Some (if ddef disp \<noteq> 0 then EventDefault else 0, ev, disp, m, w)
          else if emsg e = None then do { (r, _, s) \<leftarrow> mpt_dispatch_emit call send conv disp m None w; Some (r, ev, s) }
          else mpt_dispatch_emit call send conv disp m ev w)"

text \<open>The identifier of a text command: the hash of the argument, in place or copied to a buffer of 128 bytes;
  \<open>Inl\<close> is the error code and text.\<close>

definition text_id :: "hashfcn option \<Rightarrow> message \<Rightarrow> ((int \<times> string) + (64 word \<times> hashfcn option)) option" where
  "text_id fcn msg = do {
     (n, msg, d) \<leftarrow> mpt_message_read msg 2 (Some ([0, 0], 0));
     if n < 2 then Some (Inl (MissingData, if n \<noteq> 0 then ''missing message type'' else ''missing message header''))
     else do {
       mt \<leftarrow> map_option fst d;
       let arg = (if hd mt = MessageCommand then sint (mt ! 1) else 0);
       (len, msg) \<leftarrow> mpt_message_argv msg arg;
       if len \<le> 0 then Some (Inl (len, ''unable to get text command''))
       else if int (length (mbase msg)) \<ge> len then do {
         c \<leftarrow> rd (mbase msg) (nat len - 1) 1;
         r \<leftarrow> mpt_hash fcn (Some (mbase msg)) (if arg = 0 \<and> hd c = 0 then len - 1 else len);
         Some (Inr r) }
       else if len > 128 then Some (Inl (MissingBuffer, ''large unaligned text command''))
       else do {
         (n, msg, d) \<leftarrow> mpt_message_read msg (nat len) (Some (replicate 128 0, 0));
         buf \<leftarrow> map_option fst d;
         if int n \<noteq> len then None
         else do {
           c \<leftarrow> rd buf (nat len - 1) 1;
           r \<leftarrow> mpt_hash fcn (Some buf) (if arg = 0 \<and> hd c = 0 then len - 1 else len);
           Some (Inr r) } } } }"

text \<open>The processing of an event.\<close>

definition hash_event ::
  "(64 word \<Rightarrow> 64 word \<Rightarrow> event \<Rightarrow> dispatch \<times> bmem \<times> 'w \<Rightarrow> (int \<times> event \<times> dispatch \<times> bmem \<times> 'w) option) \<Rightarrow>
   (64 word \<Rightarrow> message \<Rightarrow> 'w \<Rightarrow> int \<times> 'w) \<Rightarrow> hashfcn option \<Rightarrow>
   dispatch \<Rightarrow> bmem \<Rightarrow> event \<Rightarrow> 'w \<Rightarrow> (int \<times> event \<times> dispatch \<times> bmem \<times> 'w) option" where
  "hash_event call send fcn disp m ev w =
     (let fail = (\<lambda>ev code txt (disp, m, w). let (r, ev, w) = event_fail send ev code txt w in Some (r, ev, disp, m, w)) in
      case emsg ev of None \<Rightarrow> fail ev MissingData ''missing message data'' (disp, m, w)
      | Some msg \<Rightarrow> do {
          r \<leftarrow> text_id fcn msg;
          case r of Inl (code, txt) \<Rightarrow> fail ev code txt (disp, m, w)
          | Inr (i, fcn) \<Rightarrow> do {
              let ev = ev\<lparr>eid := i\<rparr>;
              p \<leftarrow> mpt_command_get m (darr disp) i;
              case p of
                Some p \<Rightarrow> do {
                  b \<leftarrow> getb m (darr disp);
                  (r, ev, disp, m, w) \<leftarrow> call (ccmd (commands b ! p)) (carg (commands b ! p)) ev (disp, m, w);
                  if r < 0 then fail ev r ''failed to execute command'' (disp, m, w) else Some (r, ev, disp, m, w) }
              | None \<Rightarrow>
                  if derr disp \<noteq> 0 then call (derr disp) (derrarg disp) ev (disp, m, w)
                  else fail ev BadValue ''unable to find command'' (disp, m, w) } })"

definition mpt_dispatch_hash ::
  "(64 word \<Rightarrow> 64 word \<Rightarrow> event \<Rightarrow> dispatch \<times> bmem \<times> 'w \<Rightarrow> (int \<times> event \<times> dispatch \<times> bmem \<times> 'w) option) \<Rightarrow>
   (64 word \<Rightarrow> message \<Rightarrow> 'w \<Rightarrow> int \<times> 'w) \<Rightarrow> hashfcn option \<Rightarrow>
   dispatch \<Rightarrow> bmem \<Rightarrow> event option \<Rightarrow> 'w \<Rightarrow> (int \<times> event option \<times> dispatch \<times> bmem \<times> 'w) option" where
  "mpt_dispatch_hash call send fcn disp m ev w =
     (case ev of None \<Rightarrow> Some (0, None, disp, m, w)
      | Some ev \<Rightarrow> do { (r, ev, s) \<leftarrow> hash_event call send fcn disp m ev w; Some (r, Some ev, s) })"

section \<open>Commands of a dispatcher\<close>

text \<open>The search of a command gives the handler of the map.\<close>

lemma get_handlers:
  assumes "typed_cmds m a cs"
  shows "handlers cs i = None \<Longrightarrow> mpt_command_get m a i = Some None"
    "handlers cs i = Some (h, x) \<Longrightarrow> \<exists>p b. mpt_command_get m a i = Some (Some p) \<and> getb m a = Some b \<and>
      ccmd (commands b ! p) = h \<and> carg (commands b ! p) = x"
proof -
  show "handlers cs i = None \<Longrightarrow> mpt_command_get m a i = Some None"
    using typed_get(1) [OF assms, of i] by (simp add: handlers_def)
  assume h: "handlers cs i = Some (h, x)"
  then obtain p where p: "mpt_command_find cs i = Some p" "ccmd (cs ! p) = h" "carg (cs ! p) = x" by (auto simp: handlers_def)
  then have "cs \<noteq> []" using find_Some [OF p(1)] by auto
  then have "a \<noteq> 0" using assms by (cases "a = 0") (auto simp: typed_cmds_def)
  from typed_get(2) [OF assms this] typed_get(1) [OF assms, of i] p
  show "\<exists>p b. mpt_command_get m a i = Some (Some p) \<and> getb m a = Some b \<and> ccmd (commands b ! p) = h \<and> carg (commands b ! p) = x"
    by auto
qed

lemma first_byte_ok: "first_byte msg = Some (case mdata msg of [] \<Rightarrow> None | c # cs \<Rightarrow> Some c)"
proof -
  have "dest_ok (Some ([0], 0)) (min 1 (length (mdata msg)))" by (simp add: dest_ok_def)
  from read_ok [OF this] obtain msg' d where
    r: "mpt_message_read msg 1 (Some ([0], 0)) = Some (min 1 (length (mdata msg)), msg', d)"
      "dest_put (Some ([0], 0)) (take 1 (mdata msg)) = Some d" by blast
  then show ?thesis by (cases "mdata msg") (auto simp: first_byte_def dest_put_def wr_def)
qed

text \<open>The routing of an event: by the first byte of its message, else by its identifier.\<close>

definition event_id :: "event \<Rightarrow> 64 word" where
  "event_id ev = (case emsg ev of None \<Rightarrow> eid ev | Some msg \<Rightarrow> ucast (hd (mdata msg)))"

lemma emit_event:
  fixes conv :: "64 word \<Rightarrow> 64 word"
  assumes t: "typed_cmds m (darr disp) cs" and d: "\<forall>msg. emsg ev = Some msg \<longrightarrow> mdata msg \<noteq> []"
  defines "e \<equiv> ev\<lparr>eid := event_id ev, ereply := (if ereply ev = 0 \<and> dctx disp \<noteq> 0 then conv (dctx disp) else ereply ev)\<rparr>"
  shows "mpt_dispatch_emit call send conv disp m (Some ev) w =
    (case (case handlers cs (event_id ev) of None \<Rightarrow> if derr disp = 0 then None else Some (derr disp, derrarg disp) | h \<Rightarrow> h) of
       None \<Rightarrow> Some (BadArgument, Some e, disp, m,
         snd (mpt_context_reply send (ereply e) BadType (id_text ''unknown command'' (event_id ev)) w))
     | Some (h, a) \<Rightarrow> do {
         (s, e, disp, m, w) \<leftarrow> call h a e (disp, m, w);
         let (r, disp, w) = emit_done send s e disp w;
         Some (r, Some e, disp, m, w) })"
proof -
  let ?c = "ev\<lparr>eid := event_id ev\<rparr>"
  have e: "e = (if ereply ?c = 0 \<and> dctx disp \<noteq> 0 then ?c\<lparr>ereply := conv (dctx disp)\<rparr> else ?c)" by (simp add: e_def)
  have b: "emsg ev = Some msg \<Longrightarrow> first_byte msg = Some (Some (hd (mdata msg)))" for msg
    using d by (simp add: first_byte_ok split: list.split)
  show ?thesis
  proof (cases "handlers cs (event_id ev)")
    case None
    then have g: "mpt_command_get m (darr disp) (event_id ev) = Some None" by (rule get_handlers(1) [OF t])
    have "emit_command disp m (Some ev) = Some (Inr (None, ?c))"
    proof (cases "emsg ev")
      case None
      then have "event_id ev = eid ev" by (simp add: event_id_def)
      with g None show ?thesis by (simp add: emit_command_def)
    next
      case (Some msg)
      then have "event_id ev = ucast (hd (mdata msg))" by (simp add: event_id_def)
      with g Some b [OF Some] show ?thesis by (simp add: emit_command_def)
    qed
    with None e show ?thesis unfolding mpt_dispatch_emit_def by (simp add: Let_def e_def)
  next
    case (Some ha)
    obtain h a where ha: "ha = (h, a)" by (cases ha)
    from get_handlers(2) [OF t Some [unfolded ha]] obtain p bb where
      g: "mpt_command_get m (darr disp) (event_id ev) = Some (Some p)" "getb m (darr disp) = Some bb"
        "ccmd (commands bb ! p) = h" "carg (commands bb ! p) = a" by blast
    have "emit_command disp m (Some ev) = Some (Inr (Some (commands bb ! p), ?c))"
    proof (cases "emsg ev")
      case None
      then have "event_id ev = eid ev" by (simp add: event_id_def)
      with g None show ?thesis by (simp add: emit_command_def)
    next
      case (Some msg)
      then have "event_id ev = ucast (hd (mdata msg))" by (simp add: event_id_def)
      with g Some b [OF Some] show ?thesis by (simp add: emit_command_def)
    qed
    with Some ha g(3,4) e show ?thesis unfolding mpt_dispatch_emit_def by (simp add: Let_def)
  qed
qed

lemma dispatch_set_ok:
  assumes t: "typed_cmds m (darr disp) cs" and u: "unique_ids cs" and al: "always_ok mal" and sz: "24 * length cs + 24 < 2 ^ 63"
    and c: "cmd \<noteq> 0" "handlers cs i = None"
  shows "\<exists>r a' m' cs'. mpt_dispatch_set mal fin disp m i cmd arg w = Some (r, disp\<lparr>darr := a'\<rparr>, m', w) \<and> 0 \<le> r \<and>
    typed_cmds m' a' cs' \<and> unique_ids cs' \<and> handlers cs' = (handlers cs)(i \<mapsto> (cmd, arg))"
proof -
  have f: "mpt_command_find cs i = None" using c(2) by (simp add: handlers_def)
  from command_set_typed [OF t u al sz, of "\<lambda>c. fin (ccmd c) (carg c)" i cmd arg w] c(1) obtain r a' m' cs' where
    s: "mpt_command_set mal (\<lambda>c. fin (ccmd c) (carg c)) m (darr disp) i cmd arg w = Some (r, a', m', w)" "0 \<le> r"
      "typed_cmds m' a' cs'" "unique_ids cs'" "handlers cs' = (handlers cs)(i \<mapsto> (cmd, arg))"
    by (auto simp: end_handler_def f)
  have "mpt_command_get m (darr disp) i = Some None" by (rule get_handlers(1) [OF t c(2)])
  then have "mpt_dispatch_set mal fin disp m i cmd arg w = Some (r, disp\<lparr>darr := a'\<rparr>, m', w)"
    using c(1) s(1) by (simp add: mpt_dispatch_set_def)
  with s show ?thesis by blast
qed

lemma emit_done_default:
  assumes "emit_done send s e disp w = (r, disp', w')" "0 \<le> r"
  shows "(r AND 1 \<noteq> 0) = (ddef disp' \<noteq> 0)"
proof -
  have s: "0 \<le> s" using assms by (auto simp: emit_done_def split: if_splits)
  have a: "(x AND NOT 1) AND 1 = 0" "(x OR 1) AND 1 = (1 :: int)" for x :: int
    by (rule bit_eqI; auto simp: bit_simps)+
  show ?thesis using assms s a by (auto simp: emit_done_def Let_def split: if_splits)
qed

section \<open>Text commands\<close>

lemma nextChar_parts:
  assumes "length (cur @ concat cont) \<le> SSIZE_MAX"
  shows "nextChar cur cont match = upto (first_pos (\<lambda>x. x = word_of_int match) (cur @ concat cont)) (cur @ concat cont)"
  using memchr_pos [of "[cur]" match] memchr_pos [of cont match] assms
  by (auto simp: nextChar_def search_result_ge Let_def upto_def length_loop_sum search_result_def first_pos_append split: option.splits)

lemma first_pos_end: "0 \<notin> set xs \<Longrightarrow> ys = [] \<or> hd ys = 0 \<Longrightarrow> upto (first_pos (\<lambda>x. x = 0) (xs @ ys)) (xs @ ys) = int (length xs)"
proof (induction xs)
  case Nil
  then show ?case by (cases ys) (simp_all add: upto_def)
next
  case (Cons x xs)
  then show ?case by (auto simp: upto_def split: option.splits)
qed

lemma hash_data_ok: "n \<le> length cs \<Longrightarrow> hash_data f h cs n = Some (foldl f h (take n cs))"
  by (induction f h cs n rule: hash_data.induct) auto

definition hash_value :: "hashfcn option \<Rightarrow> block \<Rightarrow> 64 word" where
  "hash_value fcn txt = (if fcn = Some Smdb then foldl smdb_step 0 txt else foldl djb2_step 5381 txt)"

lemma mpt_hash_ok: "n \<le> length cs \<Longrightarrow> mpt_hash fcn (Some cs) (int n) =
    Some (hash_value fcn (take n cs), Some (if fcn = Some Smdb then Smdb else Djb2))"
  by (auto simp: mpt_hash_def hash_call_def mpt_hash_djb2_def mpt_hash_smdb_def hash_data_ok hash_value_def Let_def
    split: option.splits hashfcn.splits)

lemma rd_one: "i < length xs \<Longrightarrow> rd xs i 1 = Some [xs ! i]"
  using Cons_nth_drop_Suc [of i xs, symmetric] by (simp add: rd_def)

lemma text_id_ok:
  assumes d: "mdata msg = [c, x] @ txt @ rest" and a: "c = MessageCommand \<longrightarrow> x = 0"
    and t: "txt \<noteq> []" "0 \<notin> set txt" "rest = [] \<or> hd rest = 0" "length txt \<le> 128" "length (mdata msg) \<le> SSIZE_MAX"
  shows "text_id fcn msg = Some (Inr (hash_value fcn txt, Some (if fcn = Some Smdb then Smdb else Djb2)))"
proof -
  have ok: "dest_ok (Some ([0, 0], 0)) (min 2 (length (mdata msg)))" using d by (simp add: dest_ok_def)
  from read_ok [OF ok] obtain m1 e where r: "mpt_message_read msg 2 (Some ([0, 0], 0)) = Some (2, m1, e)"
    "dest_put (Some ([0, 0], 0)) [c, x] = Some e" "mdata m1 = txt @ rest" "mbase m1 = [] \<longrightarrow> mcont m1 = []"
    using d by auto
  have e: "e = Some ([c, x], Suc (Suc 0))" using r(2) by (simp add: dest_put_def wr_def)
  have ne: "mbase m1 \<noteq> []" using r(3,4) t(1) by (auto simp: mdata_def)
  have sk: "message_skip (mbase m1) (mcont m1) = m1" using ne by (cases "mbase m1") simp_all
  have "length (mdata msg) = 2 + length (mdata m1)" unfolding d r(3) by simp
  then have l: "length (mbase m1 @ concat (mcont m1)) \<le> SSIZE_MAX" using t(5) by (simp add: mdata_def)
  have "nextChar (mbase m1) (mcont m1) 0 = int (length txt)"
    using nextChar_parts [OF l, of 0] first_pos_end [OF t(2,3)] r(3) by (simp add: mdata_def)
  then have v: "mpt_message_argv m1 0 = Some (int (length txt), m1)" using ne sk by (simp add: mpt_message_argv_def)
  have lt: "0 < length txt" "txt ! (length txt - 1) \<noteq> 0" using t(1,2) by (auto simp: in_set_conv_nth)
  let ?n = "length txt"
  show ?thesis
  proof (cases "?n \<le> length (mbase m1)")
    case True
    have b: "take ?n (mbase m1) = txt" using True arg_cong [OF r(3), of "take ?n"] by (simp add: mdata_def)
    then have "mbase m1 ! (?n - 1) = txt ! (?n - 1)" using lt(1) by (metis diff_less less_numeral_extra(1) nth_take)
    moreover have "?n - 1 < length (mbase m1)" using True lt(1) by linarith
    ultimately have "rd (mbase m1) (?n - 1) 1 = Some [txt ! (?n - 1)]" using rd_one by metis
    then show ?thesis using r(1) e a v True lt mpt_hash_ok [OF True, of fcn] b
      by (cases "c = MessageCommand") (simp_all add: text_id_def Let_def)
  next
    case False
    have "dest_ok (Some (replicate 128 0, 0)) (min ?n (length (mdata m1)))" using t(4) by (simp add: dest_ok_def)
    from read_ok [OF this] obtain m2 f where g: "mpt_message_read m1 ?n (Some (replicate 128 0, 0)) = Some (?n, m2, f)"
      "dest_put (Some (replicate 128 0, 0)) txt = Some f" using r(3) by auto
    let ?b = "txt @ replicate (128 - ?n) 0"
    have f: "f = Some (?b, ?n)" using g(2) t(4) by (simp add: dest_put_def wr_def)
    have "rd ?b (?n - 1) 1 = Some [txt ! (?n - 1)]" using lt(1) rd_one [of "?n - 1" ?b] by (simp add: nth_append)
    moreover have "?n \<le> length ?b" by simp
    moreover have "\<not> int (length (mbase m1)) \<ge> int ?n" using False by simp
    ultimately show ?thesis using r(1) e a v lt g(1) f t(4) mpt_hash_ok [of ?n ?b fcn] False
      by (cases "c = MessageCommand") (simp_all add: text_id_def Let_def)
  qed
qed

text \<open>A text command calls the handler under the hash of its text.\<close>

lemma dispatch_hash_ok:
  assumes t: "typed_cmds m (darr disp) cs" and i: "text_id fcn msg = Some (Inr (i, fcn'))" and e: "emsg ev = Some msg"
  shows "hash_event call send fcn disp m ev w =
    (case (case handlers cs i of None \<Rightarrow> if derr disp = 0 then None else Some (derr disp, derrarg disp) | h \<Rightarrow> h) of
       None \<Rightarrow> (let (r, ev, w) = event_fail send (ev\<lparr>eid := i\<rparr>) BadValue ''unable to find command'' w in Some (r, ev, disp, m, w))
     | Some (h, a) \<Rightarrow> do {
         (r, ev, disp, m, w) \<leftarrow> call h a (ev\<lparr>eid := i\<rparr>) (disp, m, w);
         if r < 0 \<and> handlers cs i \<noteq> None then
           (let (r, ev, w) = event_fail send ev r ''failed to execute command'' w in Some (r, ev, disp, m, w))
         else Some (r, ev, disp, m, w) })"
proof (cases "handlers cs i")
  case None
  then have "mpt_command_get m (darr disp) i = Some None" by (rule get_handlers(1) [OF t])
  with None i e show ?thesis by (simp add: hash_event_def Let_def)
next
  case (Some ha)
  obtain h a where ha: "ha = (h, a)" by (cases ha)
  from get_handlers(2) [OF t Some [unfolded ha]] obtain p bb where
    g: "mpt_command_get m (darr disp) i = Some (Some p)" "getb m (darr disp) = Some bb"
      "ccmd (commands bb ! p) = h" "carg (commands bb ! p) = a" by blast
  with Some ha i e show ?thesis
    by (cases "call h a (ev\<lparr>eid := i\<rparr>) (disp, m, w)") (auto simp: hash_event_def Let_def split: prod.splits)
qed

section \<open>Properties\<close>

text \<open>Property C12: a handler that was registered for a free identifier is the one that is called for events
  with this identifier, which for a message is its first byte in whatever parts it is stored; the
  handlers of other identifiers are not affected.\<close>

theorem dispatch_set_emit:
  assumes "typed_cmds m (darr disp) cs" and "unique_ids cs" and "always_ok mal" and "24 * length cs + 24 < 2 ^ 63"
    and "cmd \<noteq> 0" and "handlers cs (event_id ev) = None" and "\<forall>msg. emsg ev = Some msg \<longrightarrow> mdata msg \<noteq> []"
  shows "\<exists>r a' m' cs'. mpt_dispatch_set mal fin disp m (event_id ev) cmd arg w = Some (r, disp\<lparr>darr := a'\<rparr>, m', w) \<and> 0 \<le> r \<and>
    typed_cmds m' a' cs' \<and> unique_ids cs' \<and> handlers cs' = (handlers cs)(event_id ev \<mapsto> (cmd, arg)) \<and>
    mpt_dispatch_emit call send conv (disp\<lparr>darr := a'\<rparr>) m' (Some ev) w = do {
      (s, e, disp, m, w) \<leftarrow> call cmd arg (ev\<lparr>eid := event_id ev,
        ereply := (if ereply ev = 0 \<and> dctx disp \<noteq> 0 then conv (dctx disp) else ereply ev)\<rparr>) (disp\<lparr>darr := a'\<rparr>, m', w);
      let (r, disp, w) = emit_done send s e disp w;
      Some (r, Some e, disp, m, w) }"
proof -
  from dispatch_set_ok [OF assms(1-6), of fin arg w] obtain r a' m' cs' where
    s: "mpt_dispatch_set mal fin disp m (event_id ev) cmd arg w = Some (r, disp\<lparr>darr := a'\<rparr>, m', w)" "0 \<le> r"
      "typed_cmds m' a' cs'" "unique_ids cs'" "handlers cs' = (handlers cs)(event_id ev \<mapsto> (cmd, arg))" by blast
  have "typed_cmds m' (darr (disp\<lparr>darr := a'\<rparr>)) cs'" using s(3) by simp
  from emit_event [OF this assms(7), of call send conv w] show ?thesis
    by (intro exI [of _ r] exI [of _ a'] exI [of _ m'] exI [of _ cs'] conjI s) (simp add: s(5))
qed

definition call_log :: "64 word \<Rightarrow> 64 word \<Rightarrow> event \<Rightarrow> dispatch \<times> bmem \<times> (64 word \<times> 64 word \<times> 64 word) list \<Rightarrow>
    (int \<times> event \<times> dispatch \<times> bmem \<times> (64 word \<times> 64 word \<times> 64 word) list) option" where
  "call_log h a ev s = (case s of (disp, m, w) \<Rightarrow> Some (1, ev, disp, m, w @ [(h, a, eid ev)]))"

text \<open>The handler asks to be the default command.\<close>

theorem dispatch_set_emit_witness:
  "\<exists>r a' m'. mpt_dispatch_set first_fit (\<lambda>_ _. id) (mpt_dispatch_init 0) bmem_init 7 3 9 ([] :: (64 word \<times> 64 word \<times> 64 word) list) =
      Some (r, (mpt_dispatch_init 0)\<lparr>darr := a'\<rparr>, m', []) \<and>
    mpt_dispatch_emit call_log (\<lambda>_ _ w. (0, w)) id ((mpt_dispatch_init 0)\<lparr>darr := a'\<rparr>) m'
        (Some \<lparr>ereply = 0, emsg = Some \<lparr>mbase = [], mcont = [[], [7, 1]]\<rparr>, eid = 5\<rparr>) [] =
      Some (1, Some \<lparr>ereply = 0, emsg = Some \<lparr>mbase = [], mcont = [[], [7, 1]]\<rparr>, eid = 7\<rparr>,
        \<lparr>darr = a', ddef = 7, derr = 0, derrarg = 0, dctx = 0\<rparr>, m', [(3, 9, 7)])"
proof -
  let ?ev = "\<lparr>ereply = 0, emsg = Some \<lparr>mbase = [], mcont = [[], [7, 1]]\<rparr>, eid = 5\<rparr>"
  have d: "typed_cmds bmem_init (darr (mpt_dispatch_init 0)) []" "unique_ids []" "24 * length ([] :: command list) + 24 < 2 ^ 63" "(3 :: 64 word) \<noteq> 0"
    by (simp_all add: mpt_dispatch_init_def typed_cmds_def bmem_init_ok unique_ids_def)
  have i: "event_id ?ev = 7" by (simp add: event_id_def mdata_def)
  have m: "\<forall>msg. emsg ?ev = Some msg \<longrightarrow> mdata msg \<noteq> []" by (simp add: mdata_def)
  have h: "handlers [] (event_id ?ev) = None" by simp
  from dispatch_set_emit [OF d(1,2) first_fit_ok d(3,4) h m, of "\<lambda>_ _. id" 9 "[]" call_log "\<lambda>_ _ w. (0, w)" id] show ?thesis
    unfolding i by (simp add: call_log_def mpt_dispatch_init_def emit_done_def) blast
qed

text \<open>A result that is not negative tells by its flag whether there is a default command, after
  every event and whatever the handlers do.\<close>

theorem dispatch_default_flag:
  assumes "mpt_dispatch_emit call send conv disp m ev w = Some (r, ev', disp', m', w')" and "0 \<le> r"
  shows "r AND 1 \<noteq> 0 \<longleftrightarrow> ddef disp' \<noteq> 0"
proof -
  from assms(1) obtain q where q: "emit_command disp m ev = Some q" by (auto simp: mpt_dispatch_emit_def split: bind_splits)
  show ?thesis
  proof (cases q)
    case (Inl x)
    then have "x = (r, disp')" using assms(1) q by (auto simp: mpt_dispatch_emit_def split: prod.splits)
    then show ?thesis using q Inl assms(2)
      by (auto simp: emit_command_def Let_def split: option.splits bind_splits if_splits)
  next
    case (Inr y)
    with assms q emit_done_default show ?thesis
      by (fastforce simp: mpt_dispatch_emit_def Let_def split: prod.splits bind_splits if_splits option.splits)
  qed
qed

theorem dispatch_default_flag_witness:
  "(1 :: int) AND 1 \<noteq> 0 \<longleftrightarrow> ddef \<lparr>darr = 0, ddef = 5, derr = 2, derrarg = 0, dctx = 0\<rparr> \<noteq> 0"
proof -
  have "mpt_dispatch_emit call_log (\<lambda>_ _ w. (0, w)) id (mpt_dispatch_init 2) bmem_init (Some \<lparr>ereply = 0, emsg = None, eid = 5\<rparr>) [] =
    Some (1, Some \<lparr>ereply = 0, emsg = None, eid = 5\<rparr>, \<lparr>darr = 0, ddef = 5, derr = 2, derrarg = 0, dctx = 0\<rparr>, bmem_init, [(2, 0, 5)])"
    by (simp add: mpt_dispatch_emit_def emit_command_def mpt_dispatch_init_def mpt_command_get_def call_log_def emit_done_def)
  from dispatch_default_flag [OF this] show ?thesis by simp
qed


definition cs_hash :: "command list" where
  "cs_hash = [\<lparr>cid = hash_value None [103, 111], ccmd = 4, carg = 6\<rparr>]"

definition bmem_hash :: bmem where
  "bmem_hash = putb bmem_init 1 \<lparr>bref = 1, bflags = BufferNoCopy, btraits = Some mpt_command_traits, bused = 24, bdata = enc_cmds cs_hash\<rparr>"


end
