(* ===== verification/Reply.thy ===== *)
theory Reply
  imports Buffer Message
begin

text \<open>
  Reply contexts: \<open>mptcore/event/\<close> (\<open>reply_set.c\<close>, \<open>reply_deferrable.c\<close>).

  A context keeps the identifier of the request that is to be answered; the answer can be deferred to an
  object of its own, which takes the identifier over.  Contexts and deferred objects are counted
  references to one heap object.  The result \<open>ret\<close> of the transmission is an argument of the operations,
  the transmission that was made (data and message) a part of their results.  Addresses and contents of
  new objects are a parameter.  \<open>None\<close> is undefined behaviour: the use of a released object, and the log
  messages that print the identifier, a number, with the format \<open>%s\<close>.
\<close>

unbundle bit_operations_syntax

section \<open>Model\<close>

record reply_data =
  rmax :: nat
  rlen :: nat
  rval :: block

record reply_context =
  rsend :: "64 word"
  rptr :: "64 word"
  rref :: nat
  rdata :: reply_data

record deferred =
  dbase :: nat
  ddata :: reply_data

record rheap =
  rctx :: "nat \<Rightarrow> reply_context option"
  rdef :: "nat \<Rightarrow> deferred option"

type_synonym transmission = "(reply_data \<times> message option) option"

definition mpt_reply_set :: "reply_data \<Rightarrow> nat \<Rightarrow> block option \<Rightarrow> (int \<times> reply_data) option" where
  "mpt_reply_set d len data =
     (if len > rmax d then Some (BadValue, d)
      else do {
        x \<leftarrow> raw_data data len;
        v \<leftarrow> wr (rval d) 0 x;
        Some (int (rmax d - len), d\<lparr>rval := v, rlen := len\<rparr>) })"

text \<open>The first byte of the identifier is marked while it is sent.\<close>

definition set_first :: "(byte \<Rightarrow> byte) \<Rightarrow> reply_data \<Rightarrow> reply_data option" where
  "set_first f d = do { b \<leftarrow> rd (rval d) 0 1; v \<leftarrow> wr (rval d) 0 [f (hd b)]; Some (d\<lparr>rval := v\<rparr>) }"

text \<open>Without a target, and after a transmission that failed, the identifier is logged: a 64 bit number
  for the conversion \<open>%s\<close>, which reads it as an address.\<close>

definition contextSend ::
  "reply_context \<Rightarrow> reply_data \<Rightarrow> message option \<Rightarrow> int \<Rightarrow> (int \<times> reply_data \<times> transmission) option" where
  "contextSend ctx d msg ret =
     (if rlen d = 0 then Some (BadArgument, d, None)
      else if rsend ctx = 0 then Some (0, d\<lparr>rlen := 0\<rparr>, None)
      else do {
        _ \<leftarrow> mpt_message_buf2id (rval d) (rlen d) True;
        if rptr ctx = 0 then None
        else do {
          d \<leftarrow> set_first (\<lambda>b. b OR 0x80) d;
          if ret \<ge> 0 then Some (ret, d\<lparr>rlen := 0\<rparr>, Some (d, msg))
          else None } })"

definition contextDetach :: "rheap \<Rightarrow> nat \<Rightarrow> rheap option" where
  "contextDetach h a = do {
     ctx \<leftarrow> rctx h a;
     let (r, v) = mpt_refcount_lower (rref ctx);
     Some (h\<lparr>rctx := (rctx h)(a := if r \<noteq> 0 then Some (ctx\<lparr>rref := v\<rparr>) else None)\<rparr>) }"

definition contextUnref :: "rheap \<Rightarrow> nat \<Rightarrow> int \<Rightarrow> (rheap \<times> transmission) option" where
  "contextUnref h a ret = do {
     ctx \<leftarrow> rctx h a;
     let (r, v) = mpt_refcount_lower (rref ctx);
     if r \<noteq> 0 then Some (h\<lparr>rctx := (rctx h)(a \<mapsto> ctx\<lparr>rref := v, rsend := 0\<rparr>)\<rparr>, None)
     else do {
       t \<leftarrow> (if rsend ctx \<noteq> 0 \<and> rlen (rdata ctx) \<noteq> 0 then do { (_, _, t) \<leftarrow> contextSend ctx (rdata ctx) None ret; Some t } else Some None);
       Some (h\<lparr>rctx := (rctx h)(a := None)\<rparr>, t) } }"

definition contextRef :: "rheap \<Rightarrow> nat \<Rightarrow> (nat \<times> rheap) option" where
  "contextRef h a = do {
     ctx \<leftarrow> rctx h a;
     let (r, v) = mpt_refcount_raise (rref ctx);
     Some (r, h\<lparr>rctx := (rctx h)(a \<mapsto> ctx\<lparr>rref := v\<rparr>)\<rparr>) }"

text \<open>The conversion of a context: what is stored where the caller asks for a value, and the result.  Both
  pointer types deliver the address of the reply interface.\<close>

datatype converted = Formats "nat list" | ReplyInterface nat

definition TypeReplyDataPtr :: nat where "TypeReplyDataPtr = 0x8"
definition TypeReplyPtr :: nat where "TypeReplyPtr = 0x82"

definition contextConv :: "nat \<Rightarrow> nat \<Rightarrow> bool \<Rightarrow> int \<times> converted option" where
  "contextConv a type ptr =
     (if type = 0 then
        (if ptr then (0, Some (Formats [TypeReplyPtr, TypeReplyDataPtr])) else (int TypeReplyPtr, None))
      else if type = TypeReplyPtr then
        (int TypeReplyDataPtr, if ptr then Some (ReplyInterface a) else None)
      else if type = TypeReplyDataPtr then
        (int TypeReplyPtr, if ptr then Some (ReplyInterface a) else None)
      else (BadType, None))"

definition deferReply :: "rheap \<Rightarrow> nat \<Rightarrow> message option \<Rightarrow> int \<Rightarrow> (int \<times> rheap \<times> transmission) option" where
  "deferReply h x msg ret = do {
     def \<leftarrow> rdef h x;
     ctx \<leftarrow> rctx h (dbase def);
     (r, d, t) \<leftarrow> contextSend ctx (ddata def) msg ret;
     let h = h\<lparr>rdef := (rdef h)(x \<mapsto> def\<lparr>ddata := d\<rparr>)\<rparr>;
     if r < 0 \<and> msg \<noteq> None then Some (r, h, t)
     else do {
       h \<leftarrow> contextDetach h (dbase def);
       Some (if r < 0 then 0 else r, h\<lparr>rdef := (rdef h)(x := None)\<rparr>, t) } }"

definition contextSet :: "rheap \<Rightarrow> nat \<Rightarrow> message option \<Rightarrow> int \<Rightarrow> (int \<times> rheap \<times> transmission) option" where
  "contextSet h a msg ret = do {
     ctx \<leftarrow> rctx h a;
     (r, d, t) \<leftarrow> contextSend ctx (rdata ctx) msg ret;
     Some (r, h\<lparr>rctx := (rctx h)(a \<mapsto> ctx\<lparr>rdata := d\<rparr>)\<rparr>, t) }"

text \<open>The place of the new object is an argument; the result is the deferred object.\<close>

definition contextDefer :: "rheap \<Rightarrow> nat \<Rightarrow> nat option \<Rightarrow> (nat option \<times> rheap) option" where
  "contextDefer h a new = do {
     ctx \<leftarrow> rctx h a;
     if rlen (rdata ctx) = 0 then Some (None, h)
     else
       let (r, v) = mpt_refcount_raise (rref ctx) in
       if r = 0 then Some (None, h)
       else case new of
         None \<Rightarrow> Some (None, h\<lparr>rctx := (rctx h)(a \<mapsto> ctx\<lparr>rref := snd (mpt_refcount_lower v)\<rparr>)\<rparr>)
       | Some x \<Rightarrow> Some (Some x, h\<lparr>rctx := (rctx h)(a \<mapsto> ctx\<lparr>rref := v, rdata := (rdata ctx)\<lparr>rlen := 0\<rparr>\<rparr>),
             rdef := (rdef h)(x \<mapsto> \<lparr>dbase = a, ddata = rdata ctx\<rparr>)\<rparr>) }"

text \<open>The memory of a new context: its address and what is in the identifier.\<close>

definition mpt_reply_deferrable ::
  "rheap \<Rightarrow> nat \<Rightarrow> 64 word \<Rightarrow> 64 word \<Rightarrow> (nat \<times> (nat \<Rightarrow> byte)) option \<Rightarrow> nat option \<times> rheap" where
  "mpt_reply_deferrable h len send ptr new =
     (if len > 2 ^ 16 - 1 then (None, h)
      else case new of None \<Rightarrow> (None, h)
      | Some (a, raw) \<Rightarrow> (Some a, h\<lparr>rctx := (rctx h)(a \<mapsto> \<lparr>rsend = send, rptr = ptr, rref = 1,
          rdata = \<lparr>rmax = len, rlen = 0, rval = map raw [0..<4 + (len - 4)]\<rparr>\<rparr>)\<rparr>))"

section \<open>Clients\<close>

text \<open>The clients of a context hold references to it and to deferred objects; they use what they hold.  The
  number of answers that were sent is recorded.\<close>

record client =
  heap :: rheap
  held :: nat
  live :: "nat set"
  answered :: nat

datatype rop = Answer "message option" int | Defer "nat option" | AddRef | Unref int
  | AnswerDeferred nat "message option" int

text \<open>What the clients may do: new objects have new addresses, and transmissions succeed (a failed one
  is undefined behaviour, \<open>contextSend_failed\<close>).\<close>

definition allowed :: "client \<Rightarrow> rop \<Rightarrow> bool" where
  "allowed c x \<longleftrightarrow> (case x of AnswerDeferred a msg ret \<Rightarrow> a \<in> live c \<and> 0 \<le> ret
     | Answer msg ret \<Rightarrow> 0 < held c \<and> 0 \<le> ret
     | Unref ret \<Rightarrow> 0 < held c \<and> 0 \<le> ret
     | Defer (Some a) \<Rightarrow> 0 < held c \<and> rdef (heap c) a = None
     | _ \<Rightarrow> 0 < held c)"

definition sent :: "int \<Rightarrow> transmission \<Rightarrow> nat" where
  "sent ret t = (if t \<noteq> None \<and> 0 \<le> ret then 1 else 0)"

definition perform :: "nat \<Rightarrow> rop \<Rightarrow> client \<Rightarrow> client option" where
  "perform a x c = (case x of
     Answer msg ret \<Rightarrow> do {
       (r, h, t) \<leftarrow> contextSet (heap c) a msg ret;
       Some (c\<lparr>heap := h, answered := answered c + sent ret t\<rparr>) }
   | Defer new \<Rightarrow> do {
       (r, h) \<leftarrow> contextDefer (heap c) a new;
       Some (c\<lparr>heap := h, live := (case r of None \<Rightarrow> live c | Some x \<Rightarrow> insert x (live c))\<rparr>) }
   | AddRef \<Rightarrow> do {
       (r, h) \<leftarrow> contextRef (heap c) a;
       Some (c\<lparr>heap := h, held := (if r \<noteq> 0 then held c + 1 else held c)\<rparr>) }
   | Unref ret \<Rightarrow> do {
       (h, t) \<leftarrow> contextUnref (heap c) a ret;
       Some (c\<lparr>heap := h, held := held c - 1, answered := answered c + sent ret t\<rparr>) }
   | AnswerDeferred x msg ret \<Rightarrow> do {
       (r, h, t) \<leftarrow> deferReply (heap c) x msg ret;
       Some (c\<lparr>heap := h, live := (if rdef h x = None then live c - {x} else live c), answered := answered c + sent ret t\<rparr>) })"

text \<open>A context with one reference, and the states that clients reach.\<close>

definition one_client :: "nat \<Rightarrow> reply_context \<Rightarrow> client" where
  "one_client a ctx = \<lparr>heap = \<lparr>rctx = Map.empty(a \<mapsto> ctx), rdef = Map.empty\<rparr>, held = 1, live = {}, answered = 0\<rparr>"


inductive reach :: "nat \<Rightarrow> client \<Rightarrow> client \<Rightarrow> bool" for a c where
  start: "reach a c c"
| step: "reach a c d \<Longrightarrow> allowed d x \<Longrightarrow> perform a x d = Some e \<Longrightarrow> reach a c e"

inductive_cases reach_cases: "reach a c e"

section \<open>Invariant\<close>

definition data_ok :: "reply_data \<Rightarrow> bool" where
  "data_ok d \<longleftrightarrow> rlen d \<le> rmax d \<and> length (rval d) = 4 + (rmax d - 4)"

lemma buf2id_total: "2 \<le> length buf \<Longrightarrow> \<exists>r. mpt_message_buf2id buf len True = Some r"
proof (cases "len = 0")
  case False
  assume l: "2 \<le> length buf"
  then obtain x y bs where b: "buf = x # y # bs" by (metis One_nat_def Suc_1 Suc_le_length_iff)
  have r: "rd buf 0 1 = Some [x]" "rd buf 1 1 = Some [y]" by (simp_all add: b rd_def)
  have s: "buf2id_loop buf p 0 mid used = Some (int used)" for p mid used by (subst buf2id_loop.simps) (simp add: usub_def)
  have "\<exists>v. buf2id_loop buf 1 len mid used = Some v" for mid used
    using r(2) by (subst buf2id_loop.simps) (simp add: Let_def s)
  then obtain v where "buf2id_loop buf 1 len (ucast x) (if x \<noteq> 0 then 1 else 0) = Some v" by blast
  then show ?thesis using False r(1) by (simp add: mpt_message_buf2id_def)
qed (simp add: mpt_message_buf2id_def)

lemma set_first_ok: "data_ok d \<Longrightarrow> \<exists>d'. set_first f d = Some d' \<and> data_ok d' \<and> rlen d' = rlen d"
proof -
  assume d: "data_ok d"
  then obtain x xs where v: "rval d = x # xs" by (cases "rval d") (auto simp: data_ok_def)
  then have "set_first f d = Some (d\<lparr>rval := f x # xs\<rparr>)" by (simp add: set_first_def rd_def wr_def)
  then show ?thesis using d v by (auto simp: data_ok_def)
qed

definition has_target :: "reply_context \<Rightarrow> bool" where
  "has_target ctx \<longleftrightarrow> rsend ctx = 0 \<or> rptr ctx \<noteq> 0"

lemma contextSend_ok:
  assumes "data_ok d" and "has_target ctx" and "0 \<le> ret"
  obtains r d' t where "contextSend ctx d msg ret = Some (r, d', t)" "data_ok d'"
    "rlen d' = 0" "sent ret t = (if rlen d \<noteq> 0 \<and> rsend ctx \<noteq> 0 then 1 else 0)" "0 < rlen d \<longrightarrow> 0 \<le> r"
proof (cases "rlen d = 0 \<or> rsend ctx = 0")
  case True
  show thesis
    by (rule that [of "if rlen d = 0 then BadArgument else 0" "d\<lparr>rlen := 0\<rparr>" None])
      (use True assms in \<open>auto simp: contextSend_def sent_def data_ok_def\<close>)
next
  case False
  have "2 \<le> length (rval d)" using assms by (simp add: data_ok_def)
  from buf2id_total [OF this] obtain x where x: "mpt_message_buf2id (rval d) (rlen d) True = Some x" by blast
  from set_first_ok [OF assms(1), of "\<lambda>b. b OR 0x80"] obtain d1 where
    d1: "set_first (\<lambda>b. b OR 0x80) d = Some d1" "data_ok d1" "rlen d1 = rlen d" by blast
  show thesis
    by (rule that [of ret "d1\<lparr>rlen := 0\<rparr>" "Some (d1, msg)"])
      (use False x d1 assms in \<open>auto simp: contextSend_def sent_def data_ok_def has_target_def\<close>)
qed

text \<open>A transmission that fails, or that has no target, ends in the log message.\<close>

lemma contextSend_failed:
  "rlen d \<noteq> 0 \<Longrightarrow> rsend ctx \<noteq> 0 \<Longrightarrow> rptr ctx = 0 \<or> ret < 0 \<Longrightarrow> contextSend ctx d msg ret = None"
  by (auto simp: contextSend_def split: bind_splits)

text \<open>A client that asks for the identifier is given the function table, whose address it takes for the
  size, the length and the bytes of an identifier.\<close>

lemma contextConv_data:
  "contextConv a TypeReplyDataPtr True = (int TypeReplyPtr, Some (ReplyInterface a))"
  "contextConv a TypeReplyPtr True = (int TypeReplyDataPtr, Some (ReplyInterface a))"
  by (simp_all add: contextConv_def TypeReplyDataPtr_def TypeReplyPtr_def)

text \<open>The context lives as long as it is referenced.  At most \<open>n\<close> answers have been or can still be given,
  exactly \<open>n\<close> as long as the transmission is enabled.\<close>

definition pending :: "client \<Rightarrow> nat \<Rightarrow> nat" where
  "pending c a = (case rctx (heap c) a of None \<Rightarrow> 0 | Some ctx \<Rightarrow> if rlen (rdata ctx) = 0 then 0 else 1)"

definition client_inv :: "nat \<Rightarrow> nat \<Rightarrow> client \<Rightarrow> bool" where
  "client_inv n a c \<longleftrightarrow> finite (live c) \<and> dom (rdef (heap c)) = live c \<and>
     (\<forall>x d. rdef (heap c) x = Some d \<longrightarrow> dbase d = a \<and> data_ok (ddata d) \<and> rlen (ddata d) \<noteq> 0) \<and>
     (case rctx (heap c) a of None \<Rightarrow> held c + card (live c) = 0
      | Some ctx \<Rightarrow> rref ctx = held c + card (live c) \<and> 0 < rref ctx \<and> data_ok (rdata ctx) \<and> has_target ctx
          \<and> (rsend ctx \<noteq> 0 \<longrightarrow> answered c + pending c a + card (live c) = n)) \<and>
     answered c + pending c a + card (live c) \<le> n"

lemma perform_inv:
  assumes i: "client_inv n a c" and al: "allowed c x"
  shows "\<exists>d. perform a x c = Some d \<and> client_inv n a d"
proof -
  have L: "finite (live c)" "dom (rdef (heap c)) = live c"
    "\<And>x d. rdef (heap c) x = Some d \<Longrightarrow> dbase d = a \<and> data_ok (ddata d) \<and> rlen (ddata d) \<noteq> 0"
    and count: "answered c + pending c a + card (live c) \<le> n" using i unfolding client_inv_def by blast+
  have h: "0 < held c \<or> live c \<noteq> {}" using al by (auto simp: allowed_def split: rop.splits option.splits)
  then obtain ctx where ctx: "rctx (heap c) a = Some ctx"
    using i L(1) by (cases "rctx (heap c) a") (auto simp: client_inv_def)
  have r: "rref ctx = held c + card (live c)" "0 < rref ctx" "data_ok (rdata ctx)" "has_target ctx"
    "rsend ctx \<noteq> 0 \<longrightarrow> answered c + pending c a + card (live c) = n"
    using i ctx by (auto simp: client_inv_def)
  have p: "pending c a = (if rlen (rdata ctx) = 0 then 0 else 1)" by (simp add: pending_def ctx)
  show ?thesis
  proof (cases x)
    case (Answer msg ret)
    have "0 \<le> ret" using al Answer by (simp add: allowed_def)
    from contextSend_ok [OF r(3,4) this, of msg] obtain q d t where
      s: "contextSend ctx (rdata ctx) msg ret = Some (q, d, t)" "data_ok d" "rlen d = 0"
        "sent ret t = (if rlen (rdata ctx) \<noteq> 0 \<and> rsend ctx \<noteq> 0 then 1 else 0)" .
    have "perform a x c = Some (c\<lparr>heap := (heap c)\<lparr>rctx := (rctx (heap c))(a \<mapsto> ctx\<lparr>rdata := d\<rparr>)\<rparr>, answered := answered c + sent ret t\<rparr>)"
      using Answer ctx s(1) by (simp add: perform_def contextSet_def)
    then show ?thesis using L r s(2-4) count p by (auto simp: client_inv_def pending_def has_target_def)
  next
    case (Defer new)
    show ?thesis
    proof (cases "rlen (rdata ctx) = 0 \<or> fst (mpt_refcount_raise (rref ctx)) = 0 \<or> new = None")
      case True
      have "snd (mpt_refcount_lower (snd (mpt_refcount_raise (rref ctx)))) = rref ctx" if "fst (mpt_refcount_raise (rref ctx)) \<noteq> 0"
        using that r(2) by (simp add: mpt_refcount_raise_def mpt_refcount_lower_def split: if_splits)
      moreover have "(rctx (heap c))(a \<mapsto> ctx) = rctx (heap c)" using ctx by (simp add: fun_upd_idem)
      ultimately have "perform a x c = Some c" using Defer ctx True
        by (auto simp: perform_def contextDefer_def Let_def split_beta split: option.split)
      then show ?thesis using i by simp
    next
      case False
      then obtain y where y: "new = Some y" "rlen (rdata ctx) \<noteq> 0" "mpt_refcount_raise (rref ctx) = (rref ctx + 1, rref ctx + 1)"
        by (auto simp: mpt_refcount_raise_def split: if_splits)
      have m: "rdef (heap c) y = None" using al Defer y(1) by (simp add: allowed_def)
      then have nl: "y \<notin> live c" using L(2) by auto
      have "perform a x c = Some (c\<lparr>heap := (heap c)\<lparr>rctx := (rctx (heap c))(a \<mapsto> ctx\<lparr>rref := rref ctx + 1, rdata := (rdata ctx)\<lparr>rlen := 0\<rparr>\<rparr>),
          rdef := (rdef (heap c))(y \<mapsto> \<lparr>dbase = a, ddata = rdata ctx\<rparr>)\<rparr>, live := insert y (live c)\<rparr>)"
        using Defer ctx y by (simp add: perform_def contextDefer_def)
      then show ?thesis using L r count p nl y(2) by (auto simp: client_inv_def pending_def data_ok_def has_target_def)
    qed
  next
    case AddRef
    obtain q v where q: "mpt_refcount_raise (rref ctx) = (q, v)" by (cases "mpt_refcount_raise (rref ctx)")
    have qv: "v = (if q \<noteq> 0 then rref ctx + 1 else rref ctx)" using q r(2) by (auto simp: mpt_refcount_raise_def split: if_splits)
    have "perform a x c = Some (c\<lparr>heap := (heap c)\<lparr>rctx := (rctx (heap c))(a \<mapsto> ctx\<lparr>rref := v\<rparr>)\<rparr>, held := (if q \<noteq> 0 then held c + 1 else held c)\<rparr>)"
      using AddRef ctx q by (simp add: perform_def contextRef_def)
    then show ?thesis using L r count p qv by (auto simp: client_inv_def pending_def has_target_def)
  next
    case (Unref ret)
    have hp: "0 < held c" "0 \<le> ret" using al Unref by (simp_all add: allowed_def)
    have lw: "mpt_refcount_lower (rref ctx) = (rref ctx - 1, rref ctx - 1)" using r(2) by (simp add: mpt_refcount_lower_def)
    show ?thesis
    proof (cases "rref ctx = 1")
      case False
      then have "perform a x c = Some (c\<lparr>heap := (heap c)\<lparr>rctx := (rctx (heap c))(a \<mapsto> ctx\<lparr>rref := rref ctx - 1, rsend := 0\<rparr>)\<rparr>, held := held c - 1\<rparr>)"
        using Unref ctx lw r(2) by (simp add: perform_def contextUnref_def sent_def)
      then show ?thesis using L r count p hp False by (auto simp: client_inv_def pending_def has_target_def)
    next
      case True
      then have "card (live c) = 0" "held c = 1" using r(1) hp by linarith+
      then have e: "live c = {}" "held c = 1" using L(1) by simp_all
      from contextSend_ok [OF r(3,4) hp(2), of None] obtain q d t where
        s: "contextSend ctx (rdata ctx) None ret = Some (q, d, t)" "sent ret t = (if rlen (rdata ctx) \<noteq> 0 \<and> rsend ctx \<noteq> 0 then 1 else 0)" .
      then obtain u where u: "contextUnref (heap c) a ret = Some ((heap c)\<lparr>rctx := (rctx (heap c))(a := None)\<rparr>, u)" "sent ret u \<le> pending c a"
        using ctx lw True p by (cases "rsend ctx \<noteq> 0 \<and> rlen (rdata ctx) \<noteq> 0") (auto simp: contextUnref_def sent_def)
      then have "perform a x c = Some (c\<lparr>heap := (heap c)\<lparr>rctx := (rctx (heap c))(a := None)\<rparr>, held := 0, answered := answered c + sent ret u\<rparr>)"
        using Unref e by (simp add: perform_def)
      then show ?thesis using L e count u(2) by (auto simp: client_inv_def pending_def)
    qed
  next
    case (AnswerDeferred y msg ret)
    have y: "y \<in> live c" "0 \<le> ret" using al AnswerDeferred by (simp_all add: allowed_def)
    then obtain def where d: "rdef (heap c) y = Some def" using L(2) by auto
    have db: "dbase def = a" "data_ok (ddata def)" "rlen (ddata def) \<noteq> 0" using L(3) [OF d] by auto
    from contextSend_ok [OF db(2) r(4) y(2), of msg] obtain q d' t where
      s: "contextSend ctx (ddata def) msg ret = Some (q, d', t)" "data_ok d'" "0 < rlen (ddata def) \<longrightarrow> 0 \<le> q"
        "sent ret t = (if rlen (ddata def) \<noteq> 0 \<and> rsend ctx \<noteq> 0 then 1 else 0)" .
    have cl: "0 < card (live c)" using y L(1) card_gt_0_iff by blast
    have q: "0 \<le> q" using s(3) db(3) by simp
    have lw: "mpt_refcount_lower (rref ctx) = (rref ctx - 1, rref ctx - 1)" using r(2) by (simp add: mpt_refcount_lower_def)
    have cd: "card (live c - {y}) = card (live c) - 1" using y L(1) by simp
    have "perform a x c = Some (c\<lparr>heap := (heap c)\<lparr>rctx := (rctx (heap c))(a := if rref ctx - 1 \<noteq> 0 then Some (ctx\<lparr>rref := rref ctx - 1\<rparr>) else None),
        rdef := (rdef (heap c))(y := None)\<rparr>, live := live c - {y}, answered := answered c + sent ret t\<rparr>)"
      using AnswerDeferred d db ctx s(1) lw q by (auto simp: perform_def deferReply_def contextDetach_def)
    then show ?thesis using L r count p cd cl s(4) y db(3) by (auto simp: client_inv_def pending_def has_target_def)
  qed
qed

lemma reach_inv: "reach a c d \<Longrightarrow> client_inv n a c \<Longrightarrow> client_inv n a d"
proof (induction rule: reach.induct)
  case (step d x e)
  then show ?case using perform_inv [of n a d x] by auto
qed

lemma one_client_inv:
  assumes "data_ok (rdata ctx)" and "rref ctx = 1" and "has_target ctx"
  shows "client_inv (if rlen (rdata ctx) = 0 then 0 else 1) a (one_client a ctx)"
  using assms by (auto simp: client_inv_def one_client_def pending_def)

text \<open>A new context is one of them, without an identifier.\<close>

lemma deferrable_client:
  assumes "mpt_reply_deferrable \<lparr>rctx = Map.empty, rdef = Map.empty\<rparr> len send ptr new = (Some a, h)"
  obtains ctx where "h = heap (one_client a ctx)" "data_ok (rdata ctx)" "rref ctx = 1" "rlen (rdata ctx) = 0"
    "rsend ctx = send" "rptr ctx = ptr" "rmax (rdata ctx) = len"
  using assms by (auto simp: mpt_reply_deferrable_def one_client_def data_ok_def split: if_splits option.splits)

section \<open>Properties\<close>

text \<open>Property C13: a reply context with one reference whose data may hold an identifier (it comes with the
  context: clients of the source cannot store it, since \<open>contextConv\<close> gives them the address of the
  function table in place of the data, see \<open>contextConv_data\<close>).  Whatever the clients do with the references and
  deferred objects they hold, as long as a transmission has a target and succeeds (after a failed one
  the log message has undefined behaviour, \<open>contextSend_failed\<close>): no operation uses released memory, the context is released
  exactly when the last reference and the last deferred object are gone, an identifier is answered at most
  once and never without one.  As long as no reference was released while there were others, which disables the
  transmission, the identifier is either answered, or in the context, or in exactly one deferred object.\<close>

theorem reply_answered_once:
  assumes "data_ok (rdata ctx)" and "rref ctx = 1" and "has_target ctx"
    and "reach a (one_client a ctx) c" and "n = (if rlen (rdata ctx) = 0 then 0 else 1)"
  shows "answered c \<le> n \<and> (rctx (heap c) a = None) = (held c = 0 \<and> live c = {}) \<and>
    (\<forall>ctx'. rctx (heap c) a = Some ctx' \<and> rsend ctx' \<noteq> 0 \<longrightarrow> answered c + pending c a + card (live c) = n) \<and>
    (\<forall>x. allowed c x \<longrightarrow> perform a x c \<noteq> None)"
proof -
  have i: "client_inv n a c" unfolding assms(5) by (rule reach_inv [OF assms(4) one_client_inv [OF assms(1-3)]])
  then have "answered c \<le> n" "(rctx (heap c) a = None) = (held c = 0 \<and> live c = {})"
    "\<forall>ctx'. rctx (heap c) a = Some ctx' \<and> rsend ctx' \<noteq> 0 \<longrightarrow> answered c + pending c a + card (live c) = n"
    by (auto simp: client_inv_def split: option.splits)
  moreover have "perform a x c \<noteq> None" if "allowed c x" for x using perform_inv [OF i that] by auto
  ultimately show ?thesis by blast
qed

text \<open>An identifier is taken over by a deferred object, which is answered while the context is still referenced.\<close>

fun run :: "nat \<Rightarrow> rop list \<Rightarrow> client \<Rightarrow> client option" where
  "run a [] c = Some c"
| "run a (x # xs) c = (if allowed c x then do { d \<leftarrow> perform a x c; run a xs d } else None)"

lemma run_reach: "run a xs d = Some e \<Longrightarrow> reach a c d \<Longrightarrow> reach a c e"
  by (induction xs arbitrary: d) (auto split: if_splits bind_splits intro: reach.step)

definition ctx0 :: reply_context where
  "ctx0 = \<lparr>rsend = 5, rptr = 6, rref = 1, rdata = \<lparr>rmax = 2, rlen = 2, rval = [0, 9, 0, 0]\<rparr>\<rparr>"

theorem reply_answered_once_witness:
  "\<exists>c. run 1 [Defer (Some 4), Answer None 1, AddRef, AnswerDeferred 4 (Some \<lparr>mbase = [1], mcont = []\<rparr>) 3] (one_client 1 ctx0) = Some c
    \<and> held c = 2 \<and> live c = {} \<and> answered c = 1 \<and> rctx (heap c) 1 \<noteq> None \<and> (\<forall>x. allowed c x \<longrightarrow> perform 1 x c \<noteq> None)"
proof -
  let ?ops = "[Defer (Some 4), Answer None 1, AddRef, AnswerDeferred 4 (Some \<lparr>mbase = [1], mcont = []\<rparr>) 3]"
  have b: "mpt_message_buf2id (x # y # xs) 2 True = Some (if x \<noteq> 0 then 1 else 0, None)" for x y xs
    by (simp add: mpt_message_buf2id_def rd_def buf2id_loop.simps [of _ _ 2])
  have "\<exists>c. run 1 ?ops (one_client 1 ctx0) = Some c \<and> held c = 2 \<and> live c = {} \<and> answered c = 1"
    by (simp add: one_client_def ctx0_def allowed_def perform_def rd_def wr_def contextDefer_def
      mpt_refcount_raise_def mpt_refcount_lower_def contextSet_def contextSend_def contextRef_def deferReply_def
      contextDetach_def set_first_def sent_def b)
  then obtain c where c: "run 1 ?ops (one_client 1 ctx0) = Some c" "held c = 2" "live c = {}" "answered c = 1" by blast
  have "reach 1 (one_client 1 ctx0) c" by (rule run_reach [OF c(1) reach.start])
  from reply_answered_once [OF _ _ _ this refl] c show ?thesis
    by (intro exI [of _ c]) (simp add: ctx0_def data_ok_def has_target_def)
qed

end
