(* ===== verification/Spec2Isabelle.thy ===== *)
theory Spec2Isabelle
  imports GlobalConfig TypeRegistry TextCoding Message MsgValue CodedQueue DataConvert NodeData NodeTraverse ParserTotal Dispatch Reply
begin

text \<open>
  Verification library of the message passing toolkit MPT, its core library \<open>src/mptcore\<close>.

  \<^bold>\<open>The program.\<close>  MPT passes messages between processes.  Bytes that arrive or leave are kept in a ring
  buffer (\<open>queue.h\<close>, \<open>queue/\<close>); messages are marked in this stream of bytes by an encoding, COBS or
  COBS/ZPE with or without tail inlining (\<open>convert/encode_cobs*.c\<close>, \<open>convert/decode_cobs*.c\<close>); a
  queue with encoder or decoder (\<open>queue_push.c\<close>, \<open>queue_recv.c\<close>, \<open>queue_peek.c\<close>, \<open>queue_shift.c\<close>)
  offers the transfer of messages; a received message is a sequence of memory parts that is searched
  and consumed (\<open>message/\<close>); values are converted between native types (\<open>convert/\<close>); configuration
  is a tree of nodes (\<open>node/\<close>) with identifiers (\<open>misc/identifier.c\<close>) that is addressed by element
  paths (\<open>config/path_*.c\<close>) and read by a parser (\<open>parse/\<close>), both on reference counted buffers (\<open>array/\<close>).
  A received message becomes an event that is dispatched by its identifier or the hash of its text to
  the commands of a table (\<open>event/\<close>, \<open>misc/hash*.c\<close>) and answered through a reply context.  Values are
  metatypes (\<open>meta/\<close>), their types have codes in a registry (\<open>types/\<close>).

  \<^bold>\<open>Theories and what they model.\<close>

  \<^item> \<open>MptBase\<close>: bytes, memory blocks, reads and writes with bounds, error codes, the unsigned difference.
  \<^item> \<open>Memrev\<close>: \<open>queue/memrev.c\<close>, exchange and rotation of memory; the rotation equals the exchange of the
    two lists for every pivot.
  \<^item> \<open>ByteQueue\<close>: the interfaces \<open>byte_queue\<close> and \<open>byte_deque\<close> of a bounded sequence of bytes: the
    answers and the queue left by requests that fit and by those that do not, with the lemmas clients use.
  \<^item> \<open>Queue\<close>: \<open>struct mpt_queue\<close> as a record (block, length, size, offset) and every operation of \<open>queue/\<close>
    that works on it.  The contents of a queue are the bytes from the offset with wrap-around; each
    operation is specified by its effect on the contents and interpreted as a \<open>byte_deque\<close>.
    Sequences of operations refine the bounded FIFO list, with the refusals and the one request that traps.
  \<^item> \<open>Message\<close>: \<open>message/\<close>, messages and vectors of parts (read, length, the searches, copy, tokens,
    arguments, identifiers, messages inside of a queue); results are related to the joined bytes of
    the parts.  The interface \<open>byte_source\<close> states what reading promises.
  \<^item> \<open>MsgValue\<close>: \<open>message/msgvalfmt.c\<close> and \<open>types/type_int.c\<close>, format codes of native types.
  \<^item> \<open>Coding\<close>, \<open>CobsEncode\<close>, \<open>CobsDecode\<close>: encoder and decoder states of \<open>core.h\<close>, the four variants of
    the encoder and decoder source, and the automaton of the encoding on a stream of bytes.
    Pushed pieces and the end of a message give one frame, the frame is decoded to the message in
    place, a decoder that stopped inside of a message continues as the automaton does.
  \<^item> \<open>CodedQueue\<close>: the queues with encoder and decoder.  The interface \<open>frame_codec\<close> states what they
    rely on and is interpreted for all variants; a message pushed in pieces, with the space it
    may need behind the offset of its queue, is received as this message, also where the contents of the
    receiving queue wrap around the end of the block.
  \<^item> \<open>DataConvert\<close>: \<open>convert/data_convert_int.c\<close>, exactness of the conversions between integer types.
  \<^item> \<open>Identifier\<close>: \<open>misc/identifier.c\<close>, with the overlay of inline data and block pointer and a heap of
    blocks.
  \<^item> \<open>Node\<close>, \<open>NodeData\<close>, \<open>NodeTraverse\<close>: \<open>node/\<close> on a heap of nodes.  The predicate \<open>sibs\<close> relates a heap to
    a list of trees below a parent; the link operations act as insertion in and removal from this list
    and keep everything else (interface \<open>child_list\<close>), search selects by name and position, release
    frees each object of a tree once, the four traversals visit the nodes in their orders.
  \<^item> \<open>Buffer\<close>, \<open>Array\<close>: \<open>array/\<close> and \<open>misc/refcount.c\<close>, reference counted buffers with raw and typed
    content, the arrays and slices on them, compaction and bit maps.  The predicate \<open>private_copy\<close>
    states that an operation works on a buffer of its own and other holders keep what they see.
  \<^item> \<open>Path\<close>, \<open>PathArray\<close>: \<open>config/path_*.c\<close>, paths on memory of the caller (elements of text paths are
    delivered once in order) and paths that own a buffer, where sequences of operations refine a list of
    elements and a list of collected characters (predicate \<open>pst\<close>).
  \<^item> \<open>Parser\<close>, \<open>ParserProof\<close>: \<open>parse/\<close>, the readers of characters, names, values, options and sections of
    all formats, and the loop over the elements of a configuration.  The text of a configuration tree is
    read back as the events of this tree.
  \<^item> \<open>ParserTotal\<close>: on any input, in any format and with any handler the parser returns
    and leaves valid memory.
  \<^item> \<open>Metatype\<close>: \<open>misc/geninfo*.c\<close>, \<open>meta/meta_geninfo.c\<close>, \<open>meta/meta_new.c\<close>, \<open>convert/data_tostring.c\<close>,
    text in metatypes, with the sizes that are kept and those that are refused.
  \<^item> \<open>ConfigTree\<close>: \<open>parse/node_append.c\<close>, \<open>parse_node.c\<close>, \<open>node_parse.c\<close>, \<open>config/node_query.c\<close>,
    \<open>node_assign.c\<close>: the tree of nodes that the parser creates.  The predicate \<open>tree_rep\<close> relates it to
    the tree in the text, so that reading a text and asking for a path are functions of trees.
  \<^item> \<open>GlobalConfig\<close>: \<open>config/config_global.c\<close>, the global list of nodes behind the configuration interface.  The
    predicate \<open>config_rep\<close> relates it to a forest of values, on which assignment and lookup are functions
    (\<open>vassign\<close>, \<open>vlookup\<close>) with the law \<open>value_at_assign\<close>.
  \<^item> \<open>Command\<close>: \<open>event/command_*.c\<close>, the table of commands in an array.  Sequences of settings, removals
    and clearing refine a map from identifiers to handlers, which lookups read; a reservation has a lemma of its own.
  \<^item> \<open>Dispatch\<close>: \<open>event/dispatch_*.c\<close>, \<open>misc/hash*.c\<close>, the dispatch of events by identifier, by the hash of
    the first argument, and the default of a dispatcher.
  \<^item> \<open>Reply\<close>: \<open>event/reply_*.c\<close>, reply contexts as a state machine: an identifier that a context
    holds is answered at most once and the objects live as long as they are referenced, while transmissions succeed.
  \<^item> \<open>TypeRegistry\<close>: \<open>types/type_traits.c\<close>, \<open>types/alias_typeid.c\<close>, the tables and lists of registered types.
    The lists a registry holds (\<open>view\<close>) decide what a code stands for (\<open>resolve\<close>), each registration adds
    one item to one list.
  \<^item> \<open>TextCoding\<close>: \<open>convert/encode_string.c\<close>, \<open>decode_command.c\<close>, \<open>encoder.c\<close>, \<open>decoder.c\<close>, \<open>encoding.c\<close>,
    \<open>convert_key.c\<close>, \<open>newline_string.c\<close>, \<open>bswap.c\<close>: text as command messages, the selection of encodings, keywords
    and byte order.

  \<^bold>\<open>Conventions.\<close>  A call is a value of an option type: \<open>None\<close> is undefined behaviour (an access out of
  bounds, a dereferenced null pointer, an invalid release, a trap) or a loop that does not end, so that
  every theorem with a \<open>Some\<close> on its right-hand side states that the call returns.  Error
  results are the values of \<open>enum MPT_ENUM(Errors)\<close>, or null pointers, as in the source.  Loops that may
  not end on damaged data (cyclic lists) are partial functions, all others are total with a
  termination proof; there is no fuel in the development.  A 64 bit little-endian target is
  assumed (sizes of the structures, width of \<open>size_t\<close>).  Functions of the operating system and the C library that have
  effects (\<open>readv\<close>, \<open>writev\<close>, \<open>malloc\<close>, \<open>fwrite\<close>), virtual functions of other objects and call-backs are
  parameters.

  \<^bold>\<open>Deviations.\<close>  Theorems of the kind error, and some lemmas, state what the code does where this is not
  what it means to do: removal at the end of a queue that delivers the front, removal inside of a
  split queue, identifiers of messages, the decoder that stalls on an odd address, the block of maximum
  length at the end of the buffer, pushes in the upper part of a queue or over the end of its block, the
  conversion of a reply context to its data and the log messages of failed replies, conversions with a wrong
  type or size, copies of identifiers and of node lists, exchange and merge of nodes, text of 250 and more
  bytes that no metatype takes, the parent of the first nodes of a parsed configuration, names of 256
  and more bytes, queries of binary paths, the removal of the first
  global element, the header of a command message next to its text, the
  removal of encoded text, vectors without traits.

  \<^bold>\<open>Not modelled.\<close>  Configurations with allocated items, handlers of events that forward to configurations, objects and
  their properties, output, clients and iterators: calls of virtual interfaces around the components above.
  Conversion between text and numbers and formatted printing, which rest on the C library; floating point
  conversion; mapped files and the metatype of a buffer (\<open>array/printf.c\<close>, \<open>buffer_map.c\<close>, \<open>meta_buffer.c\<close>);
  the release of the type tables at exit; \<open>mptio\<close> (sockets, files, polling), \<open>mptplot\<close> (floating point data
  and layout), \<open>mptloader\<close>, the bindings and the examples.
\<close>

end
